(* ===== verification/Prelude.thy ===== *)
theory Prelude
  imports Main "HOL-Library.Word"
begin

text \<open>
  Shared vocabulary of the moOS model: the machine types of the C code, the
  error codes of \<^verbatim>\<open>src/kernel/config.h\<close>, C strings as byte lists, and the generic
  facts on lists and words that the component theories use.

  C strings are lists of the bytes in front of the terminator. Reading index
  \<open>length s\<close> gives the terminator, so a character of a string is always read
  with \<open>chr_at\<close>, never with \<open>nth\<close>.
\<close>

unbundle bit_operations_syntax

section \<open>Machine types\<close>

type_synonym u8 = "8 word"
type_synonym u16 = "16 word"
type_synonym u32 = "32 word"
type_synonym u64 = "64 word"
type_synonym bytes = "u8 list"

named_theorems config_simps \<open>values of the configuration constants\<close>

section \<open>Error codes\<close>

text \<open>The kernel returns a negated error code where it fails. In the model such a
  result is \<open>Inl e\<close>; \<open>err_code\<close> is the number a program sees.\<close>

datatype error =
    IO_ERROR | NO_MEMORY_ERROR | INVALID_ARG_ERROR | INVALID_PATH_ERROR
  | FILE_HANDLER_OVERFLOW | INVALID_DISK_ERROR | SIGNATURE_ERROR
  | NON_PERMITTED_READ_ERROR | UNIMPLEMENTED_FEATURE_ERROR | NOT_DIRECTORY_ERROR
  | NOT_FOUND_ERROR | DIR_NOT_EMPTY_ERROR | FILE_EXISTS_ERROR | BROKEN_PIPE_ERROR

fun err_code :: "error \<Rightarrow> int" where
  "err_code IO_ERROR = - 1"
| "err_code NO_MEMORY_ERROR = - 2"
| "err_code INVALID_ARG_ERROR = - 3"
| "err_code INVALID_PATH_ERROR = - 4"
| "err_code FILE_HANDLER_OVERFLOW = - 5"
| "err_code INVALID_DISK_ERROR = - 6"
| "err_code SIGNATURE_ERROR = - 7"
| "err_code NON_PERMITTED_READ_ERROR = - 8"
| "err_code UNIMPLEMENTED_FEATURE_ERROR = - 9"
| "err_code NOT_DIRECTORY_ERROR = - 10"
| "err_code NOT_FOUND_ERROR = - 11"
| "err_code DIR_NOT_EMPTY_ERROR = - 12"
| "err_code FILE_EXISTS_ERROR = - 13"
| "err_code BROKEN_PIPE_ERROR = - 14"

lemma err_code_neg: "err_code e < 0"
  by (cases e) simp_all

section \<open>C strings\<close>

definition chr_at :: "bytes \<Rightarrow> nat \<Rightarrow> u8" where
  "chr_at s i = (if i < length s then s ! i else 0)"

definition is_cstr :: "bytes \<Rightarrow> bool" where
  "is_cstr s \<longleftrightarrow> 0 \<notin> set s"

text \<open>The value of a plain \<^verbatim>\<open>char\<close>, which is signed on x86.\<close>

definition schar :: "u8 \<Rightarrow> int" where
  "schar c = sint c"

definition str :: "string \<Rightarrow> bytes" where
  "str s = map of_char s"

lemma chr_at_less [simp]: "i < length s \<Longrightarrow> chr_at s i = s ! i"
  by (simp add: chr_at_def)

lemma chr_at_end [simp]: "length s \<le> i \<Longrightarrow> chr_at s i = 0"
  by (simp add: chr_at_def)

lemma chr_at_nonzero: "is_cstr s \<Longrightarrow> chr_at s i \<noteq> 0 \<longleftrightarrow> i < length s"
  by (metis chr_at_def is_cstr_def nth_mem)

lemma is_cstr_simps [simp]:
  "is_cstr []" "is_cstr (c # s) \<longleftrightarrow> c \<noteq> 0 \<and> is_cstr s"
  "is_cstr (s @ t) \<longleftrightarrow> is_cstr s \<and> is_cstr t"
  by (auto simp: is_cstr_def)

section \<open>Little endian numbers in byte lists\<close>

definition byte_at :: "bytes \<Rightarrow> nat \<Rightarrow> u8" where
  "byte_at bs i = (if i < length bs then bs ! i else 0)"

definition get16 :: "bytes \<Rightarrow> nat \<Rightarrow> u16" where
  "get16 bs i = ucast (byte_at bs i) + 256 * ucast (byte_at bs (i + 1))"

definition get32 :: "bytes \<Rightarrow> nat \<Rightarrow> u32" where
  "get32 bs i = ucast (get16 bs i) + 65536 * ucast (get16 bs (i + 2))"

definition put16 :: "nat \<Rightarrow> u16 \<Rightarrow> bytes \<Rightarrow> bytes" where
  "put16 i v bs = bs[i := ucast v, i + 1 := ucast (v div 256)]"

definition put32 :: "nat \<Rightarrow> u32 \<Rightarrow> bytes \<Rightarrow> bytes" where
  "put32 i v bs = put16 (i + 2) (ucast (v div 65536)) (put16 i (ucast v) bs)"

section \<open>Words\<close>

lemma unat_u8_less: "unat (x :: u8) < 256"
  by (rule order.strict_trans2 [OF unsigned_less]) simp

lemma unat_u16_less: "unat (x :: u16) < 65536"
  by (rule order.strict_trans2 [OF unsigned_less]) simp

lemma unat_u32_less: "unat (x :: u32) < 4294967296"
  by (rule order.strict_trans2 [OF unsigned_less]) simp

end
