(* ===== verification/Heap.thy ===== *)
theory Heap
  imports Prelude "HOL-Library.Signed_Division"
begin

text \<open>
  The block allocator of the kernel heap, \<^verbatim>\<open>src/kernel/memory/heap/heap.c\<close> and its
  wrappers in \<^verbatim>\<open>src/kernel/kmem/kheap.c\<close>: a table with one byte per 4 kb block,
  first fit allocation and a checked free.

  The first part translates the code. The second part gives the meaning of a
  table: the map \<open>blocks\<close> from the index of the first block of every live
  allocation to its number of blocks. \<open>heap_malloc\<close> and \<open>heap_free\<close> are then
  shown to be a map update and a map removal. The locale \<open>allocator\<close> is the
  interface the rest of the kernel relies on, interpreted here by the code.
\<close>

section \<open>The code\<close>

abbreviation (input) HEAP_BLOCK_SIZE :: nat where "HEAP_BLOCK_SIZE \<equiv> 4096"
abbreviation (input) ENTRY_TAKEN :: u8 where "ENTRY_TAKEN \<equiv> 0x01"
abbreviation (input) ENTRY_FREE :: u8 where "ENTRY_FREE \<equiv> 0x00"
abbreviation (input) BLOCK_HAS_NEXT :: u8 where "BLOCK_HAS_NEXT \<equiv> 0x80"
abbreviation (input) BLOCK_IS_FIRST :: u8 where "BLOCK_IS_FIRST \<equiv> 0x40"

record heap_desc =
  h_table :: "u8 list"  \<comment> \<open>\<^verbatim>\<open>table->entries\<close>, \<^verbatim>\<open>total_entries\<close> is its length\<close>
  h_addr :: u32         \<comment> \<open>start address of the heap\<close>

definition heap_desc_init :: "u32 \<Rightarrow> u32 \<Rightarrow> u8 list \<Rightarrow> error + heap_desc" where
  "heap_desc_init start fin tbl =
    (if start mod 4096 \<noteq> 0 \<or> fin mod 4096 \<noteq> 0 then Inl INVALID_ARG_ERROR
     else if word_of_nat (length tbl) \<noteq> (word_of_int (sint (fin - start) sdiv 4096) :: u32)
     then Inl INVALID_ARG_ERROR
     else Inr \<lparr>h_table = replicate (length tbl) ENTRY_FREE, h_addr = start\<rparr>)"

fun find_free_loop :: "u8 list \<Rightarrow> nat \<Rightarrow> nat \<Rightarrow> nat option \<Rightarrow> nat \<Rightarrow> error + nat" where
  "find_free_loop [] i current start want = Inl NO_MEMORY_ERROR"
| "find_free_loop (e # es) i current start want =
    (if e AND 0x0f \<noteq> ENTRY_FREE then find_free_loop es (Suc i) 0 None want
     else let s = (case start of None \<Rightarrow> i | Some s \<Rightarrow> s)
          in if Suc current = want then Inr s
             else find_free_loop es (Suc i) (Suc current) (Some s) want)"

definition find_free_block :: "heap_desc \<Rightarrow> nat \<Rightarrow> error + nat" where
  "find_free_block h want = find_free_loop (h_table h) 0 0 None want"

function mark_loop :: "u8 list \<Rightarrow> nat \<Rightarrow> nat \<Rightarrow> u8 \<Rightarrow> u8 list" where
  "mark_loop t i fin entry =
    (if i \<le> fin
     then mark_loop (t[i := entry]) (Suc i) fin
            (if Suc i \<noteq> fin then ENTRY_TAKEN OR BLOCK_HAS_NEXT else ENTRY_TAKEN)
     else t)"
  by pat_completeness auto
termination by (relation "measure (\<lambda>(t, i, fin, entry). Suc fin - i)") auto

declare mark_loop.simps [simp del]

definition mark_taken_blocks :: "heap_desc \<Rightarrow> nat \<Rightarrow> nat \<Rightarrow> heap_desc" where
  "mark_taken_blocks h start want =
    (let entry = ENTRY_TAKEN OR BLOCK_IS_FIRST;
         entry = (if want > 1 then entry OR BLOCK_HAS_NEXT else entry)
     in h\<lparr>h_table := mark_loop (h_table h) start (start + want - 1) entry\<rparr>)"

text \<open>Returns the address of the allocation, 0 when there is no room.\<close>

definition heap_malloc_blocks :: "heap_desc \<Rightarrow> nat \<Rightarrow> heap_desc \<times> u32" where
  "heap_malloc_blocks h want =
    (case find_free_block h want of
       Inl _ \<Rightarrow> (h, 0)
     | Inr start \<Rightarrow> (mark_taken_blocks h start want, h_addr h + 4096 * word_of_nat start))"

definition heap_malloc :: "heap_desc \<Rightarrow> u32 \<Rightarrow> heap_desc \<times> u32" where
  "heap_malloc h sz =
    (let sz = (if sz mod 4096 > 0 then (sz - sz mod 4096) + 4096 else sz);
         want = unat (sz div 4096)
     in if want = 0 then (h, 0) else heap_malloc_blocks h want)"

function free_loop :: "u8 list \<Rightarrow> nat \<Rightarrow> u8 list" where
  "free_loop t i =
    (if i < length t
     then let entry = t ! i; t' = t[i := ENTRY_FREE]
          in if entry AND BLOCK_HAS_NEXT = 0 then t' else free_loop t' (Suc i)
     else t)"
  by pat_completeness auto
termination by (relation "measure (\<lambda>(t, i). length t - i)") (auto simp: Let_def)

declare free_loop.simps [simp del]

definition heap_free_blocks :: "heap_desc \<Rightarrow> u32 \<Rightarrow> heap_desc" where
  "heap_free_blocks h addr =
    h\<lparr>h_table := free_loop (h_table h) (unat ((addr - h_addr h) div 4096))\<rparr>"

definition heap_free :: "heap_desc \<Rightarrow> u32 \<Rightarrow> error + heap_desc" where
  "heap_free h addr =
    (if addr < h_addr h
        \<or> addr \<ge> h_addr h + word_of_nat (length (h_table h)) * 4096
        \<or> (addr - h_addr h) mod 4096 \<noteq> 0
     then Inl INVALID_ARG_ERROR
     else let block_number = unat ((addr - h_addr h) div 4096)
          in if h_table h ! block_number AND BLOCK_IS_FIRST = 0 then Inl INVALID_ARG_ERROR
             else Inr (heap_free_blocks h addr))"

record heap_statistics =
  total_blocks :: nat
  used_blocks :: nat

definition heap_stats :: "heap_desc \<Rightarrow> heap_statistics" where
  "heap_stats h =
    \<lparr>total_blocks = length (h_table h),
     used_blocks = length (filter (\<lambda>e. e AND 0x0f = ENTRY_TAKEN) (h_table h))\<rparr>"

text \<open>The kernel heap, over whatever the table memory held at boot.\<close>

definition kernel_heap_init :: "u8 list \<Rightarrow> error + heap_desc" where
  "kernel_heap_init table_memory =
    heap_desc_init 0x01000000 (0x01000000 + 104857600) (take (104857600 div 4096) table_memory)"

text \<open>\<^verbatim>\<open>kfree\<close> ignores null and reports (here: ignores) pointers that are not the
  start of an allocation.\<close>

definition kfree :: "heap_desc \<Rightarrow> u32 \<Rightarrow> heap_desc" where
  "kfree h addr =
    (if addr = 0 then h else case heap_free h addr of Inl _ \<Rightarrow> h | Inr h' \<Rightarrow> h')"

section \<open>The meaning of a table\<close>

text \<open>Length of the run that starts with the first entry.\<close>

fun run_len :: "u8 list \<Rightarrow> nat" where
  "run_len [] = 0"
| "run_len (e # es) = (if e AND BLOCK_HAS_NEXT = 0 then 1 else Suc (run_len es))"

definition blocks :: "u8 list \<Rightarrow> nat \<Rightarrow> nat option" where
  "blocks t i =
    (if i < length t \<and> t ! i AND BLOCK_IS_FIRST \<noteq> 0 then Some (run_len (drop i t)) else None)"

text \<open>A table the code can produce is the encoding of a list of segments: free
  blocks and allocations.\<close>

datatype seg = Free | Used nat

fun block_entries :: "nat \<Rightarrow> u8 list" where
  "block_entries 0 = []"
| "block_entries (Suc 0) = [ENTRY_TAKEN]"
| "block_entries (Suc (Suc n)) = (ENTRY_TAKEN OR BLOCK_HAS_NEXT) # block_entries (Suc n)"

fun alloc_entries :: "nat \<Rightarrow> u8 list" where
  "alloc_entries 0 = []"
| "alloc_entries (Suc n) =
    (ENTRY_TAKEN OR BLOCK_IS_FIRST OR (if n = 0 then 0 else BLOCK_HAS_NEXT)) # block_entries n"

fun seg_entries :: "seg \<Rightarrow> u8 list" where
  "seg_entries Free = [ENTRY_FREE]"
| "seg_entries (Used n) = alloc_entries n"

definition encode :: "seg list \<Rightarrow> u8 list" where
  "encode segs = concat (map seg_entries segs)"

definition seg_ok :: "seg \<Rightarrow> bool" where
  "seg_ok s \<longleftrightarrow> (case s of Free \<Rightarrow> True | Used n \<Rightarrow> 0 < n)"

definition table_ok :: "u8 list \<Rightarrow> bool" where
  "table_ok t \<longleftrightarrow> (\<exists>segs. list_all seg_ok segs \<and> t = encode segs)"

text \<open>The heap does not wrap around the address space and does not start at 0.\<close>

definition heap_ok :: "heap_desc \<Rightarrow> bool" where
  "heap_ok h \<longleftrightarrow> table_ok (h_table h) \<and> 0 < h_addr h
     \<and> unat (h_addr h) + 4096 * length (h_table h) < 2 ^ 32"

section \<open>Segments\<close>

abbreviation is_free :: "u8 \<Rightarrow> bool" where "is_free e \<equiv> e AND 0x0f = ENTRY_FREE"

definition free_run :: "u8 list \<Rightarrow> nat \<Rightarrow> nat \<Rightarrow> bool" where
  "free_run t s n \<longleftrightarrow> s + n \<le> length t \<and> (\<forall>k<n. is_free (t ! (s + k)))"

lemma encode_simps [simp]:
  "encode [] = []" "encode (s # segs) = seg_entries s @ encode segs"
  "encode (xs @ ys) = encode xs @ encode ys"
  by (simp_all add: encode_def)

lemma encode_replicate_Free [simp]: "encode (replicate n Free) = replicate n ENTRY_FREE"
  by (induction n) simp_all

lemma length_block_entries [simp]: "length (block_entries n) = n"
  by (induction n rule: block_entries.induct) simp_all

lemma length_alloc_entries [simp]: "length (alloc_entries n) = n"
  by (cases n) simp_all

lemma seg_ok_simps [simp]: "seg_ok Free" "seg_ok (Used n) \<longleftrightarrow> 0 < n"
  by (simp_all add: seg_ok_def)

lemma set_block_entries:
  "e \<in> set (block_entries n) \<Longrightarrow> \<not> is_free e \<and> e AND BLOCK_IS_FIRST = 0 \<and> e AND 0x0f = ENTRY_TAKEN"
  by (induction n rule: block_entries.induct) auto

lemma set_alloc_entries: "e \<in> set (alloc_entries n) \<Longrightarrow> e AND 0x0f = ENTRY_TAKEN"
  by (cases n) (auto dest: set_block_entries split: if_splits)

lemma alloc_entries_first: "0 < n \<Longrightarrow> alloc_entries n ! 0 AND BLOCK_IS_FIRST \<noteq> 0"
  by (cases n) auto

lemma alloc_entries_later:
  "0 < i \<Longrightarrow> i < n \<Longrightarrow> alloc_entries n ! i AND BLOCK_IS_FIRST = 0"
proof (cases n; cases i)
  fix m k assume "0 < i" "i < n" "n = Suc m" "i = Suc k"
  then show ?thesis using set_block_entries [of "block_entries m ! k" m] by simp
qed auto

lemma run_len_block: "0 < n \<Longrightarrow> run_len (block_entries n @ t) = n"
  by (induction n rule: block_entries.induct) simp_all

lemma run_len_alloc: "0 < n \<Longrightarrow> run_len (alloc_entries n @ t) = n"
  by (cases n) (auto simp: run_len_block)

lemma free_loop_app: "free_loop (pre @ t) (length pre + i) = pre @ free_loop t i"
proof (induction t i rule: free_loop.induct)
  case (1 t i)
  then show ?case
    by (subst (1 2) free_loop.simps) (auto simp: Let_def nth_append list_update_append)
qed

lemma free_loop_block: "0 < n \<Longrightarrow> free_loop (block_entries n @ t) 0 = replicate n ENTRY_FREE @ t"
proof (induction n rule: block_entries.induct)
  case (3 n)
  then show ?case
    using free_loop_app [of "[ENTRY_FREE]" "block_entries (Suc n) @ t" 0]
    by (subst free_loop.simps) (simp add: Let_def)
qed (simp_all add: free_loop.simps)

lemma free_loop_alloc:
  assumes "0 < n"
  shows "free_loop (alloc_entries n @ t) 0 = replicate n ENTRY_FREE @ t"
proof (cases n)
  case 0
  with assms show ?thesis by simp
next
  case (Suc m)
  show ?thesis
    using Suc free_loop_app [of "[ENTRY_FREE]" "block_entries m @ t" 0]
    by (subst free_loop.simps) (auto simp: Let_def free_loop_block)
qed

lemma mark_loop_eq:
  "i \<le> fin \<Longrightarrow> fin < length t \<Longrightarrow>
   mark_loop t i fin e = take i t @ e # block_entries (fin - i) @ drop (Suc fin) t"
proof (induction t i fin e rule: mark_loop.induct)
  case (1 t i fin e)
  show ?case
  proof (cases "i = fin")
    case True
    with "1.prems" show ?thesis
      by (simp add: mark_loop.simps [of t fin fin e] mark_loop.simps [of _ "Suc fin" fin]
        upd_conv_take_nth_drop)
  next
    case False
    with "1.prems" obtain m where m: "fin - i = Suc m" by (metis Suc_diff_le Suc_le_eq diff_Suc_Suc le_neq_implies_less)
    have "mark_loop t i fin e = take (Suc i) (t[i := e]) @
      (if Suc i \<noteq> fin then ENTRY_TAKEN OR BLOCK_HAS_NEXT else ENTRY_TAKEN) #
      block_entries m @ drop (Suc fin) (t[i := e])"
      using "1.IH" "1.prems" False m by (subst mark_loop.simps) (simp add: diff_Suc)
    also have "take (Suc i) (t[i := e]) = take i t @ [e]"
      using "1.prems" by (simp add: take_Suc_conv_app_nth)
    finally show ?thesis using m "1.prems" False by (cases m) auto
  qed
qed

lemma mark_taken_table:
  assumes "0 < n" "s + n \<le> length (h_table h)"
  shows "mark_taken_blocks h s n =
    h\<lparr>h_table := take s (h_table h) @ alloc_entries n @ drop (s + n) (h_table h)\<rparr>"
proof (cases n)
  case 0
  with assms show ?thesis by simp
next
  case (Suc m)
  with assms show ?thesis
    by (cases m) (simp_all add: mark_taken_blocks_def mark_loop_eq Let_def)
qed

section \<open>Reading a table\<close>

lemma blocks_append:
  "blocks (seg_entries s @ t) i =
    (if i < length (seg_entries s)
     then (case s of Free \<Rightarrow> None | Used n \<Rightarrow> if i = 0 then Some n else None)
     else blocks t (i - length (seg_entries s)))"
proof (cases s)
  case Free
  then show ?thesis by (cases i) (simp_all add: blocks_def)
next
  case (Used n)
  then show ?thesis using run_len_alloc [of n "[]"]
    by (auto simp: blocks_def nth_append alloc_entries_first alloc_entries_later run_len_alloc)
qed

lemma blocks_encode:
  "list_all seg_ok segs \<Longrightarrow>
   blocks (encode segs) i = Some n \<longleftrightarrow>
   (\<exists>pre post. segs = pre @ Used n # post \<and> i = length (encode pre))"
proof (induction segs arbitrary: i)
  case Nil
  then show ?case by (simp add: blocks_def)
next
  case (Cons s segs)
  have split: "(\<exists>pre post. s # segs = pre @ Used n # post \<and> i = length (encode pre)) \<longleftrightarrow>
    (s = Used n \<and> i = 0) \<or>
    (\<exists>pre post. segs = pre @ Used n # post \<and> i = length (seg_entries s) + length (encode pre))"
    by (auto simp: Cons_eq_append_conv) (metis encode_simps(2) length_append)
  show ?case
  proof (cases "i < length (seg_entries s)")
    case True
    with Cons.prems show ?thesis unfolding split
      by (auto simp: blocks_append split: seg.splits)
  next
    case False
    with Cons.prems have "s = Used n \<longrightarrow> 0 < i" by (cases s) auto
    with False Cons show ?thesis unfolding split by (auto simp: blocks_append)
  qed
qed

lemma blocks_frees:
  "blocks (replicate n ENTRY_FREE @ t) i = (if i < n then None else blocks t (i - n))"
proof (induction n arbitrary: i)
  case (Suc n)
  then show ?case using blocks_append [of Free "replicate n ENTRY_FREE @ t" i] by auto
qed simp

lemma blocks_encode_append:
  "blocks (encode pre @ t) i =
    (if i < length (encode pre) then blocks (encode pre) i else blocks t (i - length (encode pre)))"
  by (induction pre arbitrary: i) (auto simp: blocks_append)

lemma length_seg_entries_pos: "seg_ok s \<Longrightarrow> 0 < length (seg_entries s)"
  by (cases s) auto

lemma encode_empty: "list_all seg_ok segs \<Longrightarrow> encode segs = [] \<Longrightarrow> segs = []"
  by (cases segs) (auto dest: length_seg_entries_pos)

lemma free_run_Cons:
  "free_run (e # t) (Suc s) n = free_run t s n"
  "free_run (e # t) 0 (Suc n) \<longleftrightarrow> is_free e \<and> free_run t 0 n"
  by (auto simp: free_run_def less_Suc_eq_0_disj)

lemma free_run_append: "free_run (xs @ t) (length xs + s) n = free_run t s n"
  by (simp add: free_run_def nth_append add.assoc)

lemma free_run_segs:
  "list_all seg_ok segs \<Longrightarrow> free_run (encode segs) s n \<Longrightarrow> 0 < n \<Longrightarrow>
   \<exists>pre post. segs = pre @ replicate n Free @ post \<and> length (encode pre) = s"
proof (induction segs arbitrary: s n)
  case Nil
  then show ?case by (simp add: free_run_def)
next
  case (Cons g segs)
  show ?case
  proof (cases g)
    case Free
    show ?thesis
    proof (cases s)
      case 0
      show ?thesis
      proof (cases "n = 1")
        case True
        with 0 Free show ?thesis by (intro exI [of _ "[]"] exI [of _ segs]) auto
      next
        case False
        with Cons.prems obtain m where m: "n = Suc m" "0 < m" by (cases n) auto
        then obtain pre post where
          "segs = pre @ replicate m Free @ post" "length (encode pre) = 0"
          using Cons.IH [of 0 m] Cons.prems 0 Free by (auto simp: free_run_Cons)
        moreover have "pre = []"
          using calculation Cons.prems(1) by (auto intro: encode_empty)
        ultimately show ?thesis using m 0 Free by (intro exI [of _ "[]"] exI [of _ post]) auto
      qed
    next
      case (Suc k)
      then obtain pre post where
        "segs = pre @ replicate n Free @ post" "length (encode pre) = k"
        using Cons.IH [of k n] Cons.prems Free by (auto simp: free_run_Cons)
      with Suc Free show ?thesis by (intro exI [of _ "Free # pre"] exI [of _ post]) auto
    qed
  next
    case (Used m)
    have "m \<le> s"
    proof (rule ccontr)
      assume "\<not> m \<le> s"
      then have "is_free (alloc_entries m ! s)"
        using Cons.prems(2,3) Used by (auto simp: free_run_def nth_append dest: spec [of _ 0])
      moreover have "alloc_entries m ! s \<in> set (alloc_entries m)"
        using \<open>\<not> m \<le> s\<close> by simp
      ultimately show False using set_alloc_entries by fastforce
    qed
    then obtain k where k: "s = m + k" using le_Suc_ex by blast
    then obtain pre post where
      "segs = pre @ replicate n Free @ post" "length (encode pre) = k"
      using Cons.IH [of k n] Cons.prems Used
        free_run_append [of "alloc_entries m" "encode segs" k n] by auto
    with k Used show ?thesis by (intro exI [of _ "Used m # pre"] exI [of _ post]) auto
  qed
qed

section \<open>First fit\<close>

lemma find_free_loop_spec:
  assumes "0 < want" "current < want" "length pre = i" "current \<le> i"
    and "\<forall>k<current. is_free (pre ! (i - current + k))"
    and "start = (if current = 0 then None else Some (i - current))"
    and "\<forall>s < i - current. \<not> free_run (pre @ es) s want"
  shows "(case find_free_loop es i current start want of
       Inr s \<Rightarrow> free_run (pre @ es) s want \<and> (\<forall>s' < s. \<not> free_run (pre @ es) s' want)
     | Inl e \<Rightarrow> \<forall>s. \<not> free_run (pre @ es) s want)"
  using assms
proof (induction es arbitrary: pre i current start)
  case Nil
  have "\<not> free_run pre s want" if "i - current \<le> s" for s
    using that Nil.prems by (auto simp: free_run_def)
  then show ?case using Nil.prems by (auto simp: not_less [symmetric])
next
  case (Cons e es)
  have app: "pre @ e # es = (pre @ [e]) @ es" by simp
  show ?case
  proof (cases "is_free e")
    case False
    have "\<not> free_run (pre @ e # es) s want" if "s < Suc i" for s
    proof (cases "s < i - current")
      case True
      with Cons.prems(7) show ?thesis by blast
    next
      case False
      then have "s + (i - s) = i" "i - s < want" using that Cons.prems by auto
      then show ?thesis using \<open>\<not> is_free e\<close> Cons.prems(3)
        by (auto simp: free_run_def nth_append intro!: exI [of _ "i - s"])
    qed
    with Cons.prems have "case find_free_loop es (Suc i) 0 None want of
        Inr s \<Rightarrow> free_run ((pre @ [e]) @ es) s want
          \<and> (\<forall>s' < s. \<not> free_run ((pre @ [e]) @ es) s' want)
      | Inl e' \<Rightarrow> \<forall>s. \<not> free_run ((pre @ [e]) @ es) s want"
      by (intro Cons.IH) simp_all
    with False show ?thesis unfolding app by simp
  next
    case True
    define s where "s = (case start of None \<Rightarrow> i | Some s \<Rightarrow> s)"
    have s: "s = i - current" using Cons.prems by (simp add: s_def)
    have run: "\<forall>k<Suc current. is_free ((pre @ [e]) ! (i - current + k))"
      using Cons.prems True by (auto simp: nth_append less_Suc_eq)
    show ?thesis
    proof (cases "Suc current = want")
      case full: True
      have "free_run (pre @ e # es) s want"
        unfolding free_run_def
      proof (intro conjI allI impI)
        show "s + want \<le> length (pre @ e # es)" using s full Cons.prems by simp
        fix k assume "k < want"
        then show "is_free ((pre @ e # es) ! (s + k))"
          using run [rule_format, of k] s full Cons.prems
          by (simp add: nth_append split: if_splits)
      qed
      with True full s Cons.prems(7) show ?thesis by (simp add: s_def)
    next
      case False
      have "case find_free_loop es (Suc i) (Suc current) (Some s) want of
          Inr s \<Rightarrow> free_run ((pre @ [e]) @ es) s want
            \<and> (\<forall>s' < s. \<not> free_run ((pre @ [e]) @ es) s' want)
        | Inl e' \<Rightarrow> \<forall>s. \<not> free_run ((pre @ [e]) @ es) s want"
        using Cons.prems run s False by (intro Cons.IH) simp_all
      with True False show ?thesis unfolding app by (simp add: s_def Let_def)
    qed
  qed
qed

lemma find_free_block_Inr:
  "0 < want \<Longrightarrow> find_free_block h want = Inr s \<Longrightarrow>
   free_run (h_table h) s want \<and> (\<forall>s' < s. \<not> free_run (h_table h) s' want)"
  using find_free_loop_spec [of want 0 "[]" 0 None "h_table h"]
  by (simp add: find_free_block_def)

lemma find_free_block_Inl:
  "0 < want \<Longrightarrow> find_free_block h want = Inl e \<Longrightarrow> \<not> free_run (h_table h) s want"
  using find_free_loop_spec [of want 0 "[]" 0 None "h_table h"]
  by (simp add: find_free_block_def)

text \<open>What taking and giving back a run does to the segments.\<close>

lemma take_run:
  assumes "table_ok t" "free_run t s n" "0 < n"
  shows "table_ok (take s t @ alloc_entries n @ drop (s + n) t)"
    and "blocks (take s t @ alloc_entries n @ drop (s + n) t) = (blocks t)(s \<mapsto> n)"
proof -
  obtain segs where segs: "list_all seg_ok segs" "t = encode segs"
    using assms(1) by (auto simp: table_ok_def)
  obtain pre post where pp: "segs = pre @ replicate n Free @ post" "length (encode pre) = s"
    using free_run_segs segs assms by blast
  have t: "take s t @ alloc_entries n @ drop (s + n) t = encode (pre @ Used n # post)"
    using segs pp by simp
  have ok: "list_all seg_ok (pre @ Used n # post)" using segs pp assms(3) by simp
  then show "table_ok (take s t @ alloc_entries n @ drop (s + n) t)"
    unfolding table_ok_def t by blast
  show "blocks (take s t @ alloc_entries n @ drop (s + n) t) = (blocks t)(s \<mapsto> n)"
  proof
    fix i
    show "blocks (take s t @ alloc_entries n @ drop (s + n) t) i = ((blocks t)(s \<mapsto> n)) i"
      unfolding t using segs pp assms(3)
      by (auto simp: blocks_encode_append blocks_append [of "Used n", simplified] blocks_frees)
  qed
qed

lemma give_run:
  assumes "table_ok t" "blocks t s = Some n"
  shows "free_loop t s = take s t @ replicate n ENTRY_FREE @ drop (s + n) t"
    and "table_ok (free_loop t s)"
    and "blocks (free_loop t s) = (blocks t)(s := None)"
    and "take s t @ alloc_entries n @ drop (s + n) t = t"
    and "0 < n" "s + n \<le> length t"
proof -
  obtain segs where segs: "list_all seg_ok segs" "t = encode segs"
    using assms(1) by (auto simp: table_ok_def)
  then obtain pre post where pp: "segs = pre @ Used n # post" "s = length (encode pre)"
    using assms(2) by (auto simp: blocks_encode)
  show n: "0 < n" and "s + n \<le> length t" using segs pp by auto
  show t: "take s t @ alloc_entries n @ drop (s + n) t = t" using segs pp by simp
  have f: "free_loop t s = encode (pre @ replicate n Free @ post)"
    using segs pp n free_loop_app [of "encode pre" "alloc_entries n @ encode post" 0]
    by (simp add: free_loop_alloc)
  then show "free_loop t s = take s t @ replicate n ENTRY_FREE @ drop (s + n) t"
    using segs pp by simp
  have "list_all seg_ok (pre @ replicate n Free @ post)" using segs pp by (simp add: list_all_iff)
  then show "table_ok (free_loop t s)" unfolding f table_ok_def by blast
  show "blocks (free_loop t s) = (blocks t)(s := None)"
    unfolding f using segs pp n
    by (auto simp: fun_eq_iff blocks_encode_append blocks_append [of "Used n", simplified] blocks_frees)
qed
section \<open>Addresses\<close>

text \<open>The index of the block at an address, for addresses at the start of a block.\<close>

definition block_index :: "heap_desc \<Rightarrow> u32 \<Rightarrow> nat option" where
  "block_index h p =
    (if p < h_addr h \<or> p \<ge> h_addr h + word_of_nat (length (h_table h)) * 4096
        \<or> (p - h_addr h) mod 4096 \<noteq> 0
     then None else Some (unat ((p - h_addr h) div 4096)))"

text \<open>The live allocations: address of the first byte to number of blocks.\<close>

definition live :: "heap_desc \<Rightarrow> u32 \<Rightarrow> nat option" where
  "live h p = (case block_index h p of None \<Rightarrow> None | Some i \<Rightarrow> blocks (h_table h) i)"

definition block_addr :: "heap_desc \<Rightarrow> nat \<Rightarrow> u32" where
  "block_addr h i = h_addr h + 4096 * word_of_nat i"

lemma unat_block_addr:
  assumes "heap_ok h" "i \<le> length (h_table h)"
  shows "unat (block_addr h i) = unat (h_addr h) + 4096 * i"
proof -
  have b: "unat (h_addr h) + 4096 * i < 2 ^ 32"
    using assms by (simp add: heap_ok_def)
  have "block_addr h i = word_of_nat (unat (h_addr h) + 4096 * i)"
    by (simp add: block_addr_def)
  then show ?thesis using b by (intro of_nat_inverse) simp_all
qed

lemma block_index_Some:
  assumes "heap_ok h"
  shows "block_index h p = Some i \<longleftrightarrow> i < length (h_table h) \<and> p = block_addr h i"
proof
  assume L: "block_index h p = Some i"
  have lim: "h_addr h + word_of_nat (length (h_table h)) * 4096 = block_addr h (length (h_table h))"
    by (simp add: block_addr_def mult.commute)
  from L lim have p: "h_addr h \<le> p" "p < block_addr h (length (h_table h))"
      "(p - h_addr h) mod 4096 = 0" "i = unat ((p - h_addr h) div 4096)"
    by (auto simp: block_index_def split: if_splits)
  have up: "unat p < unat (h_addr h) + 4096 * length (h_table h)" "unat (h_addr h) \<le> unat p"
    using p unat_block_addr [OF assms, of "length (h_table h)"]
    by (simp_all add: word_less_nat_alt word_le_nat_alt)
  have d: "unat (p - h_addr h) = unat p - unat (h_addr h)"
    using p(1) by (simp add: unat_sub)
  have m: "unat (p - h_addr h) mod 4096 = 0"
    using arg_cong [OF p(3), of unat] by (simp add: unat_mod)
  have i: "i = unat (p - h_addr h) div 4096"
    using p(4) by (simp add: unat_div)
  have "4096 * i = unat p - unat (h_addr h)" using m d i by auto
  moreover from this up have il: "i < length (h_table h)" by auto
  ultimately have "unat p = unat (block_addr h i)"
    using up unat_block_addr [OF assms, of i] by auto
  with il show "i < length (h_table h) \<and> p = block_addr h i" by (auto intro: word_unat_eq_iff [THEN iffD2])
next
  assume R: "i < length (h_table h) \<and> p = block_addr h i"
  have u: "unat p = unat (h_addr h) + 4096 * i" using R unat_block_addr [OF assms] by auto
  have lim: "h_addr h + word_of_nat (length (h_table h)) * 4096 = block_addr h (length (h_table h))"
    by (simp add: block_addr_def mult.commute)
  have 1: "h_addr h \<le> p" using u by (simp add: word_le_nat_alt)
  have 2: "p < block_addr h (length (h_table h))"
    using u R unat_block_addr [OF assms, of "length (h_table h)"] by (simp add: word_less_nat_alt)
  have d: "unat (p - h_addr h) = 4096 * i" using 1 u by (simp add: unat_sub)
  have "unat ((p - h_addr h) mod 4096) = 0" using d by (simp add: unat_mod)
  then have 3: "(p - h_addr h) mod 4096 = 0" by (simp add: unat_eq_0)
  have "unat ((p - h_addr h) div 4096) = i" using d by (simp add: unat_div)
  with 1 2 3 lim show "block_index h p = Some i" by (simp add: block_index_def not_less not_le)
qed

lemma live_block_addr:
  "heap_ok h \<Longrightarrow> i < length (h_table h) \<Longrightarrow> live h (block_addr h i) = blocks (h_table h) i"
  by (simp add: live_def block_index_Some split: option.splits) (metis block_index_Some option.inject option.simps(3))

lemma blocks_Some_less: "blocks t i = Some n \<Longrightarrow> i < length t"
  by (simp add: blocks_def split: if_splits)

lemma live_SomeE:
  assumes "heap_ok h" "live h p = Some n"
  obtains i where "i < length (h_table h)" "p = block_addr h i" "blocks (h_table h) i = Some n"
  using assms by (auto simp: live_def block_index_Some split: option.splits)

lemma block_addr_inject:
  "heap_ok h \<Longrightarrow> i \<le> length (h_table h) \<Longrightarrow> j \<le> length (h_table h) \<Longrightarrow>
   block_addr h i = block_addr h j \<longleftrightarrow> i = j"
  by (metis add_left_cancel mult_cancel1 unat_block_addr zero_neq_numeral)

lemma block_addr_nonzero: "heap_ok h \<Longrightarrow> i \<le> length (h_table h) \<Longrightarrow> block_addr h i \<noteq> 0"
  using unat_block_addr [of h i] by (auto simp: heap_ok_def word_less_nat_alt)

lemma not_live_0: "heap_ok h \<Longrightarrow> live h 0 = None"
  by (metis block_addr_nonzero less_imp_le live_SomeE option.exhaust)

text \<open>Blocks needed for an allocation of \<open>sz\<close> bytes.\<close>

definition blocks_for :: "u32 \<Rightarrow> nat" where
  "blocks_for sz = (unat sz + 4095) div 4096"

lemma round_up_blocks:
  defines "up sz \<equiv> (if sz mod 4096 > 0 then (sz - sz mod 4096) + 4096 else sz)"
  shows "unat (up sz div 4096) = (if unat sz \<le> 2 ^ 32 - 4096 then blocks_for sz else 0)"
proof (cases "sz mod 4096 > 0")
  case False
  then have z: "sz mod 4096 = 0" by (simp add: word_gt_0)
  define q where "q = unat sz div 4096"
  have m: "unat sz mod 4096 = 0" using arg_cong [OF z, of unat] by (simp add: unat_mod)
  then have q: "unat sz = 4096 * q" by (auto simp: q_def)
  have "4096 * q < 4294967296" using unat_u32_less [of sz] q by simp
  then have "q \<le> 1048575" by simp
  then have "unat sz \<le> 2 ^ 32 - 4096" using q by simp
  moreover have "blocks_for sz = q" by (simp add: blocks_for_def q)
  moreover have "unat (sz div 4096) = q" by (simp add: unat_div q)
  ultimately show ?thesis using z by (simp add: up_def)
next
  case True
  define q where "q = unat sz div 4096"
  define r where "r = unat sz mod 4096"
  have r: "0 < r" "r < 4096" "unat sz = 4096 * q + r"
    using True by (simp_all add: r_def q_def word_less_nat_alt unat_mod)
  have q: "q < 2 ^ 20" using r(3) unat_u32_less [of sz] by simp
  have "unat (sz - sz mod 4096) = 4096 * q"
    using r by (subst unat_sub) (auto simp: word_le_nat_alt unat_mod r_def [symmetric])
  then have "unat (up sz) = (4096 * q + 4096) mod 2 ^ 32"
    using True by (simp add: up_def unat_word_ariths)
  then have "unat (up sz div 4096) = (if q + 1 = 2 ^ 20 then 0 else q + 1)"
    using q by (auto simp: unat_div)
  moreover have "unat sz \<le> 2 ^ 32 - 4096 \<longleftrightarrow> q + 1 \<noteq> 2 ^ 20" using r q by auto
  moreover have "blocks_for sz = q + 1"
    using r by (simp add: blocks_for_def)
  ultimately show ?thesis by simp
qed
section \<open>Allocation and release\<close>

lemma blocks_for_pos: "0 < blocks_for sz \<longleftrightarrow> sz \<noteq> 0"
  by (auto simp: blocks_for_def unat_gt_0 [symmetric] div_greater_zero_iff)

lemma no_big_run:
  assumes "heap_ok h" "\<not> unat sz \<le> 2 ^ 32 - 4096"
  shows "\<not> free_run (h_table h) s (blocks_for sz)"
proof -
  have "2 ^ 20 \<le> blocks_for sz" using assms(2) by (simp add: blocks_for_def)
  moreover have "length (h_table h) < 2 ^ 20" using assms(1) by (simp add: heap_ok_def)
  ultimately show ?thesis by (simp add: free_run_def)
qed

lemma heap_malloc_cases:
  assumes ok: "heap_ok h"
  obtains (null) "heap_malloc h sz = (h, 0)"
      "sz = 0 \<or> (\<forall>s. \<not> free_run (h_table h) s (blocks_for sz))"
  | (new) s where "sz \<noteq> 0" "free_run (h_table h) s (blocks_for sz)"
      "\<forall>s' < s. \<not> free_run (h_table h) s' (blocks_for sz)"
      "heap_malloc h sz = (mark_taken_blocks h s (blocks_for sz), block_addr h s)"
proof (cases "sz = 0 \<or> \<not> unat sz \<le> 2 ^ 32 - 4096")
  case True
  then have "heap_malloc h sz = (h, 0)"
    using round_up_blocks [of sz] blocks_for_pos [of sz]
    by (auto simp: heap_malloc_def Let_def blocks_for_def)
  with True null no_big_run [OF ok] show thesis by blast
next
  case False
  then have m: "heap_malloc h sz = heap_malloc_blocks h (blocks_for sz)" "0 < blocks_for sz"
    using round_up_blocks [of sz] blocks_for_pos [of sz]
    by (auto simp: heap_malloc_def Let_def)
  show thesis
  proof (cases "find_free_block h (blocks_for sz)")
    case (Inl e)
    with m null find_free_block_Inl show thesis by (simp add: heap_malloc_blocks_def)
  next
    case (Inr s)
    with m False find_free_block_Inr [OF m(2) Inr] show thesis
      by (intro new [of s]) (simp_all add: heap_malloc_blocks_def block_addr_def)
  qed
qed

lemma heap_malloc_new:
  assumes ok: "heap_ok h" and m: "heap_malloc h sz = (h', p)" "p \<noteq> 0"
  obtains s where "p = block_addr h s" "0 < blocks_for sz" "free_run (h_table h) s (blocks_for sz)"
    "\<forall>s' < s. \<not> free_run (h_table h) s' (blocks_for sz)"
    "h' = h\<lparr>h_table := take s (h_table h) @ alloc_entries (blocks_for sz)
              @ drop (s + blocks_for sz) (h_table h)\<rparr>"
  using ok
proof (cases rule: heap_malloc_cases [where sz = sz])
  case null
  with m show thesis by simp
next
  case (new s)
  then have "0 < blocks_for sz" "s + blocks_for sz \<le> length (h_table h)"
    by (auto simp: blocks_for_pos free_run_def)
  with new m that show thesis by (simp add: mark_taken_table)
qed

lemma heap_ok_update:
  "heap_ok h \<Longrightarrow> table_ok t \<Longrightarrow> length t = length (h_table h) \<Longrightarrow> heap_ok (h\<lparr>h_table := t\<rparr>)"
  by (simp add: heap_ok_def)

lemma block_index_update:
  "length t = length (h_table h) \<Longrightarrow> block_index (h\<lparr>h_table := t\<rparr>) p = block_index h p"
  by (simp add: block_index_def)

lemma live_update:
  assumes "heap_ok h" "length t = length (h_table h)" "i < length t"
    and "blocks t = (blocks (h_table h))(i := x)"
  shows "live (h\<lparr>h_table := t\<rparr>) = (live h)(block_addr h i := x)"
proof
  fix p
  show "live (h\<lparr>h_table := t\<rparr>) p = ((live h)(block_addr h i := x)) p"
    using assms
    by (auto simp: live_def block_index_update block_index_Some block_addr_inject less_imp_le
        split: option.splits)
       (metis block_index_Some option.simps(3))+
qed

lemma free_entry:
  assumes "table_ok t" "e \<in> set t" "is_free e"
  shows "e = ENTRY_FREE"
proof -
  obtain segs where "t = encode segs" using assms(1) by (auto simp: table_ok_def)
  with assms(2) obtain g where "e \<in> set (seg_entries g)" by (auto simp: encode_def)
  with assms(3) show ?thesis by (cases g) (auto dest: set_alloc_entries)
qed

lemma free_run_not_live:
  assumes "table_ok t" "free_run t s n" "0 < n"
  shows "blocks t s = None"
proof -
  have "is_free (t ! s)" using assms(2,3) by (auto simp: free_run_def dest: spec [of _ 0])
  moreover have "t ! s \<in> set t" using assms(2,3) by (auto simp: free_run_def)
  ultimately have "t ! s = ENTRY_FREE" using free_entry [OF assms(1)] by blast
  then show ?thesis by (simp add: blocks_def)
qed

lemma free_run_replicate:
  assumes "table_ok t" "free_run t s n"
  shows "take s t @ replicate n ENTRY_FREE @ drop (s + n) t = t"
proof -
  have "t ! (s + k) = ENTRY_FREE" if "k < n" for k
    using free_entry [OF assms(1), of "t ! (s + k)"] assms(2) that by (auto simp: free_run_def)
  moreover have "s + n \<le> length t" using assms(2) by (simp add: free_run_def)
  ultimately show ?thesis
    by (intro nth_equalityI) (auto simp: nth_append, metis add_diff_inverse_nat)
qed

lemma blocks_disjoint:
  assumes "table_ok t" "blocks t i = Some n" "blocks t j = Some m" "i < j"
  shows "i + n \<le> j"
proof (rule ccontr)
  assume "\<not> i + n \<le> j"
  note g = give_run [OF assms(1,2)]
  have d: "j - i < n" "\<not> j < i" using \<open>\<not> i + n \<le> j\<close> \<open>i < j\<close> by auto
  have "t ! j = alloc_entries n ! (j - i)"
    using d g(6) by (subst g(4) [symmetric]) (simp add: nth_append)
  then have "t ! j AND BLOCK_IS_FIRST = 0"
    using alloc_entries_later [of "j - i" n] \<open>\<not> i + n \<le> j\<close> \<open>i < j\<close> by simp
  then show False using assms(3) by (simp add: blocks_def)
qed

lemma heap_malloc_live:
  assumes "heap_ok h" "heap_malloc h sz = (h', p)" "p \<noteq> 0"
  shows "heap_ok h' \<and> live h p = None \<and> live h' = (live h)(p \<mapsto> blocks_for sz)
    \<and> h_addr h' = h_addr h \<and> length (h_table h') = length (h_table h)"
proof -
  obtain s where s: "p = block_addr h s" "0 < blocks_for sz"
      "free_run (h_table h) s (blocks_for sz)"
    and h': "h' = h\<lparr>h_table := take s (h_table h) @ alloc_entries (blocks_for sz)
              @ drop (s + blocks_for sz) (h_table h)\<rparr>"
    using heap_malloc_new [OF assms] by metis
  have t: "table_ok (h_table h)" using assms(1) by (simp add: heap_ok_def)
  have len: "s + blocks_for sz \<le> length (h_table h)" using s(3) by (simp add: free_run_def)
  show ?thesis
    using assms(1) s len take_run [OF t s(3,2)] free_run_not_live [OF t s(3,2)]
    unfolding h' by (auto simp: heap_ok_update live_update live_block_addr)
qed


lemma heap_malloc_null:
  assumes ok: "heap_ok h"
  shows "snd (heap_malloc h sz) = 0 \<longleftrightarrow>
    sz = 0 \<or> (\<forall>s. \<not> free_run (h_table h) s (blocks_for sz))"
    and "snd (heap_malloc h sz) = 0 \<Longrightarrow> fst (heap_malloc h sz) = h"
proof -
  have nz: "free_run (h_table h) s n \<Longrightarrow> block_addr h s \<noteq> 0" for s n
    using block_addr_nonzero [OF ok] by (simp add: free_run_def)
  show "snd (heap_malloc h sz) = 0 \<longleftrightarrow>
    sz = 0 \<or> (\<forall>s. \<not> free_run (h_table h) s (blocks_for sz))"
    and "snd (heap_malloc h sz) = 0 \<Longrightarrow> fst (heap_malloc h sz) = h"
    using ok by (auto elim!: heap_malloc_cases [of h sz] dest: nz)
qed

text \<open>C2. \<open>heap_malloc\<close> fails only when it has to: null is returned, and the heap
  left alone, exactly when the size is 0 or no run of free blocks is long enough.\<close>

theorem heap_malloc_complete:
  assumes "heap_ok h"
  shows "heap_malloc h sz = (h, 0) \<longleftrightarrow>
    sz = 0 \<or> (\<nexists>s. s + blocks_for sz \<le> length (h_table h)
      \<and> (\<forall>k<blocks_for sz. h_table h ! (s + k) AND 0x0f = ENTRY_FREE))"
  using heap_malloc_null [OF assms, of sz]
  by (cases "heap_malloc h sz") (auto simp: free_run_def)

lemma heap_free_block_index:
  assumes "heap_ok h"
  shows "heap_free h p =
    (case block_index h p of
       None \<Rightarrow> Inl INVALID_ARG_ERROR
     | Some i \<Rightarrow> if h_table h ! i AND BLOCK_IS_FIRST = 0 then Inl INVALID_ARG_ERROR
                 else Inr (h\<lparr>h_table := free_loop (h_table h) i\<rparr>))"
  by (simp add: heap_free_def block_index_def heap_free_blocks_def Let_def)

lemma heap_free_live:
  assumes ok: "heap_ok h"
  shows "case heap_free h p of
      Inl e \<Rightarrow> e = INVALID_ARG_ERROR \<and> live h p = None
    | Inr h' \<Rightarrow> live h p \<noteq> None \<and> live h' = (live h)(p := None) \<and> heap_ok h'
        \<and> h_addr h' = h_addr h \<and> length (h_table h') = length (h_table h)"
proof (cases "block_index h p")
  case None
  then show ?thesis by (simp add: heap_free_block_index [OF ok] live_def)
next
  case (Some i)
  then have i: "i < length (h_table h)" "p = block_addr h i"
    by (simp_all add: block_index_Some [OF ok])
  show ?thesis
  proof (cases "blocks (h_table h) i")
    case None
    with Some i show ?thesis
      by (simp add: heap_free_block_index [OF ok] live_def blocks_def split: if_splits)
  next
    case (Some n)
    have t: "table_ok (h_table h)" using ok by (simp add: heap_ok_def)
    note g = give_run [OF t Some]
    have "h_table h ! i AND BLOCK_IS_FIRST \<noteq> 0"
      using Some by (auto simp: blocks_def split: if_splits)
    moreover have "length (free_loop (h_table h) i) = length (h_table h)"
      using g(1,6) by simp
    moreover have "live h p = Some n" using i Some by (simp add: live_block_addr [OF ok])
    ultimately show ?thesis
      using i \<open>block_index h p = Some i\<close> g(2,3) ok
      by (simp add: heap_free_block_index [OF ok] live_update heap_ok_update)
  qed
qed

text \<open>Freeing what was just allocated restores the heap exactly.\<close>

theorem heap_malloc_free:
  assumes ok: "heap_ok h" and m: "heap_malloc h sz = (h', p)" "p \<noteq> 0"
  shows "heap_free h' p = Inr h"
proof -
  obtain s where s: "p = block_addr h s" "0 < blocks_for sz"
      "free_run (h_table h) s (blocks_for sz)"
    and h': "h' = h\<lparr>h_table := take s (h_table h) @ alloc_entries (blocks_for sz)
              @ drop (s + blocks_for sz) (h_table h)\<rparr>"
    using heap_malloc_new [OF assms] by metis
  let ?n = "blocks_for sz"
  let ?t = "take s (h_table h) @ alloc_entries ?n @ drop (s + ?n) (h_table h)"
  have t: "table_ok (h_table h)" using ok by (simp add: heap_ok_def)
  have len: "s + ?n \<le> length (h_table h)" using s(3) by (simp add: free_run_def)
  have "free_loop ?t s = take s (h_table h) @ replicate ?n ENTRY_FREE @ drop (s + ?n) (h_table h)"
    using free_loop_app [of "take s (h_table h)" "alloc_entries ?n @ drop (s + ?n) (h_table h)" 0]
      len s(2) by (simp add: free_loop_alloc)
  also have "\<dots> = h_table h" by (rule free_run_replicate [OF t s(3)])
  finally have f: "free_loop ?t s = h_table h" .
  have ok': "heap_ok h'" using heap_malloc_live [OF assms] by simp
  have "block_index h' p = Some s"
    using ok' s len h' by (auto simp: block_index_Some block_addr_def)
  moreover have "h_table h' ! s AND BLOCK_IS_FIRST \<noteq> 0"
    using s(2) len alloc_entries_first [of ?n] h' by (simp add: nth_append)
  ultimately have "heap_free h' p = Inr (h'\<lparr>h_table := free_loop (h_table h') s\<rparr>)"
    by (simp add: heap_free_block_index [OF ok'])
  then show ?thesis using h' f by simp
qed

text \<open>Live allocations never overlap and lie inside the heap.\<close>

theorem live_disjoint:
  assumes ok: "heap_ok h" and p: "live h p = Some n" and q: "live h q = Some m" and "p \<noteq> q"
  shows "{unat p ..< unat p + 4096 * n} \<inter> {unat q ..< unat q + 4096 * m} = {}"
proof -
  obtain i where i: "i < length (h_table h)" "p = block_addr h i" "blocks (h_table h) i = Some n"
    using live_SomeE [OF ok p] .
  obtain j where j: "j < length (h_table h)" "q = block_addr h j" "blocks (h_table h) j = Some m"
    using live_SomeE [OF ok q] .
  have "i \<noteq> j" using i j \<open>p \<noteq> q\<close> by auto
  then have "i + n \<le> j \<or> j + m \<le> i"
    using blocks_disjoint i j ok by (metis heap_ok_def linorder_less_linear)
  then show ?thesis
    using i j unat_block_addr [OF ok, of i] unat_block_addr [OF ok, of j] by auto
qed

section \<open>The kernel heap at boot\<close>

lemma table_ok_free: "table_ok (replicate n ENTRY_FREE)"
  unfolding table_ok_def by (rule exI [of _ "replicate n Free"]) (simp add: list_all_iff)

lemma kernel_heap_init_ok:
  assumes "25600 \<le> length mem"
  shows "\<exists>h. kernel_heap_init mem = Inr h \<and> heap_ok h \<and> live h = Map.empty
    \<and> h_addr h = 0x01000000 \<and> length (h_table h) = 25600"
proof -
  let ?h = "\<lparr>h_table = replicate 25600 ENTRY_FREE, h_addr = 0x01000000\<rparr>"
  have "(word_of_int (sint (0x01000000 + 104857600 - 0x01000000 :: u32) sdiv 4096) :: u32) = 25600"
    by code_simp
  then have "kernel_heap_init mem = Inr ?h"
    using assms by (simp add: kernel_heap_init_def heap_desc_init_def)
  moreover have "blocks (replicate 25600 ENTRY_FREE) i = None" for i
    by (simp add: blocks_def)
  then have "live ?h = Map.empty" by (auto simp: live_def fun_eq_iff split: option.splits)
  ultimately show ?thesis by (simp add: heap_ok_def table_ok_free)
qed

section \<open>Usage statistics\<close>

lemma heap_stats_malloc:
  assumes "heap_ok h" "heap_malloc h sz = (h', p)" "p \<noteq> 0"
  shows "used_blocks (heap_stats h') = used_blocks (heap_stats h) + blocks_for sz"
proof -
  obtain s where s: "0 < blocks_for sz" "free_run (h_table h) s (blocks_for sz)"
    and h': "h' = h\<lparr>h_table := take s (h_table h) @ alloc_entries (blocks_for sz)
              @ drop (s + blocks_for sz) (h_table h)\<rparr>"
    using heap_malloc_new [OF assms] by metis
  let ?n = "blocks_for sz" and ?c = "\<lambda>t. length (filter (\<lambda>e. e AND 0x0f = ENTRY_TAKEN) t)"
  have "table_ok (h_table h)" using assms(1) by (simp add: heap_ok_def)
  note t = free_run_replicate [OF this s(2)]
  have count_free: "?c (replicate n ENTRY_FREE) = 0" for n by simp
  from t have "?c (h_table h) = ?c (take s (h_table h)) + ?c (drop (s + ?n) (h_table h))"
    using arg_cong [of _ "h_table h" ?c] by (metis (lifting) count_free add_0 filter_append length_append)
  moreover have "?c (alloc_entries ?n) = ?n"
    using set_alloc_entries [of _ ?n] by (subst filter_True) auto
  ultimately show ?thesis unfolding h' by (simp add: heap_stats_def)
qed

section \<open>The allocator interface\<close>

text \<open>
  What the rest of the kernel relies on when it calls \<^verbatim>\<open>malloc\<close>, \<^verbatim>\<open>calloc\<close> and
  \<^verbatim>\<open>free\<close>: a new object gets an address nobody owns, and releasing one address
  leaves the others owned. A typed store maps the addresses of one kind of kernel
  object to their contents; it is backed when every address in it is owned.
\<close>

definition backed :: "(u32 \<Rightarrow> bool) \<Rightarrow> (u32 \<rightharpoonup> 'a) \<Rightarrow> bool" where
  "backed own m \<longleftrightarrow> (\<forall>p \<in> dom m. own p)"

locale allocator =
  fixes alloc :: "'s \<Rightarrow> u32 \<Rightarrow> 's \<times> u32"
    and release :: "'s \<Rightarrow> u32 \<Rightarrow> 's"
    and owned :: "'s \<Rightarrow> u32 \<Rightarrow> bool"
    and ok :: "'s \<Rightarrow> bool"
  assumes alloc_ok: "ok s \<Longrightarrow> ok (fst (alloc s n))"
    and alloc_new: "ok s \<Longrightarrow> alloc s n = (s', p) \<Longrightarrow> p \<noteq> 0 \<Longrightarrow>
      \<not> owned s p \<and> owned s' = (owned s)(p := True)"
    and alloc_null: "ok s \<Longrightarrow> alloc s n = (s', 0) \<Longrightarrow> s' = s"
    and release_ok: "ok s \<Longrightarrow> ok (release s p)"
    and release_owned: "ok s \<Longrightarrow> owned (release s p) = (owned s)(p := False)"
    and null_not_owned: "ok s \<Longrightarrow> \<not> owned s 0"
begin

lemma alloc_keeps_backed:
  "ok s \<Longrightarrow> backed (owned s) m \<Longrightarrow> alloc s n = (s', p) \<Longrightarrow> backed (owned s') m"
  using alloc_new [of s n s' p] by (cases "p = 0") (auto simp: backed_def dest: alloc_null)

lemma alloc_fresh:
  "ok s \<Longrightarrow> backed (owned s) m \<Longrightarrow> alloc s n = (s', p) \<Longrightarrow> p \<noteq> 0 \<Longrightarrow> m p = None"
  using alloc_new by (fastforce simp: backed_def)

lemma alloc_backed_new:
  "ok s \<Longrightarrow> backed (owned s) m \<Longrightarrow> alloc s n = (s', p) \<Longrightarrow> p \<noteq> 0 \<Longrightarrow>
   backed (owned s') (m(p \<mapsto> v))"
  using alloc_new by (fastforce simp: backed_def)

lemma release_backed:
  "ok s \<Longrightarrow> backed (owned s) m \<Longrightarrow> m p = None \<Longrightarrow> backed (owned (release s p)) m"
  by (auto simp: backed_def release_owned)

lemma release_removed:
  "ok s \<Longrightarrow> backed (owned s) m \<Longrightarrow> backed (owned (release s p)) (m(p := None))"
  by (auto simp: backed_def release_owned)

lemma backed_null: "ok s \<Longrightarrow> backed (owned s) m \<Longrightarrow> m 0 = None"
  using null_not_owned by (auto simp: backed_def)

end

lemma kfree_ok: "heap_ok h \<Longrightarrow> heap_ok (kfree h p)"
  using heap_free_live [of h p] by (auto simp: kfree_def split: sum.splits)

lemma kfree_live: "heap_ok h \<Longrightarrow> live (kfree h p) = (live h)(p := None)"
  using heap_free_live [of h p] not_live_0 [of h]
  by (auto simp: kfree_def fun_eq_iff split: sum.splits)

interpretation kheap: allocator heap_malloc kfree "\<lambda>h p. live h p \<noteq> None" heap_ok
proof
  fix h :: heap_desc and n p h'
  assume ok: "heap_ok h"
  show "heap_ok (fst (heap_malloc h n))"
    using heap_malloc_live [OF ok, of n] heap_malloc_null(2) [OF ok, of n] ok
    by (cases "heap_malloc h n") auto
  show "heap_malloc h n = (h', p) \<Longrightarrow> p \<noteq> 0 \<Longrightarrow>
    \<not> live h p \<noteq> None \<and> (\<lambda>p. live h' p \<noteq> None) = (\<lambda>p. live h p \<noteq> None)(p := True)"
    using heap_malloc_live [OF ok, of n h' p] by auto
  show "heap_malloc h n = (h', 0) \<Longrightarrow> h' = h"
    using heap_malloc_null(2) [OF ok, of n] by simp
  show "heap_ok (kfree h p)" using ok by (rule kfree_ok)
  show "(\<lambda>q. live (kfree h p) q \<noteq> None) = (\<lambda>q. live h q \<noteq> None)(p := False)"
    using kfree_live [OF ok] by auto
  show "\<not> live h 0 \<noteq> None" using not_live_0 [OF ok] by simp
qed

section \<open>The contract of the allocator\<close>

text \<open>C1. A successful \<open>heap_malloc\<close> is a map update: the address was not live
  before, exactly that allocation with \<open>blocks_for sz\<close> blocks is added, and the
  table stays well formed.\<close>

theorem heap_malloc_refines:
  assumes "heap_ok h" "heap_malloc h sz = (h', p)" "p \<noteq> 0"
  shows "heap_ok h' \<and> live h p = None \<and> live h' = (live h)(p \<mapsto> blocks_for sz)
    \<and> h_addr h' = h_addr h \<and> length (h_table h') = length (h_table h)"
  by (rule heap_malloc_live [OF assms])

text \<open>C3. \<open>heap_free\<close> accepts exactly the addresses of live allocations (a null
  pointer, a second free or a pointer into the middle of an allocation is an error
  and changes nothing) and then removes that allocation and no other.\<close>

theorem heap_free_refines:
  assumes "heap_ok h"
  shows "case heap_free h p of
      Inl e \<Rightarrow> e = INVALID_ARG_ERROR \<and> live h p = None
    | Inr h' \<Rightarrow> live h p \<noteq> None \<and> live h' = (live h)(p := None) \<and> heap_ok h'
        \<and> h_addr h' = h_addr h \<and> length (h_table h') = length (h_table h)"
  by (rule heap_free_live [OF assms])

section \<open>Witnesses\<close>

definition example_heap :: heap_desc where
  "example_heap = \<lparr>h_table = replicate 4 ENTRY_FREE, h_addr = 0x1000\<rparr>"

lemma example_heap_ok: "heap_ok example_heap"
  unfolding heap_ok_def table_ok_def example_heap_def
  by (auto intro!: exI [of _ "replicate 4 Free"] simp: list_all_iff)

lemma example_heap_malloc:
  "heap_malloc example_heap 5000 =
   (\<lparr>h_table = [0xC1, 0x01, 0x00, 0x00], h_addr = 0x1000\<rparr>, 0x1000)"
  by code_simp

theorem heap_malloc_refines_witness:
  "\<exists>h' p. heap_malloc example_heap 5000 = (h', p) \<and> p \<noteq> 0 \<and> live h' p = Some (blocks_for 5000)"
  using heap_malloc_refines [OF example_heap_ok example_heap_malloc] example_heap_malloc by simp

theorem heap_malloc_complete_witness: "heap_malloc example_heap 20000 = (example_heap, 0)"
  using heap_malloc_complete [OF example_heap_ok, of 20000]
  by (simp add: blocks_for_def example_heap_def)

theorem heap_free_refines_witness:
  "case heap_free example_heap 0x1000 of Inl e \<Rightarrow> e = INVALID_ARG_ERROR | Inr h' \<Rightarrow> False"
  using heap_free_refines [OF example_heap_ok, of "0x1000"]
  by (simp add: live_def block_index_def blocks_def example_heap_def split: sum.splits)

theorem live_disjoint_witness:
  "{unat (0x1000 :: u32) ..< unat (0x1000 :: u32) + 4096 * 2}
     \<inter> {unat (0x3000 :: u32) ..< unat (0x3000 :: u32) + 4096 * 1} = {}"
proof -
  let ?h = "\<lparr>h_table = [0xC1, 0x01, 0x41, 0x00], h_addr = 0x1000\<rparr>"
  have "alloc_entries 2 = [0xC1, 0x01]" "alloc_entries 1 = [0x41]"
    by (simp_all add: numeral_2_eq_2)
  then have "table_ok (h_table ?h)"
    unfolding table_ok_def by (intro exI [of _ "[Used 2, Used 1, Free]"]) simp
  then have "heap_ok ?h" by (simp add: heap_ok_def)
  then show ?thesis
    by (rule live_disjoint) (simp_all add: live_def block_index_def blocks_def)
qed

theorem heap_malloc_free_witness:
  "\<exists>h' p. heap_malloc example_heap 5000 = (h', p) \<and> heap_free h' p = Inr example_heap"
  using heap_malloc_free [OF example_heap_ok example_heap_malloc] example_heap_malloc by simp

end
