(* ===== verification/Ctype.thy ===== *)
theory Ctype
  imports Prelude
begin

text \<open>
  The character classes of \<^verbatim>\<open>src/libc/ctype/ctype.c\<close>, on the \<^verbatim>\<open>int32_t\<close> value the
  caller passes (a plain \<^verbatim>\<open>char\<close> is sign extended first, see \<open>schar\<close>).
\<close>

definition isdigit :: "int \<Rightarrow> bool" where
  "isdigit c \<longleftrightarrow> c \<ge> 48 \<and> c \<le> 57"

definition isupper :: "int \<Rightarrow> bool" where
  "isupper c \<longleftrightarrow> c \<ge> 65 \<and> c \<le> 90"

definition islower :: "int \<Rightarrow> bool" where
  "islower c \<longleftrightarrow> c \<ge> 97 \<and> c \<le> 122"

definition isalpha :: "int \<Rightarrow> bool" where
  "isalpha c \<longleftrightarrow> isupper c \<or> islower c"

definition isalnum :: "int \<Rightarrow> bool" where
  "isalnum c \<longleftrightarrow> isdigit c \<or> isalpha c"

definition iscntrl :: "int \<Rightarrow> bool" where
  "iscntrl c \<longleftrightarrow> (c \<ge> 0 \<and> c \<le> 31) \<or> c = 127"

definition isgraph :: "int \<Rightarrow> bool" where
  "isgraph c \<longleftrightarrow> c \<ge> 33 \<and> c \<le> 126"

definition isprint :: "int \<Rightarrow> bool" where
  "isprint c \<longleftrightarrow> c \<ge> 32 \<and> c \<le> 126"

definition ispunct :: "int \<Rightarrow> bool" where
  "ispunct c \<longleftrightarrow> isgraph c \<and> \<not> isalnum c"

definition isspace :: "int \<Rightarrow> bool" where
  "isspace c \<longleftrightarrow> c = 32 \<or> (c \<ge> 9 \<and> c \<le> 13)"

definition isxdigit :: "int \<Rightarrow> bool" where
  "isxdigit c \<longleftrightarrow> isdigit c \<or> (c \<ge> 97 \<and> c \<le> 102) \<or> (c \<ge> 65 \<and> c \<le> 70)"

definition tolower :: "int \<Rightarrow> int" where
  "tolower c = (if isupper c then c + 32 else c)"

definition toupper :: "int \<Rightarrow> int" where
  "toupper c = (if islower c then c - 32 else c)"

lemmas ctype_defs = isdigit_def isupper_def islower_def isalpha_def isalnum_def iscntrl_def
  isgraph_def isprint_def ispunct_def isspace_def isxdigit_def tolower_def toupper_def

lemma tolower_tolower [simp]: "tolower (tolower c) = tolower c"
  by (simp add: ctype_defs)

lemma toupper_toupper [simp]: "toupper (toupper c) = toupper c"
  by (simp add: ctype_defs)

lemma tolower_toupper [simp]: "tolower (toupper c) = tolower c"
  by (simp add: ctype_defs)

lemma tolower_eq_0 [simp]: "tolower c = 0 \<longleftrightarrow> c = 0"
  by (simp add: ctype_defs)

text \<open>The classes partition the 7 bit characters.\<close>

lemma ctype_partition:
  assumes "0 \<le> c" "c \<le> 127"
  shows "iscntrl c \<noteq> isprint c"
    and "isprint c \<longleftrightarrow> c = 32 \<or> isgraph c"
    and "isgraph c \<longleftrightarrow> isalnum c \<or> ispunct c"
  using assms by (auto simp: ctype_defs)

end
