(* ===== verification/CString.thy ===== *)
theory CString
  imports Ctype
begin

text \<open>
  The string and memory functions of \<^verbatim>\<open>src/libc/string/string.c\<close>. Functions that only
  read strings work on byte lists (\<open>chr_at\<close> reads the terminator); functions that
  write work on a byte memory \<open>mem\<close>, because whether the ranges overlap matters.
\<close>

section \<open>Reading strings\<close>

function strlen_from :: "bytes \<Rightarrow> nat \<Rightarrow> nat" where
  "strlen_from s i = (if chr_at s i \<noteq> 0 then strlen_from s (Suc i) else i)"
  by pat_completeness auto
termination
  by (relation "measure (\<lambda>(s, i). length s - i)") (auto simp: chr_at_def split: if_splits)

definition strlen :: "bytes \<Rightarrow> nat" where
  "strlen s = strlen_from s 0"

function strcmp_from :: "bytes \<Rightarrow> bytes \<Rightarrow> nat \<Rightarrow> int" where
  "strcmp_from a b i =
    (if chr_at a i \<noteq> 0 \<and> chr_at a i = chr_at b i then strcmp_from a b (Suc i)
     else uint (chr_at a i) - uint (chr_at b i))"
  by pat_completeness auto
termination
  by (relation "measure (\<lambda>(a, b, i). length a - i)") (auto simp: chr_at_def split: if_splits)

definition strcmp :: "bytes \<Rightarrow> bytes \<Rightarrow> int" where
  "strcmp a b = strcmp_from a b 0"

function strncmp_from :: "bytes \<Rightarrow> bytes \<Rightarrow> nat \<Rightarrow> nat \<Rightarrow> int" where
  "strncmp_from a b n i =
    (if i < n
     then if chr_at a i \<noteq> chr_at b i \<or> chr_at a i = 0
          then uint (chr_at a i) - uint (chr_at b i)
          else strncmp_from a b n (Suc i)
     else 0)"
  by pat_completeness auto
termination by (relation "measure (\<lambda>(a, b, n, i). n - i)") auto

definition strncmp :: "bytes \<Rightarrow> bytes \<Rightarrow> nat \<Rightarrow> int" where
  "strncmp a b n = strncmp_from a b n 0"

function istrncmp_from :: "bytes \<Rightarrow> bytes \<Rightarrow> nat \<Rightarrow> nat \<Rightarrow> int" where
  "istrncmp_from a b n i =
    (if i < n
     then let c1 = tolower (uint (chr_at a i)); c2 = tolower (uint (chr_at b i))
          in if c1 \<noteq> c2 \<or> c1 = 0 then c1 - c2 else istrncmp_from a b n (Suc i)
     else 0)"
  by pat_completeness auto
termination by (relation "measure (\<lambda>(a, b, n, i). n - i)") auto

definition istrncmp :: "bytes \<Rightarrow> bytes \<Rightarrow> nat \<Rightarrow> int" where
  "istrncmp a b n = istrncmp_from a b n 0"

text \<open>The position of the first \<open>c\<close> in front of the terminator.\<close>

function strchr_from :: "bytes \<Rightarrow> u8 \<Rightarrow> nat \<Rightarrow> nat option" where
  "strchr_from s c i =
    (if chr_at s i \<noteq> 0 then if chr_at s i = c then Some i else strchr_from s c (Suc i)
     else None)"
  by pat_completeness auto
termination
  by (relation "measure (\<lambda>(s, c, i). length s - i)") (auto simp: chr_at_def split: if_splits)

definition strchr :: "bytes \<Rightarrow> u8 \<Rightarrow> nat option" where
  "strchr s c = strchr_from s c 0"

function strcspn_from :: "bytes \<Rightarrow> bytes \<Rightarrow> nat \<Rightarrow> nat" where
  "strcspn_from s reject i =
    (if chr_at s i \<noteq> 0
     then if strchr reject (chr_at s i) \<noteq> None then i else strcspn_from s reject (Suc i)
     else i)"
  by pat_completeness auto
termination
  by (relation "measure (\<lambda>(s, r, i). length s - i)") (auto simp: chr_at_def split: if_splits)

definition strcspn :: "bytes \<Rightarrow> bytes \<Rightarrow> nat" where
  "strcspn s reject = strcspn_from s reject 0"

declare strlen_from.simps [simp del] strcmp_from.simps [simp del] strncmp_from.simps [simp del]
  istrncmp_from.simps [simp del] strchr_from.simps [simp del] strcspn_from.simps [simp del]

section \<open>Reading and writing memory\<close>

type_synonym mem = "nat \<Rightarrow> u8"

fun memchr :: "mem \<Rightarrow> nat \<Rightarrow> u8 \<Rightarrow> nat \<Rightarrow> nat option" where
  "memchr m p c 0 = None"
| "memchr m p c (Suc n) = (if p = 0 then None else if m p \<noteq> c then memchr m (Suc p) c n else Some p)"

fun memcmp_loop :: "mem \<Rightarrow> nat \<Rightarrow> nat \<Rightarrow> nat \<Rightarrow> int" where
  "memcmp_loop m p q 0 = 0"
| "memcmp_loop m p q (Suc n) =
    (if m p \<noteq> m q then if m p > m q then 1 else - 1 else memcmp_loop m (Suc p) (Suc q) n)"

definition memcmp :: "mem \<Rightarrow> nat \<Rightarrow> nat \<Rightarrow> nat \<Rightarrow> int" where
  "memcmp m p q n = (if p = q then 0 else memcmp_loop m p q n)"

text \<open>One iteration \<^verbatim>\<open>destin[i] = source[i]\<close> of the copy loops.\<close>

definition copy_byte :: "nat \<Rightarrow> nat \<Rightarrow> nat \<Rightarrow> mem \<Rightarrow> mem" where
  "copy_byte dest src i m = m(dest + i := m (src + i))"

definition memcpy :: "mem \<Rightarrow> nat \<Rightarrow> nat \<Rightarrow> nat \<Rightarrow> mem" where
  "memcpy m dest src n = fold (copy_byte dest src) [0..<n] m"

definition memmove :: "mem \<Rightarrow> nat \<Rightarrow> nat \<Rightarrow> nat \<Rightarrow> mem" where
  "memmove m dest src n =
    (if dest < src then fold (copy_byte dest src) [0..<n] m
     else fold (copy_byte dest src) (rev [0..<n]) m)"

definition memset :: "mem \<Rightarrow> nat \<Rightarrow> u8 \<Rightarrow> nat \<Rightarrow> mem" where
  "memset m p c n = fold (\<lambda>i m. m(p + i := c)) [0..<n] m"


text \<open>The writers of strings read the source while they write, so an overlapping
  source may never end: they are partial functions.\<close>

partial_function (option) strlen_mem :: "mem \<Rightarrow> nat \<Rightarrow> nat \<Rightarrow> nat option" where
  "strlen_mem m p n = (if m (p + n) \<noteq> 0 then strlen_mem m p (Suc n) else Some n)"

partial_function (option) strcpy :: "mem \<Rightarrow> nat \<Rightarrow> nat \<Rightarrow> mem option" where
  "strcpy m dest src =
    (if m src \<noteq> 0 then strcpy (m(dest := m src)) (Suc dest) (Suc src) else Some (m(dest := 0)))"

partial_function (option) strcat_loop :: "mem \<Rightarrow> nat \<Rightarrow> nat \<Rightarrow> nat \<Rightarrow> nat \<Rightarrow> mem option" where
  "strcat_loop m dest src sz i =
    (if m (src + i) \<noteq> 0
     then strcat_loop (m(dest + sz + i := m (src + i))) dest src sz (Suc i)
     else Some (m(dest + sz + i := 0)))"

definition strcat :: "mem \<Rightarrow> nat \<Rightarrow> nat \<Rightarrow> mem option" where
  "strcat m dest src =
    (case strlen_mem m dest 0 of None \<Rightarrow> None | Some sz \<Rightarrow> strcat_loop m dest src sz 0)"

function strncat_loop :: "mem \<Rightarrow> nat \<Rightarrow> nat \<Rightarrow> nat \<Rightarrow> nat \<Rightarrow> nat \<Rightarrow> mem" where
  "strncat_loop m dest src n sz i =
    (if i < n \<and> m (src + i) \<noteq> 0
     then strncat_loop (m(dest + sz + i := m (src + i))) dest src n sz (Suc i)
     else m(dest + sz + i := 0))"
  by pat_completeness auto
termination by (relation "measure (\<lambda>(m, d, s, n, sz, i). n - i)") auto

declare strncat_loop.simps [simp del]

definition strncat :: "mem \<Rightarrow> nat \<Rightarrow> nat \<Rightarrow> nat \<Rightarrow> mem option" where
  "strncat m dest src n =
    (case strlen_mem m dest 0 of None \<Rightarrow> None | Some sz \<Rightarrow> Some (strncat_loop m dest src n sz 0))"

section \<open>Strings as lists\<close>

lemma strlen_from_eq: "is_cstr s \<Longrightarrow> i \<le> length s \<Longrightarrow> strlen_from s i = length s"
proof (induction s i rule: strlen_from.induct)
  case (1 s i)
  then show ?case
    using chr_at_nonzero [of s i]
    by (subst strlen_from.simps) (cases "i = length s", simp_all del: chr_at_less)
qed

lemma strlen_eq [simp]: "is_cstr s \<Longrightarrow> strlen s = length s"
  by (simp add: strlen_def strlen_from_eq)

lemma chr_at_drop: "chr_at (drop i s) 0 = chr_at s i"
  by (simp add: chr_at_def)

lemma chr_at_eqI:
  assumes "is_cstr a" "is_cstr b" "\<And>i. i \<le> length a \<Longrightarrow> chr_at a i = chr_at b i"
  shows "a = b"
proof (rule nth_equalityI)
  have "chr_at b (length a) = 0" using assms(3) [of "length a"] by simp
  moreover have "chr_at b i \<noteq> 0" if "i < length a" for i
    using assms(3) [of i] that assms(1) by (metis chr_at_nonzero less_imp_le)
  ultimately show len: "length a = length b"
    using assms(2) by (metis chr_at_nonzero linorder_neqE_nat not_less_iff_gr_or_eq)
  show "a ! i = b ! i" if "i < length a" for i
    using assms(3) [of i] that len by simp
qed

lemma strcmp_from_0:
  "strcmp_from a b i = 0 \<longleftrightarrow> (\<forall>j. i \<le> j \<and> (\<forall>k. i \<le> k \<and> k < j \<longrightarrow> chr_at a k \<noteq> 0) \<longrightarrow>
     chr_at a j = chr_at b j)"
proof (induction a b i rule: strcmp_from.induct)
  case (1 a b i)
  have step: "(\<forall>j. i \<le> j \<and> (\<forall>k. i \<le> k \<and> k < j \<longrightarrow> chr_at a k \<noteq> 0) \<longrightarrow> chr_at a j = chr_at b j)
    \<longleftrightarrow> chr_at a i = chr_at b i \<and> (chr_at a i \<noteq> 0 \<longrightarrow>
      (\<forall>j. Suc i \<le> j \<and> (\<forall>k. Suc i \<le> k \<and> k < j \<longrightarrow> chr_at a k \<noteq> 0) \<longrightarrow> chr_at a j = chr_at b j))"
    by (auto simp: Suc_le_eq) (metis le_neq_implies_less less_or_eq_imp_le)+
  show ?case
  proof (cases "chr_at a i \<noteq> 0 \<and> chr_at a i = chr_at b i")
    case True
    with 1 [OF True] show ?thesis by (simp add: step strcmp_from.simps [of a b i])
  next
    case False
    then have "strcmp_from a b i = uint (chr_at a i) - uint (chr_at b i)"
      by (simp only: strcmp_from.simps [of a b i] if_False)
    then have "strcmp_from a b i = 0 \<longleftrightarrow> chr_at a i = chr_at b i"
      by (simp add: word_uint_eq_iff)
    with False show ?thesis using step by blast
  qed
qed

lemma strcmp_eq_0: "is_cstr a \<Longrightarrow> is_cstr b \<Longrightarrow> strcmp a b = 0 \<longleftrightarrow> a = b"
proof
  assume "is_cstr a" "is_cstr b" "strcmp a b = 0"
  then show "a = b"
    by (intro chr_at_eqI) (auto simp: strcmp_def strcmp_from_0 chr_at_nonzero)
qed (simp add: strcmp_def strcmp_from_0)

text \<open>The comparison used for the case insensitive names of the file system.\<close>

definition lower :: "bytes \<Rightarrow> int list" where
  "lower s = map (\<lambda>c. tolower (uint c)) s"

lemma istrncmp_from_0:
  "is_cstr a \<Longrightarrow> is_cstr b \<Longrightarrow> i \<le> length a \<Longrightarrow> i \<le> length b \<Longrightarrow>
   istrncmp_from a b n i = 0 \<longleftrightarrow> take (n - i) (lower (drop i a)) = take (n - i) (lower (drop i b))"
proof (induction a b n i rule: istrncmp_from.induct)
  case (1 a b n i)
  let ?c1 = "tolower (uint (chr_at a i))" and ?c2 = "tolower (uint (chr_at b i))"
  show ?case
  proof (cases "i < n")
    case False
    then show ?thesis by (simp add: istrncmp_from.simps [of a b n i])
  next
    case True
    have Cons: "drop i s = chr_at s i # drop (Suc i) s" if "i < length s" for s
      using that by (simp add: Cons_nth_drop_Suc)
    have z: "tolower (uint (chr_at s i)) = 0 \<longleftrightarrow> i = length s" if "is_cstr s" "i \<le> length s" for s
      using chr_at_nonzero [OF that(1), of i] that(2)
      unfolding tolower_eq_0 uint_0_iff by auto
    have za: "?c1 = 0 \<longleftrightarrow> i = length a" and zb: "?c2 = 0 \<longleftrightarrow> i = length b"
      using "1.prems" z by blast+
    obtain m where m: "n - i = Suc m" "n - Suc i = m"
      using True by (metis Suc_diff_Suc)
    consider "?c1 \<noteq> ?c2" | "?c1 = ?c2" "?c1 = 0" | "?c1 = ?c2" "?c1 \<noteq> 0" by blast
    then show ?thesis
    proof cases
      case 1
      then have "istrncmp_from a b n i \<noteq> 0"
        using True by (subst istrncmp_from.simps) (simp only: if_True Let_def, simp)
      then show ?thesis using 1 True m "1.prems" za zb Cons [of a] Cons [of b]
        by (cases "i = length a"; cases "i = length b")
          (simp_all add: lower_def)
    next
      case 2
      then have "istrncmp_from a b n i = 0"
        using True by (subst istrncmp_from.simps) (simp only: if_True Let_def, simp)
      then show ?thesis using 2 za zb by simp
    next
      case 3
      have l: "i < length a" "i < length b" using 3 za zb "1.prems" by auto
      have "istrncmp_from a b n (Suc i) = 0 \<longleftrightarrow>
        take (n - Suc i) (lower (drop (Suc i) a)) = take (n - Suc i) (lower (drop (Suc i) b))"
        using 3 l "1.prems" by (intro "1.IH" [OF True refl refl]) auto
      then show ?thesis using 3 True m l Cons [of a] Cons [of b]
        by (simp add: istrncmp_from.simps [of a b n i] lower_def)
    qed
  qed
qed

lemma istrncmp_eq_0:
  "is_cstr a \<Longrightarrow> is_cstr b \<Longrightarrow> istrncmp a b n = 0 \<longleftrightarrow> take n (lower a) = take n (lower b)"
  using istrncmp_from_0 [of a b 0 n] by (simp add: istrncmp_def)

lemma strchr_from_eq:
  "is_cstr s \<Longrightarrow> strchr_from s c i = None \<longleftrightarrow> c \<notin> set (drop i s)"
  "is_cstr s \<Longrightarrow> strchr_from s c i = Some j \<Longrightarrow> i \<le> j \<and> j < length s \<and> s ! j = c \<and>
     (\<forall>k. i \<le> k \<and> k < j \<longrightarrow> s ! k \<noteq> c)"
proof (induction s c i rule: strchr_from.induct)
  case (1 s c i)
  {
    case 1
    show ?case
    proof (cases "i < length s")
      case True
      then have "chr_at s i \<noteq> 0" using 1 chr_at_nonzero by blast
      then show ?thesis using 1 "1.IH"(1) True Cons_nth_drop_Suc [OF True, symmetric]
        by (auto simp: strchr_from.simps [of s c i])
    qed (simp add: strchr_from.simps [of s c i])
  next
    case 2
    then have "i < length s" by (auto simp: strchr_from.simps [of s c i] chr_at_def split: if_splits)
    moreover have "chr_at s i \<noteq> 0" using 2 calculation chr_at_nonzero by blast
    ultimately show ?case using 2 "1.IH"(2)
      by (auto simp: strchr_from.simps [of s c i] Suc_le_eq le_less split: if_splits)
        (metis Suc_lessI)
  }
qed

lemma strchr_None: "is_cstr s \<Longrightarrow> strchr s c = None \<longleftrightarrow> c \<notin> set s"
  by (simp add: strchr_def strchr_from_eq)

section \<open>Moving memory\<close>

lemma copy_up:
  "dest \<le> src \<Longrightarrow> fold (copy_byte dest src) [0..<n] m x =
    (if dest \<le> x \<and> x < dest + n then m (src + (x - dest)) else m x)"
proof (induction n arbitrary: x)
  case (Suc n)
  have "fold (copy_byte dest src) [0..<n] m (src + n) = m (src + n)"
    using Suc by (cases "dest = src") auto
  then show ?case using Suc by (auto simp: less_Suc_eq copy_byte_def)
qed auto

lemma copy_down:
  "src \<le> dest \<Longrightarrow> fold (copy_byte dest src) (rev [0..<n]) m x =
    (if dest \<le> x \<and> x < dest + n then m (src + (x - dest)) else m x)"
proof (induction n arbitrary: m x)
  case (Suc n)
  have "dest \<le> x \<Longrightarrow> x < dest + n \<Longrightarrow> src + (x - dest) \<noteq> dest + n" using Suc.prems by auto
  then show ?case using Suc.prems by (auto simp: Suc.IH less_Suc_eq copy_byte_def [of _ _ n])
qed auto

lemma memmove_copies:
  "memmove m dest src n x = (if dest \<le> x \<and> x < dest + n then m (src + (x - dest)) else m x)"
  by (simp add: memmove_def copy_up copy_down)

section \<open>Copying strings\<close>

definition cstr_at :: "mem \<Rightarrow> nat \<Rightarrow> bytes \<Rightarrow> bool" where
  "cstr_at m p s \<longleftrightarrow> is_cstr s \<and> (\<forall>i<length s. m (p + i) = s ! i) \<and> m (p + length s) = 0"

definition store :: "mem \<Rightarrow> nat \<Rightarrow> bytes \<Rightarrow> mem" where
  "store m p bs = (\<lambda>x. if p \<le> x \<and> x < p + length bs then bs ! (x - p) else m x)"

definition apart :: "nat \<Rightarrow> nat \<Rightarrow> nat \<Rightarrow> nat \<Rightarrow> bool" where
  "apart p n q k \<longleftrightarrow> p + n \<le> q \<or> q + k \<le> p"

lemma cstr_at_Cons:
  "cstr_at m p (c # s) \<longleftrightarrow> c \<noteq> 0 \<and> m p = c \<and> cstr_at m (Suc p) s"
  by (auto simp: cstr_at_def less_Suc_eq_0_disj)

lemma cstr_at_Nil: "cstr_at m p [] \<longleftrightarrow> m p = 0"
  by (simp add: cstr_at_def)

lemma cstr_at_store:
  "apart p (length bs) q (Suc (length s)) \<Longrightarrow> cstr_at (store m p bs) q s = cstr_at m q s"
proof -
  assume a: "apart p (length bs) q (Suc (length s))"
  have "store m p bs (q + i) = m (q + i)" if "i \<le> length s" for i
    using a that unfolding apart_def store_def by (simp, linarith)
  then show ?thesis by (simp add: cstr_at_def)
qed

lemma store_Cons: "store m p (c # bs) = store (m(p := c)) (Suc p) bs"
proof
  fix x
  show "store m p (c # bs) x = store (m(p := c)) (Suc p) bs x"
  proof (cases "p < x")
    case True
    then obtain k where "x = Suc p + k" by (metis less_iff_Suc_add add_Suc)
    then show ?thesis by (simp add: store_def)
  qed (auto simp: store_def)
qed

lemma store_single: "m(p := c) = store m p [c]"
  by (auto simp: store_def)

lemma cstr_at_stored: "is_cstr s \<Longrightarrow> cstr_at (store m p (s @ [0])) p s"
  by (auto simp: cstr_at_def store_def nth_append)

lemma strcpy_copies:
  "cstr_at m src s \<Longrightarrow> apart dest (Suc (length s)) src (Suc (length s)) \<Longrightarrow>
   strcpy m dest src = Some (store m dest (s @ [0]))"
proof (induction s arbitrary: m dest src)
  case Nil
  then show ?case by (simp add: strcpy.simps cstr_at_Nil store_single)
next
  case (Cons c s)
  have "cstr_at (m(dest := c)) (Suc src) s"
    using Cons.prems by (auto simp: cstr_at_Cons store_single cstr_at_store apart_def)
  then show ?case
    using Cons.IH [of "m(dest := c)" "Suc src" "Suc dest"] Cons.prems
    by (auto simp: strcpy.simps [of m] cstr_at_Cons store_Cons apart_def simp del: fun_upd_apply)
qed

lemma strlen_mem_eq: "cstr_at m (p + n) s \<Longrightarrow> strlen_mem m p n = Some (n + length s)"
proof (induction s arbitrary: n)
  case (Cons c s)
  then show ?case using Cons.IH [of "Suc n"]
    by (subst strlen_mem.simps) (simp add: cstr_at_Cons)
qed (simp add: strlen_mem.simps cstr_at_Nil)

lemma strcat_loop_copies:
  "cstr_at m (src + i) s \<Longrightarrow> apart (dest + sz + i) (Suc (length s)) (src + i) (Suc (length s)) \<Longrightarrow>
   strcat_loop m dest src sz i = Some (store m (dest + sz + i) (s @ [0]))"
proof (induction s arbitrary: m i)
  case Nil
  then show ?case by (simp add: strcat_loop.simps cstr_at_Nil store_single)
next
  case (Cons c s)
  have "cstr_at (m(dest + sz + i := c)) (src + Suc i) s"
    using Cons.prems by (auto simp: cstr_at_Cons store_single cstr_at_store apart_def)
  then show ?case
    using Cons.IH [of "m(dest + sz + i := c)" "Suc i"] Cons.prems
    by (auto simp: strcat_loop.simps [of m] cstr_at_Cons store_Cons apart_def
      simp del: fun_upd_apply)
qed

lemma strcat_appends:
  assumes "cstr_at m dest d" "cstr_at m src s"
    and "apart (dest + length d) (Suc (length s)) src (Suc (length s))"
  shows "strcat m dest src = Some (store m (dest + length d) (s @ [0]))"
  using assms strlen_mem_eq [of m dest 0 d] strcat_loop_copies [of m src 0 s dest "length d"]
  by (simp add: strcat_def)

lemma strcat_string:
  assumes "cstr_at m dest d" "cstr_at m src s"
    and "apart dest (length d + Suc (length s)) src (Suc (length s))"
  shows "\<exists>m'. strcat m dest src = Some m' \<and> cstr_at m' dest (d @ s) \<and> cstr_at m' src s"
proof -
  have "cstr_at (store m (dest + length d) (s @ [0])) dest (d @ s)"
    using assms(1,2) by (auto simp: cstr_at_def store_def nth_append)
  then show ?thesis
    using assms strcat_appends [of m dest d src s]
    by (auto simp: cstr_at_store apart_def)
qed

text \<open>\<open>memmove\<close> copies correctly however the two ranges overlap: afterwards the
  destination holds what the source held before the call, and nothing else changed.\<close>

theorem memmove_correct:
  "memmove m dest src n = store m dest (map (\<lambda>i. m (src + i)) [0..<n])"
  by (auto simp: memmove_copies store_def fun_eq_iff)

end
