(* ===== verification/PathParser.thy ===== *)
theory PathParser
  imports CString
begin

text \<open>
  Path resolution and parsing, \<^verbatim>\<open>src/file_system/path_parser.c\<close>.

  \<open>pathparser_resolve\<close> joins a path with the working directory and removes empty,
  \<^verbatim>\<open>.\<close> and \<^verbatim>\<open>..\<close> parts; \<open>pathparser_parse\<close> splits an absolute path into the linked
  list of its parts, here a list. The output buffer of the resolver is the list
  of the bytes written so far, its length is the C variable \<^verbatim>\<open>len\<close>. Memory exhaustion
  in the parser is not modelled.

  The abstract view of a path is a drive and a stack of parts; the resolver is
  shown to compute it without ever exceeding its buffers.
\<close>

section \<open>The code\<close>

abbreviation (input) MAX_PATH_LEN :: nat where "MAX_PATH_LEN \<equiv> 108"
abbreviation slash :: u8 where "slash \<equiv> 47"
abbreviation colon :: u8 where "colon \<equiv> 58"
abbreviation dot :: u8 where "dot \<equiv> 46"

record path_root =
  drive_no :: int
  parts :: "bytes list"

definition pathparser_path_valid_format :: "bytes \<Rightarrow> bool" where
  "pathparser_path_valid_format filename \<longleftrightarrow>
    strlen filename \<ge> 3 \<and> isdigit (schar (chr_at filename 0))
    \<and> chr_at filename 1 = colon \<and> chr_at filename 2 = slash"

text \<open>The drive number and the path behind the prefix.\<close>

definition pathparser_get_drive_by_path :: "bytes \<Rightarrow> error + int \<times> bytes" where
  "pathparser_get_drive_by_path path =
    (if \<not> pathparser_path_valid_format path then Inl INVALID_PATH_ERROR
     else Inr (schar (chr_at path 0) - 48, drop 3 path))"

definition pathparser_create_root :: "int \<Rightarrow> path_root" where
  "pathparser_create_root drive_number = \<lparr>drive_no = drive_number, parts = []\<rparr>"

fun get_part_loop :: "bytes \<Rightarrow> bytes \<Rightarrow> bytes \<times> bytes" where
  "get_part_loop part [] = (part, [])"
| "get_part_loop part (c # path) =
    (if c \<noteq> slash \<and> c \<noteq> 0 then get_part_loop (part @ [c]) path else (part, c # path))"

definition pathparser_get_path_part :: "bytes \<Rightarrow> bytes option \<times> bytes" where
  "pathparser_get_path_part path =
    (let (part, path) = get_part_loop [] path;
         path = (if chr_at path 0 = slash then drop 1 path else path)
     in (if length part = 0 then None else Some part, path))"

text \<open>The new part is linked behind the last one.\<close>

definition pathparser_parse_path_part :: "bytes list \<Rightarrow> bytes \<Rightarrow> (bytes list \<times> bytes) option" where
  "pathparser_parse_path_part ps path =
    (case pathparser_get_path_part path of
       (None, _) \<Rightarrow> None
     | (Some part, path) \<Rightarrow> Some (ps @ [part], path))"

lemma get_part_loop_length: "length (snd (get_part_loop part path)) \<le> length path"
  and get_part_loop_parts: "length (fst (get_part_loop part path)) + length (snd (get_part_loop part path))
    = length part + length path"
  by (induction part path rule: get_part_loop.induct) auto

lemma parse_path_part_shorter:
  "pathparser_parse_path_part ps path = Some (ps', path') \<Longrightarrow> length path' < length path"
  using get_part_loop_parts [of "[]" path]
  by (auto simp: pathparser_parse_path_part_def pathparser_get_path_part_def less_diff_conv2
    split: prod.splits if_splits) (simp_all flip: length_greater_0_conv)

function parse_loop :: "bytes list \<Rightarrow> bytes \<Rightarrow> bytes list" where
  "parse_loop ps path =
    (case pathparser_parse_path_part ps path of
       None \<Rightarrow> ps
     | Some (ps', path') \<Rightarrow> parse_loop ps' path')"
  by pat_completeness auto
termination
  by (relation "measure (\<lambda>(ps, path). length path)") (auto dest: parse_path_part_shorter)

declare parse_loop.simps [simp del]

definition pathparser_parse :: "bytes \<Rightarrow> path_root option" where
  "pathparser_parse path =
    (if strlen path > MAX_PATH_LEN then None
     else case pathparser_get_drive_by_path path of
       Inl _ \<Rightarrow> None
     | Inr (drive, rest) \<Rightarrow>
         let root = pathparser_create_root drive
         in (case pathparser_parse_path_part [] rest of
               None \<Rightarrow> Some root
             | Some (ps, rest) \<Rightarrow> Some (root\<lparr>parts := parse_loop ps rest\<rparr>)))"

definition joined_path :: "bytes \<Rightarrow> bytes \<Rightarrow> bytes" where
  "joined_path cwd path =
    (if isdigit (schar (chr_at path 0)) \<and> chr_at path 1 = colon then path
     else if chr_at path 0 = slash then take 2 cwd @ path
     else cwd @ [slash] @ path)"

function pop_loop :: "bytes \<Rightarrow> bytes" where
  "pop_loop out =
    (if length out > 2 \<and> last out \<noteq> slash then pop_loop (butlast out) else out)"
  by pat_completeness auto
termination by (relation "measure length") auto

declare pop_loop.simps [simp del]

definition pop_part :: "bytes \<Rightarrow> bytes" where
  "pop_part out = (let out = pop_loop out in if length out > 2 then butlast out else out)"

function resolve_loop :: "bytes \<Rightarrow> bytes \<Rightarrow> int \<Rightarrow> bytes option" where
  "resolve_loop rest out mx =
    (if rest = [] then Some out
     else let start = dropWhile (\<lambda>c. c = slash) rest;
              part = takeWhile (\<lambda>c. c \<noteq> slash) start;
              rest_end = dropWhile (\<lambda>c. c \<noteq> slash) start
          in if part = [dot] then resolve_loop rest_end out mx
             else if part = [dot, dot] then resolve_loop rest_end (pop_part out) mx
             else if length part > 0 then
               if int (length out + 1 + length part) \<ge> mx
                  \<or> length out + 1 + length part > MAX_PATH_LEN
               then None
               else resolve_loop rest_end (out @ [slash] @ part) mx
             else resolve_loop rest_end out mx)"
  by pat_completeness auto

lemma drop_part_shorter:
  "rest \<noteq> [] \<Longrightarrow> length (dropWhile (\<lambda>c. c \<noteq> slash) (dropWhile (\<lambda>c. c = slash) rest)) < length rest"
proof (cases rest)
  case (Cons c cs)
  have l: "length (dropWhile P xs) \<le> length xs" for P and xs :: bytes
    by (rule length_dropWhile_le)
  show ?thesis
  proof (cases "c = slash")
    case True
    then show ?thesis using Cons l l [of "\<lambda>c. c = slash" cs] by (auto intro: le_imp_less_Suc order_trans)
  next
    case False
    then show ?thesis using Cons l [of "\<lambda>c. c \<noteq> slash" cs] by simp
  qed
qed simp

termination resolve_loop
  by (relation "measure (\<lambda>(rest, out, mx). length rest)") (simp_all add: drop_part_shorter)

declare resolve_loop.simps [simp del]

text \<open>Returns the resolved path, \<open>None\<close> where the code returns 0.\<close>

definition pathparser_resolve :: "bytes \<Rightarrow> bytes \<Rightarrow> int \<Rightarrow> bytes option" where
  "pathparser_resolve cwd path mx =
    (if strlen cwd > MAX_PATH_LEN \<or> strlen path > MAX_PATH_LEN \<or> strlen cwd < 3 then None
     else let joined = joined_path cwd path
          in if mx < 4 \<or> chr_at joined 2 \<noteq> slash then None
             else case resolve_loop (drop 2 joined) (take 2 joined) mx of
                    None \<Rightarrow> None
                  | Some out \<Rightarrow> Some (if length out = 2 then out @ [slash] else out))"

section \<open>The abstract path\<close>

text \<open>The parts of a path, and a stack of parts written as a path.\<close>

function parts_of :: "bytes \<Rightarrow> bytes list" where
  "parts_of rest =
    (let start = dropWhile (\<lambda>c. c = slash) rest
     in if start = [] then []
        else takeWhile (\<lambda>c. c \<noteq> slash) start # parts_of (dropWhile (\<lambda>c. c \<noteq> slash) start))"
  by pat_completeness auto
termination
  by (relation "measure length") (auto intro: drop_part_shorter)

declare parts_of.simps [simp del]

definition render :: "bytes list \<Rightarrow> bytes" where
  "render st = concat (map (\<lambda>p. slash # p) st)"

definition render_path :: "bytes \<Rightarrow> bytes list \<Rightarrow> bytes" where
  "render_path drive st = drive @ (if st = [] then [slash] else render st)"

text \<open>Walking the parts: \<^verbatim>\<open>.\<close> stays, \<^verbatim>\<open>..\<close> pops (and stays at the root), anything else
  is pushed if the path then fits in \<open>lim\<close> bytes.\<close>

fun walk :: "nat \<Rightarrow> bytes list \<Rightarrow> bytes list \<Rightarrow> bytes list option" where
  "walk lim [] st = Some st"
| "walk lim (p # ps) st =
    (if p = [dot] then walk lim ps st
     else if p = [dot, dot] then walk lim ps (butlast st)
     else if 2 + length (render (st @ [p])) > lim then None
     else walk lim ps (st @ [p]))"

definition plain_part :: "bytes \<Rightarrow> bool" where
  "plain_part p \<longleftrightarrow> p \<noteq> [] \<and> slash \<notin> set p \<and> 0 \<notin> set p"

definition normal_part :: "bytes \<Rightarrow> bool" where
  "normal_part p \<longleftrightarrow> plain_part p \<and> p \<noteq> [dot] \<and> p \<noteq> [dot, dot]"

lemma render_simps [simp]:
  "render [] = []" "render (p # st) = slash # p @ render st" "render (xs @ ys) = render xs @ render ys"
  by (simp_all add: render_def)

lemma parts_of_Nil [simp]: "parts_of [] = []"
  by (simp add: parts_of.simps)

lemma takeWhile_part:
  "start = dropWhile (\<lambda>c. c = slash) rest \<Longrightarrow> start \<noteq> [] \<Longrightarrow> takeWhile (\<lambda>c. c \<noteq> slash) start \<noteq> []"
proof -
  assume s: "start = dropWhile (\<lambda>c. c = slash) rest" "start \<noteq> []"
  then have "hd start \<noteq> slash" using hd_dropWhile [of "\<lambda>c. c = slash" rest] by metis
  then show ?thesis using s(2) by (cases start) simp_all
qed

lemma set_parts_of: "is_cstr rest \<Longrightarrow> p \<in> set (parts_of rest) \<Longrightarrow> plain_part p"
proof (induction rest rule: parts_of.induct)
  case (1 rest)
  let ?start = "dropWhile (\<lambda>c. c = slash) rest"
  have z: "is_cstr (dropWhile (\<lambda>c. c \<noteq> slash) ?start)"
    "0 \<notin> set (takeWhile (\<lambda>c. c \<noteq> slash) ?start)"
    using "1.prems"(1) by (auto simp: is_cstr_def dest!: set_dropWhileD set_takeWhileD)
  have s: "?start \<noteq> []" using "1.prems"(2) by (auto simp: parts_of.simps [of rest] Let_def split: if_splits)
  from "1.prems"(2) consider "p = takeWhile (\<lambda>c. c \<noteq> slash) ?start"
    | "p \<in> set (parts_of (dropWhile (\<lambda>c. c \<noteq> slash) ?start))"
    using parts_of.simps [of rest] s unfolding Let_def by (metis set_ConsD)
  then show ?case
  proof cases
    case 1
    then show ?thesis using takeWhile_part [OF refl s] z(2)
      by (auto simp: plain_part_def dest: set_takeWhileD)
  next
    case 2
    then show ?thesis using "1.IH" [OF refl s z(1)] by simp
  qed
qed

lemma parts_of_slash [simp]: "parts_of (slash # rest) = parts_of rest"
  by (simp add: parts_of.simps [of "slash # rest"] parts_of.simps [of rest])

lemma parts_of_part:
  assumes "plain_part p" "rest = [] \<or> hd rest = slash"
  shows "parts_of (p @ rest) = p # parts_of rest"
proof -
  have d: "dropWhile (\<lambda>c. c = slash) (p @ rest) = p @ rest"
    using assms(1) by (cases p) (auto simp: plain_part_def)
  have "takeWhile (\<lambda>c. c \<noteq> slash) (p @ rest) = p" "dropWhile (\<lambda>c. c \<noteq> slash) (p @ rest) = rest"
    using assms by (cases rest; auto simp: plain_part_def takeWhile_append dropWhile_append)+
  then show ?thesis
    using d assms(1) by (simp add: parts_of.simps [of "p @ rest"] plain_part_def)
qed

lemma parts_of_render: "\<forall>p \<in> set st. plain_part p \<Longrightarrow> parts_of (render st) = st"
proof (induction st)
  case (Cons p st)
  then show ?case using parts_of_part [of p "render st"] by (cases st) auto
qed simp

section \<open>The resolver walks the parts\<close>

lemma pop_loop_append:
  "slash \<notin> set p \<Longrightarrow> 2 \<le> length out \<Longrightarrow> last out = slash \<or> length out = 2 \<Longrightarrow> pop_loop (out @ p) = out"
proof (induction p rule: rev_induct)
  case Nil
  then show ?case by (auto simp: pop_loop.simps [of out])
next
  case (snoc c p)
  then show ?case
    by (subst pop_loop.simps) (simp add: butlast_append del: append_assoc flip: append_assoc)
qed

lemma pop_part_render:
  assumes "length d = 2" "\<forall>p \<in> set st. plain_part p"
  shows "pop_part (d @ render st) = d @ render (butlast st)"
proof (cases st rule: rev_cases)
  case Nil
  then show ?thesis using assms by (simp add: pop_part_def pop_loop.simps [of d] Let_def)
next
  case (snoc st' p)
  then have "pop_loop ((d @ render st' @ [slash]) @ p) = d @ render st' @ [slash]"
    using assms by (intro pop_loop_append) (auto simp: plain_part_def)
  then show ?thesis using snoc assms by (simp add: pop_part_def Let_def butlast_append)
qed

lemma resolve_loop_walks:
  assumes "length d = 2" "is_cstr rest" "\<forall>p \<in> set st. plain_part p" "mx > 0"
  shows "resolve_loop rest (d @ render st) mx =
    map_option (\<lambda>st'. d @ render st') (walk (min (nat mx - 1) MAX_PATH_LEN) (parts_of rest) st)"
  using assms(2-4)
proof (induction rest arbitrary: st rule: parts_of.induct)
  case (1 rest)
  let ?start = "dropWhile (\<lambda>c. c = slash) rest"
  let ?part = "takeWhile (\<lambda>c. c \<noteq> slash) ?start" and ?rest = "dropWhile (\<lambda>c. c \<noteq> slash) ?start"
  show ?case
  proof (cases "?start = []")
    case True
    then have "parts_of rest = []" "resolve_loop rest out mx = Some out" for out
      by (simp_all add: parts_of.simps [of rest] resolve_loop.simps [of rest]
        resolve_loop.simps [of "[]"] Let_def del: dropWhile_eq_Nil_conv)
    then show ?thesis by simp
  next
    case False
    then have ps: "parts_of rest = ?part # parts_of ?rest" "rest \<noteq> []"
      by (auto simp: parts_of.simps [of rest] Let_def)
    have e: "is_cstr ?rest" using "1.prems"(1) by (auto simp: is_cstr_def dest!: set_dropWhileD)
    have p: "plain_part ?part" using set_parts_of [OF "1.prems"(1)] ps(1) by simp
    note IH = "1.IH" [OF refl False e _ "1.prems"(3)]
    have fits: "int (length (d @ render st) + 1 + length ?part) \<ge> mx
        \<or> length (d @ render st) + 1 + length ?part > MAX_PATH_LEN
      \<longleftrightarrow> 2 + length (render (st @ [?part])) > min (nat mx - 1) MAX_PATH_LEN"
      using assms(1) "1.prems"(3) by auto
    have b: "\<forall>p \<in> set (butlast st). plain_part p"
      using "1.prems"(2) by (auto dest: in_set_butlastD)
    have s: "\<forall>p \<in> set (st @ [?part]). plain_part p" using "1.prems"(2) p by simp
    have len: "0 < length ?part" using p by (simp add: plain_part_def)
    show ?thesis
      unfolding ps(1) walk.simps resolve_loop.simps [of rest "d @ render st"] Let_def fits
        pop_part_render [OF assms(1) "1.prems"(2)]
      using ps(2) len IH [OF "1.prems"(2)] IH [OF b] IH [OF s] by (simp del: length_greater_0_conv)
  qed
qed


section \<open>Walking gives a normal path\<close>

lemma walk_normal:
  "walk lim ps st = Some st' \<Longrightarrow> \<forall>p \<in> set ps. plain_part p \<Longrightarrow> \<forall>p \<in> set st. normal_part p \<Longrightarrow>
   2 + length (render st) \<le> lim \<or> st = [] \<Longrightarrow>
   (\<forall>p \<in> set st'. normal_part p) \<and> (2 + length (render st') \<le> lim \<or> st' = [])"
proof (induction lim ps st rule: walk.induct)
  case (2 lim p ps st)
  have b: "2 + length (render (butlast st)) \<le> lim \<or> butlast st = []"
  proof (cases st rule: rev_cases)
    case (snoc st'' q)
    then show ?thesis using 2 by simp
  qed simp
  have nb: "\<forall>p \<in> set (butlast st). normal_part p" using 2 by (auto dest: in_set_butlastD)
  consider "p = [dot]" | "p = [dot, dot]" | "p \<noteq> [dot]" "p \<noteq> [dot, dot]" by blast
  then show ?case
  proof cases
    case 3
    then have "normal_part p" using 2 by (simp add: normal_part_def)
    then show ?thesis using 2 3 by (simp split: if_splits)
  qed (use 2 b nb in simp_all)
qed simp

lemma walk_normal_stack:
  "\<forall>p \<in> set ps. normal_part p \<Longrightarrow> 2 + length (render (st @ ps)) \<le> lim \<Longrightarrow> walk lim ps st = Some (st @ ps)"
  by (induction ps arbitrary: st) (auto simp: normal_part_def)

lemma walk_mono: "walk lim ps st = Some st' \<Longrightarrow> lim \<le> lim' \<Longrightarrow> walk lim' ps st = Some st'"
  by (induction lim ps st rule: walk.induct) (auto split: if_splits)

definition walk_path :: "bytes \<Rightarrow> bytes \<Rightarrow> int \<Rightarrow> (bytes \<times> bytes list) option" where
  "walk_path cwd path mx =
    (let j = joined_path cwd path
     in if chr_at j 2 \<noteq> slash then None
        else map_option (Pair (take 2 j)) (walk (min (nat mx - 1) MAX_PATH_LEN) (parts_of (drop 2 j)) []))"

lemma is_cstr_joined: "is_cstr cwd \<Longrightarrow> is_cstr path \<Longrightarrow> is_cstr (joined_path cwd path)"
  by (auto simp: joined_path_def is_cstr_def dest: in_set_takeD)

lemma resolve_walks:
  assumes "is_cstr cwd" "is_cstr path" "3 \<le> length cwd" "length cwd \<le> MAX_PATH_LEN"
    "length path \<le> MAX_PATH_LEN" "4 \<le> mx"
  shows "pathparser_resolve cwd path mx = map_option (\<lambda>(d, st). render_path d st) (walk_path cwd path mx)"
proof (cases "chr_at (joined_path cwd path) 2 = slash")
  case True
  let ?j = "joined_path cwd path"
  have len: "length (take 2 ?j) = 2" using True by (auto simp: chr_at_def split: if_splits)
  have c: "is_cstr (drop 2 ?j)" using is_cstr_joined [OF assms(1,2)] by (auto simp: is_cstr_def dest: in_set_dropD)
  have "resolve_loop (drop 2 ?j) (take 2 ?j) mx =
    map_option (\<lambda>st'. take 2 ?j @ render st') (walk (min (nat mx - 1) MAX_PATH_LEN) (parts_of (drop 2 ?j)) [])"
    using resolve_loop_walks [OF len c, of "[]" mx] assms(6) by simp
  moreover have "render st = [] \<longleftrightarrow> st = []" for st by (cases st) auto
  ultimately show ?thesis
    using assms True len
    by (auto simp: pathparser_resolve_def walk_path_def Let_def render_path_def split: option.splits)
qed (use assms in \<open>simp add: pathparser_resolve_def walk_path_def Let_def\<close>)

lemma walk_path_normal:
  assumes "is_cstr cwd" "is_cstr path" "walk_path cwd path mx = Some (d, st)"
  shows "length d = 2" "\<forall>p \<in> set st. normal_part p"
    "2 + length (render st) \<le> min (nat mx - 1) MAX_PATH_LEN \<or> st = []"
proof -
  let ?j = "joined_path cwd path"
  have w: "d = take 2 ?j" "chr_at ?j 2 = slash"
      "walk (min (nat mx - 1) MAX_PATH_LEN) (parts_of (drop 2 ?j)) [] = Some st"
    using assms(3) by (auto simp: walk_path_def Let_def split: if_splits)
  show "length d = 2" using w by (auto simp: chr_at_def split: if_splits)
  have "is_cstr (drop 2 ?j)"
    using is_cstr_joined [OF assms(1,2)] by (auto simp: is_cstr_def dest: in_set_dropD)
  then have "\<forall>p \<in> set (parts_of (drop 2 ?j)). plain_part p" using set_parts_of by blast
  from walk_normal [OF w(3) this]
  show "\<forall>p \<in> set st. normal_part p"
    "2 + length (render st) \<le> min (nat mx - 1) MAX_PATH_LEN \<or> st = []" by simp_all
qed

lemma render_path_length:
  "length d = 2 \<Longrightarrow> 2 + length (render st) \<le> lim \<or> st = [] \<Longrightarrow> length (render_path d st) \<le> max lim 3"
  by (auto simp: render_path_def)

section \<open>Parsing what was resolved\<close>

lemma get_part_loop_eq:
  "plain_part p \<Longrightarrow> rest = [] \<or> hd rest = slash \<Longrightarrow> get_part_loop acc (p @ rest) = (acc @ p, rest)"
proof -
  have "slash \<notin> set p \<Longrightarrow> 0 \<notin> set p \<Longrightarrow> rest = [] \<or> hd rest = slash \<Longrightarrow>
    get_part_loop acc (p @ rest) = (acc @ p, rest)" for acc
    by (induction p arbitrary: acc) (cases rest; auto)+
  then show "plain_part p \<Longrightarrow> rest = [] \<or> hd rest = slash \<Longrightarrow>
    get_part_loop acc (p @ rest) = (acc @ p, rest)" by (auto simp: plain_part_def)
qed

lemma parse_loop_render:
  "\<forall>p \<in> set st. plain_part p \<Longrightarrow> parse_loop ps (drop 1 (render st)) = ps @ st"
proof (induction st arbitrary: ps)
  case Nil
  then show ?case
    by (simp add: parse_loop.simps pathparser_parse_path_part_def pathparser_get_path_part_def)
next
  case (Cons p st)
  have "get_part_loop [] (p @ render st) = (p, render st)"
    using Cons.prems get_part_loop_eq [of p "render st" "[]"] by (cases st) auto
  moreover have "p \<noteq> []" using Cons.prems by (simp add: plain_part_def)
  moreover have "(if chr_at (render st) 0 = slash then drop 1 (render st) else render st)
    = drop 1 (render st)" by (cases st) auto
  ultimately show ?case using Cons
    by (subst parse_loop.simps)
      (simp add: pathparser_parse_path_part_def pathparser_get_path_part_def)
qed

lemma parse_render:
  assumes d: "d = [c, colon]" "isdigit (schar c)" and st: "\<forall>p \<in> set st. plain_part p"
    and len: "length (render_path d st) \<le> MAX_PATH_LEN" and "c \<noteq> 0"
  shows "pathparser_parse (render_path d st) = Some \<lparr>drive_no = schar c - 48, parts = st\<rparr>"
proof -
  let ?path = "render_path d st"
  have r: "is_cstr (render st)" using st by (auto simp: is_cstr_def render_def plain_part_def)
  then have c: "is_cstr ?path" using d \<open>c \<noteq> 0\<close> by (simp add: render_path_def)
  have v: "pathparser_get_drive_by_path ?path = Inr (schar c - 48, drop 1 (render st))"
  proof (cases st)
    case Nil
    then show ?thesis using d c by (simp add: pathparser_get_drive_by_path_def pathparser_path_valid_format_def
        render_path_def eval_nat_numeral)
  next
    case (Cons p st')
    then show ?thesis using d c st by (simp add: pathparser_get_drive_by_path_def pathparser_path_valid_format_def
        render_path_def eval_nat_numeral)
  qed
  show ?thesis
    using v c len parse_loop_render [OF st, of "[]"]
    by (simp add: pathparser_parse_def pathparser_create_root_def parse_loop.simps [of "[]"]
        split: option.splits prod.splits)
qed

section \<open>Correctness of the resolver\<close>

definition cwd_ok :: "bytes \<Rightarrow> bool" where
  "cwd_ok cwd \<longleftrightarrow> is_cstr cwd \<and> 3 \<le> length cwd \<and> length cwd \<le> MAX_PATH_LEN
     \<and> isdigit (schar (chr_at cwd 0)) \<and> chr_at cwd 1 = colon"

lemma joined_drive:
  assumes "cwd_ok cwd"
  shows "isdigit (schar (chr_at (joined_path cwd path) 0))" "chr_at (joined_path cwd path) 1 = colon"
  using assms by (auto simp: joined_path_def cwd_ok_def chr_at_def nth_append)

lemma walk_path_drive:
  assumes "cwd_ok cwd" "walk_path cwd path mx = Some (d, st)"
  obtains c where "d = [c, colon]" "isdigit (schar c)" "c \<noteq> 0"
proof -
  let ?j = "joined_path cwd path"
  have d: "d = take 2 ?j" "2 < length ?j"
    using assms(2) by (auto simp: walk_path_def Let_def chr_at_def split: if_splits)
  then have "d = [?j ! 0, ?j ! 1]"
    by (cases ?j; cases "tl ?j") auto
  moreover have "?j ! 0 \<noteq> 0"
    using joined_drive(1) [OF assms(1), of path] d(2) by (auto simp: isdigit_def schar_def chr_at_def split: if_splits)
  moreover have "chr_at ?j 0 = ?j ! 0" "chr_at ?j 1 = ?j ! 1" using d(2)
    by - (rule chr_at_less, linarith)+
  ultimately show thesis using joined_drive [OF assms(1), of path] that by simp
qed

text \<open>C4. The resolver computes the abstract walk: it splits the joined path into its
  parts, drops \<^verbatim>\<open>.\<close>, pops on \<^verbatim>\<open>..\<close>, pushes everything else, and fails exactly when
  there is no slash behind the drive or a push would not fit.\<close>

theorem pathparser_resolve_walks:
  assumes "is_cstr cwd" "is_cstr path" "3 \<le> length cwd" "length cwd \<le> MAX_PATH_LEN"
    "length path \<le> MAX_PATH_LEN" "4 \<le> mx"
  shows "pathparser_resolve cwd path mx =
    map_option (\<lambda>(d, st). render_path d st) (walk_path cwd path mx)"
  by (rule resolve_walks [OF assms])

text \<open>C5. A resolved path is normal and fits: its buffer of \<open>mx\<close> bytes is never overrun,
  the joined path fits the local buffer of \<open>2 * MAX_PATH_LEN + 2\<close> bytes, and no part
  is empty, \<^verbatim>\<open>.\<close> or \<^verbatim>\<open>..\<close>.\<close>

theorem pathparser_resolve_normal:
  assumes "is_cstr cwd" "is_cstr path" "pathparser_resolve cwd path mx = Some out"
  shows "int (length out) < mx \<and> length out \<le> MAX_PATH_LEN
    \<and> length (joined_path cwd path) + 1 \<le> 2 * MAX_PATH_LEN + 2
    \<and> (\<exists>st. out = render_path (take 2 out) st \<and> (\<forall>p \<in> set st. normal_part p))"
proof -
  have b: "3 \<le> length cwd" "length cwd \<le> MAX_PATH_LEN" "length path \<le> MAX_PATH_LEN" "4 \<le> mx"
    using assms by (auto simp: pathparser_resolve_def Let_def split: if_splits)
  obtain d st where w: "walk_path cwd path mx = Some (d, st)" "out = render_path d st"
    using assms resolve_walks [OF assms(1,2) b] by auto
  note n = walk_path_normal [OF assms(1,2) w(1)]
  have "length out \<le> max (min (nat mx - 1) MAX_PATH_LEN) 3"
    using render_path_length [OF n(1,3)] w(2) by simp
  moreover have "take 2 out = d" using n(1) w(2) by (simp add: render_path_def)
  moreover have "length (joined_path cwd path) + 1 \<le> 2 * MAX_PATH_LEN + 2"
    using b by (simp add: joined_path_def)
  ultimately show ?thesis using n w(2) b(4) by auto
qed

text \<open>A resolved path is a fixed point: resolving it again gives it back, whatever
  the working directory is by then.\<close>

theorem pathparser_resolve_idempotent:
  assumes "cwd_ok cwd" "cwd_ok cwd'" "is_cstr path" "pathparser_resolve cwd path mx = Some out"
  shows "pathparser_resolve cwd' out mx = Some out"
proof -
  have c: "is_cstr cwd" "is_cstr cwd'" using assms(1,2) by (simp_all add: cwd_ok_def)
  have b: "3 \<le> length cwd" "length cwd \<le> MAX_PATH_LEN" "length path \<le> MAX_PATH_LEN" "4 \<le> mx"
    using assms(1,3,4) c by (auto simp: pathparser_resolve_def Let_def split: if_splits)
  obtain d st where w: "walk_path cwd path mx = Some (d, st)" "out = render_path d st"
    using assms(4) resolve_walks [OF c(1) assms(3) b] by auto
  note n = walk_path_normal [OF c(1) assms(3) w(1)]
  obtain a where d: "d = [a, colon]" "isdigit (schar a)" "a \<noteq> 0"
    using walk_path_drive [OF assms(1) w(1)] .
  have plain: "\<forall>p \<in> set st. plain_part p" using n(2) by (simp add: normal_part_def)
  then have r: "is_cstr (render st)" by (auto simp: is_cstr_def render_def plain_part_def)
  have o: "is_cstr out" "length out \<le> MAX_PATH_LEN"
    using r d w(2) render_path_length [OF n(1,3)] by (auto simp: render_path_def)
  have j: "joined_path cwd' out = out" using d w(2) by (simp add: joined_path_def render_path_def)
  have "chr_at out 2 = slash" "drop 2 out = (if st = [] then [slash] else render st)" "take 2 out = d"
    using d w(2) by (cases st; auto simp: render_path_def)+
  then have "walk_path cwd' out mx = Some (d, st)"
    using n(3) walk_normal_stack [OF n(2), of "[]"] parts_of_render [OF plain]
    by (auto simp: walk_path_def j)
  then show ?thesis
    using resolve_walks [OF c(2) o(1) _ _ o(2) b(4)] assms(2) w(2) by (simp add: cwd_ok_def)
qed

text \<open>Resolving and then parsing gives the drive and the parts of the abstract walk:
  no part is lost between the two functions.\<close>

theorem pathparser_resolve_parse:
  assumes "cwd_ok cwd" "is_cstr path" "pathparser_resolve cwd path mx = Some out"
  shows "\<exists>d st. walk_path cwd path mx = Some (d, st) \<and>
    pathparser_parse out = Some \<lparr>drive_no = schar (chr_at d 0) - 48, parts = st\<rparr>"
proof -
  have c: "is_cstr cwd" using assms(1) by (simp add: cwd_ok_def)
  have b: "3 \<le> length cwd" "length cwd \<le> MAX_PATH_LEN" "length path \<le> MAX_PATH_LEN" "4 \<le> mx"
    using assms c by (auto simp: pathparser_resolve_def Let_def split: if_splits)
  obtain d st where w: "walk_path cwd path mx = Some (d, st)" "out = render_path d st"
    using assms(3) resolve_walks [OF c assms(2) b] by auto
  note n = walk_path_normal [OF c assms(2) w(1)]
  obtain a where d: "d = [a, colon]" "isdigit (schar a)" "a \<noteq> 0"
    using walk_path_drive [OF assms(1) w(1)] .
  have "\<forall>p \<in> set st. plain_part p" using n(2) by (simp add: normal_part_def)
  then have "pathparser_parse out = Some \<lparr>drive_no = schar a - 48, parts = st\<rparr>"
    using parse_render [OF d(1,2) _ _ d(3)] render_path_length [OF n(1,3)] w(2) by simp
  then show ?thesis using w d(1) by auto
qed

section \<open>Witnesses\<close>

definition example_cwd :: bytes where
  "example_cwd = str ''0:/usr/bin''"

lemma example_cwd_ok: "cwd_ok example_cwd"
  by code_simp

theorem pathparser_resolve_walks_witness:
  "pathparser_resolve example_cwd (str ''../lib'') 64
    = map_option (\<lambda>(d, st). render_path d st) (walk_path example_cwd (str ''../lib'') 64)
   \<and> pathparser_resolve example_cwd (str ''../lib'') 64 = Some (str ''0:/usr/lib'')"
proof
  show "pathparser_resolve example_cwd (str ''../lib'') 64
    = map_option (\<lambda>(d, st). render_path d st) (walk_path example_cwd (str ''../lib'') 64)"
    by (rule pathparser_resolve_walks) code_simp+
  show "pathparser_resolve example_cwd (str ''../lib'') 64 = Some (str ''0:/usr/lib'')"
    by code_simp
qed

lemma example_resolve: "pathparser_resolve example_cwd (str ''./a//b/..'') 64 = Some (str ''0:/usr/bin/a'')"
  by code_simp

theorem pathparser_resolve_normal_witness: "int (length (str ''0:/usr/bin/a'')) < 64"
  using pathparser_resolve_normal [OF _ _ example_resolve] example_cwd_ok
  by (simp add: cwd_ok_def) (simp add: str_def is_cstr_def)

theorem pathparser_resolve_idempotent_witness:
  "pathparser_resolve example_cwd (str ''0:/usr/bin/a'') 64 = Some (str ''0:/usr/bin/a'')"
  by (rule pathparser_resolve_idempotent [OF example_cwd_ok example_cwd_ok _ example_resolve]) code_simp

theorem pathparser_resolve_parse_witness:
  "\<exists>d st. walk_path example_cwd (str ''./a//b/..'') 64 = Some (d, st) \<and>
    pathparser_parse (str ''0:/usr/bin/a'') = Some \<lparr>drive_no = schar (chr_at d 0) - 48, parts = st\<rparr>"
  by (rule pathparser_resolve_parse [OF example_cwd_ok _ example_resolve]) code_simp

end
