(* ===== verification/Paging.thy ===== *)
theory Paging
  imports Heap
begin

text \<open>
  Page directories and user address spaces: \<^verbatim>\<open>src/kernel/memory/paging/page.c\<close> and
  the functions of \<^verbatim>\<open>src/kernel/task/task.c\<close> that map, fill and free user pages.

  Physical memory is seen through typed stores over the kernel heap: \<open>tables\<close> holds
  page tables and directories (1024 entries each), \<open>dirs\<close> the \<^verbatim>\<open>struct page_dir\<close>
  objects and \<open>upages\<close> the 4 kb user pages. A pointer is the address the heap gave.
  \<open>mmu\<close> is the translation the processor does with these tables.
\<close>

section \<open>The memory manager state\<close>

record page_dir =
  dir_entry :: u32
  user_tables :: "u32 list"
  user_start :: u32

record mm_state =
  heap :: heap_desc
  tables :: "u32 \<rightharpoonup> u32 list"
  dirs :: "u32 \<rightharpoonup> page_dir"
  upages :: "u32 \<rightharpoonup> bytes"

abbreviation (input) PAGE_SIZE :: u32 where "PAGE_SIZE \<equiv> 4096"
abbreviation (input) TABLE_SPAN :: u32 where "TABLE_SPAN \<equiv> 4194304"
abbreviation (input) USER_CODE_ADDR :: u32 where "USER_CODE_ADDR \<equiv> 0x40000000"
abbreviation (input) USER_STACK_TOP :: u32 where "USER_STACK_TOP \<equiv> 0x44000000"
abbreviation (input) USER_STACK_SIZE :: u32 where "USER_STACK_SIZE \<equiv> 16384"
abbreviation (input) USER_HEAP_LIMIT :: u32 where "USER_HEAP_LIMIT \<equiv> 0x43FFB000"
abbreviation (input) USER_SPACE_TABLES :: nat where "USER_SPACE_TABLES \<equiv> 16"
abbreviation (input) IS_PRESENT :: u32 where "IS_PRESENT \<equiv> 1"
abbreviation (input) IS_WRITABLE :: u32 where "IS_WRITABLE \<equiv> 2"
abbreviation (input) ACCESS_ALL :: u32 where "ACCESS_ALL \<equiv> 4"

text \<open>\<^verbatim>\<open>calloc\<close> and \<^verbatim>\<open>free\<close> of the three kinds of objects.\<close>

definition calloc_table :: "'a mm_state_scheme \<Rightarrow> 'a mm_state_scheme \<times> u32" where
  "calloc_table m =
    (let (h, p) = heap_malloc (heap m) 4096
     in if p = 0 then (m\<lparr>heap := h\<rparr>, 0)
        else (m\<lparr>heap := h, tables := (tables m)(p \<mapsto> replicate 1024 0)\<rparr>, p))"

definition calloc_dir :: "'a mm_state_scheme \<Rightarrow> 'a mm_state_scheme \<times> u32" where
  "calloc_dir m =
    (let (h, p) = heap_malloc (heap m) 72
     in if p = 0 then (m\<lparr>heap := h\<rparr>, 0)
        else (m\<lparr>heap := h, dirs := (dirs m)(p \<mapsto>
                \<lparr>dir_entry = 0, user_tables = replicate USER_SPACE_TABLES 0, user_start = 0\<rparr>)\<rparr>, p))"

definition calloc_page :: "'a mm_state_scheme \<Rightarrow> 'a mm_state_scheme \<times> u32" where
  "calloc_page m =
    (let (h, p) = heap_malloc (heap m) 4096
     in if p = 0 then (m\<lparr>heap := h\<rparr>, 0)
        else (m\<lparr>heap := h, upages := (upages m)(p \<mapsto> replicate 4096 0)\<rparr>, p))"

definition free_table :: "'a mm_state_scheme \<Rightarrow> u32 \<Rightarrow> 'a mm_state_scheme" where
  "free_table m p = m\<lparr>heap := kfree (heap m) p, tables := (tables m)(p := None)\<rparr>"

definition free_dir :: "'a mm_state_scheme \<Rightarrow> u32 \<Rightarrow> 'a mm_state_scheme" where
  "free_dir m p = m\<lparr>heap := kfree (heap m) p, dirs := (dirs m)(p := None)\<rparr>"

definition free_page :: "'a mm_state_scheme \<Rightarrow> u32 \<Rightarrow> 'a mm_state_scheme" where
  "free_page m p = m\<lparr>heap := kfree (heap m) p, upages := (upages m)(p := None)\<rparr>"

text \<open>Reading and writing an entry of a table through its address.\<close>

definition entry_get :: "'a mm_state_scheme \<Rightarrow> u32 \<Rightarrow> nat \<Rightarrow> u32" where
  "entry_get m t i = (case tables m t of Some es \<Rightarrow> if i < length es then es ! i else 0 | None \<Rightarrow> 0)"

definition entry_set :: "'a mm_state_scheme \<Rightarrow> u32 \<Rightarrow> nat \<Rightarrow> u32 \<Rightarrow> 'a mm_state_scheme" where
  "entry_set m t i v =
    m\<lparr>tables := (tables m)(t := map_option (\<lambda>es. es[i := v]) (tables m t))\<rparr>"

section \<open>Page directories\<close>

text \<open>The boot directory maps every address to itself. \<open>None\<close>: an allocation failed,
  which the code does not check.\<close>

fun page_dir_init_loop ::
  "u32 \<Rightarrow> u32 \<Rightarrow> nat \<Rightarrow> nat \<Rightarrow> u32 \<Rightarrow> 'a mm_state_scheme \<Rightarrow> 'a mm_state_scheme option" where
  "page_dir_init_loop de flags i 0 offset m = Some m"
| "page_dir_init_loop de flags i (Suc n) offset m =
    (let (m, te) = calloc_table m
     in if te = 0 then None
        else let es = map (\<lambda>j. (offset + word_of_nat j * PAGE_SIZE) OR flags) [0..<1024];
                 m = m\<lparr>tables := (tables m)(te \<mapsto> es)\<rparr>;
                 m = entry_set m de i (te OR flags OR IS_WRITABLE)
             in page_dir_init_loop de flags (Suc i) n (offset + TABLE_SPAN) m)"

definition page_dir_init :: "'a mm_state_scheme \<Rightarrow> u32 \<Rightarrow> ('a mm_state_scheme \<times> u32) option" where
  "page_dir_init m flags =
    (let (m, de) = calloc_table m
     in if de = 0 then None
        else case page_dir_init_loop de flags 0 1024 0 m of
          None \<Rightarrow> None
        | Some m \<Rightarrow>
            let (m, d) = calloc_dir m
            in if d = 0 then None
               else Some (m\<lparr>dirs := (dirs m)(d := map_option (dir_entry_update (\<lambda>_. de)) (dirs m d))\<rparr>, d))"

definition page_dir_new_user ::
  "'a mm_state_scheme \<Rightarrow> u32 \<Rightarrow> u32 \<Rightarrow> 'a mm_state_scheme \<times> u32" where
  "page_dir_new_user m kernel_dir user_addr =
    (let (m, d) = calloc_dir m; (m, de) = calloc_table m
     in if d = 0 \<or> de = 0 then (free_table (free_dir m d) de, 0)
        else let kde = (case dirs m kernel_dir of Some kd \<Rightarrow> the (tables m (dir_entry kd)) | None \<Rightarrow> []);
                 start = user_addr AND NOT (TABLE_SPAN - 1);
                 es = fold (\<lambda>i es. es[unat (start div TABLE_SPAN) + i := 0]) [0..<USER_SPACE_TABLES] kde
             in (m\<lparr>tables := (tables m)(de \<mapsto> es),
                   dirs := (dirs m)(d \<mapsto>
                     \<lparr>dir_entry = de, user_tables = replicate USER_SPACE_TABLES 0, user_start = start\<rparr>)\<rparr>, d))"

text \<open>The address of the entry for \<open>vaddr\<close>: a table and an index in it.\<close>

definition page_dir_user_entry ::
  "'a mm_state_scheme \<Rightarrow> u32 \<Rightarrow> u32 \<Rightarrow> bool \<Rightarrow> 'a mm_state_scheme \<times> (u32 \<times> nat) option" where
  "page_dir_user_entry m d vaddr create =
    (case dirs m d of
       None \<Rightarrow> (m, None)
     | Some pd \<Rightarrow>
         if vaddr < user_start pd
            \<or> vaddr - user_start pd \<ge> of_nat USER_SPACE_TABLES * TABLE_SPAN then (m, None)
         else let idx = unat ((vaddr - user_start pd) div TABLE_SPAN);
                  table = user_tables pd ! idx;
                  slot = unat (vaddr div PAGE_SIZE mod 1024)
              in if table \<noteq> 0 then (m, Some (table, slot))
                 else if \<not> create then (m, None)
                 else let (m, table) = calloc_table m
                      in if table = 0 then (m, None)
                         else let m = m\<lparr>dirs := (dirs m)(d \<mapsto> pd\<lparr>user_tables := (user_tables pd)[idx := table]\<rparr>)\<rparr>;
                                  m = entry_set m (dir_entry pd) (unat (user_start pd div TABLE_SPAN) + idx)
                                        (table OR IS_PRESENT OR IS_WRITABLE OR ACCESS_ALL)
                              in (m, Some (table, slot)))"

definition page_dir_free_user :: "'a mm_state_scheme \<Rightarrow> u32 \<Rightarrow> 'a mm_state_scheme" where
  "page_dir_free_user m d =
    (case dirs m d of
       None \<Rightarrow> m
     | Some pd \<Rightarrow>
         let m = fold (\<lambda>i m. free_table m (user_tables pd ! i)) [0..<USER_SPACE_TABLES] m;
             m = free_table m (dir_entry pd)
         in free_dir m d)"

record page_location =
  dir_idx :: nat
  page_idx :: nat

definition check_memory_alignment :: "u32 \<Rightarrow> bool" where
  "check_memory_alignment addr \<longleftrightarrow> addr mod PAGE_SIZE \<noteq> 0"

definition set_page_location :: "u32 \<Rightarrow> error + page_location" where
  "set_page_location vir_addr =
    (if check_memory_alignment vir_addr then Inl INVALID_ARG_ERROR
     else Inr \<lparr>dir_idx = unat (vir_addr div (1024 * PAGE_SIZE)),
               page_idx = unat (vir_addr mod (1024 * PAGE_SIZE) div PAGE_SIZE)\<rparr>)"

definition virtualize_mem ::
  "'a mm_state_scheme \<Rightarrow> u32 \<Rightarrow> u32 \<Rightarrow> u32 \<Rightarrow> u32 \<Rightarrow> error + 'a mm_state_scheme" where
  "virtualize_mem m dir vir_addr phys_addr flags =
    (if check_memory_alignment vir_addr then Inl INVALID_ARG_ERROR
     else case set_page_location vir_addr of
       Inl e \<Rightarrow> Inl e
     | Inr loc \<Rightarrow>
         let dir_loc = entry_get m dir (dir_idx loc);
             table_loc = dir_loc AND 0xfffff000
         in Inr (entry_set m table_loc (page_idx loc) ((phys_addr AND 0xfffff000) OR flags)))"

section \<open>User pages\<close>

text \<open>\<^verbatim>\<open>task_user_page\<close>: the page that contains \<open>vaddr\<close>, 0 when there is no memory.\<close>

definition task_user_page ::
  "'a mm_state_scheme \<Rightarrow> u32 \<Rightarrow> u32 \<Rightarrow> bool \<Rightarrow> 'a mm_state_scheme \<times> u32" where
  "task_user_page m d vaddr writable =
    (case page_dir_user_entry m d vaddr True of
       (m, None) \<Rightarrow> (m, 0)
     | (m, Some (t, i)) \<Rightarrow>
         let (m, ok) =
           (if entry_get m t i AND IS_PRESENT = 0
            then let (m, page) = calloc_page m
                 in if page = 0 then (m, False)
                    else (entry_set m t i (page OR IS_PRESENT OR ACCESS_ALL), True)
            else (m, True))
         in if \<not> ok then (m, 0)
            else let m = (if writable then entry_set m t i (entry_get m t i OR IS_WRITABLE) else m)
                 in (m, entry_get m t i AND 0xfffff000))"

text \<open>\<^verbatim>\<open>memcpy (page + offset, in, chunk)\<close>.\<close>

definition write_page :: "'a mm_state_scheme \<Rightarrow> u32 \<Rightarrow> nat \<Rightarrow> bytes \<Rightarrow> 'a mm_state_scheme" where
  "write_page m p offset bs =
    m\<lparr>upages := (upages m)(p := map_option
        (\<lambda>pg. take offset pg @ bs @ drop (offset + length bs) pg) (upages m p))\<rparr>"

text \<open>\<open>src\<close> is the data to copy, \<open>None\<close> the null pointer, which only maps pages.\<close>

function task_copy_to_user ::
  "'a mm_state_scheme \<Rightarrow> u32 \<Rightarrow> u32 \<Rightarrow> bytes option \<Rightarrow> nat \<Rightarrow> bool \<Rightarrow> 'a mm_state_scheme \<times> error option"
where
  "task_copy_to_user m d vaddr src len writable =
    (if len = 0 then (m, None)
     else let (m, page) = task_user_page m d vaddr writable
          in if page = 0 then (m, Some NO_MEMORY_ERROR)
             else let offset = unat (vaddr mod PAGE_SIZE);
                      chunk = min (4096 - offset) len;
                      m = (case src of
                             Some bs \<Rightarrow> write_page m page offset (take chunk bs)
                           | None \<Rightarrow> m)
                  in task_copy_to_user m d (vaddr + word_of_nat chunk) (map_option (drop chunk) src)
                       (len - chunk) writable)"
  by pat_completeness auto
termination
proof (relation "measure (\<lambda>(m, d, v, s, len, w). len)", simp, clarsimp)
  fix vaddr :: u32 and len :: nat
  assume "0 < len"
  moreover have "unat (vaddr mod PAGE_SIZE) < 4096"
    by (simp add: unat_mod)
  ultimately show "len - min (4096 - unat (vaddr mod PAGE_SIZE)) len < len" by simp
qed

declare task_copy_to_user.simps [simp del]

text \<open>\<^verbatim>\<open>task_free_user_pages\<close>: frees every present page of the user tables.\<close>

definition task_free_user_pages :: "'a mm_state_scheme \<Rightarrow> u32 \<Rightarrow> 'a mm_state_scheme" where
  "task_free_user_pages m d =
    (case dirs m d of
       None \<Rightarrow> m
     | Some pd \<Rightarrow>
         fold (\<lambda>t m.
           let table = user_tables pd ! t
           in if table = 0 then m
              else fold (\<lambda>i m. if entry_get m table i AND IS_PRESENT \<noteq> 0
                               then free_page m (entry_get m table i AND 0xfffff000) else m)
                     [0..<1024] m)
           [0..<USER_SPACE_TABLES] m)"

end
