(* ===== verification/AddressSpace.thy ===== *)
theory AddressSpace
  imports Paging
begin

text \<open>
  What the functions of \<^theory_text>\<open>Paging\<close> mean. \<open>mmu\<close> is the processor's view of a directory and
  \<open>uload\<close> the memory a program sees. \<open>mm_ok m U\<close> says that the user directories \<open>U\<close> are well
  formed, share no table and no page, and that the kernel part is closed to ring 3. Every
  operation keeps it, so programs can neither reach each other's memory nor the kernel's.
\<close>

section \<open>What the processor does with the tables\<close>

text \<open>The physical address of \<open>vaddr\<close>, and whether ring 3 may access and write it.\<close>

definition mmu :: "'a mm_state_scheme \<Rightarrow> u32 \<Rightarrow> u32 \<Rightarrow> (u32 \<times> bool \<times> bool) option" where
  "mmu m dir vaddr =
    (let pde = entry_get m dir (unat (vaddr div TABLE_SPAN));
         pte = entry_get m (pde AND 0xfffff000) (unat (vaddr div PAGE_SIZE mod 1024))
     in if pde AND IS_PRESENT = 0 \<or> pte AND IS_PRESENT = 0 then None
        else Some ((pte AND 0xfffff000) + vaddr mod PAGE_SIZE,
               pde AND pte AND ACCESS_ALL \<noteq> 0, pde AND pte AND IS_WRITABLE \<noteq> 0))"

section \<open>Entry words\<close>

abbreviation frame :: "u32 \<Rightarrow> u32" where "frame e \<equiv> e AND 0xfffff000"

definition aligned :: "u32 \<Rightarrow> bool" where
  "aligned p \<longleftrightarrow> p AND 0xfff = 0"

lemma page_mask: "(0xfffff000 :: u32) = NOT (mask 12)" "(0xfff :: u32) = mask 12"
  by (simp_all add: mask_eq_exp_minus_1)

lemma aligned_take_bit: "aligned p \<longleftrightarrow> take_bit 12 p = 0"
  by (simp add: aligned_def page_mask take_bit_eq_mask)

lemma aligned_mod: "aligned p \<longleftrightarrow> p mod 4096 = 0"
  by (simp add: aligned_take_bit take_bit_eq_mod)

lemma aligned_bit: "aligned p \<Longrightarrow> n < 12 \<Longrightarrow> \<not> bit p n"
  unfolding aligned_take_bit by (metis bit_0_eq bit_take_bit_iff bot_apply bot_bool_def)

lemma frame_aligned: "aligned p \<Longrightarrow> frame p = p"
  unfolding page_mask by (rule bit_eqI) (auto simp: bit_simps dest: aligned_bit)

lemma frame_flags:
  assumes "aligned p" "f AND mask 12 = f"
  shows "frame (p OR f) = p" "(p OR f) AND mask 12 = f"
proof -
  have f: "bit f n \<Longrightarrow> n < 12" for n
    using assms(2) by (metis bit_and_iff bit_mask_iff)
  show "frame (p OR f) = p"
    unfolding page_mask by (rule bit_eqI) (auto simp: bit_simps dest: aligned_bit [OF assms(1)] f)
  show "(p OR f) AND mask 12 = f"
    by (rule bit_eqI) (auto simp: bit_simps dest: aligned_bit [OF assms(1)] f)
qed

lemma aligned_frame [simp]: "aligned (frame e)"
  unfolding aligned_def page_mask by (rule bit_eqI) (auto simp: bit_simps)

lemma and_low:
  assumes "g AND mask 12 = g"
  shows "e AND g = (e AND mask 12) AND g"
  by (metis assms and.commute and.left_commute)

lemma flags_and:
  assumes "aligned p" "f AND mask 12 = f" "g AND mask 12 = g"
  shows "(p OR f) AND g = f AND g"
  using and_low [OF assms(3), of "p OR f"] frame_flags(2) [OF assms(1,2)] by simp

lemma frame_or_low:
  assumes "g AND mask 12 = g"
  shows "frame (e OR g) = frame e"
proof -
  have g: "bit g n \<Longrightarrow> n < 12" for n using assms by (metis bit_and_iff bit_mask_iff)
  show ?thesis unfolding page_mask by (rule bit_eqI) (auto simp: bit_simps dest: g)
qed

lemma low_masks: "(1::u32) AND mask 12 = 1" "(2::u32) AND mask 12 = 2" "(4::u32) AND mask 12 = 4"
  "(5::u32) AND mask 12 = 5" "(7::u32) AND mask 12 = 7"
  by (simp_all add: mask_eq_exp_minus_1)

lemma or_flags: "e OR IS_PRESENT OR IS_WRITABLE OR ACCESS_ALL = e OR 7"
  "e OR IS_PRESENT OR ACCESS_ALL = e OR 5"
  by (simp_all add: or.assoc)

lemma page_aligned:
  assumes ok: "heap_ok h" and a: "aligned (h_addr h)" and p: "live h p \<noteq> None"
  shows "aligned p"
proof -
  obtain n where "live h p = Some n" using p by blast
  then obtain i where i: "i < length (h_table h)" "p = block_addr h i"
    using live_SomeE [OF ok] by metis
  have "unat (h_addr h mod 4096) = unat (h_addr h) mod 4096" by (simp add: unat_mod)
  then have "unat (h_addr h) mod 4096 = 0" using a by (simp add: aligned_mod)
  then have "unat (p mod 4096) = 0"
    using unat_block_addr [OF ok, of i] i by (simp add: unat_mod mod_add_eq)
  then have "p mod 4096 = 0" by (simp only: unat_eq_0)
  then show ?thesis by (simp add: aligned_mod)
qed

lemma mod_page: "x mod PAGE_SIZE = x AND mask 12"
proof -
  have "x mod PAGE_SIZE = take_bit 12 x" by (simp add: take_bit_eq_mod)
  then show ?thesis by (simp only: take_bit_eq_mask)
qed

lemma frame_add:
  assumes "aligned p"
  shows "frame (p + z mod PAGE_SIZE) = p" "(p + z mod PAGE_SIZE) mod PAGE_SIZE = z mod PAGE_SIZE"
proof -
  have z: "(z AND mask 12) AND mask 12 = z AND mask 12" by (simp only: and.assoc and.idem)
  have "p AND (z AND mask 12) = 0"
    by (rule bit_eqI) (auto simp: bit_simps dest: aligned_bit [OF assms])
  then have or: "p + (z AND mask 12) = p OR (z AND mask 12)" using word_plus_and_or [of p "z AND mask 12"] by simp
  show "frame (p + z mod PAGE_SIZE) = p" unfolding mod_page or by (rule frame_flags [OF assms z])
  show "(p + z mod PAGE_SIZE) mod PAGE_SIZE = z mod PAGE_SIZE"
    unfolding mod_page or by (rule frame_flags [OF assms z])
qed

section \<open>Address spaces\<close>

text \<open>Table \<open>i\<close> of the user part of directory \<open>d\<close>, and its entry \<open>j\<close>.\<close>

definition utab :: "'a mm_state_scheme \<Rightarrow> u32 \<Rightarrow> nat \<Rightarrow> u32" where
  "utab m d i = (case dirs m d of Some pd \<Rightarrow> if i < 16 then user_tables pd ! i else 0 | None \<Rightarrow> 0)"

definition udir :: "'a mm_state_scheme \<Rightarrow> u32 \<Rightarrow> u32" where
  "udir m d = (case dirs m d of Some pd \<Rightarrow> dir_entry pd | None \<Rightarrow> 0)"

definition upte :: "'a mm_state_scheme \<Rightarrow> u32 \<Rightarrow> nat \<Rightarrow> nat \<Rightarrow> u32" where
  "upte m d i j = (if utab m d i = 0 then 0 else entry_get m (utab m d i) j)"

definition present :: "'a mm_state_scheme \<Rightarrow> u32 \<Rightarrow> nat \<Rightarrow> nat \<Rightarrow> bool" where
  "present m d i j \<longleftrightarrow> i < 16 \<and> j < 1024 \<and> upte m d i j AND IS_PRESENT \<noteq> 0"

definition table_len :: "'a mm_state_scheme \<Rightarrow> u32 \<Rightarrow> bool" where
  "table_len m t \<longleftrightarrow> (\<exists>es. tables m t = Some es \<and> length es = 1024)"

definition space_ok :: "'a mm_state_scheme \<Rightarrow> u32 \<Rightarrow> bool" where
  "space_ok m d \<longleftrightarrow>
    (\<exists>pd. dirs m d = Some pd \<and> user_start pd = USER_CODE_ADDR \<and> length (user_tables pd) = 16)
    \<and> table_len m (udir m d)
    \<and> (\<forall>i<16. entry_get m (udir m d) (256 + i) = (if utab m d i = 0 then 0 else utab m d i OR 7))
    \<and> (\<forall>i<16. utab m d i \<noteq> 0 \<longrightarrow> table_len m (utab m d i))
    \<and> (\<forall>i j. present m d i j \<longrightarrow>
         (\<exists>pg. upages m (frame (upte m d i j)) = Some pg \<and> length pg = 4096)
         \<and> upte m d i j AND ACCESS_ALL \<noteq> 0)
    \<and> (\<forall>k. k < 256 \<or> 272 \<le> k \<longrightarrow> entry_get m (udir m d) k AND ACCESS_ALL = 0)"

definition mm_base :: "'a mm_state_scheme \<Rightarrow> bool" where
  "mm_base m \<longleftrightarrow> heap_ok (heap m) \<and> aligned (h_addr (heap m))
    \<and> backed (\<lambda>p. live (heap m) p \<noteq> None) (tables m)
    \<and> backed (\<lambda>p. live (heap m) p \<noteq> None) (dirs m)
    \<and> backed (\<lambda>p. live (heap m) p \<noteq> None) (upages m)
    \<and> dom (tables m) \<inter> dom (dirs m) = {} \<and> dom (tables m) \<inter> dom (upages m) = {}
    \<and> dom (dirs m) \<inter> dom (upages m) = {}"

text \<open>The user directories \<open>U\<close> share neither tables nor pages, and no page is mapped twice.\<close>

definition frames_inj :: "'a mm_state_scheme \<Rightarrow> u32 set \<Rightarrow> bool" where
  "frames_inj m U \<longleftrightarrow>
    (\<forall>d \<in> U. \<forall>d' \<in> U. \<forall>i j i' j'. present m d i j \<and> present m d' i' j'
       \<and> frame (upte m d i j) = frame (upte m d' i' j') \<longrightarrow> d = d' \<and> i = i' \<and> j = j')"

definition tables_inj :: "'a mm_state_scheme \<Rightarrow> u32 set \<Rightarrow> bool" where
  "tables_inj m U \<longleftrightarrow>
    (\<forall>d \<in> U. \<forall>d' \<in> U. udir m d = udir m d' \<longrightarrow> d = d')
    \<and> (\<forall>d \<in> U. \<forall>d' i. utab m d' i \<noteq> udir m d)
    \<and> (\<forall>d \<in> U. \<forall>d' \<in> U. \<forall>i<16. \<forall>i'<16. utab m d i \<noteq> 0 \<and> utab m d i = utab m d' i' \<longrightarrow> d = d' \<and> i = i')"

definition disjoint_spaces :: "'a mm_state_scheme \<Rightarrow> u32 set \<Rightarrow> bool" where
  "disjoint_spaces m U \<longleftrightarrow> tables_inj m U \<and> frames_inj m U"

lemma tables_injD:
  assumes "tables_inj m U"
  shows "d \<in> U \<Longrightarrow> d' \<in> U \<Longrightarrow> udir m d = udir m d' \<Longrightarrow> d = d'"
    "d \<in> U \<Longrightarrow> utab m d' i \<noteq> udir m d"
    "d \<in> U \<Longrightarrow> d' \<in> U \<Longrightarrow> i < 16 \<Longrightarrow> i' < 16 \<Longrightarrow> utab m d i \<noteq> 0 \<Longrightarrow> utab m d i = utab m d' i' \<Longrightarrow>
       d = d' \<and> i = i'"
  using assms unfolding tables_inj_def by blast+

lemma frames_injD:
  "frames_inj m U \<Longrightarrow> d \<in> U \<Longrightarrow> d' \<in> U \<Longrightarrow> present m d i j \<Longrightarrow> present m d' i' j' \<Longrightarrow>
   frame (upte m d i j) = frame (upte m d' i' j') \<Longrightarrow> d = d' \<and> i = i' \<and> j = j'"
  unfolding frames_inj_def by blast

lemmas spaces_defs = disjoint_spaces_def tables_inj_def frames_inj_def

definition mm_ok :: "'a mm_state_scheme \<Rightarrow> u32 set \<Rightarrow> bool" where
  "mm_ok m U \<longleftrightarrow> mm_base m \<and> (\<forall>d \<in> U. space_ok m d) \<and> disjoint_spaces m U
    \<and> (\<forall>d. d \<notin> U \<longrightarrow> (\<forall>i. utab m d i = 0))"

text \<open>User memory as a program sees it: the byte at an address, if it is mapped.\<close>

definition tab_no :: "u32 \<Rightarrow> nat" where
  "tab_no va = unat ((va - USER_CODE_ADDR) div TABLE_SPAN)"

definition slot_no :: "u32 \<Rightarrow> nat" where
  "slot_no va = unat (va div PAGE_SIZE mod 1024)"

definition user_addr :: "u32 \<Rightarrow> bool" where
  "user_addr va \<longleftrightarrow> USER_CODE_ADDR \<le> va \<and> va < USER_STACK_TOP"

definition uload :: "'a mm_state_scheme \<Rightarrow> u32 \<Rightarrow> u32 \<Rightarrow> u8 option" where
  "uload m d va =
    (if user_addr va \<and> present m d (tab_no va) (slot_no va)
     then map_option (\<lambda>pg. pg ! unat (va mod PAGE_SIZE)) (upages m (frame (upte m d (tab_no va) (slot_no va))))
     else None)"

lemma utab_ge: "16 \<le> i \<Longrightarrow> utab m d i = 0"
  by (simp add: utab_def split: option.splits)

lemma entry_get_set:
  "entry_get (entry_set m t i v) t' i' =
    (if t' = t \<and> i' = i \<and> (\<exists>es. tables m t = Some es \<and> i < length es) then v else entry_get m t' i')"
  by (auto simp: entry_get_def entry_set_def split: option.splits)

lemma entry_set_simps [simp]:
  "heap (entry_set m t i v) = heap m" "dirs (entry_set m t i v) = dirs m"
  "upages (entry_set m t i v) = upages m" "dom (tables (entry_set m t i v)) = dom (tables m)"
  "table_len (entry_set m t i v) = table_len m"
  by (auto simp: entry_set_def table_len_def dom_def fun_eq_iff)

lemma utab_entry_set [simp]: "utab (entry_set m t i v) = utab m" "udir (entry_set m t i v) = udir m"
  by (simp_all add: utab_def udir_def fun_eq_iff)

lemma tables_inj_entry_set: "tables_inj (entry_set m t i v) U = tables_inj m U"
  by (simp add: tables_inj_def)

lemma frames_inj_cong:
  assumes "frames_inj m U"
    and pr: "\<And>d i j. d \<in> U \<Longrightarrow> present m' d i j \<Longrightarrow> present m d i j"
    and fr: "\<And>d i j. d \<in> U \<Longrightarrow> present m d i j \<Longrightarrow> frame (upte m' d i j) = frame (upte m d i j)"
  shows "frames_inj m' U"
  unfolding frames_inj_def
proof (intro ballI allI impI)
  fix d d' i j i' j'
  assume d: "d \<in> U" "d' \<in> U" and "present m' d i j \<and> present m' d' i' j' \<and>
    frame (upte m' d i j) = frame (upte m' d' i' j')"
  then have "present m d i j" "present m d' i' j'" "frame (upte m d i j) = frame (upte m d' i' j')"
    using pr fr by metis+
  then show "d = d' \<and> i = i' \<and> j = j'" using assms(1) d unfolding frames_inj_def by metis
qed

lemma tables_inj_cong:
  assumes t: "tables_inj m U" and u: "\<And>d i. utab m' d i = utab m d i"
    and d: "\<And>d. d \<in> U \<Longrightarrow> udir m' d = udir m d"
  shows "tables_inj m' U"
  unfolding tables_inj_def u
proof (intro conjI ballI allI impI)
  fix d1 d2 assume "d1 \<in> U" "d2 \<in> U"
  then show "udir m' d1 = udir m' d2 \<Longrightarrow> d1 = d2" using t d unfolding tables_inj_def by simp
next
  fix d1 d2 i assume "d1 \<in> U"
  then show "utab m d2 i \<noteq> udir m' d1" using t d unfolding tables_inj_def by simp
next
  fix d1 d2 i1 i2
  assume "d1 \<in> U" "d2 \<in> U" "i1 < 16" "i2 < 16" "utab m d1 i1 \<noteq> 0 \<and> utab m d1 i1 = utab m d2 i2"
  then show "d1 = d2" "i1 = i2" using t unfolding tables_inj_def by blast+
qed

lemma mm_base_entry_set [simp]: "mm_base (entry_set m t i v) = mm_base m"
  by (simp add: mm_base_def backed_def)

section \<open>Allocation\<close>

lemma backed_None: "backed own s \<Longrightarrow> \<not> own p \<Longrightarrow> s p = None"
  by (auto simp: backed_def)

lemma tables_0: "mm_base m \<Longrightarrow> tables m 0 = None"
  by (rule backed_None [where own = "\<lambda>p. live (heap m) p \<noteq> None"]) (simp_all add: mm_base_def not_live_0)

lemma heap_new:
  assumes "mm_base m" "heap_malloc (heap m) n = (h, p)" "p \<noteq> 0"
  shows "heap_ok h" "aligned (h_addr h)" "aligned p" "tables m p = None" "dirs m p = None" "upages m p = None"
    "live h = (live (heap m))(p \<mapsto> blocks_for n)"
proof -
  have b: "heap_ok (heap m)" "aligned (h_addr (heap m))"
    "backed (\<lambda>p. live (heap m) p \<noteq> None) (tables m)" "backed (\<lambda>p. live (heap m) p \<noteq> None) (dirs m)"
    "backed (\<lambda>p. live (heap m) p \<noteq> None) (upages m)"
    using assms(1) unfolding mm_base_def by blast+
  have l: "heap_ok h" "live (heap m) p = None" "live h = (live (heap m))(p \<mapsto> blocks_for n)"
    "h_addr h = h_addr (heap m)"
    using heap_malloc_live [OF b(1) assms(2,3)] by blast+
  show "heap_ok h" "live h = (live (heap m))(p \<mapsto> blocks_for n)" by (fact l)+
  show "aligned (h_addr h)" using l(4) b(2) by simp
  then show "aligned p" using page_aligned [OF l(1)] l(3) by simp
  show "tables m p = None" "dirs m p = None" "upages m p = None"
    using b(3-5) l(2) backed_None by (metis (mono_tags))+
qed

lemma heap_null: "mm_base m \<Longrightarrow> heap_malloc (heap m) n = (h, 0) \<Longrightarrow> h = heap m"
  using kheap.alloc_null [of "heap m" n h] by (simp add: mm_base_def)

lemma calloc_table_cases:
  assumes "mm_base m" "calloc_table m = (m', p)"
  obtains "p = 0" "m' = m"
  | h where "p \<noteq> 0" "m' = m\<lparr>heap := h, tables := (tables m)(p \<mapsto> replicate 1024 0)\<rparr>"
      "mm_base m'" "aligned p" "tables m p = None" "dirs m p = None" "upages m p = None"
proof -
  obtain h q where a: "heap_malloc (heap m) 4096 = (h, q)" by fastforce
  show thesis
  proof (cases "q = 0")
    case True
    then show thesis using assms a heap_null [OF assms(1), of 4096 h] that(1)
      by (auto simp: calloc_table_def)
  next
    case False
    note n = heap_new [OF assms(1) a False]
    show thesis
    proof (rule that(2))
      show "p \<noteq> 0" "m' = m\<lparr>heap := h, tables := (tables m)(p \<mapsto> replicate 1024 0)\<rparr>"
        using assms(2) a False by (auto simp: calloc_table_def)
      then show "mm_base m'" "aligned p" "tables m p = None" "dirs m p = None" "upages m p = None"
        using n assms a False by (auto simp: calloc_table_def mm_base_def backed_def)
    qed
  qed
qed

lemma calloc_dir_cases:
  assumes "mm_base m" "calloc_dir m = (m', p)"
  obtains "p = 0" "m' = m"
  | h where "p \<noteq> 0" "m' = m\<lparr>heap := h, dirs := (dirs m)(p \<mapsto>
         \<lparr>dir_entry = 0, user_tables = replicate USER_SPACE_TABLES 0, user_start = 0\<rparr>)\<rparr>"
      "mm_base m'" "aligned p" "tables m p = None" "dirs m p = None" "upages m p = None"
proof -
  obtain h q where a: "heap_malloc (heap m) 72 = (h, q)" by fastforce
  show thesis
  proof (cases "q = 0")
    case True
    then show thesis using assms a heap_null [OF assms(1), of 72 h] that(1)
      by (auto simp: calloc_dir_def)
  next
    case False
    note n = heap_new [OF assms(1) a False]
    show thesis
    proof (rule that(2))
      show "p \<noteq> 0" "m' = m\<lparr>heap := h, dirs := (dirs m)(p \<mapsto>
         \<lparr>dir_entry = 0, user_tables = replicate USER_SPACE_TABLES 0, user_start = 0\<rparr>)\<rparr>"
        using assms(2) a False by (auto simp: calloc_dir_def)
      then show "mm_base m'" "aligned p" "tables m p = None" "dirs m p = None" "upages m p = None"
        using n assms a False by (auto simp: calloc_dir_def mm_base_def backed_def)
    qed
  qed
qed

lemma calloc_page_cases:
  assumes "mm_base m" "calloc_page m = (m', p)"
  obtains "p = 0" "m' = m"
  | h where "p \<noteq> 0" "m' = m\<lparr>heap := h, upages := (upages m)(p \<mapsto> replicate 4096 0)\<rparr>"
      "mm_base m'" "aligned p" "tables m p = None" "dirs m p = None" "upages m p = None"
proof -
  obtain h q where a: "heap_malloc (heap m) 4096 = (h, q)" by fastforce
  show thesis
  proof (cases "q = 0")
    case True
    then show thesis using assms a heap_null [OF assms(1), of 4096 h] that(1)
      by (auto simp: calloc_page_def)
  next
    case False
    note n = heap_new [OF assms(1) a False]
    show thesis
    proof (rule that(2))
      show "p \<noteq> 0" "m' = m\<lparr>heap := h, upages := (upages m)(p \<mapsto> replicate 4096 0)\<rparr>"
        using assms(2) a False by (auto simp: calloc_page_def)
      then show "mm_base m'" "aligned p" "tables m p = None" "dirs m p = None" "upages m p = None"
        using n assms a False by (auto simp: calloc_page_def mm_base_def backed_def)
    qed
  qed
qed

section \<open>Mapping a table, a page, a right\<close>

lemma mm_okD:
  assumes "mm_ok m U" "d \<in> U"
  shows "mm_base m" "space_ok m d" "disjoint_spaces m U"
  using assms by (auto simp: mm_ok_def)

lemma space_okD:
  assumes "space_ok m d"
  obtains pd where "dirs m d = Some pd" "user_start pd = USER_CODE_ADDR" "length (user_tables pd) = 16"
    "table_len m (udir m d)" "udir m d = dir_entry pd" "\<And>i. i < 16 \<Longrightarrow> utab m d i = user_tables pd ! i"
    "\<And>i. i < 16 \<Longrightarrow> entry_get m (udir m d) (256 + i) = (if utab m d i = 0 then 0 else utab m d i OR 7)"
    "\<And>i. i < 16 \<Longrightarrow> utab m d i \<noteq> 0 \<Longrightarrow> table_len m (utab m d i)"
    "\<And>i j. present m d i j \<Longrightarrow> \<exists>pg. upages m (frame (upte m d i j)) = Some pg \<and> length pg = 4096"
    "\<And>i j. present m d i j \<Longrightarrow> upte m d i j AND ACCESS_ALL \<noteq> 0"
  using assms unfolding space_ok_def by (auto simp: udir_def utab_def split: option.splits)

lemma present_page:
  assumes "mm_ok m U" "d \<in> U" "present m d i j"
  shows "\<exists>pg. upages m (frame (upte m d i j)) = Some pg \<and> length pg = 4096"
    "upte m d i j AND ACCESS_ALL \<noteq> 0"
  using mm_okD(2) [OF assms(1,2)] assms(3) unfolding space_ok_def by blast+

text \<open>Equal views of the tables carry the invariant over.\<close>

lemma present_cong:
  "(\<And>d i j. upte m' d i j = upte m d i j) \<Longrightarrow> present m' = present m"
  by (simp add: present_def fun_eq_iff)

lemma entry_get_tables: "tables m' t = tables m t \<Longrightarrow> entry_get m' t = entry_get m t"
  by (simp add: entry_get_def fun_eq_iff)

lemma table_len_Some: "table_len m t \<Longrightarrow> tables m t \<noteq> None"
  by (auto simp: table_len_def)

text \<open>Linking the fresh table \<open>p\<close> into slot \<open>idx\<close> of directory \<open>d\<close>.\<close>

definition link_table :: "'a mm_state_scheme \<Rightarrow> u32 \<Rightarrow> nat \<Rightarrow> u32 \<Rightarrow> 'a mm_state_scheme" where
  "link_table m d idx p =
    entry_set (m\<lparr>dirs := (dirs m)(d := map_option (user_tables_update (\<lambda>ts. ts[idx := p])) (dirs m d))\<rparr>)
      (udir m d) (256 + idx) (p OR 7)"

lemma link_table_views:
  assumes "space_ok m d" "idx < 16" "table_len m p" "p \<noteq> 0" "p \<noteq> udir m d" "utab m d idx = 0"
    "\<And>j. entry_get m p j = 0" "\<And>d' i. utab m d' i \<noteq> udir m d"
  shows "udir (link_table m d idx p) = udir m"
    "utab (link_table m d idx p) d' i = (if d' = d \<and> i = idx then p else utab m d' i)"
    "upte (link_table m d idx p) d' i j = upte m d' i j"
    "present (link_table m d idx p) = present m"
    "entry_get (link_table m d idx p) (udir m d') k =
      (if udir m d' = udir m d \<and> k = 256 + idx then p OR 7 else entry_get m (udir m d') k)"
    "table_len (link_table m d idx p) = table_len m"
    "upages (link_table m d idx p) = upages m" "heap (link_table m d idx p) = heap m"
    "dom (dirs (link_table m d idx p)) = dom (dirs m)" "dom (tables (link_table m d idx p)) = dom (tables m)"
proof -
  let ?m = "m\<lparr>dirs := (dirs m)(d := map_option (user_tables_update (\<lambda>ts. ts[idx := p])) (dirs m d))\<rparr>"
  obtain pd where pd: "dirs m d = Some pd" "length (user_tables pd) = 16" "table_len m (udir m d)"
    using space_okD [OF assms(1)] by metis
  have l: "link_table m d idx p = entry_set ?m (udir m d) (256 + idx) (p OR 7)" by (simp add: link_table_def)
  have g: "entry_get ?m = entry_get m" "table_len ?m = table_len m"
    by (simp_all add: entry_get_def table_len_def fun_eq_iff)
  show u: "udir (link_table m d idx p) = udir m"
    using pd by (auto simp: l udir_def fun_eq_iff)
  show t: "utab (link_table m d idx p) d' i = (if d' = d \<and> i = idx then p else utab m d' i)" for d' i
    using pd assms(2) by (auto simp: l utab_def)
  show e: "entry_get (link_table m d idx p) (udir m d') k =
      (if udir m d' = udir m d \<and> k = 256 + idx then p OR 7 else entry_get m (udir m d') k)" for d' k
    using pd(3) assms(2) by (auto simp: l entry_get_set g table_len_def)
  have e': "t' \<noteq> udir m d \<Longrightarrow> entry_get (link_table m d idx p) t' j' = entry_get m t' j'" for t' j'
    by (simp add: l entry_get_set g)
  show p: "upte (link_table m d idx p) d' i j = upte m d' i j" for d' i j
    using assms(4-8) by (auto simp: upte_def t e')
  show "present (link_table m d idx p) = present m" by (rule present_cong) (rule p)
  show "table_len (link_table m d idx p) = table_len m" by (simp add: l g)
  show "upages (link_table m d idx p) = upages m" "heap (link_table m d idx p) = heap m"
    "dom (tables (link_table m d idx p)) = dom (tables m)"
    by (simp_all add: l)
  show "dom (dirs (link_table m d idx p)) = dom (dirs m)" using pd by (auto simp: l)
qed

lemma mm_base_dom:
  assumes "mm_base m" "heap m' = heap m" "dom (tables m') = dom (tables m)"
    "dom (dirs m') = dom (dirs m)" "dom (upages m') = dom (upages m)"
  shows "mm_base m'"
  using assms by (simp add: mm_base_def backed_def)

lemma link_table_ok:
  assumes ok: "mm_ok m U" "d \<in> U" and idx: "idx < 16" and p: "table_len m p" "p \<noteq> 0"
    and free: "utab m d idx = 0" and zero: "\<And>j. entry_get m p j = 0"
    and new: "\<And>d'. d' \<in> U \<Longrightarrow> udir m d' \<noteq> p" "\<And>d' i. d' \<in> U \<Longrightarrow> i < 16 \<Longrightarrow> utab m d' i \<noteq> p"
    and sep: "\<And>d' i. utab m d' i \<noteq> udir m d"
  shows "mm_ok (link_table m d idx p) U"
proof -
  note b = mm_okD [OF ok]
  have pd: "p \<noteq> udir m d" using new(1) [OF ok(2)] by simp
  note v = link_table_views [OF b(2) idx p pd free zero sep]
  have sp: "space_ok m d'" if "d' \<in> U" for d' using ok(1) that by (simp add: mm_ok_def)
  have "space_ok (link_table m d idx p) d'" if d': "d' \<in> U" for d'
  proof -
    obtain pd' where pd': "dirs m d' = Some pd'" "user_start pd' = USER_CODE_ADDR" "length (user_tables pd') = 16"
      using space_okD [OF sp [OF d']] by metis
    have "\<exists>pd. dirs (link_table m d idx p) d' = Some pd \<and> user_start pd = USER_CODE_ADDR
        \<and> length (user_tables pd) = 16"
      using pd' by (auto simp: link_table_def)
    moreover have "udir m d' = udir m d \<longleftrightarrow> d' = d"
      using b(3) d' ok(2) unfolding spaces_defs by blast
    ultimately show ?thesis
      using sp [OF d'] p idx unfolding space_ok_def v by simp
  qed
  moreover have "frames_inj (link_table m d idx p) U"
    by (rule frames_inj_cong [of m]) (use b(3) in \<open>simp_all add: v disjoint_spaces_def\<close>)
  moreover have "tables_inj (link_table m d idx p) U"
    unfolding tables_inj_def v
  proof (intro conjI ballI allI impI)
    have t: "tables_inj m U" using b(3) by (simp add: disjoint_spaces_def)
    fix d1 d2 assume d: "d1 \<in> U" "d2 \<in> U"
    show "udir m d1 = udir m d2 \<Longrightarrow> d1 = d2" using t d unfolding tables_inj_def by metis
    fix i1 i2 assume i: "i1 < 16" "i2 < 16"
      and e: "(if d1 = d \<and> i1 = idx then p else utab m d1 i1) \<noteq> 0 \<and>
       (if d1 = d \<and> i1 = idx then p else utab m d1 i1) = (if d2 = d \<and> i2 = idx then p else utab m d2 i2)"
    have "utab m d1 i1 \<noteq> p" "utab m d2 i2 \<noteq> p" using new(2) d i by simp_all
    then show "d1 = d2" "i1 = i2"
      using t d i e unfolding tables_inj_def by (metis (full_types))+
  next
    have t: "tables_inj m U" using b(3) by (simp add: disjoint_spaces_def)
    fix d1 d2 i assume d: "d1 \<in> U"
    show "(if d2 = d \<and> i = idx then p else utab m d2 i) \<noteq> udir m d1"
      using t d new(1) [OF d] unfolding tables_inj_def by metis
  qed
  moreover have "mm_base (link_table m d idx p)"
    by (rule mm_base_dom [OF b(1)]) (simp_all only: v)
  moreover have "utab (link_table m d idx p) d' i = 0" if "d' \<notin> U" for d' i
    using that ok by (auto simp: v(2) mm_ok_def)
  ultimately show ?thesis by (simp add: mm_ok_def disjoint_spaces_def)
qed

text \<open>Mapping the fresh page \<open>p\<close> with flags \<open>f\<close> at entry \<open>j\<close> of table \<open>i\<close>.\<close>

lemma upte_entry_set:
  assumes ok: "mm_ok m U" "d \<in> U" "d' \<in> U" and t: "utab m d i \<noteq> 0" "i < 16" "j < 1024" and i': "i' < 16"
  shows "upte (entry_set m (utab m d i) j v) d' i' j' =
    (if d' = d \<and> i' = i \<and> j' = j then v else upte m d' i' j')"
proof -
  have sp: "space_ok m d" "disjoint_spaces m U" using ok by (auto simp: mm_ok_def)
  have tl: "table_len m (utab m d i)" using space_okD [OF sp(1)] t by metis
  have inj: "utab m d' i' = utab m d i \<longleftrightarrow> d' = d \<and> i' = i"
    using sp(2) ok(2,3) t i' unfolding spaces_defs by metis
  show ?thesis using t tl by (auto simp: upte_def entry_get_set inj table_len_def)
qed

lemma udir_entry_set:
  assumes "mm_ok m U" "d' \<in> U"
  shows "entry_get (entry_set m (utab m d i) j v) (udir m d') k = entry_get m (udir m d') k"
proof -
  have "utab m d i \<noteq> udir m d'" using assms by (auto simp: mm_ok_def spaces_defs)
  then show ?thesis by (simp add: entry_get_set)
qed

lemma present_flags:
  assumes "aligned p"
  shows "(p OR 5) AND IS_PRESENT \<noteq> 0" "(p OR 5) AND ACCESS_ALL \<noteq> 0" "frame (p OR 5) = p"
    "(p OR 7) AND IS_PRESENT \<noteq> 0" "(p OR 7) AND ACCESS_ALL \<noteq> 0" "(p OR 7) AND IS_WRITABLE \<noteq> 0" "frame (p OR 7) = p"
  using assms flags_and [OF assms] frame_flags(1) [OF assms] by (simp_all add: low_masks)

lemma link_page_ok:
  assumes ok: "mm_ok m U" "d \<in> U" and t: "utab m d i \<noteq> 0" "i < 16" "j < 1024"
    and np: "\<not> present m d i j" and p: "aligned p" "upages m p = Some pg" "length pg = 4096"
    and new: "\<And>d' i' j'. d' \<in> U \<Longrightarrow> present m d' i' j' \<Longrightarrow> frame (upte m d' i' j') \<noteq> p"
  shows "mm_ok (entry_set m (utab m d i) j (p OR 5)) U"
proof -
  let ?m = "entry_set m (utab m d i) j (p OR 5)"
  note u = upte_entry_set [OF ok(1,2) _ t]
  note f = present_flags [OF p(1)]
  have pr: "present ?m d' i' j' \<longleftrightarrow> present m d' i' j' \<or> (d' = d \<and> i' = i \<and> j' = j)" if "d' \<in> U" for d' i' j'
    using u [OF that, of i' _ j'] f t np by (auto simp: present_def split: if_splits)
  have up: "present m d' i' j' \<Longrightarrow> upte ?m d' i' j' = upte m d' i' j'" if "d' \<in> U" for d' i' j'
    using u [OF that, of i' _ j'] np by (auto simp: present_def)
  have new': "upte ?m d i j = p OR 5" using u [OF ok(2), of i] t by simp
  have "space_ok ?m d'" if d': "d' \<in> U" for d'
  proof -
    have sp: "space_ok m d'" using ok(1) d' by (simp add: mm_ok_def)
    have "(\<exists>pg. upages ?m (frame (upte ?m d' i' j')) = Some pg \<and> length pg = 4096)
         \<and> upte ?m d' i' j' AND ACCESS_ALL \<noteq> 0" if "present ?m d' i' j'" for i' j'
    proof (cases "present m d' i' j'")
      case True
      then show ?thesis using sp up [OF d' True] unfolding space_ok_def by simp
    next
      case False
      then show ?thesis using that pr [OF d', of i' j'] new' f p by simp
    qed
    then show ?thesis
      using sp udir_entry_set [OF ok(1) d'] unfolding space_ok_def by simp
  qed
  moreover have "disjoint_spaces ?m U"
  proof -
    have ds: "disjoint_spaces m U" using ok(1) by (simp add: mm_ok_def)
    have "d1 = d2 \<and> i1 = i2 \<and> j1 = j2"
      if d: "d1 \<in> U" "d2 \<in> U" and pp: "present ?m d1 i1 j1" "present ?m d2 i2 j2"
        and eq: "frame (upte ?m d1 i1 j1) = frame (upte ?m d2 i2 j2)" for d1 d2 i1 i2 j1 j2
    proof (cases "present m d1 i1 j1"; cases "present m d2 i2 j2")
      assume a: "present m d1 i1 j1" "present m d2 i2 j2"
      then show ?thesis using ds d eq up [OF d(1)] up [OF d(2)] unfolding spaces_defs by metis
    next
      assume a: "present m d1 i1 j1" "\<not> present m d2 i2 j2"
      then have "frame (upte m d1 i1 j1) = p"
        using pp pr [OF d(2)] eq new' f(3) up [OF d(1) a(1)] by simp
      then show ?thesis using new [OF d(1) a(1)] by simp
    next
      assume a: "\<not> present m d1 i1 j1" "present m d2 i2 j2"
      then have "frame (upte m d2 i2 j2) = p"
        using pp pr [OF d(1)] eq new' f(3) up [OF d(2) a(2)] by simp
      then show ?thesis using new [OF d(2) a(2)] by simp
    next
      assume "\<not> present m d1 i1 j1" "\<not> present m d2 i2 j2"
      then show ?thesis using pp pr [OF d(1)] pr [OF d(2)] by simp
    qed
    then have "frames_inj ?m U" unfolding frames_inj_def by blast
    moreover have "tables_inj ?m U" using ds by (simp add: disjoint_spaces_def tables_inj_entry_set)
    ultimately show ?thesis unfolding disjoint_spaces_def by (rule conjI [rotated])
  qed
  moreover have "mm_base ?m" "\<And>d i. d \<notin> U \<Longrightarrow> utab ?m d i = 0" using ok(1) by (simp_all add: mm_ok_def)
  ultimately show ?thesis by (simp add: mm_ok_def)
qed

text \<open>Changing an entry that stays present and keeps its page.\<close>

lemma same_frame_ok:
  assumes ok: "mm_ok m U" "d \<in> U" and t: "utab m d i \<noteq> 0" "i < 16" "j < 1024"
    and p: "present m d i j" "frame v = frame (upte m d i j)" "v AND IS_PRESENT \<noteq> 0" "v AND ACCESS_ALL \<noteq> 0"
  shows "mm_ok (entry_set m (utab m d i) j v) U"
    "\<And>d'. d' \<in> U \<Longrightarrow> present (entry_set m (utab m d i) j v) d' = present m d'"
    "\<And>d' i' j'. d' \<in> U \<Longrightarrow> i' < 16 \<Longrightarrow>
       frame (upte (entry_set m (utab m d i) j v) d' i' j') = frame (upte m d' i' j')"
proof -
  let ?m = "entry_set m (utab m d i) j v"
  note u = upte_entry_set [OF ok(1,2) _ t]
  show pr: "present ?m d' = present m d'" if "d' \<in> U" for d'
    using u [OF that] p by (auto simp: present_def fun_eq_iff split: if_splits)
  show fr: "frame (upte ?m d' i' j') = frame (upte m d' i' j')" if "d' \<in> U" "i' < 16" for d' i' j'
    using u [OF that, of v j'] p by simp
  have "space_ok ?m d'" if d': "d' \<in> U" for d'
  proof -
    have sp: "space_ok m d'" using ok(1) d' by (simp add: mm_ok_def)
    have "upte ?m d' i' j' AND ACCESS_ALL \<noteq> 0" if a: "present m d' i' j'" for i' j'
      using sp u [OF d', of i' v j'] a p unfolding space_ok_def by (auto simp: present_def)
    moreover have "i' < 16" if "present m d' i' j'" for i' j' using that by (simp add: present_def)
    ultimately show ?thesis
      using sp udir_entry_set [OF ok(1) d'] unfolding space_ok_def by (simp add: pr [OF d'] fr [OF d'])
  qed
  moreover have "disjoint_spaces ?m U"
  proof -
    have ds: "tables_inj m U" "frames_inj m U" using ok(1) by (simp_all add: mm_ok_def disjoint_spaces_def)
    have "frames_inj ?m U" by (rule frames_inj_cong [OF ds(2)]) (simp_all add: pr fr present_def)
    then show ?thesis using ds(1) by (simp add: disjoint_spaces_def tables_inj_entry_set)
  qed
  moreover have "mm_base ?m" "\<And>d i. d \<notin> U \<Longrightarrow> utab ?m d i = 0" using ok(1) by (simp_all add: mm_ok_def)
  ultimately show "mm_ok ?m U" by (simp add: mm_ok_def)
qed

text \<open>Changes outside the address spaces.\<close>

lemma mm_ok_cong:
  assumes ok: "mm_ok m U" and b: "mm_base m'"
    and d: "\<And>d. d \<in> U \<Longrightarrow> dirs m' d = dirs m d" "\<And>d i. utab m' d i = utab m d i"
    and t: "\<And>t. tables m t \<noteq> None \<Longrightarrow> tables m' t = tables m t"
    and p: "\<And>p pg. upages m p = Some pg \<Longrightarrow> length pg = 4096 \<Longrightarrow>
      \<exists>pg'. upages m' p = Some pg' \<and> length pg' = 4096"
  shows "mm_ok m' U" "\<And>d. d \<in> U \<Longrightarrow> upte m' d = upte m d" "\<And>d. d \<in> U \<Longrightarrow> present m' d = present m d"
proof -
  have u: "udir m' d = udir m d" if "d \<in> U" for d using d(1) [OF that] by (simp add: udir_def)
  have tl: "table_len m t \<Longrightarrow> table_len m' t" "table_len m t \<Longrightarrow> entry_get m' t = entry_get m t" for t
    using t [of t] by (auto simp: table_len_def entry_get_def fun_eq_iff)
  show up: "upte m' d = upte m d" if "d \<in> U" for d
  proof (intro ext)
    fix i j
    have "i < 16 \<Longrightarrow> utab m d i \<noteq> 0 \<Longrightarrow> table_len m (utab m d i)"
      using ok that by (auto simp: mm_ok_def space_ok_def)
    moreover have "16 \<le> i \<Longrightarrow> utab m d i = 0" by (simp add: utab_def split: option.splits)
    ultimately show "upte m' d i j = upte m d i j"
      using tl(2) by (cases "i < 16") (auto simp: upte_def d(2))
  qed
  show pr: "present m' d = present m d" if "d \<in> U" for d
    using up [OF that] by (simp add: present_def fun_eq_iff)
  have "space_ok m' d" if "d \<in> U" for d
  proof -
    have sp: "space_ok m d" using ok that by (simp add: mm_ok_def)
    have "(\<exists>pg. upages m' (frame (upte m d i j)) = Some pg \<and> length pg = 4096)
       \<and> upte m d i j AND ACCESS_ALL \<noteq> 0" if "present m d i j" for i j
      using sp that p unfolding space_ok_def by blast
    moreover have "table_len m' (udir m d)" "entry_get m' (udir m d) = entry_get m (udir m d)"
      "\<And>i. i < 16 \<Longrightarrow> utab m d i \<noteq> 0 \<Longrightarrow> table_len m' (utab m d i)"
      using sp tl unfolding space_ok_def by blast+
    ultimately show ?thesis
      using sp unfolding space_ok_def u [OF that] up [OF that] pr [OF that] d(1) [OF that] d(2) by simp
  qed
  moreover have "tables_inj m' U"
  proof -
    have "tables_inj m U" using ok by (simp add: mm_ok_def disjoint_spaces_def)
    then show ?thesis by (rule tables_inj_cong) (rule d(2), erule u)
  qed
  moreover have "frames_inj m' U"
    by (rule frames_inj_cong [of m]) (use ok in \<open>simp_all add: up pr mm_ok_def disjoint_spaces_def\<close>)
  moreover have "\<And>d i. d \<notin> U \<Longrightarrow> utab m' d i = 0" using ok d(2) by (simp add: mm_ok_def)
  ultimately show "mm_ok m' U" using b by (simp add: mm_ok_def disjoint_spaces_def)
qed

lemma mm_ok_cong':
  assumes "mm_ok m U" "mm_base m'"
    "\<And>d. d \<in> U \<Longrightarrow> dirs m' d = dirs m d" "\<And>d i. utab m' d i = utab m d i"
    "\<And>t. tables m t \<noteq> None \<Longrightarrow> tables m' t = tables m t"
    "\<And>p pg. upages m p = Some pg \<Longrightarrow> length pg = 4096 \<Longrightarrow> \<exists>pg'. upages m' p = Some pg' \<and> length pg' = 4096"
  shows "mm_ok m' U \<and> (\<forall>d \<in> U. upte m' d = upte m d \<and> present m' d = present m d)"
  by (intro conjI ballI; rule mm_ok_cong [OF assms]; assumption)

lemma user_addr_range:
  "user_addr va \<longleftrightarrow> \<not> (va < USER_CODE_ADDR \<or> va - USER_CODE_ADDR \<ge> of_nat USER_SPACE_TABLES * TABLE_SPAN)"
  unfolding user_addr_def by unat_arith

lemma tab_no_less: "user_addr va \<Longrightarrow> tab_no va < 16"
  unfolding user_addr_def tab_no_def by unat_arith

lemma slot_no_less: "slot_no va < 1024"
  unfolding slot_no_def by unat_arith

lemma pd_update: "user_tables_update f pd = pd\<lparr>user_tables := f (user_tables pd)\<rparr>"
  by (cases pd) simp

lemma page_dir_user_entry_spec:
  assumes ok: "mm_ok m U" "d \<in> U" and e: "page_dir_user_entry m d va create = (m', r)"
  shows "mm_ok m' U" "\<And>d'. d' \<in> U \<Longrightarrow> upte m' d' = upte m d'" "upages m' = upages m"
    "\<And>d'. d' \<in> U \<Longrightarrow> present m' d' = present m d'"
    "r = Some (t, i) \<Longrightarrow> user_addr va \<and> utab m' d (tab_no va) \<noteq> 0 \<and> t = utab m' d (tab_no va) \<and> i = slot_no va"
    "user_addr va \<Longrightarrow> utab m d (tab_no va) \<noteq> 0 \<Longrightarrow> r \<noteq> None"
    "\<not> create \<Longrightarrow> m' = m"
proof -
  obtain pd where pd: "dirs m d = Some pd" "user_start pd = USER_CODE_ADDR" "length (user_tables pd) = 16"
      "table_len m (udir m d)" "udir m d = dir_entry pd" "\<And>i. i < 16 \<Longrightarrow> utab m d i = user_tables pd ! i"
    using space_okD [OF mm_okD(2) [OF ok]] by metis
  let ?P = "mm_ok m' U \<and> (\<forall>d' \<in> U. upte m' d' = upte m d') \<and> upages m' = upages m
    \<and> (\<forall>d' \<in> U. present m' d' = present m d')
    \<and> (\<forall>t i. r = Some (t, i) \<longrightarrow> user_addr va \<and> utab m' d (tab_no va) \<noteq> 0 \<and> t = utab m' d (tab_no va) \<and> i = slot_no va)
    \<and> (user_addr va \<longrightarrow> utab m d (tab_no va) \<noteq> 0 \<longrightarrow> r \<noteq> None) \<and> (\<not> create \<longrightarrow> m' = m)"
  have ?P
  proof (cases "user_addr va")
    case False
    then have "m' = m" "r = None"
      using e pd(1,2) by (auto simp: page_dir_user_entry_def user_addr_range)
    then show ?thesis using ok False by simp
  next
    case True
    let ?i = "tab_no va"
    note i = tab_no_less [OF True]
    have start: "unat (USER_CODE_ADDR div TABLE_SPAN) = 256" by simp
    have e': "(if utab m d ?i \<noteq> 0 then (m, Some (utab m d ?i, slot_no va))
       else if \<not> create then (m, None)
       else let (m, table) = calloc_table m
            in if table = 0 then (m, None)
               else let m = m\<lparr>dirs := (dirs m)(d \<mapsto> pd\<lparr>user_tables := (user_tables pd)[?i := table]\<rparr>)\<rparr>;
                        m = entry_set m (dir_entry pd) (256 + ?i) (table OR 7)
                    in (m, Some (table, slot_no va))) = (m', r)"
      using e True [unfolded user_addr_range]
      unfolding page_dir_user_entry_def pd(1) option.case pd(2) start or_flags Let_def
        pd(6) [OF i, unfolded tab_no_def] tab_no_def slot_no_def
      by (simp only: if_False)
    show ?thesis
    proof (cases "utab m d ?i \<noteq> 0 \<or> \<not> create")
      case True
      then show ?thesis using e' ok \<open>user_addr va\<close> by (auto split: if_splits)
    next
      case False
      obtain m1 p where c: "calloc_table m = (m1, p)" by fastforce
      show ?thesis
      proof (rule calloc_table_cases [OF mm_okD(1) [OF ok] c])
        assume "p = 0" "m1 = m"
        then show ?thesis using e' c False ok by auto
      next
        fix h assume p: "p \<noteq> 0" "m1 = m\<lparr>heap := h, tables := (tables m)(p \<mapsto> replicate 1024 0)\<rparr>"
          "mm_base m1" "tables m p = None"
        have v: "utab m1 d' i = utab m d' i" "udir m1 d' = udir m d'" "upages m1 = upages m"
          "dirs m1 = dirs m" for d' i
          using p(2) by (simp_all add: utab_def udir_def)
        have t: "tables m t \<noteq> None \<Longrightarrow> tables m1 t = tables m t" for t using p by auto
        note ok1 = mm_ok_cong [OF ok(1) p(3) _ v(1) t]
        have ok1: "mm_ok m1 U" "\<And>d. d \<in> U \<Longrightarrow> upte m1 d = upte m d" "\<And>d. d \<in> U \<Longrightarrow> present m1 d = present m d"
          using ok1 v(3,4) by simp_all
        have tp: "table_len m1 p" "entry_get m1 p j = 0" for j
          using p(2) by (auto simp: table_len_def entry_get_def)
        have sp: "space_ok m d'" if "d' \<in> U" for d' using ok(1) that by (simp add: mm_ok_def)
        have n1: "udir m1 d' \<noteq> p" if "d' \<in> U" for d'
          using sp [OF that] p(4) by (auto simp: v space_ok_def table_len_def)
        have n2: "utab m1 d' i \<noteq> p" if "d' \<in> U" "i < 16" for d' i
          using sp [OF that(1)] that(2) p(1,4) by (auto simp: v space_ok_def table_len_def)
        have sep: "utab m1 d' i \<noteq> udir m1 d" for d' i
          using mm_okD(3) [OF ok1(1) ok(2)] ok(2) by (auto simp: disjoint_spaces_def tables_inj_def)
        have free: "utab m1 d ?i = 0" using False by (simp add: v)
        have link: "m' = link_table m1 d ?i p" "r = Some (p, slot_no va)"
          using e' c False p(1) pd(1,5) by (auto simp: link_table_def v Let_def pd_update [where f = "\<lambda>ts. ts[_ := _]"])
        note L = link_table_ok [OF ok1(1) ok(2) i tp(1) p(1) free tp(2) n1 n2 sep]
        note V = link_table_views [OF mm_okD(2) [OF ok1(1) ok(2)] i tp(1) p(1) n1 [OF ok(2), symmetric] free tp(2) sep]
        show ?thesis
          using L V(2,3,4,7) ok1(2,3) \<open>user_addr va\<close> p(1) False unfolding link
          by (auto simp: v fun_eq_iff)
      qed
    qed
  qed
  then show "mm_ok m' U" "\<And>d'. d' \<in> U \<Longrightarrow> upte m' d' = upte m d'" "upages m' = upages m"
    "\<And>d'. d' \<in> U \<Longrightarrow> present m' d' = present m d'"
    "r = Some (t, i) \<Longrightarrow> user_addr va \<and> utab m' d (tab_no va) \<noteq> 0 \<and> t = utab m' d (tab_no va) \<and> i = slot_no va"
    "user_addr va \<Longrightarrow> utab m d (tab_no va) \<noteq> 0 \<Longrightarrow> r \<noteq> None"
    "\<not> create \<Longrightarrow> m' = m"
    by blast+
qed

section \<open>User pages\<close>

lemma same_page:
  assumes "user_addr x" "user_addr va"
  shows "tab_no x = tab_no va \<and> slot_no x = slot_no va \<longleftrightarrow> unat x div 4096 = unat va div 4096"
proof -
  have e: "tab_no y = (unat y - 0x40000000) div 4194304" "slot_no y = unat y div 4096 mod 1024"
    "0x40000000 \<le> unat y" if "user_addr y" for y
    using that by (simp_all add: user_addr_def tab_no_def slot_no_def unat_div unat_mod unat_sub word_le_nat_alt)
  have a: "(n - 0x40000000) div 4194304 = n div 4096 div 1024 - 256" if "0x40000000 \<le> n" for n :: nat
  proof -
    have "n div 4096 div 1024 = n div 4194304" by (simp add: div_mult2_eq)
    moreover have "n = 256 * 4194304 + (n - 0x40000000)" using that by simp
    then have "n div 4194304 = 256 + (n - 0x40000000) div 4194304"
      by (metis div_mult_self3 add.commute zero_neq_numeral)
    ultimately show ?thesis by simp
  qed
  have b: "256 \<le> n div 4096 div 1024" if "0x40000000 \<le> n" for n :: nat
    using div_le_mono [OF that, of 4194304] by (simp add: div_mult2_eq)
  show ?thesis
    unfolding e(1) [OF assms(1)] e(1) [OF assms(2)] e(2) [OF assms(1)] e(2) [OF assms(2)]
      a [OF e(3) [OF assms(1)]] a [OF e(3) [OF assms(2)]]
    using b [OF e(3) [OF assms(1)]] b [OF e(3) [OF assms(2)]]
    by (metis div_mult_mod_eq le_add_diff_inverse)
qed

text \<open>What mapping a page at \<open>va\<close> does: nothing else becomes mapped, mapped pages keep their
  frame and their contents, and a new page is zero.\<close>

definition maps_page :: "'a mm_state_scheme \<Rightarrow> 'a mm_state_scheme \<Rightarrow> u32 set \<Rightarrow> u32 \<Rightarrow> u32 \<Rightarrow> bool" where
  "maps_page m m' U d va \<longleftrightarrow>
    (\<forall>d' \<in> U. \<forall>i j. present m' d' i j \<longrightarrow> present m d' i j \<or> (d' = d \<and> user_addr va \<and> i = tab_no va \<and> j = slot_no va))
    \<and> (\<forall>d' \<in> U. \<forall>i j. present m d' i j \<longrightarrow> present m' d' i j
        \<and> frame (upte m' d' i j) = frame (upte m d' i j)
        \<and> upages m' (frame (upte m d' i j)) = upages m (frame (upte m d' i j)))
    \<and> (\<not> present m d (tab_no va) (slot_no va) \<and> present m' d (tab_no va) (slot_no va) \<longrightarrow>
        upages m' (frame (upte m' d (tab_no va) (slot_no va))) = Some (replicate 4096 0))"

lemma maps_page_refl: "maps_page m m U d va"
  by (auto simp: maps_page_def)

lemma task_user_page_spec:
  assumes ok: "mm_ok m U" "d \<in> U" and e: "task_user_page m d va w = (m', page)"
  shows "mm_ok m' U \<and> maps_page m m' U d va \<and> (page \<noteq> 0 \<longrightarrow> user_addr va
    \<and> present m' d (tab_no va) (slot_no va) \<and> page = frame (upte m' d (tab_no va) (slot_no va))
    \<and> (w \<longrightarrow> upte m' d (tab_no va) (slot_no va) AND IS_WRITABLE \<noteq> 0))"
proof -
  let ?i = "tab_no va" and ?j = "slot_no va"
  obtain m1 r where u: "page_dir_user_entry m d va True = (m1, r)" by fastforce
  note s = page_dir_user_entry_spec [OF ok u]
  have mp1: "maps_page m m1 U d va" using s(2-4) ok(2) by (auto simp: maps_page_def)
  show ?thesis
  proof (cases r)
    case None
    then show ?thesis using e u s(1) mp1 by (auto simp: task_user_page_def)
  next
    case (Some ti)
    obtain t i where ti: "ti = (t, i)" by fastforce
    have t: "user_addr va" "utab m1 d ?i \<noteq> 0" "t = utab m1 d ?i" "i = ?j"
      using s(5) Some ti by auto
    note ij = tab_no_less [OF t(1)] slot_no_less [of va]
    have eg: "entry_get m1 t i = upte m1 d ?i ?j" using t by (simp add: upte_def)
    obtain m2 okb where m2: "(if entry_get m1 t i AND IS_PRESENT = 0
            then let (m, page) = calloc_page m1
                 in if page = 0 then (m, False)
                    else (entry_set m t i (page OR IS_PRESENT OR ACCESS_ALL), True)
            else (m1, True)) = (m2, okb)" by fastforce
    have step: "mm_ok m2 U \<and> maps_page m m2 U d va \<and> utab m2 = utab m1 \<and> (okb \<longrightarrow> present m2 d ?i ?j)"
    proof (cases "entry_get m1 t i AND IS_PRESENT = 0")
      case False
      then show ?thesis using m2 s(1) mp1 eg ij by (auto simp: present_def)
    next
      case True
      obtain m3 p where c: "calloc_page m1 = (m3, p)" by fastforce
      show ?thesis
      proof (rule calloc_page_cases [OF mm_okD(1) [OF s(1) ok(2)] c])
        assume "p = 0" "m3 = m1"
        then show ?thesis using m2 True c s(1) mp1 by auto
      next
        fix h assume p: "p \<noteq> 0" "m3 = m1\<lparr>heap := h, upages := (upages m1)(p \<mapsto> replicate 4096 0)\<rparr>"
          "mm_base m3" "aligned p" "upages m1 p = None"
        have v: "utab m3 = utab m1" "dirs m3 = dirs m1" "tables m3 = tables m1"
          using p(2) by (simp_all add: utab_def fun_eq_iff)
        have q: "upages m1 q = Some pg \<Longrightarrow> length pg = 4096 \<Longrightarrow> \<exists>pg'. upages m3 q = Some pg' \<and> length pg' = 4096"
          for q pg using p(2,5) by auto
        have "mm_ok m3 U \<and> (\<forall>d \<in> U. upte m3 d = upte m1 d \<and> present m3 d = present m1 d)"
          by (rule mm_ok_cong' [OF s(1) p(3) _ _ _ q]) (simp_all add: v)
        then have c3: "mm_ok m3 U" "\<And>d. d \<in> U \<Longrightarrow> upte m3 d = upte m1 d"
          "\<And>d. d \<in> U \<Longrightarrow> present m3 d = present m1 d" by blast+
        have np: "\<not> present m3 d ?i ?j" using True eg c3(3) ok(2) by (simp add: present_def)
        have nf: "frame (upte m3 d' i' j') \<noteq> p" if "d' \<in> U" "present m3 d' i' j'" for d' i' j'
        proof -
          have "\<exists>pg. upages m1 (frame (upte m1 d' i' j')) = Some pg"
            using present_page [OF s(1) that(1), of i' j'] that c3(3) by auto
          then show ?thesis using p(5) c3(2) that(1) by auto
        qed
        let ?m = "entry_set m3 (utab m3 d ?i) ?j (p OR 5)"
        have t3: "utab m3 d ?i \<noteq> 0" using t(2) v by simp
        have m2eq: "m2 = ?m" "okb" using m2 True c p(1) t v by (auto simp: or_flags)
        have pg: "upages m3 p = Some (replicate 4096 0)" "length (replicate 4096 (0 :: u8)) = 4096"
          using p(2) by simp_all
        have ok2: "mm_ok ?m U"
          by (rule link_page_ok [OF c3(1) ok(2) t3 ij np p(4) pg nf])
        note up = upte_entry_set [OF c3(1) ok(2) _ t3 ij]
        note f = present_flags [OF p(4)]
        have pr: "present ?m d' i' j' \<longleftrightarrow> present m1 d' i' j' \<or> (d' = d \<and> i' = ?i \<and> j' = ?j)"
          if "d' \<in> U" for d' i' j'
          using up [OF that, of i' _ j'] f ij c3(2,3) that by (auto simp: present_def split: if_splits)
        have new: "upte ?m d ?i ?j = p OR 5" using up [OF ok(2), of ?i] ij by simp
        have old: "upte ?m d' i' j' = upte m1 d' i' j'" if "d' \<in> U" "present m1 d' i' j'" for d' i' j'
          using up [OF that(1), of i' _ j'] np c3(2,3) that ok(2) by (auto simp: present_def)
        have oldp: "frame (upte m1 d' i' j') \<noteq> p" if "d' \<in> U" "present m1 d' i' j'" for d' i' j'
          using nf c3(2,3) that by auto
        have "maps_page m1 ?m U d va"
          using pr old oldp new f t(1) p(2) unfolding maps_page_def by auto
        then have "maps_page m ?m U d va"
          using s(2-4) ok(2) unfolding maps_page_def by auto
        then show ?thesis using ok2 m2eq pr [OF ok(2)] v by simp
      qed
    qed
    show ?thesis
    proof (cases okb)
      case False
      then have "m' = m2" "page = 0" using e u Some ti m2 by (auto simp: task_user_page_def Let_def)
      then show ?thesis using step by simp
    next
      case True
      let ?v = "upte m2 d ?i ?j OR IS_WRITABLE"
      have t2: "utab m2 d ?i \<noteq> 0" "t = utab m2 d ?i" using step t by simp_all
      have eg2: "entry_get m2 t i = upte m2 d ?i ?j" using t2 t(4) by (simp add: upte_def)
      have pr2: "present m2 d ?i ?j" using step True by simp
      have v: "frame ?v = frame (upte m2 d ?i ?j)" "?v AND IS_PRESENT \<noteq> 0" "?v AND ACCESS_ALL \<noteq> 0" "?v AND IS_WRITABLE \<noteq> 0"
      proof -
        show "frame ?v = frame (upte m2 d ?i ?j)" by (rule frame_or_low) (rule low_masks)
        have a: "upte m2 d ?i ?j AND IS_PRESENT \<noteq> 0" using pr2 by (simp add: present_def)
        have b: "upte m2 d ?i ?j AND ACCESS_ALL \<noteq> 0" using present_page(2) [OF _ ok(2) pr2] step by simp
        show "?v AND IS_PRESENT \<noteq> 0" "?v AND ACCESS_ALL \<noteq> 0" "?v AND IS_WRITABLE \<noteq> 0"
          using a b by (simp_all add: bit.conj_disj_distrib2)
      qed
      have m': "m' = (if w then entry_set m2 (utab m2 d ?i) ?j ?v else m2)"
        "page = frame (upte m' d ?i ?j)"
      proof -
        show "m' = (if w then entry_set m2 (utab m2 d ?i) ?j ?v else m2)"
          using e u Some ti m2 True t(4) t2(2) eg2 by (auto simp: task_user_page_def Let_def)
        then have "entry_get m' t i = upte m' d ?i ?j" using t2 t(4) by (simp add: upte_def)
        then show "page = frame (upte m' d ?i ?j)"
          using e u Some ti m2 True by (auto simp: task_user_page_def Let_def)
      qed
      show ?thesis
      proof (cases w)
        case False
        then show ?thesis using m' step pr2 t(1) by simp
      next
        case True
        have ok2: "mm_ok m2 U" using step by simp
        note sf = same_frame_ok [OF ok2 ok(2) t2(1) ij pr2 v(1-3)]
        have w: "upte m' d ?i ?j = ?v"
          using upte_entry_set [OF ok2 ok(2) ok(2) t2(1) ij ij(1)] m'(1) True by simp
        have i16: "present m2 d' i' j' \<Longrightarrow> i' < 16" for d' i' j' by (simp add: present_def)
        have "maps_page m2 m' U d va"
          using sf(2) [OF ok(2)] sf(2,3) i16 unfolding maps_page_def m'(1) using True by simp
        then have "maps_page m m' U d va"
          using step ok(2) unfolding maps_page_def by (metis (no_types, lifting))
        then show ?thesis using sf(1,2) m' True pr2 t(1) w v(4) ok(2) by simp
      qed
    qed
  qed
qed

section \<open>User memory\<close>

lemma maps_page_uload:
  assumes ok: "mm_ok m U" "mm_ok m' U" "d \<in> U" and mp: "maps_page m m' U d va" and d': "d' \<in> U"
  shows "uload m d' x \<noteq> None \<Longrightarrow> uload m' d' x = uload m d' x"
    "uload m d' x = None \<Longrightarrow> uload m' d' x \<noteq> None \<Longrightarrow>
      d' = d \<and> unat x div 4096 = unat va div 4096 \<and> uload m' d' x = Some 0"
proof -
  let ?i = "tab_no x" and ?j = "slot_no x"
  have off: "unat (x mod 4096) < 4096" by (simp add: unat_mod)
  show "uload m' d' x = uload m d' x" if "uload m d' x \<noteq> None"
    using that mp d' unfolding maps_page_def uload_def by (auto split: if_splits)
  show "d' = d \<and> unat x div 4096 = unat va div 4096 \<and> uload m' d' x = Some 0"
    if n: "uload m d' x = None" and s: "uload m' d' x \<noteq> None"
  proof -
    have u: "user_addr x" "present m' d' ?i ?j" using s by (auto simp: uload_def split: if_splits)
    have np: "\<not> present m d' ?i ?j"
      using n u present_page [OF ok(1) d', of ?i ?j] by (auto simp: uload_def)
    have "d' = d" "user_addr va" "?i = tab_no va" "?j = slot_no va"
      using mp d' u(2) np unfolding maps_page_def by blast+
    moreover from this have "upages m' (frame (upte m' d ?i ?j)) = Some (replicate 4096 0)"
      using mp u(2) np unfolding maps_page_def by simp
    ultimately show ?thesis using same_page [OF u(1), of va] u off by (simp add: uload_def)
  qed
qed

lemma write_page_ok:
  assumes ok: "mm_ok m U" "d \<in> U" and va: "user_addr va" "present m d (tab_no va) (slot_no va)"
    and p: "p = frame (upte m d (tab_no va) (slot_no va))"
    and off: "off + length bs \<le> 4096"
  shows "mm_ok (write_page m p off bs) U"
    "\<And>d' x. d' \<in> U \<Longrightarrow> uload (write_page m p off bs) d' x =
      (if d' = d \<and> user_addr x \<and> unat x div 4096 = unat va div 4096
          \<and> off \<le> unat x mod 4096 \<and> unat x mod 4096 < off + length bs
       then Some (bs ! (unat x mod 4096 - off)) else uload m d' x)"
proof -
  let ?m = "write_page m p off bs"
  obtain pg where pg: "upages m p = Some pg" "length pg = 4096"
    using present_page(1) [OF ok va(2)] p by auto
  let ?pg = "take off pg @ bs @ drop (off + length bs) pg"
  have w: "?m = m\<lparr>upages := (upages m)(p \<mapsto> ?pg)\<rparr>" by (simp add: write_page_def pg)
  have len: "length ?pg = 4096" using pg off by simp
  have v: "utab ?m = utab m" "dirs ?m = dirs m" "tables ?m = tables m"
    by (simp_all add: w utab_def fun_eq_iff)
  have b: "mm_base ?m"
    by (rule mm_base_dom [of m]) (use ok(1) pg in \<open>auto simp: mm_ok_def w\<close>)
  have q: "upages m q = Some pg' \<Longrightarrow> length pg' = 4096 \<Longrightarrow> \<exists>pg''. upages ?m q = Some pg'' \<and> length pg'' = 4096"
    for q pg' using len by (simp add: w)
  have c: "mm_ok ?m U \<and> (\<forall>d \<in> U. upte ?m d = upte m d \<and> present ?m d = present m d)"
    by (rule mm_ok_cong' [OF ok(1) b _ _ _ q]) (simp_all add: v)
  then show "mm_ok ?m U" ..
  fix d' x assume d': "d' \<in> U"
  have ul: "uload ?m d' x = (if user_addr x \<and> present m d' (tab_no x) (slot_no x)
     then map_option (\<lambda>pg. pg ! unat (x mod PAGE_SIZE)) (upages ?m (frame (upte m d' (tab_no x) (slot_no x))))
     else None)"
    using c d' by (simp add: uload_def)
  show "uload ?m d' x = (if d' = d \<and> user_addr x \<and> unat x div 4096 = unat va div 4096
          \<and> off \<le> unat x mod 4096 \<and> unat x mod 4096 < off + length bs
       then Some (bs ! (unat x mod 4096 - off)) else uload m d' x)"
  proof (cases "user_addr x \<and> present m d' (tab_no x) (slot_no x)")
    case False
    have "\<not> (d' = d \<and> user_addr x \<and> unat x div 4096 = unat va div 4096)"
      using False same_page [of x va] va by auto
    moreover have "uload ?m d' x = None" using False unfolding ul by auto
    moreover have "uload m d' x = None" using False unfolding uload_def by auto
    ultimately show ?thesis by auto
  next
    case True
    show ?thesis
    proof (cases "frame (upte m d' (tab_no x) (slot_no x)) = p")
      case False
      then have "\<not> (d' = d \<and> unat x div 4096 = unat va div 4096)"
        using True same_page [of x va] va p by auto
      moreover have "uload ?m d' x = uload m d' x" using True False unfolding ul by (simp add: uload_def w)
      ultimately show ?thesis by auto
    next
      case eq: True
      then have same: "d' = d" "tab_no x = tab_no va" "slot_no x = slot_no va"
        using mm_okD(3) [OF ok] True va(2) p d' ok(2) unfolding disjoint_spaces_def frames_inj_def by metis+
      then have "unat x div 4096 = unat va div 4096" using same_page [of x va] True va(1) by simp
      moreover have "unat (x mod PAGE_SIZE) = unat x mod 4096" by (simp add: unat_mod)
      moreover have "?pg ! k = (if off \<le> k \<and> k < off + length bs then bs ! (k - off) else pg ! k)"
        if "k < 4096" for k
        using off pg(2) that by (auto simp: nth_append min_def)
      moreover have "uload ?m d' x = Some (?pg ! (unat x mod 4096))"
        using True eq calculation(2) unfolding ul by (simp add: w)
      moreover have "uload m d' x = Some (pg ! (unat x mod 4096))"
        using True eq calculation(2) pg unfolding uload_def by simp
      ultimately show ?thesis using same(1) True by simp
    qed
  qed
qed

text \<open>The effect of copying to user memory, on the memory of every program.\<close>

definition in_range :: "u32 \<Rightarrow> nat \<Rightarrow> u32 \<Rightarrow> bool" where
  "in_range va n x \<longleftrightarrow> unat va \<le> unat x \<and> unat x < unat va + n"

text \<open>Bytes outside the range keep their value; those that were not mapped may become
  mapped, and are 0 then.\<close>

definition keeps :: "u8 option \<Rightarrow> u8 option \<Rightarrow> bool" where
  "keeps v v' \<longleftrightarrow> v' = v \<or> v = None \<and> v' = Some 0"

lemma keeps_trans: "keeps a b \<Longrightarrow> keeps b c \<Longrightarrow> keeps a c"
  by (auto simp: keeps_def)

lemma keeps_refl [simp]: "keeps a a"
  by (simp add: keeps_def)

definition copied :: "bytes option \<Rightarrow> nat \<Rightarrow> u8 option \<Rightarrow> u8 option \<Rightarrow> bool" where
  "copied src k v v' \<longleftrightarrow>
    (case src of Some bs \<Rightarrow> v' = Some (bs ! k) | None \<Rightarrow> v' = Some (case v of Some b \<Rightarrow> b | None \<Rightarrow> 0))"

lemma chunk_range:
  assumes "off = unat va mod 4096" "n \<le> 4096 - off"
  shows "in_range va n x \<longleftrightarrow> unat x div 4096 = unat va div 4096 \<and> off \<le> unat x mod 4096 \<and> unat x mod 4096 < off + n"
proof -
  have v: "unat va = 4096 * (unat va div 4096) + off" using assms(1) by simp
  have x: "unat x = 4096 * (unat x div 4096) + unat x mod 4096" "unat x mod 4096 < 4096" by simp_all
  have "off < 4096" using assms(1) by simp
  show ?thesis
  proof
    assume "in_range va n x"
    then have r: "4096 * (unat va div 4096) + off \<le> unat x" "unat x < 4096 * (unat va div 4096) + off + n"
      using v unfolding in_range_def by linarith+
    have "unat x < 4096 * (unat va div 4096) + 4096" using r(2) assms(2) \<open>off < 4096\<close> by linarith
    then have "unat x div 4096 = unat va div 4096"
      using r(1) by (intro div_nat_eqI) auto
    moreover from this have "unat x mod 4096 = unat x - 4096 * (unat va div 4096)"
      using x(1) by linarith
    ultimately show "unat x div 4096 = unat va div 4096 \<and> off \<le> unat x mod 4096 \<and> unat x mod 4096 < off + n"
      using r by linarith
  next
    assume "unat x div 4096 = unat va div 4096 \<and> off \<le> unat x mod 4096 \<and> unat x mod 4096 < off + n"
    then show "in_range va n x" using v x unfolding in_range_def by linarith
  qed
qed

definition src_fits :: "bytes option \<Rightarrow> nat \<Rightarrow> bool" where
  "src_fits src n \<longleftrightarrow> (case src of Some bs \<Rightarrow> length bs = n | None \<Rightarrow> True)"

text \<open>One chunk: map the page, then write the bytes.\<close>

lemma copy_chunk:
  assumes ok: "mm_ok m U" "d \<in> U" and e: "task_user_page m d va w = (m1, page)" "page \<noteq> 0"
    and off: "off = unat (va mod PAGE_SIZE)" and n: "n \<le> 4096 - off" "n \<le> len" and fits: "src_fits src len"
    and m2: "m2 = (case src of Some bs \<Rightarrow> write_page m1 page off (take n bs) | None \<Rightarrow> m1)"
  shows "user_addr va" "mm_ok m2 U" "\<And>d'. d' \<in> U \<Longrightarrow> d' \<noteq> d \<Longrightarrow> uload m2 d' = uload m d'"
    "\<And>x. \<not> in_range va n x \<Longrightarrow> keeps (uload m d x) (uload m2 d x)"
    "\<And>x. in_range va n x \<Longrightarrow> copied src (unat x - unat va) (uload m d x) (uload m2 d x)"
proof -
  have s: "mm_ok m1 U" "maps_page m m1 U d va" "user_addr va" "present m1 d (tab_no va) (slot_no va)"
    "page = frame (upte m1 d (tab_no va) (slot_no va))"
    using task_user_page_spec [OF ok e(1)] e(2) by blast+
  note u = maps_page_uload [OF ok(1) s(1) ok(2) s(2)]
  have off': "off = unat va mod 4096" "off < 4096" using off by (simp_all add: unat_mod)
  have k1: "keeps (uload m d' x) (uload m1 d' x)" if "d' \<in> U" for d' x
    using u [OF that, of x] by (cases "uload m d' x"; cases "uload m1 d' x") (auto simp: keeps_def)
  have iso1: "uload m1 d' = uload m d'" if "d' \<in> U" "d' \<noteq> d" for d'
    using u [OF that(1)] that(2) by (intro ext) (metis)
  have map1: "uload m1 d x \<noteq> None" if "in_range va n x" for x
  proof -
    have "unat x div 4096 = unat va div 4096" using that chunk_range [OF off'(1) n(1)] by simp
    moreover have "user_addr x"
    proof -
      have "unat va < 0x44000000" "0x40000000 \<le> unat va" using s(3) by (simp_all add: user_addr_def word_less_nat_alt word_le_nat_alt)
      moreover have "unat va div 4096 < 0x44000" using calculation(1) by (intro div_less_iff_less_mult [THEN iffD2]) auto
      moreover have "0x40000 \<le> unat va div 4096" using div_le_mono [OF calculation(2), of 4096] by simp
      ultimately have "unat x div 4096 < 0x44000" "0x40000 \<le> unat x div 4096"
        using \<open>unat x div 4096 = unat va div 4096\<close> by simp_all
      then have "unat x < 0x44000000" "0x40000000 \<le> unat x" by linarith+
      then show ?thesis by (simp add: user_addr_def word_less_nat_alt word_le_nat_alt)
    qed
    ultimately show ?thesis
      using same_page [of x va] s(3,4) present_page(1) [OF s(1) ok(2) s(4)] by (auto simp: uload_def)
  qed
  show "user_addr va" by (fact s(3))
  show "mm_ok m2 U" "\<And>d'. d' \<in> U \<Longrightarrow> d' \<noteq> d \<Longrightarrow> uload m2 d' = uload m d'"
    "\<And>x. \<not> in_range va n x \<Longrightarrow> keeps (uload m d x) (uload m2 d x)"
    "\<And>x. in_range va n x \<Longrightarrow> copied src (unat x - unat va) (uload m d x) (uload m2 d x)"
  proof (atomize (full), cases src)
    case None
    have "copied None (unat x - unat va) (uload m d x) (uload m1 d x)" if "in_range va n x" for x
      using map1 [OF that] k1 [OF ok(2), of x] by (auto simp: copied_def keeps_def split: option.splits)
    then show "(mm_ok m2 U \<and> (\<forall>d'. d' \<in> U \<longrightarrow> d' \<noteq> d \<longrightarrow> uload m2 d' = uload m d'))
      \<and> (\<forall>x. \<not> in_range va n x \<longrightarrow> keeps (uload m d x) (uload m2 d x))
      \<and> (\<forall>x. in_range va n x \<longrightarrow> copied src (unat x - unat va) (uload m d x) (uload m2 d x))"
      using None m2 s(1) iso1 k1 [OF ok(2)] by simp
  next
    case (Some bs)
    have len: "length (take n bs) = n" "length bs = len" using Some fits n(2) by (auto simp: src_fits_def)
    have fit: "off + length (take n bs) \<le> 4096" using len n(1) off'(2) by simp
    note wp = write_page_ok [OF s(1) ok(2) s(3,4,5) fit]
    have m2': "m2 = write_page m1 page off (take n bs)" using m2 Some by simp
    have "uload m2 d x = Some (bs ! (unat x - unat va))" if r: "in_range va n x" for x
    proof -
      note c = r [unfolded chunk_range [OF off'(1) n(1)]]
      have "user_addr x" using map1 [OF r] by (auto simp: uload_def split: if_splits)
      moreover have "unat x - unat va = unat x mod 4096 - off"
        using c off'(1) by (metis diff_add_inverse2 diff_diff_left div_mult_mod_eq minus_nat.diff_0 add_diff_cancel_left)
      moreover have "unat x mod 4096 - off < n" using c by linarith
      ultimately show ?thesis using wp(2) [OF ok(2), of x] c len by (simp add: m2')
    qed
    moreover have "keeps (uload m d x) (uload m2 d x)" if "\<not> in_range va n x" for x
      using wp(2) [OF ok(2), of x] that k1 [OF ok(2), of x] len(1)
      unfolding m2' chunk_range [OF off'(1) n(1)] by auto
    moreover have "uload m2 d' = uload m d'" if "d' \<in> U" "d' \<noteq> d" for d'
      using wp(2) [OF that(1)] that(2) iso1 [OF that] by (auto simp: m2' fun_eq_iff)
    ultimately show "(mm_ok m2 U \<and> (\<forall>d'. d' \<in> U \<longrightarrow> d' \<noteq> d \<longrightarrow> uload m2 d' = uload m d'))
      \<and> (\<forall>x. \<not> in_range va n x \<longrightarrow> keeps (uload m d x) (uload m2 d x))
      \<and> (\<forall>x. in_range va n x \<longrightarrow> copied src (unat x - unat va) (uload m d x) (uload m2 d x))"
      using wp(1) Some by (simp add: m2' copied_def)
  qed
qed

lemma unat_add_nat:
  assumes "unat (va :: u32) + k < 2 ^ 32"
  shows "unat (va + word_of_nat k) = unat va + k"
proof -
  have "unat (word_of_nat (unat va + k) :: u32) = unat va + k"
    by (rule of_nat_inverse) (use assms in simp_all)
  then show ?thesis by simp
qed

lemma in_range_split:
  assumes "n \<le> len" "unat (va + word_of_nat n) = unat va + n"
  shows "in_range va len x \<longleftrightarrow> in_range va n x \<or> in_range (va + word_of_nat n) (len - n) x"
    "in_range va n x \<Longrightarrow> \<not> in_range (va + word_of_nat n) (len - n) x"
  using assms by (auto simp: in_range_def)

lemma task_copy_to_user_spec:
  "mm_ok m U \<Longrightarrow> d \<in> U \<Longrightarrow> src_fits src len \<Longrightarrow> task_copy_to_user m d va src len w = (m', res) \<Longrightarrow>
   mm_ok m' U \<and> (\<forall>d' \<in> U. d' \<noteq> d \<longrightarrow> uload m' d' = uload m d')
   \<and> (\<forall>x. \<not> in_range va len x \<longrightarrow> keeps (uload m d x) (uload m' d x))
   \<and> (res = None \<longrightarrow> (\<forall>x. in_range va len x \<longrightarrow> copied src (unat x - unat va) (uload m d x) (uload m' d x)))"
proof (induction m d va src len w rule: task_copy_to_user.induct)
  case (1 m d va src len w)
  show ?case
  proof (cases "len = 0")
    case True
    then have "m' = m" "\<not> in_range va len x" for x
      using "1.prems"(4) by (simp_all add: task_copy_to_user.simps [of m] in_range_def)
    then show ?thesis using "1.prems"(1) by simp
  next
    case False
    obtain m1 page where pg: "task_user_page m d va w = (m1, page)" by fastforce
    show ?thesis
    proof (cases "page = 0")
      case True
      then have r: "m' = m1" "res = Some NO_MEMORY_ERROR"
        using "1.prems"(4) pg False by (simp_all add: task_copy_to_user.simps [of m])
      have s: "mm_ok m1 U" "maps_page m m1 U d va"
        using task_user_page_spec [OF "1.prems"(1,2) pg] by blast+
      note u = maps_page_uload [OF "1.prems"(1) s(1) "1.prems"(2) s(2)]
      have "uload m1 d' = uload m d'" if "d' \<in> U" "d' \<noteq> d" for d'
        using u [OF that(1)] that(2) by (intro ext) metis
      moreover have "keeps (uload m d x) (uload m1 d x)" for x
        using u [OF "1.prems"(2), of x]
        by (cases "uload m d x"; cases "uload m1 d x") (auto simp: keeps_def)
      ultimately show ?thesis using s(1) r by simp
    next
      case pnz: False
      let ?off = "unat (va mod PAGE_SIZE)" and ?n = "min (4096 - unat (va mod PAGE_SIZE)) len"
      let ?m2 = "case src of Some bs \<Rightarrow> write_page m1 page ?off (take ?n bs) | None \<Rightarrow> m1"
      have n: "?n \<le> 4096 - ?off" "?n \<le> len" by simp_all
      note c = copy_chunk [OF "1.prems"(1,2) pg pnz refl n "1.prems"(3) refl]
      have va': "unat (va + word_of_nat ?n) = unat va + ?n"
      proof -
        have "unat va < 0x44000000" using c(1) by (simp add: user_addr_def word_less_nat_alt)
        moreover have "?n \<le> 4096" by simp
        ultimately show ?thesis by (intro unat_add_nat) simp
      qed
      have rec: "task_copy_to_user ?m2 d (va + word_of_nat ?n) (map_option (drop ?n) src) (len - ?n) w = (m', res)"
        using "1.prems"(4) pg False pnz by (simp add: task_copy_to_user.simps [of m] Let_def)
      have fits: "src_fits (map_option (drop ?n) src) (len - ?n)"
        using "1.prems"(3) by (auto simp: src_fits_def split: option.splits)
      have IH: "mm_ok m' U \<and> (\<forall>d' \<in> U. d' \<noteq> d \<longrightarrow> uload m' d' = uload ?m2 d')
        \<and> (\<forall>x. \<not> in_range (va + word_of_nat ?n) (len - ?n) x \<longrightarrow> keeps (uload ?m2 d x) (uload m' d x))
        \<and> (res = None \<longrightarrow> (\<forall>x. in_range (va + word_of_nat ?n) (len - ?n) x \<longrightarrow>
            copied (map_option (drop ?n) src) (unat x - unat (va + word_of_nat ?n)) (uload ?m2 d x) (uload m' d x)))"
        by (rule "1.IH" [OF False pg [symmetric] refl pnz refl refl refl c(2) "1.prems"(2) fits rec])
      note sp = in_range_split [OF n(2) va']
      have "keeps (uload m d x) (uload m' d x)" if "\<not> in_range va len x" for x
        using that IH c(4) [of x] unfolding sp(1) by (meson keeps_trans)
      moreover have "copied src (unat x - unat va) (uload m d x) (uload m' d x)"
        if r: "in_range va len x" and "res = None" for x
      proof (cases "in_range va ?n x")
        case True
        then show ?thesis
          using c(5) [OF True] IH sp(2) [OF True] by (auto simp: copied_def keeps_def split: option.splits)
      next
        case False
        then have r2: "in_range (va + word_of_nat ?n) (len - ?n) x" using r sp(1) by blast
        have ge: "unat x - unat va = ?n + (unat x - unat (va + word_of_nat ?n))"
          using r2 va' by (simp add: in_range_def)
        show ?thesis
        proof (cases src)
          case None
          then show ?thesis using IH r2 \<open>res = None\<close> c(4) [OF False] 
            by (auto simp: copied_def keeps_def split: option.splits)
        next
          case (Some bs)
          have "?n \<le> length bs" using Some "1.prems"(3) by (simp add: src_fits_def)
          then show ?thesis using IH r2 \<open>res = None\<close> Some ge by (simp add: copied_def)
        qed
      qed
      ultimately show ?thesis using IH c(3) by simp
    qed
  qed
qed

section \<open>What the processor sees\<close>

lemma mmu_user:
  assumes ok: "mm_ok m U" "d \<in> U" and va: "user_addr va"
  shows "mmu m (udir m d) va =
    (if present m d (tab_no va) (slot_no va)
     then Some (frame (upte m d (tab_no va) (slot_no va)) + va mod PAGE_SIZE, True,
                upte m d (tab_no va) (slot_no va) AND IS_WRITABLE \<noteq> 0)
     else None)"
proof -
  let ?i = "tab_no va" and ?j = "slot_no va"
  note ij = tab_no_less [OF va] slot_no_less [of va]
  have "unat (va div TABLE_SPAN) = 256 + ?i"
  proof -
    have v: "0x40000000 \<le> unat va" "unat (va - USER_CODE_ADDR) = unat va - 0x40000000"
      using va by (simp_all add: user_addr_def word_le_nat_alt unat_sub)
    then have "unat va = 256 * 4194304 + (unat va - 0x40000000)" by simp
    then have "unat va div 4194304 = 256 + (unat va - 0x40000000) div 4194304"
      by (metis div_mult_self3 zero_neq_numeral)
    then show ?thesis using v by (simp add: tab_no_def unat_div)
  qed
  then have pde: "entry_get m (udir m d) (unat (va div TABLE_SPAN)) =
      (if utab m d ?i = 0 then 0 else utab m d ?i OR 7)"
    using mm_okD(2) [OF ok] ij(1) by (simp add: space_ok_def)
  show ?thesis
  proof (cases "utab m d ?i = 0")
    case True
    then show ?thesis using pde by (simp add: mmu_def Let_def present_def upte_def)
  next
    case False
    have b: "mm_base m" using ok by (simp add: mm_ok_def)
    have "table_len m (utab m d ?i)" using mm_okD(2) [OF ok] ij(1) False by (simp add: space_ok_def)
    then have "tables m (utab m d ?i) \<noteq> None" by (rule table_len_Some)
    then have "live (heap m) (utab m d ?i) \<noteq> None"
      using b unfolding mm_base_def backed_def by (metis domIff)
    then have al: "aligned (utab m d ?i)" using b page_aligned unfolding mm_base_def by blast
    note f = present_flags(4-7) [OF al]
    have fl: "frame (utab m d ?i OR 7) = utab m d ?i" by (rule f)
    have eg: "entry_get m (utab m d ?i) ?j = upte m d ?i ?j" using False by (simp add: upte_def)
    have "(utab m d ?i OR 7) AND x AND ACCESS_ALL \<noteq> 0 \<longleftrightarrow> x AND ACCESS_ALL \<noteq> 0"
      "(utab m d ?i OR 7) AND x AND IS_WRITABLE \<noteq> 0 \<longleftrightarrow> x AND IS_WRITABLE \<noteq> 0" for x
      using flags_and [OF al low_masks(5) low_masks(3)] flags_and [OF al low_masks(5) low_masks(2)]
      by (simp_all add: and.left_commute and.commute) (simp_all add: and.assoc)
    then show ?thesis
      using pde False fl f(1) eg present_page(2) [OF ok, of ?i ?j] ij
      by (auto simp: mmu_def Let_def present_def slot_no_def)
  qed
qed

lemma mmu_kernel:
  assumes ok: "mm_ok m U" "d \<in> U" and va: "\<not> user_addr va" "mmu m (udir m d) va = Some (pa, u, w)"
  shows "\<not> u"
proof -
  have "unat (va div TABLE_SPAN) < 256 \<or> 272 \<le> unat (va div TABLE_SPAN)"
    using va(1) unfolding user_addr_def by unat_arith
  then have "entry_get m (udir m d) (unat (va div TABLE_SPAN)) AND ACCESS_ALL = 0"
    using mm_okD(2) [OF ok] unfolding space_ok_def by blast
  then have "entry_get m (udir m d) (unat (va div TABLE_SPAN)) AND x AND ACCESS_ALL = 0" for x
    by (metis and.assoc and.commute and_zero_eq)
  then show ?thesis using va(2) by (auto simp: mmu_def Let_def split: if_splits)
qed

section \<open>Making a user directory\<close>

lemma mm_ok_insert:
  assumes ok: "mm_ok m U" and sp: "space_ok m d" and new: "d \<notin> U" and e: "\<And>i. utab m d i = 0"
    and u: "\<And>d'. d' \<in> U \<Longrightarrow> udir m d' \<noteq> udir m d" "\<And>d' i. utab m d' i \<noteq> udir m d"
  shows "mm_ok m (insert d U)"
proof -
  have np: "\<not> present m d i j" for i j by (simp add: present_def upte_def e)
  have t: "tables_inj m U" "frames_inj m U" using ok by (simp_all add: mm_ok_def disjoint_spaces_def)
  have "frames_inj m (insert d U)" using t(2) np by (auto simp: frames_inj_def)
  moreover have "tables_inj m (insert d U)"
    unfolding tables_inj_def
  proof (intro conjI ballI allI impI)
    fix d1 d2 assume "d1 \<in> insert d U" "d2 \<in> insert d U" "udir m d1 = udir m d2"
    then show "d1 = d2" using t(1) u(1) unfolding tables_inj_def by (metis insertE)
  next
    fix d1 d2 i assume "d1 \<in> insert d U"
    then show "utab m d2 i \<noteq> udir m d1" using t(1) u(2) unfolding tables_inj_def by blast
  next
    fix d1 d2 i1 i2 assume a: "d1 \<in> insert d U" "d2 \<in> insert d U" "i1 < 16" "i2 < 16"
      "utab m d1 i1 \<noteq> 0 \<and> utab m d1 i1 = utab m d2 i2"
    then have "d1 \<noteq> d" "d2 \<noteq> d" using e by auto
    then show "d1 = d2" "i1 = i2" using t(1) a unfolding tables_inj_def by blast+
  qed
  ultimately show ?thesis using ok sp by (simp add: mm_ok_def disjoint_spaces_def)
qed

lemma fold_zero:
  "length (fold (\<lambda>i es. es[a + i := 0]) [0..<n] (es :: u32 list)) = length es"
  "k < length es \<Longrightarrow> fold (\<lambda>i es. es[a + i := (0 :: u32)]) [0..<n] es ! k
     = (if a \<le> k \<and> k < a + n then 0 else es ! k)"
proof -
  show l: "length (fold (\<lambda>i es. es[a + i := 0]) [0..<n] es) = length es" for n and es :: "u32 list"
    by (induction n) auto
  show "k < length es \<Longrightarrow> fold (\<lambda>i es. es[a + i := (0 :: u32)]) [0..<n] es ! k
     = (if a \<le> k \<and> k < a + n then 0 else es ! k)"
    by (induction n) (auto simp: nth_list_update l less_Suc_eq)
qed

text \<open>The kernel directory: complete, and closed to ring 3.\<close>

definition kernel_dir_ok :: "'a mm_state_scheme \<Rightarrow> u32 \<Rightarrow> bool" where
  "kernel_dir_ok m k \<longleftrightarrow> k \<in> dom (dirs m) \<and> table_len m (udir m k)
    \<and> (\<forall>i<1024. entry_get m (udir m k) i AND ACCESS_ALL = 0)"

lemma page_dir_new_user_spec:
  assumes ok: "mm_ok m U" "U \<subseteq> dom (dirs m)" and k: "kernel_dir_ok m k" "k \<notin> U"
    and e: "page_dir_new_user m k USER_CODE_ADDR = (m', d)" "d \<noteq> 0"
  shows "mm_ok m' (insert d U)" "d \<notin> dom (dirs m)" "\<And>d'. d' \<in> U \<Longrightarrow> uload m' d' = uload m d'"
    "uload m' d = Map.empty" "kernel_dir_ok m' k"
proof -
  have b: "mm_base m" using ok by (simp add: mm_ok_def)
  obtain m1 d1 where c1: "calloc_dir m = (m1, d1)" by fastforce
  obtain m2 de where c2: "calloc_table m1 = (m2, de)" by fastforce
  have nz: "d1 \<noteq> 0" "de \<noteq> 0"
    using e c1 c2 by (auto simp: page_dir_new_user_def Let_def split: if_splits)
  obtain h1 where a1: "m1 = m\<lparr>heap := h1, dirs := (dirs m)(d1 \<mapsto>
         \<lparr>dir_entry = 0, user_tables = replicate USER_SPACE_TABLES 0, user_start = 0\<rparr>)\<rparr>"
      "mm_base m1" "tables m d1 = None" "dirs m d1 = None" "upages m d1 = None"
    using calloc_dir_cases [OF b c1] nz(1) by metis
  obtain h2 where a2: "m2 = m1\<lparr>heap := h2, tables := (tables m1)(de \<mapsto> replicate 1024 0)\<rparr>"
      "mm_base m2" "tables m1 de = None" "dirs m1 de = None" "upages m1 de = None"
    using calloc_table_cases [OF a1(2) c2] nz(2) by metis
  obtain kd where kd: "dirs m k = Some kd" "table_len m (dir_entry kd)" "udir m k = dir_entry kd"
    using k(1) by (auto simp: kernel_dir_ok_def udir_def)
  obtain kde where kde: "tables m (dir_entry kd) = Some kde" "length kde = 1024"
    using kd(2) by (auto simp: table_len_def)
  have kn: "k \<noteq> d1" "dir_entry kd \<noteq> de" using kd kde a1 a2 by auto
  have kde2: "(case dirs m2 k of Some kd \<Rightarrow> the (tables m2 (dir_entry kd)) | None \<Rightarrow> []) = kde"
    using kd kde kn a1(1) a2(1) by simp
  let ?es = "fold (\<lambda>i es. es[256 + i := 0]) [0..<USER_SPACE_TABLES] kde"
  let ?pd = "\<lparr>dir_entry = de, user_tables = replicate USER_SPACE_TABLES 0, user_start = USER_CODE_ADDR\<rparr>"
  have start: "USER_CODE_ADDR AND NOT (TABLE_SPAN - 1) = USER_CODE_ADDR" "unat (USER_CODE_ADDR div TABLE_SPAN) = 256"
    by simp_all
  have r: "m' = m2\<lparr>tables := (tables m2)(de \<mapsto> ?es), dirs := (dirs m2)(d1 \<mapsto> ?pd)\<rparr>" "d = d1"
    using e c1 c2 nz unfolding page_dir_new_user_def by (auto simp: kde2 start Let_def simp del: upt_rec_numeral)
  have ds: "dirs m' = (dirs m)(d \<mapsto> ?pd)" "tables m' = (tables m)(de \<mapsto> ?es)" "upages m' = upages m" "heap m' = heap m2"
    using r a1 a2 by simp_all
  have b': "mm_base m'"
    by (rule mm_base_dom [OF a2(2)]) (use r a1 a2 in auto)
  have dU: "d \<notin> U" using ok(2) a1(4) r(2) by auto
  have ut: "utab m' d' i = utab m d' i" for d' i
    using a1(4) r(2) by (auto simp: utab_def ds)
  have q: "upages m p = Some pg \<Longrightarrow> length pg = 4096 \<Longrightarrow> \<exists>pg'. upages m' p = Some pg' \<and> length pg' = 4096" for p pg
    by (simp add: ds)
  have tde: "tables m de = None" using a2(3) a1(1) by simp
  have c: "mm_ok m' U \<and> (\<forall>d \<in> U. upte m' d = upte m d \<and> present m' d = present m d)"
    by (rule mm_ok_cong' [OF ok(1) b' _ ut _ q]) (use dU tde in \<open>auto simp: ds\<close>)
  have lenes: "length ?es = 1024" using fold_zero(1) kde(2) by metis
  have ude: "udir m' d = de" "table_len m' de" "entry_get m' de j = (if j < 1024 then ?es ! j else 0)" for j
    using lenes by (simp_all add: udir_def ds table_len_def entry_get_def)
  have es: "j < 1024 \<Longrightarrow> ?es ! j = (if 256 \<le> j \<and> j < 272 then 0 else kde ! j)" for j
    using fold_zero(2) [of j kde 256 16] kde(2) by simp
  have kacc: "kde ! j AND ACCESS_ALL = 0" if "j < 1024" for j
    using k(1) kd(3) kde that by (auto simp: kernel_dir_ok_def entry_get_def)
  have ut0: "utab m' d i = 0" for i using ut a1(4) r(2) by (simp add: utab_def)
  have "space_ok m' d"
    unfolding space_ok_def ude(1) using ude(2,3) es kacc ut0
    by (auto simp: ds present_def upte_def)
  moreover have "udir m' d' \<noteq> de" if "d' \<in> U" for d'
  proof -
    have "table_len m (udir m d')" using ok(1) that by (simp add: mm_ok_def space_ok_def)
    then show ?thesis using tde that dU by (auto simp: table_len_def udir_def ds)
  qed
  moreover have "utab m' d' i \<noteq> de" for d' i
  proof (cases "d' \<in> U \<and> i < 16 \<and> utab m d' i \<noteq> 0")
    case True
    then have "table_len m (utab m d' i)" using ok(1) by (simp add: mm_ok_def space_ok_def)
    then show ?thesis using tde by (auto simp: table_len_def ut)
  next
    case False
    then have "utab m d' i = 0"
      using ok(1) utab_ge [of i m d'] by (cases "i < 16") (auto simp: mm_ok_def)
    then show ?thesis using nz(2) by (simp add: ut)
  qed
  ultimately show "mm_ok m' (insert d U)" using c dU ut0 mm_ok_insert [of m' U d] ude(1) by simp
  show "d \<notin> dom (dirs m)" using a1(4) r(2) by auto
  show "uload m' d' = uload m d'" if "d' \<in> U" for d'
    using c that by (simp add: uload_def fun_eq_iff ds)
  show "uload m' d = Map.empty" by (simp add: uload_def fun_eq_iff present_def upte_def ut0)
  show "kernel_dir_ok m' k"
    using k(1) kn kd kde r(2) unfolding kernel_dir_ok_def by (auto simp: udir_def ds table_len_def entry_get_def)
qed

section \<open>Freeing a user space\<close>

text \<open>Removing a set of addresses from the stores and from the heap.\<close>

definition freed :: "'a mm_state_scheme \<Rightarrow> 'a mm_state_scheme \<Rightarrow> u32 set \<Rightarrow> bool" where
  "freed m m' A \<longleftrightarrow> heap_ok (heap m') \<and> h_addr (heap m') = h_addr (heap m)
    \<and> live (heap m') = (live (heap m)) |` (- A)"

lemma freed_kfree:
  assumes "heap_ok (heap m)" "heap m' = kfree (heap m) p"
  shows "freed m m' {p}"
proof -
  have "h_addr (kfree (heap m) p) = h_addr (heap m)"
    using heap_free_live [OF assms(1), of p] by (auto simp: kfree_def split: sum.splits)
  then show ?thesis
    using assms kfree_ok [OF assms(1)] kfree_live [OF assms(1)] by (auto simp: freed_def restrict_map_def)
qed

lemma freed_trans: "freed m m' A \<Longrightarrow> freed m' m'' B \<Longrightarrow> freed m m'' (A \<union> B)"
  by (auto simp: freed_def restrict_map_def fun_eq_iff)

lemma restrict_UNIV [simp]: "f |` UNIV = f"
  by (simp add: restrict_map_def)

lemma freed_refl: "heap_ok (heap m) \<Longrightarrow> freed m m {}"
  by (simp add: freed_def)

text \<open>The frames of the entries of one table, and of one directory.\<close>

definition frames_of :: "'a mm_state_scheme \<Rightarrow> u32 \<Rightarrow> u32 set" where
  "frames_of m d = {frame (upte m d i j) | i j. present m d i j}"

definition pages_gone :: "'a mm_state_scheme \<Rightarrow> 'a mm_state_scheme \<Rightarrow> u32 set \<Rightarrow> bool" where
  "pages_gone m m' A \<longleftrightarrow> freed m m' A \<and> tables m' = tables m \<and> dirs m' = dirs m
    \<and> upages m' = (upages m) |` (- A)"

lemma pages_gone_free_page: "heap_ok (heap m) \<Longrightarrow> pages_gone m (free_page m p) {p}"
  using freed_kfree [of m "free_page m p" p]
  by (auto simp: pages_gone_def free_page_def restrict_map_def fun_eq_iff)

lemma pages_gone_trans: "pages_gone m m' A \<Longrightarrow> pages_gone m' m'' B \<Longrightarrow> pages_gone m m'' (A \<union> B)"
  using freed_trans [of m m' A m'' B] by (auto simp: pages_gone_def restrict_map_def fun_eq_iff)

lemma pages_gone_fold:
  assumes "\<And>x s. x \<in> set xs \<Longrightarrow> heap_ok (heap s) \<Longrightarrow> tables s = tables m \<Longrightarrow> dirs s = dirs m \<Longrightarrow>
      pages_gone s (f x s) (A x)"
  shows "pages_gone m s B \<Longrightarrow> pages_gone m (fold f xs s) (B \<union> (\<Union>x \<in> set xs. A x))"
  using assms
proof (induction xs arbitrary: s B)
  case (Cons x xs)
  have "heap_ok (heap s)" "tables s = tables m" "dirs s = dirs m"
    using Cons.prems(1) by (auto simp: pages_gone_def freed_def)
  then have "pages_gone m (f x s) (B \<union> A x)"
    using pages_gone_trans [OF Cons.prems(1)] Cons.prems(2) [of x s] by simp
  from Cons.IH [OF this] Cons.prems(2) show ?case by (simp add: Un_assoc)
qed simp

lemma pages_gone_refl: "heap_ok (heap s) \<Longrightarrow> pages_gone s s {}"
  using freed_refl [of s] by (simp add: pages_gone_def)

definition table_frames :: "'a mm_state_scheme \<Rightarrow> u32 \<Rightarrow> nat set \<Rightarrow> u32 set" where
  "table_frames m t js = {frame (entry_get m t j) | j. j \<in> js \<and> entry_get m t j AND IS_PRESENT \<noteq> 0}"

lemma free_table_pages:
  fixes m s :: "'a mm_state_scheme"
  assumes "heap_ok (heap s)" "tables s = tables m"
  shows "pages_gone s (fold (\<lambda>i m. if entry_get m table i AND IS_PRESENT \<noteq> 0
      then free_page m (frame (entry_get m table i)) else m) xs s) (table_frames m table (set xs))"
proof -
  let ?f = "\<lambda>i m. if entry_get m table i AND IS_PRESENT \<noteq> 0
      then free_page m (frame (entry_get m table i)) else m"
  let ?A = "\<lambda>i. if entry_get m table i AND IS_PRESENT \<noteq> 0 then {frame (entry_get m table i)} else {}"
  have step: "pages_gone s' (?f i s') (?A i)"
    if "heap_ok (heap s')" "tables s' = tables s" for s' :: "'a mm_state_scheme" and i
  proof -
    have "entry_get s' = entry_get m" using that(2) assms(2) by (simp add: entry_get_def fun_eq_iff)
    then show ?thesis
      using pages_gone_refl [OF that(1)] pages_gone_free_page [OF that(1)] by simp
  qed
  have "pages_gone s (fold ?f xs s) ({} \<union> (\<Union>x \<in> set xs. ?A x))"
    by (rule pages_gone_fold) (rule step, assumption, assumption, rule pages_gone_refl [OF assms(1)])
  moreover have "(\<Union>x \<in> set xs. ?A x) = table_frames m table (set xs)"
    by (auto simp: table_frames_def)
  ultimately show ?thesis by simp
qed

lemma task_free_user_pages_gone:
  fixes m :: "'a mm_state_scheme"
  assumes ok: "mm_ok m U" "d \<in> U"
  shows "pages_gone m (task_free_user_pages m d) (frames_of m d)"
proof -
  obtain pd where pd: "dirs m d = Some pd" "\<And>i. i < 16 \<Longrightarrow> utab m d i = user_tables pd ! i"
    using space_okD [OF mm_okD(2) [OF ok]] by metis
  have h: "heap_ok (heap m)" using ok by (simp add: mm_ok_def mm_base_def)
  define slots where "slots = [0..<1024]"
  define ts where "ts = [0..<16]"
  let ?f = "\<lambda>t m. let table = user_tables pd ! t
           in if table = 0 then m
              else fold (\<lambda>i m. if entry_get m table i AND IS_PRESENT \<noteq> 0
                               then free_page m (frame (entry_get m table i)) else m) slots m"
  let ?A = "\<lambda>t. if utab m d t = 0 then {} else table_frames m (utab m d t) (set slots)"
  have step: "pages_gone s (?f t s) (?A t)"
    if t: "t \<in> set ts" and s: "heap_ok (heap s)" "tables s = tables m" for s :: "'a mm_state_scheme" and t
  proof -
    have "user_tables pd ! t = utab m d t" using t pd(2) by (simp add: ts_def)
    then show ?thesis
      using pages_gone_refl [OF s(1)] free_table_pages [OF s] by (simp add: Let_def)
  qed
  have "pages_gone m (fold ?f ts m) ({} \<union> (\<Union>t \<in> set ts. ?A t))"
    by (rule pages_gone_fold) (rule step, assumption+, rule pages_gone_refl [OF h])
  moreover have "(\<Union>t \<in> set ts. ?A t) = frames_of m d"
  proof (rule set_eqI)
    fix x
    have "x \<in> (\<Union>t \<in> set ts. ?A t) \<longleftrightarrow>
      (\<exists>t<16. \<exists>j<1024. utab m d t \<noteq> 0 \<and> entry_get m (utab m d t) j AND IS_PRESENT \<noteq> 0 \<and> x = frame (entry_get m (utab m d t) j))"
      by (auto simp: table_frames_def ts_def slots_def)
    also have "\<dots> \<longleftrightarrow> x \<in> frames_of m d"
      by (auto simp: frames_of_def present_def upte_def)
    finally show "x \<in> (\<Union>t \<in> set ts. ?A t) \<longleftrightarrow> x \<in> frames_of m d" .
  qed
  ultimately show ?thesis
    unfolding task_free_user_pages_def pd(1) option.case slots_def [symmetric] ts_def [symmetric] by simp
qed

lemma mm_ok_fewer:
  assumes ok: "mm_ok m U" and sub: "U' \<subseteq> U" and b: "mm_base m'"
    and d: "\<And>d. d \<in> U' \<Longrightarrow> dirs m' d = dirs m d" "\<And>d i. d \<notin> U' \<Longrightarrow> utab m' d i = 0"
    and t: "\<And>d. d \<in> U' \<Longrightarrow> tables m' (udir m d) = tables m (udir m d)"
      "\<And>d i. d \<in> U' \<Longrightarrow> i < 16 \<Longrightarrow> utab m d i \<noteq> 0 \<Longrightarrow> tables m' (utab m d i) = tables m (utab m d i)"
    and p: "\<And>d i j. d \<in> U' \<Longrightarrow> present m d i j \<Longrightarrow>
      upages m' (frame (upte m d i j)) = upages m (frame (upte m d i j))"
  shows "mm_ok m' U' \<and> (\<forall>d \<in> U'. uload m' d = uload m d)"
proof -
  have u: "udir m' d = udir m d" "utab m' d = utab m d" if "d \<in> U'" for d
    using d(1) [OF that] by (simp_all add: udir_def utab_def fun_eq_iff)
  have up: "upte m' d = upte m d" if "d \<in> U'" for d
  proof (intro ext)
    fix i j
    show "upte m' d i j = upte m d i j"
      using t(2) [OF that, of i] u(2) [OF that] utab_ge [of i m d]
      by (cases "i < 16") (auto simp: upte_def entry_get_def)
  qed
  have pr: "present m' d = present m d" if "d \<in> U'" for d
    using up [OF that] by (simp add: present_def fun_eq_iff)
  have "space_ok m' d" if "d \<in> U'" for d
  proof -
    have sp: "space_ok m d" using ok sub that by (auto simp: mm_ok_def)
    have "(\<exists>pg. upages m' (frame (upte m d i j)) = Some pg \<and> length pg = 4096)
       \<and> upte m d i j AND ACCESS_ALL \<noteq> 0" if a: "present m d i j" for i j
      using sp a p [OF \<open>d \<in> U'\<close> a] unfolding space_ok_def by simp
    moreover have "table_len m' (udir m d)" "entry_get m' (udir m d) = entry_get m (udir m d)"
      using sp t(1) [OF that] by (simp_all add: space_ok_def table_len_def entry_get_def fun_eq_iff)
    moreover have "table_len m' (utab m d i)" if "i < 16" "utab m d i \<noteq> 0" for i
      using sp t(2) [OF \<open>d \<in> U'\<close> that] that by (simp add: space_ok_def table_len_def)
    ultimately show ?thesis
      using sp unfolding space_ok_def u [OF that] up [OF that] pr [OF that] d(1) [OF that] by simp
  qed
  moreover have "tables_inj m' U'"
    unfolding tables_inj_def
  proof (intro conjI ballI allI impI)
    have ti: "tables_inj m U" using ok by (simp add: mm_ok_def disjoint_spaces_def)
    fix d1 assume d1: "d1 \<in> U'"
    have nz: "udir m d1 \<noteq> 0"
    proof -
      have "table_len m (udir m d1)" using ok sub d1 by (auto simp: mm_ok_def space_ok_def)
      then show ?thesis
        using ok tables_0 [of m] by (auto simp: mm_ok_def table_len_def)
    qed
    show "utab m' d2 i \<noteq> udir m' d1" for d2 i
      using ti d1 sub d(2) u nz unfolding tables_inj_def by (cases "d2 \<in> U'") (metis subsetD)+
    fix d2 assume d2: "d2 \<in> U'"
    show "udir m' d1 = udir m' d2 \<Longrightarrow> d1 = d2"
      using ti d1 d2 sub unfolding tables_inj_def u(1) [OF d1] u(1) [OF d2] by blast
    fix i1 i2 assume "i1 < 16" "i2 < 16" "utab m' d1 i1 \<noteq> 0 \<and> utab m' d1 i1 = utab m' d2 i2"
    then show "d1 = d2" "i1 = i2"
      using ti d1 d2 sub unfolding tables_inj_def u(2) [OF d1] u(2) [OF d2] by blast+
  qed
  moreover have "frames_inj m' U'"
  proof (rule frames_inj_cong [of m])
    show "frames_inj m U'" using ok sub unfolding mm_ok_def disjoint_spaces_def frames_inj_def by blast
  qed (simp_all add: up pr)
  moreover have "uload m' d = uload m d" if "d \<in> U'" for d
    using p [OF that] by (auto simp: uload_def fun_eq_iff up [OF that] pr [OF that])
  ultimately show ?thesis using b d(2) by (simp add: mm_ok_def disjoint_spaces_def)
qed

text \<open>Freeing tables: the user tables, the directory table, then the directory.\<close>

lemma free_tables_fold:
  assumes "heap_ok (heap m)" "tables m 0 = None"
  shows "let m' = fold (\<lambda>i s. free_table s (f i)) is m in
    freed m m' (f ` set is - {0}) \<and> tables m' = (tables m) |` (- (f ` set is)) \<and> dirs m' = dirs m \<and> upages m' = upages m"
  using assms
proof (induction "is" arbitrary: m)
  case Nil
  then show ?case by (simp add: freed_refl)
next
  case (Cons i "is")
  let ?m = "free_table m (f i)"
  have f: "freed m ?m ({f i} - {0})"
    using freed_kfree [OF Cons.prems(1), of ?m "f i"] freed_refl [OF Cons.prems(1)]
    by (cases "f i = 0") (simp_all add: free_table_def kfree_def freed_def)
  have h: "heap_ok (heap ?m)" "tables ?m 0 = None"
    using f Cons.prems(2) by (simp_all add: freed_def free_table_def)
  have eq: "tables ?m = (tables m) |` (- {f i})" "dirs ?m = dirs m" "upages ?m = upages m"
    by (auto simp: free_table_def restrict_map_def fun_eq_iff)
  have un: "f ` set (i # is) - {0} = ({f i} - {0}) \<union> (f ` set is - {0})" by auto
  show ?case
    using Cons.IH [OF h] freed_trans [OF f] eq unfolding un Let_def
    by (auto simp: restrict_map_def fun_eq_iff)
qed

lemma mm_base_removed:
  assumes b: "mm_base m" and fr: "freed m m' A"
    and t: "\<And>p. tables m' p \<noteq> None \<Longrightarrow> tables m p \<noteq> None \<and> p \<notin> A"
    and d: "\<And>p. dirs m' p \<noteq> None \<Longrightarrow> dirs m p \<noteq> None \<and> p \<notin> A"
    and u: "\<And>p. upages m' p \<noteq> None \<Longrightarrow> upages m p \<noteq> None \<and> p \<notin> A"
  shows "mm_base m'"
proof -
  have lv: "p \<notin> A \<Longrightarrow> live (heap m') p = live (heap m) p" for p
    using fr by (simp add: freed_def)
  have "backed (\<lambda>p. live (heap m') p \<noteq> None) (tables m')" using b t lv unfolding mm_base_def backed_def by (metis domIff)
  moreover have "backed (\<lambda>p. live (heap m') p \<noteq> None) (dirs m')" using b d lv unfolding mm_base_def backed_def by (metis domIff)
  moreover have "backed (\<lambda>p. live (heap m') p \<noteq> None) (upages m')" using b u lv unfolding mm_base_def backed_def by (metis domIff)
  moreover have "dom (tables m') \<subseteq> dom (tables m)" "dom (dirs m') \<subseteq> dom (dirs m)" "dom (upages m') \<subseteq> dom (upages m)"
    using t d u by auto
  moreover have "dom (tables m) \<inter> dom (dirs m) = {}" "dom (tables m) \<inter> dom (upages m) = {}"
    "dom (dirs m) \<inter> dom (upages m) = {}" using b unfolding mm_base_def by blast+
  moreover have "heap_ok (heap m')" "aligned (h_addr (heap m'))" using b fr by (simp_all add: mm_base_def freed_def)
  ultimately show ?thesis unfolding mm_base_def by blast
qed

definition task_free_space :: "'a mm_state_scheme \<Rightarrow> u32 \<Rightarrow> 'a mm_state_scheme" where
  "task_free_space m d = page_dir_free_user (task_free_user_pages m d) d"

lemma task_free_space_ok:
  assumes ok: "mm_ok m U" "d \<in> U"
  shows "mm_ok (task_free_space m d) (U - {d})"
    "\<And>d'. d' \<in> U - {d} \<Longrightarrow> uload (task_free_space m d) d' = uload m d'"
    "dirs (task_free_space m d) = (dirs m)(d := None)"
    "t \<noteq> udir m d \<Longrightarrow> \<forall>i. utab m d i \<noteq> t \<Longrightarrow> tables (task_free_space m d) t = tables m t"
proof -
  have b: "mm_base m" using ok by (simp add: mm_ok_def)
  obtain pd where pd: "dirs m d = Some pd" "length (user_tables pd) = 16"
      "table_len m (udir m d)" "udir m d = dir_entry pd" "\<And>i. i < 16 \<Longrightarrow> utab m d i = user_tables pd ! i"
    using space_okD [OF mm_okD(2) [OF ok]] by metis
  define ts where "ts = [0..<16]"
  let ?F = "frames_of m d" and ?T = "(\<lambda>i. user_tables pd ! i) ` set ts"
  have T: "x \<in> ?T \<Longrightarrow> \<exists>i<16. x = utab m d i" for x using pd(5) by (force simp: ts_def)
  define m1 where "m1 = task_free_user_pages m d"
  have g: "freed m m1 ?F" "tables m1 = tables m" "dirs m1 = dirs m" "upages m1 = (upages m) |` (- ?F)"
    using task_free_user_pages_gone [OF ok] by (simp_all add: pages_gone_def m1_def)
  define m2 where "m2 = fold (\<lambda>i s. free_table s (user_tables pd ! i)) ts m1"
  have h1: "heap_ok (heap m1)" using g(1) by (simp add: freed_def)
  have t0: "tables m 0 = None" using tables_0 [OF b] .
  have m2: "freed m1 m2 (?T - {0})" "tables m2 = (tables m) |` (- ?T)" "dirs m2 = dirs m" "upages m2 = upages m1"
    using free_tables_fold [OF h1, of "\<lambda>i. user_tables pd ! i" ts] t0 g
    by (simp_all add: m2_def Let_def)
  define m3 where "m3 = free_table m2 (dir_entry pd)"
  define m4 where "m4 = free_dir m3 d"
  have eq: "task_free_space m d = m4"
    by (simp add: task_free_space_def page_dir_free_user_def m1_def [symmetric] g(3) pd(1) m2_def m3_def m4_def
        Let_def ts_def [symmetric])
  have h2: "heap_ok (heap m2)" using m2(1) by (simp add: freed_def)
  have f3: "freed m2 m3 {dir_entry pd}" using freed_kfree [OF h2] by (simp add: m3_def free_table_def)
  then have h3: "heap_ok (heap m3)" by (simp add: freed_def)
  have f4: "freed m3 m4 {d}" using freed_kfree [OF h3] by (simp add: m4_def free_dir_def)
  have fr: "freed m m4 (?F \<union> (?T - {0}) \<union> {dir_entry pd} \<union> {d})"
    using freed_trans [OF freed_trans [OF freed_trans [OF g(1) m2(1)] f3] f4] .
  have v: "tables m4 = (tables m) |` (- (?T \<union> {dir_entry pd}))" "dirs m4 = (dirs m)(d := None)"
    "upages m4 = (upages m) |` (- ?F)"
    using m2 g by (auto simp: m4_def m3_def free_table_def free_dir_def restrict_map_def fun_eq_iff)
  show "dirs (task_free_space m d) = (dirs m)(d := None)" by (simp add: eq v(2))
  show "tables (task_free_space m d) t = tables m t" if "t \<noteq> udir m d" "\<forall>i. utab m d i \<noteq> t"
  proof -
    have "t \<notin> ?T" using T [of t] that(2) by metis
    then show ?thesis using that(1) pd(4) by (simp add: eq v(1) restrict_map_def)
  qed
  have doms: "dir_entry pd \<in> dom (tables m)" "d \<in> dom (dirs m)" "?F \<subseteq> dom (upages m)" "?T - {0} \<subseteq> dom (tables m)"
  proof -
    show "dir_entry pd \<in> dom (tables m)" "d \<in> dom (dirs m)" using pd by (auto simp: table_len_def)
    show "?F \<subseteq> dom (upages m)" unfolding frames_of_def using present_page(1) [OF ok] by blast
    show "?T - {0} \<subseteq> dom (tables m)"
    proof
      fix x assume "x \<in> ?T - {0}"
      then obtain i where i: "i < 16" "x = utab m d i" "x \<noteq> 0" using T by blast
      then have "table_len m x" using mm_okD(2) [OF ok] by (simp add: space_ok_def)
      then show "x \<in> dom (tables m)" by (auto simp: table_len_def)
    qed
  qed
  have disj: "dom (tables m) \<inter> dom (dirs m) = {}" "dom (tables m) \<inter> dom (upages m) = {}"
    "dom (dirs m) \<inter> dom (upages m) = {}"
    using b unfolding mm_base_def by blast+
  have dj: "tables m x \<noteq> None \<Longrightarrow> dirs m x = None \<and> upages m x = None" "dirs m x \<noteq> None \<Longrightarrow> upages m x = None"
    "x \<in> ?F \<Longrightarrow> upages m x \<noteq> None" "x \<in> ?T \<Longrightarrow> x \<noteq> 0 \<Longrightarrow> tables m x \<noteq> None" for x
    using disj doms(3,4) by (auto simp: disjoint_iff)
  have dj0: "tables m (dir_entry pd) \<noteq> None" "dirs m d \<noteq> None" using doms(1,2) by auto
  have base: "mm_base m4"
  proof (rule mm_base_removed [OF b fr])
    fix p
    show "tables m p \<noteq> None \<and> p \<notin> ?F \<union> (?T - {0}) \<union> {dir_entry pd} \<union> {d}" if "tables m4 p \<noteq> None"
    proof -
      have "p \<in> dom (tables m)" "p \<notin> ?T" "p \<noteq> dir_entry pd"
        using that v(1) by (auto simp: restrict_map_def split: if_splits)
      then show ?thesis using dj [of p] dj0 by (metis DiffE UnE domIff singletonD singletonI)
    qed
    show "dirs m p \<noteq> None \<and> p \<notin> ?F \<union> (?T - {0}) \<union> {dir_entry pd} \<union> {d}" if "dirs m4 p \<noteq> None"
    proof -
      have "p \<in> dom (dirs m)" "p \<noteq> d" using that v(2) by (auto split: if_splits)
      then show ?thesis using dj [of p] dj0 by (metis DiffE UnE domIff singletonD singletonI)
    qed
    show "upages m p \<noteq> None \<and> p \<notin> ?F \<union> (?T - {0}) \<union> {dir_entry pd} \<union> {d}" if "upages m4 p \<noteq> None"
    proof -
      have "p \<in> dom (upages m)" "p \<notin> ?F" using that v(3) by (auto simp: restrict_map_def split: if_splits)
      then show ?thesis using dj [of p] dj0 by (metis DiffE UnE domIff singletonD singletonI)
    qed
  qed
  have ti: "tables_inj m U" "frames_inj m U" using mm_okD(3) [OF ok] by (simp_all add: disjoint_spaces_def)
  have "mm_ok m4 (U - {d}) \<and> (\<forall>d' \<in> U - {d}. uload m4 d' = uload m d')"
  proof (rule mm_ok_fewer [OF ok(1) _ base])
    show "dirs m4 d' = dirs m d'" if "d' \<in> U - {d}" for d' using that v(2) by simp
    show "utab m4 d' i = 0" if d': "d' \<notin> U - {d}" for d' i
    proof (cases "d' = d")
      case False
      then have "utab m d' i = 0" using d' ok(1) by (simp add: mm_ok_def)
      then show ?thesis using False by (simp add: utab_def v(2))
    qed (simp add: utab_def v(2))
    show "tables m4 (udir m d') = tables m (udir m d')" if d': "d' \<in> U - {d}" for d'
    proof -
      have "udir m d' \<noteq> dir_entry pd" using tables_injD(1) [OF ti(1), of d' d] d' ok(2) pd(4) by auto
      moreover have "udir m d' \<notin> ?T"
      proof
        assume "udir m d' \<in> ?T"
        then obtain i' where "utab m d i' = udir m d'" using T by metis
        then show False using tables_injD(2) [OF ti(1), of d' d i'] d' by simp
      qed
      ultimately show ?thesis by (simp add: v(1) restrict_map_def)
    qed
    show "tables m4 (utab m d' i) = tables m (utab m d' i)" if d': "d' \<in> U - {d}" and i: "i < 16" "utab m d' i \<noteq> 0" for d' i
    proof -
      have "utab m d' i \<noteq> dir_entry pd" using tables_injD(2) [OF ti(1) ok(2)] pd(4) by simp
      moreover have "utab m d' i \<notin> ?T"
      proof
        assume "utab m d' i \<in> ?T"
        then obtain i' where "i' < 16" "utab m d' i = utab m d i'" using T by blast
        then show False using tables_injD(3) [OF ti(1), of d' d i i'] d' i ok(2) by simp
      qed
      ultimately show ?thesis by (simp add: v(1) restrict_map_def)
    qed
    show "upages m4 (frame (upte m d' i j)) = upages m (frame (upte m d' i j))"
      if d': "d' \<in> U - {d}" and a: "present m d' i j" for d' i j
    proof -
      have "frame (upte m d' i j) \<notin> ?F"
        using frames_injD [OF ti(2), of d' d i j] d' a ok(2) unfolding frames_of_def by auto
      then show ?thesis by (simp add: v(3) restrict_map_def)
    qed
  qed blast
  then show "mm_ok (task_free_space m d) (U - {d})"
    "\<And>d'. d' \<in> U - {d} \<Longrightarrow> uload (task_free_space m d) d' = uload m d'"
    unfolding eq by blast+
qed

section \<open>Programs come and go\<close>

text \<open>What an operation on the space \<open>d\<close> does to the tables and directories of others: nothing.\<close>

definition only_space :: "'a mm_state_scheme \<Rightarrow> 'a mm_state_scheme \<Rightarrow> u32 \<Rightarrow> bool" where
  "only_space m m' d \<longleftrightarrow> dom (tables m) \<subseteq> dom (tables m') \<and> udir m' d = udir m d
     \<and> (\<forall>d'. d' \<noteq> d \<longrightarrow> dirs m' d' = dirs m d')
     \<and> (\<forall>t. t \<in> dom (tables m) \<longrightarrow> t \<noteq> udir m d \<longrightarrow> (\<forall>i. utab m d i \<noteq> t) \<longrightarrow> tables m' t = tables m t)
     \<and> (\<forall>i. utab m' d i \<noteq> utab m d i \<longrightarrow> utab m' d i \<notin> dom (tables m))"

lemma only_space_refl [simp]: "only_space m m d"
  by (simp add: only_space_def)

lemma only_spaceD:
  assumes "only_space m m' d"
  shows "t \<in> dom (tables m) \<Longrightarrow> t \<in> dom (tables m')" "udir m' d = udir m d" "d' \<noteq> d \<Longrightarrow> dirs m' d' = dirs m d'"
    "t \<in> dom (tables m) \<Longrightarrow> t \<noteq> udir m d \<Longrightarrow> \<forall>i. utab m d i \<noteq> t \<Longrightarrow> tables m' t = tables m t"
    "utab m' d i = utab m d i \<or> utab m' d i \<notin> dom (tables m)"
  using assms unfolding only_space_def by blast+

lemma only_space_trans:
  assumes a: "only_space m m1 d" and b: "only_space m1 m2 d"
  shows "only_space m m2 d"
proof -
  have "tables m2 t = tables m t" if t: "t \<in> dom (tables m)" "t \<noteq> udir m d" "\<forall>i. utab m d i \<noteq> t" for t
  proof -
    have "utab m1 d i \<noteq> t" for i using only_spaceD(5) [OF a, of i] t(1,3) by metis
    then show ?thesis
      using only_spaceD(4) [OF b, of t] only_spaceD(1,4) [OF a] only_spaceD(2) [OF a] t by simp
  qed
  moreover have "utab m2 d i = utab m d i \<or> utab m2 d i \<notin> dom (tables m)" for i
    using only_spaceD(5) [OF a, of i] only_spaceD(5) [OF b, of i] only_spaceD(1) [OF a] by metis
  moreover have "dom (tables m) \<subseteq> dom (tables m2)" using only_spaceD(1) [OF a] only_spaceD(1) [OF b] by blast
  moreover have "udir m2 d = udir m d" "\<forall>d'. d' \<noteq> d \<longrightarrow> dirs m2 d' = dirs m d'"
    using only_spaceD(2,3) [OF a] only_spaceD(2,3) [OF b] by simp_all
  ultimately show ?thesis unfolding only_space_def by blast
qed

lemma only_space_entry:
  assumes "\<exists>j. t = utab m d j \<or> t = udir m d"
  shows "only_space m (entry_set m t i v) d"
  using assms by (auto simp: only_space_def entry_set_def utab_def udir_def dom_def)

lemma only_space_user_entry:
  assumes ok: "mm_ok m U" "d \<in> U" and e: "page_dir_user_entry m d va create = (m', r)"
  shows "only_space m m' d" "r = Some (t, i) \<Longrightarrow> \<exists>j. t = utab m' d j"
proof -
  show "r = Some (t, i) \<Longrightarrow> \<exists>j. t = utab m' d j" using page_dir_user_entry_spec(5) [OF ok e] by blast
  obtain pd where pd: "dirs m d = Some pd" "udir m d = dir_entry pd" "length (user_tables pd) = 16"
    using space_okD [OF mm_okD(2) [OF ok]] by metis
  obtain m1 p where c: "calloc_table m = (m1, p)" by fastforce
  show "only_space m m' d"
  proof (rule calloc_table_cases [OF mm_okD(1) [OF ok] c])
    assume "p = 0" "m1 = m"
    then show ?thesis using e pd c by (auto simp: page_dir_user_entry_def Let_def split: if_splits)
  next
    fix h assume p: "p \<noteq> 0" "m1 = m\<lparr>heap := h, tables := (tables m)(p \<mapsto> replicate 1024 0)\<rparr>" "tables m p = None"
    let ?link = "\<lambda>idx. entry_set (m1\<lparr>dirs := (dirs m1)(d \<mapsto> pd\<lparr>user_tables := (user_tables pd)[idx := p]\<rparr>)\<rparr>)
      (dir_entry pd) (unat (user_start pd div TABLE_SPAN) + idx) (p OR IS_PRESENT OR IS_WRITABLE OR ACCESS_ALL)"
    have "only_space m (?link idx) d" for idx
      using p pd by (cases "idx < 16")
        (auto simp: only_space_def entry_set_def utab_def udir_def dom_def nth_list_update list_update_beyond split: if_splits)
    moreover have "m' = m \<or> (\<exists>idx. m' = ?link idx)"
      using e pd c p(1) unfolding page_dir_user_entry_def by (auto simp: Let_def split: if_splits)
    ultimately show ?thesis by auto
  qed
qed

lemma only_space_user_page:
  assumes ok: "mm_ok m U" "d \<in> U" and e: "task_user_page m d va w = (m', page)"
  shows "only_space m m' d"
proof -
  obtain m1 r where u: "page_dir_user_entry m d va True = (m1, r)" by fastforce
  note ok1 = page_dir_user_entry_spec(1) [OF ok u] and o1 = only_space_user_entry [OF ok u]
  show ?thesis
  proof (cases r)
    case None
    then show ?thesis using e u o1(1) by (auto simp: task_user_page_def)
  next
    case (Some ti)
    obtain t i where ti: "r = Some (t, i)" using Some by (cases ti) auto
    obtain j where t: "t = utab m1 d j" using o1(2) [OF ti] by blast
    have set: "only_space s (entry_set s t i v) d" if "dirs s = dirs m1" for s v
    proof (rule only_space_entry)
      have "utab s d j = t" using t that by (simp add: utab_def)
      then show "\<exists>j. t = utab s d j \<or> t = udir s d" by blast
    qed
    obtain m2 p where c: "calloc_page m1 = (m2, p)" by fastforce
    have m2: "only_space m1 m2 d" "dirs m2 = dirs m1"
      using c by (auto simp: calloc_page_def only_space_def utab_def udir_def split: prod.splits if_splits)
    define m3 where "m3 = (if entry_get m1 t i AND IS_PRESENT = 0 \<and> p \<noteq> 0 then entry_set m2 t i (p OR IS_PRESENT OR ACCESS_ALL)
        else if entry_get m1 t i AND IS_PRESENT = 0 then m2 else m1)"
    have m3: "only_space m1 m3 d" "dirs m3 = dirs m1"
      using m2 set [OF m2(2)] only_space_trans [OF m2(1)] by (auto simp: m3_def)
    have "m' = m3 \<or> (\<exists>v. m' = entry_set m3 t i v)"
      using e c by (auto simp: task_user_page_def u ti m3_def Let_def split: if_splits)
    then have "only_space m1 m' d" using m3 set [OF m3(2)] only_space_trans [OF m3(1)] by auto
    then show ?thesis by (rule only_space_trans [OF o1(1)])
  qed
qed

lemma only_space_copy:
  "mm_ok m U \<Longrightarrow> d \<in> U \<Longrightarrow> src_fits src len \<Longrightarrow> task_copy_to_user m d va src len w = (m', res) \<Longrightarrow> only_space m m' d"
proof (induction m d va src len w rule: task_copy_to_user.induct)
  case (1 m d va src len w)
  show ?case
  proof (cases "len = 0")
    case True
    then show ?thesis using "1.prems"(4) by (simp add: task_copy_to_user.simps [of m])
  next
    case False
    obtain m1 page where u: "task_user_page m d va w = (m1, page)" by fastforce
    note o1 = only_space_user_page [OF "1.prems"(1,2) u]
    show ?thesis
    proof (cases "page = 0")
      case True
      then show ?thesis using "1.prems"(4) u False o1 by (simp add: task_copy_to_user.simps [of m])
    next
      case pnz: False
      let ?off = "unat (va mod PAGE_SIZE)" and ?n = "min (4096 - unat (va mod PAGE_SIZE)) len"
      let ?m2 = "case src of Some bs \<Rightarrow> write_page m1 page ?off (take ?n bs) | None \<Rightarrow> m1"
      have n: "?n \<le> 4096 - ?off" "?n \<le> len" by simp_all
      note c = copy_chunk [OF "1.prems"(1,2) u pnz refl n "1.prems"(3) refl]
      have rec: "task_copy_to_user ?m2 d (va + word_of_nat ?n) (map_option (drop ?n) src) (len - ?n) w = (m', res)"
        using "1.prems"(4) u False pnz by (simp add: task_copy_to_user.simps [of m] Let_def)
      have fits: "src_fits (map_option (drop ?n) src) (len - ?n)"
        using "1.prems"(3) by (auto simp: src_fits_def split: option.splits)
      have "only_space m1 ?m2 d"
        by (auto simp: write_page_def only_space_def utab_def udir_def split: option.split)
      moreover have "only_space ?m2 m' d"
        by (rule "1.IH" [OF False u [symmetric] refl pnz refl refl refl c(2) "1.prems"(2) fits rec])
      ultimately show ?thesis using only_space_trans o1 by blast
    qed
  qed
qed

text \<open>The kernel directory is none of the user directories, and its table none of their tables.\<close>

definition kernel_apart :: "'a mm_state_scheme \<Rightarrow> u32 \<Rightarrow> u32 set \<Rightarrow> bool" where
  "kernel_apart m k U \<longleftrightarrow> kernel_dir_ok m k \<and> k \<notin> U
     \<and> (\<forall>d \<in> U. udir m d \<noteq> udir m k \<and> (\<forall>i. utab m d i \<noteq> udir m k))"

lemma kernel_dir_same:
  assumes "kernel_dir_ok m k" "dirs m' k = dirs m k" "tables m' (udir m k) = tables m (udir m k)"
  shows "kernel_dir_ok m' k \<and> udir m' k = udir m k"
proof -
  have "udir m' k = udir m k" using assms(2) by (simp add: udir_def)
  then show ?thesis using assms by (auto simp: kernel_dir_ok_def table_len_def entry_get_def)
qed

lemma kernel_apart_only:
  assumes k: "kernel_apart m k U" and o: "only_space m m' d" and d: "d \<in> U"
  shows "kernel_apart m' k U"
proof -
  have K: "kernel_dir_ok m k" "k \<notin> U" "d \<noteq> k" "udir m k \<in> dom (tables m)"
    using k d by (auto simp: kernel_apart_def kernel_dir_ok_def table_len_def)
  have "dirs m' k = dirs m k" "tables m' (udir m k) = tables m (udir m k)"
    using o k d K unfolding only_space_def kernel_apart_def by metis+
  note S = kernel_dir_same [OF K(1) this]
  have "udir m' d' \<noteq> udir m k \<and> (\<forall>i. utab m' d' i \<noteq> udir m k)" if "d' \<in> U" for d'
  proof (cases "d' = d")
    case True
    then show ?thesis using o k d K(4) unfolding only_space_def kernel_apart_def by metis
  next
    case False
    then have "dirs m' d' = dirs m d'" using o by (simp add: only_space_def)
    then show ?thesis using k that by (simp add: kernel_apart_def udir_def utab_def)
  qed
  then show ?thesis using S K(2) by (simp add: kernel_apart_def)
qed

lemma new_user_views:
  assumes ok: "mm_ok m U" and k: "kernel_dir_ok m k" and e: "page_dir_new_user m k USER_CODE_ADDR = (m', d)"
  shows "d \<noteq> 0 \<Longrightarrow> dirs m d = None \<and> (\<forall>d'. d' \<noteq> d \<longrightarrow> dirs m' d' = dirs m d')
      \<and> udir m' d \<notin> dom (tables m) \<and> (\<forall>i. utab m' d i = 0)"
    "d = 0 \<Longrightarrow> mm_base m' \<and> dirs m' = dirs m \<and> tables m' = tables m \<and> upages m' = upages m"
proof -
  have b: "mm_base m" using ok by (simp add: mm_ok_def)
  obtain m1 d1 where c1: "calloc_dir m = (m1, d1)" by fastforce
  obtain m2 de where c2: "calloc_table m1 = (m2, de)" by fastforce
  have d0: "d = 0 \<longleftrightarrow> d1 = 0 \<or> de = 0"
    using e c1 c2 by (auto simp: page_dir_new_user_def Let_def split: if_splits)
  have b1: "mm_base m1" by (rule calloc_dir_cases [OF b c1]) (use b in auto)
  show "dirs m d = None \<and> (\<forall>d'. d' \<noteq> d \<longrightarrow> dirs m' d' = dirs m d') \<and> udir m' d \<notin> dom (tables m) \<and> (\<forall>i. utab m' d i = 0)"
    if nz: "d \<noteq> 0"
  proof -
    have n: "d1 \<noteq> 0" "de \<noteq> 0" using nz d0 by auto
    obtain h1 where a1: "m1 = m\<lparr>heap := h1, dirs := (dirs m)(d1 \<mapsto>
         \<lparr>dir_entry = 0, user_tables = replicate USER_SPACE_TABLES 0, user_start = 0\<rparr>)\<rparr>" "dirs m d1 = None"
      using calloc_dir_cases [OF b c1] n(1) by metis
    obtain h2 where a2: "m2 = m1\<lparr>heap := h2, tables := (tables m1)(de \<mapsto> replicate 1024 0)\<rparr>" "tables m1 de = None"
      using calloc_table_cases [OF b1 c2] n(2) by metis
    have r: "d = d1" "\<exists>es st. m' = m2\<lparr>tables := (tables m2)(de \<mapsto> es),
        dirs := (dirs m2)(d1 \<mapsto> \<lparr>dir_entry = de, user_tables = replicate USER_SPACE_TABLES 0, user_start = st\<rparr>)\<rparr>"
      using e c1 c2 n by (auto simp: page_dir_new_user_def Let_def simp del: upt_rec_numeral)
    then show ?thesis using a1 a2 by (auto simp: udir_def utab_def)
  qed
  show "mm_base m' \<and> dirs m' = dirs m \<and> tables m' = tables m \<and> upages m' = upages m" if z: "d = 0"
  proof -
    have m': "m' = free_table (free_dir m2 d1) de"
      using e c1 c2 z d0 by (auto simp: page_dir_new_user_def Let_def split: if_splits)
    define m3 where "m3 = free_dir m2 d1"
    have t0: "tables m 0 = None" "tables m1 0 = None" using tables_0 b b1 by blast+
    have d00: "dirs m 0 = None"
      by (rule backed_None [where own = "\<lambda>p. live (heap m) p \<noteq> None"]) (use b in \<open>simp_all add: mm_base_def not_live_0\<close>)
    have b2: "mm_base m2" by (rule calloc_table_cases [OF b1 c2]) (use b1 in auto)
    then have h: "heap_ok (heap m2)" by (simp add: mm_base_def)
    have v: "dirs m2 = dirs m1 \<and> upages m2 = upages m1 \<and> (tables m2)(de := None) = tables m1"
      by (rule calloc_table_cases [OF b1 c2]) (use t0 in \<open>auto simp: fun_eq_iff\<close>)
    have v1: "(dirs m1)(d1 := None) = dirs m \<and> upages m1 = upages m \<and> tables m1 = tables m"
      by (rule calloc_dir_cases [OF b c1]) (use d00 in \<open>auto simp: fun_eq_iff\<close>)
    have views: "dirs m' = dirs m" "upages m' = upages m" "tables m' = tables m"
      using v v1 by (simp_all add: m' free_table_def free_dir_def)
    have f3: "freed m2 m3 {d1}" using freed_kfree [OF h] by (simp add: m3_def free_dir_def)
    have f4: "freed m3 m' {de}"
      using freed_kfree [of m3 m' de] f3 by (simp add: m' m3_def [symmetric] free_table_def freed_def)
    have sub: "dom (tables m) \<subseteq> dom (tables m2)" "dom (dirs m) \<subseteq> dom (dirs m2)" "dom (upages m) \<subseteq> dom (upages m2)"
    proof -
      have "tables m = (tables m2)(de := None)" "dirs m = (dirs m2)(d1 := None)" "upages m = upages m2"
        using v v1 by simp_all
      then show "dom (tables m) \<subseteq> dom (tables m2)" "dom (dirs m) \<subseteq> dom (dirs m2)" "dom (upages m) \<subseteq> dom (upages m2)"
        by auto
    qed
    have u0: "upages m 0 = None"
      by (rule backed_None [where own = "\<lambda>p. live (heap m) p \<noteq> None"]) (use b in \<open>simp_all add: mm_base_def not_live_0\<close>)
    have n1: "tables m d1 = None \<and> dirs m d1 = None \<and> upages m d1 = None"
      by (rule calloc_dir_cases [OF b c1]) (use t0 d00 u0 in auto)
    have "tables m1 de = None \<and> (de = 0 \<or> dirs m1 de = None) \<and> (de = 0 \<or> upages m1 de = None)"
      by (rule calloc_table_cases [OF b1 c2]) (use t0 in auto)
    moreover have "dirs m1 de = None \<Longrightarrow> dirs m de = None" using v1 by (metis fun_upd_apply)
    ultimately have n2: "tables m de = None \<and> dirs m de = None \<and> upages m de = None"
      using v1 d00 u0 by auto
    have "mm_base m'"
    proof (rule mm_base_removed [OF b2 freed_trans [OF f3 f4]])
      fix p
      show "tables m2 p \<noteq> None \<and> p \<notin> {d1} \<union> {de}" if "tables m' p \<noteq> None"
        using that sub(1) n1 n2 unfolding views(3) by auto
      show "dirs m2 p \<noteq> None \<and> p \<notin> {d1} \<union> {de}" if "dirs m' p \<noteq> None"
        using that sub(2) n1 n2 unfolding views(1) by auto
      show "upages m2 p \<noteq> None \<and> p \<notin> {d1} \<union> {de}" if "upages m' p \<noteq> None"
        using that sub(3) n1 n2 unfolding views(2) by auto
    qed
    then show ?thesis using views by blast
  qed
qed

text \<open>The states the kernel reaches from one without user spaces, and the directories in use there: programs start
  and end, their memory is mapped and filled, and in between the kernel takes and frees blocks of its heap for
  other purposes.\<close>

inductive spaces :: "u32 \<Rightarrow> 'a mm_state_scheme \<Rightarrow> 'a mm_state_scheme \<Rightarrow> u32 set \<Rightarrow> bool" for k m0 where
  no_space: "spaces k m0 m0 {}"
| new_space: "spaces k m0 m U \<Longrightarrow> page_dir_new_user m k USER_CODE_ADDR = (m', d) \<Longrightarrow>
    spaces k m0 m' (if d = 0 then U else insert d U)"
| map_entry: "spaces k m0 m U \<Longrightarrow> d \<in> U \<Longrightarrow> page_dir_user_entry m d va create = (m', r) \<Longrightarrow> spaces k m0 m' U"
| map_page: "spaces k m0 m U \<Longrightarrow> d \<in> U \<Longrightarrow> task_user_page m d va w = (m', page) \<Longrightarrow> spaces k m0 m' U"
| fill: "spaces k m0 m U \<Longrightarrow> d \<in> U \<Longrightarrow> src_fits src len \<Longrightarrow> task_copy_to_user m d va src len w = (m', res) \<Longrightarrow>
    spaces k m0 m' U"
| free_space: "spaces k m0 m U \<Longrightarrow> d \<in> U \<Longrightarrow> spaces k m0 (task_free_space m d) (U - {d})"
| kernel_alloc: "spaces k m0 m U \<Longrightarrow> spaces k m0 (m\<lparr>heap := fst (heap_malloc (heap m) n)\<rparr>) U"
| kernel_free: "spaces k m0 m U \<Longrightarrow> p \<notin> dom (tables m) \<union> dom (dirs m) \<union> dom (upages m) \<Longrightarrow>
    spaces k m0 (m\<lparr>heap := kfree (heap m) p\<rparr>) U"

lemma mm_base_heap:
  assumes b: "mm_base m" and h: "heap_ok h" "h_addr h = h_addr (heap m)"
    and l: "\<And>p. p \<in> dom (tables m) \<union> dom (dirs m) \<union> dom (upages m) \<Longrightarrow> live (heap m) p \<noteq> None \<Longrightarrow> live h p \<noteq> None"
  shows "mm_base (m\<lparr>heap := h\<rparr>)"
  using b h l by (auto simp: mm_base_def backed_def)

lemma mm_ok_same:
  assumes "mm_ok m U" "mm_base m'" "dirs m' = dirs m" "tables m' = tables m" "upages m' = upages m"
  shows "mm_ok m' U"
  by (rule mm_ok_cong(1) [OF assms(1,2)]) (simp_all add: assms utab_def)

lemma kernel_apart_same:
  assumes "kernel_apart m k U" "dirs m' = dirs m" "tables m' = tables m"
  shows "kernel_apart m' k U"
  using assms by (simp add: kernel_apart_def kernel_dir_ok_def table_len_def entry_get_def udir_def utab_def)

lemma spaces_ok:
  assumes "mm_ok m0 {}" "kernel_dir_ok m0 k" "spaces k m0 m U"
  shows "mm_ok m U \<and> kernel_apart m k U"
  using assms(3)
proof induction
  case no_space
  then show ?case using assms(1,2) by (simp add: kernel_apart_def)
next
  case (new_space m U m' d)
  have ok: "mm_ok m U" and ka: "kernel_apart m k U" using new_space.IH by auto
  have kd: "kernel_dir_ok m k" "k \<notin> U" using ka by (simp_all add: kernel_apart_def)
  have U: "U \<subseteq> dom (dirs m)" using ok by (auto simp: mm_ok_def space_ok_def)
  note V = new_user_views [OF ok kd(1) new_space.hyps(2)]
  show ?case
  proof (cases "d = 0")
    case True
    then show ?thesis using V(2) mm_ok_same [OF ok, of m'] kernel_apart_same [OF ka, of m'] by simp
  next
    case False
    note N = page_dir_new_user_spec [OF ok U kd new_space.hyps(2) False]
    have kin: "udir m k \<in> dom (tables m)" "k \<in> dom (dirs m)" using kd(1) by (auto simp: kernel_dir_ok_def table_len_def)
    have V1: "dirs m d = None" "\<And>d'. d' \<noteq> d \<Longrightarrow> dirs m' d' = dirs m d'" "udir m' d \<notin> dom (tables m)" "\<And>i. utab m' d i = 0"
      using V(1) [OF False] by blast+
    have kn: "k \<noteq> d" using V1(1) kin(2) by auto
    then have uk: "udir m' k = udir m k" using V1(2) [of k] by (simp add: udir_def)
    have t0: "udir m k \<noteq> 0" using tables_0 [of m] ok kin(1) by (auto simp: mm_ok_def)
    have "udir m' d' \<noteq> udir m k \<and> (\<forall>i. utab m' d' i \<noteq> udir m k)" if "d' \<in> insert d U" for d'
    proof (cases "d' = d")
      case True
      then show ?thesis using V1(3,4) kin(1) t0 by auto
    next
      case False
      then show ?thesis using V1(2) [of d'] that ka by (simp add: kernel_apart_def udir_def utab_def)
    qed
    then show ?thesis using False N(1,5) kd(2) kn uk by (simp add: kernel_apart_def)
  qed
next
  case (map_entry m U d va create m' r)
  then show ?case using page_dir_user_entry_spec(1) only_space_user_entry(1) kernel_apart_only by metis
next
  case (map_page m U d va w m' page)
  then show ?case using task_user_page_spec only_space_user_page kernel_apart_only by metis
next
  case (fill m U d src len va w m' res)
  then show ?case using task_copy_to_user_spec only_space_copy kernel_apart_only by metis
next
  case (free_space m U d)
  have ok: "mm_ok m U" and ka: "kernel_apart m k U" using free_space.IH by auto
  note F = task_free_space_ok [OF ok free_space.hyps(2)]
  have kd: "kernel_dir_ok m k" "d \<noteq> k" "udir m k \<noteq> udir m d" "\<forall>i. utab m d i \<noteq> udir m k"
    using ka free_space.hyps(2) by (auto simp: kernel_apart_def)
  have same: "dirs (task_free_space m d) d' = dirs m d'" if "d' \<noteq> d" for d' using F(3) that by simp
  note K = kernel_dir_same [OF kd(1) same [OF kd(2) [symmetric]] F(4) [OF kd(3,4)]]
  have "udir (task_free_space m d) d' = udir m d' \<and> utab (task_free_space m d) d' i = utab m d' i" if "d' \<noteq> d" for d' i
    using same [OF that] by (simp add: udir_def utab_def)
  then show ?case using F(1) K ka by (simp add: kernel_apart_def)
next
  case (kernel_alloc m U n)
  have ok: "mm_ok m U" and ka: "kernel_apart m k U" and b: "mm_base m" using kernel_alloc.IH by (auto simp: mm_ok_def)
  obtain h p where h: "heap_malloc (heap m) n = (h, p)" by fastforce
  have "mm_base (m\<lparr>heap := h\<rparr>)"
  proof (cases "p = 0")
    case True
    then have "h = heap m" using heap_null [OF b] h by blast
    then show ?thesis using b by simp
  next
    case False
    have "heap_ok (heap m)" using b by (simp add: mm_base_def)
    from heap_malloc_live [OF this h False] show ?thesis by (intro mm_base_heap [OF b]) auto
  qed
  then show ?case using mm_ok_same [OF ok, of "m\<lparr>heap := h\<rparr>"] kernel_apart_same [OF ka, of "m\<lparr>heap := h\<rparr>"] h by simp
next
  case (kernel_free m U p)
  have ok: "mm_ok m U" and ka: "kernel_apart m k U" and b: "mm_base m" using kernel_free.IH by (auto simp: mm_ok_def)
  have h: "heap_ok (heap m)" using b by (simp add: mm_base_def)
  have "h_addr (kfree (heap m) p) = h_addr (heap m)"
    using heap_free_live [OF h, of p] by (auto simp: kfree_def split: sum.splits)
  then have "mm_base (m\<lparr>heap := kfree (heap m) p\<rparr>)"
    using kernel_free.hyps(2) by (intro mm_base_heap [OF b] kfree_ok [OF h]) (auto simp: kfree_live [OF h])
  then show ?case using mm_ok_same [OF ok, of "m\<lparr>heap := kfree (heap m) p\<rparr>"] kernel_apart_same [OF ka, of "m\<lparr>heap := kfree (heap m) p\<rparr>"] by simp
qed

section \<open>The properties\<close>

lemma spaces_isolated:
  assumes "mm_ok m U" "d \<in> U" "d' \<in> U"
    and "mmu m (udir m d) x = Some (pa, True, w)" "mmu m (udir m d') y = Some (pa, True, w')"
  shows "d = d' \<and> x = y" "user_addr x" "frame pa \<in> dom (upages m)"
proof -
  have u: "user_addr x" "user_addr y"
    using mmu_kernel [OF assms(1,2)] mmu_kernel [OF assms(1,3)] assms(4,5) by blast+
  let ?e = "upte m d (tab_no x) (slot_no x)" and ?e' = "upte m d' (tab_no y) (slot_no y)"
  have p: "present m d (tab_no x) (slot_no x)" "present m d' (tab_no y) (slot_no y)"
    and pa: "pa = frame ?e + x mod PAGE_SIZE" "pa = frame ?e' + y mod PAGE_SIZE"
    using assms(4,5) mmu_user [OF assms(1,2) u(1)] mmu_user [OF assms(1,3) u(2)] by (auto split: if_splits)
  have sum: "frame (frame e + z mod PAGE_SIZE) = frame e" "(frame e + z mod PAGE_SIZE) mod PAGE_SIZE = z mod PAGE_SIZE" for e z
    using frame_add [of "frame e" z] by simp_all
  have "frame ?e = frame ?e'" and off: "x mod PAGE_SIZE = y mod PAGE_SIZE"
    using sum [of ?e x] sum [of ?e' y] pa by metis+
  then have same: "d = d'" "tab_no x = tab_no y" "slot_no x = slot_no y"
    using frames_injD [of m U d d'] mm_okD(3) [OF assms(1,2)] assms(2,3) p by (auto simp: disjoint_spaces_def)
  have "unat x div 4096 = unat y div 4096" using same_page [OF u] same by simp
  moreover have "unat x mod 4096 = unat y mod 4096" using arg_cong [OF off, of unat] by (simp add: unat_mod)
  ultimately have "unat x = unat y" by (metis div_mult_mod_eq)
  then show "d = d' \<and> x = y" using same(1) by (simp add: word_unat_eq_iff)
  show "user_addr x" by (rule u(1))
  show "frame pa \<in> dom (upages m)"
    using present_page(1) [OF assms(1,2) p(1)] sum [of ?e x] pa(1) by auto
qed

text \<open>C6. Address spaces are isolated. The kernel starts without user spaces, with a directory of its own that is closed to
  ring 3. Whatever programs then start, map, fill and end, in any order, and whatever else the kernel allocates and
  frees, also when its memory runs out in between: if the processor lets two programs reach the same physical
  byte from ring 3, it is the same program at the same address, the address is a user address, and the byte is in
  a page the kernel took for user memory, never in one of the tables.\<close>

theorem user_spaces_isolated:
  assumes "mm_ok m0 {}" "kernel_dir_ok m0 k" "spaces k m0 m U" "d \<in> U" "d' \<in> U"
    and "mmu m (udir m d) x = Some (pa, True, w)" "mmu m (udir m d') y = Some (pa, True, w')"
  shows "d = d' \<and> x = y \<and> user_addr x \<and> frame pa \<in> dom (upages m) - dom (tables m)"
proof -
  have ok: "mm_ok m U" using spaces_ok [OF assms(1-3)] by blast
  have "dom (tables m) \<inter> dom (upages m) = {}" using ok by (simp add: mm_ok_def mm_base_def)
  then show ?thesis using spaces_isolated [OF ok assms(4-7)] by blast
qed

text \<open>C7. \<open>task_copy_to_user\<close> writes exactly the given range of the given program: on success
  every byte of the range holds the data (or is mapped, and 0 where it was not, when only
  mapping), bytes outside keep their value, and the memory of no other program changes,
  not even when memory runs out half way.\<close>

theorem task_copy_to_user_correct:
  assumes "mm_ok m U" "d \<in> U" "src_fits src len" "task_copy_to_user m d va src len w = (m', res)"
  shows "mm_ok m' U \<and> (\<forall>d' \<in> U. d' \<noteq> d \<longrightarrow> uload m' d' = uload m d')
   \<and> (\<forall>x. \<not> in_range va len x \<longrightarrow> keeps (uload m d x) (uload m' d x))
   \<and> (res = None \<longrightarrow> (\<forall>x. in_range va len x \<longrightarrow> copied src (unat x - unat va) (uload m d x) (uload m' d x)))"
  by (rule task_copy_to_user_spec [OF assms])

text \<open>The life of an address space: a new directory starts empty, and making it or freeing
  one leaves the memory of every other program alone and keeps all of them isolated.\<close>

theorem address_space_life:
  assumes ok: "mm_ok m U" "U \<subseteq> dom (dirs m)" "kernel_dir_ok m k" "k \<notin> U"
    and new: "page_dir_new_user m k USER_CODE_ADDR = (m', d)" "d \<noteq> 0"
  shows "mm_ok m' (insert d U) \<and> uload m' d = Map.empty \<and> (\<forall>d' \<in> U. uload m' d' = uload m d')
    \<and> (\<forall>d1 \<in> insert d U. mm_ok (task_free_space m' d1) (insert d U - {d1})
        \<and> (\<forall>d' \<in> insert d U - {d1}. uload (task_free_space m' d1) d' = uload m' d'))"
proof -
  note n = page_dir_new_user_spec [OF ok new]
  show ?thesis using n(1,3,4) task_free_space_ok [OF n(1)] by blast
qed

section \<open>Witnesses\<close>

definition example_mm :: "unit mm_state_scheme" where
  "example_mm = \<lparr>heap = \<lparr>h_table = [0x41, 0x41, 0, 0, 0, 0, 0, 0, 0], h_addr = 0x1000\<rparr>,
     tables = [0x1000 \<mapsto> replicate 1024 0],
     dirs = [0x2000 \<mapsto> \<lparr>dir_entry = 0x1000, user_tables = replicate 16 0, user_start = 0\<rparr>],
     upages = Map.empty\<rparr>"

lemma example_mm_ok: "mm_ok example_mm {}" "kernel_dir_ok example_mm 0x2000"
proof -
  have "alloc_entries 1 = [0x41]" by simp
  then have "table_ok (h_table (heap example_mm))"
    unfolding table_ok_def by (intro exI [of _ "[Used 1, Used 1] @ replicate 7 Free"])
      (simp add: example_mm_def list_all_iff eval_nat_numeral)
  then have h: "heap_ok (heap example_mm)" by (simp add: heap_ok_def example_mm_def)
  have l: "live (heap example_mm) 0x1000 \<noteq> None" "live (heap example_mm) 0x2000 \<noteq> None"
    by (simp_all add: live_def block_index_def blocks_def example_mm_def)
  have "aligned 0x1000" by (simp add: aligned_mod)
  then have "mm_base example_mm"
    using h l by (simp add: mm_base_def backed_def example_mm_def)
  moreover have "utab example_mm d i = 0" for d i by (simp add: utab_def example_mm_def)
  ultimately show "mm_ok example_mm {}"
    by (simp add: mm_ok_def spaces_defs)
  show "kernel_dir_ok example_mm 0x2000"
    by (simp add: kernel_dir_ok_def table_len_def udir_def entry_get_def example_mm_def)
qed

lemma example_new_user: "snd (page_dir_new_user example_mm 0x2000 USER_CODE_ADDR) = 0x3000"
proof -
  have "heap_malloc (heap example_mm) 72 = (\<lparr>h_table = [0x41, 0x41, 0x41, 0, 0, 0, 0, 0, 0], h_addr = 0x1000\<rparr>, 0x3000)"
    by code_simp
  moreover have "heap_malloc \<lparr>h_table = [0x41, 0x41, 0x41, 0, 0, 0, 0, 0, 0], h_addr = 0x1000\<rparr> 4096
      = (\<lparr>h_table = [0x41, 0x41, 0x41, 0x41, 0, 0, 0, 0, 0], h_addr = 0x1000\<rparr>, 0x4000)"
    by code_simp
  ultimately show ?thesis
    by (simp add: page_dir_new_user_def calloc_dir_def calloc_table_def Let_def)
qed

definition example_mm2 :: "unit mm_state_scheme" where
  "example_mm2 = fst (page_dir_new_user example_mm 0x2000 USER_CODE_ADDR)"

theorem address_space_life_witness:
  "mm_ok example_mm2 {0x3000} \<and> uload example_mm2 0x3000 = Map.empty"
  using address_space_life [of example_mm "{}" "0x2000" example_mm2 "0x3000"]
    example_mm_ok example_new_user
  by (simp add: example_mm2_def prod_eq_iff)

lemma example_mm2_ok: "mm_ok example_mm2 {0x3000}"
  using page_dir_new_user_spec [of example_mm "{}" "0x2000" example_mm2 "0x3000"]
    example_mm_ok example_new_user
  by (simp add: example_mm2_def prod_eq_iff)

definition example_copy :: "unit mm_state_scheme \<times> error option" where
  "example_copy = task_copy_to_user example_mm2 0x3000 0x40000FFE (Some [1, 2, 3]) 3 True"

theorem task_copy_to_user_correct_witness:
  "mm_ok (fst example_copy) {0x3000}
   \<and> (case snd example_copy of
         None \<Rightarrow> uload (fst example_copy) 0x3000 0x40000FFF = Some 2
       | Some e \<Rightarrow> mm_ok (fst example_copy) {0x3000})"
proof -
  have e: "task_copy_to_user example_mm2 0x3000 0x40000FFE (Some [1, 2, 3]) 3 True
      = (fst example_copy, snd example_copy)" by (simp add: example_copy_def)
  have f: "src_fits (Some [1, 2, 3]) 3" by (simp add: src_fits_def)
  have r: "in_range 0x40000FFE 3 0x40000FFF" by (simp add: in_range_def)
  show ?thesis
    using task_copy_to_user_correct [OF example_mm2_ok _ f e] r by (auto simp: copied_def split: option.split)
qed

text \<open>A program with a page at the start of its address space.\<close>

definition example_page :: "unit mm_state_scheme \<times> u32" where
  "example_page = task_user_page example_mm2 0x3000 0x40000123 True"

lemma example_page: "snd example_page \<noteq> 0"
proof -
  let ?h = "\<lambda>n. \<lparr>h_table = replicate n 0x41 @ replicate (9 - n) 0, h_addr = 0x1000\<rparr>"
  have h: "heap_malloc (?h 2) 72 = (?h 3, 0x3000)" "heap_malloc (?h 3) 4096 = (?h 4, 0x4000)"
    "heap_malloc (?h 4) 4096 = (?h 5, 0x5000)" "heap_malloc (?h 5) 4096 = (?h 6, 0x6000)"
    by code_simp+
  have h0: "heap example_mm = ?h 2" by (simp add: example_mm_def numeral_eq_Suc)
  have m2: "heap example_mm2 = ?h 4" "tables example_mm2 0x5000 = None"
      "dirs example_mm2 0x3000 = Some \<lparr>dir_entry = 0x4000, user_tables = replicate 16 0, user_start = USER_CODE_ADDR\<rparr>"
    using h(1,2) h0 unfolding example_mm2_def page_dir_new_user_def calloc_dir_def calloc_table_def
    by (simp_all add: Let_def example_mm_def del: upt_rec_numeral)
  define m3 where "m3 = fst (page_dir_user_entry example_mm2 0x3000 0x40000123 True)"
  have e: "page_dir_user_entry example_mm2 0x3000 0x40000123 True = (m3, Some (0x5000, 0))"
    "heap m3 = ?h 5" "tables m3 0x5000 = Some (replicate 1024 0)"
    using m2 h(3) unfolding m3_def page_dir_user_entry_def calloc_table_def
    by (simp_all add: Let_def entry_set_def)
  show ?thesis
    using e h(4) unfolding example_page_def task_user_page_def calloc_page_def
    by (simp add: Let_def entry_get_def entry_set_def)
qed

theorem user_spaces_isolated_witness:
  "\<exists>!y. mmu (fst example_page) (udir (fst example_page) 0x3000) y = Some (snd example_page + 0x123, True, True)"
proof (rule ex_ex1I)
  have e: "task_user_page example_mm2 0x3000 0x40000123 True = (fst example_page, snd example_page)"
    by (simp add: example_page_def)
  have d: "0x3000 \<in> {0x3000 :: u32}" by simp
  have "spaces 0x2000 example_mm example_mm2 {0x3000}"
    using new_space [OF no_space, of example_mm "0x2000" example_mm2 "0x3000"] example_new_user
    by (simp add: example_mm2_def prod_eq_iff)
  then have r: "spaces 0x2000 example_mm (fst example_page) {0x3000}" using e by (rule map_page [OF _ d])
  have P: "mm_ok (fst example_page) {0x3000}" "user_addr 0x40000123"
    "present (fst example_page) 0x3000 (tab_no 0x40000123) (slot_no 0x40000123)"
    "snd example_page = frame (upte (fst example_page) 0x3000 (tab_no 0x40000123) (slot_no 0x40000123))"
    "upte (fst example_page) 0x3000 (tab_no 0x40000123) (slot_no 0x40000123) AND IS_WRITABLE \<noteq> 0"
    using task_user_page_spec [OF example_mm2_ok d e] example_page by blast+
  show "\<exists>y. mmu (fst example_page) (udir (fst example_page) 0x3000) y = Some (snd example_page + 0x123, True, True)"
    using mmu_user [OF P(1) d P(2)] P(3,4,5) by (intro exI [of _ "0x40000123"]) simp
  show "x = y" if "mmu (fst example_page) (udir (fst example_page) 0x3000) x = Some (snd example_page + 0x123, True, True)"
    "mmu (fst example_page) (udir (fst example_page) 0x3000) y = Some (snd example_page + 0x123, True, True)" for x y
    using user_spaces_isolated [OF example_mm_ok r d d that] by blast
qed

end
