(* ===== verification/KState.thy ===== *)
theory KState
  imports Paging CString
begin

text \<open>
  The state of the kernel: the task table of \<^verbatim>\<open>src/kernel/task/task.h\<close>, the mutexes of
  \<^verbatim>\<open>mutex.c\<close>, the pipes and handles of \<^verbatim>\<open>pipe.h\<close> and \<^verbatim>\<open>handle.h\<close>, and the scheduler variables.

  A pointer to a task or a mutex is its index in its table. Pipes and handles
  live in the kernel heap, a pointer to one is its address.

  A task that is not running is suspended inside \<^verbatim>\<open>schedule ()\<close>. What its kernel stack
  (\<^verbatim>\<open>context_esp\<close>) holds at that point is its continuation: which call it is in and the
  local variables that call still needs. The model keeps it as a value of type \<open>ctx\<close>.
\<close>

abbreviation (input) MAX_TASKS :: nat where "MAX_TASKS \<equiv> 16"
abbreviation (input) MAX_MUTEXES :: nat where "MAX_MUTEXES \<equiv> 32"
abbreviation (input) TASK_MAX_FDS :: nat where "TASK_MAX_FDS \<equiv> 16"
abbreviation (input) TASK_NAME_LEN :: nat where "TASK_NAME_LEN \<equiv> 16"
abbreviation (input) MUTEX_NAME_LEN :: nat where "MUTEX_NAME_LEN \<equiv> 16"
abbreviation (input) TASK_KILLED :: int where "TASK_KILLED \<equiv> - 1"
abbreviation (input) TASK_PRIORITY_MAX :: u8 where "TASK_PRIORITY_MAX \<equiv> 31"
abbreviation (input) TASK_PRIORITY_SHELL :: u8 where "TASK_PRIORITY_SHELL \<equiv> 30"
abbreviation (input) TASK_PRIORITY_USER_MAX :: int where "TASK_PRIORITY_USER_MAX \<equiv> 29"
abbreviation (input) SCHED_QUANTUM_TICKS :: int where "SCHED_QUANTUM_TICKS \<equiv> 5"
abbreviation (input) PIPE_SIZE :: nat where "PIPE_SIZE \<equiv> 4096"

datatype task_state =
    TASK_UNUSED | TASK_LOADING | TASK_READY | TASK_RUNNING | TASK_SLEEPING | TASK_WAITING_KEY
  | TASK_WAITING_CHILD | TASK_BLOCKED | TASK_ZOMBIE

text \<open>What a blocked task waits for: \<^verbatim>\<open>wait_channel\<close> is the address of a mutex or a pipe.\<close>

datatype channel = Ch_mutex nat | Ch_pipe u32

text \<open>The continuation of a task that is not running.\<close>

datatype key_use = Key_getchar | Key_line nat

datatype ctx =
    Ctx_start                          \<comment> \<open>a new task, about to enter its program\<close>
  | Ctx_user                           \<comment> \<open>preempted on the way back to ring 3\<close>
  | Ctx_idle                           \<comment> \<open>the loop of the idle thread\<close>
  | Ctx_lock nat                       \<comment> \<open>\<^verbatim>\<open>mutex_lock\<close> of the mutex\<close>
  | Ctx_pipe_read u32 nat              \<comment> \<open>\<^verbatim>\<open>pipe_read\<close>: pipe, length\<close>
  | Ctx_pipe_write u32 bytes nat       \<comment> \<open>\<^verbatim>\<open>pipe_write\<close>: pipe, data, bytes written so far\<close>
  | Ctx_wait nat int                   \<comment> \<open>\<^verbatim>\<open>task_wait\<close>: child, its pid\<close>
  | Ctx_sleep u32 int                  \<comment> \<open>\<^verbatim>\<open>task_sleep_until_tick\<close>: tick, result afterwards\<close>
  | Ctx_key key_use                    \<comment> \<open>\<^verbatim>\<open>task_wait_key\<close>\<close>
  | Ctx_dead                           \<comment> \<open>\<^verbatim>\<open>task_exit\<close> called \<^verbatim>\<open>schedule\<close>, never resumed\<close>

record task =
  pid :: int
  t_name :: bytes
  t_state :: task_state
  priority :: u8
  base_priority :: u8
  is_kernel :: bool
  background :: bool
  foreground :: bool
  detached :: bool
  is_shell :: bool
  owns_screen :: bool
  killed :: bool
  saved_ctx :: ctx            \<comment> \<open>what \<^verbatim>\<open>context_esp\<close> points to\<close>
  fpu :: bytes
  kernel_stack :: u32
  kernel_stack_top :: u32
  dir :: u32
  entry :: u32
  brk_start :: u32
  brk :: u32
  fds :: "u32 list"
  cwd :: bytes
  wake_tick :: u32
  period_ticks :: u32
  deadline :: u32
  jobs :: u32
  deadline_misses :: u32
  slice :: int
  cpu_ticks :: u32
  parent :: "nat option"
  wait_pid :: int
  wait_channel :: "channel option"
  wait_mutex :: "nat option"
  open_mutexes :: u32         \<comment> \<open>field \<^verbatim>\<open>mutexes\<close>: bit n is set when mutex n is open\<close>
  exit_code :: int

text \<open>\<^verbatim>\<open>memset (task, 0, sizeof (struct task))\<close>.\<close>

definition zero_task :: task where
  "zero_task = \<lparr>pid = 0, t_name = [], t_state = TASK_UNUSED, priority = 0, base_priority = 0,
     is_kernel = False, background = False, foreground = False, detached = False, is_shell = False,
     owns_screen = False, killed = False, saved_ctx = Ctx_start, fpu = [], kernel_stack = 0,
     kernel_stack_top = 0, dir = 0, entry = 0, brk_start = 0, brk = 0,
     fds = replicate TASK_MAX_FDS 0, cwd = [], wake_tick = 0, period_ticks = 0, deadline = 0,
     jobs = 0, deadline_misses = 0, slice = 0, cpu_ticks = 0, parent = None, wait_pid = 0,
     wait_channel = None, wait_mutex = None, open_mutexes = 0, exit_code = 0\<rparr>"

datatype sched_policy = SCHED_ROUND_ROBIN | SCHED_REAL_TIME | SCHED_EDF

record mutex =
  m_name :: bytes
  m_refs :: int
  inherit :: bool
  owner :: "nat option"

definition zero_mutex :: mutex where
  "zero_mutex = \<lparr>m_name = [], m_refs = 0, inherit = False, owner = None\<rparr>"

datatype handle_type = HANDLE_TERMINAL | HANDLE_FILE | HANDLE_PIPE_READ | HANDLE_PIPE_WRITE

record handle =
  h_type :: handle_type
  h_refs :: int    \<comment> \<open>a \<^verbatim>\<open>uint32_t\<close> that counts descriptors, at most \<^verbatim>\<open>MAX_TASKS * TASK_MAX_FDS\<close>; an integer here\<close>
  file_fd :: int
  h_pipe :: u32

record pipe =
  buffer :: bytes
  head :: u32
  count :: u32
  readers :: u32
  writers :: u32

record kernel = mm_state +
  task_table :: "task list"
  task_running :: nat
  task_idle :: nat
  task_init_thread :: nat
  kernel_page_dir :: u32
  next_pid :: int
  current_policy :: sched_policy
  need_resched :: bool
  ticks :: u32
  cr3 :: u32                    \<comment> \<open>the directory the processor uses\<close>
  tss_esp0 :: u32
  fpu_regs :: bytes
  mutexes :: "mutex list"
  handles :: "u32 \<rightharpoonup> handle"
  pipes :: "u32 \<rightharpoonup> pipe"

text \<open>The kernel with empty tables, from which the examples start.\<close>

definition zero_kernel :: kernel where
  "zero_kernel = \<lparr>heap = \<lparr>h_table = [], h_addr = 0\<rparr>, tables = Map.empty, dirs = Map.empty,
     upages = Map.empty, task_table = replicate MAX_TASKS zero_task, task_running = 0, task_idle = 0,
     task_init_thread = 1, kernel_page_dir = 0, next_pid = 1, current_policy = SCHED_ROUND_ROBIN,
     need_resched = False, ticks = 0, cr3 = 0, tss_esp0 = 0, fpu_regs = [],
     mutexes = replicate MAX_MUTEXES zero_mutex, handles = Map.empty, pipes = Map.empty\<rparr>"

section \<open>Access to the tables\<close>

abbreviation task_at :: "'a kernel_scheme \<Rightarrow> nat \<Rightarrow> task" where
  "task_at k i \<equiv> task_table k ! i"

abbreviation mutex_at :: "'a kernel_scheme \<Rightarrow> nat \<Rightarrow> mutex" where
  "mutex_at k i \<equiv> mutexes k ! i"

abbreviation running_task :: "'a kernel_scheme \<Rightarrow> task" where
  "running_task k \<equiv> task_table k ! task_running k"

definition upd_task :: "nat \<Rightarrow> (task \<Rightarrow> task) \<Rightarrow> 'a kernel_scheme \<Rightarrow> 'a kernel_scheme" where
  "upd_task i f k = k\<lparr>task_table := (task_table k)[i := f (task_table k ! i)]\<rparr>"

definition upd_mutex :: "nat \<Rightarrow> (mutex \<Rightarrow> mutex) \<Rightarrow> 'a kernel_scheme \<Rightarrow> 'a kernel_scheme" where
  "upd_mutex i f k = k\<lparr>mutexes := (mutexes k)[i := f (mutexes k ! i)]\<rparr>"

abbreviation upd_running :: "(task \<Rightarrow> task) \<Rightarrow> 'a kernel_scheme \<Rightarrow> 'a kernel_scheme" where
  "upd_running f k \<equiv> upd_task (task_running k) f k"

text \<open>The tables have their size and the indices the kernel keeps are inside.\<close>

definition tables_ok :: "'a kernel_scheme \<Rightarrow> bool" where
  "tables_ok k \<longleftrightarrow> length (task_table k) = MAX_TASKS \<and> length (mutexes k) = MAX_MUTEXES
    \<and> task_running k < MAX_TASKS \<and> task_idle k < MAX_TASKS \<and> task_init_thread k < MAX_TASKS"

named_theorems kernel_simps

lemma upd_task_simps [simp, kernel_simps]:
  "task_running (upd_task i f k) = task_running k" "task_idle (upd_task i f k) = task_idle k"
  "task_init_thread (upd_task i f k) = task_init_thread k"
  "current_policy (upd_task i f k) = current_policy k" "need_resched (upd_task i f k) = need_resched k"
  "ticks (upd_task i f k) = ticks k" "mutexes (upd_task i f k) = mutexes k"
  "handles (upd_task i f k) = handles k" "pipes (upd_task i f k) = pipes k"
  "heap (upd_task i f k) = heap k" "tables (upd_task i f k) = tables k" "dirs (upd_task i f k) = dirs k"
  "upages (upd_task i f k) = upages k" "next_pid (upd_task i f k) = next_pid k"
  "kernel_page_dir (upd_task i f k) = kernel_page_dir k" "cr3 (upd_task i f k) = cr3 k"
  "length (task_table (upd_task i f k)) = length (task_table k)"
  "kernel.more (upd_task i f k) = kernel.more k"
  by (simp_all add: upd_task_def)

lemma upd_mutex_simps [simp, kernel_simps]:
  "task_running (upd_mutex i g k) = task_running k" "task_idle (upd_mutex i g k) = task_idle k"
  "task_init_thread (upd_mutex i g k) = task_init_thread k"
  "current_policy (upd_mutex i g k) = current_policy k" "need_resched (upd_mutex i g k) = need_resched k"
  "ticks (upd_mutex i g k) = ticks k" "task_table (upd_mutex i g k) = task_table k"
  "handles (upd_mutex i g k) = handles k" "pipes (upd_mutex i g k) = pipes k"
  "heap (upd_mutex i g k) = heap k" "tables (upd_mutex i g k) = tables k" "dirs (upd_mutex i g k) = dirs k"
  "upages (upd_mutex i g k) = upages k" "next_pid (upd_mutex i g k) = next_pid k"
  "kernel_page_dir (upd_mutex i g k) = kernel_page_dir k" "cr3 (upd_mutex i g k) = cr3 k"
  "length (mutexes (upd_mutex i g k)) = length (mutexes k)"
  "kernel.more (upd_mutex i g k) = kernel.more k"
  by (simp_all add: upd_mutex_def)

lemma task_at_upd: "i < length (task_table k) \<Longrightarrow>
    task_at (upd_task i f k) j = (if i = j then f (task_at k j) else task_at k j)"
  by (simp add: upd_task_def nth_list_update)

lemma task_at_upd_same [simp]: "i < length (task_table k) \<Longrightarrow> task_at (upd_task i f k) i = f (task_at k i)"
  by (simp add: task_at_upd)

lemma task_at_upd_other [simp]: "i \<noteq> j \<Longrightarrow> task_at (upd_task i f k) j = task_at k j"
  by (simp add: upd_task_def)

lemma mutex_at_upd: "i < length (mutexes k) \<Longrightarrow>
    mutex_at (upd_mutex i f k) j = (if i = j then f (mutex_at k j) else mutex_at k j)"
  by (simp add: upd_mutex_def nth_list_update)

lemma tables_ok_upd [simp]:
  "tables_ok (upd_task i f k) = tables_ok k" "tables_ok (upd_mutex i g k) = tables_ok k"
  by (simp_all add: tables_ok_def)

end
