(* ===== verification/Sched.thy ===== *)
theory Sched
  imports KState
begin

text \<open>
  The scheduler, \<^verbatim>\<open>src/kernel/task/sched.c\<close>. \<open>schedule\<close> is the part in front of and
  including \<^verbatim>\<open>context_switch\<close>; what a task does when it runs again is its continuation
  (see \<^theory_text>\<open>KState\<close>).
\<close>

section \<open>The code\<close>

definition sched_set_policy :: "sched_policy \<Rightarrow> 'a kernel_scheme \<Rightarrow> 'a kernel_scheme" where
  "sched_set_policy policy k = k\<lparr>current_policy := policy, need_resched := True\<rparr>"

definition sched_get_policy :: "'a kernel_scheme \<Rightarrow> sched_policy" where
  "sched_get_policy k = current_policy k"

definition sched_edf_class :: "task \<Rightarrow> nat" where
  "sched_edf_class t = (if priority t \<ge> TASK_PRIORITY_SHELL then 0
                        else if period_ticks t \<noteq> 0 then 1 else 2)"

definition sched_runs_before :: "sched_policy \<Rightarrow> task \<Rightarrow> task \<Rightarrow> bool" where
  "sched_runs_before policy a b =
    (if policy = SCHED_EDF \<and> sched_edf_class a \<noteq> sched_edf_class b
     then sched_edf_class a < sched_edf_class b
     else if policy = SCHED_EDF \<and> sched_edf_class a = 1 then sint (deadline a - deadline b) < 0
     else priority a > priority b)"

definition task_runnable :: "'a kernel_scheme \<Rightarrow> nat \<Rightarrow> bool" where
  "task_runnable k i \<longleftrightarrow> t_state (task_at k i) = TASK_READY
     \<or> (i = task_running k \<and> t_state (task_at k i) = TASK_RUNNING)"

fun pick_loop :: "'a kernel_scheme \<Rightarrow> nat list \<Rightarrow> nat option \<Rightarrow> nat option" where
  "pick_loop k [] best = best"
| "pick_loop k (i # is) best =
    (if i = task_idle k \<or> \<not> task_runnable k i then pick_loop k is best
     else if current_policy k = SCHED_ROUND_ROBIN then Some i
     else case best of
            None \<Rightarrow> pick_loop k is (Some i)
          | Some b \<Rightarrow>
              if sched_runs_before (current_policy k) (task_at k i) (task_at k b)
              then pick_loop k is (Some i) else pick_loop k is (Some b))"

definition sched_pick_next :: "'a kernel_scheme \<Rightarrow> nat" where
  "sched_pick_next k =
    (case pick_loop k (map (\<lambda>n. (task_running k + n) mod MAX_TASKS) [1..<MAX_TASKS + 1]) None of
       Some best \<Rightarrow> best
     | None \<Rightarrow> task_idle k)"

definition switch_page_dir :: "u32 \<Rightarrow> 'a kernel_scheme \<Rightarrow> 'a kernel_scheme" where
  "switch_page_dir d k = k\<lparr>cr3 := (case dirs k d of Some pd \<Rightarrow> dir_entry pd | None \<Rightarrow> 0)\<rparr>"

text \<open>\<^verbatim>\<open>schedule\<close> up to its \<^verbatim>\<open>context_switch\<close>. What stands behind it, the call of \<^verbatim>\<open>task_reap_zombies\<close>, runs when
  the task that called \<^verbatim>\<open>schedule\<close> goes on: it is \<open>schedule_resumed\<close> of \<open>Task\<close>, with which \<open>syscall_resumed\<close> and
  \<open>task_return_to_user_resumed\<close> begin.\<close>

definition schedule :: "'a kernel_scheme \<Rightarrow> 'a kernel_scheme" where
  "schedule k =
    (let k = k\<lparr>need_resched := False\<rparr>;
         prev = task_running k;
         nxt = sched_pick_next k;
         k = upd_task nxt (slice_update (\<lambda>_. SCHED_QUANTUM_TICKS)) k
     in if nxt = prev then upd_task prev (t_state_update (\<lambda>_. TASK_RUNNING)) k
        else
          let k = (if t_state (task_at k prev) = TASK_RUNNING
                   then upd_task prev (t_state_update (\<lambda>_. TASK_READY)) k else k);
              k = upd_task nxt (t_state_update (\<lambda>_. TASK_RUNNING)) k;
              k = k\<lparr>task_running := nxt\<rparr>;
              k = (if kernel_stack (task_at k nxt) \<noteq> 0
                   then k\<lparr>tss_esp0 := kernel_stack_top (task_at k nxt)\<rparr> else k);
              k = switch_page_dir (if dir (task_at k nxt) \<noteq> 0 then dir (task_at k nxt)
                                   else kernel_page_dir k) k;
              k = upd_task prev (fpu_update (\<lambda>_. fpu_regs k)) k
          in k\<lparr>fpu_regs := fpu (task_at k nxt)\<rparr>)"

definition sched_wake :: "nat \<Rightarrow> 'a kernel_scheme \<Rightarrow> 'a kernel_scheme" where
  "sched_wake i k =
    (let k = upd_task i (t_state_update (\<lambda>_. TASK_READY)) k
     in if task_running k = task_idle k
           \<or> (current_policy k \<noteq> SCHED_ROUND_ROBIN
              \<and> sched_runs_before (current_policy k) (task_at k i) (running_task k))
        then k\<lparr>need_resched := True\<rparr> else k)"

definition sched_tick :: "'a kernel_scheme \<Rightarrow> 'a kernel_scheme" where
  "sched_tick k =
    (let now = ticks k;
         k = fold (\<lambda>i k. if t_state (task_at k i) = TASK_SLEEPING
                            \<and> sint (now - wake_tick (task_at k i)) \<ge> 0
                         then sched_wake i k else k) [0..<MAX_TASKS] k;
         k = upd_running (cpu_ticks_update (\<lambda>c. c + 1)) k
     in if task_running k = task_idle k then k
        else let k = upd_running (slice_update (\<lambda>s. s - 1)) k
             in if slice (running_task k) \<le> 0 then k\<lparr>need_resched := True\<rparr> else k)"

definition sched_request_resched :: "'a kernel_scheme \<Rightarrow> 'a kernel_scheme" where
  "sched_request_resched k = k\<lparr>need_resched := True\<rparr>"

definition sched_need_resched :: "'a kernel_scheme \<Rightarrow> bool" where
  "sched_need_resched k = need_resched k"

section \<open>Picking a task\<close>

definition candidate :: "'a kernel_scheme \<Rightarrow> nat \<Rightarrow> bool" where
  "candidate k i \<longleftrightarrow> i < MAX_TASKS \<and> i \<noteq> task_idle k \<and> task_runnable k i"

definition beats :: "'a kernel_scheme \<Rightarrow> nat \<Rightarrow> nat \<Rightarrow> bool" where
  "beats k i j \<longleftrightarrow> sched_runs_before (current_policy k) (task_at k i) (task_at k j)"

text \<open>The circular order of the scan, which ends with the running task.\<close>

definition scan :: "'a kernel_scheme \<Rightarrow> nat list" where
  "scan k = map (\<lambda>n. (task_running k + n) mod MAX_TASKS) [1..<MAX_TASKS + 1]"

definition scan_pos :: "'a kernel_scheme \<Rightarrow> nat \<Rightarrow> nat" where
  "scan_pos k i = (i + MAX_TASKS - Suc (task_running k)) mod MAX_TASKS"

lemma scan_nth: "n < MAX_TASKS \<Longrightarrow> scan k ! n = (task_running k + Suc n) mod MAX_TASKS"
  by (simp add: scan_def del: upt_Suc)

lemma length_scan [simp]: "length (scan k) = MAX_TASKS"
  by (simp add: scan_def)

lemma scan_pos_nth: "i < MAX_TASKS \<Longrightarrow> task_running k < MAX_TASKS \<Longrightarrow>
    scan_pos k i < MAX_TASKS \<and> scan k ! scan_pos k i = i"
proof -
  assume a: "i < MAX_TASKS" "task_running k < MAX_TASKS"
  have p: "scan_pos k i < MAX_TASKS" by (simp add: scan_pos_def)
  have "scan_pos k i = (if i \<le> task_running k then i + MAX_TASKS - Suc (task_running k)
      else i - Suc (task_running k))"
  proof (cases "i \<le> task_running k")
    case False
    then show ?thesis using a by (auto simp: scan_pos_def mod_if)
  qed (simp add: scan_pos_def)
  then have "(task_running k + Suc (scan_pos k i)) mod MAX_TASKS = i"
    using a by (auto simp: mod_if)
  then show ?thesis using p by (simp add: scan_nth)
qed

lemma scan_nth_pos: "n < MAX_TASKS \<Longrightarrow> task_running k < MAX_TASKS \<Longrightarrow> scan_pos k (scan k ! n) = n"
proof -
  assume a: "n < MAX_TASKS" "task_running k < MAX_TASKS"
  show ?thesis
  proof (cases "task_running k + Suc n < MAX_TASKS")
    case True
    then show ?thesis using a by (simp add: scan_nth scan_pos_def)
  next
    case False
    then have "(task_running k + Suc n) mod MAX_TASKS = task_running k + Suc n - MAX_TASKS"
      using a by (simp add: mod_if)
    then show ?thesis using a False by (simp add: scan_nth scan_pos_def)
  qed
qed

lemma set_scan: "task_running k < MAX_TASKS \<Longrightarrow> set (scan k) = {..<MAX_TASKS}"
proof (rule equalityI; rule subsetI)
  fix i assume "task_running k < MAX_TASKS" "i \<in> {..<MAX_TASKS}"
  then show "i \<in> set (scan k)" using scan_pos_nth [of i k] by (metis length_scan lessThan_iff nth_mem)
qed (auto simp: scan_def)

lemma sched_pick_next_scan:
  "sched_pick_next k = (case pick_loop k (scan k) None of Some best \<Rightarrow> best | None \<Rightarrow> task_idle k)"
  by (simp add: sched_pick_next_def scan_def)

text \<open>Round robin takes the first candidate of the scan.\<close>

lemma pick_loop_rr:
  assumes "current_policy k = SCHED_ROUND_ROBIN"
  shows "pick_loop k is None = find (\<lambda>i. i \<noteq> task_idle k \<and> task_runnable k i) is"
  by (induction "is") (simp_all add: assms)

text \<open>The other policies take a maximal one. \<open>order_ok\<close> holds when the order of the policy
  makes sense on the candidates.\<close>

definition order_ok :: "'a kernel_scheme \<Rightarrow> bool" where
  "order_ok k \<longleftrightarrow> (\<forall>i j l. candidate k i \<longrightarrow> candidate k j \<longrightarrow> candidate k l \<longrightarrow>
     (beats k i j \<longrightarrow> \<not> beats k j i) \<and> (\<not> beats k i j \<longrightarrow> \<not> beats k j l \<longrightarrow> \<not> beats k i l))"

lemma pick_loop_max:
  assumes pol: "current_policy k \<noteq> SCHED_ROUND_ROBIN" and ord: "order_ok k"
  shows "set is \<subseteq> {..<MAX_TASKS} \<Longrightarrow> (case best of None \<Rightarrow> True | Some b \<Rightarrow> candidate k b) \<Longrightarrow>
    (case pick_loop k is best of
       None \<Rightarrow> best = None \<and> (\<forall>i \<in> set is. \<not> candidate k i)
     | Some r \<Rightarrow> candidate k r \<and> (r \<in> set is \<or> best = Some r)
         \<and> (\<forall>i \<in> set is. candidate k i \<longrightarrow> \<not> beats k i r)
         \<and> (\<forall>b. best = Some b \<longrightarrow> \<not> beats k b r \<and> (r \<noteq> b \<longrightarrow> beats k r b)))"
proof (induction "is" arbitrary: best)
  case Nil
  have "candidate k b \<Longrightarrow> \<not> beats k b b" for b using ord unfolding order_ok_def by blast
  then show ?case using Nil by (auto split: option.splits)
next
  case (Cons i "is")
  have i: "i < MAX_TASKS" "set is \<subseteq> {..<MAX_TASKS}" using Cons.prems by auto
  show ?case
  proof (cases "candidate k i")
    case False
    then have "i = task_idle k \<or> \<not> task_runnable k i" using i(1) by (auto simp: candidate_def)
    then show ?thesis using Cons.IH [OF i(2) Cons.prems(2)] False by (auto split: option.splits)
  next
    case True
    then have ci: "\<not> (i = task_idle k \<or> \<not> task_runnable k i)" by (auto simp: candidate_def)
    have irr: "candidate k b \<Longrightarrow> \<not> beats k b b" for b using ord unfolding order_ok_def by blast
    have trans: "candidate k a \<Longrightarrow> candidate k b \<Longrightarrow> candidate k c \<Longrightarrow> \<not> beats k a b \<Longrightarrow> \<not> beats k b c \<Longrightarrow> \<not> beats k a c"
      and asym: "candidate k a \<Longrightarrow> candidate k b \<Longrightarrow> beats k a b \<Longrightarrow> \<not> beats k b a" for a b c
      using ord unfolding order_ok_def by blast+
    show ?thesis
    proof (cases best)
      case None
      have p: "pick_loop k (i # is) best = pick_loop k is (Some i)" using ci pol None by simp
      show ?thesis using Cons.IH [OF i(2), of "Some i"] True None unfolding p by (auto split: option.splits)
    next
      case (Some b)
      have cb: "candidate k b" using Cons.prems(2) Some by simp
      show ?thesis
      proof (cases "beats k i b")
        case bt: True
        have p: "pick_loop k (i # is) best = pick_loop k is (Some i)" using ci pol Some bt by (simp add: beats_def)
        obtain r where r: "pick_loop k is (Some i) = Some r"
          using Cons.IH [OF i(2), of "Some i"] True by (auto split: option.splits)
        have R: "candidate k r" "r \<in> set is \<or> i = r" "\<forall>j \<in> set is. candidate k j \<longrightarrow> \<not> beats k j r"
          "\<not> beats k i r" "r \<noteq> i \<longrightarrow> beats k r i"
          using Cons.IH [OF i(2), of "Some i"] True r by auto
        have "\<not> beats k b r" using trans [OF cb True R(1)] asym [OF True cb bt] R(4) by blast
        moreover have "beats k r b" using trans [OF True R(1) cb] R(4) bt by blast
        ultimately show ?thesis using R Some r unfolding p by auto
      next
        case nbt: False
        have p: "pick_loop k (i # is) best = pick_loop k is (Some b)" using ci pol Some nbt by (simp add: beats_def)
        obtain r where r: "pick_loop k is (Some b) = Some r"
          using Cons.IH [OF i(2), of "Some b"] cb by (auto split: option.splits)
        have R: "candidate k r" "r \<in> set is \<or> b = r" "\<forall>j \<in> set is. candidate k j \<longrightarrow> \<not> beats k j r"
          "\<not> beats k b r" "r \<noteq> b \<longrightarrow> beats k r b"
          using Cons.IH [OF i(2), of "Some b"] cb r by auto
        have "\<not> beats k i r" using trans [OF True cb R(1) nbt R(4)] .
        then show ?thesis using R Some r unfolding p by auto
      qed
    qed
  qed
qed

text \<open>Fixed priorities always make sense; deadlines do while they lie within half of the
  range of the tick counter from each other.\<close>

lemma order_ok_priority: "current_policy k \<noteq> SCHED_EDF \<Longrightarrow> order_ok k"
  by (auto simp: order_ok_def beats_def sched_runs_before_def)

definition deadlines_near :: "'a kernel_scheme \<Rightarrow> bool" where
  "deadlines_near k \<longleftrightarrow> (\<exists>base. \<forall>i. candidate k i \<longrightarrow> sched_edf_class (task_at k i) = 1 \<longrightarrow>
     uint (deadline (task_at k i) - base) < 2 ^ 30)"

lemma sint_near:
  assumes "uint (x - b) < 2 ^ 30" "uint (y - b) < 2 ^ 30"
  shows "sint (x - y :: u32) = uint (x - b) - uint (y - b)"
proof -
  have e: "x - y = word_of_int (uint (x - b) - uint (y - b))" by simp
  have a: "uint (x - b) < 1073741824" "uint (y - b) < 1073741824" using assms by simp_all
  have "- 2147483648 \<le> uint (x - b) - uint (y - b)" "uint (x - b) - uint (y - b) < 2147483648"
    using a uint_ge_0 [of "x - b"] uint_ge_0 [of "y - b"] by linarith+
  then have "sint (word_of_int (uint (x - b) - uint (y - b)) :: u32) = uint (x - b) - uint (y - b)"
    by (simp only: signed_of_int) (simp add: signed_take_bit_int_eq_self)
  then show ?thesis by (simp only: e)
qed

lemma order_ok_edf:
  assumes "deadlines_near k" shows "order_ok k"
proof (cases "current_policy k = SCHED_EDF")
  case True
  obtain base where b: "candidate k i \<Longrightarrow> sched_edf_class (task_at k i) = 1 \<Longrightarrow>
     uint (deadline (task_at k i) - base) < 2 ^ 30" for i
    using assms unfolding deadlines_near_def by blast
  have bt: "beats k i j \<longleftrightarrow>
      (if sched_edf_class (task_at k i) \<noteq> sched_edf_class (task_at k j)
       then sched_edf_class (task_at k i) < sched_edf_class (task_at k j)
       else if sched_edf_class (task_at k i) = 1
       then uint (deadline (task_at k i) - base) < uint (deadline (task_at k j) - base)
       else priority (task_at k j) < priority (task_at k i))" if "candidate k i" "candidate k j" for i j
    using True sint_near [OF b [OF that(1)] b [OF that(2)]] by (simp add: beats_def sched_runs_before_def)
  show ?thesis unfolding order_ok_def
  proof (intro allI impI)
    fix i j l assume c: "candidate k i" "candidate k j" "candidate k l"
    show "(beats k i j \<longrightarrow> \<not> beats k j i) \<and> (\<not> beats k i j \<longrightarrow> \<not> beats k j l \<longrightarrow> \<not> beats k i l)"
      unfolding bt [OF c(1,2)] bt [OF c(2,1)] bt [OF c(2,3)] bt [OF c(1,3)] by (auto split: if_splits)
  qed
qed (rule order_ok_priority)

lemma pick_loop_append:
  "current_policy k \<noteq> SCHED_ROUND_ROBIN \<Longrightarrow>
   pick_loop k (xs @ ys) best = pick_loop k ys (pick_loop k xs best)"
  by (induction xs arbitrary: best) (auto split: option.splits)

lemma scan_last: "task_running k < MAX_TASKS \<Longrightarrow>
    \<exists>xs. scan k = xs @ [task_running k] \<and> set xs = {..<MAX_TASKS} - {task_running k}"
proof -
  assume r: "task_running k < MAX_TASKS"
  have ne: "scan k \<noteq> []" by (metis length_scan list.size(3) zero_neq_numeral)
  then have l: "last (scan k) = task_running k"
    using r scan_nth [of 15 k] by (simp add: last_conv_nth)
  have "distinct (scan k)"
    unfolding distinct_conv_nth using scan_nth_pos [OF _ r] by (metis length_scan)
  then have "distinct (butlast (scan k) @ [task_running k])" using append_butlast_last_id [OF ne] l by simp
  moreover have "set (butlast (scan k) @ [task_running k]) = {..<MAX_TASKS}"
    using append_butlast_last_id [OF ne] l set_scan [OF r] by simp
  ultimately have "set (butlast (scan k)) = {..<MAX_TASKS} - {task_running k}" by auto
  then show ?thesis using append_butlast_last_id [OF ne] l by metis
qed

lemma pick_best:
  assumes r: "task_running k < MAX_TASKS" and pol: "current_policy k \<noteq> SCHED_ROUND_ROBIN"
    and ord: "order_ok k"
  shows "(sched_pick_next k = task_idle k \<and> (\<forall>i. \<not> candidate k i))
    \<or> (candidate k (sched_pick_next k) \<and> (\<forall>i. candidate k i \<longrightarrow> \<not> beats k i (sched_pick_next k))
       \<and> (sched_pick_next k = task_running k \<longrightarrow>
           (\<forall>i. candidate k i \<longrightarrow> i \<noteq> task_running k \<longrightarrow> beats k (task_running k) i)))"
proof -
  obtain xs where xs: "scan k = xs @ [task_running k]" "set xs = {..<MAX_TASKS} - {task_running k}"
    using scan_last [OF r] by blast
  have lt: "candidate k i \<Longrightarrow> i < MAX_TASKS" for i by (simp add: candidate_def)
  note M = pick_loop_max [OF pol ord]
  have none: "\<not> candidate k i" if "pick_loop k (scan k) None = None" for i
    using M [of "scan k" None] set_scan [OF r] lt [of i] that by auto
  have some: "candidate k t" "candidate k i \<Longrightarrow> \<not> beats k i t" if "pick_loop k (scan k) None = Some t" for t i
    using M [of "scan k" None] set_scan [OF r] lt [of i] that by auto
  have fnone: "i = task_running k" if "pick_loop k xs None = None" "candidate k i" for i
    using M [of xs None] xs(2) lt [of i] that by auto
  have fsome: "candidate k b" "b \<noteq> task_running k" "candidate k i \<Longrightarrow> i \<noteq> task_running k \<Longrightarrow> \<not> beats k i b"
    if "pick_loop k xs None = Some b" for b i
    using M [of xs None] xs(2) lt [of i] that by auto
  have app: "pick_loop k (scan k) None = pick_loop k [task_running k] (pick_loop k xs None)"
    unfolding xs(1) by (rule pick_loop_append [OF pol])
  have last_wins: "beats k (task_running k) i"
    if res: "pick_loop k (scan k) None = Some (task_running k)" and i: "candidate k i" "i \<noteq> task_running k" for i
  proof (cases "pick_loop k xs None")
    case None
    then show ?thesis using fnone i by blast
  next
    case (Some b)
    note b = fsome [OF Some]
    have c: "candidate k (task_running k)" using some(1) res by blast
    have "pick_loop k [task_running k] (Some b) = Some (task_running k)" using app res Some by simp
    then have bt: "beats k (task_running k) b"
      using b(2) pol c by (auto simp: candidate_def beats_def split: if_splits)
    show ?thesis using ord c i(1) b(1) b(3) [OF i] bt unfolding order_ok_def by blast
  qed
  show ?thesis
  proof (cases "pick_loop k (scan k) None")
    case None
    then show ?thesis using none by (simp add: sched_pick_next_scan)
  next
    case (Some t)
    then have e: "sched_pick_next k = t" by (simp add: sched_pick_next_scan)
    have "\<forall>i. candidate k i \<longrightarrow> \<not> beats k i t" using some(2) [OF Some] by blast
    moreover have "t = task_running k \<longrightarrow> (\<forall>i. candidate k i \<longrightarrow> i \<noteq> task_running k \<longrightarrow> beats k (task_running k) i)"
      using last_wins Some by blast
    ultimately show ?thesis using some(1) [OF Some] unfolding e by blast
  qed
qed

lemma pick_rr:
  assumes r: "task_running k < MAX_TASKS" and pol: "current_policy k = SCHED_ROUND_ROBIN"
  shows "(sched_pick_next k = task_idle k \<and> (\<forall>i. \<not> candidate k i))
    \<or> (candidate k (sched_pick_next k)
       \<and> (\<forall>i. candidate k i \<longrightarrow> scan_pos k (sched_pick_next k) \<le> scan_pos k i))"
proof (cases "find (\<lambda>i. i \<noteq> task_idle k \<and> task_runnable k i) (scan k)")
  case None
  then have "\<not> candidate k i" for i
    using set_scan [OF r] by (auto simp: find_None_iff candidate_def)
  then show ?thesis using None pol by (simp add: sched_pick_next_scan pick_loop_rr)
next
  case (Some t)
  then obtain n where n: "n < MAX_TASKS" "scan k ! n = t" "t \<noteq> task_idle k" "task_runnable k t"
      "\<And>j. j < n \<Longrightarrow> \<not> (scan k ! j \<noteq> task_idle k \<and> task_runnable k (scan k ! j))"
    by (auto simp: find_Some_iff)
  have p: "scan_pos k t = n" using scan_nth_pos [OF n(1) r] n(2) by simp
  have "candidate k t" using n set_scan [OF r] nth_mem [of n "scan k"] by (auto simp: candidate_def)
  moreover have "n \<le> scan_pos k i" if "candidate k i" for i
  proof (rule ccontr)
    assume "\<not> n \<le> scan_pos k i"
    then show False using n(5) [of "scan_pos k i"] that scan_pos_nth [of i k] r by (auto simp: candidate_def)
  qed
  ultimately show ?thesis using Some pol p by (simp add: sched_pick_next_scan pick_loop_rr)
qed

text \<open>Whatever the policy, the choice is a runnable task or the idle task.\<close>

lemma pick_loop_candidate:
  "pick_loop k is best = Some r \<Longrightarrow> (r \<in> set is \<and> r \<noteq> task_idle k \<and> task_runnable k r) \<or> best = Some r"
  by (induction "is" arbitrary: best) (auto split: if_splits option.splits)

lemma pick_candidate:
  assumes "task_running k < MAX_TASKS"
  shows "sched_pick_next k = task_idle k \<or> candidate k (sched_pick_next k)"
  using pick_loop_candidate [of k "scan k" None] set_scan [OF assms]
  by (auto simp: sched_pick_next_scan candidate_def split: option.splits)

section \<open>The switch\<close>

text \<open>What \<open>schedule\<close> changes: the states of the two tasks, the time slice, the FPU registers.\<close>

definition after_switch :: "'a kernel_scheme \<Rightarrow> nat \<Rightarrow> task_state" where
  "after_switch k i =
    (if i = sched_pick_next k then TASK_RUNNING
     else if i = task_running k \<and> t_state (task_at k i) = TASK_RUNNING then TASK_READY
     else t_state (task_at k i))"

lemma pick_need_resched [simp]: "sched_pick_next (k\<lparr>need_resched := b\<rparr>) = sched_pick_next k"
proof -
  have "pick_loop (k\<lparr>need_resched := b\<rparr>) is best = pick_loop k is best" for "is" best
    by (induction k "is" best rule: pick_loop.induct) (auto simp: task_runnable_def split: option.splits)
  then show ?thesis by (simp add: sched_pick_next_def cong: option.case_cong)
qed

lemma pick_less: "tables_ok k \<Longrightarrow> sched_pick_next k < MAX_TASKS"
  using pick_candidate [of k] by (auto simp: tables_ok_def candidate_def)

lemma schedule_at:
  assumes k: "tables_ok k"
  shows "task_at (schedule k) i =
    (let t = task_at k i; t = (if i = sched_pick_next k then slice_update (\<lambda>_. SCHED_QUANTUM_TICKS) t else t)
     in if sched_pick_next k = task_running k
        then if i = task_running k then t_state_update (\<lambda>_. TASK_RUNNING) t else t
        else if i = sched_pick_next k then t_state_update (\<lambda>_. TASK_RUNNING) t
        else if i = task_running k
        then fpu_update (\<lambda>_. fpu_regs k)
          (if t_state t = TASK_RUNNING then t_state_update (\<lambda>_. TASK_READY) t else t)
        else t)"
proof -
  have len: "sched_pick_next k < length (task_table k)" "task_running k < length (task_table k)"
    using k pick_less [OF k] by (simp_all add: tables_ok_def)
  have L: "task_table (upd_task j f s) = (task_table s)[j := f (task_table s ! j)]" for j f and s :: "'a kernel_scheme"
    by (simp add: upd_task_def)
  have D: "task_table (if b then s else r) = (if b then task_table s else task_table r)" for b and s r :: "'a kernel_scheme"
    by simp
  have S: "task_table (switch_page_dir d s) = task_table s" for d and s :: "'a kernel_scheme"
    by (simp add: switch_page_dir_def)
  have R: "fpu_regs (switch_page_dir d s) = fpu_regs s" "fpu_regs (upd_task j f s) = fpu_regs s"
      "fpu_regs (if b then s else r) = (if b then fpu_regs s else fpu_regs r)"
    for d b j f and s r :: "'a kernel_scheme"
    by (simp_all add: switch_page_dir_def upd_task_def)
  show ?thesis
  proof (cases "sched_pick_next k = task_running k")
    case True
    then show ?thesis using len by (simp add: schedule_def Let_def L nth_list_update)
  next
    case False
    have T: "task_table (schedule k) =
       (let T = (task_table k)[sched_pick_next k := slice_update (\<lambda>_. SCHED_QUANTUM_TICKS) (task_at k (sched_pick_next k))];
            T = (if t_state (T ! task_running k) = TASK_RUNNING
                 then T[task_running k := t_state_update (\<lambda>_. TASK_READY) (T ! task_running k)] else T);
            T = T[sched_pick_next k := t_state_update (\<lambda>_. TASK_RUNNING) (T ! sched_pick_next k)]
        in T[task_running k := fpu_update (\<lambda>_. fpu_regs k) (T ! task_running k)])"
      using False by (simp add: schedule_def Let_def L D S R cong: if_cong)
    show ?thesis unfolding T using len False
      by (cases "i = task_running k"; cases "i = sched_pick_next k") (auto simp: Let_def nth_list_update)
  qed
qed

lemma schedule_state: "tables_ok k \<Longrightarrow> t_state (task_at (schedule k) i) = after_switch k i"
  by (simp add: schedule_at Let_def after_switch_def)

text \<open>A field \<open>f\<close> that the switch does not touch.\<close>

lemma schedule_frame:
  assumes "\<And>g t. f (t_state_update g t) = f t" "\<And>g t. f (slice_update g t) = f t"
    "\<And>g t. f (fpu_update g t) = f t" and k: "tables_ok k"
  shows "f (task_at (schedule k) i) = f (task_at k i)"
  by (simp add: schedule_at [OF k] Let_def assms(1-3))

lemma schedule_simps [simp]:
  "task_running (schedule k) = sched_pick_next k" "task_idle (schedule k) = task_idle k"
  "task_init_thread (schedule k) = task_init_thread k" "current_policy (schedule k) = current_policy k"
  "need_resched (schedule k) = False" "ticks (schedule k) = ticks k" "mutexes (schedule k) = mutexes k"
  "handles (schedule k) = handles k" "pipes (schedule k) = pipes k" "heap (schedule k) = heap k"
  "tables (schedule k) = tables k" "dirs (schedule k) = dirs k" "upages (schedule k) = upages k"
  "next_pid (schedule k) = next_pid k" "kernel_page_dir (schedule k) = kernel_page_dir k"
  "length (task_table (schedule k)) = length (task_table k)" "kernel.more (schedule k) = kernel.more k"
  by (simp_all add: schedule_def Let_def switch_page_dir_def)

lemma tables_ok_schedule [simp]: "tables_ok k \<Longrightarrow> tables_ok (schedule k)"
  using pick_less by (auto simp: tables_ok_def)

lemma schedule_fields:
  assumes "tables_ok k"
  shows "t_state (task_at (schedule k) i) = after_switch k i"
    "pid (task_at (schedule k) i) = pid (task_at k i)"
    "priority (task_at (schedule k) i) = priority (task_at k i)"
    "base_priority (task_at (schedule k) i) = base_priority (task_at k i)"
    "is_kernel (task_at (schedule k) i) = is_kernel (task_at k i)"
    "detached (task_at (schedule k) i) = detached (task_at k i)"
    "foreground (task_at (schedule k) i) = foreground (task_at k i)"
    "killed (task_at (schedule k) i) = killed (task_at k i)"
    "saved_ctx (task_at (schedule k) i) = saved_ctx (task_at k i)"
    "kernel_stack (task_at (schedule k) i) = kernel_stack (task_at k i)"
    "dir (task_at (schedule k) i) = dir (task_at k i)"
    "fds (task_at (schedule k) i) = fds (task_at k i)"
    "wake_tick (task_at (schedule k) i) = wake_tick (task_at k i)"
    "period_ticks (task_at (schedule k) i) = period_ticks (task_at k i)"
    "deadline (task_at (schedule k) i) = deadline (task_at k i)"
    "parent (task_at (schedule k) i) = parent (task_at k i)"
    "wait_pid (task_at (schedule k) i) = wait_pid (task_at k i)"
    "wait_channel (task_at (schedule k) i) = wait_channel (task_at k i)"
    "wait_mutex (task_at (schedule k) i) = wait_mutex (task_at k i)"
    "open_mutexes (task_at (schedule k) i) = open_mutexes (task_at k i)"
    "exit_code (task_at (schedule k) i) = exit_code (task_at k i)"
  by (simp_all add: schedule_state schedule_frame assms)

text \<open>One task runs, and the idle task is always ready to.\<close>

definition sched_ok :: "'a kernel_scheme \<Rightarrow> bool" where
  "sched_ok k \<longleftrightarrow> tables_ok k
    \<and> (\<forall>i<MAX_TASKS. t_state (task_at k i) = TASK_RUNNING \<longrightarrow> i = task_running k)
    \<and> t_state (task_at k (task_idle k)) \<in> {TASK_READY, TASK_RUNNING}"

lemma sched_ok_schedule: "sched_ok k \<Longrightarrow> sched_ok (schedule k) \<and> t_state (running_task (schedule k)) = TASK_RUNNING"
  by (auto simp: sched_ok_def schedule_fields after_switch_def)


section \<open>The tick\<close>

definition sleeper_due :: "u32 \<Rightarrow> task \<Rightarrow> bool" where
  "sleeper_due now t \<longleftrightarrow> t_state t = TASK_SLEEPING \<and> sint (now - wake_tick t) \<ge> 0"

lemma sched_wake_at:
  assumes "i < length (task_table k)"
  shows "task_table (sched_wake i k) = (task_table k)[i := t_state_update (\<lambda>_. TASK_READY) (task_at k i)]"
  by (simp add: sched_wake_def Let_def upd_task_def)

lemma sched_wake_simps [simp]:
  "task_running (sched_wake i k) = task_running k" "task_idle (sched_wake i k) = task_idle k"
  "task_init_thread (sched_wake i k) = task_init_thread k"
  "current_policy (sched_wake i k) = current_policy k" "ticks (sched_wake i k) = ticks k"
  "mutexes (sched_wake i k) = mutexes k" "handles (sched_wake i k) = handles k"
  "pipes (sched_wake i k) = pipes k" "heap (sched_wake i k) = heap k" "tables (sched_wake i k) = tables k"
  "dirs (sched_wake i k) = dirs k" "upages (sched_wake i k) = upages k" "next_pid (sched_wake i k) = next_pid k"
  "kernel_page_dir (sched_wake i k) = kernel_page_dir k" "cr3 (sched_wake i k) = cr3 k"
  "length (task_table (sched_wake i k)) = length (task_table k)"
  "kernel.more (sched_wake i k) = kernel.more k"
  by (simp_all add: sched_wake_def Let_def)

lemma tables_ok_wake [simp]: "tables_ok (sched_wake i k) = tables_ok k"
  by (simp add: tables_ok_def)

definition wake_due :: "u32 \<Rightarrow> nat \<Rightarrow> 'a kernel_scheme \<Rightarrow> 'a kernel_scheme" where
  "wake_due now i k = (if t_state (task_at k i) = TASK_SLEEPING \<and> sint (now - wake_tick (task_at k i)) \<ge> 0
                       then sched_wake i k else k)"

lemma wake_due_simps [simp]:
  "task_running (wake_due now i k) = task_running k" "task_idle (wake_due now i k) = task_idle k"
  "ticks (wake_due now i k) = ticks k" "length (task_table (wake_due now i k)) = length (task_table k)"
  "current_policy (wake_due now i k) = current_policy k"
  by (simp_all add: wake_due_def)

lemma wake_fold:
  assumes "distinct js" "set js \<subseteq> {..<length (task_table k)}"
  shows "task_at (fold (wake_due now) js k) i =
      (if i \<in> set js \<and> sleeper_due now (task_at k i) then t_state_update (\<lambda>_. TASK_READY) (task_at k i)
       else task_at k i)
    \<and> task_running (fold (wake_due now) js k) = task_running k
    \<and> task_idle (fold (wake_due now) js k) = task_idle k
    \<and> length (task_table (fold (wake_due now) js k)) = length (task_table k)"
  using assms
proof (induction js arbitrary: k)
  case (Cons j js)
  have j: "j < length (task_table k)" "j \<notin> set js" using Cons.prems by auto
  have at: "task_at (wake_due now j k) i =
      (if i = j \<and> sleeper_due now (task_at k i) then t_state_update (\<lambda>_. TASK_READY) (task_at k i) else task_at k i)"
    using j(1) by (auto simp: wake_due_def sleeper_due_def sched_wake_at nth_list_update)
  show ?case using Cons.IH [of "wake_due now j k"] Cons.prems j(2) unfolding at by auto
qed simp

lemma sched_tick_wake:
  fixes k :: "'a kernel_scheme"
  shows "sched_tick k =
   (let k = upd_running (cpu_ticks_update (\<lambda>c. c + 1)) (fold (wake_due (ticks k)) [0..<MAX_TASKS] k)
    in if task_running k = task_idle k then k
       else let k = upd_running (slice_update (\<lambda>s. s - 1)) k
            in if slice (running_task k) \<le> 0 then k\<lparr>need_resched := True\<rparr> else k)"
proof -
  have "(\<lambda>i (s :: 'a kernel_scheme). if t_state (task_at s i) = TASK_SLEEPING \<and> sint (ticks k - wake_tick (task_at s i)) \<ge> 0
           then sched_wake i s else s) = wake_due (ticks k)"
    by (intro ext) (simp add: wake_due_def)
  then show ?thesis unfolding sched_tick_def by (simp only: Let_def)
qed

text \<open>The differences of ticks tell the right order across a wrap of the counter.\<close>

lemma tick_elapsed:
  assumes "d < 2 ^ 31" "e < 2 ^ 31"
  shows "sint ((start + word_of_int (int e)) - (start + word_of_int (int d)) :: u32) = int e - int d"
proof -
  have e: "(start + word_of_int (int e)) - (start + word_of_int (int d)) = (word_of_int (int e - int d) :: u32)"
    by simp
  have "- 2147483648 \<le> int e - int d" "int e - int d < 2147483648" using assms by auto
  then have "sint (word_of_int (int e - int d) :: u32) = int e - int d"
    by (simp only: signed_of_int) (simp add: signed_take_bit_int_eq_self)
  then show ?thesis by (simp only: e)
qed

lemma sched_tick_at:
  assumes k: "tables_ok k" and i: "i < MAX_TASKS"
  shows "t_state (task_at (sched_tick k) i) =
     (if sleeper_due (ticks k) (task_at k i) then TASK_READY else t_state (task_at k i))"
    and "task_running (sched_tick k) = task_running k"
    and "length (task_table (sched_tick k)) = length (task_table k)"
    and "cpu_ticks (task_at (sched_tick k) i) = cpu_ticks (task_at k i) + (if i = task_running k then 1 else 0)"
    and "slice (task_at (sched_tick k) i) =
      slice (task_at k i) - (if i = task_running k \<and> i \<noteq> task_idle k then 1 else 0)"
    and "task_running k \<noteq> task_idle k \<Longrightarrow> slice (running_task k) \<le> 1 \<Longrightarrow> need_resched (sched_tick k)"
proof -
  have len: "length (task_table k) = MAX_TASKS" "task_running k < MAX_TASKS" using k by (simp_all add: tables_ok_def)
  define k1 where "k1 = fold (wake_due (ticks k)) [0..<MAX_TASKS] k"
  have sub: "set [0..<MAX_TASKS] \<subseteq> {..<length (task_table k)}" using len by auto
  have at: "task_at k1 j = (if j < MAX_TASKS \<and> sleeper_due (ticks k) (task_at k j)
         then t_state_update (\<lambda>_. TASK_READY) (task_at k j) else task_at k j)" for j
    using wake_fold [OF distinct_upt sub, of "ticks k" j] unfolding k1_def by simp
  have fr: "task_running k1 = task_running k" "task_idle k1 = task_idle k" "length (task_table k1) = MAX_TASKS"
    using wake_fold [OF distinct_upt sub, of "ticks k" 0] len unfolding k1_def by simp_all
  note T = sched_tick_wake [of k, folded k1_def]
  have st: "t_state (task_at k1 i) = (if sleeper_due (ticks k) (task_at k i) then TASK_READY else t_state (task_at k i))"
    "slice (task_at k1 j) = slice (task_at k j)" "cpu_ticks (task_at k1 j) = cpu_ticks (task_at k j)" for j
    using i by (simp_all add: at)
  show "t_state (task_at (sched_tick k) i) =
     (if sleeper_due (ticks k) (task_at k i) then TASK_READY else t_state (task_at k i))"
    unfolding T using len fr st(1) by (simp add: Let_def task_at_upd)
  show "cpu_ticks (task_at (sched_tick k) i) = cpu_ticks (task_at k i) + (if i = task_running k then 1 else 0)"
    unfolding T using len fr st by (simp add: Let_def task_at_upd)
  show "slice (task_at (sched_tick k) i) =
      slice (task_at k i) - (if i = task_running k \<and> i \<noteq> task_idle k then 1 else 0)"
    unfolding T using len fr st by (simp add: Let_def task_at_upd)
  show "task_running (sched_tick k) = task_running k"
    unfolding T using fr by (simp add: Let_def)
  show "length (task_table (sched_tick k)) = length (task_table k)"
    unfolding T using fr len by (simp add: Let_def)
  show "need_resched (sched_tick k)" if "task_running k \<noteq> task_idle k" "slice (running_task k) \<le> 1"
    unfolding T using fr len st(2) [of "task_running k"] that by (simp add: Let_def task_at_upd)
qed

lemma scan_pos_val: "i < MAX_TASKS \<Longrightarrow> task_running k < MAX_TASKS \<Longrightarrow>
    scan_pos k i = (if i \<le> task_running k then i + 15 - task_running k else i - Suc (task_running k))"
  by (auto simp: scan_pos_def mod_if)

text \<open>When the turn passes to \<open>s\<close>, what stood behind \<open>s\<close> in the scan moves up.\<close>

lemma scan_pos_step:
  assumes "i < MAX_TASKS" "s < MAX_TASKS" "task_running k < MAX_TASKS"
    and "scan_pos k s < scan_pos k i"
  shows "(i + MAX_TASKS - Suc s) mod MAX_TASKS < scan_pos k i"
  using assms by (auto simp: scan_pos_val mod_if split: if_splits)

section \<open>The properties\<close>

text \<open>C8. Under the fixed-priority and the EDF policies \<^verbatim>\<open>sched_pick_next\<close> chooses a runnable task
  that no runnable task goes before, and the idle task only when nothing else can run. It
  keeps the running task only when that one goes before every other: among equals the turn
  passes on. For EDF the deadlines have to lie within 2^30 ticks of each other.\<close>

theorem sched_pick_best:
  assumes "tables_ok k" "current_policy k \<noteq> SCHED_ROUND_ROBIN"
    and "current_policy k = SCHED_EDF \<longrightarrow> deadlines_near k"
  shows "(sched_pick_next k = task_idle k \<and> (\<forall>i. \<not> candidate k i))
    \<or> (candidate k (sched_pick_next k)
       \<and> (\<forall>i. candidate k i \<longrightarrow> \<not> sched_runs_before (current_policy k) (task_at k i) (task_at k (sched_pick_next k)))
       \<and> (sched_pick_next k = task_running k \<longrightarrow>
           (\<forall>i. candidate k i \<longrightarrow> i \<noteq> task_running k \<longrightarrow>
              sched_runs_before (current_policy k) (running_task k) (task_at k i))))"
proof -
  have "order_ok k" using assms(3) order_ok_priority order_ok_edf by blast
  then show ?thesis using pick_best [of k] assms(1,2) by (simp add: tables_ok_def beats_def)
qed

text \<open>C9. Round robin starves nobody: a task that stays runnable is chosen within sixteen calls of
  \<^verbatim>\<open>schedule\<close>, whatever the other tasks do between them.\<close>

theorem sched_rr_no_starvation:
  assumes "\<And>n. tables_ok (ks n)" "\<And>n. current_policy (ks n) = SCHED_ROUND_ROBIN"
    and nxt: "\<And>n. task_running (ks (Suc n)) = task_running (schedule (ks n))"
    and "\<And>n. candidate (ks n) i"
  shows "\<exists>n<MAX_TASKS. task_running (schedule (ks n)) = i"
proof (rule ccontr)
  assume "\<not> ?thesis"
  then have ne: "n < MAX_TASKS \<Longrightarrow> sched_pick_next (ks n) \<noteq> i" for n by auto
  have r: "task_running (ks n) < MAX_TASKS" for n using assms(1) [of n] by (simp add: tables_ok_def)
  have i: "i < MAX_TASKS" using assms(4) [of 0] by (simp add: candidate_def)
  have "scan_pos (ks n) i + n < MAX_TASKS" if "n \<le> MAX_TASKS" for n
    using that
  proof (induction n)
    case 0
    then show ?case by (simp add: scan_pos_def)
  next
    case (Suc n)
    define s where "s = sched_pick_next (ks n)"
    have s: "candidate (ks n) s" "scan_pos (ks n) s \<le> scan_pos (ks n) i" "s \<noteq> i"
      using pick_rr [OF r assms(2), of n] assms(4) [of n] ne [of n] Suc.prems unfolding s_def by auto
    have sl: "s < MAX_TASKS" using s(1) by (simp add: candidate_def)
    have ni: "scan_pos (ks n) s \<noteq> scan_pos (ks n) i"
      using scan_pos_nth [OF sl r [of n]] scan_pos_nth [OF i r [of n]] s(3) by metis
    have run: "task_running (ks (Suc n)) = s" using nxt by (simp add: s_def)
    have "scan_pos (ks (Suc n)) i < scan_pos (ks n) i"
      using scan_pos_step [OF i sl r, of n] s(2) ni by (simp add: scan_pos_def [of "ks (Suc n)"] run)
    then show ?case using Suc by simp
  qed
  from this [of MAX_TASKS] show False by simp
qed

text \<open>C10. A timer tick wakes exactly the sleeping tasks whose time has come and leaves every other
  state alone, counts the tick to the running task and only to it, and asks for a
  reschedule when the time slice of a task other than idle is used up. A task put to sleep at
  tick \<open>start\<close> for \<open>d\<close> ticks is due exactly when \<open>e \<ge> d\<close> ticks have passed, across a wrap of
  the 32-bit counter too.\<close>

theorem sched_tick_wakes:
  assumes "tables_ok k" "i < MAX_TASKS"
  shows "t_state (task_at (sched_tick k) i) =
      (if sleeper_due (ticks k) (task_at k i) then TASK_READY else t_state (task_at k i))
    \<and> cpu_ticks (task_at (sched_tick k) i) = cpu_ticks (task_at k i) + (if i = task_running k then 1 else 0)
    \<and> (task_running k \<noteq> task_idle k \<longrightarrow> slice (running_task k) \<le> 1 \<longrightarrow> need_resched (sched_tick k))
    \<and> (\<forall>start d e. d < 2 ^ 31 \<longrightarrow> e < 2 ^ 31 \<longrightarrow> t_state (task_at k i) = TASK_SLEEPING \<longrightarrow>
        wake_tick (task_at k i) = start + word_of_int (int d) \<longrightarrow> ticks k = start + word_of_int (int e) \<longrightarrow>
        (t_state (task_at (sched_tick k) i) = TASK_READY \<longleftrightarrow> d \<le> e))"
  using sched_tick_at [OF assms] tick_elapsed
  by (auto simp: sleeper_due_def)


section \<open>Examples\<close>

text \<open>The idle task in slot 0, a task that sleeps until tick 5 in slot 2, tasks of priority 3 and 7
  in the slots 3 and 4, the first of them running. It is tick 7.\<close>

definition demo_tasks :: "task list" where
  "demo_tasks = [zero_task\<lparr>t_state := TASK_READY\<rparr>, zero_task,
     zero_task\<lparr>t_state := TASK_SLEEPING, wake_tick := 5\<rparr>,
     zero_task\<lparr>t_state := TASK_RUNNING, priority := 3, slice := 1, period_ticks := 10, deadline := 0xFFFFFFFE\<rparr>,
     zero_task\<lparr>t_state := TASK_READY, priority := 7, period_ticks := 20, deadline := 3\<rparr>] @ replicate 11 zero_task"

definition demo_sched :: "sched_policy \<Rightarrow> kernel" where
  "demo_sched p = zero_kernel\<lparr>task_table := demo_tasks, task_running := 3, current_policy := p, ticks := 7\<rparr>"

lemma demo_sched_ok: "tables_ok (demo_sched p)"
  by (simp add: demo_sched_def demo_tasks_def zero_kernel_def tables_ok_def)

lemma demo_candidates: "candidate (demo_sched p) i \<longleftrightarrow> i = 3 \<or> i = 4"
proof -
  have u: "t_state zero_task = TASK_UNUSED" by (simp add: zero_task_def)
  have "i < MAX_TASKS \<Longrightarrow> i \<in> {0, 1, 2, 3, 4} \<or> (\<exists>j<11. i = j + 5)"
    by (auto intro: exI [of _ "i - 5"])
  then show ?thesis
    by (auto simp: candidate_def task_runnable_def demo_sched_def demo_tasks_def zero_kernel_def nth_append u)
qed

lemma demo_at: "task_at (demo_sched p) 3 = demo_tasks ! 3" "task_at (demo_sched p) 4 = demo_tasks ! 4"
  by (simp_all add: demo_sched_def)

lemma demo_fields: "priority (demo_tasks ! 3) = 3" "period_ticks (demo_tasks ! 3) = 10"
  "deadline (demo_tasks ! 3) = 0xFFFFFFFE" "priority (demo_tasks ! 4) = 7"
  "period_ticks (demo_tasks ! 4) = 20" "deadline (demo_tasks ! 4) = 3"
  by (simp_all add: demo_tasks_def)

theorem sched_pick_best_witness: "sched_pick_next (demo_sched SCHED_EDF) = 3"
proof -
  have "deadlines_near (demo_sched SCHED_EDF)"
    unfolding deadlines_near_def by (rule exI [of _ "0xFFFFFFF0"]) (auto simp: demo_candidates demo_at demo_fields)
  moreover have "sched_runs_before SCHED_EDF (task_at (demo_sched SCHED_EDF) 3) (task_at (demo_sched SCHED_EDF) 4)"
    by (simp add: sched_runs_before_def sched_edf_class_def demo_at demo_fields)
  moreover have "current_policy (demo_sched SCHED_EDF) = SCHED_EDF" by (simp add: demo_sched_def)
  ultimately show ?thesis
    using sched_pick_best [of "demo_sched SCHED_EDF"] demo_sched_ok demo_candidates by auto
qed

definition demo_turns :: "nat \<Rightarrow> kernel" where
  "demo_turns n = (if n = 0 then demo_sched SCHED_ROUND_ROBIN
                   else (demo_sched SCHED_ROUND_ROBIN)\<lparr>task_running := 4\<rparr>)"

lemma demo_turns_pick: "sched_pick_next (demo_turns n) = 4"
  by (simp add: demo_turns_def sched_pick_next_def task_runnable_def demo_sched_def demo_tasks_def
        zero_kernel_def zero_task_def upt_rec)

theorem sched_rr_no_starvation_witness:
  "\<exists>n<MAX_TASKS. task_running (schedule (demo_turns n)) = 4"
proof (rule sched_rr_no_starvation)
  fix n
  show "tables_ok (demo_turns n)" "current_policy (demo_turns n) = SCHED_ROUND_ROBIN"
    using demo_sched_ok [of SCHED_ROUND_ROBIN]
    by (auto simp: demo_turns_def tables_ok_def) (simp_all add: demo_sched_def)
  show "task_running (demo_turns (Suc n)) = task_running (schedule (demo_turns n))"
    by (simp add: demo_turns_pick) (simp add: demo_turns_def)
  show "candidate (demo_turns n) 4"
    by (simp add: demo_turns_def candidate_def task_runnable_def demo_sched_def demo_tasks_def zero_kernel_def)
qed

theorem sched_tick_wakes_witness:
  "t_state (task_at (sched_tick (demo_sched SCHED_ROUND_ROBIN)) 2) = TASK_READY
   \<and> need_resched (sched_tick (demo_sched SCHED_ROUND_ROBIN))"
proof -
  have "sleeper_due 7 (zero_task\<lparr>t_state := TASK_SLEEPING, wake_tick := 5\<rparr>)"
    by (simp add: sleeper_due_def)
  then show ?thesis
    using sched_tick_wakes [OF demo_sched_ok, of 2 SCHED_ROUND_ROBIN]
    by (simp add: demo_sched_def demo_tasks_def zero_kernel_def)
qed

end
