(* ===== verification/Mutex.thy ===== *)
theory Mutex
  imports Sched
begin

text \<open>
  Blocking on a channel (\<^verbatim>\<open>task_block_on\<close>, \<^verbatim>\<open>task_wake_channel\<close> of \<^verbatim>\<open>src/kernel/task/task.c\<close>) and
  the mutexes of \<^verbatim>\<open>src/kernel/task/mutex.c\<close> with priority inheritance.

  A call that blocks ends in \<open>Switched\<close>: the state when another task runs. When the caller runs
  again it goes on in the function named \<open>..._resumed\<close>.
\<close>

section \<open>Channels\<close>

datatype ('k, 'r) outcome = Done 'k 'r | Switched 'k

fun out_state :: "('k, 'r) outcome \<Rightarrow> 'k" where
  "out_state (Done k r) = k"
| "out_state (Switched k) = k"

definition task_block_on :: "channel \<Rightarrow> ctx \<Rightarrow> 'a kernel_scheme \<Rightarrow> 'a kernel_scheme" where
  "task_block_on ch c k =
    schedule (upd_running (\<lambda>t. t\<lparr>wait_channel := Some ch, t_state := TASK_BLOCKED, saved_ctx := c\<rparr>) k)"

definition task_block_on_resumed :: "'a kernel_scheme \<Rightarrow> 'a kernel_scheme" where
  "task_block_on_resumed k = upd_running (wait_channel_update (\<lambda>_. None)) k"

definition wake_waiter :: "channel \<Rightarrow> nat \<Rightarrow> 'a kernel_scheme \<Rightarrow> 'a kernel_scheme" where
  "wake_waiter ch i k =
    (if t_state (task_at k i) = TASK_BLOCKED \<and> wait_channel (task_at k i) = Some ch then sched_wake i k else k)"

definition task_wake_channel :: "channel \<Rightarrow> 'a kernel_scheme \<Rightarrow> 'a kernel_scheme" where
  "task_wake_channel ch k = fold (wake_waiter ch) [0..<MAX_TASKS] k"

section \<open>The code\<close>

abbreviation (input) MUTEX_INHERIT :: u32 where "MUTEX_INHERIT \<equiv> 1"

definition mutex_bit :: "nat \<Rightarrow> u32" where
  "mutex_bit i = push_bit i 1"

definition has_open :: "task \<Rightarrow> nat \<Rightarrow> bool" where
  "has_open t i \<longleftrightarrow> open_mutexes t AND mutex_bit i \<noteq> 0"

definition mutex_get :: "int \<Rightarrow> 'a kernel_scheme \<Rightarrow> nat option" where
  "mutex_get mid k =
    (if mid < 0 \<or> mid \<ge> int MAX_MUTEXES \<or> m_refs (mutex_at k (nat mid)) = 0
        \<or> \<not> has_open (running_task k) (nat mid)
     then None else Some (nat mid))"

text \<open>The search of \<^verbatim>\<open>mutex_open\<close>: the mutex of that name, and the first free slot seen.\<close>

fun open_loop :: "'a kernel_scheme \<Rightarrow> bytes \<Rightarrow> nat list \<Rightarrow> nat option \<Rightarrow> nat option \<times> nat option" where
  "open_loop k name [] free_id = (None, free_id)"
| "open_loop k name (i # is) free_id =
    (if m_refs (mutex_at k i) \<noteq> 0 \<and> strcmp (m_name (mutex_at k i)) name = 0 then (Some i, free_id)
     else if m_refs (mutex_at k i) = 0 \<and> free_id = None then open_loop k name is (Some i)
     else open_loop k name is free_id)"

definition mutex_open :: "bytes \<Rightarrow> u32 \<Rightarrow> 'a kernel_scheme \<Rightarrow> 'a kernel_scheme \<times> (error + nat)" where
  "mutex_open name flags k =
    (if strlen name \<ge> MUTEX_NAME_LEN then (k, Inl INVALID_ARG_ERROR)
     else
       let (found, free_id) = open_loop k name [0..<MAX_MUTEXES] None;
           (k, mid) =
             (case (found, free_id) of
                (None, Some f) \<Rightarrow>
                  (upd_mutex f (\<lambda>_. zero_mutex\<lparr>m_name := name, inherit := flags AND MUTEX_INHERIT \<noteq> 0\<rparr>) k, Some f)
              | (found, _) \<Rightarrow> (k, found))
       in case mid of
            None \<Rightarrow> (k, Inl NO_MEMORY_ERROR)
          | Some i \<Rightarrow>
              (if \<not> has_open (running_task k) i
               then upd_running (open_mutexes_update (\<lambda>b. b OR mutex_bit i))
                      (upd_mutex i (m_refs_update (\<lambda>r. r + 1)) k)
               else k, Inr i))"

fun mutex_boost_loop :: "nat \<Rightarrow> nat option \<Rightarrow> u8 \<Rightarrow> 'a kernel_scheme \<Rightarrow> 'a kernel_scheme" where
  "mutex_boost_loop 0 p prio k = k"
| "mutex_boost_loop (Suc d) None prio k = k"
| "mutex_boost_loop (Suc d) (Some p) prio k =
    (if priority (task_at k p) \<ge> prio then k
     else let k = upd_task p (priority_update (\<lambda>_. prio)) k
          in mutex_boost_loop d
               (case wait_mutex (task_at k p) of
                  None \<Rightarrow> None
                | Some m \<Rightarrow> if inherit (mutex_at k m) then owner (mutex_at k m) else None) prio k)"

definition mutex_boost :: "nat option \<Rightarrow> u8 \<Rightarrow> 'a kernel_scheme \<Rightarrow> 'a kernel_scheme" where
  "mutex_boost p prio k = mutex_boost_loop MAX_TASKS p prio k"

definition waits_for :: "'a kernel_scheme \<Rightarrow> nat \<Rightarrow> nat \<Rightarrow> bool" where
  "waits_for k i t \<longleftrightarrow> t_state (task_at k i) = TASK_BLOCKED
     \<and> (case wait_mutex (task_at k i) of
          None \<Rightarrow> False
        | Some m \<Rightarrow> owner (mutex_at k m) = Some t \<and> inherit (mutex_at k m))"

definition mutex_update_priority :: "nat \<Rightarrow> 'a kernel_scheme \<Rightarrow> 'a kernel_scheme" where
  "mutex_update_priority t k =
    (if killed (task_at k t) then k
     else let prio = fold (\<lambda>i prio. if waits_for k i t \<and> priority (task_at k i) > prio
                                    then priority (task_at k i) else prio)
                       [0..<MAX_TASKS] (base_priority (task_at k t))
          in sched_request_resched (upd_task t (priority_update (\<lambda>_. prio)) k))"

text \<open>One round of the loop of \<^verbatim>\<open>mutex_lock\<close>, and what comes after it.\<close>

definition mutex_lock_loop :: "nat \<Rightarrow> 'a kernel_scheme \<Rightarrow> ('a kernel_scheme, error + int) outcome" where
  "mutex_lock_loop mid k =
    (if owner (mutex_at k mid) \<noteq> None \<and> owner (mutex_at k mid) \<noteq> Some (task_running k)
        \<and> \<not> killed (running_task k)
     then let k = upd_running (wait_mutex_update (\<lambda>_. Some mid)) k;
              k = (if inherit (mutex_at k mid)
                   then mutex_boost (owner (mutex_at k mid)) (priority (running_task k)) k else k)
          in Switched (task_block_on (Ch_mutex mid) (Ctx_lock mid) k)
     else case owner (mutex_at k mid) of
            None \<Rightarrow> Done (upd_mutex mid (owner_update (\<lambda>_. Some (task_running k))) k) (Inr 0)
          | Some t \<Rightarrow>
              if t \<noteq> task_running k then Done (mutex_update_priority t k) (Inr TASK_KILLED)
              else Done k (Inr 0))"

definition mutex_lock :: "int \<Rightarrow> 'a kernel_scheme \<Rightarrow> ('a kernel_scheme, error + int) outcome" where
  "mutex_lock mid k =
    (case mutex_get mid k of
       None \<Rightarrow> Done k (Inl INVALID_ARG_ERROR)
     | Some m \<Rightarrow>
         if owner (mutex_at k m) = Some (task_running k) then Done k (Inl INVALID_ARG_ERROR)
         else mutex_lock_loop m k)"

definition mutex_lock_resumed :: "nat \<Rightarrow> 'a kernel_scheme \<Rightarrow> ('a kernel_scheme, error + int) outcome" where
  "mutex_lock_resumed m k =
    mutex_lock_loop m (upd_running (wait_mutex_update (\<lambda>_. None)) (task_block_on_resumed k))"

fun hand_over_loop :: "'a kernel_scheme \<Rightarrow> nat \<Rightarrow> nat list \<Rightarrow> nat option \<Rightarrow> nat option" where
  "hand_over_loop k m [] best = best"
| "hand_over_loop k m (i # is) best =
    hand_over_loop k m is
      (if t_state (task_at k i) = TASK_BLOCKED \<and> wait_channel (task_at k i) = Some (Ch_mutex m)
          \<and> (case best of None \<Rightarrow> True | Some b \<Rightarrow> priority (task_at k i) > priority (task_at k b))
       then Some i else best)"

definition mutex_hand_over :: "nat \<Rightarrow> 'a kernel_scheme \<Rightarrow> 'a kernel_scheme" where
  "mutex_hand_over m k =
    (let old_owner = owner (mutex_at k m);
         nxt = hand_over_loop k m [0..<MAX_TASKS] None;
         k = upd_mutex m (owner_update (\<lambda>_. nxt)) k;
         k = (case nxt of None \<Rightarrow> k | Some t \<Rightarrow> sched_wake t k)
     in case old_owner of None \<Rightarrow> k | Some t \<Rightarrow> mutex_update_priority t k)"

definition mutex_unlock :: "int \<Rightarrow> 'a kernel_scheme \<Rightarrow> 'a kernel_scheme \<times> (error + int)" where
  "mutex_unlock mid k =
    (case mutex_get mid k of
       None \<Rightarrow> (k, Inl INVALID_ARG_ERROR)
     | Some m \<Rightarrow>
         if owner (mutex_at k m) \<noteq> Some (task_running k) then (k, Inl INVALID_ARG_ERROR)
         else (mutex_hand_over m k, Inr 0))"

definition mutex_close_task :: "nat \<Rightarrow> nat \<Rightarrow> 'a kernel_scheme \<Rightarrow> 'a kernel_scheme" where
  "mutex_close_task t m k =
    (let k = (if owner (mutex_at k m) = Some t then mutex_hand_over m k else k);
         k = upd_task t (open_mutexes_update (\<lambda>b. b AND NOT (mutex_bit m))) k
     in upd_mutex m (m_refs_update (\<lambda>r. r - 1)) k)"

definition mutex_close :: "int \<Rightarrow> 'a kernel_scheme \<Rightarrow> 'a kernel_scheme \<times> (error + int)" where
  "mutex_close mid k =
    (case mutex_get mid k of
       None \<Rightarrow> (k, Inl INVALID_ARG_ERROR)
     | Some m \<Rightarrow> (mutex_close_task (task_running k) m k, Inr 0))"

definition mutex_release_all :: "nat \<Rightarrow> 'a kernel_scheme \<Rightarrow> 'a kernel_scheme" where
  "mutex_release_all t k =
    fold (\<lambda>m k. if has_open (task_at k t) m then mutex_close_task t m k else k) [0..<MAX_MUTEXES] k"


section \<open>Bits\<close>

lemma has_open_bit: "has_open t i \<longleftrightarrow> bit (open_mutexes t) i"
  by (simp add: has_open_def mutex_bit_def and_exp_eq_0_iff_not_bit)

lemma has_open_set [simp]: "i < 32 \<Longrightarrow> j < 32 \<Longrightarrow>
    has_open (open_mutexes_update (\<lambda>b. b OR mutex_bit i) t) j \<longleftrightarrow> has_open t j \<or> i = j"
  by (auto simp: has_open_bit mutex_bit_def bit_simps)

lemma has_open_clear [simp]: "i < 32 \<Longrightarrow> j < 32 \<Longrightarrow>
    has_open (open_mutexes_update (\<lambda>b. b AND NOT (mutex_bit i)) t) j \<longleftrightarrow> has_open t j \<and> i \<noteq> j"
  by (auto simp: has_open_bit mutex_bit_def bit_simps)

lemma has_open_frame [simp]:
  "has_open (t_state_update s t) j = has_open t j" "has_open (priority_update q t) j = has_open t j"
  "has_open (wait_mutex_update w t) j = has_open t j" "has_open (wait_channel_update c t) j = has_open t j"
  "has_open (saved_ctx_update x t) j = has_open t j"
  by (simp_all add: has_open_def)

lemma open_zero: "open_mutexes t = 0 \<longleftrightarrow> (\<forall>i<32. \<not> has_open t i)"
  unfolding has_open_bit by (auto intro: bit_word_eqI)

section \<open>The invariant\<close>

definition blocked :: "'a kernel_scheme \<Rightarrow> nat \<Rightarrow> bool" where
  "blocked k i \<longleftrightarrow> i < MAX_TASKS \<and> t_state (task_at k i) = TASK_BLOCKED"

definition openers :: "'a kernel_scheme \<Rightarrow> nat \<Rightarrow> nat set" where
  "openers k m = {i. i < MAX_TASKS \<and> has_open (task_at k i) m}"

text \<open>A mutex counts the tasks that have it open; its owner is one of them; a task that
  waits for it has it open, waits on its channel and for another task; and slots that hold no
  live task have no mutex.\<close>

definition refs_ok :: "'a kernel_scheme \<Rightarrow> bool" where
  "refs_ok k \<longleftrightarrow> (\<forall>m<MAX_MUTEXES. m_refs (mutex_at k m) = int (card (openers k m)))"

definition owners_ok :: "'a kernel_scheme \<Rightarrow> bool" where
  "owners_ok k \<longleftrightarrow> (\<forall>m<MAX_MUTEXES. \<forall>t. owner (mutex_at k m) = Some t \<longrightarrow> t \<in> openers k m)"

definition waits_ok :: "'a kernel_scheme \<Rightarrow> bool" where
  "waits_ok k \<longleftrightarrow> (\<forall>i<MAX_TASKS. \<forall>m. wait_mutex (task_at k i) = Some m \<longrightarrow>
      m < MAX_MUTEXES \<and> has_open (task_at k i) m)"

definition channels_ok :: "'a kernel_scheme \<Rightarrow> bool" where
  "channels_ok k \<longleftrightarrow> (\<forall>i m. blocked k i \<longrightarrow>
      (wait_channel (task_at k i) = Some (Ch_mutex m) \<longleftrightarrow> wait_mutex (task_at k i) = Some m))"

definition waiters_ok :: "'a kernel_scheme \<Rightarrow> bool" where
  "waiters_ok k \<longleftrightarrow> (\<forall>i m. blocked k i \<longrightarrow> wait_mutex (task_at k i) = Some m \<longrightarrow>
      (\<exists>t. owner (mutex_at k m) = Some t \<and> t \<noteq> i))"

definition no_life :: "task_state \<Rightarrow> bool" where
  "no_life s \<longleftrightarrow> s \<in> {TASK_UNUSED, TASK_LOADING, TASK_ZOMBIE}"

definition dead_ok :: "'a kernel_scheme \<Rightarrow> bool" where
  "dead_ok k \<longleftrightarrow> (\<forall>i<MAX_TASKS. no_life (t_state (task_at k i)) \<longrightarrow> open_mutexes (task_at k i) = 0)"

definition mutex_ok :: "'a kernel_scheme \<Rightarrow> bool" where
  "mutex_ok k \<longleftrightarrow> sched_ok k \<and> refs_ok k \<and> owners_ok k \<and> waits_ok k \<and> channels_ok k \<and> waiters_ok k \<and> dead_ok k"

lemmas mutex_parts = refs_ok_def owners_ok_def waits_ok_def channels_ok_def waiters_ok_def dead_ok_def

text \<open>With priority inheritance the owner of a mutex runs at least at the priority of its waiters.\<close>

definition pi_ok :: "'a kernel_scheme \<Rightarrow> bool" where
  "pi_ok k \<longleftrightarrow> (\<forall>i<MAX_TASKS. base_priority (task_at k i) \<le> priority (task_at k i))
     \<and> (\<forall>i<MAX_TASKS. \<forall>t. waits_for k i t \<longrightarrow> priority (task_at k i) \<le> priority (task_at k t))"

lemma mutex_okD:
  assumes "mutex_ok k"
  shows "sched_ok k" "tables_ok k" "refs_ok k" "owners_ok k" "waits_ok k" "channels_ok k" "waiters_ok k" "dead_ok k"
  using assms by (auto simp: mutex_ok_def sched_ok_def)

lemma owner_open: "mutex_ok k \<Longrightarrow> m < MAX_MUTEXES \<Longrightarrow> owner (mutex_at k m) = Some t \<Longrightarrow>
    t < MAX_TASKS \<and> has_open (task_at k t) m"
  by (auto simp: openers_def dest!: mutex_okD(4) simp: owners_ok_def)

lemma waits_forE:
  assumes "waits_for k i t"
  obtains m where "t_state (task_at k i) = TASK_BLOCKED" "wait_mutex (task_at k i) = Some m"
    "owner (mutex_at k m) = Some t" "inherit (mutex_at k m)"
  using assms by (auto simp: waits_for_def split: option.splits)

lemma waits_for_owner:
  assumes k: "mutex_ok k" and i: "i < MAX_TASKS" and w: "waits_for k i t"
  shows "t < MAX_TASKS \<and> t \<noteq> i"
  using w
proof (rule waits_forE)
  fix m assume m: "t_state (task_at k i) = TASK_BLOCKED" "wait_mutex (task_at k i) = Some m"
    "owner (mutex_at k m) = Some t"
  have "m < MAX_MUTEXES" using mutex_okD(5) [OF k] i m(2) by (auto simp: waits_ok_def)
  then have "t < MAX_TASKS" using owner_open [OF k _ m(3)] by blast
  moreover have "t \<noteq> i" using mutex_okD(7) [OF k] i m unfolding waiters_ok_def blocked_def by force
  ultimately show ?thesis ..
qed

text \<open>Everything the invariant looks at.\<close>

definition same_view :: "'a kernel_scheme \<Rightarrow> 'b kernel_scheme \<Rightarrow> bool" where
  "same_view k k' \<longleftrightarrow> mutexes k' = mutexes k \<and> length (task_table k') = length (task_table k)
     \<and> task_running k' = task_running k \<and> task_idle k' = task_idle k \<and> task_init_thread k' = task_init_thread k
     \<and> (\<forall>i. t_state (task_at k' i) = t_state (task_at k i) \<and> wait_mutex (task_at k' i) = wait_mutex (task_at k i)
        \<and> wait_channel (task_at k' i) = wait_channel (task_at k i) \<and> saved_ctx (task_at k' i) = saved_ctx (task_at k i)
        \<and> open_mutexes (task_at k' i) = open_mutexes (task_at k i))"

lemma same_view_ok:
  assumes v: "same_view k k'" and k: "mutex_ok k"
  shows "mutex_ok k'"
proof -
  have "has_open (task_at k' i) m = has_open (task_at k i) m" for i m
    using v by (simp add: same_view_def has_open_def)
  then have o: "openers k' m = openers k m" for m by (simp add: openers_def)
  have b: "blocked k' i = blocked k i" for i using v by (simp add: same_view_def blocked_def)
  have s: "sched_ok k'" using v mutex_okD(1) [OF k] unfolding same_view_def sched_ok_def tables_ok_def by simp
  show ?thesis
    unfolding mutex_ok_def
    using s mutex_okD(3-8) [OF k] v
    unfolding mutex_parts o b same_view_def has_open_def by simp
qed

lemma same_view_refl [simp]: "same_view k k"
  by (simp add: same_view_def)

lemma same_view_trans: "same_view k k' \<Longrightarrow> same_view k' k'' \<Longrightarrow> same_view k k''"
  by (simp add: same_view_def)

lemma upd_task_field:
  assumes "\<And>t. g (f t) = g t"
  shows "g (task_at (upd_task i f k) j) = g (task_at k j)"
proof (cases "i < length (task_table k)")
  case True
  then show ?thesis by (simp add: task_at_upd assms)
qed (simp add: upd_task_def list_update_beyond)

lemma same_view_upd:
  assumes "\<And>t. t_state (f t) = t_state t" "\<And>t. wait_mutex (f t) = wait_mutex t"
    "\<And>t. wait_channel (f t) = wait_channel t" "\<And>t. saved_ctx (f t) = saved_ctx t"
    "\<And>t. open_mutexes (f t) = open_mutexes t"
  shows "same_view k (upd_task t f k)"
  by (simp add: same_view_def upd_task_field assms)

lemma same_view_priority [simp]: "same_view k (upd_task t (priority_update f) k)"
  by (rule same_view_upd) simp_all

lemma same_view_resched [simp]: "same_view k (sched_request_resched k)"
  by (simp add: same_view_def sched_request_resched_def)


section \<open>Priority inheritance\<close>

lemma boost_view: "same_view k (mutex_boost_loop d p prio k)"
proof (induction d arbitrary: p k)
  case (Suc d)
  show ?case
  proof (cases p)
    case (Some t)
    then show ?thesis using same_view_trans [OF same_view_priority Suc] by (simp add: Let_def)
  qed simp
qed simp

lemma boost_frame:
  assumes "\<And>g t. f (priority_update g t) = f t"
  shows "f (task_at (mutex_boost_loop d p prio k) i) = f (task_at k i)"
proof (induction d arbitrary: p k)
  case (Suc d)
  have u: "f (task_at (upd_task t (priority_update g) k) i) = f (task_at k i)" for t g and k :: "'b kernel_scheme"
    by (rule upd_task_field) (rule assms)
  show ?case by (cases p) (simp_all add: Let_def Suc u)
qed simp

lemma boost_mono: "priority (task_at k i) \<le> priority (task_at (mutex_boost_loop d p prio k) i)"
proof (induction d arbitrary: p k)
  case (Suc d)
  have u: "\<not> prio \<le> priority (task_at k t) \<Longrightarrow>
      priority (task_at k i) \<le> priority (task_at (upd_task t (priority_update (\<lambda>_. prio)) k) i)"
    for t and k :: "'b kernel_scheme"
    by (cases "t < length (task_table k)"; cases "i = t") (auto simp: upd_task_def list_update_beyond)
  show ?case
  proof (cases p)
    case (Some t)
    then show ?thesis using order_trans [OF u Suc] by (auto simp: Let_def)
  qed simp
qed simp

lemma boost_owner:
  assumes "t < length (task_table k)"
  shows "prio \<le> priority (task_at (mutex_boost_loop (Suc d) (Some t) prio k) t)"
proof (cases "prio \<le> priority (task_at k t)")
  case False
  let ?k = "upd_task t (priority_update (\<lambda>_. prio)) k"
  have "prio = priority (task_at ?k t)" using assms by simp
  then show ?thesis using boost_mono [of ?k t] False by (simp add: Let_def)
qed simp

lemma same_view_waits: "same_view k k' \<Longrightarrow> waits_for k' i t = waits_for k i t"
  by (simp add: same_view_def waits_for_def split: option.split)

text \<open>The depth limit of the boost is never reached with work left: every round raises one of
  the sixteen tasks to the priority.\<close>

lemma boost_pi:
  assumes "mutex_ok k" "\<And>t. p = Some t \<Longrightarrow> t < MAX_TASKS"
    "\<forall>i<MAX_TASKS. base_priority (task_at k i) \<le> priority (task_at k i)"
    "\<forall>i<MAX_TASKS. \<forall>t. waits_for k i t \<longrightarrow>
        priority (task_at k i) \<le> priority (task_at k t) \<or> (p = Some t \<and> priority (task_at k i) \<le> prio)"
    "card {i. i < MAX_TASKS \<and> priority (task_at k i) < prio} \<le> d"
  shows "pi_ok (mutex_boost_loop d p prio k)"
  using assms
proof (induction d arbitrary: p k)
  case 0
  have "{i. i < MAX_TASKS \<and> priority (task_at k i) < prio} = {}" using 0(5) by (simp add: card_eq_0_iff)
  then have hi: "i < MAX_TASKS \<Longrightarrow> prio \<le> priority (task_at k i)" for i by (force simp: not_less [symmetric])
  have "priority (task_at k i) \<le> priority (task_at k t)" if "i < MAX_TASKS" "waits_for k i t" for i t
    using 0(4) that hi waits_for_owner [OF 0(1) that] by (meson order_trans)
  then show ?case using 0(3) by (simp add: pi_ok_def)
next
  case (Suc d)
  show ?case
  proof (cases p)
    case None
    then show ?thesis using Suc.prems(3,4) by (simp add: pi_ok_def)
  next
    case (Some t)
    have t: "t < MAX_TASKS" "t < length (task_table k)"
      using Suc.prems(2) Some mutex_okD(2) [OF Suc.prems(1)] by (auto simp: tables_ok_def)
    show ?thesis
    proof (cases "prio \<le> priority (task_at k t)")
      case True
      then have "priority (task_at k i) \<le> priority (task_at k s)" if "i < MAX_TASKS" "waits_for k i s" for i s
        using Suc.prems(4) that Some by (metis option.inject order_trans)
      then show ?thesis using Suc.prems(3) Some True by (simp add: pi_ok_def)
    next
      case False
      let ?k = "upd_task t (priority_update (\<lambda>_. prio)) k"
      let ?q = "case wait_mutex (task_at k t) of
                  None \<Rightarrow> None | Some m \<Rightarrow> if inherit (mutex_at k m) then owner (mutex_at k m) else None"
      have v: "same_view k ?k" by simp
      have k: "mutex_ok ?k" using same_view_ok [OF v Suc.prems(1)] .
      have at: "task_at ?k i = (if i = t then priority_update (\<lambda>_. prio) (task_at k i) else task_at k i)" for i
        using t by (simp add: task_at_upd)
      have q: "s < MAX_TASKS" if q: "?q = Some s" for s
      proof -
        obtain m where m: "wait_mutex (task_at k t) = Some m" "owner (mutex_at k m) = Some s"
          using q by (auto split: option.splits if_splits)
        have "m < MAX_MUTEXES" using mutex_okD(5) [OF Suc.prems(1)] t(1) m(1) by (auto simp: waits_ok_def)
        then show ?thesis using owner_open [OF Suc.prems(1) _ m(2)] by blast
      qed
      have base: "\<forall>i<MAX_TASKS. base_priority (task_at ?k i) \<le> priority (task_at ?k i)"
        using Suc.prems(3) False t(1) by (auto simp: at)
      have edges: "priority (task_at ?k i) \<le> priority (task_at ?k s) \<or> (?q = Some s \<and> priority (task_at ?k i) \<le> prio)"
        if i: "i < MAX_TASKS" and w: "waits_for ?k i s" for i s
      proof -
        have w': "waits_for k i s" using w same_view_waits [OF v] by simp
        have ne: "s \<noteq> i" using waits_for_owner [OF Suc.prems(1) i w'] by blast
        consider "i = t" | "s = t" "i \<noteq> t" | "i \<noteq> t" "s \<noteq> t" by blast
        then show ?thesis
        proof cases
          case 1
          then have "?q = Some s" using w' by (auto elim!: waits_forE)
          then show ?thesis using 1 by (simp add: at)
        next
          case 2
          then have "priority (task_at k i) \<le> priority (task_at k t) \<or> priority (task_at k i) \<le> prio"
            using Suc.prems(4) i w' by blast
          then show ?thesis using 2 False by (auto simp: at)
        next
          case 3
          then show ?thesis using Suc.prems(4) i w' Some by (auto simp: at)
        qed
      qed
      have "{i. i < MAX_TASKS \<and> priority (task_at ?k i) < prio} = {i. i < MAX_TASKS \<and> priority (task_at k i) < prio} - {t}"
        by (auto simp: at)
      then have c: "card {i. i < MAX_TASKS \<and> priority (task_at ?k i) < prio} \<le> d"
        using Suc.prems(5) t(1) False by (simp add: card_Diff_singleton)
      have "pi_ok (mutex_boost_loop d ?q prio ?k)"
        using Suc.IH [OF k q base _ c, of ?q] edges by blast
      moreover have "mutex_boost_loop (Suc d) p prio k = mutex_boost_loop d ?q prio ?k"
        using Some False t by (simp add: Let_def cong: option.case_cong if_cong)
      ultimately show ?thesis by simp
    qed
  qed
qed

lemma fold_max:
  fixes f :: "nat \<Rightarrow> u8" and P :: "nat \<Rightarrow> bool"
  defines "g \<equiv> (\<lambda>i q. if P i \<and> f i > q then f i else q)"
  shows "b \<le> fold g xs b \<and> (\<forall>i \<in> set xs. P i \<longrightarrow> f i \<le> fold g xs b)
    \<and> (fold g xs b = b \<or> (\<exists>i \<in> set xs. P i \<and> fold g xs b = f i))"
proof (induction xs arbitrary: b)
  case (Cons x xs)
  have gx: "b \<le> g x b" "P x \<longrightarrow> f x \<le> g x b" "g x b = b \<or> (P x \<and> g x b = f x)" by (auto simp: g_def)
  have "g x b \<le> fold g xs (g x b)" "\<forall>i \<in> set xs. P i \<longrightarrow> f i \<le> fold g xs (g x b)"
    "fold g xs (g x b) = g x b \<or> (\<exists>i \<in> set xs. P i \<and> fold g xs (g x b) = f i)" using Cons [of "g x b"] by auto
  then show ?case using gx by (auto intro: order_trans)
qed simp

definition waiters_priority :: "'a kernel_scheme \<Rightarrow> nat \<Rightarrow> u8" where
  "waiters_priority k t = fold (\<lambda>i prio. if waits_for k i t \<and> priority (task_at k i) > prio
                                    then priority (task_at k i) else prio)
                       [0..<MAX_TASKS] (base_priority (task_at k t))"

lemma waiters_priority:
  "base_priority (task_at k t) \<le> waiters_priority k t"
  "i < MAX_TASKS \<Longrightarrow> waits_for k i t \<Longrightarrow> priority (task_at k i) \<le> waiters_priority k t"
  "waiters_priority k t = base_priority (task_at k t)
    \<or> (\<exists>i<MAX_TASKS. waits_for k i t \<and> waiters_priority k t = priority (task_at k i))"
  using fold_max [of "base_priority (task_at k t)" "\<lambda>i. waits_for k i t" "\<lambda>i. priority (task_at k i)" "[0..<MAX_TASKS]"]
  unfolding waiters_priority_def by auto

lemma mutex_update_priority_eq:
  "mutex_update_priority t k =
    (if killed (task_at k t) then k
     else sched_request_resched (upd_task t (priority_update (\<lambda>_. waiters_priority k t)) k))"
  by (simp add: mutex_update_priority_def waiters_priority_def Let_def)

lemma update_view: "same_view k (mutex_update_priority t k)"
  unfolding mutex_update_priority_eq
  by (auto intro: same_view_trans [OF same_view_priority same_view_resched])

lemma update_pi_gen:
  assumes k: "mutex_ok k" and t: "t < MAX_TASKS" and nk: "\<not> killed (task_at k t)"
    and base: "\<And>i. i < MAX_TASKS \<Longrightarrow> i \<noteq> t \<Longrightarrow> base_priority (task_at k i) \<le> priority (task_at k i)"
    and edges: "\<And>i s. i < MAX_TASKS \<Longrightarrow> i \<noteq> t \<Longrightarrow> s \<noteq> t \<Longrightarrow> waits_for k i s \<Longrightarrow>
        priority (task_at k i) \<le> priority (task_at k s)"
    and out: "\<And>s. waits_for k t s \<Longrightarrow> waiters_priority k t \<le> priority (task_at k s)"
  shows "pi_ok (mutex_update_priority t k)"
proof -
  have len: "t < length (task_table k)" using mutex_okD(2) [OF k] t by (simp add: tables_ok_def)
  have at: "task_at (mutex_update_priority t k) i =
      (if i = t then priority_update (\<lambda>_. waiters_priority k t) (task_at k i) else task_at k i)" for i
    using nk len by (simp add: mutex_update_priority_eq sched_request_resched_def task_at_upd)
  note w = same_view_waits [OF update_view [of k t]]
  show ?thesis
    unfolding pi_ok_def w
  proof (intro conjI allI impI)
    fix i assume "i < MAX_TASKS"
    then show "base_priority (task_at (mutex_update_priority t k) i) \<le> priority (task_at (mutex_update_priority t k) i)"
      using base waiters_priority(1) [of k t] by (auto simp: at)
  next
    fix i s assume i: "i < MAX_TASKS" and ws: "waits_for k i s"
    have "s \<noteq> i" using waits_for_owner [OF k i ws] by blast
    then show "priority (task_at (mutex_update_priority t k) i) \<le> priority (task_at (mutex_update_priority t k) s)"
      using out edges [OF i _ _ ws] waiters_priority(2) [OF i] ws by (auto simp: at)
  qed
qed

lemma update_pi:
  assumes k: "mutex_ok k" "pi_ok k" and t: "t < MAX_TASKS"
  shows "pi_ok (mutex_update_priority t k)"
proof (cases "killed (task_at k t)")
  case False
  have le: "waiters_priority k t \<le> priority (task_at k t)"
    using waiters_priority(3) [of k t] k(2) t unfolding pi_ok_def by metis
  show ?thesis
  proof (rule update_pi_gen [OF k(1) t False])
    fix s assume "waits_for k t s"
    then show "waiters_priority k t \<le> priority (task_at k s)" using le k(2) t unfolding pi_ok_def by (meson order_trans)
  qed (use k(2) in \<open>auto simp: pi_ok_def\<close>)
qed (simp add: mutex_update_priority_eq k)


section \<open>Each operation keeps the invariant\<close>

lemma card_openers: "m < MAX_MUTEXES \<Longrightarrow> refs_ok k \<Longrightarrow> m_refs (mutex_at k m) = 0 \<longleftrightarrow> openers k m = {}"
proof -
  have "finite (openers k m)" by (simp add: openers_def)
  then show "m < MAX_MUTEXES \<Longrightarrow> refs_ok k \<Longrightarrow> ?thesis" by (simp add: refs_ok_def)
qed

text \<open>Waking a live task.\<close>

lemma wake_at: "i < length (task_table k) \<Longrightarrow>
    task_at (sched_wake i k) j = (if j = i then t_state_update (\<lambda>_. TASK_READY) (task_at k j) else task_at k j)"
  by (simp add: sched_wake_at nth_list_update)

lemma fewer_blocked_ok:
  assumes k: "mutex_ok k" and s: "sched_ok k'" and mx: "mutexes k' = mutexes k"
    and f: "\<And>j. wait_mutex (task_at k' j) = wait_mutex (task_at k j)"
      "\<And>j. wait_channel (task_at k' j) = wait_channel (task_at k j)"
      "\<And>j. saved_ctx (task_at k' j) = saved_ctx (task_at k j)"
      "\<And>j. open_mutexes (task_at k' j) = open_mutexes (task_at k j)"
    and b: "\<And>j. blocked k' j \<Longrightarrow> blocked k j"
    and nl: "\<And>j. no_life (t_state (task_at k' j)) \<Longrightarrow> no_life (t_state (task_at k j))"
  shows "mutex_ok k'"
proof -
  have ho: "has_open (task_at k' j) m = has_open (task_at k j) m" for j m by (simp add: has_open_def f)
  then have o: "openers k' m = openers k m" for m by (simp add: openers_def)
  have "refs_ok k'" using mutex_okD(3) [OF k] by (simp add: refs_ok_def o mx)
  moreover have "owners_ok k'" using mutex_okD(4) [OF k] by (simp add: owners_ok_def o mx)
  moreover have "waits_ok k'" using mutex_okD(5) [OF k] by (simp add: waits_ok_def f ho)
  moreover have "channels_ok k'" using mutex_okD(6) [OF k] b unfolding channels_ok_def f by blast
  moreover have "waiters_ok k'" using mutex_okD(7) [OF k] b unfolding waiters_ok_def f mx by blast
  moreover have "dead_ok k'" using mutex_okD(8) [OF k] nl unfolding dead_ok_def f by blast
  ultimately show ?thesis using s by (simp add: mutex_ok_def)
qed

lemma wake_sched_ok: "sched_ok k \<Longrightarrow> i < MAX_TASKS \<Longrightarrow> sched_ok (sched_wake i k)"
  by (auto simp: sched_ok_def tables_ok_def wake_at)

lemma wake_ok:
  assumes k: "mutex_ok k" and i: "i < MAX_TASKS"
  shows "mutex_ok (sched_wake i k)"
proof (rule fewer_blocked_ok [OF k wake_sched_ok [OF mutex_okD(1) [OF k] i]])
  have len: "i < length (task_table k)" using mutex_okD(2) [OF k] i by (simp add: tables_ok_def)
  note at = wake_at [OF len]
  fix j
  show "wait_mutex (task_at (sched_wake i k) j) = wait_mutex (task_at k j)"
    "wait_channel (task_at (sched_wake i k) j) = wait_channel (task_at k j)"
    "saved_ctx (task_at (sched_wake i k) j) = saved_ctx (task_at k j)"
    "open_mutexes (task_at (sched_wake i k) j) = open_mutexes (task_at k j)"
    by (simp_all add: at)
  show "blocked (sched_wake i k) j \<Longrightarrow> blocked k j"
    "no_life (t_state (task_at (sched_wake i k) j)) \<Longrightarrow> no_life (t_state (task_at k j))"
    by (auto simp: blocked_def no_life_def at split: if_splits)
qed simp

lemma wake_pi:
  assumes "pi_ok k" "i < length (task_table k)"
  shows "pi_ok (sched_wake i k)"
proof -
  have "waits_for (sched_wake i k) j t \<Longrightarrow> waits_for k j t" for j t
    by (auto simp: waits_for_def wake_at [OF assms(2)] split: if_splits option.splits)
  moreover have "priority (task_at (sched_wake i k) j) = priority (task_at k j)"
    "base_priority (task_at (sched_wake i k) j) = base_priority (task_at k j)" for j
    by (simp_all add: wake_at [OF assms(2)])
  ultimately show ?thesis using assms(1) by (simp add: pi_ok_def)
qed

text \<open>Switching to another task.\<close>

lemma pick_state:
  assumes "sched_ok k" shows "t_state (task_at k (sched_pick_next k)) \<in> {TASK_READY, TASK_RUNNING}"
proof -
  have "task_running k < MAX_TASKS" using assms by (simp add: sched_ok_def tables_ok_def)
  then consider "sched_pick_next k = task_idle k" | "candidate k (sched_pick_next k)" using pick_candidate by blast
  then show ?thesis
  proof cases
    case 1
    then show ?thesis using assms by (simp add: sched_ok_def)
  next
    case 2
    then show ?thesis unfolding candidate_def task_runnable_def by blast
  qed
qed

lemma pick_not_blocked:
  assumes "sched_ok k" shows "\<not> blocked k (sched_pick_next k)" "\<not> no_life (t_state (task_at k (sched_pick_next k)))"
  using pick_state [OF assms] by (auto simp: blocked_def no_life_def)

lemma schedule_ok:
  assumes k: "mutex_ok k"
  shows "mutex_ok (schedule k)"
proof (rule fewer_blocked_ok [OF k])
  note t = mutex_okD(2) [OF k]
  show "sched_ok (schedule k)" using sched_ok_schedule mutex_okD(1) [OF k] by blast
  fix j
  show "wait_mutex (task_at (schedule k) j) = wait_mutex (task_at k j)"
    "wait_channel (task_at (schedule k) j) = wait_channel (task_at k j)"
    "saved_ctx (task_at (schedule k) j) = saved_ctx (task_at k j)"
    "open_mutexes (task_at (schedule k) j) = open_mutexes (task_at k j)"
    by (simp_all add: schedule_fields [OF t])
  show "blocked (schedule k) j \<Longrightarrow> blocked k j"
    "no_life (t_state (task_at (schedule k) j)) \<Longrightarrow> no_life (t_state (task_at k j))"
    unfolding blocked_def no_life_def schedule_state [OF t] after_switch_def by (auto split: if_splits)
qed simp

lemma schedule_pi:
  assumes "mutex_ok k" "pi_ok k"
  shows "pi_ok (schedule k)"
proof -
  note t = mutex_okD(2) [OF assms(1)]
  have "waits_for (schedule k) i s \<Longrightarrow> waits_for k i s" for i s
    unfolding waits_for_def schedule_fields [OF t] after_switch_def schedule_simps by (auto split: if_splits)
  then show ?thesis using assms(2) by (simp add: pi_ok_def schedule_fields [OF t])
qed

text \<open>Choosing the next owner: a waiter of the highest priority.\<close>

lemma hand_over_loop_best:
  fixes js :: "nat list"
  shows "case hand_over_loop k m js best of
     None \<Rightarrow> best = None \<and> (\<forall>i \<in> set js. \<not> (t_state (task_at k i) = TASK_BLOCKED \<and> wait_channel (task_at k i) = Some (Ch_mutex m)))
   | Some b \<Rightarrow> (best = Some b \<or> (b \<in> set js \<and> t_state (task_at k b) = TASK_BLOCKED \<and> wait_channel (task_at k b) = Some (Ch_mutex m)))
       \<and> (\<forall>i \<in> set js. t_state (task_at k i) = TASK_BLOCKED \<longrightarrow> wait_channel (task_at k i) = Some (Ch_mutex m) \<longrightarrow>
            priority (task_at k i) \<le> priority (task_at k b))
       \<and> (\<forall>c. best = Some c \<longrightarrow> priority (task_at k c) \<le> priority (task_at k b))"
proof (induction js arbitrary: best)
  case (Cons i js)
  let ?b = "if t_state (task_at k i) = TASK_BLOCKED \<and> wait_channel (task_at k i) = Some (Ch_mutex m)
          \<and> (case best of None \<Rightarrow> True | Some b \<Rightarrow> priority (task_at k i) > priority (task_at k b))
       then Some i else best"
  show ?case
  proof (cases "hand_over_loop k m js ?b")
    case None
    then show ?thesis using Cons [of ?b] by (auto split: if_splits option.splits)
  next
    case (Some b)
    have IH: "?b = Some b \<or> (b \<in> set js \<and> t_state (task_at k b) = TASK_BLOCKED \<and> wait_channel (task_at k b) = Some (Ch_mutex m))"
      "\<forall>j \<in> set js. t_state (task_at k j) = TASK_BLOCKED \<longrightarrow> wait_channel (task_at k j) = Some (Ch_mutex m) \<longrightarrow>
            priority (task_at k j) \<le> priority (task_at k b)"
      "\<forall>c. ?b = Some c \<longrightarrow> priority (task_at k c) \<le> priority (task_at k b)"
      using Cons [of ?b] Some by auto
    have "t_state (task_at k i) = TASK_BLOCKED \<Longrightarrow> wait_channel (task_at k i) = Some (Ch_mutex m) \<Longrightarrow>
        priority (task_at k i) \<le> priority (task_at k b)"
      using IH(3) by (cases best) (auto split: if_splits intro: order_trans)
    moreover have "best = Some c \<Longrightarrow> priority (task_at k c) \<le> priority (task_at k b)" for c
      using IH(3) by (auto split: if_splits intro: order_trans)
    ultimately show ?thesis using Some IH(1,2) by (auto split: if_splits)
  qed
qed (simp split: option.split)

lemma hand_over_none:
  assumes "hand_over_loop k m [0..<MAX_TASKS] None = None" "channels_ok k" "blocked k i"
  shows "wait_mutex (task_at k i) \<noteq> Some m"
  using hand_over_loop_best [where k = k and m = m and js = "[0..<MAX_TASKS]" and best = None] assms
  by (auto simp: blocked_def channels_ok_def)

lemma hand_over_some:
  assumes "hand_over_loop k m [0..<MAX_TASKS] None = Some b" "channels_ok k"
  shows "blocked k b" "wait_mutex (task_at k b) = Some m"
    "blocked k i \<Longrightarrow> wait_mutex (task_at k i) = Some m \<Longrightarrow> priority (task_at k i) \<le> priority (task_at k b)"
  using hand_over_loop_best [where k = k and m = m and js = "[0..<MAX_TASKS]" and best = None] assms
  by (auto simp: blocked_def channels_ok_def)

text \<open>\<open>give m nxt\<close>: the part of \<^verbatim>\<open>mutex_hand_over\<close> in front of the new priority.\<close>

definition give :: "nat \<Rightarrow> nat option \<Rightarrow> 'a kernel_scheme \<Rightarrow> 'a kernel_scheme" where
  "give m nxt k = (case nxt of
      None \<Rightarrow> upd_mutex m (owner_update (\<lambda>_. nxt)) k
    | Some t \<Rightarrow> sched_wake t (upd_mutex m (owner_update (\<lambda>_. nxt)) k))"

lemma hand_over_give: "owner (mutex_at k m) = Some t \<Longrightarrow>
    mutex_hand_over m k = mutex_update_priority t (give m (hand_over_loop k m [0..<MAX_TASKS] None) k)"
  by (simp add: mutex_hand_over_def give_def Let_def split: option.split)

lemma give_ok:
  assumes k: "mutex_ok k" "pi_ok k" and m: "m < MAX_MUTEXES"
    and nxt: "nxt = hand_over_loop k m [0..<MAX_TASKS] None"
  shows "mutex_ok (give m nxt k)" "pi_ok (give m nxt k)"
    "mutexes (give m nxt k) = (mutexes k)[m := owner_update (\<lambda>_. nxt) (mutex_at k m)]"
    "open_mutexes (task_at (give m nxt k) i) = open_mutexes (task_at k i)"
proof -
  note t = mutex_okD(2) [OF k(1)]
  have lm: "m < length (mutexes k)" using t m by (simp add: tables_ok_def)
  have lt: "b < length (task_table k)" if "nxt = Some b" for b
    using hand_over_some(1) [of k m b] nxt that mutex_okD(6) [OF k(1)] t by (auto simp: blocked_def tables_ok_def)
  let ?k = "give m nxt k"
  have at: "task_at ?k i = (if nxt = Some i then t_state_update (\<lambda>_. TASK_READY) (task_at k i) else task_at k i)" for i
    by (cases nxt) (use lt in \<open>auto simp: give_def wake_at\<close>)
  have mt: "mutex_at ?k j = (if j = m then owner_update (\<lambda>_. nxt) (mutex_at k j) else mutex_at k j)" for j
    by (cases nxt) (use lm in \<open>simp_all add: give_def mutex_at_upd\<close>)
  have f: "wait_mutex (task_at ?k j) = wait_mutex (task_at k j)" "wait_channel (task_at ?k j) = wait_channel (task_at k j)"
    "saved_ctx (task_at ?k j) = saved_ctx (task_at k j)" "open_mutexes (task_at ?k j) = open_mutexes (task_at k j)"
    "has_open (task_at ?k j) m' = has_open (task_at k j) m'" "priority (task_at ?k j) = priority (task_at k j)"
    "base_priority (task_at ?k j) = base_priority (task_at k j)"
    for j m' by (simp_all add: at)
  have o: "openers ?k j = openers k j" for j by (simp add: openers_def f)
  have b: "blocked ?k i \<longleftrightarrow> blocked k i \<and> nxt \<noteq> Some i" for i by (simp add: blocked_def at)
  have nl: "no_life (t_state (task_at ?k j)) \<Longrightarrow> no_life (t_state (task_at k j))" for j
    by (auto simp: at no_life_def split: if_splits)
  have fr: "task_running ?k = task_running k" "task_idle ?k = task_idle k" "tables_ok ?k"
    using t by (simp_all add: give_def split: option.split)
  have s: "sched_ok ?k" using mutex_okD(1) [OF k(1)] by (auto simp: sched_ok_def at fr split: if_splits)
  have nxt_open: "b \<in> openers k m" if "nxt = Some b" for b
    using hand_over_some [of k m b] nxt that mutex_okD(5,6) [OF k(1)]
    by (auto simp: blocked_def openers_def waits_ok_def)
  have ow: "owners_ok ?k" using mutex_okD(4) [OF k(1)] nxt_open by (auto simp: owners_ok_def o mt)
  have wo: "\<exists>b. nxt = Some b \<and> b \<noteq> i" if "blocked ?k i" "wait_mutex (task_at k i) = Some m" for i
  proof (cases nxt)
    case None
    then show ?thesis using hand_over_none [of k m i] nxt that mutex_okD(6) [OF k(1)] b [of i] by auto
  next
    case (Some a)
    then show ?thesis using that(1) b [of i] by auto
  qed
  have wt: "waiters_ok ?k"
    unfolding waiters_ok_def f
  proof (intro allI impI)
    fix i m' assume a: "blocked ?k i" "wait_mutex (task_at k i) = Some m'"
    show "\<exists>t. owner (mutex_at ?k m') = Some t \<and> t \<noteq> i"
    proof (cases "m' = m")
      case True
      then show ?thesis using wo [OF a(1)] a(2) by (simp add: mt)
    next
      case False
      then show ?thesis using mutex_okD(7) [OF k(1)] a by (simp add: waiters_ok_def b mt)
    qed
  qed
  have rest: "refs_ok ?k" "waits_ok ?k" "channels_ok ?k" "dead_ok ?k"
    using mutex_okD(3,5,6,8) [OF k(1)] nl unfolding mutex_parts o b f by (simp_all add: mt)
  show ok: "mutex_ok ?k" using s ow wt rest by (simp add: mutex_ok_def)
  show "pi_ok ?k"
    unfolding pi_ok_def f
  proof (intro conjI allI impI)
    fix i t assume i: "i < MAX_TASKS" and w: "waits_for ?k i t"
    obtain m' where m': "t_state (task_at ?k i) = TASK_BLOCKED" "wait_mutex (task_at ?k i) = Some m'"
      "owner (mutex_at ?k m') = Some t" "inherit (mutex_at ?k m')" using w by (rule waits_forE)
    have bl: "blocked k i" using m'(1) i by (auto simp: blocked_def at split: if_splits)
    show "priority (task_at k i) \<le> priority (task_at k t)"
    proof (cases "m' = m")
      case True
      then have "nxt = Some t" using m'(3) by (simp add: mt)
      moreover have "wait_mutex (task_at k i) = Some m" using m'(2) True f(1) by simp
      ultimately show ?thesis using hand_over_some(3) [of k m t i] nxt bl mutex_okD(6) [OF k(1)] by simp
    next
      case False
      then have "waits_for k i t" using m' by (auto simp: waits_for_def at mt split: if_splits)
      then show ?thesis using k(2) i by (simp add: pi_ok_def)
    qed
  qed (use k(2) in \<open>simp add: pi_ok_def\<close>)
  show "mutexes ?k = (mutexes k)[m := owner_update (\<lambda>_. nxt) (mutex_at k m)]"
    by (cases nxt) (simp_all add: give_def upd_mutex_def)
  show "open_mutexes (task_at ?k i) = open_mutexes (task_at k i)" by (rule f(4))
qed

lemma hand_over_ok:
  assumes k: "mutex_ok k" "pi_ok k" and m: "m < MAX_MUTEXES" and t: "owner (mutex_at k m) = Some t"
  shows "mutex_ok (mutex_hand_over m k)" "pi_ok (mutex_hand_over m k)"
proof -
  note G = give_ok [OF k m refl]
  have "t < MAX_TASKS" using owner_open [OF k(1) m t] by blast
  then show "mutex_ok (mutex_hand_over m k)" "pi_ok (mutex_hand_over m k)"
    unfolding hand_over_give [OF t] using G(1,2) same_view_ok [OF update_view] update_pi by blast+
qed


text \<open>A task other than idle runs and is in no wait.\<close>

definition live_running :: "'a kernel_scheme \<Rightarrow> bool" where
  "live_running k \<longleftrightarrow> task_running k \<noteq> task_idle k \<and> t_state (running_task k) = TASK_RUNNING
     \<and> wait_mutex (running_task k) = None"

lemma running_less: "mutex_ok k \<Longrightarrow> task_running k < MAX_TASKS \<and> task_running k < length (task_table k)"
  by (auto dest!: mutex_okD(2) simp: tables_ok_def)

lemma set_wait_ok:
  assumes k: "mutex_ok k" and r: "live_running k" and m: "m < MAX_MUTEXES" and op: "has_open (running_task k) m"
  defines "k0 \<equiv> upd_running (wait_mutex_update (\<lambda>_. Some m)) k"
  shows "mutex_ok k0" "waits_for k0 i s = waits_for k i s"
proof -
  let ?r = "task_running k"
  have rl: "?r < MAX_TASKS" "?r < length (task_table k)" using running_less [OF k] by auto
  have rs: "t_state (running_task k) = TASK_RUNNING" using r by (auto simp: live_running_def)
  have at0: "task_at k0 i = (if i = ?r then wait_mutex_update (\<lambda>_. Some m) (task_at k i) else task_at k i)" for i
    using rl by (simp add: k0_def task_at_upd)
  have f0: "mutexes k0 = mutexes k" "task_running k0 = ?r" "task_idle k0 = task_idle k" "tables_ok k0 = tables_ok k"
    by (simp_all add: k0_def)
  have g0: "t_state (task_at k0 i) = t_state (task_at k i)" "has_open (task_at k0 i) j = has_open (task_at k i) j"
    "open_mutexes (task_at k0 i) = open_mutexes (task_at k i)"
    "wait_channel (task_at k0 i) = wait_channel (task_at k i)" for i j
    by (simp_all add: at0)
  have nb: "\<not> blocked k ?r" using rs by (simp add: blocked_def)
  have b0: "blocked k0 i = blocked k i" for i by (simp add: blocked_def g0)
  have o0: "openers k0 j = openers k j" for j by (simp add: openers_def g0)
  show "waits_for k0 i s = waits_for k i s"
    using rs by (cases "i = ?r") (simp_all add: waits_for_def at0 f0 split: option.split)
  have "sched_ok k0" using mutex_okD(1) [OF k] by (simp add: sched_ok_def f0 g0)
  moreover have "refs_ok k0" "owners_ok k0" "dead_ok k0"
    using mutex_okD(3,4,8) [OF k] by (simp_all add: refs_ok_def owners_ok_def dead_ok_def o0 f0 g0)
  moreover have "waits_ok k0" using mutex_okD(5) [OF k] op m by (auto simp: waits_ok_def at0)
  moreover have "channels_ok k0" using mutex_okD(6) [OF k] nb unfolding channels_ok_def b0 g0 at0 by auto
  moreover have "waiters_ok k0" using mutex_okD(7) [OF k] nb unfolding waiters_ok_def b0 at0 f0 by auto
  ultimately show "mutex_ok k0" by (simp add: mutex_ok_def)
qed

lemma boost_own_priority:
  "priority (task_at (mutex_boost_loop d p (priority (task_at k r)) k) r) = priority (task_at k r)"
proof (induction d arbitrary: p k)
  case (Suc d)
  show ?case
  proof (cases p)
    case (Some q)
    show ?thesis
    proof (cases "priority (task_at k r) \<le> priority (task_at k q)")
      case False
      have "priority (task_at (upd_task q (priority_update (\<lambda>_. priority (task_at k r))) k) r) = priority (task_at k r)"
        by (cases "q < length (task_table k)"; cases "q = r") (auto simp: upd_task_def list_update_beyond)
      then show ?thesis
        using Suc [of _ "upd_task q (priority_update (\<lambda>_. priority (task_at k r))) k"] Some False
        by (simp add: Let_def)
    qed (simp add: Some)
  qed simp
qed simp

text \<open>The caller blocks on the mutex \<open>m\<close> of another task \<open>t\<close>, after the boost.\<close>

lemma block_on_mutex_ok:
  assumes k: "mutex_ok k" "pi_ok k" and idle: "task_running k \<noteq> task_idle k"
    and w: "wait_mutex (running_task k) = Some m"
    and t: "owner (mutex_at k m) = Some t" "t \<noteq> task_running k"
    and hi: "inherit (mutex_at k m) \<Longrightarrow> priority (running_task k) \<le> priority (task_at k t)"
  shows "mutex_ok (task_block_on (Ch_mutex m) c k)" "pi_ok (task_block_on (Ch_mutex m) c k)"
proof -
  let ?r = "task_running k"
  let ?g = "\<lambda>t. t\<lparr>wait_channel := Some (Ch_mutex m), t_state := TASK_BLOCKED, saved_ctx := c\<rparr>"
  define k2 where "k2 = upd_running ?g k"
  have rl: "?r < MAX_TASKS" "?r < length (task_table k)" using running_less [OF k(1)] by auto
  have at2: "task_at k2 i = (if i = ?r then ?g (task_at k i) else task_at k i)" for i
    using rl by (simp add: k2_def task_at_upd)
  have f2: "mutexes k2 = mutexes k" "task_running k2 = ?r" "task_idle k2 = task_idle k" "tables_ok k2"
    using mutex_okD(2) [OF k(1)] by (simp_all add: k2_def)
  have g2: "wait_mutex (task_at k2 i) = wait_mutex (task_at k i)" "has_open (task_at k2 i) j = has_open (task_at k i) j"
    "open_mutexes (task_at k2 i) = open_mutexes (task_at k i)" "priority (task_at k2 i) = priority (task_at k i)"
    "base_priority (task_at k2 i) = base_priority (task_at k i)" for i j
    by (simp_all add: at2 has_open_def)
  have b2: "blocked k2 i \<longleftrightarrow> blocked k i \<or> i = ?r" for i using rl by (auto simp: blocked_def at2)
  have o2: "openers k2 j = openers k j" for j by (simp add: openers_def g2)
  have "sched_ok k2" using mutex_okD(1) [OF k(1)] idle unfolding sched_ok_def at2 by (auto simp: f2)
  moreover have "refs_ok k2" "owners_ok k2"
    using mutex_okD(3,4) [OF k(1)] by (simp_all add: refs_ok_def owners_ok_def o2 f2)
  moreover have "dead_ok k2" using mutex_okD(8) [OF k(1)] unfolding dead_ok_def g2 at2 by (auto simp: no_life_def)
  moreover have "waits_ok k2" using mutex_okD(5) [OF k(1)] unfolding waits_ok_def g2 by simp
  moreover have "channels_ok k2" using mutex_okD(6) [OF k(1)] w unfolding channels_ok_def b2 g2 at2 by auto
  moreover have "waiters_ok k2" using mutex_okD(7) [OF k(1)] w t unfolding waiters_ok_def b2 g2 f2 by auto
  ultimately have m2: "mutex_ok k2" by (simp add: mutex_ok_def)
  have "pi_ok k2"
    unfolding pi_ok_def g2
  proof (intro conjI allI impI)
    fix i s assume i: "i < MAX_TASKS" and ws: "waits_for k2 i s"
    show "priority (task_at k i) \<le> priority (task_at k s)"
    proof (cases "i = ?r")
      case True
      have "s = t \<and> inherit (mutex_at k m)" using ws w t(1) by (elim waits_forE) (auto simp: True g2 f2)
      then show ?thesis using hi True by simp
    next
      case False
      then have "waits_for k i s" using ws by (elim waits_forE) (auto simp: waits_for_def at2 f2)
      then show ?thesis using k(2) i by (simp add: pi_ok_def)
    qed
  qed (use k(2) in \<open>simp add: pi_ok_def\<close>)
  then show "mutex_ok (task_block_on (Ch_mutex m) c k)" "pi_ok (task_block_on (Ch_mutex m) c k)"
    using schedule_ok [OF m2] schedule_pi [OF m2] unfolding task_block_on_def k2_def by auto
qed

text \<open>The caller of \<^verbatim>\<open>task_block_on\<close> stays off the processor.\<close>

lemma block_on_blocks:
  assumes k: "mutex_ok k" and idle: "task_running k \<noteq> task_idle k"
  shows "t_state (task_at (task_block_on ch c k) (task_running k)) = TASK_BLOCKED"
    "task_running (task_block_on ch c k) \<noteq> task_running k" "mutexes (task_block_on ch c k) = mutexes k"
proof -
  let ?r = "task_running k"
  define k2 where "k2 = upd_running (\<lambda>t. t\<lparr>wait_channel := Some ch, t_state := TASK_BLOCKED, saved_ctx := c\<rparr>) k"
  have rl: "?r < length (task_table k)" "?r < MAX_TASKS" using running_less [OF k] by auto
  have at: "t_state (task_at k2 i) = (if i = ?r then TASK_BLOCKED else t_state (task_at k i))" for i
    using rl by (simp add: k2_def task_at_upd)
  have s: "sched_ok k2" using mutex_okD(1) [OF k] idle unfolding sched_ok_def at by (auto simp: k2_def)
  have b: "blocked k2 ?r" using rl by (simp add: blocked_def at)
  have ne: "sched_pick_next k2 \<noteq> ?r" using pick_not_blocked(1) [OF s] b by auto
  have t2: "tables_ok k2" using s by (simp add: sched_ok_def)
  show "t_state (task_at (task_block_on ch c k) ?r) = TASK_BLOCKED"
    using ne at [of ?r] unfolding task_block_on_def k2_def [symmetric]
    by (simp add: schedule_state [OF t2] after_switch_def)
  show "task_running (task_block_on ch c k) \<noteq> ?r"
    using ne unfolding task_block_on_def k2_def [symmetric] by simp
  show "mutexes (task_block_on ch c k) = mutexes k" by (simp add: task_block_on_def)
qed

lemma lock_block_ok:
  assumes k: "mutex_ok k" "pi_ok k" and r: "live_running k" and m: "m < MAX_MUTEXES"
    and op: "has_open (running_task k) m" and t: "owner (mutex_at k m) = Some t" "t \<noteq> task_running k"
  defines "k0 \<equiv> upd_running (wait_mutex_update (\<lambda>_. Some m)) k"
  defines "k1 \<equiv> if inherit (mutex_at k0 m) then mutex_boost (owner (mutex_at k0 m)) (priority (running_task k0)) k0 else k0"
  shows "mutex_ok (task_block_on (Ch_mutex m) c k1) \<and> pi_ok (task_block_on (Ch_mutex m) c k1)"
proof -
  let ?r = "task_running k" let ?p = "priority (running_task k0)"
  have rl: "?r < length (task_table k)" using running_less [OF k(1)] by auto
  note m0 = set_wait_ok(1) [OF k(1) r m op, folded k0_def]
  have w0: "waits_for k0 i s = waits_for k i s" for i s
    using set_wait_ok(2) [OF k(1) r m op] unfolding k0_def .
  have g0: "priority (task_at k0 i) = priority (task_at k i)"
    "base_priority (task_at k0 i) = base_priority (task_at k i)" for i
    unfolding k0_def by (simp_all add: upd_task_field)
  have f0: "mutexes k0 = mutexes k" "task_running k0 = ?r" "task_idle k0 = task_idle k"
    "wait_mutex (task_at k0 ?r) = Some m"
    using rl by (simp_all add: k0_def)
  have tl: "t < MAX_TASKS" using owner_open [OF k(1) m t(1)] by blast
  have tl0: "t < length (task_table k0)" using tl mutex_okD(2) [OF m0] by (simp add: tables_ok_def)
  have ow0: "owner (mutex_at k0 m) = Some t" using t(1) f0(1) by simp
  have v: "same_view k0 k1" by (simp add: k1_def mutex_boost_def boost_view)
  note m1 = same_view_ok [OF v m0]
  have "pi_ok k0" using k(2) by (simp add: pi_ok_def g0 w0)
  moreover have "card {i. i < MAX_TASKS \<and> priority (task_at k0 i) < ?p} \<le> card {..<MAX_TASKS}"
    by (rule card_mono) auto
  ultimately have p1: "pi_ok k1"
    using boost_pi [OF m0, of "Some t" ?p MAX_TASKS] tl ow0 unfolding k1_def mutex_boost_def by (simp add: pi_ok_def)
  have mx1: "mutexes k1 = mutexes k" "task_running k1 = ?r" "task_idle k1 = task_idle k"
    "wait_mutex (running_task k1) = Some m"
    using v f0 by (simp_all add: same_view_def)
  have hi: "priority (running_task k1) \<le> priority (task_at k1 t)" if inh: "inherit (mutex_at k1 m)"
  proof -
    have k1: "k1 = mutex_boost_loop (Suc 15) (Some t) ?p k0"
      using inh mx1 f0 ow0 by (simp add: k1_def mutex_boost_def numeral_eq_Suc)
    have "priority (task_at k1 ?r) = ?p" unfolding k1 using boost_own_priority [of _ _ k0 ?r] f0(2) by metis
    then show ?thesis using boost_owner [OF tl0, of ?p 15] mx1 unfolding k1 by simp
  qed
  show ?thesis
    using block_on_mutex_ok [OF m1 p1, of m t c] hi mx1 t r by (simp add: live_running_def)
qed

lemma acquire_ok:
  assumes k: "mutex_ok k" "pi_ok k" and m: "m < MAX_MUTEXES"
    and op: "has_open (running_task k) m" and free: "owner (mutex_at k m) = None"
  shows "mutex_ok (upd_mutex m (owner_update (\<lambda>_. Some (task_running k))) k)"
    "pi_ok (upd_mutex m (owner_update (\<lambda>_. Some (task_running k))) k)"
proof -
  let ?k = "upd_mutex m (owner_update (\<lambda>_. Some (task_running k))) k"
  have lm: "m < length (mutexes k)" using mutex_okD(2) [OF k(1)] m by (simp add: tables_ok_def)
  note mt = mutex_at_upd [OF lm, of "owner_update (\<lambda>_. Some (task_running k))"]
  have nobody: "\<not> (blocked k i \<and> wait_mutex (task_at k i) = Some m)" for i
    using mutex_okD(7) [OF k(1)] free unfolding waiters_ok_def by auto
  have o: "openers ?k j = openers k j" and b: "blocked ?k i = blocked k i" for i j
    by (simp_all add: openers_def blocked_def)
  have "task_running k \<in> openers k m" using running_less [OF k(1)] op by (simp add: openers_def)
  then have "owners_ok ?k" using mutex_okD(4) [OF k(1)] by (auto simp: owners_ok_def o mt)
  moreover have "waiters_ok ?k" using mutex_okD(7) [OF k(1)] nobody by (auto simp: waiters_ok_def b mt)
  moreover have "sched_ok ?k" using mutex_okD(1) [OF k(1)] by (simp add: sched_ok_def)
  moreover have "refs_ok ?k" "waits_ok ?k" "channels_ok ?k" "dead_ok ?k"
    using mutex_okD(3,5,6,8) [OF k(1)] by (simp_all add: mutex_parts o b mt)
  ultimately show "mutex_ok ?k" by (simp add: mutex_ok_def)
  have "waits_for ?k i t \<Longrightarrow> i < MAX_TASKS \<Longrightarrow> waits_for k i t" for i t
    using nobody [of i] by (elim waits_forE) (auto simp: waits_for_def mt blocked_def split: if_splits)
  then show "pi_ok ?k" using k(2) by (auto simp: pi_ok_def)
qed

lemma lock_loop_ok:
  assumes k: "mutex_ok k" "pi_ok k" and r: "live_running k" and m: "m < MAX_MUTEXES"
    and op: "has_open (running_task k) m"
  shows "mutex_ok (out_state (mutex_lock_loop m k))" "pi_ok (out_state (mutex_lock_loop m k))"
proof -
  have "mutex_ok (out_state (mutex_lock_loop m k)) \<and> pi_ok (out_state (mutex_lock_loop m k))"
  proof (cases "owner (mutex_at k m)")
    case None
    then show ?thesis using acquire_ok [OF k m op] by (simp add: mutex_lock_loop_def)
  next
    case (Some t)
    have tl: "t < MAX_TASKS" using owner_open [OF k(1) m Some] by blast
    show ?thesis
      using lock_block_ok [OF k r m op Some, of "Ctx_lock m"] k same_view_ok [OF update_view k(1), of t] update_pi [OF k tl] Some
      by (cases "t = task_running k"; cases "killed (running_task k)") (simp_all add: mutex_lock_loop_def Let_def)
  qed
  then show "mutex_ok (out_state (mutex_lock_loop m k))" "pi_ok (out_state (mutex_lock_loop m k))" by auto
qed

lemma mutex_get_some:
  assumes "mutex_get mid k = Some m"
  shows "m < MAX_MUTEXES" "has_open (running_task k) m" "mid = int m" "m_refs (mutex_at k m) \<noteq> 0"
  using assms by (auto simp: mutex_get_def split: if_splits)

lemma lock_ok:
  assumes "mutex_ok k" "pi_ok k" "live_running k"
  shows "mutex_ok (out_state (mutex_lock mid k)) \<and> pi_ok (out_state (mutex_lock mid k))"
  using lock_loop_ok [OF assms] mutex_get_some [of mid k] assms
  by (auto simp: mutex_lock_def split: option.split)


text \<open>Back in \<^verbatim>\<open>mutex_lock\<close> after the wait.\<close>

lemma clear_wait_ok:
  assumes k: "mutex_ok k" "pi_ok k" and r: "t_state (running_task k) = TASK_RUNNING"
  defines "k' \<equiv> upd_running (wait_mutex_update (\<lambda>_. None)) (task_block_on_resumed k)"
  shows "mutex_ok k' \<and> pi_ok k' \<and> task_running k' = task_running k \<and> wait_mutex (running_task k') = None
    \<and> t_state (running_task k') = TASK_RUNNING \<and> open_mutexes (running_task k') = open_mutexes (running_task k)"
proof -
  let ?r = "task_running k"
  have rl: "?r < MAX_TASKS" "?r < length (task_table k)" using running_less [OF k(1)] by auto
  have at: "task_at k' i = (if i = ?r then wait_mutex_update (\<lambda>_. None) (wait_channel_update (\<lambda>_. None) (task_at k i))
      else task_at k i)" for i
    using rl by (simp add: k'_def task_block_on_resumed_def task_at_upd)
  have f: "mutexes k' = mutexes k" "task_running k' = ?r" "task_idle k' = task_idle k" "tables_ok k'"
    using mutex_okD(2) [OF k(1)] by (simp_all add: k'_def task_block_on_resumed_def)
  have g: "t_state (task_at k' i) = t_state (task_at k i)" "has_open (task_at k' i) j = has_open (task_at k i) j"
    "open_mutexes (task_at k' i) = open_mutexes (task_at k i)" "priority (task_at k' i) = priority (task_at k i)"
    "base_priority (task_at k' i) = base_priority (task_at k i)" for i j
    by (simp_all add: at)
  have nb: "\<not> blocked k ?r" using r by (simp add: blocked_def)
  have b: "blocked k' i = blocked k i" for i by (simp add: blocked_def g)
  have o: "openers k' j = openers k j" for j by (simp add: openers_def g)
  have "sched_ok k'" using mutex_okD(1) [OF k(1)] unfolding sched_ok_def g f by (simp add: f)
  moreover have "refs_ok k'" "owners_ok k'" "dead_ok k'"
    using mutex_okD(3,4,8) [OF k(1)] by (simp_all add: refs_ok_def owners_ok_def dead_ok_def o f g)
  moreover have "waits_ok k'" using mutex_okD(5) [OF k(1)] unfolding waits_ok_def g at by auto
  moreover have "channels_ok k'" using mutex_okD(6) [OF k(1)] nb unfolding channels_ok_def b at by auto
  moreover have "waiters_ok k'" using mutex_okD(7) [OF k(1)] nb unfolding waiters_ok_def b at f by auto
  ultimately have "mutex_ok k'" by (simp add: mutex_ok_def)
  moreover have "waits_for k' i s \<Longrightarrow> waits_for k i s" for i s
    by (elim waits_forE) (auto simp: waits_for_def at f split: if_splits)
  then have "pi_ok k'" using k(2) by (auto simp: pi_ok_def g)
  ultimately show ?thesis using f g r rl by (simp add: at)
qed

lemma lock_resumed_ok:
  assumes k: "mutex_ok k" "pi_ok k" and r: "t_state (running_task k) = TASK_RUNNING"
    and idle: "task_running k \<noteq> task_idle k" and w: "wait_mutex (running_task k) = Some m"
  shows "mutex_ok (out_state (mutex_lock_resumed m k)) \<and> pi_ok (out_state (mutex_lock_resumed m k))"
proof -
  let ?k = "upd_running (wait_mutex_update (\<lambda>_. None)) (task_block_on_resumed k)"
  note C = clear_wait_ok [OF k r]
  have i: "task_idle ?k = task_idle k" by (simp add: task_block_on_resumed_def)
  have m: "m < MAX_MUTEXES" "has_open (running_task k) m"
    using mutex_okD(5) [OF k(1)] running_less [OF k(1)] w by (auto simp: waits_ok_def)
  have "task_running (task_block_on_resumed k) = task_running k" by (simp add: task_block_on_resumed_def)
  then show ?thesis
    using lock_loop_ok [of ?k m] C i idle m unfolding mutex_lock_resumed_def
    by (simp add: live_running_def has_open_def)
qed

lemma unlock_ok:
  assumes "mutex_ok k" "pi_ok k"
  shows "mutex_ok (fst (mutex_unlock mid k)) \<and> pi_ok (fst (mutex_unlock mid k))"
  using hand_over_ok [OF assms] mutex_get_some [of mid k] assms
  by (auto simp: mutex_unlock_def split: option.split)

text \<open>Closing.\<close>

lemma hand_over_view:
  assumes k: "mutex_ok k" "pi_ok k" and m: "m < MAX_MUTEXES" and t: "owner (mutex_at k m) = Some t"
  defines "nxt \<equiv> hand_over_loop k m [0..<MAX_TASKS] None"
  shows "mutexes (mutex_hand_over m k) = (mutexes k)[m := owner_update (\<lambda>_. nxt) (mutex_at k m)]"
    "open_mutexes (task_at (mutex_hand_over m k) i) = open_mutexes (task_at k i)"
    "task_running (mutex_hand_over m k) = task_running k" "task_idle (mutex_hand_over m k) = task_idle k"
    "wait_mutex (task_at (mutex_hand_over m k) i) = wait_mutex (task_at k i)"
    "t_state (task_at (mutex_hand_over m k) i) = (if nxt = Some i then TASK_READY else t_state (task_at k i))"
proof -
  note G = give_ok [OF k m nxt_def [THEN meta_eq_to_obj_eq]]
  have v: "same_view (give m nxt k) (mutex_hand_over m k)"
    unfolding hand_over_give [OF t] nxt_def by (rule update_view)
  show "mutexes (mutex_hand_over m k) = (mutexes k)[m := owner_update (\<lambda>_. nxt) (mutex_at k m)]"
    using v G(3) by (simp add: same_view_def)
  show "open_mutexes (task_at (mutex_hand_over m k) i) = open_mutexes (task_at k i)"
    using v G(4) by (simp add: same_view_def)
  show "task_running (mutex_hand_over m k) = task_running k" "task_idle (mutex_hand_over m k) = task_idle k"
    using v by (simp_all add: same_view_def give_def split: option.split)
  have lt: "b < length (task_table k)" if "nxt = Some b" for b
    using hand_over_some(1) [of k m b] that mutex_okD(2,6) [OF k(1)] unfolding nxt_def
    by (auto simp: blocked_def tables_ok_def)
  show "wait_mutex (task_at (mutex_hand_over m k) i) = wait_mutex (task_at k i)"
    using v lt by (simp add: same_view_def give_def wake_at split: option.splits)
  show "t_state (task_at (mutex_hand_over m k) i) = (if nxt = Some i then TASK_READY else t_state (task_at k i))"
    using v lt by (auto simp: same_view_def give_def wake_at split: option.splits)
qed

lemma close_bit_ok:
  assumes k: "mutex_ok k" "pi_ok k" and t: "t < MAX_TASKS" and m: "m < MAX_MUTEXES"
    and op: "has_open (task_at k t) m" and w: "wait_mutex (task_at k t) = None" and no: "owner (mutex_at k m) \<noteq> Some t"
  defines "k' \<equiv> upd_mutex m (m_refs_update (\<lambda>r. r - 1))
     (upd_task t (open_mutexes_update (\<lambda>b. b AND NOT (mutex_bit m))) k)"
  shows "mutex_ok k'" "pi_ok k'"
proof -
  have tl: "t < length (task_table k)" "m < length (mutexes k)"
    using mutex_okD(2) [OF k(1)] t m by (simp_all add: tables_ok_def)
  have at: "task_at k' i = (if i = t then open_mutexes_update (\<lambda>b. b AND NOT (mutex_bit m)) (task_at k i)
      else task_at k i)" for i
    using tl by (simp add: k'_def task_at_upd)
  have mt: "mutex_at k' j = (if j = m then m_refs_update (\<lambda>r. r - 1) (mutex_at k j) else mutex_at k j)" for j
    using tl by (simp add: k'_def mutex_at_upd)
  have ow: "owner (mutex_at k' j) = owner (mutex_at k j)" "inherit (mutex_at k' j) = inherit (mutex_at k j)" for j
    by (simp_all add: mt)
  have g: "t_state (task_at k' i) = t_state (task_at k i)" "wait_mutex (task_at k' i) = wait_mutex (task_at k i)"
    "wait_channel (task_at k' i) = wait_channel (task_at k i)" "priority (task_at k' i) = priority (task_at k i)"
    "base_priority (task_at k' i) = base_priority (task_at k i)" for i
    by (simp_all add: at)
  have f: "task_running k' = task_running k" "task_idle k' = task_idle k" "tables_ok k'"
    using mutex_okD(2) [OF k(1)] by (simp_all add: k'_def)
  have ho: "has_open (task_at k' i) j \<longleftrightarrow> has_open (task_at k i) j \<and> \<not> (i = t \<and> j = m)" if "j < MAX_MUTEXES" for i j
    using that m by (auto simp: at)
  have o: "openers k' j = (if j = m then openers k j - {t} else openers k j)" if "j < MAX_MUTEXES" for j
    using ho [OF that] by (auto simp: openers_def)
  have b: "blocked k' i = blocked k i" for i by (simp add: blocked_def g)
  have wf: "waits_for k' i s = waits_for k i s" for i s by (simp add: waits_for_def g ow split: option.split)
  have "sched_ok k'" using mutex_okD(1) [OF k(1)] unfolding sched_ok_def g f by (simp add: f)
  moreover have "refs_ok k'"
    unfolding refs_ok_def
  proof (intro allI impI)
    fix j assume j: "j < MAX_MUTEXES"
    have "t \<in> openers k m" "finite (openers k m)" using t op by (auto simp: openers_def)
    then have "int (card (openers k m - {t})) = int (card (openers k m)) - 1"
      by (metis card_Diff_singleton card_gt_0_iff empty_iff of_nat_diff of_nat_1 Suc_leI One_nat_def)
    then show "m_refs (mutex_at k' j) = int (card (openers k' j))"
      using mutex_okD(3) [OF k(1)] j by (simp add: refs_ok_def o mt)
  qed
  moreover have "owners_ok k'" using mutex_okD(4) [OF k(1)] no by (auto simp: owners_ok_def ow o)
  moreover have "waits_ok k'" using mutex_okD(5) [OF k(1)] w unfolding waits_ok_def g by (auto simp: ho)
  moreover have "channels_ok k'" "waiters_ok k'"
    using mutex_okD(6,7) [OF k(1)] unfolding channels_ok_def waiters_ok_def b g ow by blast+
  moreover have "dead_ok k'" using mutex_okD(8) [OF k(1)] by (simp add: dead_ok_def g at)
  ultimately show "mutex_ok k'" by (simp add: mutex_ok_def)
  show "pi_ok k'" using k(2) by (simp add: pi_ok_def wf g)
qed

lemma close_task_ok:
  assumes k: "mutex_ok k" "pi_ok k" and r: "live_running k" and m: "m < MAX_MUTEXES"
    and op: "has_open (running_task k) m"
  defines "k' \<equiv> mutex_close_task (task_running k) m k"
  shows "mutex_ok k' \<and> pi_ok k' \<and> live_running k' \<and> task_running k' = task_running k"
    "j < MAX_MUTEXES \<Longrightarrow> has_open (running_task k') j \<longleftrightarrow> has_open (running_task k) j \<and> j \<noteq> m"
proof -
  let ?r = "task_running k"
  have rl: "?r < MAX_TASKS" using running_less [OF k(1)] by simp
  define h where "h = (if owner (mutex_at k m) = Some ?r then mutex_hand_over m k else k)"
  have k': "k' = upd_mutex m (m_refs_update (\<lambda>r. r - 1)) (upd_task ?r (open_mutexes_update (\<lambda>b. b AND NOT (mutex_bit m))) h)"
    by (simp add: k'_def mutex_close_task_def h_def Let_def)
  have nb: "\<not> blocked k ?r" using r by (simp add: blocked_def live_running_def)
  have nx: "hand_over_loop k m [0..<MAX_TASKS] None \<noteq> Some ?r"
    using hand_over_some(1) [of k m ?r] mutex_okD(6) [OF k(1)] nb by blast
  have h: "mutex_ok h" "pi_ok h" "task_running h = ?r" "task_idle h = task_idle k" "wait_mutex (task_at h ?r) = None"
    "open_mutexes (task_at h ?r) = open_mutexes (running_task k)" "t_state (task_at h ?r) = TASK_RUNNING"
    "owner (mutex_at h m) \<noteq> Some ?r"
    using k r hand_over_ok [OF k m] hand_over_view [OF k m] nx m mutex_okD(2) [OF k(1)]
    by (auto simp: h_def live_running_def tables_ok_def)
  have op': "has_open (task_at h ?r) m" using op h(6) by (simp add: has_open_def)
  note C = close_bit_ok [OF h(1,2) rl m op' h(5,8), folded k']
  have rl2: "?r < length (task_table h)" using running_less [OF h(1)] h(3) by simp
  have at: "task_at k' ?r = open_mutexes_update (\<lambda>b. b AND NOT (mutex_bit m)) (task_at h ?r)"
    using rl2 unfolding k' by simp
  have "task_running k' = ?r" "task_idle k' = task_idle k" unfolding k' by (simp_all add: h)
  then show "mutex_ok k' \<and> pi_ok k' \<and> live_running k' \<and> task_running k' = task_running k"
    using C r h by (simp add: live_running_def at)
  show "j < MAX_MUTEXES \<Longrightarrow> has_open (running_task k') j \<longleftrightarrow> has_open (running_task k) j \<and> j \<noteq> m"
    using \<open>task_running k' = ?r\<close> m h(6) by (auto simp: at) (simp_all add: has_open_def)
qed

lemma close_ok:
  assumes "mutex_ok k" "pi_ok k" "live_running k"
  shows "mutex_ok (fst (mutex_close mid k)) \<and> pi_ok (fst (mutex_close mid k))"
  using close_task_ok(1) [OF assms] mutex_get_some [of mid k] assms
  by (auto simp: mutex_close_def split: option.split)

lemma release_fold:
  assumes "mutex_ok k" "pi_ok k" "live_running k" "set ms \<subseteq> {..<MAX_MUTEXES}" "task_running k = t"
  defines "k' \<equiv> fold (\<lambda>m k. if has_open (task_at k t) m then mutex_close_task t m k else k) ms k"
  shows "mutex_ok k' \<and> pi_ok k' \<and> live_running k' \<and> task_running k' = t
    \<and> (\<forall>j<MAX_MUTEXES. has_open (task_at k' t) j \<longleftrightarrow> has_open (task_at k t) j \<and> j \<notin> set ms)"
  using assms(1-5) unfolding k'_def
proof (induction ms arbitrary: k)
  case (Cons m ms)
  let ?k = "if has_open (task_at k t) m then mutex_close_task t m k else k"
  have m: "m < MAX_MUTEXES" using Cons.prems by simp
  have C: "mutex_ok ?k \<and> pi_ok ?k \<and> live_running ?k \<and> task_running ?k = t"
    "j < MAX_MUTEXES \<Longrightarrow> has_open (task_at ?k t) j \<longleftrightarrow> has_open (task_at k t) j \<and> j \<noteq> m" for j
    using close_task_ok(1) [OF Cons.prems(1-3) m] close_task_ok(2) [OF Cons.prems(1-3) m, of j] Cons.prems by auto
  show ?case using Cons.IH [of ?k] C Cons.prems(4) by auto
qed simp

text \<open>An exiting task leaves no mutex behind.\<close>

lemma release_all_ok:
  assumes "mutex_ok k" "pi_ok k" "live_running k"
  shows "mutex_ok (mutex_release_all (task_running k) k) \<and> pi_ok (mutex_release_all (task_running k) k)
    \<and> live_running (mutex_release_all (task_running k) k)
    \<and> task_running (mutex_release_all (task_running k) k) = task_running k
    \<and> open_mutexes (running_task (mutex_release_all (task_running k) k)) = 0"
proof -
  have s: "set [0..<MAX_MUTEXES] \<subseteq> {..<MAX_MUTEXES}" by auto
  note R = release_fold [OF assms s refl, folded mutex_release_all_def]
  then have "open_mutexes (task_at (mutex_release_all (task_running k) k) (task_running k)) = 0"
    unfolding open_zero by auto
  then show ?thesis using R by simp
qed


section \<open>Names\<close>

text \<open>No two mutexes in use have the same name.\<close>

definition names_ok :: "'a kernel_scheme \<Rightarrow> bool" where
  "names_ok k \<longleftrightarrow> (\<forall>i<MAX_MUTEXES. m_refs (mutex_at k i) \<noteq> 0 \<longrightarrow> is_cstr (m_name (mutex_at k i))
     \<and> (\<forall>j<MAX_MUTEXES. m_refs (mutex_at k j) \<noteq> 0 \<longrightarrow> m_name (mutex_at k i) = m_name (mutex_at k j) \<longrightarrow> i = j))"

lemma open_loop:
  assumes "is_cstr name" "\<And>i. i \<in> set js \<Longrightarrow> m_refs (mutex_at k i) \<noteq> 0 \<Longrightarrow> is_cstr (m_name (mutex_at k i))"
  shows "case open_loop k name js free of
      (Some i, f) \<Rightarrow> i \<in> set js \<and> m_refs (mutex_at k i) \<noteq> 0 \<and> m_name (mutex_at k i) = name
    | (None, f) \<Rightarrow> (\<forall>i \<in> set js. m_refs (mutex_at k i) \<noteq> 0 \<longrightarrow> m_name (mutex_at k i) \<noteq> name)
        \<and> (case f of None \<Rightarrow> free = None \<and> (\<forall>i \<in> set js. m_refs (mutex_at k i) \<noteq> 0)
           | Some x \<Rightarrow> free = Some x \<or> (x \<in> set js \<and> m_refs (mutex_at k x) = 0))"
  using assms(2)
proof (induction js arbitrary: free)
  case (Cons i js)
  have eq: "m_refs (mutex_at k i) \<noteq> 0 \<Longrightarrow> strcmp (m_name (mutex_at k i)) name = 0 \<longleftrightarrow> m_name (mutex_at k i) = name"
    using Cons.prems assms(1) by (simp add: strcmp_eq_0)
  have IH: "case open_loop k name js g of
      (Some i, f) \<Rightarrow> i \<in> set js \<and> m_refs (mutex_at k i) \<noteq> 0 \<and> m_name (mutex_at k i) = name
    | (None, f) \<Rightarrow> (\<forall>i \<in> set js. m_refs (mutex_at k i) \<noteq> 0 \<longrightarrow> m_name (mutex_at k i) \<noteq> name)
        \<and> (case f of None \<Rightarrow> g = None \<and> (\<forall>i \<in> set js. m_refs (mutex_at k i) \<noteq> 0)
           | Some x \<Rightarrow> g = Some x \<or> (x \<in> set js \<and> m_refs (mutex_at k x) = 0))" for g
    using Cons.IH [of g] Cons.prems by simp
  show ?case
  proof (cases "m_refs (mutex_at k i) = 0")
    case True
    then show ?thesis using IH [of "Some i"] IH [of free]
      by (cases "free = None") (auto split: prod.splits option.splits)
  next
    case False
    then show ?thesis using IH [of free] eq by (auto split: prod.splits option.splits)
  qed
qed (simp split: option.split)

text \<open>The reference that \<^verbatim>\<open>mutex_open\<close> takes.\<close>

lemma take_ref_ok:
  assumes k: "mutex_ok k" "pi_ok k" and r: "live_running k" and m: "m < MAX_MUTEXES"
    and no: "\<not> has_open (running_task k) m"
  defines "k' \<equiv> upd_running (open_mutexes_update (\<lambda>b. b OR mutex_bit m)) (upd_mutex m (m_refs_update (\<lambda>r. r + 1)) k)"
  shows "mutex_ok k' \<and> pi_ok k'" "has_open (running_task k') m"
    "mutex_at k' j = (if j = m then m_refs_update (\<lambda>r. r + 1) (mutex_at k j) else mutex_at k j)"
proof -
  let ?r = "task_running k"
  have tl: "?r < length (task_table k)" "?r < MAX_TASKS" "m < length (mutexes k)"
    using mutex_okD(2) [OF k(1)] m by (simp_all add: tables_ok_def)
  have at: "task_at k' i = (if i = ?r then open_mutexes_update (\<lambda>b. b OR mutex_bit m) (task_at k i) else task_at k i)" for i
    using tl by (simp add: k'_def task_at_upd)
  show mt: "mutex_at k' j = (if j = m then m_refs_update (\<lambda>r. r + 1) (mutex_at k j) else mutex_at k j)" for j
    using tl by (simp add: k'_def mutex_at_upd)
  have ow: "owner (mutex_at k' j) = owner (mutex_at k j)" "inherit (mutex_at k' j) = inherit (mutex_at k j)" for j
    by (simp_all add: mt)
  have g: "t_state (task_at k' i) = t_state (task_at k i)" "wait_mutex (task_at k' i) = wait_mutex (task_at k i)"
    "wait_channel (task_at k' i) = wait_channel (task_at k i)" "priority (task_at k' i) = priority (task_at k i)"
    "base_priority (task_at k' i) = base_priority (task_at k i)" for i
    by (simp_all add: at)
  have f: "task_running k' = task_running k" "task_idle k' = task_idle k" "tables_ok k'"
    using mutex_okD(2) [OF k(1)] by (simp_all add: k'_def)
  have ho: "has_open (task_at k' i) j \<longleftrightarrow> has_open (task_at k i) j \<or> (i = ?r \<and> j = m)" if "j < MAX_MUTEXES" for i j
    using that m by (auto simp: at)
  show "has_open (running_task k') m" using ho [OF m] f by simp
  have o: "openers k' j = (if j = m then insert ?r (openers k j) else openers k j)" if "j < MAX_MUTEXES" for j
    using ho [OF that] tl by (auto simp: openers_def)
  have b: "blocked k' i = blocked k i" for i by (simp add: blocked_def g)
  have wf: "waits_for k' i s = waits_for k i s" for i s by (simp add: waits_for_def g ow split: option.split)
  have "sched_ok k'" using mutex_okD(1) [OF k(1)] unfolding sched_ok_def g f by (simp add: f)
  moreover have "?r \<notin> openers k m" "finite (openers k m)" using no by (auto simp: openers_def)
  then have "refs_ok k'" using mutex_okD(3) [OF k(1)] by (simp add: refs_ok_def o mt)
  moreover have "owners_ok k'" using mutex_okD(4) [OF k(1)] by (auto simp: owners_ok_def ow o)
  moreover have "waits_ok k'" using mutex_okD(5) [OF k(1)] unfolding waits_ok_def g by (auto simp: ho)
  moreover have "channels_ok k'" "waiters_ok k'"
    using mutex_okD(6,7) [OF k(1)] unfolding channels_ok_def waiters_ok_def b g ow by blast+
  moreover have "dead_ok k'"
    using mutex_okD(8) [OF k(1)] r unfolding dead_ok_def g at by (auto simp: no_life_def live_running_def)
  ultimately show "mutex_ok k' \<and> pi_ok k'" using k(2) by (simp add: mutex_ok_def pi_ok_def wf g)
qed

text \<open>A free slot may be overwritten.\<close>

lemma new_mutex_ok:
  assumes k: "mutex_ok k" "pi_ok k" and m: "m < MAX_MUTEXES" and free: "m_refs (mutex_at k m) = 0"
    and x: "m_refs x = 0" "owner x = None"
  shows "mutex_ok (upd_mutex m (\<lambda>_. x) k) \<and> pi_ok (upd_mutex m (\<lambda>_. x) k)"
proof -
  let ?k = "upd_mutex m (\<lambda>_. x) k"
  have lm: "m < length (mutexes k)" using mutex_okD(2) [OF k(1)] m by (simp add: tables_ok_def)
  note mt = mutex_at_upd [OF lm, of "\<lambda>_. x"]
  have e: "openers k m = {}" using card_openers [OF m mutex_okD(3) [OF k(1)]] free by simp
  have now: "owner (mutex_at k m) = None" using mutex_okD(4) [OF k(1)] m e by (cases "owner (mutex_at k m)") (auto simp: owners_ok_def)
  have nobody: "wait_mutex (task_at k i) \<noteq> Some m" if "blocked k i" for i
    using mutex_okD(7) [OF k(1)] that now unfolding waiters_ok_def by auto
  have o: "openers ?k j = openers k j" and b: "blocked ?k i = blocked k i" for i j
    by (simp_all add: openers_def blocked_def)
  have "sched_ok ?k" using mutex_okD(1) [OF k(1)] by (simp add: sched_ok_def)
  moreover have "refs_ok ?k" "owners_ok ?k"
    using mutex_okD(3,4) [OF k(1)] x e by (auto simp: refs_ok_def owners_ok_def o mt)
  moreover have "waits_ok ?k" "channels_ok ?k" "dead_ok ?k"
    using mutex_okD(5,6,8) [OF k(1)] by (simp_all add: mutex_parts b)
  moreover have "waiters_ok ?k" using mutex_okD(7) [OF k(1)] nobody by (auto simp: waiters_ok_def b mt)
  moreover have "waits_for ?k i s \<Longrightarrow> i < MAX_TASKS \<Longrightarrow> waits_for k i s" for i s
    using nobody [of i] by (elim waits_forE) (auto simp: waits_for_def mt blocked_def split: if_splits)
  ultimately show ?thesis using k(2) by (auto simp: mutex_ok_def pi_ok_def)
qed

lemma mutex_open_cases:
  assumes k: "mutex_ok k" "names_ok k" and name: "is_cstr name"
  shows "(length name \<ge> MUTEX_NAME_LEN \<and> mutex_open name flags k = (k, Inl INVALID_ARG_ERROR))
    \<or> (\<exists>i<MAX_MUTEXES. length name < MUTEX_NAME_LEN \<and> m_refs (mutex_at k i) \<noteq> 0 \<and> m_name (mutex_at k i) = name
         \<and> mutex_open name flags k = ((if has_open (running_task k) i then k
             else upd_running (open_mutexes_update (\<lambda>b. b OR mutex_bit i)) (upd_mutex i (m_refs_update (\<lambda>r. r + 1)) k)), Inr i))
    \<or> (\<exists>i<MAX_MUTEXES. length name < MUTEX_NAME_LEN \<and> m_refs (mutex_at k i) = 0
         \<and> (\<forall>j<MAX_MUTEXES. m_refs (mutex_at k j) \<noteq> 0 \<longrightarrow> m_name (mutex_at k j) \<noteq> name)
         \<and> \<not> has_open (running_task k) i
         \<and> mutex_open name flags k =
             (upd_running (open_mutexes_update (\<lambda>b. b OR mutex_bit i)) (upd_mutex i (m_refs_update (\<lambda>r. r + 1))
               (upd_mutex i (\<lambda>_. zero_mutex\<lparr>m_name := name, inherit := flags AND MUTEX_INHERIT \<noteq> 0\<rparr>) k)), Inr i))
    \<or> (length name < MUTEX_NAME_LEN \<and> (\<forall>j<MAX_MUTEXES. m_refs (mutex_at k j) \<noteq> 0 \<and> m_name (mutex_at k j) \<noteq> name)
         \<and> mutex_open name flags k = (k, Inl NO_MEMORY_ERROR))"
proof (cases "length name \<ge> MUTEX_NAME_LEN")
  case True
  then show ?thesis using name by (simp add: mutex_open_def)
next
  case False
  obtain found free where l: "open_loop k name [0..<MAX_MUTEXES] None = (found, free)" by fastforce
  have L: "case (found, free) of
      (Some i, f) \<Rightarrow> i < MAX_MUTEXES \<and> m_refs (mutex_at k i) \<noteq> 0 \<and> m_name (mutex_at k i) = name
    | (None, f) \<Rightarrow> (\<forall>i<MAX_MUTEXES. m_refs (mutex_at k i) \<noteq> 0 \<longrightarrow> m_name (mutex_at k i) \<noteq> name)
        \<and> (case f of None \<Rightarrow> (\<forall>i<MAX_MUTEXES. m_refs (mutex_at k i) \<noteq> 0)
           | Some x \<Rightarrow> x < MAX_MUTEXES \<and> m_refs (mutex_at k x) = 0)"
    using open_loop [where name = name and k = k and js = "[0..<MAX_MUTEXES]" and free = None] name k(2)
    unfolding l names_ok_def by (auto split: option.splits)
  show ?thesis
  proof (cases found)
    case (Some i)
    then show ?thesis using L False name by (simp add: mutex_open_def l)
  next
    case None
    show ?thesis
    proof (cases free)
      case None
      then show ?thesis using L False name \<open>found = None\<close> by (simp add: mutex_open_def l)
    next
      case (Some f)
      have f: "f < MAX_MUTEXES" "m_refs (mutex_at k f) = 0"
        "\<forall>j<MAX_MUTEXES. m_refs (mutex_at k j) \<noteq> 0 \<longrightarrow> m_name (mutex_at k j) \<noteq> name"
        using L \<open>found = None\<close> Some by auto
      have e: "\<not> has_open (running_task k) f"
        using card_openers [OF f(1) mutex_okD(3) [OF k(1)]] f(2) running_less [OF k(1)] by (auto simp: openers_def)
      have "mutex_open name flags k =
             (upd_running (open_mutexes_update (\<lambda>b. b OR mutex_bit f)) (upd_mutex f (m_refs_update (\<lambda>r. r + 1))
               (upd_mutex f (\<lambda>_. zero_mutex\<lparr>m_name := name, inherit := flags AND MUTEX_INHERIT \<noteq> 0\<rparr>) k)), Inr f)"
        using False name e \<open>found = None\<close> Some by (simp add: mutex_open_def l)
      then show ?thesis using f e False by (intro disjI2 disjI1) (auto intro!: exI [of _ f])
    qed
  qed
qed


text \<open>What the operations other than \<^verbatim>\<open>mutex_open\<close> do to the table: names stay, no slot comes
  into use, and a mutex that another task owns keeps its owner.\<close>

definition mutex_frame :: "nat \<Rightarrow> 'a kernel_scheme \<Rightarrow> 'a kernel_scheme \<Rightarrow> bool" where
  "mutex_frame r k k' \<longleftrightarrow> (\<forall>j. m_name (mutex_at k' j) = m_name (mutex_at k j)
     \<and> (m_refs (mutex_at k' j) \<noteq> 0 \<longrightarrow> m_refs (mutex_at k j) \<noteq> 0)
     \<and> (\<forall>t. owner (mutex_at k j) = Some t \<longrightarrow> t \<noteq> r \<longrightarrow> owner (mutex_at k' j) = Some t))"

lemma mutex_frame_names: "mutex_frame r k k' \<Longrightarrow> names_ok k \<Longrightarrow> names_ok k'"
  unfolding mutex_frame_def names_ok_def by metis

lemma mutex_frame_same: "mutexes k' = mutexes k \<Longrightarrow> mutex_frame r k k'"
  by (simp add: mutex_frame_def)

lemma mutex_frame_trans: "mutex_frame r k k' \<Longrightarrow> mutex_frame r k' k'' \<Longrightarrow> mutex_frame r k k''"
  unfolding mutex_frame_def by metis

lemma mutex_frame_upd:
  assumes "mutexes k' = (mutexes k)[m := x]" "m_name x = m_name (mutex_at k m)"
    "m_refs x \<noteq> 0 \<longrightarrow> m_refs (mutex_at k m) \<noteq> 0" "owner (mutex_at k m) \<in> {None, Some r} \<or> owner x = owner (mutex_at k m)"
  shows "mutex_frame r k k'"
  using assms(2-4) unfolding mutex_frame_def assms(1)
  by (cases "m < length (mutexes k)") (auto simp: nth_list_update list_update_beyond)

lemma view_mutexes: "same_view k k' \<Longrightarrow> mutexes k' = mutexes k"
  by (simp add: same_view_def)

lemma lock_loop_frame: "mutex_frame (task_running k) k (out_state (mutex_lock_loop m k))"
proof (cases "owner (mutex_at k m)")
  case None
  then show ?thesis
    by (simp add: mutex_lock_loop_def) (rule mutex_frame_upd, simp add: upd_mutex_def, simp_all)
next
  case (Some t)
  have "mutexes (out_state (mutex_lock_loop m k)) = mutexes k"
    using Some
    by (simp add: mutex_lock_loop_def Let_def task_block_on_def mutex_boost_def
          view_mutexes [OF boost_view] view_mutexes [OF update_view])
  then show ?thesis by (rule mutex_frame_same)
qed

lemma lock_frame: "mutex_frame (task_running k) k (out_state (mutex_lock mid k))"
  using lock_loop_frame by (auto simp: mutex_lock_def mutex_frame_same split: option.split)

lemma resumed_frame: "mutex_frame (task_running k) k (out_state (mutex_lock_resumed m k))"
proof -
  let ?k = "upd_running (wait_mutex_update (\<lambda>_. None)) (task_block_on_resumed k)"
  have f: "mutexes ?k = mutexes k" "task_running ?k = task_running k" by (simp_all add: task_block_on_resumed_def)
  show ?thesis
    using mutex_frame_trans [OF mutex_frame_same [OF f(1)] lock_loop_frame [of ?k m, unfolded f(2)]]
    by (simp add: mutex_lock_resumed_def)
qed

lemma hand_over_frame:
  assumes "mutex_ok k" "pi_ok k" "m < MAX_MUTEXES" "owner (mutex_at k m) = Some (task_running k)"
  shows "mutex_frame (task_running k) k (mutex_hand_over m k)"
  by (rule mutex_frame_upd [OF hand_over_view(1) [OF assms]]) (simp_all add: assms)

lemma unlock_frame: "mutex_ok k \<Longrightarrow> pi_ok k \<Longrightarrow> mutex_frame (task_running k) k (fst (mutex_unlock mid k))"
  using hand_over_frame [of k] mutex_get_some(1) [of mid k]
  by (auto simp: mutex_unlock_def mutex_frame_same split: option.split)

lemma close_task_frame:
  assumes "mutex_ok k" "pi_ok k" "m < MAX_MUTEXES" "has_open (running_task k) m"
  shows "mutex_frame (task_running k) k (mutex_close_task (task_running k) m k)"
proof -
  let ?h = "if owner (mutex_at k m) = Some (task_running k) then mutex_hand_over m k else k"
  have f: "mutex_frame (task_running k) k ?h" using hand_over_frame [OF assms(1-3)] by (simp add: mutex_frame_same)
  have "m_refs (mutex_at k m) \<noteq> 0"
    using card_openers [OF assms(3) mutex_okD(3) [OF assms(1)]] assms(4) running_less [OF assms(1)] by (auto simp: openers_def)
  then have r: "m_refs (mutex_at ?h m) \<noteq> 0"
    using hand_over_view(1) [OF assms(1-3)] mutex_okD(2) [OF assms(1)] assms(3) by (simp add: tables_ok_def)
  show ?thesis
    by (rule mutex_frame_trans [OF f], rule mutex_frame_upd)
      (simp add: mutex_close_task_def Let_def upd_mutex_def, simp_all add: r upd_task_def)
qed

lemma close_frame: "mutex_ok k \<Longrightarrow> pi_ok k \<Longrightarrow> mutex_frame (task_running k) k (fst (mutex_close mid k))"
  using close_task_frame [of k] mutex_get_some(1,2) [of mid k]
  by (auto simp: mutex_close_def mutex_frame_same split: option.split)

lemma open_ok:
  fixes flags :: u32
  assumes k: "mutex_ok k" "pi_ok k" "names_ok k" and r: "live_running k" and name: "is_cstr name"
  defines "k' \<equiv> fst (mutex_open name flags k)"
  shows "mutex_ok k' \<and> pi_ok k' \<and> names_ok k'"
    "owner (mutex_at k j) = Some t \<Longrightarrow> j < MAX_MUTEXES \<Longrightarrow> owner (mutex_at k' j) = Some t"
    "snd (mutex_open name flags k) = Inr i \<Longrightarrow>
       i < MAX_MUTEXES \<and> m_name (mutex_at k' i) = name \<and> has_open (running_task k') i"
proof -
  let ?new = "zero_mutex\<lparr>m_name := name, inherit := flags AND MUTEX_INHERIT \<noteq> 0\<rparr>"
  let ?take = "\<lambda>i s. upd_running (open_mutexes_update (\<lambda>b. b OR mutex_bit i)) (upd_mutex i (m_refs_update (\<lambda>r. r + 1)) s)"
  have "mutex_ok k' \<and> pi_ok k' \<and> names_ok k'
    \<and> (\<forall>j<MAX_MUTEXES. \<forall>t. owner (mutex_at k j) = Some t \<longrightarrow> owner (mutex_at k' j) = Some t)
    \<and> (\<forall>i. snd (mutex_open name flags k) = Inr i \<longrightarrow>
       i < MAX_MUTEXES \<and> m_name (mutex_at k' i) = name \<and> has_open (running_task k') i)"
    using mutex_open_cases [OF k(1,3) name, of flags]
  proof (elim disjE exE conjE)
    fix i assume i: "i < MAX_MUTEXES" "m_refs (mutex_at k i) \<noteq> 0" "m_name (mutex_at k i) = name"
      and e: "mutex_open name flags k = ((if has_open (running_task k) i then k else ?take i k), Inr i)"
    show ?thesis
    proof (cases "has_open (running_task k) i")
      case True
      then show ?thesis using k i e by (simp add: k'_def)
    next
      case False
      note T = take_ref_ok [OF k(1,2) r i(1) False]
      have "names_ok (?take i k)" using k(3) i(2) unfolding names_ok_def T(3) by auto
      then show ?thesis using T i e False by (auto simp: k'_def)
    qed
  next
    fix i assume i: "i < MAX_MUTEXES" "m_refs (mutex_at k i) = 0"
        "\<forall>j<MAX_MUTEXES. m_refs (mutex_at k j) \<noteq> 0 \<longrightarrow> m_name (mutex_at k j) \<noteq> name"
        "\<not> has_open (running_task k) i"
      and e: "mutex_open name flags k = (?take i (upd_mutex i (\<lambda>_. ?new) k), Inr i)"
    let ?k = "upd_mutex i (\<lambda>_. ?new) k"
    have lm: "i < length (mutexes k)" using mutex_okD(2) [OF k(1)] i by (simp add: tables_ok_def)
    have N: "mutex_ok ?k \<and> pi_ok ?k" using new_mutex_ok [OF k(1,2) i(1,2)] by (simp add: zero_mutex_def)
    have r': "live_running ?k" "\<not> has_open (running_task ?k) i" using r i(4) by (simp_all add: live_running_def)
    note T = take_ref_ok [OF conjunct1 [OF N] conjunct2 [OF N] r'(1) i(1) r'(2)]
    note mt = mutex_at_upd [OF lm, of "\<lambda>_. ?new"]
    have "names_ok (?take i ?k)" using k(3) i name unfolding names_ok_def T(3) mt by auto
    moreover have "openers k i = {}" using card_openers [OF i(1) mutex_okD(3) [OF k(1)]] i(2) by simp
    then have "owner (mutex_at k i) = None"
      using mutex_okD(4) [OF k(1)] i(1) by (cases "owner (mutex_at k i)") (auto simp: owners_ok_def)
    ultimately show ?thesis using T i e by (auto simp: k'_def mt)
  qed (use k in \<open>auto simp: k'_def\<close>)
  then show "mutex_ok k' \<and> pi_ok k' \<and> names_ok k'"
    "owner (mutex_at k j) = Some t \<Longrightarrow> j < MAX_MUTEXES \<Longrightarrow> owner (mutex_at k' j) = Some t"
    "snd (mutex_open name flags k) = Inr i \<Longrightarrow>
       i < MAX_MUTEXES \<and> m_name (mutex_at k' i) = name \<and> has_open (running_task k') i" by blast+
qed


section \<open>The properties\<close>

definition sync_ok :: "'a kernel_scheme \<Rightarrow> bool" where
  "sync_ok k \<longleftrightarrow> mutex_ok k \<and> pi_ok k \<and> names_ok k"

lemma release_frame:
  "mutex_ok k \<Longrightarrow> pi_ok k \<Longrightarrow> live_running k \<Longrightarrow> set ms \<subseteq> {..<MAX_MUTEXES} \<Longrightarrow> task_running k = t \<Longrightarrow>
   mutex_frame t k (fold (\<lambda>m k. if has_open (task_at k t) m then mutex_close_task t m k else k) ms k)"
proof (induction ms arbitrary: k)
  case (Cons m ms)
  let ?k = "if has_open (task_at k t) m then mutex_close_task t m k else k"
  have m: "m < MAX_MUTEXES" using Cons.prems by simp
  have "mutex_ok ?k" "pi_ok ?k" "live_running ?k" "task_running ?k = t"
    using close_task_ok(1) [OF Cons.prems(1-3) m] Cons.prems by auto
  then have "mutex_frame t ?k (fold (\<lambda>m k. if has_open (task_at k t) m then mutex_close_task t m k else k) ms ?k)"
    using Cons.IH [of ?k] Cons.prems(4) by simp
  moreover have "mutex_frame t k ?k"
    using close_task_frame [OF Cons.prems(1,2) m] Cons.prems(5) by (auto simp: mutex_frame_same)
  ultimately show ?case unfolding fold_simps by (rule mutex_frame_trans [rotated])
qed (simp add: mutex_frame_same)

lemma release_all_frame:
  assumes "mutex_ok k" "pi_ok k" "live_running k"
  shows "mutex_frame (task_running k) k (mutex_release_all (task_running k) k)"
proof -
  have s: "set [0..<MAX_MUTEXES] \<subseteq> {..<MAX_MUTEXES}" by auto
  show ?thesis using release_frame [OF assms s refl] unfolding mutex_release_all_def .
qed

text \<open>What one round of the loop of \<^verbatim>\<open>mutex_lock\<close> comes to: the mutex is the caller's, the caller was killed,
  or it blocks with the mutex noted as the one it waits for.\<close>

definition lock_result :: "nat \<Rightarrow> 'a kernel_scheme \<Rightarrow> ('a kernel_scheme, error + int) outcome \<Rightarrow> bool" where
  "lock_result m k res \<longleftrightarrow>
    (case res of
       Done k' (Inr c) \<Rightarrow> live_running k' \<and> task_running k' = task_running k
         \<and> (if c = 0 then owner (mutex_at k m) \<in> {None, Some (task_running k)} \<and> owner (mutex_at k' m) = Some (task_running k)
            else c = TASK_KILLED \<and> killed (running_task k) \<and> mutexes k' = mutexes k)
     | Done k' (Inl e) \<Rightarrow> False
     | Switched k' \<Rightarrow> (\<exists>t. owner (mutex_at k m) = Some t \<and> t \<noteq> task_running k) \<and> \<not> killed (running_task k)
         \<and> mutexes k' = mutexes k \<and> task_running k' \<noteq> task_running k
         \<and> blocked k' (task_running k) \<and> wait_mutex (task_at k' (task_running k)) = Some m)"

lemma block_on_wait:
  assumes "tables_ok k"
  shows "wait_mutex (task_at (task_block_on ch c k) i) = wait_mutex (task_at k i)"
proof -
  have "tables_ok (upd_running (\<lambda>t. t\<lparr>wait_channel := Some ch, t_state := TASK_BLOCKED, saved_ctx := c\<rparr>) k)"
    using assms by simp
  then show ?thesis by (simp add: task_block_on_def schedule_fields upd_task_field)
qed

lemma lock_loop_result:
  assumes k: "mutex_ok k" "pi_ok k" and r: "live_running k" and m: "m < MAX_MUTEXES" "has_open (running_task k) m"
  shows "lock_result m k (mutex_lock_loop m k)"
proof (cases "owner (mutex_at k m)")
  case None
  have "m < length (mutexes k)" using m mutex_okD(2) [OF k(1)] by (simp add: tables_ok_def)
  then show ?thesis using None r by (simp add: lock_result_def mutex_lock_loop_def mutex_at_upd live_running_def)
next
  case (Some t)
  consider "t = task_running k" | "t \<noteq> task_running k" "killed (running_task k)"
    | "t \<noteq> task_running k" "\<not> killed (running_task k)" by blast
  then show ?thesis
  proof cases
    case 1
    then show ?thesis using Some r by (simp add: lock_result_def mutex_lock_loop_def)
  next
    case 2
    then show ?thesis using Some r update_view [of k t]
      by (simp add: lock_result_def mutex_lock_loop_def same_view_def live_running_def)
  next
    case 3
    let ?k0 = "upd_running (wait_mutex_update (\<lambda>_. Some m)) k"
    let ?k1 = "if inherit (mutex_at ?k0 m)
         then mutex_boost (owner (mutex_at ?k0 m)) (priority (running_task ?k0)) ?k0 else ?k0"
    have rl: "task_running k < MAX_TASKS" "task_running k < length (task_table k)" using running_less [OF k(1)] by auto
    have l: "mutex_lock_loop m k = Switched (task_block_on (Ch_mutex m) (Ctx_lock m) ?k1)"
      using Some 3 by (simp add: mutex_lock_loop_def Let_def)
    have v: "same_view ?k0 ?k1" by (simp add: mutex_boost_def boost_view)
    have m1: "mutex_ok ?k1" using same_view_ok [OF v] set_wait_ok(1) [OF k(1) r m] by blast
    have f1: "task_running ?k1 = task_running k" "task_idle ?k1 = task_idle k" "mutexes ?k1 = mutexes k"
      "wait_mutex (task_at ?k1 (task_running k)) = Some m"
      using v rl by (simp_all add: same_view_def)
    show ?thesis
      using l block_on_blocks [OF m1, of "Ch_mutex m" "Ctx_lock m"] block_on_wait [OF mutex_okD(2) [OF m1], of "Ch_mutex m" "Ctx_lock m"]
        Some 3 r f1 rl
      by (auto simp: lock_result_def live_running_def blocked_def)
  qed
qed

lemma release_names:
  "sync_ok k \<Longrightarrow> live_running k \<Longrightarrow> set ms \<subseteq> {..<MAX_MUTEXES} \<Longrightarrow> task_running k = t \<Longrightarrow>
   names_ok (fold (\<lambda>m k. if has_open (task_at k t) m then mutex_close_task t m k else k) ms k)"
proof (induction ms arbitrary: k)
  case (Cons m ms)
  have s: "mutex_ok k" "pi_ok k" "names_ok k" "m < MAX_MUTEXES" using Cons.prems by (auto simp: sync_ok_def)
  show ?case
    using Cons.IH Cons.prems close_task_ok(1) [OF s(1,2) Cons.prems(2) s(4)]
      mutex_frame_names [OF close_task_frame [OF s(1,2,4)] s(3)]
    by (simp add: sync_ok_def)
qed (simp add: sync_ok_def)

lemma lock_resumed_result:
  assumes k: "mutex_ok k" "pi_ok k" and r: "t_state (running_task k) = TASK_RUNNING"
    and idle: "task_running k \<noteq> task_idle k" and w: "wait_mutex (running_task k) = Some m"
  shows "lock_result m k (mutex_lock_resumed m k)"
proof -
  define k1 where "k1 = upd_running (wait_mutex_update (\<lambda>_. None)) (task_block_on_resumed k)"
  note C = clear_wait_ok [OF k r, folded k1_def]
  have rl: "task_running k < length (task_table k)" using running_less [OF k(1)] by simp
  have f: "task_idle k1 = task_idle k" "mutexes k1 = mutexes k" "task_running k1 = task_running k"
    "killed (task_at k1 (task_running k)) = killed (running_task k)"
    using rl by (simp_all add: k1_def task_block_on_resumed_def)
  have m: "m < MAX_MUTEXES" "has_open (running_task k) m"
    using mutex_okD(5) [OF k(1)] running_less [OF k(1)] w by (auto simp: waits_ok_def)
  have "lock_result m k1 (mutex_lock_loop m k1)"
    using lock_loop_result [of k1 m] C f idle m by (simp add: live_running_def has_open_def)
  then show ?thesis unfolding lock_result_def mutex_lock_resumed_def f k1_def [symmetric] .
qed

text \<open>C11. Every mutex call of a running task keeps the invariants: a mutex counts exactly the
  tasks that have it open and is owned by one of them, no task waits for a mutex that is free or its
  own (so no wake-up is lost), names are unique, and with priority inheritance an owner runs at least
  at the priority of each of its waiters, through chains of owners too. The calls are those of a task that
  is in no wait, the release of its mutexes when it exits among them; a task that runs again after it
  blocked in \<^verbatim>\<open>mutex_lock\<close> goes on there, keeps the invariants too, and either owns the mutex and waits
  no longer, or was killed, or finds the mutex taken by another task and waits for it again.\<close>

theorem mutex_calls_keep_invariant:
  assumes "sync_ok k" "t_state (running_task k) = TASK_RUNNING" "task_running k \<noteq> task_idle k" "is_cstr name"
  shows "case wait_mutex (running_task k) of
      None \<Rightarrow> sync_ok (out_state (mutex_lock mid k)) \<and> sync_ok (fst (mutex_unlock mid k))
        \<and> sync_ok (fst (mutex_close mid k)) \<and> sync_ok (fst (mutex_open name flags k))
        \<and> sync_ok (mutex_release_all (task_running k) k)
    | Some m \<Rightarrow> sync_ok (out_state (mutex_lock_resumed m k)) \<and> lock_result m k (mutex_lock_resumed m k)"
proof -
  have k: "mutex_ok k" "pi_ok k" "names_ok k" using assms(1) by (auto simp: sync_ok_def)
  show ?thesis
  proof (cases "wait_mutex (running_task k)")
    case None
    have r: "live_running k" using assms(2,3) None by (simp add: live_running_def)
    show ?thesis
      using None lock_ok [OF k(1,2) r] unlock_ok [OF k(1,2)] close_ok [OF k(1,2) r]
        release_all_ok [OF k(1,2) r] open_ok(1) [OF k r assms(4)]
        mutex_frame_names [OF lock_frame k(3)] mutex_frame_names [OF unlock_frame [OF k(1,2)] k(3)]
        mutex_frame_names [OF close_frame [OF k(1,2)] k(3)] mutex_frame_names [OF release_all_frame [OF k(1,2) r] k(3)]
      by (simp add: sync_ok_def)
  next
    case (Some m)
    show ?thesis
      using Some lock_resumed_ok [OF k(1,2) assms(2,3) Some] mutex_frame_names [OF resumed_frame k(3)]
        lock_resumed_result [OF k(1,2) assms(2,3) Some]
      by (simp add: sync_ok_def)
  qed
qed

text \<open>C12. Mutual exclusion: while a task owns a mutex no call of another task takes it away, neither a call
  it makes nor the second half of a \<^verbatim>\<open>mutex_lock\<close> it waited in, nor the release of its mutexes when it exits.\<close>

theorem mutex_owner_kept:
  assumes "sync_ok k" "t_state (running_task k) = TASK_RUNNING" "task_running k \<noteq> task_idle k" "is_cstr name"
    and "m < MAX_MUTEXES" "owner (mutex_at k m) = Some t" "t \<noteq> task_running k"
  shows "case wait_mutex (running_task k) of
      None \<Rightarrow> owner (mutex_at (out_state (mutex_lock mid k)) m) = Some t
        \<and> owner (mutex_at (fst (mutex_unlock mid k)) m) = Some t
        \<and> owner (mutex_at (fst (mutex_close mid k)) m) = Some t
        \<and> owner (mutex_at (fst (mutex_open name flags k)) m) = Some t
        \<and> owner (mutex_at (mutex_release_all (task_running k) k) m) = Some t
    | Some w \<Rightarrow> owner (mutex_at (out_state (mutex_lock_resumed w k)) m) = Some t"
proof -
  have k: "mutex_ok k" "pi_ok k" "names_ok k" using assms(1) by (auto simp: sync_ok_def)
  show ?thesis
  proof (cases "wait_mutex (running_task k)")
    case None
    have r: "live_running k" using assms(2,3) None by (simp add: live_running_def)
    have "owner (mutex_at (fst (mutex_open name flags k)) m) = Some t"
      using open_ok(2) [OF k r assms(4,6,5)] .
    then show ?thesis
      using None lock_frame [of k mid] unlock_frame [OF k(1,2), of mid] close_frame [OF k(1,2), of mid]
        release_all_frame [OF k(1,2) r] assms(6,7)
      by (simp add: mutex_frame_def)
  next
    case (Some w)
    then show ?thesis using resumed_frame [of k w] assms(6,7) by (simp add: mutex_frame_def)
  qed
qed

text \<open>Locking: the call returns 0 exactly with the mutex owned by the caller, it blocks only while
  another task owns it, and it fails without an effect for a mutex that is not open or already
  the caller's.\<close>

theorem mutex_lock_result:
  assumes "sync_ok k" "live_running k"
  shows "case mutex_lock mid k of
      Done k' (Inr c) \<Rightarrow> (\<exists>m<MAX_MUTEXES. mid = int m \<and> has_open (running_task k) m \<and>
         (if c = 0 then owner (mutex_at k m) = None \<and> owner (mutex_at k' m) = Some (task_running k)
          else c = TASK_KILLED \<and> killed (running_task k) \<and> mutexes k' = mutexes k))
    | Done k' (Inl e) \<Rightarrow> k' = k \<and> e = INVALID_ARG_ERROR \<and>
         (\<forall>m<MAX_MUTEXES. mid = int m \<longrightarrow> has_open (running_task k) m \<longrightarrow> owner (mutex_at k m) = Some (task_running k))
    | Switched k' \<Rightarrow> (\<exists>m<MAX_MUTEXES. \<exists>t. mid = int m \<and> owner (mutex_at k m) = Some t \<and> t \<noteq> task_running k
         \<and> mutexes k' = mutexes k \<and> task_running k' \<noteq> task_running k
         \<and> t_state (task_at k' (task_running k)) = TASK_BLOCKED)"
proof -
  have k: "mutex_ok k" "pi_ok k" using assms(1) by (auto simp: sync_ok_def)
  have rl: "task_running k < length (task_table k)" "task_running k < MAX_TASKS" using running_less [OF k(1)] by auto
  show ?thesis
  proof (cases "mutex_get mid k")
    case None
    have "m_refs (mutex_at k m) \<noteq> 0" if "m < MAX_MUTEXES" "has_open (running_task k) m" for m
      using card_openers [OF that(1) mutex_okD(3) [OF k(1)]] that(2) rl by (auto simp: openers_def)
    then show ?thesis using None by (auto simp: mutex_lock_def mutex_get_def split: if_splits)
  next
    case (Some m)
    note g = mutex_get_some [OF Some]
    have lm: "m < length (mutexes k)" using g(1) mutex_okD(2) [OF k(1)] by (simp add: tables_ok_def)
    show ?thesis
    proof (cases "owner (mutex_at k m)")
      case None
      then show ?thesis using g Some lm by (auto simp: mutex_lock_def mutex_lock_loop_def mutex_at_upd)
    next
      case (Some t)
      consider "t = task_running k" | "t \<noteq> task_running k" "killed (running_task k)"
        | "t \<noteq> task_running k" "\<not> killed (running_task k)" by blast
      then show ?thesis
      proof cases
        case 1
        then show ?thesis using \<open>mutex_get mid k = Some m\<close> Some g by (auto simp: mutex_lock_def)
      next
        case 2
        then show ?thesis using \<open>mutex_get mid k = Some m\<close> Some g
          by (auto simp: mutex_lock_def mutex_lock_loop_def view_mutexes [OF update_view])
      next
        case 3
        let ?k0 = "upd_running (wait_mutex_update (\<lambda>_. Some m)) k"
        let ?k1 = "if inherit (mutex_at ?k0 m)
             then mutex_boost (owner (mutex_at ?k0 m)) (priority (running_task ?k0)) ?k0 else ?k0"
        have l: "mutex_lock mid k = Switched (task_block_on (Ch_mutex m) (Ctx_lock m) ?k1)"
          using \<open>mutex_get mid k = Some m\<close> Some 3 by (simp add: mutex_lock_def mutex_lock_loop_def Let_def)
        have v: "same_view ?k0 ?k1" by (simp add: mutex_boost_def boost_view)
        note B = lock_block_ok [OF k assms(2) g(1,2) Some 3(1), of "Ctx_lock m"]
        have m1: "mutex_ok ?k1" using same_view_ok [OF v] set_wait_ok(1) [OF k(1) assms(2) g(1,2)] by blast
        have r1: "task_running ?k1 = task_running k" using v by (simp add: same_view_def)
        have mx: "mutexes ?k1 = mutexes k" using view_mutexes [OF v] by simp
        show ?thesis
          using l block_on_blocks [OF m1, of "Ch_mutex m" "Ctx_lock m"] Some g 3 assms(2)
            r1 mx v
          by (auto simp: live_running_def same_view_def)
      qed
    qed
  qed
qed


text \<open>C13. Unlocking by the owner hands the mutex to a waiter of the highest priority, which becomes ready
  and, when it runs again, finds itself the owner; without a waiter the mutex becomes free. Anyone
  else gets an error and changes nothing.\<close>

theorem mutex_unlock_result:
  assumes "sync_ok k" "live_running k" "mutex_get mid k = Some m"
  shows "if owner (mutex_at k m) \<noteq> Some (task_running k) then mutex_unlock mid k = (k, Inl INVALID_ARG_ERROR)
    else snd (mutex_unlock mid k) = Inr 0
      \<and> (case owner (mutex_at (fst (mutex_unlock mid k)) m) of
           None \<Rightarrow> \<forall>i. blocked k i \<longrightarrow> wait_mutex (task_at k i) \<noteq> Some m
         | Some t \<Rightarrow> blocked k t \<and> wait_mutex (task_at k t) = Some m
             \<and> t_state (task_at (fst (mutex_unlock mid k)) t) = TASK_READY
             \<and> (\<forall>i. blocked k i \<longrightarrow> wait_mutex (task_at k i) = Some m \<longrightarrow> priority (task_at k i) \<le> priority (task_at k t)))"
proof -
  have k: "mutex_ok k" "pi_ok k" using assms(1) by (auto simp: sync_ok_def)
  note m = mutex_get_some(1) [OF assms(3)]
  show ?thesis
  proof (cases "owner (mutex_at k m) = Some (task_running k)")
    case True
    note V = hand_over_view [OF k m True]
    have lm: "m < length (mutexes k)" using m mutex_okD(2) [OF k(1)] by (simp add: tables_ok_def)
    show ?thesis
    proof (cases "hand_over_loop k m [0..<MAX_TASKS] None")
      case None
      then show ?thesis using V(1) lm hand_over_none [OF None mutex_okD(6) [OF k(1)]] True assms(3)
        by (simp add: mutex_unlock_def)
    next
      case (Some t)
      then show ?thesis using V(1,6) lm hand_over_some [OF Some mutex_okD(6) [OF k(1)]] True assms(3)
        by (simp add: mutex_unlock_def)
    qed
  qed (simp add: mutex_unlock_def assms(3))
qed

section \<open>Examples\<close>

text \<open>Two tasks share the mutex 0, with priority inheritance: the running task 3 of priority 7 wants it,
  task 2 of priority 3 owns it.\<close>

definition demo_mutex_tasks :: "task list" where
  "demo_mutex_tasks = [zero_task\<lparr>t_state := TASK_READY\<rparr>, zero_task,
     zero_task\<lparr>t_state := TASK_READY, priority := 3, base_priority := 3, open_mutexes := 1\<rparr>,
     zero_task\<lparr>t_state := TASK_RUNNING, priority := 7, base_priority := 7, open_mutexes := 1\<rparr>] @ replicate 12 zero_task"

definition demo_mutex :: kernel where
  "demo_mutex = zero_kernel\<lparr>task_table := demo_mutex_tasks, task_running := 3,
     mutexes := (mutexes zero_kernel)[0 := \<lparr>m_name = [109], m_refs = 2, inherit = True, owner = Some 2\<rparr>]\<rparr>"

lemma demo_mutex_at: "i < MAX_TASKS \<Longrightarrow> task_at demo_mutex i =
   (if i = 0 then zero_task\<lparr>t_state := TASK_READY\<rparr>
    else if i = 2 then zero_task\<lparr>t_state := TASK_READY, priority := 3, base_priority := 3, open_mutexes := 1\<rparr>
    else if i = 3 then zero_task\<lparr>t_state := TASK_RUNNING, priority := 7, base_priority := 7, open_mutexes := 1\<rparr>
    else zero_task)"
proof -
  assume "i < MAX_TASKS"
  then consider "i = 0" | "i = 1" | "i = 2" | "i = 3" | j where "i = j + 4" "j < 12"
    by atomize_elim (auto intro: exI [of _ "i - 4"])
  then show ?thesis by cases (simp_all add: demo_mutex_def demo_mutex_tasks_def nth_append)
qed

lemma zero_task_simps [simp]:
  "t_state zero_task = TASK_UNUSED" "wait_mutex zero_task = None" "wait_channel zero_task = None"
  "open_mutexes zero_task = 0" "priority zero_task = 0" "base_priority zero_task = 0"
  "killed zero_task = False" "saved_ctx zero_task = Ctx_start"
  by (simp_all add: zero_task_def)

lemma demo_mutex_table: "m < MAX_MUTEXES \<Longrightarrow> mutex_at demo_mutex m =
   (if m = 0 then \<lparr>m_name = [109], m_refs = 2, inherit = True, owner = Some 2\<rparr> else zero_mutex)"
  by (simp add: demo_mutex_def zero_kernel_def nth_list_update)

lemma demo_openers: "m < MAX_MUTEXES \<Longrightarrow> openers demo_mutex m = (if m = 0 then {2, 3} else {})"
  by (auto simp: openers_def demo_mutex_at has_open_bit bit_1_iff split: if_splits)

lemma demo_fixed: "task_running demo_mutex = 3" "task_idle demo_mutex = 0" "tables_ok demo_mutex"
  by (simp_all add: demo_mutex_def zero_kernel_def tables_ok_def demo_mutex_tasks_def)

lemma demo_mutex_ok: "sync_ok demo_mutex" "live_running demo_mutex"
proof -
  have nb: "\<not> blocked demo_mutex i" for i by (auto simp: blocked_def demo_mutex_at)
  have "sched_ok demo_mutex" by (auto simp: sched_ok_def demo_fixed demo_mutex_at)
  moreover have "refs_ok demo_mutex" "owners_ok demo_mutex"
    by (auto simp: refs_ok_def owners_ok_def demo_openers demo_mutex_table zero_mutex_def)
  moreover have "waits_ok demo_mutex" "dead_ok demo_mutex"
    by (auto simp: waits_ok_def dead_ok_def demo_mutex_at no_life_def)
  ultimately have "mutex_ok demo_mutex" by (simp add: mutex_ok_def channels_ok_def waiters_ok_def nb)
  moreover have "pi_ok demo_mutex" using nb by (auto simp: pi_ok_def demo_mutex_at waits_for_def blocked_def)
  moreover have "names_ok demo_mutex" by (auto simp: names_ok_def demo_mutex_table zero_mutex_def)
  ultimately show "sync_ok demo_mutex" by (simp add: sync_ok_def)
  show "live_running demo_mutex" by (simp add: live_running_def demo_fixed demo_mutex_at)
qed

lemma demo_mutex_runs: "t_state (running_task demo_mutex) = TASK_RUNNING" "task_running demo_mutex \<noteq> task_idle demo_mutex"
  "wait_mutex (running_task demo_mutex) = None"
  using demo_mutex_ok(2) by (simp_all add: live_running_def)

theorem mutex_calls_keep_invariant_witness:
  "sync_ok (out_state (mutex_lock 0 demo_mutex)) \<and> sync_ok (fst (mutex_open [110] 0 demo_mutex))"
  using mutex_calls_keep_invariant [OF demo_mutex_ok(1) demo_mutex_runs(1,2), of "[110]" 0 0]
  by (simp add: demo_mutex_runs(3))

theorem mutex_owner_kept_witness: "owner (mutex_at (out_state (mutex_lock 0 demo_mutex)) 0) = Some 2"
  using mutex_owner_kept [OF demo_mutex_ok(1) demo_mutex_runs(1,2), of "[110]" 0 2 0 0]
  unfolding demo_mutex_runs(3) by (simp add: demo_mutex_table demo_fixed(1))

theorem mutex_lock_result_witness:
  "\<exists>k'. mutex_lock 0 demo_mutex = Switched k' \<and> t_state (task_at k' 3) = TASK_BLOCKED"
proof -
  have g: "mutex_get 0 demo_mutex = Some 0"
    by (simp add: mutex_get_def demo_fixed demo_mutex_at demo_mutex_table has_open_bit)
  have "\<exists>k'. mutex_lock 0 demo_mutex = Switched k'"
    by (simp add: mutex_lock_def g mutex_lock_loop_def demo_fixed demo_mutex_at demo_mutex_table Let_def)
  then show ?thesis using mutex_lock_result [OF demo_mutex_ok, of 0] by (auto simp: demo_fixed)
qed

text \<open>The same with the owner running.\<close>

definition demo_owner :: kernel where
  "demo_owner = zero_kernel\<lparr>task_table := (task_table demo_mutex)[2 := zero_task\<lparr>t_state := TASK_RUNNING, priority := 7,
       base_priority := 3, open_mutexes := 1\<rparr>,
     3 := zero_task\<lparr>t_state := TASK_BLOCKED, priority := 7, base_priority := 7, open_mutexes := 1,
       wait_mutex := Some 0, wait_channel := Some (Ch_mutex 0), saved_ctx := Ctx_lock 0\<rparr>],
     task_running := 2, mutexes := mutexes demo_mutex\<rparr>"

lemma demo_owner_at: "i < MAX_TASKS \<Longrightarrow> task_at demo_owner i =
   (if i = 0 then zero_task\<lparr>t_state := TASK_READY\<rparr>
    else if i = 2 then zero_task\<lparr>t_state := TASK_RUNNING, priority := 7, base_priority := 3, open_mutexes := 1\<rparr>
    else if i = 3 then zero_task\<lparr>t_state := TASK_BLOCKED, priority := 7, base_priority := 7, open_mutexes := 1,
       wait_mutex := Some 0, wait_channel := Some (Ch_mutex 0), saved_ctx := Ctx_lock 0\<rparr>
    else zero_task)"
  using demo_fixed(3) by (simp add: demo_mutex_at demo_owner_def nth_list_update tables_ok_def)

lemma demo_owner_fixed: "task_running demo_owner = 2" "task_idle demo_owner = 0" "tables_ok demo_owner"
  "mutexes demo_owner = mutexes demo_mutex"
  using demo_fixed(3) by (simp_all add: demo_owner_def zero_kernel_def tables_ok_def)

lemma demo_owner_blocked: "blocked demo_owner i \<longleftrightarrow> i = 3"
  by (auto simp: blocked_def demo_owner_at split: if_splits)

lemma demo_owner_ok: "sync_ok demo_owner" "live_running demo_owner"
proof -
  note b = demo_owner_blocked
  have o: "m < MAX_MUTEXES \<Longrightarrow> openers demo_owner m = (if m = 0 then {2, 3} else {})" for m
    by (auto simp: openers_def demo_owner_at has_open_bit bit_1_iff split: if_splits)
  have "sched_ok demo_owner" by (auto simp: sched_ok_def demo_owner_fixed demo_owner_at)
  moreover have "refs_ok demo_owner" "owners_ok demo_owner"
    by (auto simp: refs_ok_def owners_ok_def o demo_mutex_table zero_mutex_def demo_owner_fixed)
  moreover have "waits_ok demo_owner" "dead_ok demo_owner"
    by (auto simp: waits_ok_def dead_ok_def demo_owner_at no_life_def has_open_bit bit_1_iff split: if_splits)
  moreover have "channels_ok demo_owner" "waiters_ok demo_owner"
    by (auto simp: channels_ok_def waiters_ok_def b demo_owner_at demo_owner_fixed demo_mutex_table)
  ultimately have "mutex_ok demo_owner" by (simp add: mutex_ok_def)
  moreover have "pi_ok demo_owner"
    by (auto simp: pi_ok_def demo_owner_at waits_for_def demo_owner_fixed demo_mutex_table)
  moreover have "names_ok demo_owner" by (auto simp: names_ok_def demo_mutex_table zero_mutex_def demo_owner_fixed)
  ultimately show "sync_ok demo_owner" by (simp add: sync_ok_def)
  show "live_running demo_owner" by (simp add: live_running_def demo_owner_fixed demo_owner_at)
qed

theorem mutex_unlock_result_witness: "owner (mutex_at (fst (mutex_unlock 0 demo_owner)) 0) = Some 3"
proof -
  have g: "mutex_get 0 demo_owner = Some 0"
    by (simp add: mutex_get_def demo_owner_fixed demo_owner_at demo_mutex_table has_open_bit)
  show ?thesis
    using mutex_unlock_result [OF demo_owner_ok g]
    by (simp add: demo_owner_fixed demo_mutex_table demo_owner_blocked demo_owner_at split: option.splits)
qed

end
