(* ===== verification/ByteQueue.thy ===== *)
theory ByteQueue
  imports Prelude
begin

text \<open>
  The contract of a bounded queue of bytes. The kernel has two: the ring buffer of a pipe
  (\<^verbatim>\<open>src/kernel/task/pipe.c\<close>) and the input buffer of the keyboard driver
  (\<^verbatim>\<open>src/drivers/keyboard/keyboard.c\<close>). \<open>Pipe\<close> and \<open>Keyboard\<close> interpret the locale.
\<close>

section \<open>A queue of bytes\<close>

text \<open>What the users of a pipe rely on, whatever its representation: putting appends, taking removes
  a prefix.\<close>

locale byte_queue =
  fixes inv :: "'q \<Rightarrow> bool" and cap :: nat and contents :: "'q \<Rightarrow> bytes"
    and put :: "bytes \<Rightarrow> 'q \<Rightarrow> 'q" and get :: "nat \<Rightarrow> 'q \<Rightarrow> bytes \<times> 'q"
  assumes put_ok: "inv q \<Longrightarrow> length (contents q) + length bs \<le> cap \<Longrightarrow>
      inv (put bs q) \<and> contents (put bs q) = contents q @ bs"
    and get_ok: "inv q \<Longrightarrow> n \<le> length (contents q) \<Longrightarrow>
      inv (snd (get n q)) \<and> fst (get n q) = take n (contents q) \<and> contents (snd (get n q)) = drop n (contents q)"
begin

text \<open>A run of the queue: what the readers got and the queue at its end. A write may be cut short,
  a read takes what is there.\<close>

fun run :: "(bytes + nat) list \<Rightarrow> 'q \<Rightarrow> bytes \<times> bytes \<times> 'q" where
  "run [] q = ([], [], q)"
| "run (Inl bs # ops) q =
    (let bs = take (cap - length (contents q)) bs; (ins, outs, q') = run ops (put bs q) in (bs @ ins, outs, q'))"
| "run (Inr n # ops) q =
    (let n = min n (length (contents q)); (ins, outs, q') = run ops (snd (get n q))
     in (ins, fst (get n q) @ outs, q'))"

text \<open>The bytes come out in the order they went in, none lost, none twice.\<close>

lemma stream:
  "inv q \<Longrightarrow> length (contents q) \<le> cap \<Longrightarrow> run ops q = (ins, outs, q') \<Longrightarrow>
   inv q' \<and> length (contents q') \<le> cap \<and> contents q @ ins = outs @ contents q'"
proof (induction ops arbitrary: q ins outs q')
  case (Cons x ops)
  show ?case
  proof (cases x)
    case (Inl bs)
    define b where "b = take (cap - length (contents q)) bs"
    obtain i o' r where r: "run ops (put b q) = (i, o', r)" by (metis prod_cases3)
    have p: "inv (put b q)" "contents (put b q) = contents q @ b" "length (contents q @ b) \<le> cap"
      using put_ok [of q b] Cons.prems by (auto simp: b_def)
    show ?thesis using Cons.IH [OF p(1) _ r] p Cons.prems(3) r by (simp add: Inl b_def Let_def)
  next
    case (Inr n)
    define m where "m = min n (length (contents q))"
    obtain i o' r where r: "run ops (snd (get m q)) = (i, o', r)" by (metis prod_cases3)
    have m: "m \<le> length (contents q)" by (simp add: m_def)
    note g = get_ok [OF Cons.prems(1) m]
    have "contents (snd (get m q)) @ i = o' @ contents r \<and> inv r \<and> length (contents r) \<le> cap"
      using Cons.IH [of "snd (get m q)" i o' r] g r Cons.prems(2) by auto
    moreover have "contents q @ i = fst (get m q) @ contents (snd (get m q)) @ i"
      using g by simp
    ultimately show ?thesis using Cons.prems(3) r by (auto simp: Inr m_def Let_def)
  qed
qed simp

end

end
