(* ===== verification/Pipe.thy ===== *)
theory Pipe
  imports Mutex ByteQueue
begin

text \<open>
  Pipes, \<^verbatim>\<open>src/kernel/task/pipe.c\<close>: a ring buffer of 4096 bytes between tasks. Readers block while it is
  empty, writers while it is full. A pipe is found by its address in the kernel heap; the size of
  \<^verbatim>\<open>struct pipe\<close> is 4112 bytes.
\<close>

section \<open>The code\<close>

definition pipe_at :: "'a kernel_scheme \<Rightarrow> u32 \<Rightarrow> pipe" where
  "pipe_at k p = the (pipes k p)"

definition set_pipe :: "u32 \<Rightarrow> pipe \<Rightarrow> 'a kernel_scheme \<Rightarrow> 'a kernel_scheme" where
  "set_pipe p x k = k\<lparr>pipes := (pipes k)(p \<mapsto> x)\<rparr>"

definition pipe_new :: "'a kernel_scheme \<Rightarrow> 'a kernel_scheme \<times> u32" where
  "pipe_new k =
    (let (h, p) = heap_malloc (heap k) 4112
     in if p = 0 then (k\<lparr>heap := h\<rparr>, 0)
        else (set_pipe p \<lparr>buffer = replicate PIPE_SIZE 0, head = 0, count = 0, readers = 1, writers = 1\<rparr>
                (k\<lparr>heap := h\<rparr>), p))"

text \<open>The two copying loops.\<close>

fun pipe_take :: "nat \<Rightarrow> pipe \<Rightarrow> bytes \<times> pipe" where
  "pipe_take 0 x = ([], x)"
| "pipe_take (Suc n) x =
    (let c = buffer x ! unat (head x);
         (out, y) = pipe_take n (x\<lparr>head := (head x + 1) mod of_nat PIPE_SIZE\<rparr>)
     in (c # out, y))"

fun pipe_put :: "bytes \<Rightarrow> pipe \<Rightarrow> pipe" where
  "pipe_put [] x = x"
| "pipe_put (c # cs) x =
    pipe_put cs (x\<lparr>buffer := (buffer x)[unat ((head x + count x) mod of_nat PIPE_SIZE) := c],
                   count := count x + 1\<rparr>)"

text \<open>The result of a read is \<open>None\<close> where the code returns -1: the task got killed.\<close>

definition pipe_read :: "u32 \<Rightarrow> nat \<Rightarrow> 'a kernel_scheme \<Rightarrow> ('a kernel_scheme, bytes option) outcome" where
  "pipe_read p len k =
    (if count (pipe_at k p) = 0 \<and> writers (pipe_at k p) > 0 \<and> \<not> killed (running_task k)
     then Switched (task_block_on (Ch_pipe p) (Ctx_pipe_read p len) k)
     else if killed (running_task k) then Done k None
     else let total = min len (unat (count (pipe_at k p)));
              (out, x) = pipe_take total (pipe_at k p);
              k = set_pipe p (x\<lparr>count := count x - of_nat total\<rparr>) k
          in Done (task_wake_channel (Ch_pipe p) k) (Some out))"

definition pipe_read_resumed :: "u32 \<Rightarrow> nat \<Rightarrow> 'a kernel_scheme \<Rightarrow> ('a kernel_scheme, bytes option) outcome" where
  "pipe_read_resumed p len k = pipe_read p len (task_block_on_resumed k)"

definition write_result :: "nat \<Rightarrow> int \<Rightarrow> int" where
  "write_result written res = (if written > 0 then int written else res)"

function pipe_write_loop ::
  "u32 \<Rightarrow> bytes \<Rightarrow> nat \<Rightarrow> 'a kernel_scheme \<Rightarrow> ('a kernel_scheme, int) outcome" where
  "pipe_write_loop p data written k =
    (if written < length data then
       if count (pipe_at k p) = of_nat PIPE_SIZE \<and> readers (pipe_at k p) > 0 \<and> \<not> killed (running_task k)
       then Switched (task_block_on (Ch_pipe p) (Ctx_pipe_write p data written) k)
       else if killed (running_task k) then Done k (write_result written 0)
       else if readers (pipe_at k p) = 0 then Done k (write_result written (err_code BROKEN_PIPE_ERROR))
       else let space = unat (of_nat PIPE_SIZE - count (pipe_at k p));
                total = min (length data - written) space;
                k = set_pipe p (pipe_put (take total (drop written data)) (pipe_at k p)) k
            in pipe_write_loop p data (written + total) (task_wake_channel (Ch_pipe p) k)
     else Done k (write_result written 0))"
  by pat_completeness auto
termination
proof (relation "measure (\<lambda>(p, data, written, k). length data - written)", goal_cases)
  case (2 p data written k space total k')
  have "of_nat PIPE_SIZE - count (pipe_at k p) \<noteq> 0" using 2(2-4) by (auto simp: word_gt_0)
  then have "0 < space" using 2(5) by (simp add: unat_gt_0)
  then have "written + total > written" using 2(1,6) by simp
  then show ?case using 2(1) by simp
qed simp

declare pipe_write_loop.simps [simp del]

definition pipe_write :: "u32 \<Rightarrow> bytes \<Rightarrow> 'a kernel_scheme \<Rightarrow> ('a kernel_scheme, int) outcome" where
  "pipe_write p data k = pipe_write_loop p data 0 k"

definition pipe_write_resumed ::
  "u32 \<Rightarrow> bytes \<Rightarrow> nat \<Rightarrow> 'a kernel_scheme \<Rightarrow> ('a kernel_scheme, int) outcome" where
  "pipe_write_resumed p data written k = pipe_write_loop p data written (task_block_on_resumed k)"

definition pipe_free_if_unused :: "u32 \<Rightarrow> 'a kernel_scheme \<Rightarrow> 'a kernel_scheme" where
  "pipe_free_if_unused p k =
    (if readers (pipe_at k p) = 0 \<and> writers (pipe_at k p) = 0
     then k\<lparr>heap := kfree (heap k) p, pipes := (pipes k)(p := None)\<rparr> else k)"

definition pipe_close_reader :: "u32 \<Rightarrow> 'a kernel_scheme \<Rightarrow> 'a kernel_scheme" where
  "pipe_close_reader p k =
    pipe_free_if_unused p (task_wake_channel (Ch_pipe p)
      (set_pipe p ((pipe_at k p)\<lparr>readers := readers (pipe_at k p) - 1\<rparr>) k))"

definition pipe_close_writer :: "u32 \<Rightarrow> 'a kernel_scheme \<Rightarrow> 'a kernel_scheme" where
  "pipe_close_writer p k =
    pipe_free_if_unused p (task_wake_channel (Ch_pipe p)
      (set_pipe p ((pipe_at k p)\<lparr>writers := writers (pipe_at k p) - 1\<rparr>) k))"

section \<open>The ring buffer is a queue\<close>

definition pipe_ok :: "pipe \<Rightarrow> bool" where
  "pipe_ok x \<longleftrightarrow> length (buffer x) = PIPE_SIZE \<and> unat (head x) < PIPE_SIZE \<and> unat (count x) \<le> PIPE_SIZE"

definition pipe_contents :: "pipe \<Rightarrow> bytes" where
  "pipe_contents x = map (\<lambda>i. buffer x ! ((unat (head x) + i) mod PIPE_SIZE)) [0..<unat (count x)]"

definition pipe_get :: "nat \<Rightarrow> pipe \<Rightarrow> bytes \<times> pipe" where
  "pipe_get n x = (let (out, y) = pipe_take n x in (out, y\<lparr>count := count y - of_nat n\<rparr>))"

lemma length_pipe_contents [simp]: "length (pipe_contents x) = unat (count x)"
  by (simp add: pipe_contents_def)

lemma ring_index:
  assumes "unat (a :: u32) < 4096" "unat (b :: u32) \<le> 4096"
  shows "unat ((a + b) mod 4096) = (unat a + unat b) mod 4096"
proof -
  have "unat (a + b) = unat a + unat b" using assms by (simp add: unat_word_ariths)
  then show ?thesis by (simp add: unat_mod)
qed

lemma put_one:
  fixes c :: u8
  assumes ok: "pipe_ok x" and room: "unat (count x) < PIPE_SIZE"
  defines "y \<equiv> x\<lparr>buffer := (buffer x)[unat ((head x + count x) mod of_nat PIPE_SIZE) := c], count := count x + 1\<rparr>"
  shows "pipe_ok y" "pipe_contents y = pipe_contents x @ [c]"
proof -
  have h: "unat (head x) < 4096" "length (buffer x) = 4096" using ok by (auto simp: pipe_ok_def)
  have c1: "unat (count x + 1) = unat (count x) + 1"
    using room by (simp add: unat_word_ariths)
  have idx: "unat ((head x + count x) mod 4096) = (unat (head x) + unat (count x)) mod PIPE_SIZE"
    using ring_index [OF h(1), of "count x"] room by simp
  show "pipe_ok y" using ok c1 room by (simp add: y_def pipe_ok_def)
  have ne: "(unat (head x) + i) mod 4096 \<noteq> (unat (head x) + unat (count x)) mod 4096" if "i < unat (count x)" for i
  proof
    assume "(unat (head x) + i) mod 4096 = (unat (head x) + unat (count x)) mod 4096"
    then have "4096 dvd unat (head x) + unat (count x) - (unat (head x) + i)"
      using that by (metis mod_eq_dvd_iff_nat add_le_cancel_left less_imp_le)
    then show False using that room by (auto dest!: dvd_imp_le)
  qed
  have lt: "(unat (head x) + unat (count x)) mod 4096 < length (buffer x)" using h by simp
  show "pipe_contents y = pipe_contents x @ [c]"
    unfolding pipe_contents_def using ne [THEN not_sym] lt by (simp add: y_def c1 idx)
qed

lemma pipe_put:
  "pipe_ok x \<Longrightarrow> unat (count x) + length bs \<le> PIPE_SIZE \<Longrightarrow>
   pipe_ok (pipe_put bs x) \<and> pipe_contents (pipe_put bs x) = pipe_contents x @ bs
   \<and> readers (pipe_put bs x) = readers x \<and> writers (pipe_put bs x) = writers x"
proof (induction bs arbitrary: x)
  case (Cons c bs)
  let ?y = "x\<lparr>buffer := (buffer x)[unat ((head x + count x) mod of_nat PIPE_SIZE) := c], count := count x + 1\<rparr>"
  have room: "unat (count x) < PIPE_SIZE" using Cons.prems by simp
  note P = put_one [OF Cons.prems(1) room, of c]
  have "unat (count ?y) = unat (count x) + 1" using arg_cong [OF P(2), of length] by simp
  then show ?case using Cons.IH [OF P(1)] P Cons.prems(2) by simp
qed simp

lemma take_one:
  assumes ok: "pipe_ok x" and some: "0 < unat (count x)"
  defines "y \<equiv> x\<lparr>head := (head x + 1) mod of_nat PIPE_SIZE, count := count x - 1\<rparr>"
  shows "pipe_ok y" "pipe_contents x = buffer x ! unat (head x) # pipe_contents y"
proof -
  have h: "unat (head x) < 4096" "length (buffer x) = 4096" using ok by (auto simp: pipe_ok_def)
  have c1: "unat (count x - 1) = unat (count x) - 1" using some by (simp add: unat_minus_one unat_gt_0)
  have idx: "unat ((head x + 1) mod 4096) = (unat (head x) + 1) mod PIPE_SIZE"
    using ring_index [OF h(1), of 1] by simp
  show "pipe_ok y" using ok c1 idx some by (auto simp: y_def pipe_ok_def)
  have "[0..<unat (count x)] = 0 # map Suc [0..<unat (count x) - 1]"
    using some by (simp add: map_Suc_upt upt_conv_Cons)
  then have "pipe_contents x = buffer x ! ((unat (head x) + 0) mod 4096)
      # map (\<lambda>i. buffer x ! ((unat (head x) + Suc i) mod 4096)) [0..<unat (count x) - 1]"
    by (simp add: pipe_contents_def comp_def)
  moreover have "pipe_contents y = map (\<lambda>i. buffer x ! ((unat (head x) + Suc i) mod 4096)) [0..<unat (count x) - 1]"
    unfolding pipe_contents_def by (simp add: y_def c1 idx mod_simps)
  ultimately show "pipe_contents x = buffer x ! unat (head x) # pipe_contents y" using h by simp
qed

lemma pipe_get_Suc: "pipe_get (Suc n) x =
   (let (out, y) = pipe_get n (x\<lparr>head := (head x + 1) mod of_nat PIPE_SIZE, count := count x - 1\<rparr>)
    in (buffer x ! unat (head x) # out, y))"
proof -
  have "pipe_take n (x\<lparr>count := c\<rparr>) = (fst (pipe_take n x), (snd (pipe_take n x))\<lparr>count := c\<rparr>)" for n c x
  proof (induction n arbitrary: x)
    case (Suc n)
    have e: "x\<lparr>count := c, head := h\<rparr> = x\<lparr>head := h, count := c\<rparr>" for h by simp
    then show ?case using Suc [of "x\<lparr>head := (head x + 1) mod of_nat PIPE_SIZE\<rparr>"]
      by (simp add: Let_def case_prod_beta e)
  qed simp
  moreover have "count (snd (pipe_take n x)) = count x" for n x
    by (induction n arbitrary: x) (simp_all add: Let_def case_prod_beta)
  ultimately show ?thesis by (simp add: pipe_get_def Let_def case_prod_beta diff_diff_eq)
qed

lemma pipe_get:
  "pipe_ok x \<Longrightarrow> n \<le> unat (count x) \<Longrightarrow>
   pipe_ok (snd (pipe_get n x)) \<and> fst (pipe_get n x) = take n (pipe_contents x)
   \<and> pipe_contents (snd (pipe_get n x)) = drop n (pipe_contents x)
   \<and> readers (snd (pipe_get n x)) = readers x \<and> writers (snd (pipe_get n x)) = writers x"
proof (induction n arbitrary: x)
  case 0
  then show ?case by (simp add: pipe_get_def)
next
  case (Suc n)
  let ?y = "x\<lparr>head := (head x + 1) mod of_nat PIPE_SIZE, count := count x - 1\<rparr>"
  have some: "0 < unat (count x)" using Suc.prems by simp
  note T = take_one [OF Suc.prems(1) some]
  have "unat (count ?y) = unat (count x) - 1" using arg_cong [OF T(2), of length] by simp
  then show ?case using Suc.IH [OF T(1)] Suc.prems(2) T(2)
    unfolding pipe_get_Suc by (auto simp: Let_def case_prod_beta)
qed

interpretation ring: byte_queue pipe_ok PIPE_SIZE pipe_contents pipe_put pipe_get
proof
  show "pipe_ok q \<Longrightarrow> length (pipe_contents q) + length bs \<le> 4096 \<Longrightarrow>
      pipe_ok (pipe_put bs q) \<and> pipe_contents (pipe_put bs q) = pipe_contents q @ bs" for q bs
    using pipe_put by simp
  show "pipe_ok q \<Longrightarrow> n \<le> length (pipe_contents q) \<Longrightarrow>
      pipe_ok (snd (pipe_get n q)) \<and> fst (pipe_get n q) = take n (pipe_contents q)
      \<and> pipe_contents (snd (pipe_get n q)) = drop n (pipe_contents q)" for q n
    using pipe_get by simp
qed


section \<open>Waking a channel\<close>

lemma wake_waiter_at:
  assumes "i < length (task_table k)"
  shows "task_at (wake_waiter ch i k) j =
     (if j = i \<and> t_state (task_at k i) = TASK_BLOCKED \<and> wait_channel (task_at k i) = Some ch
      then t_state_update (\<lambda>_. TASK_READY) (task_at k j) else task_at k j)"
  using assms by (auto simp: wake_waiter_def wake_at)

lemma wake_waiter_simps [simp]:
  "task_running (wake_waiter ch i k) = task_running k" "task_idle (wake_waiter ch i k) = task_idle k"
  "task_init_thread (wake_waiter ch i k) = task_init_thread k"
  "mutexes (wake_waiter ch i k) = mutexes k" "pipes (wake_waiter ch i k) = pipes k"
  "handles (wake_waiter ch i k) = handles k" "heap (wake_waiter ch i k) = heap k"
  "length (task_table (wake_waiter ch i k)) = length (task_table k)"
  by (simp_all add: wake_waiter_def)

lemma wake_fold_at:
  assumes "distinct js" "set js \<subseteq> {..<length (task_table k)}"
  shows "task_at (fold (wake_waiter ch) js k) i =
      (if i \<in> set js \<and> t_state (task_at k i) = TASK_BLOCKED \<and> wait_channel (task_at k i) = Some ch
       then t_state_update (\<lambda>_. TASK_READY) (task_at k i) else task_at k i)
    \<and> task_running (fold (wake_waiter ch) js k) = task_running k
    \<and> task_idle (fold (wake_waiter ch) js k) = task_idle k
    \<and> task_init_thread (fold (wake_waiter ch) js k) = task_init_thread k
    \<and> mutexes (fold (wake_waiter ch) js k) = mutexes k \<and> pipes (fold (wake_waiter ch) js k) = pipes k
    \<and> handles (fold (wake_waiter ch) js k) = handles k \<and> heap (fold (wake_waiter ch) js k) = heap k
    \<and> length (task_table (fold (wake_waiter ch) js k)) = length (task_table k)"
  using assms
proof (induction js arbitrary: k)
  case (Cons j js)
  have j: "j < length (task_table k)" "j \<notin> set js" using Cons.prems by auto
  show ?case
    using Cons.IH [of "wake_waiter ch j k"] Cons.prems j(2) wake_waiter_at [OF j(1), of ch i] by auto
qed simp

lemma wake_channel_at:
  assumes "tables_ok k"
  shows "task_at (task_wake_channel ch k) i =
      (if blocked k i \<and> wait_channel (task_at k i) = Some ch
       then t_state_update (\<lambda>_. TASK_READY) (task_at k i) else task_at k i)"
    "task_running (task_wake_channel ch k) = task_running k" "task_idle (task_wake_channel ch k) = task_idle k"
    "task_init_thread (task_wake_channel ch k) = task_init_thread k"
    "mutexes (task_wake_channel ch k) = mutexes k" "pipes (task_wake_channel ch k) = pipes k"
    "handles (task_wake_channel ch k) = handles k" "heap (task_wake_channel ch k) = heap k"
    "length (task_table (task_wake_channel ch k)) = length (task_table k)"
proof -
  have s: "set [0..<MAX_TASKS] \<subseteq> {..<length (task_table k)}" using assms by (auto simp: tables_ok_def)
  note W = wake_fold_at [OF distinct_upt s, of ch, folded task_wake_channel_def]
  show "task_at (task_wake_channel ch k) i =
      (if blocked k i \<and> wait_channel (task_at k i) = Some ch
       then t_state_update (\<lambda>_. TASK_READY) (task_at k i) else task_at k i)"
    using W [of i] by (auto simp: blocked_def)
  show "task_running (task_wake_channel ch k) = task_running k" "task_idle (task_wake_channel ch k) = task_idle k"
    "task_init_thread (task_wake_channel ch k) = task_init_thread k"
    "mutexes (task_wake_channel ch k) = mutexes k" "pipes (task_wake_channel ch k) = pipes k"
    "handles (task_wake_channel ch k) = handles k" "heap (task_wake_channel ch k) = heap k"
    "length (task_table (task_wake_channel ch k)) = length (task_table k)"
    using W [of 0] by simp_all
qed

lemma wake_channel_ok:
  assumes "mutex_ok k" "pi_ok k"
  shows "mutex_ok (task_wake_channel ch k)" "pi_ok (task_wake_channel ch k)"
proof -
  have "mutex_ok (fold (wake_waiter ch) js s) \<and> pi_ok (fold (wake_waiter ch) js s)"
    if "set js \<subseteq> {..<MAX_TASKS}" "mutex_ok s" "pi_ok s" for js and s :: "'a kernel_scheme"
    using that
  proof (induction js arbitrary: s)
    case (Cons j js)
    have "j < length (task_table s)" "j < MAX_TASKS" using Cons.prems mutex_okD(2) [of s] by (auto simp: tables_ok_def)
    then have "mutex_ok (wake_waiter ch j s) \<and> pi_ok (wake_waiter ch j s)"
      using wake_ok [of s j] wake_pi [of s j] Cons.prems by (simp add: wake_waiter_def)
    then show ?case using Cons.IH Cons.prems by simp
  qed simp
  moreover have "set [0..<MAX_TASKS] \<subseteq> {..<MAX_TASKS}" by auto
  ultimately show "mutex_ok (task_wake_channel ch k)" "pi_ok (task_wake_channel ch k)"
    using assms unfolding task_wake_channel_def by blast+
qed

lemma names_ok_cong: "mutexes k' = mutexes k \<Longrightarrow> names_ok k' = names_ok k"
  by (simp add: names_ok_def)

lemma sync_wake_channel: "sync_ok k \<Longrightarrow> sync_ok (task_wake_channel ch k)"
  using wake_channel_ok [of k ch] names_ok_cong [OF wake_channel_at(5)] mutex_okD(2) by (auto simp: sync_ok_def)

section \<open>Leaving the processor\<close>

text \<open>The running task suspends itself, for anything but a mutex.\<close>

lemma suspend_ok:
  assumes k: "sync_ok k" and r: "live_running k"
    and keeps: "\<And>t. priority (f t) = priority t" "\<And>t. base_priority (f t) = base_priority t"
      "\<And>t. open_mutexes (f t) = open_mutexes t" "\<And>t. wait_mutex (f t) = wait_mutex t"
    and st: "\<And>t. t_state (f t) \<noteq> TASK_RUNNING" "\<And>t. \<not> no_life (t_state (f t))"
    and ch: "\<And>t. t_state (f t) = TASK_BLOCKED \<Longrightarrow> \<forall>m. wait_channel (f t) \<noteq> Some (Ch_mutex m)"
  shows "sync_ok (upd_running f k)" "sync_ok (schedule (upd_running f k))"
proof -
  let ?r = "task_running k"
  define k2 where "k2 = upd_running f k"
  have k': "mutex_ok k" "pi_ok k" "names_ok k" using k by (auto simp: sync_ok_def)
  have rl: "?r < MAX_TASKS" "?r < length (task_table k)" using running_less [OF k'(1)] by auto
  have at2: "task_at k2 i = (if i = ?r then f (task_at k i) else task_at k i)" for i
    using rl by (simp add: k2_def task_at_upd)
  have f2: "mutexes k2 = mutexes k" "task_running k2 = ?r" "task_idle k2 = task_idle k" "tables_ok k2"
    using mutex_okD(2) [OF k'(1)] by (simp_all add: k2_def)
  have g2: "wait_mutex (task_at k2 i) = wait_mutex (task_at k i)" "has_open (task_at k2 i) j = has_open (task_at k i) j"
    "open_mutexes (task_at k2 i) = open_mutexes (task_at k i)" "priority (task_at k2 i) = priority (task_at k i)"
    "base_priority (task_at k2 i) = base_priority (task_at k i)" for i j
    by (simp_all add: at2 has_open_def keeps)
  have b2: "i \<noteq> ?r \<Longrightarrow> blocked k2 i = blocked k i" for i by (simp add: blocked_def at2)
  have o2: "openers k2 j = openers k j" for j by (simp add: openers_def g2)
  have rw: "wait_mutex (task_at k ?r) = None" "?r \<noteq> task_idle k" using r by (auto simp: live_running_def)
  have "sched_ok k2" using mutex_okD(1) [OF k'(1)] rw(2) st(1) unfolding sched_ok_def at2 by (auto simp: f2)
  moreover have "refs_ok k2" "owners_ok k2"
    using mutex_okD(3,4) [OF k'(1)] by (simp_all add: refs_ok_def owners_ok_def o2 f2)
  moreover have "dead_ok k2" using mutex_okD(8) [OF k'(1)] st(2) unfolding dead_ok_def g2 at2 by auto
  moreover have "waits_ok k2" using mutex_okD(5) [OF k'(1)] unfolding waits_ok_def g2 by simp
  moreover have "channels_ok k2"
    unfolding channels_ok_def
  proof (intro allI impI)
    fix i m assume b: "blocked k2 i"
    show "(wait_channel (task_at k2 i) = Some (Ch_mutex m)) = (wait_mutex (task_at k2 i) = Some m)"
    proof (cases "i = ?r")
      case True
      then show ?thesis using b ch rw(1) by (simp add: at2 blocked_def keeps)
    next
      case False
      then show ?thesis using mutex_okD(6) [OF k'(1)] b b2 by (simp add: channels_ok_def at2)
    qed
  qed
  moreover have "waiters_ok k2"
    unfolding waiters_ok_def g2 f2
  proof (intro allI impI)
    fix i m assume a: "blocked k2 i" "wait_mutex (task_at k i) = Some m"
    then have "i \<noteq> ?r" using rw(1) by auto
    then show "\<exists>t. owner (mutex_at k m) = Some t \<and> t \<noteq> i"
      using mutex_okD(7) [OF k'(1)] a b2 by (simp add: waiters_ok_def)
  qed
  ultimately have m2: "mutex_ok k2" by (simp add: mutex_ok_def)
  have "waits_for k2 i s \<Longrightarrow> waits_for k i s" for i s
    using rw(1) by (elim waits_forE) (auto simp: waits_for_def at2 f2 g2 keeps split: if_splits)
  then have "pi_ok k2" using k'(2) by (auto simp: pi_ok_def g2)
  then have s: "sync_ok k2" using m2 k'(3) names_ok_cong [OF f2(1)] by (simp add: sync_ok_def)
  then show "sync_ok (upd_running f k)" by (simp add: k2_def)
  show "sync_ok (schedule (upd_running f k))"
    using s schedule_ok [OF m2] schedule_pi [OF m2] names_ok_cong [OF schedule_simps(7), of k2]
    by (simp add: sync_ok_def k2_def)
qed

lemma block_on_pipe_ok:
  assumes "sync_ok k" "live_running k"
  shows "sync_ok (task_block_on (Ch_pipe p) c k)"
  unfolding task_block_on_def by (rule suspend_ok [OF assms]) (simp_all add: no_life_def)

lemma sync_view:
  assumes "same_view k k'" "\<And>i. priority (task_at k' i) = priority (task_at k i)"
    "\<And>i. base_priority (task_at k' i) = base_priority (task_at k i)" "sync_ok k"
  shows "sync_ok k'"
  using assms same_view_ok [OF assms(1)] same_view_waits [OF assms(1)] names_ok_cong [OF view_mutexes [OF assms(1)]]
  by (simp add: sync_ok_def pi_ok_def)

lemma sync_set_pipe: "sync_ok k \<Longrightarrow> sync_ok (set_pipe p x k)"
  by (rule sync_view [of k]) (simp_all add: same_view_def set_pipe_def)

lemma set_pipe_simps [simp]:
  "task_table (set_pipe p x k) = task_table k" "task_running (set_pipe p x k) = task_running k"
  "task_idle (set_pipe p x k) = task_idle k" "mutexes (set_pipe p x k) = mutexes k"
  "tables_ok (set_pipe p x k) = tables_ok k" "live_running (set_pipe p x k) = live_running k"
  "pipes (set_pipe p x k) = (pipes k)(p \<mapsto> x)" "pipe_at (set_pipe p x k) q = (if q = p then x else pipe_at k q)"
  "blocked (set_pipe p x k) i = blocked k i"
  by (simp_all add: set_pipe_def tables_ok_def live_running_def pipe_at_def blocked_def)

section \<open>Nobody sleeps through data or space\<close>

text \<open>A task blocked on a pipe waits in a read of an empty pipe that has a writer, or in a write to a
  full one that has a reader.\<close>

definition pipe_wait :: "'a kernel_scheme \<Rightarrow> u32 \<Rightarrow> ctx \<Rightarrow> bool" where
  "pipe_wait k p c \<longleftrightarrow> (\<exists>x. pipes k p = Some x \<and>
     (case c of
        Ctx_pipe_read q len \<Rightarrow> q = p \<and> count x = 0 \<and> writers x > 0
      | Ctx_pipe_write q data written \<Rightarrow> q = p \<and> written < length data \<and> count x = of_nat PIPE_SIZE \<and> readers x > 0
      | _ \<Rightarrow> False))"

definition pipe_waits_ok :: "'a kernel_scheme \<Rightarrow> bool" where
  "pipe_waits_ok k \<longleftrightarrow> (\<forall>i p. blocked k i \<longrightarrow> wait_channel (task_at k i) = Some (Ch_pipe p) \<longrightarrow>
     pipe_wait k p (saved_ctx (task_at k i)))"

definition pipes_ok :: "'a kernel_scheme \<Rightarrow> bool" where
  "pipes_ok k \<longleftrightarrow> (\<forall>p x. pipes k p = Some x \<longrightarrow> pipe_ok x)"

definition pipe_inv :: "'a kernel_scheme \<Rightarrow> bool" where
  "pipe_inv k \<longleftrightarrow> pipe_waits_ok k \<and> pipes_ok k"

lemma pipe_inv_fewer:
  assumes "pipe_inv k" "pipes k' = pipes k" "\<And>i. blocked k' i \<Longrightarrow> blocked k i"
    and "\<And>i. wait_channel (task_at k' i) = wait_channel (task_at k i)"
    and "\<And>i. saved_ctx (task_at k' i) = saved_ctx (task_at k i)"
  shows "pipe_inv k'"
proof -
  have pw: "pipe_wait k' p c = pipe_wait k p c" for p c by (simp add: pipe_wait_def assms(2))
  have "pipe_waits_ok k'" using assms(1,3) unfolding pipe_inv_def pipe_waits_ok_def pw assms(4,5) by blast
  then show ?thesis using assms(1) by (simp add: pipe_inv_def pipes_ok_def assms(2))
qed

lemma pipe_inv_schedule:
  assumes k: "mutex_ok k" "pipe_inv k" shows "pipe_inv (schedule k)"
proof (rule pipe_inv_fewer [OF k(2)])
  note t = mutex_okD(2) [OF k(1)]
  fix i
  show "blocked (schedule k) i \<Longrightarrow> blocked k i"
    unfolding blocked_def schedule_state [OF t] after_switch_def by (auto split: if_splits)
qed (simp_all add: schedule_fields mutex_okD(2) [OF k(1)])

text \<open>A pipe may change when everybody who waits on it is woken.\<close>

lemma pipe_inv_change:
  assumes k: "tables_ok k" "pipe_inv k" and x: "pipe_ok x"
  shows "pipe_inv (task_wake_channel (Ch_pipe p) (set_pipe p x k))"
proof -
  let ?k = "set_pipe p x k"
  have t: "tables_ok ?k" using k by simp
  note W = wake_channel_at [OF t, of "Ch_pipe p"]
  have b: "blocked (task_wake_channel (Ch_pipe p) ?k) i \<longleftrightarrow> blocked k i \<and> wait_channel (task_at k i) \<noteq> Some (Ch_pipe p)" for i
    by (auto simp: blocked_def W(1))
  have f: "wait_channel (task_at (task_wake_channel (Ch_pipe p) ?k) i) = wait_channel (task_at k i)"
    "saved_ctx (task_at (task_wake_channel (Ch_pipe p) ?k) i) = saved_ctx (task_at k i)" for i
    by (simp_all add: W(1))
  have "pipe_wait (task_wake_channel (Ch_pipe p) ?k) q c = pipe_wait k q c" if "q \<noteq> p" for q c
    using that by (simp add: pipe_wait_def W(6))
  then have "pipe_waits_ok (task_wake_channel (Ch_pipe p) ?k)"
    using k(2) unfolding pipe_inv_def pipe_waits_ok_def b f by metis
  moreover have "pipes_ok (task_wake_channel (Ch_pipe p) ?k)"
    using k(2) x by (simp add: pipe_inv_def pipes_ok_def W(6))
  ultimately show ?thesis by (simp add: pipe_inv_def)
qed

lemma pipe_inv_block:
  assumes k: "sync_ok k" "pipe_inv k" and r: "live_running k" and w: "pipe_wait k p c"
  shows "pipe_inv (task_block_on (Ch_pipe p) c k)"
proof -
  let ?f = "\<lambda>t. t\<lparr>wait_channel := Some (Ch_pipe p), t_state := TASK_BLOCKED, saved_ctx := c\<rparr>"
  let ?k = "upd_running ?f k"
  have s: "sync_ok ?k" by (rule suspend_ok(1) [OF k(1) r]) (simp_all add: no_life_def)
  have rl: "task_running k < length (task_table k)" using k(1) running_less by (auto simp: sync_ok_def)
  have at: "task_at ?k i = (if i = task_running k then ?f (task_at k i) else task_at k i)" for i
    using rl by (simp add: task_at_upd)
  have pw: "pipe_wait ?k q c' = pipe_wait k q c'" for q c' by (simp add: pipe_wait_def)
  have "pipe_waits_ok ?k"
    using k(2) w unfolding pipe_inv_def pipe_waits_ok_def pw at blocked_def by auto
  then have "pipe_inv ?k" using k(2) by (simp add: pipe_inv_def pipes_ok_def)
  then show ?thesis using pipe_inv_schedule s unfolding task_block_on_def sync_ok_def by blast
qed

lemma live_wake_channel:
  assumes "tables_ok k" "live_running k" shows "live_running (task_wake_channel ch k)"
  using assms(2) by (simp add: live_running_def wake_channel_at [OF assms(1)] blocked_def)

lemma pipe_atI: "pipes k p = Some x \<Longrightarrow> pipe_at k p = x"
  by (simp add: pipe_at_def)

text \<open>Storing a changed pipe and waking its channel, as every operation ends.\<close>

lemma pipe_change_ok:
  fixes p :: u32
  assumes "sync_ok k" "pipe_inv k" "live_running k" "pipe_ok x"
  defines "k' \<equiv> task_wake_channel (Ch_pipe p) (set_pipe p x k)"
  shows "sync_ok k' \<and> pipe_inv k' \<and> live_running k' \<and> pipes k' = (pipes k)(p \<mapsto> x)
    \<and> task_running k' = task_running k \<and> running_task k' = running_task k"
proof -
  have t: "tables_ok k" using assms(1) mutex_okD(2) by (auto simp: sync_ok_def)
  have t': "tables_ok (set_pipe p x k)" using t by simp
  note W = wake_channel_at [OF t', of "Ch_pipe p"]
  have "t_state (running_task k) = TASK_RUNNING" using assms(3) by (simp add: live_running_def)
  then have "running_task k' = running_task k" unfolding k'_def by (simp add: W blocked_def)
  then show ?thesis
    using sync_wake_channel [OF sync_set_pipe [OF assms(1)], of "Ch_pipe p" p x] pipe_inv_change [OF t assms(2,4), of p]
      live_wake_channel [OF t', of "Ch_pipe p"] assms(3) W unfolding k'_def by simp
qed

lemma pipe_read_cases:
  assumes x: "pipes k p = Some x"
  obtains (wait) "count x = 0" "writers x > 0" "\<not> killed (running_task k)"
      "pipe_read p len k = Switched (task_block_on (Ch_pipe p) (Ctx_pipe_read p len) k)"
  | (dead) "killed (running_task k)" "pipe_read p len k = Done k None"
  | (read) n where "n = min len (unat (count x))" "\<not> killed (running_task k)" "count x = 0 \<longrightarrow> writers x = 0"
      "pipe_read p len k =
         Done (task_wake_channel (Ch_pipe p) (set_pipe p (snd (pipe_get n x)) k)) (Some (fst (pipe_get n x)))"
proof -
  note at = pipe_atI [OF x]
  let ?wait = "count x = 0 \<and> writers x > 0 \<and> \<not> killed (running_task k)"
  consider ?wait | "\<not> ?wait" "killed (running_task k)" | "\<not> ?wait" "\<not> killed (running_task k)" by blast
  then show thesis
  proof cases
    case 3
    then show thesis by (intro read [OF refl]) (auto simp: pipe_read_def at pipe_get_def Let_def case_prod_beta word_gt_0)
  qed (use wait dead in \<open>simp_all add: pipe_read_def at\<close>)
qed

lemma pipe_read_ok:
  assumes k: "sync_ok k" "pipe_inv k" "live_running k" and x: "pipes k p = Some x"
  shows "sync_ok (out_state (pipe_read p len k)) \<and> pipe_inv (out_state (pipe_read p len k))"
  using x
proof (cases rule: pipe_read_cases [where len = len])
  case wait
  then have "pipe_wait k p (Ctx_pipe_read p len)" using x by (simp add: pipe_wait_def)
  then show ?thesis using wait(4) block_on_pipe_ok [OF k(1,3)] pipe_inv_block [OF k] by simp
next
  case dead
  then show ?thesis using k by simp
next
  case (read n)
  have "pipe_ok x" using k(2) x by (auto simp: pipe_inv_def pipes_ok_def)
  then have "pipe_ok (snd (pipe_get n x))" using pipe_get [of x n] read(1) by simp
  then show ?thesis using read(4) pipe_change_ok [OF k] by simp
qed


text \<open>The chunk that one round of \<^verbatim>\<open>pipe_write\<close> stores.\<close>

definition pipe_room :: "pipe \<Rightarrow> nat" where
  "pipe_room x = PIPE_SIZE - unat (count x)"

lemma pipe_write_cases:
  assumes x: "pipes k p = Some x" "pipe_ok x" and w: "written < length data"
  obtains (wait) "count x = of_nat PIPE_SIZE" "readers x > 0" "\<not> killed (running_task k)"
      "pipe_write_loop p data written k = Switched (task_block_on (Ch_pipe p) (Ctx_pipe_write p data written) k)"
  | (dead) "killed (running_task k)" "pipe_write_loop p data written k = Done k (write_result written 0)"
  | (broken) "readers x = 0" "\<not> killed (running_task k)"
      "pipe_write_loop p data written k = Done k (write_result written (err_code BROKEN_PIPE_ERROR))"
  | (put) n where "n = min (length data - written) (pipe_room x)" "0 < n" "readers x > 0" "\<not> killed (running_task k)"
      "pipe_write_loop p data written k = pipe_write_loop p data (written + n)
         (task_wake_channel (Ch_pipe p) (set_pipe p (pipe_put (take n (drop written data)) x) k))"
proof -
  note at = pipe_atI [OF x(1)]
  have le: "unat (count x) \<le> 4096" using x(2) by (simp add: pipe_ok_def)
  then have "count x \<le> 4096" by (simp add: word_le_nat_alt)
  then have room: "unat (of_nat PIPE_SIZE - count x) = pipe_room x" by (simp add: pipe_room_def unat_sub)
  let ?wait = "count x = of_nat PIPE_SIZE \<and> readers x > 0 \<and> \<not> killed (running_task k)"
  consider ?wait | "\<not> ?wait" "killed (running_task k)" | "\<not> ?wait" "\<not> killed (running_task k)" "readers x = 0"
    | "\<not> ?wait" "\<not> killed (running_task k)" "readers x \<noteq> 0" by blast
  then show thesis
  proof cases
    case 4
    then have "count x \<noteq> of_nat PIPE_SIZE" by (simp add: word_gt_0)
    then have "0 < pipe_room x" using le room by (metis unat_gt_0 right_minus_eq)
    then have "0 < min (length data - written) (pipe_room x)" using w by simp
    then show thesis
      by (rule put [OF refl]) (use 4 w room in \<open>simp_all add: pipe_write_loop.simps [of p data written k] at Let_def word_gt_0\<close>)
  qed (use wait dead broken w in \<open>simp_all add: pipe_write_loop.simps [of p data written k] at\<close>)
qed

lemma pipe_write_done: "\<not> written < length data \<Longrightarrow>
    pipe_write_loop p data written k = Done k (write_result written 0)"
  by (simp add: pipe_write_loop.simps)

lemma put_chunk:
  assumes "pipe_ok x" "n = min (length data - written) (pipe_room x)"
  shows "pipe_ok (pipe_put (take n (drop written data)) x)
    \<and> pipe_contents (pipe_put (take n (drop written data)) x) = pipe_contents x @ take n (drop written data)
    \<and> readers (pipe_put (take n (drop written data)) x) = readers x"
proof -
  have "unat (count x) + length (take n (drop written data)) \<le> PIPE_SIZE"
    using assms by (auto simp: pipe_room_def pipe_ok_def min_def)
  then show ?thesis using pipe_put [OF assms(1)] by blast
qed

text \<open>Everything a write does, in one statement: what arrives in the pipe, what the caller gets, where
  it waits.\<close>

lemma pipe_write_loop_spec:
  assumes "sync_ok k" "pipe_inv k" "live_running k" "pipes k p = Some x" "written \<le> length data"
    and "out = pipe_write_loop p data written k"
  shows "sync_ok (out_state out) \<and> pipe_inv (out_state out)
    \<and> (case out of
         Done k' r \<Rightarrow>
           (if \<not> killed (running_task k) \<and> readers x > 0
            then r = int (length data) \<and> map_option pipe_contents (pipes k' p) = Some (pipe_contents x @ drop written data)
            else pipes k' p = Some x \<and> r = write_result written
              (if killed (running_task k) \<or> written = length data then 0 else err_code BROKEN_PIPE_ERROR))
       | Switched k' \<Rightarrow> \<exists>n. written + n < length data
           \<and> saved_ctx (task_at k' (task_running k)) = Ctx_pipe_write p data (written + n)
           \<and> t_state (task_at k' (task_running k)) = TASK_BLOCKED \<and> length (pipe_contents x) + n = PIPE_SIZE
           \<and> map_option pipe_contents (pipes k' p) = Some (pipe_contents x @ take n (drop written data)))"
  using assms
proof (induction "length data - written" arbitrary: written k x out rule: less_induct)
  case (less written k x out)
  note k = less.prems(1-3) and x = less.prems(4) and out = less.prems(6)
  have ok: "pipe_ok x" using k(2) x by (auto simp: pipe_inv_def pipes_ok_def)
  show ?case
  proof (cases "written < length data")
    case False
    then have "written = length data" using less.prems(5) by simp
    then show ?thesis using k x out by (auto simp: pipe_write_done write_result_def)
  next
    case True
    have t: "mutex_ok k" "task_running k \<noteq> task_idle k" using k by (auto simp: sync_ok_def live_running_def)
    from x ok True show ?thesis
    proof (cases rule: pipe_write_cases)
      case wait
      have w: "pipe_wait k p (Ctx_pipe_write p data written)" using wait True x by (simp add: pipe_wait_def)
      have "saved_ctx (task_at (task_block_on (Ch_pipe p) (Ctx_pipe_write p data written) k) (task_running k))
          = Ctx_pipe_write p data written"
        using running_less [OF t(1)] mutex_okD(2) [OF t(1)] by (simp add: task_block_on_def schedule_fields)
      then show ?thesis
        using out wait True block_on_pipe_ok [OF k(1,3)] pipe_inv_block [OF k w] block_on_blocks [OF t] x
        by (auto simp: task_block_on_def intro!: exI [of _ 0])
    next
      case dead
      then show ?thesis using out k x True by simp
    next
      case broken
      then show ?thesis using out k x True by simp
    next
      case (put n)
      note P = put_chunk [OF ok put(1)]
      let ?y = "pipe_put (take n (drop written data)) x"
      let ?k = "task_wake_channel (Ch_pipe p) (set_pipe p ?y k)"
      have C: "sync_ok ?k" "pipe_inv ?k" "live_running ?k" "pipes ?k p = Some ?y" "task_running ?k = task_running k"
        "running_task ?k = running_task k"
        using pipe_change_ok [OF k, of ?y p] P by auto
      have IH: "sync_ok (out_state out) \<and> pipe_inv (out_state out)
        \<and> (case out of
             Done k' r \<Rightarrow>
               (if \<not> killed (running_task ?k) \<and> readers ?y > 0
                then r = int (length data) \<and> map_option pipe_contents (pipes k' p) = Some (pipe_contents ?y @ drop (written + n) data)
                else pipes k' p = Some ?y \<and> r = write_result (written + n)
                  (if killed (running_task ?k) \<or> written + n = length data then 0 else err_code BROKEN_PIPE_ERROR))
           | Switched k' \<Rightarrow> \<exists>m. written + n + m < length data
               \<and> saved_ctx (task_at k' (task_running ?k)) = Ctx_pipe_write p data (written + n + m)
               \<and> t_state (task_at k' (task_running ?k)) = TASK_BLOCKED \<and> length (pipe_contents ?y) + m = PIPE_SIZE
               \<and> map_option pipe_contents (pipes k' p) = Some (pipe_contents ?y @ take m (drop (written + n) data)))"
        by (rule less.hyps [OF _ C(1-4)]) (use put(1,2,5) True out in \<open>auto simp: min_def\<close>)
      have d: "drop written data = take n (drop written data) @ drop (written + n) data"
        by (metis append_take_drop_id drop_drop add.commute)
      show ?thesis
      proof (cases out)
        case (Done k' r)
        then show ?thesis using IH C(6) put(3,4) P d by simp
      next
        case (Switched k')
        then obtain m where m: "written + n + m < length data"
            "saved_ctx (task_at k' (task_running k)) = Ctx_pipe_write p data (written + n + m)"
            "t_state (task_at k' (task_running k)) = TASK_BLOCKED" "length (pipe_contents ?y) + m = PIPE_SIZE"
            "map_option pipe_contents (pipes k' p) = Some (pipe_contents ?y @ take m (drop (written + n) data))"
          using IH C(5) by auto
        have "take n (drop written data) @ take m (drop (written + n) data) = take (n + m) (drop written data)"
          by (metis take_add drop_drop add.commute)
        moreover have "length (take n (drop written data)) = n" using put(1) by simp
        ultimately show ?thesis using IH Switched m P
          by (auto intro!: exI [of _ "n + m"] simp: add.assoc simp del: length_pipe_contents)
      qed
    qed
  qed
qed


text \<open>After the wait.\<close>

lemma block_on_resumed_ok:
  assumes k: "sync_ok k" "pipe_inv k" "live_running k"
  defines "k' \<equiv> task_block_on_resumed k"
  shows "sync_ok k' \<and> pipe_inv k' \<and> live_running k' \<and> pipes k' = pipes k \<and> task_running k' = task_running k
    \<and> killed (running_task k') = killed (running_task k)"
proof -
  let ?r = "task_running k"
  have m: "mutex_ok k" using k by (simp add: sync_ok_def)
  have rl: "?r < length (task_table k)" using running_less [OF m] by simp
  have at: "task_at k' i = (if i = ?r then wait_channel_update (\<lambda>_. None) (task_at k i) else task_at k i)" for i
    using rl by (simp add: k'_def task_block_on_resumed_def task_at_upd)
  have f: "mutexes k' = mutexes k" "task_running k' = ?r" "task_idle k' = task_idle k" "tables_ok k'" "pipes k' = pipes k"
    using mutex_okD(2) [OF m] by (simp_all add: k'_def task_block_on_resumed_def)
  have g: "t_state (task_at k' i) = t_state (task_at k i)" "wait_mutex (task_at k' i) = wait_mutex (task_at k i)"
    "open_mutexes (task_at k' i) = open_mutexes (task_at k i)" "priority (task_at k' i) = priority (task_at k i)"
    "base_priority (task_at k' i) = base_priority (task_at k i)" "saved_ctx (task_at k' i) = saved_ctx (task_at k i)" for i
    by (simp_all add: at)
  have b: "blocked k' i = blocked k i" for i by (simp add: blocked_def g)
  have nb: "\<not> blocked k ?r" using k(3) by (simp add: blocked_def live_running_def)
  have ho: "has_open (task_at k' i) j = has_open (task_at k i) j" for i j by (simp add: has_open_def g)
  then have o: "openers k' j = openers k j" for j by (simp add: openers_def)
  have "sched_ok k'" using mutex_okD(1) [OF m] unfolding sched_ok_def g f by (simp add: f)
  moreover have "refs_ok k'" "owners_ok k'" "dead_ok k'" "waits_ok k'" "waiters_ok k'"
    using mutex_okD(3,4,5,7,8) [OF m] unfolding mutex_parts o f g b ho by simp_all
  moreover have "channels_ok k'" using mutex_okD(6) [OF m] nb unfolding channels_ok_def b at by auto
  moreover have "waits_for k' i s = waits_for k i s" for i s by (simp add: waits_for_def g f split: option.split)
  ultimately have "sync_ok k'" using k(1) by (simp add: sync_ok_def mutex_ok_def pi_ok_def g names_ok_def f)
  moreover have "pipe_wait k' p c = pipe_wait k p c" for p c by (simp add: pipe_wait_def f)
  then have "pipe_inv k'" using k(2) nb unfolding pipe_inv_def pipe_waits_ok_def pipes_ok_def b f at by auto
  ultimately show ?thesis using k(3) f rl by (simp add: live_running_def at)
qed

lemma pipe_remove_ok:
  fixes p :: u32
  assumes k: "sync_ok k" "pipe_inv k" "live_running k" and x: "pipe_ok x"
  defines "k' \<equiv> pipe_free_if_unused p (task_wake_channel (Ch_pipe p) (set_pipe p x k))"
  shows "sync_ok k' \<and> pipe_inv k' \<and> live_running k'
    \<and> pipes k' = (if readers x = 0 \<and> writers x = 0 then (pipes k)(p := None) else (pipes k)(p \<mapsto> x))"
proof -
  let ?k = "task_wake_channel (Ch_pipe p) (set_pipe p x k)"
  note C = pipe_change_ok [OF k x, of p]
  have at: "pipe_at ?k p = x" using C by (simp add: pipe_at_def)
  show ?thesis
  proof (cases "readers x = 0 \<and> writers x = 0")
    case False
    then show ?thesis using C at by (auto simp: k'_def pipe_free_if_unused_def)
  next
    case True
    define k2 where "k2 = ?k\<lparr>heap := kfree (heap ?k) p, pipes := (pipes ?k)(p := None)\<rparr>"
    have k': "k' = k2" using True at by (simp add: k'_def pipe_free_if_unused_def k2_def)
    have t: "task_table k2 = task_table ?k" "task_running k2 = task_running ?k" "task_idle k2 = task_idle ?k"
      by (simp_all add: k2_def)
    have "sync_ok k2" by (rule sync_view [of ?k]) (use C in \<open>simp_all add: same_view_def k2_def\<close>)
    moreover have "live_running k2" using C unfolding live_running_def t by blast
    moreover have "pipe_inv k2"
    proof -
      have tk: "tables_ok (set_pipe p x k)" using k(1) mutex_okD(2) by (auto simp: sync_ok_def)
      have b: "blocked k2 i \<Longrightarrow> blocked ?k i \<and> wait_channel (task_at ?k i) \<noteq> Some (Ch_pipe p)" for i
        by (auto simp: blocked_def t wake_channel_at(1) [OF tk] split: if_splits)
      have "pipe_wait k2 q c = pipe_wait ?k q c" if "q \<noteq> p" for q c using that by (simp add: pipe_wait_def k2_def)
      then have "pipe_waits_ok k2" using C b unfolding pipe_inv_def pipe_waits_ok_def t by metis
      moreover have "pipes_ok k2" using k(2) C by (simp add: pipe_inv_def pipes_ok_def k2_def)
      ultimately show ?thesis by (simp add: pipe_inv_def)
    qed
    ultimately show ?thesis using True C by (simp add: k' ) (simp add: k2_def)
  qed
qed

section \<open>The properties\<close>

text \<open>C14. No lost wake-ups: every pipe call keeps the invariant that a blocked reader waits on an empty
  pipe that still has a writer, and a blocked writer on a full pipe that still has a reader; it also keeps
  the scheduling and mutex invariants. This covers the calls, their continuation after a wait, and the
  closing of either end.\<close>

theorem pipe_calls_keep_invariant:
  assumes "sync_ok k" "pipe_inv k" "live_running k" "pipes k p = Some x" "written \<le> length data"
  shows "(\<forall>k' \<in> {out_state (pipe_read p len k), out_state (pipe_read_resumed p len k)}. sync_ok k' \<and> pipe_inv k')
    \<and> (\<forall>k' \<in> {out_state (pipe_write p data k), out_state (pipe_write_resumed p data written k)}. sync_ok k' \<and> pipe_inv k')
    \<and> (\<forall>k' \<in> {pipe_close_reader p k, pipe_close_writer p k}. sync_ok k' \<and> pipe_inv k')"
proof -
  note k = assms(1-3) and R = block_on_resumed_ok [OF assms(1-3)]
  have x: "pipe_ok x" using k(2) assms(4) by (auto simp: pipe_inv_def pipes_ok_def)
  then have x': "pipe_ok (x\<lparr>readers := readers x - 1\<rparr>)" "pipe_ok (x\<lparr>writers := writers x - 1\<rparr>)"
    by (simp_all add: pipe_ok_def)
  show ?thesis
    using pipe_read_ok [OF k assms(4)] pipe_read_ok [of "task_block_on_resumed k" p x] R assms(4)
      pipe_write_loop_spec [OF k assms(4) _ refl, of 0] pipe_remove_ok [OF k x'(1), of p] pipe_remove_ok [OF k x'(2), of p]
      pipe_write_loop_spec [of "task_block_on_resumed k" p x written data, OF _ _ _ _ assms(5) refl]
    by (simp add: pipe_read_resumed_def pipe_write_def pipe_write_resumed_def pipe_close_reader_def
          pipe_close_writer_def pipe_atI [OF assms(4)])
qed

text \<open>A read of a pipe returns the oldest bytes it holds, at most \<open>len\<close>, and removes exactly these. It
  returns no bytes only for a length of 0 or at the end of the stream, when the pipe is empty and
  has no writer; it blocks only while the pipe is empty and has one; -1 is for a killed task only.\<close>

theorem pipe_read_result:
  assumes "pipe_inv k" "sync_ok k" "live_running k" "pipes k p = Some x"
  shows "case pipe_read p len k of
      Done k' (Some out) \<Rightarrow> out = take len (pipe_contents x)
        \<and> map_option pipe_contents (pipes k' p) = Some (drop len (pipe_contents x))
        \<and> (out = [] \<longrightarrow> len = 0 \<or> (pipe_contents x = [] \<and> writers x = 0))
    | Done k' None \<Rightarrow> killed (running_task k) \<and> k' = k
    | Switched k' \<Rightarrow> pipe_contents x = [] \<and> writers x > 0 \<and> pipes k' = pipes k
        \<and> saved_ctx (task_at k' (task_running k)) = Ctx_pipe_read p len
        \<and> t_state (task_at k' (task_running k)) = TASK_BLOCKED"
  using assms(4)
proof (cases rule: pipe_read_cases [where len = len])
  case wait
  have m: "mutex_ok k" "task_running k \<noteq> task_idle k" using assms(2,3) by (auto simp: sync_ok_def live_running_def)
  show ?thesis
    using wait block_on_blocks [OF m] running_less [OF m(1)] mutex_okD(2) [OF m(1)]
    by (simp add: task_block_on_def schedule_fields pipe_contents_def)
next
  case (read n)
  have ok: "pipe_ok x" using assms(1,4) by (auto simp: pipe_inv_def pipes_ok_def)
  note G = pipe_get [OF ok, of n]
  have e: "take n (pipe_contents x) = take len (pipe_contents x)" "drop n (pipe_contents x) = drop len (pipe_contents x)"
    using read(1) by (simp_all add: min_def)
  have z: "take len (pipe_contents x) = [] \<Longrightarrow> len = 0 \<or> pipe_contents x = []" by simp
  have c: "pipe_contents x = [] \<longleftrightarrow> count x = 0" by (metis length_0_conv length_pipe_contents unat_eq_zero)
  show ?thesis
    using read G pipe_change_ok [OF assms(2,1,3), of "snd (pipe_get n x)" p] e z c by auto
qed simp

text \<open>C15. A write appends its bytes in order. It returns the full length once all of them are in the
  pipe, and blocks only with the pipe full, having stored what fitted and remembering how far it
  got. Without a reader it stores nothing and fails with \<^verbatim>\<open>BROKEN_PIPE_ERROR\<close>, unless bytes
  were stored before.\<close>

theorem pipe_write_result:
  assumes "sync_ok k" "pipe_inv k" "live_running k" "pipes k p = Some x"
  shows "case pipe_write p data k of
      Done k' r \<Rightarrow>
        (if \<not> killed (running_task k) \<and> readers x > 0
         then r = int (length data) \<and> map_option pipe_contents (pipes k' p) = Some (pipe_contents x @ data)
         else pipes k' p = Some x
           \<and> r = (if killed (running_task k) \<or> data = [] then 0 else err_code BROKEN_PIPE_ERROR))
    | Switched k' \<Rightarrow> \<exists>n<length data. saved_ctx (task_at k' (task_running k)) = Ctx_pipe_write p data n
        \<and> t_state (task_at k' (task_running k)) = TASK_BLOCKED \<and> length (pipe_contents x) + n = PIPE_SIZE
        \<and> map_option pipe_contents (pipes k' p) = Some (pipe_contents x @ take n data)"
  using pipe_write_loop_spec [OF assms _ refl, of 0 data]
  by (auto simp: pipe_write_def write_result_def split: outcome.split)

text \<open>C16. The bytes come out of a pipe in the order they went in, none lost and none twice: over any
  sequence of writes and reads, what the pipe held before followed by what was written is what was read
  followed by what it holds at the end.\<close>

theorem pipe_is_fifo:
  assumes "pipe_ok x" "ring.run ops x = (ins, outs, y)"
  shows "pipe_ok y \<and> pipe_contents x @ ins = outs @ pipe_contents y"
proof -
  have "length (pipe_contents x) \<le> PIPE_SIZE" using assms(1) by (simp add: pipe_ok_def)
  then show ?thesis using ring.stream [OF assms(1) _ assms(2)] by blast
qed

section \<open>Examples\<close>

definition demo_buf :: pipe where
  "demo_buf = \<lparr>buffer = replicate PIPE_SIZE 97, head = 4095, count = 2, readers = 1, writers = 1\<rparr>"

definition demo_pipe :: kernel where
  "demo_pipe = set_pipe 0x5000 demo_buf demo_mutex"

lemma demo_buf_ok: "pipe_ok demo_buf" "pipe_contents demo_buf = [97, 97]"
  by (simp_all add: pipe_ok_def demo_buf_def pipe_contents_def upt_rec)

lemma demo_pipe_ok: "sync_ok demo_pipe" "pipe_inv demo_pipe" "live_running demo_pipe" "pipes demo_pipe 0x5000 = Some demo_buf"
proof -
  show "sync_ok demo_pipe" unfolding demo_pipe_def by (rule sync_set_pipe [OF demo_mutex_ok(1)])
  show "live_running demo_pipe" unfolding demo_pipe_def using demo_mutex_ok(2) by simp
  have "\<not> blocked demo_pipe i" for i by (auto simp: demo_pipe_def blocked_def demo_mutex_at)
  moreover have "pipes demo_mutex = Map.empty" by (simp add: demo_mutex_def zero_kernel_def)
  ultimately show "pipe_inv demo_pipe"
    using demo_buf_ok by (auto simp: pipe_inv_def pipe_waits_ok_def pipes_ok_def demo_pipe_def split: if_splits)
qed (simp add: demo_pipe_def)

lemma demo_not_killed: "\<not> killed (running_task demo_pipe)"
  by (simp add: demo_pipe_def demo_fixed demo_mutex_at)

theorem pipe_calls_keep_invariant_witness:
  "pipe_inv (out_state (pipe_write 0x5000 [1, 2, 3] demo_pipe)) \<and> pipe_inv (pipe_close_reader 0x5000 demo_pipe)"
  using pipe_calls_keep_invariant [OF demo_pipe_ok, of 0 "[1, 2, 3]"] by simp

theorem pipe_read_result_witness:
  "\<exists>k'. pipe_read 0x5000 1 demo_pipe = Done k' (Some [97]) \<and> map_option pipe_contents (pipes k' 0x5000) = Some [97]"
proof -
  note R = pipe_read_result [OF demo_pipe_ok(2,1,3,4), of 1, unfolded demo_buf_ok(2)]
  show ?thesis
    using R demo_not_killed by (cases "pipe_read 0x5000 1 demo_pipe") (auto split: option.splits)
qed

theorem pipe_write_result_witness:
  "\<exists>k'. pipe_write 0x5000 [98] demo_pipe = Done k' 1 \<and> map_option pipe_contents (pipes k' 0x5000) = Some [97, 97, 98]"
proof -
  note R = pipe_write_result [OF demo_pipe_ok, of "[98]", unfolded demo_buf_ok(2)]
  have r: "readers demo_buf > 0" by (simp add: demo_buf_def)
  show ?thesis
    using R demo_not_killed r by (cases "pipe_write 0x5000 [98] demo_pipe") auto
qed

theorem pipe_is_fifo_witness:
  "\<exists>y. fst (snd (ring.run [Inl [98], Inr 2, Inr 5] demo_buf)) @ pipe_contents y = [97, 97, 98]"
proof -
  obtain ins outs y where r: "ring.run [Inl [98], Inr 2, Inr 5] demo_buf = (ins, outs, y)" by (metis prod_cases3)
  have "ins = [98]" using r by (auto simp: Let_def demo_buf_ok case_prod_beta)
  then show ?thesis using pipe_is_fifo [OF demo_buf_ok(1) r] r demo_buf_ok(2) by auto
qed

end
