(* ===== verification/FatName.thy ===== *)
theory FatName
  imports CString
begin

text \<open>
  Directory items and names of \<^verbatim>\<open>src/file_system/fat/fat16.c\<close>: the 32 bytes of an item, the 8.3 name with
  its case bits, the long name entries in front of an item, and the alias of a long name.

  An item is its 32 bytes, because the code reads a long name entry through the same array;
  the fields are read at their offsets in the packed structs.
\<close>

section \<open>Items\<close>

type_synonym fat_item_bytes = bytes

abbreviation (input) FAT_ENTRY_END :: u8 where "FAT_ENTRY_END \<equiv> 0x00"
abbreviation (input) FAT_ENTRY_DELETED :: u8 where "FAT_ENTRY_DELETED \<equiv> 0xE5"
abbreviation (input) FAT_FILE_LONG_NAME :: u8 where "FAT_FILE_LONG_NAME \<equiv> 0x0F"
abbreviation (input) FAT_LFN_LAST :: u8 where "FAT_LFN_LAST \<equiv> 0x40"
abbreviation (input) FAT_LFN_SEQ_MASK :: u8 where "FAT_LFN_SEQ_MASK \<equiv> 0x1F"
abbreviation (input) FAT_LFN_CHARS :: nat where "FAT_LFN_CHARS \<equiv> 13"
abbreviation (input) FAT_LFN_MAX :: nat where "FAT_LFN_MAX \<equiv> 63"
abbreviation (input) FAT_NAME_LOWER_BASE :: u8 where "FAT_NAME_LOWER_BASE \<equiv> 0x08"
abbreviation (input) FAT_NAME_LOWER_EXT :: u8 where "FAT_NAME_LOWER_EXT \<equiv> 0x10"
abbreviation (input) FAT_FILE_READ_ONLY :: u8 where "FAT_FILE_READ_ONLY \<equiv> 0x01"
abbreviation (input) FAT_FILE_VOLUME_LABEL :: u8 where "FAT_FILE_VOLUME_LABEL \<equiv> 0x08"
abbreviation (input) FAT_FILE_SUBDIRECTORY :: u8 where "FAT_FILE_SUBDIRECTORY \<equiv> 0x10"
abbreviation (input) FAT_FILE_ARCHIVED :: u8 where "FAT_FILE_ARCHIVED \<equiv> 0x20"

text \<open>\<^verbatim>\<open>filename\<close> and \<^verbatim>\<open>ext\<close> are adjacent: the eleven bytes of the 8.3 name.\<close>

definition short_name :: "fat_item_bytes \<Rightarrow> bytes" where
  "short_name it = take 11 it"

definition attribute :: "fat_item_bytes \<Rightarrow> u8" where
  "attribute it = byte_at it 11"

definition item_reserved :: "fat_item_bytes \<Rightarrow> u8" where
  "item_reserved it = byte_at it 12"

definition filesize :: "fat_item_bytes \<Rightarrow> u32" where
  "filesize it = get32 it 28"

definition set_filesize :: "u32 \<Rightarrow> fat_item_bytes \<Rightarrow> fat_item_bytes" where
  "set_filesize n it = put32 28 n it"

definition fat16_get_first_cluster :: "fat_item_bytes \<Rightarrow> u32" where
  "fat16_get_first_cluster it = push_bit 16 (ucast (get16 it 20)) OR ucast (get16 it 26)"

definition fat16_set_first_cluster :: "u32 \<Rightarrow> fat_item_bytes \<Rightarrow> fat_item_bytes" where
  "fat16_set_first_cluster c it = put16 20 (ucast (drop_bit 16 c)) (put16 26 (ucast (c AND 0xFFFF)) it)"

section \<open>8.3 names\<close>

text \<open>The number \<open>n\<close> is what \<^verbatim>\<open>size - i\<close> still allows.\<close>

fun fat16_to_proper_string :: "bytes \<Rightarrow> nat \<Rightarrow> bytes" where
  "fat16_to_proper_string s 0 = []"
| "fat16_to_proper_string s (Suc n) =
    (if byte_at s 0 \<noteq> 0 \<and> byte_at s 0 \<noteq> 0x20 then byte_at s 0 # fat16_to_proper_string (drop 1 s) n else [])"

definition fat16_get_full_relative_filename :: "fat_item_bytes \<Rightarrow> bytes" where
  "fat16_get_full_relative_filename it =
    fat16_to_proper_string (take 8 it) 8
    @ (if byte_at it 8 \<noteq> 0 \<and> byte_at it 8 \<noteq> 0x20 then 46 # fat16_to_proper_string (take 3 (drop 8 it)) 3 else [])"

fun lower_loop :: "u8 \<Rightarrow> u8 \<Rightarrow> bytes \<Rightarrow> bytes" where
  "lower_loop reserved low [] = []"
| "lower_loop reserved low (c # cs) =
    (if c = 46 then c # lower_loop reserved (reserved AND FAT_NAME_LOWER_EXT) cs
     else (if low \<noteq> 0 then word_of_int (tolower (schar c)) else c) # lower_loop reserved low cs)"

definition fat16_get_short_name :: "fat_item_bytes \<Rightarrow> bytes" where
  "fat16_get_short_name it =
    lower_loop (item_reserved it) (item_reserved it AND FAT_NAME_LOWER_BASE) (fat16_get_full_relative_filename it)"

definition fat16_short_name_checksum :: "bytes \<Rightarrow> u8" where
  "fat16_short_name_checksum name =
    fold (\<lambda>i sum. push_bit 7 (sum AND 1) + drop_bit 1 sum + byte_at name i) [0..<11] 0"

section \<open>Long names\<close>

text \<open>\<^verbatim>\<open>fat16_lfn_char\<close>: the offset of the i-th character in an entry.\<close>

definition fat16_lfn_char :: "nat \<Rightarrow> nat" where
  "fat16_lfn_char i = (if i < 5 then 1 + 2 * i else if i < 11 then 14 + 2 * (i - 5) else 28 + 2 * (i - 11))"

definition lfn_seq :: "fat_item_bytes \<Rightarrow> u8" where
  "lfn_seq it = byte_at it 0"

definition lfn_checksum :: "fat_item_bytes \<Rightarrow> u8" where
  "lfn_checksum it = byte_at it 13"

text \<open>The loop of \<^verbatim>\<open>fat16_lfn_count\<close> from \<open>n\<close> on, \<open>k\<close> bounds its rounds.\<close>

fun lfn_count_loop :: "fat_item_bytes list \<Rightarrow> nat \<Rightarrow> u8 \<Rightarrow> nat \<Rightarrow> nat \<Rightarrow> nat" where
  "lfn_count_loop items idx checksum 0 n = 0"
| "lfn_count_loop items idx checksum (Suc k) n =
    (if n > idx then 0
     else let e = items ! (idx - n)
          in if attribute e \<noteq> FAT_FILE_LONG_NAME \<or> lfn_seq e = FAT_ENTRY_DELETED
                \<or> unat (lfn_seq e AND FAT_LFN_SEQ_MASK) \<noteq> n \<or> lfn_checksum e \<noteq> checksum then 0
             else if lfn_seq e AND FAT_LFN_LAST \<noteq> 0 then n
             else lfn_count_loop items idx checksum k (n + 1))"

definition fat16_lfn_count :: "fat_item_bytes list \<Rightarrow> nat \<Rightarrow> nat" where
  "fat16_lfn_count items idx =
    lfn_count_loop items idx (fat16_short_name_checksum (short_name (items ! idx))) 31 1"

text \<open>The characters of one entry appended to \<open>out\<close>; the flag says that the name ended.\<close>

fun lfn_chars :: "fat_item_bytes \<Rightarrow> nat list \<Rightarrow> nat \<Rightarrow> bytes \<Rightarrow> bytes \<times> bool" where
  "lfn_chars e [] max_len out = (out, False)"
| "lfn_chars e (i # is) max_len out =
    (let c = get16 e (fat16_lfn_char i)
     in if c = 0 \<or> c = 0xFFFF \<or> length out = max_len - 1 then (out, True)
        else lfn_chars e is max_len (out @ [if c < 0x80 then ucast c else 63]))"

fun lfn_entries :: "fat_item_bytes list \<Rightarrow> nat \<Rightarrow> nat list \<Rightarrow> nat \<Rightarrow> bytes \<Rightarrow> bytes" where
  "lfn_entries items idx [] max_len out = out"
| "lfn_entries items idx (n # ns) max_len out =
    (let (out, ended) = lfn_chars (items ! (idx - n)) [0..<FAT_LFN_CHARS] max_len out
     in if ended then out else lfn_entries items idx ns max_len out)"

definition fat16_get_item_name :: "fat_item_bytes list \<Rightarrow> nat \<Rightarrow> nat \<Rightarrow> bytes" where
  "fat16_get_item_name items idx max_len =
    (let n = fat16_lfn_count items idx
     in if n = 0 then fat16_get_short_name (items ! idx)
        else lfn_entries items idx [1..<n + 1] max_len [])"

section \<open>Finding a name\<close>

abbreviation (input) PATH_BUF :: nat where "PATH_BUF \<equiv> 109"

definition skipped :: "fat_item_bytes \<Rightarrow> bool" where
  "skipped it \<longleftrightarrow> byte_at it 0 = FAT_ENTRY_DELETED \<or> attribute it = FAT_FILE_LONG_NAME
     \<or> attribute it AND FAT_FILE_VOLUME_LABEL \<noteq> 0"

fun find_index_loop :: "fat_item_bytes list \<Rightarrow> bytes \<Rightarrow> nat list \<Rightarrow> nat option" where
  "find_index_loop items name [] = None"
| "find_index_loop items name (i # is) =
    (if skipped (items ! i) then find_index_loop items name is
     else if istrncmp (fat16_get_item_name items i PATH_BUF) name PATH_BUF = 0 then Some i
     else if istrncmp (fat16_get_full_relative_filename (items ! i)) name PATH_BUF = 0 then Some i
     else find_index_loop items name is)"

definition fat16_find_index :: "fat_item_bytes list \<Rightarrow> bytes \<Rightarrow> nat option" where
  "fat16_find_index items name = find_index_loop items name [0..<length items]"

section \<open>Making names\<close>

definition allowed_chars :: bytes where
  "allowed_chars = [33, 35, 36, 37, 38, 39, 40, 41, 45, 64, 94, 95, 96, 123, 125, 126]"

lemma allowed_chars: "allowed_chars = str ''!#$%&'' @ [39] @ str ''()-@^_`{}~''"
  by (simp add: allowed_chars_def str_def)

text \<open>The position of the last dot.\<close>

fun last_dot :: "bytes \<Rightarrow> nat \<Rightarrow> nat option \<Rightarrow> nat option" where
  "last_dot [] i d = d"
| "last_dot (c # cs) i d = last_dot cs (i + 1) (if c = 46 then Some i else d)"

fun short_chars :: "bytes \<Rightarrow> nat option \<Rightarrow> nat list \<Rightarrow> bytes \<Rightarrow> error + bytes" where
  "short_chars name d [] out = Inr out"
| "short_chars name d (i # is) out =
    (if d = Some i then short_chars name d is out
     else let c = name ! i
          in if \<not> isalnum (schar c) \<and> strchr allowed_chars c = None then Inl INVALID_PATH_ERROR
             else let pos = (case d of Some k \<Rightarrow> if i > k then 8 + (i - k - 1) else i | None \<Rightarrow> i)
                  in short_chars name d is (out[pos := word_of_int (toupper (schar c))]))"

text \<open>The case of the characters of the base and of the extension: 1 lower, 2 upper, 3 both.\<close>

fun name_cases :: "bytes \<Rightarrow> nat option \<Rightarrow> nat \<Rightarrow> u8 \<times> u8 \<Rightarrow> u8 \<times> u8" where
  "name_cases [] d i (b, e) = (b, e)"
| "name_cases (c # cs) d i (b, e) =
    (let f = (if islower (schar c) then 1 else if isupper (schar c) then 2 else 0)
     in name_cases cs d (i + 1)
          (case d of Some k \<Rightarrow> if i > k then (b, e OR f) else (b OR f, e) | None \<Rightarrow> (b OR f, e)))"

definition fat16_make_short_name :: "bytes \<Rightarrow> error + (bytes \<times> u8)" where
  "fat16_make_short_name name =
    (let d = last_dot name 0 None;
         base_len = (case d of Some k \<Rightarrow> k | None \<Rightarrow> strlen name);
         ext_len = (case d of Some k \<Rightarrow> strlen (drop (k + 1) name) | None \<Rightarrow> 0)
     in if base_len = 0 \<or> base_len > 8 \<or> ext_len > 3 \<or> (d \<noteq> None \<and> ext_len = 0) then Inl INVALID_PATH_ERROR
        else case short_chars name d [0..<base_len + (if d \<noteq> None then ext_len + 1 else 0)] (replicate 11 0x20) of
               Inl e \<Rightarrow> Inl e
             | Inr out \<Rightarrow>
                 let (b, e) = name_cases name d 0 (0, 0)
                 in if b = 3 \<or> e = 3 then Inl INVALID_PATH_ERROR
                    else Inr (out, (if b = 1 then FAT_NAME_LOWER_BASE else 0)
                                   OR (if e = 1 then FAT_NAME_LOWER_EXT else 0)))"

definition fat16_short_name_taken :: "fat_item_bytes list \<Rightarrow> bytes \<Rightarrow> bool" where
  "fat16_short_name_taken items name \<longleftrightarrow>
    (\<exists>it \<in> set items. byte_at it 0 \<noteq> FAT_ENTRY_DELETED \<and> attribute it \<noteq> FAT_FILE_LONG_NAME
       \<and> short_name it = take 11 name)"

definition alias_char :: "u8 \<Rightarrow> u8" where
  "alias_char c = (if isalnum (schar c) \<or> strchr allowed_chars c \<noteq> None then word_of_int (toupper (schar c)) else 95)"

text \<open>The two loops that collect the base and the extension of the alias, with the room left.\<close>

fun alias_base :: "bytes \<Rightarrow> nat \<Rightarrow> bytes" where
  "alias_base [] n = []"
| "alias_base (c # cs) n =
    (if n = 0 then [] else if c = 0x20 \<or> c = 46 then alias_base cs n else alias_char c # alias_base cs (n - 1))"

fun alias_ext :: "bytes \<Rightarrow> nat \<Rightarrow> bytes" where
  "alias_ext [] n = []"
| "alias_ext (c # cs) n =
    (if n = 0 then [] else if c = 0x20 then alias_ext cs n else alias_char c # alias_ext cs (n - 1))"

definition alias_suffix :: "nat \<Rightarrow> bytes" where
  "alias_suffix n = [126] @ (if n \<ge> 100 then [48 + of_nat (n div 100)] else [])
     @ (if n \<ge> 10 then [48 + of_nat (n div 10 mod 10)] else []) @ [48 + of_nat (n mod 10)]"

definition alias_name :: "bytes \<Rightarrow> bytes \<Rightarrow> nat \<Rightarrow> bytes" where
  "alias_name base ext n =
    (let suffix = alias_suffix n; keep = (if length base < 8 - length suffix then length base else 8 - length suffix);
         b = take keep base @ suffix
     in b @ replicate (8 - length b) 0x20 @ ext @ replicate (3 - length ext) 0x20)"

fun alias_loop :: "fat_item_bytes list \<Rightarrow> bytes \<Rightarrow> bytes \<Rightarrow> nat list \<Rightarrow> error + bytes" where
  "alias_loop items base ext [] = Inl FILE_EXISTS_ERROR"
| "alias_loop items base ext (n # ns) =
    (if \<not> fat16_short_name_taken items (alias_name base ext n) then Inr (alias_name base ext n)
     else alias_loop items base ext ns)"

definition fat16_make_alias :: "fat_item_bytes list \<Rightarrow> bytes \<Rightarrow> error + bytes" where
  "fat16_make_alias items name =
    (let d = last_dot name 0 None; d = (if d = Some 0 then None else d);
         base = alias_base (case d of Some k \<Rightarrow> take k name | None \<Rightarrow> name) 8;
         ext = (case d of Some k \<Rightarrow> alias_ext (drop (k + 1) name) 3 | None \<Rightarrow> []);
         base = (if base = [] then [95] else base)
     in alias_loop items base ext [1..<1000])"

definition forbidden_chars :: bytes where
  "forbidden_chars = [34, 42, 47, 58, 60, 62, 63, 92, 124]"

definition fat16_valid_long_name :: "bytes \<Rightarrow> bool" where
  "fat16_valid_long_name name \<longleftrightarrow>
    (let len = strlen name
     in \<not> (len = 0 \<or> len > FAT_LFN_MAX \<or> name ! (len - 1) = 46 \<or> name ! (len - 1) = 0x20)
        \<and> (\<forall>c \<in> set name. \<not> (schar c < 0x20 \<or> schar c > 0x7E \<or> strchr forbidden_chars c \<noteq> None)))"

text \<open>The long name entries of a name, as \<^verbatim>\<open>fat16_create_item\<close> fills them: entry \<open>n\<close> holds part \<open>n\<close>, the
  list is in the order on disk, last part first.\<close>

definition lfn_char_of :: "bytes \<Rightarrow> nat \<Rightarrow> u16" where
  "lfn_char_of name pos = (if pos < strlen name then ucast (name ! pos) else if pos = strlen name then 0 else 0xFFFF)"

definition lfn_entry :: "bytes \<Rightarrow> u8 \<Rightarrow> nat \<Rightarrow> nat \<Rightarrow> fat_item_bytes" where
  "lfn_entry name checksum parts n =
    fold (\<lambda>i e. put16 (fat16_lfn_char i) (lfn_char_of name ((n - 1) * FAT_LFN_CHARS + i)) e) [0..<FAT_LFN_CHARS]
      ((replicate 32 0)[0 := of_nat n OR (if n = parts then FAT_LFN_LAST else 0), 11 := FAT_FILE_LONG_NAME,
                        13 := checksum])"

definition lfn_count_for :: "bytes \<Rightarrow> nat" where
  "lfn_count_for name = (strlen name + FAT_LFN_CHARS - 1) div FAT_LFN_CHARS"

definition make_lfn :: "bytes \<Rightarrow> u8 \<Rightarrow> fat_item_bytes list" where
  "make_lfn name checksum =
    map (\<lambda>n. lfn_entry name checksum (lfn_count_for name) n) (rev [1..<lfn_count_for name + 1])"

section \<open>The 8.3 name of a name\<close>

definition up :: "u8 \<Rightarrow> u8" where
  "up c = word_of_int (toupper (schar c))"

definition low :: "u8 \<Rightarrow> u8" where
  "low c = word_of_int (tolower (schar c))"

definition short_char :: "u8 \<Rightarrow> bool" where
  "short_char c \<longleftrightarrow> isalnum (schar c) \<or> c \<in> set allowed_chars"

lemma short_char_code: "isalnum (schar c) \<or> strchr allowed_chars c \<noteq> None \<longleftrightarrow> short_char c"
proof -
  have "is_cstr allowed_chars" by (simp add: allowed_chars_def)
  then show ?thesis using strchr_None [of allowed_chars c] by (auto simp: short_char_def)
qed

lemma u8_cases_sint: "(c :: u8) = word_of_int (sint c)"
  by simp

lemma sint_small: "0 \<le> i \<Longrightarrow> i < 128 \<Longrightarrow> sint (word_of_int i :: u8) = i"
  by (simp add: signed_of_int signed_take_bit_int_eq_self)

lemma short_char_ascii: "short_char c \<Longrightarrow> 33 \<le> schar c \<and> schar c \<le> 126"
  by (auto simp: short_char_def ctype_defs allowed_chars_def schar_def)

lemma schar_up: "short_char c \<Longrightarrow> schar (up c) = toupper (schar c)"
  using short_char_ascii [of c] by (auto simp: up_def schar_def ctype_defs sint_small)

lemma schar_inj: "schar c = schar d \<longleftrightarrow> c = d"
  unfolding schar_def by (metis u8_cases_sint)

lemma schar_consts [simp]: "schar 46 = 46" "schar 0x20 = 0x20" "schar 0 = 0"
  by (simp_all add: schar_def)

lemma short_char_not: "short_char c \<Longrightarrow> c \<noteq> 46 \<and> c \<noteq> 0x20 \<and> c \<noteq> 0"
  by (auto simp: short_char_def ctype_defs allowed_chars_def)

lemma up_not: "short_char c \<Longrightarrow> up c \<noteq> 46 \<and> up c \<noteq> 0x20 \<and> up c \<noteq> 0"
proof -
  assume c: "short_char c"
  have "toupper (schar c) \<noteq> 46 \<and> toupper (schar c) \<noteq> 32 \<and> toupper (schar c) \<noteq> 0"
    using short_char_ascii [OF c] short_char_not [OF c] schar_inj [of c 46] schar_inj [of c "0x20"]
    by (auto simp: ctype_defs)
  then show ?thesis using schar_up [OF c] by auto
qed

lemma low_up: "short_char c \<Longrightarrow> \<not> isupper (schar c) \<Longrightarrow> low (up c) = c"
proof -
  assume c: "short_char c" "\<not> isupper (schar c)"
  then have "tolower (schar (up c)) = schar c" by (auto simp: schar_up ctype_defs)
  then show ?thesis by (simp add: low_def schar_def)
qed

lemma up_id: "\<not> islower (schar c) \<Longrightarrow> up c = c"
  by (simp add: up_def toupper_def schar_def)

lemma last_dot:
  "last_dot cs i d = Some k \<Longrightarrow> d = Some k \<and> 46 \<notin> set cs \<or> (i \<le> k \<and> k < i + length cs \<and> cs ! (k - i) = 46 \<and> 46 \<notin> set (drop (k - i + 1) cs))"
  "last_dot cs i d = None \<longleftrightarrow> d = None \<and> 46 \<notin> set cs"
proof (induction cs arbitrary: i d)
  case (Cons c cs)
  {
    case 1
    then have l: "last_dot cs (i + 1) (if c = 46 then Some i else d) = Some k" by simp
    show ?case using Cons(1) [OF l] by (auto simp: nth_Cons' Suc_diff_le Suc_diff_Suc split: if_splits)
  next
    case 2
    show ?case using Cons(2) [of "i + 1" "if c = 46 then Some i else d"] by auto
  }
qed auto

definition short_pos :: "nat option \<Rightarrow> nat \<Rightarrow> nat" where
  "short_pos d i = (case d of Some k \<Rightarrow> if i > k then 8 + (i - k - 1) else i | None \<Rightarrow> i)"

lemma short_chars:
  "short_chars name d js out = Inr out' \<Longrightarrow>
   (\<forall>i \<in> set js. d \<noteq> Some i \<longrightarrow> short_char (name ! i))
   \<and> out' = fold (\<lambda>i out. if d = Some i then out else out[short_pos d i := up (name ! i)]) js out"
proof (induction js arbitrary: out)
  case (Cons i js)
  then show ?case
    using short_char_code [of "name ! i"]
    by (auto simp: Let_def short_pos_def up_def split: if_splits)
qed simp

lemma short_fold_none:
  "m \<le> 8 \<Longrightarrow> fold (\<lambda>i out. if None = Some i then out else out[short_pos None i := up (name ! i)]) [0..<m] (replicate 11 0x20)
    = map (\<lambda>i. up (name ! i)) [0..<m] @ replicate (11 - m) 0x20"
proof (induction m)
  case (Suc m)
  have "replicate (11 - m) (0x20 :: u8) = 0x20 # replicate (11 - Suc m) 0x20"
    using Suc.prems by (simp add: Suc_diff_Suc replicate_Suc [symmetric] del: replicate_Suc)
  then show ?case using Suc by (simp add: short_pos_def list_update_append)
qed simp

lemma short_fold_some:
  assumes k: "k \<le> 8"
  shows "n \<le> 3 \<Longrightarrow> fold (\<lambda>i out. if Some k = Some i then out else out[short_pos (Some k) i := up (name ! i)])
      [0..<k + (n + 1)] (replicate 11 0x20)
    = map (\<lambda>i. up (name ! i)) [0..<k] @ replicate (8 - k) 0x20 @ map (\<lambda>i. up (name ! (k + 1 + i))) [0..<n] @ replicate (3 - n) 0x20"
proof (induction n)
  case 0
  have "m \<le> k \<Longrightarrow> fold (\<lambda>i out. if Some k = Some i then out else out[short_pos (Some k) i := up (name ! i)])
      [0..<m] (replicate 11 0x20) = map (\<lambda>i. up (name ! i)) [0..<m] @ replicate (11 - m) 0x20" for m
  proof (induction m)
    case (Suc m)
    have "replicate (11 - m) (0x20 :: u8) = 0x20 # replicate (11 - Suc m) 0x20"
      using Suc.prems k by (simp add: Suc_diff_Suc replicate_Suc [symmetric] del: replicate_Suc)
    then show ?case using Suc by (simp add: short_pos_def list_update_append)
  qed simp
  moreover have "replicate (8 - k) (0x20 :: u8) @ replicate 3 0x20 = replicate (11 - k) 0x20"
    using k by (simp add: replicate_add [symmetric])
  ultimately show ?case by simp
next
  case (Suc n)
  have r: "replicate (3 - n) (0x20 :: u8) = 0x20 # replicate (3 - Suc n) 0x20"
    using Suc.prems by (simp add: Suc_diff_Suc replicate_Suc [symmetric] del: replicate_Suc)
  have "short_pos (Some k) (k + Suc n) = 8 + n" "\<not> 8 + n - k < 8 - k" using k by (auto simp: short_pos_def)
  then show ?case using Suc k r by (simp add: list_update_append)
qed

lemma proper_string:
  "\<forall>c \<in> set xs. c \<noteq> 0 \<and> c \<noteq> 0x20 \<Longrightarrow>
   fat16_to_proper_string (xs @ replicate r 0x20) (length xs + r) = xs"
proof (induction xs)
  case Nil
  then show ?case by (cases r) (simp_all add: byte_at_def)
qed (simp add: byte_at_def)

lemma lower_loop_plain:
  "46 \<notin> set cs \<Longrightarrow> lower_loop r l (cs @ rest) = map (\<lambda>c. if l \<noteq> 0 then low c else c) cs @ lower_loop r l rest"
  by (induction cs) (auto simp: low_def)

text \<open>The case flags of the two parts.\<close>

definition case_flag :: "u8 list \<Rightarrow> u8" where
  "case_flag cs = (if \<exists>c \<in> set cs. islower (schar c) then 1 else 0) + (if \<exists>c \<in> set cs. isupper (schar c) then 2 else 0)"

definition base_of :: "bytes \<Rightarrow> nat option \<Rightarrow> nat \<Rightarrow> bytes" where
  "base_of cs d i = (case d of Some k \<Rightarrow> take (k + 1 - i) cs | None \<Rightarrow> cs)"

definition ext_of :: "bytes \<Rightarrow> nat option \<Rightarrow> nat \<Rightarrow> bytes" where
  "ext_of cs d i = (case d of Some k \<Rightarrow> drop (k + 1 - i) cs | None \<Rightarrow> [])"

lemma flag_or:
  "(case_flag xs) OR (if islower (schar c) then 1 else if isupper (schar c) then 2 else 0) = case_flag (xs @ [c])"
  by (auto simp: case_flag_def ctype_defs)

lemma name_cases:
  "name_cases cs d i (case_flag bs, case_flag es) = (case_flag (bs @ base_of cs d i), case_flag (es @ ext_of cs d i))"
proof (induction cs arbitrary: i bs es)
  case Nil
  then show ?case by (simp add: base_of_def ext_of_def split: option.split)
next
  case (Cons c cs)
  show ?case
  proof (cases "\<exists>k. d = Some k \<and> i > k")
    case True
    then obtain k where k: "d = Some k" "i > k" by blast
    have "name_cases (c # cs) d i (case_flag bs, case_flag es) = name_cases cs d (i + 1) (case_flag bs, case_flag (es @ [c]))"
      using k unfolding name_cases.simps Let_def flag_or by simp
    then show ?thesis using Cons [of "i + 1" bs "es @ [c]"] k by (simp add: base_of_def ext_of_def)
  next
    case False
    have "name_cases (c # cs) d i (case_flag bs, case_flag es) = name_cases cs d (i + 1) (case_flag (bs @ [c]), case_flag es)"
      using False unfolding name_cases.simps Let_def flag_or by (simp split: option.split)
    then show ?thesis using Cons [of "i + 1" "bs @ [c]" es] False
      by (auto simp: base_of_def ext_of_def Suc_diff_le split: option.split)
  qed
qed

lemma flag_cases:
  "case_flag cs = 1 \<Longrightarrow> c \<in> set cs \<Longrightarrow> \<not> isupper (schar c)"
  "case_flag cs \<noteq> 1 \<Longrightarrow> case_flag cs \<noteq> 3 \<Longrightarrow> c \<in> set cs \<Longrightarrow> \<not> islower (schar c)"
  by (auto simp: case_flag_def split: if_splits)

lemma restore_case:
  assumes "\<forall>c \<in> set cs. short_char c" "case_flag xs \<noteq> 3" "set cs \<subseteq> set xs" "b \<noteq> 0"
  shows "map (\<lambda>c. if (if case_flag xs = 1 then b else 0) \<noteq> (0 :: u8) then low c else c) (map up cs) = cs"
  using assms flag_cases [of xs] by (auto simp: low_up up_id subset_iff intro!: map_idI)


text \<open>The parts of a name that fits 8.3, and its padded form.\<close>

definition fits_83 :: "bytes \<Rightarrow> bytes \<Rightarrow> bool \<Rightarrow> bool" where
  "fits_83 b e dotted \<longleftrightarrow> (\<forall>c \<in> set b. short_char c) \<and> (\<forall>c \<in> set e. short_char c)
     \<and> 0 < length b \<and> length b \<le> 8 \<and> length e \<le> 3 \<and> (dotted \<longleftrightarrow> e \<noteq> [])"

definition padded :: "bytes \<Rightarrow> bytes \<Rightarrow> bytes" where
  "padded b e = map up b @ replicate (8 - length b) 0x20 @ map up e @ replicate (3 - length e) 0x20"

lemma length_padded: "fits_83 b e x \<Longrightarrow> length (padded b e) = 11"
  by (simp add: fits_83_def padded_def)

lemma make_short_nameD:
  fixes name :: bytes
  defines "d \<equiv> last_dot name 0 None"
  defines "bl \<equiv> case d of Some k \<Rightarrow> k | None \<Rightarrow> strlen name"
    and "el \<equiv> case d of Some k \<Rightarrow> strlen (drop (k + 1) name) | None \<Rightarrow> 0"
  assumes m: "fat16_make_short_name name = Inr (out, bits)"
  shows "bl \<noteq> 0 \<and> bl \<le> 8 \<and> el \<le> 3 \<and> (d \<noteq> None \<longrightarrow> el \<noteq> 0)"
    "short_chars name d [0..<bl + (if d \<noteq> None then el + 1 else 0)] (replicate 11 0x20) = Inr out"
    "name_cases name d 0 (0, 0) = (x, y) \<Longrightarrow> x \<noteq> 3 \<and> y \<noteq> 3
       \<and> bits = (if x = 1 then FAT_NAME_LOWER_BASE else 0) OR (if y = 1 then FAT_NAME_LOWER_EXT else 0)"
proof -
  note M = m [unfolded fat16_make_short_name_def Let_def, folded d_def, folded bl_def el_def]
  have c: "\<not> (bl = 0 \<or> bl > 8 \<or> el > 3 \<or> (d \<noteq> None \<and> el = 0))" using M by (simp split: if_splits)
  then show "bl \<noteq> 0 \<and> bl \<le> 8 \<and> el \<le> 3 \<and> (d \<noteq> None \<longrightarrow> el \<noteq> 0)" by auto
  note M2 = M [unfolded if_not_P [OF c]]
  obtain o' where o': "short_chars name d [0..<bl + (if d \<noteq> None then el + 1 else 0)] (replicate 11 0x20) = Inr o'"
    using M2 by (cases "short_chars name d [0..<bl + (if d \<noteq> None then el + 1 else 0)] (replicate 11 0x20)") simp_all
  obtain u v where uv: "name_cases name d 0 (0, 0) = (u, v)" by fastforce
  have r: "u \<noteq> 3 \<and> v \<noteq> 3 \<and> out = o'
      \<and> bits = (if u = 1 then FAT_NAME_LOWER_BASE else 0) OR (if v = 1 then FAT_NAME_LOWER_EXT else 0)"
    using M2 [unfolded o' uv sum.case prod.case] by (cases "u = 3 \<or> v = 3") simp_all
  then show "short_chars name d [0..<bl + (if d \<noteq> None then el + 1 else 0)] (replicate 11 0x20) = Inr out"
    using o' by simp
  show "name_cases name d 0 (0, 0) = (x, y) \<Longrightarrow> x \<noteq> 3 \<and> y \<noteq> 3
       \<and> bits = (if x = 1 then FAT_NAME_LOWER_BASE else 0) OR (if y = 1 then FAT_NAME_LOWER_EXT else 0)"
    using r uv by simp
qed

lemma make_short_none:
  assumes name: "is_cstr name" and m: "fat16_make_short_name name = Inr (out, bits)"
    and None: "last_dot name 0 None = None"
  shows "fits_83 name [] False" "out = padded name []" "case_flag name \<noteq> 3"
    "bits = (if case_flag name = 1 then FAT_NAME_LOWER_BASE else 0)"
proof -
  note D = make_short_nameD [OF m, unfolded None option.case strlen_eq [OF name]]
  let ?m = "length name"
  have len: "?m \<noteq> 0" "?m \<le> 8" using D(1) by auto
  have o': "short_chars name None [0..<?m] (replicate 11 0x20) = Inr out" using D(2) by simp
  note S = short_chars [OF o']
  have v: "\<forall>c \<in> set name. short_char c" using S by (auto simp: in_set_conv_nth)
  have "map (\<lambda>i. up (name ! i)) [0..<?m] = map up name" by (rule nth_equalityI) simp_all
  then have o2: "out = map up name @ replicate (11 - ?m) 0x20" using S short_fold_none [OF len(2), of name] by simp
  have n: "name_cases name None 0 (0, 0) = (case_flag name, case_flag [])"
    using name_cases [of name None 0 "[]" "[]"] by (simp add: base_of_def ext_of_def case_flag_def)
  note r = D(3) [OF n]
  then show "case_flag name \<noteq> 3" by simp
  show "bits = (if case_flag name = 1 then FAT_NAME_LOWER_BASE else 0)" using r by (simp add: case_flag_def)
  have "11 - ?m = (8 - ?m) + 3" using len by simp
  then have "replicate (11 - ?m) (0x20 :: u8) = replicate (8 - ?m) 0x20 @ replicate 3 0x20"
    by (simp only: replicate_add)
  then show "out = padded name []" using o2 by (simp add: padded_def)
  show "fits_83 name [] False" using v len by (simp add: fits_83_def)
qed

lemma make_short_some:
  assumes name: "is_cstr name" and m: "fat16_make_short_name name = Inr (out, bits)"
    and Some: "last_dot name 0 None = Some k"
  defines "b \<equiv> take k name" and "e \<equiv> drop (k + 1) name"
  shows "name = b @ 46 # e" "fits_83 b e True" "out = padded b e" "case_flag b \<noteq> 3" "case_flag e \<noteq> 3"
    "bits = (if case_flag b = 1 then FAT_NAME_LOWER_BASE else 0) OR (if case_flag e = 1 then FAT_NAME_LOWER_EXT else 0)"
proof -
  note L = last_dot(1) [OF Some]
  have k: "k < length name" "name ! k = 46" using L by auto
  show "name = b @ 46 # e" using id_take_nth_drop [OF k(1)] k(2) by (simp add: b_def e_def)
  have "is_cstr e" using name in_set_dropD [of 0 "k + 1" name] by (auto simp: is_cstr_def e_def)
  then have e0: "strlen e = length e" by (rule strlen_eq)
  note D = make_short_nameD [OF m, unfolded Some option.case, folded e_def, unfolded e0]
  have len: "k \<noteq> 0" "k \<le> 8" "length e \<le> 3" "length e \<noteq> 0" using D(1) by auto
  have lb: "length b = k" using k by (simp add: b_def)
  let ?n = "length e"
  have o': "short_chars name (Some k) [0..<k + (?n + 1)] (replicate 11 0x20) = Inr out" using D(2) by simp
  note S = short_chars [OF o']
  have ch: "short_char (name ! i)" if "i < k + (?n + 1)" "i \<noteq> k" for i
    by (rule bspec [OF conjunct1 [OF S], THEN mp]) (use that in auto)
  have bi: "i < k \<Longrightarrow> b ! i = name ! i" for i by (simp add: b_def)
  have ei: "i < ?n \<Longrightarrow> e ! i = name ! (k + 1 + i)" for i using k by (simp add: e_def)
  have vb: "short_char (b ! i)" if "i < k" for i
    unfolding bi [OF that] by (rule ch) (use that in simp_all)
  have vb: "\<forall>c \<in> set b. short_char c" using vb lb by (auto simp: in_set_conv_nth)
  have ve: "short_char (e ! i)" if "i < ?n" for i
    unfolding ei [OF that] by (rule ch) (use that in simp_all)
  have ve: "\<forall>c \<in> set e. short_char c" using ve by (auto simp: in_set_conv_nth)
  have mb: "map (\<lambda>i. up (name ! i)) [0..<k] = map up b"
    by (rule nth_equalityI) (simp_all add: lb bi)
  have me: "map (\<lambda>i. up (name ! (k + 1 + i))) [0..<?n] = map up e"
    by (rule nth_equalityI) (simp_all add: ei)
  show "out = padded b e"
    using S short_fold_some [OF len(2,3), of name] unfolding mb me padded_def lb by simp
  have "take (k + 1) name = b @ [46]" using k by (simp add: take_Suc_conv_app_nth b_def)
  then have nb: "case_flag (take (k + 1) name) = case_flag b" by (simp add: case_flag_def ctype_defs)
  have n: "name_cases name (Some k) 0 (0, 0) = (case_flag b, case_flag e)"
    using name_cases [of name "Some k" 0 "[]" "[]"] nb by (simp add: base_of_def ext_of_def case_flag_def e_def)
  note r = D(3) [OF n]
  then show "case_flag b \<noteq> 3" "case_flag e \<noteq> 3"
    "bits = (if case_flag b = 1 then FAT_NAME_LOWER_BASE else 0) OR (if case_flag e = 1 then FAT_NAME_LOWER_EXT else 0)"
    by blast+
  show "fits_83 b e True" using vb ve len lb unfolding fits_83_def by auto
qed

lemma make_short_name_parts:
  assumes name: "is_cstr name" and m: "fat16_make_short_name name = Inr (out, bits)"
  obtains b e dotted where "fits_83 b e dotted" "name = b @ (if dotted then 46 # e else [])" "out = padded b e"
    "case_flag b \<noteq> 3" "case_flag e \<noteq> 3"
    "bits = (if case_flag b = 1 then FAT_NAME_LOWER_BASE else 0) OR (if case_flag e = 1 then FAT_NAME_LOWER_EXT else 0)"
proof (cases "last_dot name 0 None")
  case None
  note r = make_short_none [OF name m None]
  show thesis by (rule that [of name "[]" False]) (simp_all add: r case_flag_def [of "[]"])
next
  case (Some k)
  note r = make_short_some [OF name m Some]
  show thesis by (rule that [OF r(2) _ r(3-6)]) (use r(1) in \<open>simp only: if_True\<close>)
qed

lemma padded_display:
  assumes "fits_83 b e dotted"
  shows "fat16_to_proper_string (take 8 (padded b e)) 8 = map up b"
    "byte_at (padded b e) 8 \<noteq> 0 \<and> byte_at (padded b e) 8 \<noteq> 0x20 \<longleftrightarrow> dotted"
    "fat16_to_proper_string (take 3 (drop 8 (padded b e))) 3 = map up e"
proof -
  have b: "\<forall>c \<in> set (map up b). c \<noteq> 0 \<and> c \<noteq> 0x20" and e: "\<forall>c \<in> set (map up e). c \<noteq> 0 \<and> c \<noteq> 0x20"
    using assms up_not by (auto simp: fits_83_def)
  have l: "length b \<le> 8" "length e \<le> 3" using assms by (auto simp: fits_83_def)
  have t: "take 8 (padded b e) = map up b @ replicate (8 - length b) 0x20"
    "drop 8 (padded b e) = map up e @ replicate (3 - length e) 0x20" using l by (simp_all add: padded_def)
  show "fat16_to_proper_string (take 8 (padded b e)) 8 = map up b"
    using proper_string [OF b, of "8 - length b"] l unfolding t by simp
  show "fat16_to_proper_string (take 3 (drop 8 (padded b e))) 3 = map up e"
    using proper_string [OF e, of "3 - length e"] l unfolding t by simp
  have "byte_at (padded b e) 8 = (if e = [] then 0x20 else up (hd e))"
    using l by (cases e) (auto simp: byte_at_def padded_def nth_append)
  then show "byte_at (padded b e) 8 \<noteq> 0 \<and> byte_at (padded b e) 8 \<noteq> 0x20 \<longleftrightarrow> dotted"
    using assms up_not by (cases e) (auto simp: fits_83_def)
qed

lemma proper_take: "fat16_to_proper_string (take n s) n = fat16_to_proper_string s n"
  by (induction n arbitrary: s) (auto simp: byte_at_def drop_take)

lemma item_display:
  assumes "short_name it = padded b e" "length it = 32" "fits_83 b e dotted"
  shows "fat16_get_full_relative_filename it = map up b @ (if dotted then 46 # map up e else [])"
proof -
  obtain r where it: "it = padded b e @ r" using append_take_drop_id [of 11 it] assms(1) by (metis short_name_def)
  have l: "length (padded b e) = 11" by (rule length_padded [OF assms(3)])
  have "take 8 it = take 8 (padded b e)" "take 3 (drop 8 it) = take 3 (drop 8 (padded b e))"
    "byte_at it 8 = byte_at (padded b e) 8"
    using l by (simp_all add: it byte_at_def nth_append)
  then show ?thesis using padded_display [OF assms(3)] by (simp add: fat16_get_full_relative_filename_def)
qed

text \<open>C17. A name that fits the 8.3 form comes back exactly as it was given, with its case: what the
  directory listing shows for an item made from \<^verbatim>\<open>fat16_make_short_name\<close> is the name.\<close>

theorem short_name_roundtrip:
  assumes "is_cstr name" "fat16_make_short_name name = Inr (out, bits)"
    and "length it = 32" "short_name it = out" "item_reserved it = bits"
  shows "fat16_get_short_name it = name"
  using assms(1,2)
proof (rule make_short_name_parts)
  fix b e dotted
  assume f: "fits_83 b e dotted" and n: "name = b @ (if dotted then 46 # e else [])" and o: "out = padded b e"
    and cb: "case_flag b \<noteq> 3" and ce: "case_flag e \<noteq> 3"
    and bits: "bits = (if case_flag b = 1 then FAT_NAME_LOWER_BASE else 0) OR (if case_flag e = 1 then FAT_NAME_LOWER_EXT else 0)"
  have d: "fat16_get_full_relative_filename it = map up b @ (if dotted then 46 # map up e else [])"
    using item_display [OF _ assms(3) f] assms(4) o by simp
  have lb: "bits AND FAT_NAME_LOWER_BASE = (if case_flag b = 1 then FAT_NAME_LOWER_BASE else 0)"
    and le: "bits AND FAT_NAME_LOWER_EXT = (if case_flag e = 1 then FAT_NAME_LOWER_EXT else 0)"
    unfolding bits by auto
  have no: "46 \<notin> set (map up b)" "46 \<notin> set (map up e)" using f up_not by (auto simp: fits_83_def)
  have rb: "map (\<lambda>c. if (if case_flag b = 1 then FAT_NAME_LOWER_BASE else 0) \<noteq> 0 then low c else c) (map up b) = b"
    using restore_case [of b b FAT_NAME_LOWER_BASE] f cb by (simp add: fits_83_def)
  have re: "map (\<lambda>c. if (if case_flag e = 1 then FAT_NAME_LOWER_EXT else 0) \<noteq> 0 then low c else c) (map up e) = e"
    using restore_case [of e e FAT_NAME_LOWER_EXT] f ce by (simp add: fits_83_def)
  have ext: "lower_loop bits (bits AND FAT_NAME_LOWER_EXT) (map up e) = e"
    using lower_loop_plain [OF no(2), of bits "bits AND FAT_NAME_LOWER_EXT" "[]"] re unfolding le by simp
  have "lower_loop bits (bits AND FAT_NAME_LOWER_BASE) (map up b @ rest)
      = b @ lower_loop bits (bits AND FAT_NAME_LOWER_BASE) rest" for rest
    using lower_loop_plain [OF no(1), of bits "bits AND FAT_NAME_LOWER_BASE" rest] unfolding lb rb .
  then show ?thesis unfolding fat16_get_short_name_def d assms(5) n using ext by simp
qed


theorem short_name_roundtrip_witness:
  "fat16_make_short_name (str ''readme.TXT'') = Inr (str ''README  TXT'', 8)
   \<and> fat16_get_short_name (str ''README  TXT'' @ [32, 8] @ replicate 19 0) = str ''readme.TXT''"
proof -
  have m: "fat16_make_short_name (str ''readme.TXT'') = Inr (str ''README  TXT'', 8)" by code_simp
  moreover have "fat16_get_short_name (str ''README  TXT'' @ [32, 8] @ replicate 19 0) = str ''readme.TXT''"
    by (rule short_name_roundtrip [OF _ m]) (code_simp+)
  ultimately show ?thesis ..
qed

section \<open>Long names\<close>

lemma byte_at_put16:
  "byte_at (put16 i v bs) j = (if i + 1 = j \<and> j < length bs then ucast (v div 256) else if i = j \<and> j < length bs then ucast v else byte_at bs j)"
  by (auto simp: byte_at_def put16_def nth_list_update)

lemma length_put16 [simp]: "length (put16 i v bs) = length bs"
  by (simp add: put16_def)

lemma u16_bytes: "ucast (ucast v :: u8) + 256 * ucast (ucast (v div 256) :: u8) = (v :: u16)"
proof (rule word_unat_eq_iff [THEN iffD2])
  have v: "unat v < 65536" by (rule unat_u16_less)
  have d: "unat v div 256 < 256" using v by (simp add: less_mult_imp_div_less)
  have "unat (ucast (v div 256) :: u8) = unat v div 256"
    using d by (simp add: unsigned_ucast_eq unat_div take_bit_eq_mod)
  moreover have "unat (ucast v :: u8) = unat v mod 256" by (simp add: unsigned_ucast_eq take_bit_eq_mod)
  moreover have "unat v mod 256 + 256 * (unat v div 256) = unat v" by simp
  ultimately show "unat (ucast (ucast v :: u8) + 256 * ucast (ucast (v div 256) :: u8) :: u16) = unat v"
    using v by (simp add: unat_word_ariths unsigned_ucast_eq take_bit_eq_mod)
qed

lemma get16_put16: "i + 1 < length bs \<Longrightarrow> get16 (put16 i v bs) i = v"
  by (simp add: get16_def byte_at_put16 u16_bytes)

lemma get16_put16_other: "i + 1 < j \<or> j + 1 < i \<Longrightarrow> get16 (put16 i v bs) j = get16 bs j"
  by (auto simp: get16_def byte_at_put16)

lemma lfn_char_apart:
  "i < 13 \<Longrightarrow> j < 13 \<Longrightarrow> i \<noteq> j \<Longrightarrow> fat16_lfn_char i + 1 < fat16_lfn_char j \<or> fat16_lfn_char j + 1 < fat16_lfn_char i"
  by (auto simp: fat16_lfn_char_def)

lemma lfn_char_range: "i < 13 \<Longrightarrow> fat16_lfn_char i + 1 < 32 \<and> fat16_lfn_char i \<notin> {0, 11, 13} \<and> fat16_lfn_char i + 1 \<notin> {0, 11, 13}"
  by (auto simp: fat16_lfn_char_def)

definition put_chars :: "(nat \<Rightarrow> u16) \<Rightarrow> nat list \<Rightarrow> bytes \<Rightarrow> bytes" where
  "put_chars f js e = fold (\<lambda>i e. put16 (fat16_lfn_char i) (f i) e) js e"

lemma put_chars_Cons: "put_chars f (i # js) e = put_chars f js (put16 (fat16_lfn_char i) (f i) e)"
  by (simp add: put_chars_def)

lemma length_put_chars [simp]: "length (put_chars f js e) = length e"
  by (induction js arbitrary: e) (simp_all add: put_chars_Cons put_chars_def [of f "[]"])

lemma byte_at_put_chars:
  "\<forall>i \<in> set js. i < 13 \<Longrightarrow> b \<in> {0, 11, 13} \<Longrightarrow> byte_at (put_chars f js e) b = byte_at e b"
proof (induction js arbitrary: e)
  case (Cons i js)
  have "fat16_lfn_char i \<noteq> b" "fat16_lfn_char i + 1 \<noteq> b" using lfn_char_range [of i] Cons.prems by auto
  then have "byte_at (put16 (fat16_lfn_char i) (f i) e) b = byte_at e b" by (simp add: byte_at_put16)
  then show ?case using Cons by (simp add: put_chars_Cons)
qed (simp add: put_chars_def)

lemma get16_put_chars:
  "\<forall>i \<in> set js. i < 13 \<Longrightarrow> length e = 32 \<Longrightarrow> j < 13 \<Longrightarrow> distinct js \<Longrightarrow>
   get16 (put_chars f js e) (fat16_lfn_char j) = (if j \<in> set js then f j else get16 e (fat16_lfn_char j))"
proof (induction js arbitrary: e)
  case (Cons i js)
  let ?e = "put16 (fat16_lfn_char i) (f i) e"
  have i: "i < 13" using Cons.prems by simp
  have "get16 ?e (fat16_lfn_char j) = (if j = i then f i else get16 e (fat16_lfn_char j))"
    using get16_put16 [of "fat16_lfn_char i" e] get16_put16_other lfn_char_apart [OF i Cons.prems(3)]
      lfn_char_range [OF i] Cons.prems(2) by auto
  then show ?case using Cons.IH [of ?e] Cons.prems by (auto simp: put_chars_Cons)
qed (simp add: put_chars_def)

lemma lfn_entry:
  shows "length (lfn_entry name ck cnt n) = 32"
    "byte_at (lfn_entry name ck cnt n) 0 = of_nat n OR (if n = cnt then FAT_LFN_LAST else 0)"
    "attribute (lfn_entry name ck cnt n) = FAT_FILE_LONG_NAME"
    "lfn_checksum (lfn_entry name ck cnt n) = ck"
    "j < 13 \<Longrightarrow> get16 (lfn_entry name ck cnt n) (fat16_lfn_char j) = lfn_char_of name ((n - 1) * 13 + j)"
proof -
  let ?e = "(replicate 32 0)[0 := of_nat n OR (if n = cnt then FAT_LFN_LAST else 0), 11 := FAT_FILE_LONG_NAME, 13 := ck] :: bytes"
  have e: "lfn_entry name ck cnt n = put_chars (\<lambda>i. lfn_char_of name ((n - 1) * FAT_LFN_CHARS + i)) [0..<FAT_LFN_CHARS] ?e"
    unfolding lfn_entry_def put_chars_def ..
  show "length (lfn_entry name ck cnt n) = 32" by (simp add: e)
  show "byte_at (lfn_entry name ck cnt n) 0 = of_nat n OR (if n = cnt then FAT_LFN_LAST else 0)"
    unfolding e by (subst byte_at_put_chars) (simp_all add: byte_at_def)
  show "attribute (lfn_entry name ck cnt n) = FAT_FILE_LONG_NAME"
    unfolding e attribute_def by (subst byte_at_put_chars) (simp_all add: byte_at_def)
  show "lfn_checksum (lfn_entry name ck cnt n) = ck"
    unfolding e lfn_checksum_def by (subst byte_at_put_chars) (simp_all add: byte_at_def)
  show "j < 13 \<Longrightarrow> get16 (lfn_entry name ck cnt n) (fat16_lfn_char j) = lfn_char_of name ((n - 1) * 13 + j)"
    unfolding e by (subst get16_put_chars) simp_all
qed

lemma valid_long_nameD:
  assumes "fat16_valid_long_name name" "is_cstr name"
  shows "0 < length name" "length name \<le> 63"
    "c \<in> set name \<Longrightarrow> c \<noteq> 0 \<and> (ucast c :: u16) \<noteq> 0 \<and> (ucast c :: u16) \<noteq> 0xFFFF \<and> (ucast c :: u16) < 0x80"
proof -
  show "0 < length name" "length name \<le> 63"
    using assms by (auto simp: fat16_valid_long_name_def Let_def strlen_eq)
  assume "c \<in> set name"
  then have r: "0x20 \<le> sint c" "sint c \<le> 0x7E"
    using assms(1) by (auto simp: fat16_valid_long_name_def Let_def schar_def)
  then have "uint c = sint c" by (simp add: uint_sint take_bit_int_eq_self)
  then have u: "32 \<le> unat c" "unat c \<le> 126" using r by (simp_all add: unat_eq_nat_uint)
  then have "unat (ucast c :: u16) = unat c" by (simp add: unsigned_ucast_eq take_bit_eq_mod)
  then show "c \<noteq> 0 \<and> (ucast c :: u16) \<noteq> 0 \<and> (ucast c :: u16) \<noteq> 0xFFFF \<and> (ucast c :: u16) < 0x80"
    using u by (auto simp: word_less_nat_alt dest: arg_cong [where f = unat])
qed


lemma ucast_u8_u16: "(ucast (ucast c :: u16) :: u8) = c"
  by transfer simp

lemma lfn_chars_plain:
  assumes get: "\<And>j. j < 13 \<Longrightarrow> get16 e (fat16_lfn_char j) = lfn_char_of name (p + j)"
    and name: "fat16_valid_long_name name" "is_cstr name" and max: "length name < max_len"
  shows "j + m = 13 \<Longrightarrow> p + j \<le> length name \<Longrightarrow>
    lfn_chars e [j..<13] max_len (take (p + j) name)
      = (if p + 13 \<le> length name then (take (p + 13) name, False) else (name, True))"
proof (induction m arbitrary: j)
  case 0
  then show ?case by simp
next
  case (Suc m)
  have j: "[j..<13] = j # [Suc j..<13]" using Suc.prems by (simp add: upt_conv_Cons)
  have g: "get16 e (fat16_lfn_char j) = lfn_char_of name (p + j)" by (rule get) (use Suc.prems in simp)
  show ?case
  proof (cases "p + j < length name")
    case True
    have n: "name ! (p + j) \<in> set name" using True by simp
    have t: "take (p + j) name @ [name ! (p + j)] = take (p + Suc j) name"
      using True by (simp add: take_Suc_conv_app_nth)
    have u: "(ucast (ucast (name ! (p + j)) :: u16) :: u8) = name ! (p + j)"
      by (rule ucast_u8_u16)
    have "get16 e (fat16_lfn_char j) = ucast (name ! (p + j))"
      using g True by (simp add: lfn_char_of_def strlen_eq [OF name(2)])
    then have "lfn_chars e [j..<13] max_len (take (p + j) name) = lfn_chars e [Suc j..<13] max_len (take (p + Suc j) name)"
      using valid_long_nameD(3) [OF name n] True max t u by (simp add: j Let_def del: upt_Suc)
    then show ?thesis using Suc.IH [of "Suc j"] Suc.prems True by simp
  next
    case False
    then have "p + j = length name" using Suc.prems by simp
    then have "get16 e (fat16_lfn_char j) = 0" using g by (simp add: lfn_char_of_def strlen_eq [OF name(2)])
    then show ?thesis using \<open>p + j = length name\<close> Suc.prems by (simp add: j Let_def)
  qed
qed

lemma lfn_entries_plain:
  assumes items: "\<And>n. 1 \<le> n \<Longrightarrow> n \<le> cnt \<Longrightarrow> items ! (idx - n) = lfn_entry name ck cnt n"
    and name: "fat16_valid_long_name name" "is_cstr name" and max: "length name < max_len"
    and cnt: "length name \<le> 13 * cnt" "13 * cnt < length name + 13"
  shows "n + m = cnt + 1 \<Longrightarrow> 1 \<le> n \<Longrightarrow> lfn_entries items idx [n..<cnt + 1] max_len (take ((n - 1) * 13) name) = name"
proof (induction m arbitrary: n)
  case 0
  then show ?case using cnt by simp
next
  case (Suc m)
  have n: "[n..<Suc cnt] = n # [Suc n..<Suc cnt]" using Suc.prems by (simp add: upt_conv_Cons del: upt_Suc)
  have nl: "(n - 1) * 13 \<le> length name" using Suc.prems cnt by simp
  have "lfn_chars (items ! (idx - n)) [0..<13] max_len (take ((n - 1) * 13 + 0) name)
      = (if (n - 1) * 13 + 13 \<le> length name then (take ((n - 1) * 13 + 13) name, False) else (name, True))"
    by (rule lfn_chars_plain [OF _ name max, where m = 13]) (use items [of n] lfn_entry(5) Suc.prems nl in auto)
  moreover have "(n - 1) * 13 + 13 = (Suc n - 1) * 13" using Suc.prems by (cases n) simp_all
  ultimately show ?case using Suc.IH [of "Suc n"] Suc.prems by (simp add: n del: upt_Suc)
qed

lemma lfn_seq_bits:
  assumes "1 \<le> n" "n \<le> 5"
  shows "of_nat n OR (if b then FAT_LFN_LAST else 0) \<noteq> FAT_ENTRY_DELETED"
    "unat ((of_nat n OR (if b then FAT_LFN_LAST else 0)) AND FAT_LFN_SEQ_MASK) = n"
    "(of_nat n OR (if b then FAT_LFN_LAST else 0)) AND FAT_LFN_LAST \<noteq> 0 \<longleftrightarrow> b"
proof -
  have "n = 1 \<or> n = 2 \<or> n = 3 \<or> n = 4 \<or> n = 5" using assms by auto
  then show "of_nat n OR (if b then FAT_LFN_LAST else 0) \<noteq> FAT_ENTRY_DELETED"
    "unat ((of_nat n OR (if b then FAT_LFN_LAST else 0)) AND FAT_LFN_SEQ_MASK) = n"
    "(of_nat n OR (if b then FAT_LFN_LAST else 0)) AND FAT_LFN_LAST \<noteq> 0 \<longleftrightarrow> b"
    by (elim disjE; simp)+
qed

lemma lfn_count_loop_plain:
  assumes items: "\<And>n. 1 \<le> n \<Longrightarrow> n \<le> cnt \<Longrightarrow> items ! (idx - n) = lfn_entry name ck cnt n"
    and cnt: "cnt \<le> 5" "cnt \<le> idx"
  shows "1 \<le> n \<Longrightarrow> n \<le> cnt \<Longrightarrow> cnt < n + k \<Longrightarrow> lfn_count_loop items idx ck k n = cnt"
proof (induction k arbitrary: n)
  case (Suc k)
  have "items ! (idx - n) = lfn_entry name ck cnt n" by (rule items) (use Suc.prems in auto)
  moreover have "1 \<le> n" "n \<le> 5" using Suc.prems cnt by auto
  note lfn_seq_bits [OF this, of "n = cnt"]
  ultimately show ?case
    using Suc.IH [of "n + 1"] Suc.prems cnt by (simp add: lfn_entry lfn_seq_def Let_def)
qed simp

lemma lfn_count_for:
  assumes "fat16_valid_long_name name" "is_cstr name"
  shows "length name \<le> 13 * lfn_count_for name" "13 * lfn_count_for name < length name + 13"
    "1 \<le> lfn_count_for name" "lfn_count_for name \<le> 5"
  using valid_long_nameD(1,2) [OF assms]
  by (auto simp: lfn_count_for_def strlen_eq [OF assms(2)] Suc_le_eq div_greater_zero_iff)

lemma make_lfn_nth:
  "1 \<le> n \<Longrightarrow> n \<le> lfn_count_for name \<Longrightarrow>
   make_lfn name ck ! (lfn_count_for name - n) = lfn_entry name ck (lfn_count_for name) n"
  by (simp add: make_lfn_def rev_nth del: upt_Suc)

lemma length_make_lfn [simp]: "length (make_lfn name ck) = lfn_count_for name"
  by (simp add: make_lfn_def)

text \<open>C18. The entries that a long name is stored in, in front of its item, give the name back:
  they are counted right and read back to the characters of the name.\<close>

theorem long_name_roundtrip:
  fixes pre post :: "fat_item_bytes list" and it :: fat_item_bytes
  assumes "fat16_valid_long_name name" "is_cstr name" "length name < max_len"
  defines "items \<equiv> pre @ make_lfn name (fat16_short_name_checksum (short_name it)) @ it # post"
    and "idx \<equiv> length pre + lfn_count_for name"
  shows "fat16_lfn_count items idx = lfn_count_for name \<and> fat16_get_item_name items idx max_len = name"
proof -
  note cnt = lfn_count_for [OF assms(1,2)]
  let ?ck = "fat16_short_name_checksum (short_name it)" and ?cnt = "lfn_count_for name"
  have it: "items ! idx = it" by (simp add: items_def idx_def nth_append)
  have e: "items ! (idx - n) = lfn_entry name ?ck ?cnt n" if "1 \<le> n" "n \<le> ?cnt" for n
  proof -
    have "idx - n = length pre + (?cnt - n)" "?cnt - n < ?cnt" using that by (auto simp: idx_def)
    then show ?thesis using make_lfn_nth [OF that] by (simp add: items_def nth_append)
  qed
  have c: "fat16_lfn_count items idx = ?cnt"
    unfolding fat16_lfn_count_def it
    by (rule lfn_count_loop_plain [OF e]) (use cnt in \<open>auto simp: idx_def\<close>)
  have "lfn_entries items idx [1..<?cnt + 1] max_len (take ((1 - 1) * 13) name) = name"
    by (rule lfn_entries_plain [OF e assms(1,2,3) cnt(1,2), where m = "?cnt"]) auto
  then have "fat16_get_item_name items idx max_len = name"
    using cnt c by (simp add: fat16_get_item_name_def del: upt_Suc)
  then show ?thesis using c by blast
qed

theorem long_name_roundtrip_witness:
  "fat16_get_item_name
     ([] @ make_lfn (str ''a long name.text'') (fat16_short_name_checksum (short_name (str ''ALONGN~1TEX'' @ replicate 21 0)))
      @ (str ''ALONGN~1TEX'' @ replicate 21 0) # []) (0 + lfn_count_for (str ''a long name.text'')) 109
   = str ''a long name.text''
   \<and> length (make_lfn (str ''a long name.text'') 0) = 2"
proof (rule conjI)
  show "fat16_get_item_name
     ([] @ make_lfn (str ''a long name.text'') (fat16_short_name_checksum (short_name (str ''ALONGN~1TEX'' @ replicate 21 0)))
      @ (str ''ALONGN~1TEX'' @ replicate 21 0) # []) (0 + lfn_count_for (str ''a long name.text'')) 109
   = str ''a long name.text''"
    unfolding list.size(3) [symmetric, where 'a = fat_item_bytes]
    by (rule long_name_roundtrip [THEN conjunct2]) (code_simp+)
qed code_simp


section \<open>Aliases\<close>

definition decimal :: "bytes \<Rightarrow> nat" where
  "decimal ds = foldl (\<lambda>a d. 10 * a + (unat d - 48)) 0 ds"

lemma unat_digit: "k < 10 \<Longrightarrow> unat (48 + of_nat k :: u8) = 48 + k"
  by (simp add: unat_word_ariths unat_of_nat take_bit_eq_mod)

definition digits_of :: "nat \<Rightarrow> bytes" where
  "digits_of n = tl (alias_suffix n)"

lemma alias_suffix: "alias_suffix n = 126 # digits_of n"
  by (simp add: alias_suffix_def digits_of_def)

lemma decimal_digits: "n < 1000 \<Longrightarrow> decimal (digits_of n) = n"
proof -
  assume "n < 1000"
  then have d: "n div 100 < 10" "n div 10 mod 10 < 10" "n mod 10 < 10" by (simp_all add: less_mult_imp_div_less)
  have "n div 100 = n div 10 div 10" by (simp add: div_mult2_eq [symmetric])
  then have "100 * (n div 100) + 10 * (n div 10 mod 10) + n mod 10 = n"
    using div_mult_mod_eq [of n 10] div_mult_mod_eq [of "n div 10" 10] by linarith
  then show ?thesis
    using d by (simp add: decimal_def digits_of_def alias_suffix_def unat_digit)
qed

lemma digit_range: "k < 10 \<Longrightarrow> d = 48 + of_nat k \<Longrightarrow> 48 \<le> unat (d :: u8) \<and> unat d \<le> 57"
  by (simp add: unat_digit)

lemma digits_of_range: "n < 1000 \<Longrightarrow> d \<in> set (digits_of n) \<Longrightarrow> 48 \<le> unat d \<and> unat d \<le> 57"
  using digit_range [of "n div 100" d] digit_range [of "n div 10 mod 10" d] digit_range [of "n mod 10" d]
  by (auto simp: digits_of_def alias_suffix_def less_mult_imp_div_less split: if_splits)

lemma length_alias_suffix: "length (alias_suffix n) \<le> 4"
  by (simp add: alias_suffix_def)

definition alias_byte :: "u8 \<Rightarrow> bool" where
  "alias_byte c \<longleftrightarrow> (short_char c \<and> \<not> islower (schar c))"

lemma alias_byte_char: "alias_byte (alias_char c)"
proof (cases "short_char c")
  case True
  have "short_char (up c) \<and> \<not> islower (schar (up c))"
  proof (cases "islower (schar c)")
    case True
    then show ?thesis using schar_up [OF \<open>short_char c\<close>] by (auto simp: short_char_def ctype_defs)
  next
    case False
    then show ?thesis using True by (simp add: up_id)
  qed
  moreover have "alias_char c = up c" using True short_char_code [of c] by (auto simp: alias_char_def up_def)
  ultimately show ?thesis by (simp add: alias_byte_def)
next
  case False
  then have "alias_char c = 95" using short_char_code [of c] by (auto simp: alias_char_def)
  then show ?thesis by (simp add: alias_byte_def short_char_def ctype_defs schar_def allowed_chars_def)
qed

lemma alias_base: "length (alias_base cs n) \<le> n \<and> (\<forall>c \<in> set (alias_base cs n). alias_byte c)"
  by (induction cs n rule: alias_base.induct) (auto simp: alias_byte_char)

lemma alias_ext: "length (alias_ext cs n) \<le> n \<and> (\<forall>c \<in> set (alias_ext cs n). alias_byte c)"
  by (induction cs n rule: alias_ext.induct) (auto simp: alias_byte_char)

lemma alias_byte_digit: "48 \<le> unat d \<and> unat d \<le> 57 \<Longrightarrow> alias_byte d"
proof -
  assume d: "48 \<le> unat d \<and> unat d \<le> 57"
  then have u: "48 \<le> uint d" "uint d \<le> 57" unfolding unat_eq_nat_uint by linarith+
  have "signed_take_bit 7 (uint d) = uint d" by (rule signed_take_bit_int_eq_self) (use u in simp_all)
  then have "schar d = uint d" by (simp add: schar_def sint_uint)
  then have "48 \<le> schar d" "schar d \<le> 57" using u by simp_all
  then have "isalnum (schar d)" "\<not> islower (schar d)" by (simp_all add: ctype_defs)
  then show ?thesis by (simp add: alias_byte_def short_char_def)
qed

lemma alias_byte_suffix: "n < 1000 \<Longrightarrow> c \<in> set (alias_suffix n) \<Longrightarrow> alias_byte c"
  using digits_of_range [of n c] alias_byte_digit [of c]
  by (auto simp: alias_suffix) (simp add: alias_byte_def short_char_def ctype_defs schar_def allowed_chars_def)

text \<open>The base part of an alias, without its padding.\<close>

definition alias_b :: "bytes \<Rightarrow> nat \<Rightarrow> bytes" where
  "alias_b base n = take (min (length base) (8 - length (alias_suffix n))) base @ alias_suffix n"

lemma alias_name: "alias_name base ext n = alias_b base n @ replicate (8 - length (alias_b base n)) 0x20 @ ext @ replicate (3 - length ext) 0x20"
  by (simp add: alias_name_def alias_b_def Let_def min_def)

lemma length_alias_b: "length (alias_b base n) \<le> 8"
  using length_alias_suffix [of n] by (auto simp: alias_b_def)

lemma length_alias_name: "length ext \<le> 3 \<Longrightarrow> length (alias_name base ext n) = 11"
  using length_alias_b [of base n] by (simp add: alias_name)

lemma alias_b_bytes: "n < 1000 \<Longrightarrow> \<forall>c \<in> set base. alias_byte c \<Longrightarrow> \<forall>c \<in> set (alias_b base n). alias_byte c"
  using alias_byte_suffix by (auto simp: alias_b_def dest: in_set_takeD)

lemma alias_byte_not: "alias_byte c \<Longrightarrow> c \<noteq> 0x20 \<and> c \<noteq> 0 \<and> c \<noteq> 0xE5"
  using short_char_ascii [of c] short_char_not [of c] by (auto simp: alias_byte_def schar_def)

text \<open>The number behind the last tilde is the number the alias was made from.\<close>

definition alias_number :: "bytes \<Rightarrow> nat" where
  "alias_number a = decimal (rev (takeWhile (\<lambda>c. c \<noteq> 126) (dropWhile (\<lambda>c. c = 0x20) (rev (take 8 a)))))"

lemma dropWhile_replicate: "(\<And>c. c \<in> set xs \<Longrightarrow> c \<noteq> x) \<Longrightarrow> dropWhile (\<lambda>c. c = x) (replicate n x @ xs) = xs"
  by (induction n) (cases xs; simp)+

lemma alias_number:
  assumes "n < 1000" "\<forall>c \<in> set base. alias_byte c"
  shows "alias_number (alias_name base ext n) = n"
proof -
  let ?b = "alias_b base n"
  have "take 8 (alias_name base ext n) = ?b @ replicate (8 - length ?b) 0x20"
    using length_alias_b [of base n] by (simp add: alias_name)
  moreover have "dropWhile (\<lambda>c. c = 0x20) (replicate (8 - length ?b) 0x20 @ rev ?b) = rev ?b"
    by (rule dropWhile_replicate) (use alias_b_bytes [OF assms] alias_byte_not in auto)
  moreover have "takeWhile (\<lambda>c. c \<noteq> 126) (rev ?b) = rev (digits_of n)"
  proof -
    have "\<forall>c \<in> set (rev (digits_of n)). c \<noteq> 126" using digits_of_range [OF assms(1), of 126] by auto
    then have "takeWhile (\<lambda>c. c \<noteq> 126) (rev (digits_of n) @ 126 # zs) = rev (digits_of n)" for zs
      by (subst takeWhile_append2) auto
    then show ?thesis by (simp add: alias_b_def alias_suffix)
  qed
  ultimately show ?thesis using decimal_digits [OF assms(1)] by (simp add: alias_number_def)
qed

lemma alias_loop:
  "alias_loop items base ext ns = Inr a \<Longrightarrow> \<exists>n \<in> set ns. a = alias_name base ext n \<and> \<not> fat16_short_name_taken items a"
  "alias_loop items base ext ns = Inl e \<Longrightarrow> e = FILE_EXISTS_ERROR \<and> (\<forall>n \<in> set ns. fat16_short_name_taken items (alias_name base ext n))"
  by (induction ns) (auto split: if_splits)


definition live_item :: "fat_item_bytes \<Rightarrow> bool" where
  "live_item it \<longleftrightarrow> byte_at it 0 \<noteq> FAT_ENTRY_DELETED \<and> attribute it \<noteq> FAT_FILE_LONG_NAME"

lemma taken_iff: "fat16_short_name_taken items a \<longleftrightarrow> (\<exists>it \<in> set (filter live_item items). short_name it = take 11 a)"
  by (auto simp: fat16_short_name_taken_def live_item_def)

lemma all_aliases_taken:
  assumes base: "\<forall>c \<in> set base. alias_byte c" and ext: "length ext \<le> 3"
    and t: "\<forall>n \<in> set [1..<1000]. fat16_short_name_taken items (alias_name base ext n)"
  shows "999 \<le> length (filter live_item items)"
proof -
  have "{1..<1000} \<subseteq> (\<lambda>it. alias_number (short_name it)) ` set (filter live_item items)"
  proof
    fix n :: nat assume n: "n \<in> {1..<1000}"
    then obtain it where it: "it \<in> set (filter live_item items)" "short_name it = take 11 (alias_name base ext n)"
      using t unfolding taken_iff by fastforce
    have "short_name it = alias_name base ext n" using it(2) length_alias_name [OF ext] by simp
    moreover have "alias_number (alias_name base ext n) = n" by (rule alias_number) (use n base in auto)
    ultimately show "n \<in> (\<lambda>it. alias_number (short_name it)) ` set (filter live_item items)"
      using it(1) by (metis imageI)
  qed
  then have "card {1..<1000 :: nat} \<le> card ((\<lambda>it. alias_number (short_name it)) ` set (filter live_item items))"
    by (rule card_mono [OF finite_imageI [OF finite_set]])
  also have "\<dots> \<le> card (set (filter live_item items))" by (rule card_image_le) simp
  also have "\<dots> \<le> length (filter live_item items)" by (rule card_length)
  finally show ?thesis by simp
qed

lemma alias_name_bytes:
  assumes "n < 1000" "\<forall>c \<in> set base. alias_byte c" "\<forall>c \<in> set ext. alias_byte c" "length ext \<le> 3"
  shows "\<forall>c \<in> set (alias_name base ext n). alias_byte c \<or> c = 0x20" "alias_byte (hd (alias_name base ext n))"
proof -
  have b: "\<forall>c \<in> set (alias_b base n). alias_byte c" by (rule alias_b_bytes [OF assms(1,2)])
  then show "\<forall>c \<in> set (alias_name base ext n). alias_byte c \<or> c = 0x20"
    using assms(3) by (auto simp: alias_name)
  have "alias_b base n \<noteq> []" by (simp add: alias_b_def alias_suffix)
  then have "hd (alias_b base n) \<in> set (alias_b base n)" "hd (alias_name base ext n) = hd (alias_b base n)"
    by (simp_all add: alias_name)
  then show "alias_byte (hd (alias_name base ext n))" using b by simp
qed

text \<open>C19. The alias made for a long name is an 8.3 name that no item of the directory has; it starts
  with a character a live item starts with. Making one fails only in a directory with at least 999
  items, because the aliases of the 999 numbers differ.\<close>

theorem make_alias_result:
  "case fat16_make_alias items name of
     Inr a \<Rightarrow> \<not> fat16_short_name_taken items a \<and> length a = 11
       \<and> (\<forall>c \<in> set a. alias_byte c \<or> c = 0x20) \<and> hd a \<noteq> 0x20 \<and> hd a \<noteq> FAT_ENTRY_END \<and> hd a \<noteq> FAT_ENTRY_DELETED
   | Inl e \<Rightarrow> e = FILE_EXISTS_ERROR \<and> 999 \<le> length (filter live_item items)"
proof -
  define d where "d = (if last_dot name 0 None = Some 0 then None else last_dot name 0 None)"
  define base0 where "base0 = alias_base (case d of Some k \<Rightarrow> take k name | None \<Rightarrow> name) 8"
  define base where "base = (if base0 = [] then [95] else base0)"
  define ext where "ext = (case d of Some k \<Rightarrow> alias_ext (drop (k + 1) name) 3 | None \<Rightarrow> [])"
  have m: "fat16_make_alias items name = alias_loop items base ext [1..<1000]"
    by (simp add: fat16_make_alias_def Let_def d_def base0_def base_def ext_def)
  have "alias_byte 95" using alias_byte_char [of 46] by code_simp
  then have b: "\<forall>c \<in> set base. alias_byte c" using alias_base by (auto simp: base_def base0_def)
  have e: "\<forall>c \<in> set ext. alias_byte c" "length ext \<le> 3" using alias_ext by (auto simp: ext_def split: option.split)
  show ?thesis
  proof (cases "alias_loop items base ext [1..<1000]")
    case (Inl x)
    show ?thesis unfolding m Inl sum.case using alias_loop(2) [OF Inl] all_aliases_taken [OF b e(2)] by blast
  next
    case (Inr a)
    then obtain n where n: "n < 1000" "a = alias_name base ext n" "\<not> fat16_short_name_taken items a"
      using alias_loop(1) [OF Inr] by auto
    show ?thesis unfolding m Inr sum.case
      using n length_alias_name [OF e(2)] alias_name_bytes [OF n(1) b e] alias_byte_not by blast
  qed
qed

theorem make_alias_result_witness:
  "case fat16_make_alias [] (str ''a long name.text'') of Inr a \<Rightarrow> length a = 11 \<and> hd a \<noteq> FAT_ENTRY_DELETED | Inl e \<Rightarrow> False"
  using make_alias_result [of "[]" "str ''a long name.text''"]
  by (cases "fat16_make_alias [] (str ''a long name.text'')") simp_all

end
