(* ===== verification/DiskStream.thy ===== *)
theory DiskStream
  imports FatName "HOL-Library.Signed_Division"
begin

text \<open>
  The disk and its streams: \<^verbatim>\<open>src/drivers/disk/disk.c\<close> and \<^verbatim>\<open>disk_stream.c\<close>.

  A drive is a function from byte addresses to bytes. The program drives the master disk with 28-bit
  sector numbers: the bits 24 to 27 of a number go into the low half of the drive register, bit 28 would
  select the second drive, which the model does not have (\<open>None\<close>), and the bits above are lost in the
  \<^verbatim>\<open>0xE0\<close> they are combined with. Apart from that \<^verbatim>\<open>disk_read\<close> and \<^verbatim>\<open>disk_write\<close> wait for the drive and
  always return \<^verbatim>\<open>OK\<close>, so the error branches of their callers are dead and left out.

  The position of a stream is a C \<^verbatim>\<open>int32_t\<close>: its 32 bits, read as a signed number and divided the way C
  does. A position that is negative and not at the start of a sector gives a negative index into the
  local buffer; there the code has no defined behaviour and the model has no result (\<open>None\<close>).
\<close>

section \<open>Slices of a function\<close>

definition slice :: "(nat \<Rightarrow> 'a) \<Rightarrow> nat \<Rightarrow> nat \<Rightarrow> 'a list" where
  "slice f p n = map f [p..<p + n]"

definition overwrite :: "(nat \<Rightarrow> 'a) \<Rightarrow> nat \<Rightarrow> 'a list \<Rightarrow> nat \<Rightarrow> 'a" where
  "overwrite f p bs = (\<lambda>i. if p \<le> i \<and> i < p + length bs then bs ! (i - p) else f i)"

section \<open>The drive\<close>

abbreviation (input) SECTOR_SIZE :: nat where "SECTOR_SIZE \<equiv> 512"

record disk =
  image :: "nat \<Rightarrow> u8"
  lba_offset :: u32

definition drive_lba :: "u32 \<Rightarrow> nat option" where
  "drive_lba lba = (if bit lba 28 then None else Some (unat (lba AND 0x0FFFFFFF)))"

definition disk_read :: "disk \<Rightarrow> u32 \<Rightarrow> nat \<Rightarrow> bytes option" where
  "disk_read d lba blocks =
    map_option (\<lambda>n. slice (image d) (SECTOR_SIZE * n) (SECTOR_SIZE * blocks)) (drive_lba lba)"

definition disk_write :: "u32 \<Rightarrow> bytes \<Rightarrow> disk \<Rightarrow> disk option" where
  "disk_write lba bs d =
    map_option (\<lambda>n. d\<lparr>image := overwrite (image d) (SECTOR_SIZE * n) bs\<rparr>) (drive_lba lba)"

definition disk_read_block :: "disk \<Rightarrow> u32 \<Rightarrow> nat \<Rightarrow> bytes option" where
  "disk_read_block d lba blocks = disk_read d (lba_offset d + lba) blocks"

definition disk_write_block :: "u32 \<Rightarrow> bytes \<Rightarrow> disk \<Rightarrow> disk option" where
  "disk_write_block lba bs d = disk_write (lba_offset d + lba) bs d"

text \<open>The partition table: entry \<open>i\<close> has its status at byte 0, its type at 4 and its first sector at 8.\<close>

fun mbr_loop :: "bytes \<Rightarrow> nat list \<Rightarrow> u32" where
  "mbr_loop sector [] = 0"
| "mbr_loop sector (i # is) =
    (let e = drop (0x1BE + 16 * i) sector; status = byte_at e 0; type = byte_at e 4; lba_first = get32 e 8
     in if (status = 0x00 \<or> status = 0x80) \<and> (type = 0x04 \<or> type = 0x06 \<or> type = 0x0E) \<and> lba_first > 0
        then lba_first else mbr_loop sector is)"

definition disk_find_fat_partition :: "disk \<Rightarrow> u32" where
  "disk_find_fat_partition d =
    (case disk_read d 0 1 of
       None \<Rightarrow> 0
     | Some sector \<Rightarrow>
         if byte_at sector 0x1FE \<noteq> 0x55 \<or> byte_at sector 0x1FF \<noteq> 0xAA then 0
         else mbr_loop sector [0..<4])"

definition init_main_master_disk :: "disk \<Rightarrow> disk" where
  "init_main_master_disk d = d\<lparr>lba_offset := disk_find_fat_partition d\<rparr>"

section \<open>Streams\<close>

lemma smod_sector: "sint (pos :: u32) smod 512 < 512"
  using smod_int_compares [of "sint pos" 512] by (cases "0 \<le> sint pos") auto

function disk_stream_read :: "disk \<Rightarrow> u32 \<Rightarrow> nat \<Rightarrow> (bytes \<times> u32) option" where
  "disk_stream_read d pos len =
    (if len = 0 then Some ([], pos)
     else (let sector_idx = word_of_int (sint pos sdiv 512); offset_idx = sint pos smod 512
          in if offset_idx < 0 then None
             else (case disk_read_block d sector_idx 1 of
                    None \<Rightarrow> None
                  | Some local_buffer \<Rightarrow>
                      let offset_idx = nat offset_idx;
                          total = (if SECTOR_SIZE - offset_idx > len then len else SECTOR_SIZE - offset_idx)
                      in map_option (\<lambda>(out, pos'). (take total (drop offset_idx local_buffer) @ out, pos'))
                           (disk_stream_read d (pos + of_nat total) (len - total)))))"
  by pat_completeness auto
termination
  using smod_sector by (relation "measure (\<lambda>(d, pos, len). len)") (auto simp: Let_def nat_less_iff)

function disk_stream_write :: "u32 \<Rightarrow> bytes \<Rightarrow> disk \<Rightarrow> (disk \<times> u32) option" where
  "disk_stream_write pos bs d =
    (if bs = [] then Some (d, pos)
     else let sector_idx = word_of_int (sint pos sdiv 512); offset_idx = sint pos smod 512
          in if offset_idx < 0 then None
             else let offset_idx = nat offset_idx;
                      total = (if SECTOR_SIZE - offset_idx > length bs then length bs else SECTOR_SIZE - offset_idx)
                  in (case (if total \<noteq> SECTOR_SIZE then disk_read_block d sector_idx 1
                            else Some (replicate SECTOR_SIZE 0)) of
                        None \<Rightarrow> None
                      | Some local_buffer \<Rightarrow>
                          let local_buffer = take offset_idx local_buffer @ take total bs @ drop (offset_idx + total) local_buffer
                          in (case disk_write_block sector_idx local_buffer d of
                                None \<Rightarrow> None
                              | Some d \<Rightarrow> disk_stream_write (pos + of_nat total) (drop total bs) d)))"
  by pat_completeness auto
termination
  using smod_sector by (relation "measure (\<lambda>(pos, bs, d). length bs)") (auto simp: Let_def nat_less_iff)

declare disk_stream_read.simps [simp del] disk_stream_write.simps [simp del]

section \<open>What a stream does\<close>

lemma length_slice [simp]: "length (slice f p n) = n"
  by (simp add: slice_def)

lemma slice_nth: "i < n \<Longrightarrow> slice f p n ! i = f (p + i)"
  by (simp add: slice_def)

lemma slice_append: "slice f p m @ slice f (p + m) n = slice f p (m + n)"
  by (rule nth_equalityI) (auto simp: slice_nth nth_append)

lemma slice_sub: "a + m \<le> n \<Longrightarrow> take m (drop a (slice f p n)) = slice f (p + a) m"
  by (rule nth_equalityI) (auto simp: slice_nth ac_simps)

lemma slice_cong: "(\<And>i. p \<le> i \<Longrightarrow> i < p + n \<Longrightarrow> f i = g i) \<Longrightarrow> slice f p n = slice g p n"
  by (simp add: slice_def)

lemma overwrite_Nil [simp]: "overwrite f p [] = f"
  by (rule ext) (auto simp: overwrite_def)

lemma overwrite_append: "overwrite (overwrite f p bs) (p + length bs) cs = overwrite f p (bs @ cs)"
  by (rule ext) (auto simp: overwrite_def nth_append)

lemma overwrite_outside: "i < p \<or> p + length bs \<le> i \<Longrightarrow> overwrite f p bs i = f i"
  by (auto simp: overwrite_def)

lemma slice_overwrite_same: "slice (overwrite f p bs) p (length bs) = bs"
  by (rule nth_equalityI) (simp_all add: slice_nth overwrite_def)

lemma slice_overwrite_other:
  "q + n \<le> p \<or> p + length bs \<le> q \<Longrightarrow> slice (overwrite f p bs) q n = slice f q n"
  by (rule slice_cong) (auto simp: overwrite_outside)

lemma slice_overwrite_inner:
  assumes "q \<le> p" "p + length bs \<le> q + n"
  shows "slice (overwrite f p bs) q n = take (p - q) (slice f q n) @ bs @ drop (p - q + length bs) (slice f q n)"
  using assms by (intro nth_equalityI) (auto simp: slice_nth overwrite_def nth_append add.commute)

lemma overwrite_window:
  assumes "w = take a (slice f p n) @ bs @ drop (a + length bs) (slice f p n)" "a + length bs \<le> n"
  shows "overwrite f p w = overwrite f (p + a) bs"
proof
  fix i
  have "length w = n" using assms by simp
  then show "overwrite f p w i = overwrite f (p + a) bs i"
    using assms by (auto simp: overwrite_def nth_append slice_nth)
qed

text \<open>The bytes of the partition. It is \<open>disk_ok\<close> when every sector a position can name, below \<open>2 ^ 31\<close>,
  is one of the master disk.\<close>

definition part :: "disk \<Rightarrow> nat \<Rightarrow> u8" where
  "part d i = image d (SECTOR_SIZE * unat (lba_offset d) + i)"

definition disk_ok :: "disk \<Rightarrow> bool" where
  "disk_ok d \<longleftrightarrow> unat (lba_offset d) + 2 ^ 22 \<le> 2 ^ 28"

lemma slice_part: "slice (part d) p n = slice (image d) (SECTOR_SIZE * unat (lba_offset d) + p) n"
  by (rule nth_equalityI) (simp_all add: slice_nth part_def add.assoc)

lemma sint_position:
  assumes "unat (n :: u32) < 2 ^ 31"
  shows "sint n = int (unat n)"
proof -
  have "uint n = int (unat n)" by simp
  also have "\<dots> < int (2 ^ 31)" using assms by (rule iffD2 [OF of_nat_less_iff])
  finally have "signed_take_bit 31 (uint n) = uint n"
    by (intro signed_take_bit_int_eq_self) (auto intro: order.trans [OF _ unsigned_greater_eq])
  then show ?thesis unfolding sint_uint by simp
qed

lemma drive_lba_small: "unat lba < 2 ^ 28 \<Longrightarrow> drive_lba lba = Some (unat lba)"
proof -
  assume l: "unat lba < 2 ^ 28"
  have "take_bit 28 (unat lba) = unat lba" using l by (simp add: take_bit_nat_eq_self)
  then have "take_bit 28 lba = lba" by (simp add: unsigned_take_bit_eq word_unat_eq_iff)
  moreover have "\<not> bit (take_bit 28 lba) 28" by (simp add: bit_take_bit_iff)
  moreover have "lba AND 0x0FFFFFFF = take_bit 28 lba" by (simp add: take_bit_eq_mask mask_eq_exp_minus_1)
  ultimately show ?thesis by (simp add: drive_lba_def)
qed

text \<open>A position with its sign bit clear.\<close>

lemma position:
  assumes "unat (pos :: u32) < 2 ^ 31"
  shows "sint pos sdiv 512 = int (unat pos div 512)" "sint pos smod 512 = int (unat pos mod 512)"
proof -
  have "int n sdiv 512 = int (n div 512)" "int n smod 512 = int (n mod 512)" for n
    by (cases "n = 0"; simp add: signed_divide_int_def signed_modulo_int_def zdiv_int zmod_int)+
  then show "sint pos sdiv 512 = int (unat pos div 512)" "sint pos smod 512 = int (unat pos mod 512)"
    unfolding sint_position [OF assms] by blast+
qed

lemma sector_lba:
  assumes "disk_ok d" "unat (pos :: u32) < 2 ^ 31"
  shows "drive_lba (lba_offset d + word_of_int (sint pos sdiv 512)) = Some (unat (lba_offset d) + unat pos div 512)"
proof -
  have q: "unat pos div 512 < 2 ^ 22" using assms(2) by (simp add: less_mult_imp_div_less)
  then have "unat (word_of_int (sint pos sdiv 512) :: u32) = unat pos div 512"
    by (simp add: position [OF assms(2)] unat_of_nat take_bit_nat_eq_self)
  then have "unat (lba_offset d + word_of_int (sint pos sdiv 512)) = unat (lba_offset d) + unat pos div 512"
    using assms(1) q by (simp add: disk_ok_def unat_add_lem [THEN iffD1])
  then show ?thesis using drive_lba_small [of "lba_offset d + word_of_int (sint pos sdiv 512)"] assms(1) q
    by (simp add: disk_ok_def)
qed

lemma disk_read_block_slice:
  assumes "disk_ok d" "unat (pos :: u32) < 2 ^ 31"
  shows "disk_read_block d (word_of_int (sint pos sdiv 512)) 1 = Some (slice (part d) (512 * (unat pos div 512)) 512)"
  by (simp add: disk_read_block_def disk_read_def slice_part sector_lba [OF assms] algebra_simps)

lemma unat_advance: "unat (pos :: u32) + n < 2 ^ 32 \<Longrightarrow> unat (pos + of_nat n) = unat pos + n"
  by (simp add: unat_word_ariths unat_of_nat take_bit_eq_mod)

text \<open>The end of a stream access is at most where the sign bit of the position begins.\<close>

lemma disk_stream_read:
  "disk_ok d \<Longrightarrow> unat pos + len \<le> 2 ^ 31 \<Longrightarrow>
   disk_stream_read d pos len = Some (slice (part d) (unat pos) len, pos + of_nat len)"
proof (induction len arbitrary: pos rule: less_induct)
  case (less len)
  show ?case
  proof (cases "len = 0")
    case False
    define off where "off = unat pos mod 512"
    define total where "total = (if SECTOR_SIZE - off > len then len else SECTOR_SIZE - off)"
    have t: "0 < total" "total \<le> len" "off + total \<le> 512" using False by (auto simp: total_def off_def)
    have pl: "unat pos < 2 ^ 31" using less.prems False by simp
    have p: "unat (pos + of_nat total) = unat pos + total" by (rule unat_advance) (use less.prems t in simp)
    have "512 * (unat pos div 512) + off = unat pos" by (simp add: off_def)
    then have b: "take total (drop off (slice (part d) (512 * (unat pos div 512)) 512)) = slice (part d) (unat pos) total"
      using slice_sub [OF t(3), of "part d" "512 * (unat pos div 512)"] by simp
    have ih: "disk_stream_read d (pos + of_nat total) (len - total)
        = Some (slice (part d) (unat pos + total) (len - total), pos + of_nat total + of_nat (len - total))"
      using less.IH [of "len - total" "pos + of_nat total"] less.prems p t by simp
    have "slice (part d) (unat pos) total @ slice (part d) (unat pos + total) (len - total) = slice (part d) (unat pos) len"
      using t by (simp add: slice_append)
    moreover have "pos + of_nat total + of_nat (len - total) = pos + of_nat len"
      using t by (simp add: add.assoc flip: of_nat_add)
    moreover have "disk_stream_read d pos len
        = map_option (\<lambda>(out, p'). (take total (drop off (slice (part d) (512 * (unat pos div 512)) 512)) @ out, p'))
            (disk_stream_read d (pos + of_nat total) (len - total))"
      using False
      by (subst disk_stream_read.simps)
        (simp only: if_False Let_def position(2) [OF pl] off_def [symmetric] nat_int total_def [symmetric]
          of_nat_less_0_iff disk_read_block_slice [OF less.prems(1) pl] option.case)
    ultimately show ?thesis unfolding ih b by simp
  qed (simp add: disk_stream_read.simps slice_def)
qed

definition put_sectors :: "nat \<Rightarrow> bytes \<Rightarrow> disk \<Rightarrow> disk" where
  "put_sectors p bs d = d\<lparr>image := overwrite (image d) (SECTOR_SIZE * unat (lba_offset d) + p) bs\<rparr>"

lemma disk_write_block_sectors:
  assumes "disk_ok d" "unat (pos :: u32) < 2 ^ 31"
  shows "disk_write_block (word_of_int (sint pos sdiv 512)) bs d = Some (put_sectors (512 * (unat pos div 512)) bs d)"
  by (simp add: disk_write_block_def disk_write_def put_sectors_def sector_lba [OF assms] algebra_simps)

lemma put_sectors [simp]:
  "lba_offset (put_sectors p bs d) = lba_offset d" "disk_ok (put_sectors p bs d) = disk_ok d"
  "part (put_sectors p bs d) = overwrite (part d) p bs"
  "i < SECTOR_SIZE * unat (lba_offset d) \<Longrightarrow> image (put_sectors p bs d) i = image d i"
  by (auto simp: put_sectors_def disk_ok_def part_def overwrite_def)

lemma disk_stream_write:
  "disk_ok d \<Longrightarrow> unat pos + length bs \<le> 2 ^ 31 \<Longrightarrow>
   \<exists>d'. disk_stream_write pos bs d = Some (d', pos + of_nat (length bs))
     \<and> part d' = overwrite (part d) (unat pos) bs \<and> lba_offset d' = lba_offset d
     \<and> (\<forall>i < SECTOR_SIZE * unat (lba_offset d). image d' i = image d i)"
proof (induction "length bs" arbitrary: bs pos d rule: less_induct)
  case less
  show ?case
  proof (cases "bs = []")
    case False
    define off where "off = unat pos mod 512"
    define total where "total = (if SECTOR_SIZE - off > length bs then length bs else SECTOR_SIZE - off)"
    define buf0 where "buf0 = (if total \<noteq> SECTOR_SIZE then slice (part d) (512 * (unat pos div 512)) 512 else replicate SECTOR_SIZE 0)"
    define buf where "buf = take off buf0 @ take total bs @ drop (off + total) buf0"
    define d1 where "d1 = put_sectors (512 * (unat pos div 512)) buf d"
    have t: "0 < total" "total \<le> length bs" "off + total \<le> 512" using False by (auto simp: total_def off_def)
    have "0 < length bs" using False by simp
    then have pl: "unat pos < 2 ^ 31" using less.prems(2) by linarith
    have p: "unat (pos + of_nat total) = unat pos + total" by (rule unat_advance) (use less.prems t in simp)
    have pos: "512 * (unat pos div 512) + off = unat pos" by (simp add: off_def)
    have buf: "buf = take off (slice (part d) (512 * (unat pos div 512)) 512) @ take total bs
        @ drop (off + length (take total bs)) (slice (part d) (512 * (unat pos div 512)) 512)"
      using t by (auto simp: buf_def buf0_def)
    have "part d1 = overwrite (part d) (512 * (unat pos div 512)) buf" by (simp add: d1_def)
    also have "\<dots> = overwrite (part d) (512 * (unat pos div 512) + off) (take total bs)"
      by (rule overwrite_window [OF buf]) (use t in simp)
    finally have d1: "part d1 = overwrite (part d) (unat pos) (take total bs)" unfolding pos .
    have b0: "(if total \<noteq> SECTOR_SIZE then Some (slice (part d) (512 * (unat pos div 512)) 512)
        else Some (replicate SECTOR_SIZE 0)) = Some buf0" by (simp add: buf0_def)
    have w: "disk_stream_write pos bs d = disk_stream_write (pos + of_nat total) (drop total bs) d1"
      using False
      by (subst disk_stream_write.simps)
        (simp only: if_False Let_def position(2) [OF pl] off_def [symmetric] nat_int total_def [symmetric] of_nat_less_0_iff
          disk_read_block_slice [OF less.prems(1) pl] b0 option.case buf_def [symmetric]
          disk_write_block_sectors [OF less.prems(1) pl] d1_def [symmetric])
    have sh: "length (drop total bs) < length bs" using t by simp
    have l: "disk_ok d1" "unat (pos + of_nat total) + length (drop total bs) \<le> 2 ^ 31"
      using less.prems p t by (simp_all add: d1_def)
    obtain d' where r: "disk_stream_write (pos + of_nat total) (drop total bs) d1
          = Some (d', pos + of_nat total + of_nat (length (drop total bs)))"
        "part d' = overwrite (part d1) (unat pos + total) (drop total bs)" "lba_offset d' = lba_offset d1"
        "\<forall>i < SECTOR_SIZE * unat (lba_offset d1). image d' i = image d1 i"
      using less.hyps [OF sh l] unfolding p by blast
    have "length (take total bs) = total" using t by simp
    then have "part d' = overwrite (part d) (unat pos) (take total bs @ drop total bs)"
      using r d1 overwrite_append [of "part d" "unat pos" "take total bs" "drop total bs"] by simp
    moreover have "pos + of_nat total + of_nat (length (drop total bs)) = pos + of_nat (length bs)"
      using t by (simp add: add.assoc flip: of_nat_add)
    moreover have "image d1 i = image d i" if "i < SECTOR_SIZE * unat (lba_offset d)" for i
      using that by (simp add: d1_def)
    ultimately show ?thesis using r by (simp add: d1_def w)
  qed (simp add: disk_stream_write.simps)
qed

text \<open>C20. A write through a stream returns, and replaces exactly its bytes, whatever sectors it crosses: a later
  read returns them, every other byte of the partition and everything in front of the partition is unchanged.
  The position and the end of the access are those a C \<^verbatim>\<open>int32_t\<close> holds without a sign, on a partition whose sectors
  have 28-bit numbers.\<close>

theorem disk_stream_write_read:
  assumes "disk_ok d" "unat pos + length bs \<le> 2 ^ 31"
  shows "\<exists>d'. disk_stream_write pos bs d = Some (d', pos + of_nat (length bs))
    \<and> disk_stream_read d' pos (length bs) = Some (bs, pos + of_nat (length bs))
    \<and> (\<forall>q n. unat q + n \<le> 2 ^ 31 \<longrightarrow> unat q + n \<le> unat pos \<or> unat pos + length bs \<le> unat q
         \<longrightarrow> disk_stream_read d' q n = disk_stream_read d q n)
    \<and> (\<forall>i < SECTOR_SIZE * unat (lba_offset d). image d' i = image d i)"
proof -
  obtain d' where w: "disk_stream_write pos bs d = Some (d', pos + of_nat (length bs))"
      "part d' = overwrite (part d) (unat pos) bs" "lba_offset d' = lba_offset d"
      "\<forall>i < SECTOR_SIZE * unat (lba_offset d). image d' i = image d i"
    using disk_stream_write [OF assms] by blast
  have ok: "disk_ok d'" using w(3) assms(1) by (simp add: disk_ok_def)
  show ?thesis
    using w disk_stream_read [OF ok] disk_stream_read [OF assms(1)] assms(2)
    by (intro exI [of _ d']) (auto simp: slice_overwrite_same slice_overwrite_other)
qed

theorem disk_stream_write_read_witness:
  "\<exists>d'. disk_stream_write 510 [1, 2, 3, 4] \<lparr>image = (\<lambda>_. 0), lba_offset = 63\<rparr>
       = Some (d', 510 + of_nat (length [1, 2, 3, 4 :: u8]))
     \<and> disk_stream_read d' 510 (length [1, 2, 3, 4 :: u8]) = Some ([1, 2, 3, 4], 510 + of_nat (length [1, 2, 3, 4 :: u8]))"
proof -
  have "disk_ok \<lparr>image = (\<lambda>_. 0), lba_offset = 63\<rparr>" "unat (510 :: u32) + length [1, 2, 3, 4 :: u8] \<le> 2 ^ 31"
    by (simp_all add: disk_ok_def)
  from disk_stream_write_read [OF this] show ?thesis by blast
qed

section \<open>Accesses of the file system\<close>

text \<open>The file system reads and writes through a stream it seeks first. The volumes of the theorems keep its positions
  where a stream access returns; where it does not, these read zeros and write nothing.\<close>

definition read_at :: "disk \<Rightarrow> u32 \<Rightarrow> nat \<Rightarrow> bytes \<times> u32" where
  "read_at d pos len =
    (case disk_stream_read d pos len of Some r \<Rightarrow> r | None \<Rightarrow> (replicate len 0, pos + of_nat len))"

definition write_at :: "u32 \<Rightarrow> bytes \<Rightarrow> disk \<Rightarrow> disk" where
  "write_at pos bs d = (case disk_stream_write pos bs d of Some (d', _) \<Rightarrow> d' | None \<Rightarrow> d)"

lemma read_at: "disk_ok d \<Longrightarrow> unat pos + len \<le> 2 ^ 31 \<Longrightarrow>
   read_at d pos len = (slice (part d) (unat pos) len, pos + of_nat len)"
  by (simp add: read_at_def disk_stream_read)

lemma write_at:
  assumes "disk_ok d" "unat pos + length bs \<le> 2 ^ 31"
  shows "part (write_at pos bs d) = overwrite (part d) (unat pos) bs"
    "lba_offset (write_at pos bs d) = lba_offset d"
  using disk_stream_write [OF assms] by (auto simp: write_at_def)

end
