(* ===== verification/FatTable.thy ===== *)
theory FatTable
  imports DiskStream
begin

text \<open>
  The mounted volume of \<^verbatim>\<open>src/file_system/fat/fat16.c\<close>, its allocation table and its cluster chains.

  \<open>fat_fs\<close> is \<^verbatim>\<open>struct fat_private\<close> with the disk it is mounted from. Sectors and byte positions are 32-bit
  words, as in the code; \<open>fs_ok\<close> says when they do not wrap. A zero cluster size, which divides by zero in
  the code, ends the loops of the model.
\<close>

section \<open>The volume\<close>

record fat_header =
  sectors_per_cluster :: u8
  reserved_sectors :: u16
  fat_copies :: u8
  root_dir_entries :: u16
  number_of_sectors :: u16
  sectors_per_fat :: u16
  sectors_big :: u32
  signature :: u8

record fat_fs =
  fs_disk :: disk
  header :: fat_header
  root_item :: "fat_item_bytes list"
  root_total :: nat
  root_sector_pos :: nat
  root_ending_sector_pos :: nat
  next_free_cluster :: u32
  fat :: "u16 list"

abbreviation (input) FAT16_SIGNATURE :: u8 where "FAT16_SIGNATURE \<equiv> 0x29"
abbreviation (input) FAT16_BAD_SECTOR :: u32 where "FAT16_BAD_SECTOR \<equiv> 0xFFF7"
abbreviation (input) FAT16_UNUSED :: u32 where "FAT16_UNUSED \<equiv> 0x00"
abbreviation (input) FAT16_END_OF_CHAIN :: u32 where "FAT16_END_OF_CHAIN \<equiv> 0xFFF8"
abbreviation (input) FAT16_RESERVED_START :: u32 where "FAT16_RESERVED_START \<equiv> 0xFFF0"
abbreviation (input) FAT16_RESERVED_END :: u32 where "FAT16_RESERVED_END \<equiv> 0xFFF6"

definition fat16_sector_to_absolute :: "u32 \<Rightarrow> u32" where
  "fat16_sector_to_absolute sector = sector * 512"

text \<open>A write at a position, through one of the streams of the volume.\<close>

definition stream_write :: "u32 \<Rightarrow> bytes \<Rightarrow> fat_fs \<Rightarrow> fat_fs" where
  "stream_write pos bs fs = fs\<lparr>fs_disk := write_at pos bs (fs_disk fs)\<rparr>"

definition stream_read :: "u32 \<Rightarrow> nat \<Rightarrow> fat_fs \<Rightarrow> bytes" where
  "stream_read pos len fs = fst (read_at (fs_disk fs) pos len)"

definition fat16_cluster_to_sector :: "fat_fs \<Rightarrow> u32 \<Rightarrow> u32" where
  "fat16_cluster_to_sector fs cluster =
    of_nat (root_ending_sector_pos fs) + (cluster - 2) * ucast (sectors_per_cluster (header fs))"

definition fat16_get_first_fat_sector :: "fat_fs \<Rightarrow> u32" where
  "fat16_get_first_fat_sector fs = ucast (reserved_sectors (header fs))"

definition fat16_cluster_bytes :: "fat_fs \<Rightarrow> nat" where
  "fat16_cluster_bytes fs = unat (sectors_per_cluster (header fs)) * SECTOR_SIZE"

definition fat16_cluster_limit :: "fat_fs \<Rightarrow> u32" where
  "fat16_cluster_limit fs =
    (let sectors = (if number_of_sectors (header fs) \<noteq> 0 then ucast (number_of_sectors (header fs))
                    else sectors_big (header fs))
     in (sectors - of_nat (root_ending_sector_pos fs)) div ucast (sectors_per_cluster (header fs)) + 2)"

section \<open>Entries of the table\<close>

text \<open>The cluster is an \<^verbatim>\<open>int\<close> here, and the result is at most 0xFFFF and never negative.\<close>

definition fat16_get_fat_entry :: "fat_fs \<Rightarrow> u32 \<Rightarrow> u32" where
  "fat16_get_fat_entry fs cluster =
    (if 0 \<le> sint cluster \<and> unat cluster < length (fat fs) then ucast (fat fs ! unat cluster)
     else ucast (get16 (stream_read (fat16_get_first_fat_sector fs * 512 + cluster * 2) 2 fs) 0))"

definition le16 :: "u16 \<Rightarrow> bytes" where
  "le16 v = [ucast v, ucast (v div 256)]"

definition fat16_set_fat_entry :: "u32 \<Rightarrow> u16 \<Rightarrow> fat_fs \<Rightarrow> fat_fs" where
  "fat16_set_fat_entry cluster value fs =
    fold (\<lambda>copy fs. stream_write
            ((ucast (reserved_sectors (header fs)) + of_nat copy * ucast (sectors_per_fat (header fs))) * 512 + cluster * 2)
            (le16 value) fs)
      [0..<unat (fat_copies (header fs))]
      (if unat cluster < length (fat fs) then fs\<lparr>fat := (fat fs)[unat cluster := value]\<rparr> else fs)"

text \<open>The loop that zeroes a cluster, one sector at a time; \<open>n\<close> sectors are left.\<close>

fun zero_loop :: "nat \<Rightarrow> u32 \<Rightarrow> fat_fs \<Rightarrow> fat_fs" where
  "zero_loop 0 pos fs = fs"
| "zero_loop (Suc n) pos fs = zero_loop n (pos + 512) (stream_write pos (replicate 512 0) fs)"

fun alloc_loop :: "u32 \<Rightarrow> u32 \<Rightarrow> nat list \<Rightarrow> fat_fs \<Rightarrow> error + (u32 \<times> fat_fs)" where
  "alloc_loop limit start [] fs = Inl NO_MEMORY_ERROR"
| "alloc_loop limit start (n # ns) fs =
    (let cluster = (if start + of_nat n \<ge> limit then start + of_nat n - (limit - 2) else start + of_nat n)
     in if fat16_get_fat_entry fs cluster \<noteq> FAT16_UNUSED then alloc_loop limit start ns fs
        else let fs = fat16_set_fat_entry cluster 0xFFFF fs;
                 fs = zero_loop (fat16_cluster_bytes fs div 512) (fat16_cluster_to_sector fs cluster * 512) fs
             in Inr (cluster, fs\<lparr>next_free_cluster := cluster + 1\<rparr>))"

definition fat16_alloc_cluster :: "fat_fs \<Rightarrow> error + (u32 \<times> fat_fs)" where
  "fat16_alloc_cluster fs =
    (let limit = fat16_cluster_limit fs;
         start = (if next_free_cluster fs < 2 \<or> next_free_cluster fs \<ge> limit then 2 else next_free_cluster fs)
     in alloc_loop limit start [0..<unat (limit - 2)] fs)"

section \<open>Chains\<close>

text \<open>The loop frees entry after entry; \<open>k\<close> bounds its rounds.\<close>

fun free_chain_loop :: "nat \<Rightarrow> u32 \<Rightarrow> fat_fs \<Rightarrow> fat_fs" where
  "free_chain_loop 0 cluster fs = fs"
| "free_chain_loop (Suc k) cluster fs =
    (if cluster \<ge> 2 \<and> cluster < FAT16_RESERVED_START
     then free_chain_loop k (fat16_get_fat_entry fs cluster) (fat16_set_fat_entry cluster 0 fs)
     else fs)"

definition fat16_free_chain :: "u32 \<Rightarrow> fat_fs \<Rightarrow> fat_fs" where
  "fat16_free_chain cluster fs = free_chain_loop 65536 cluster fs"

fun cluster_at_loop :: "bool \<Rightarrow> nat \<Rightarrow> u32 \<Rightarrow> fat_fs \<Rightarrow> (error + u32) \<times> fat_fs" where
  "cluster_at_loop allocate 0 cluster fs = (Inr cluster, fs)"
| "cluster_at_loop allocate (Suc n) cluster fs =
    (let entry = fat16_get_fat_entry fs cluster
     in if entry \<ge> FAT16_END_OF_CHAIN
        then if \<not> allocate then (Inl IO_ERROR, fs)
             else case fat16_alloc_cluster fs of
                    Inl e \<Rightarrow> (Inl e, fs)
                  | Inr (new, fs) \<Rightarrow> cluster_at_loop allocate n new (fat16_set_fat_entry cluster (ucast new) fs)
        else if entry < 2 \<or> entry \<ge> FAT16_RESERVED_START then (Inl IO_ERROR, fs)
        else cluster_at_loop allocate n entry fs)"

text \<open>The result, the first cluster after the call, and the volume.\<close>

definition fat16_cluster_at :: "u32 \<Rightarrow> nat \<Rightarrow> bool \<Rightarrow> fat_fs \<Rightarrow> (error + u32) \<times> u32 \<times> fat_fs" where
  "fat16_cluster_at first index allocate fs =
    (if first = 0
     then if \<not> allocate then (Inl IO_ERROR, first, fs)
          else case fat16_alloc_cluster fs of
                 Inl e \<Rightarrow> (Inl e, first, fs)
               | Inr (cluster, fs) \<Rightarrow>
                   (case cluster_at_loop allocate index cluster fs of (r, fs) \<Rightarrow> (r, cluster, fs))
     else (case cluster_at_loop allocate index first fs of (r, fs) \<Rightarrow> (r, first, fs)))"

fun offset_loop :: "fat_fs \<Rightarrow> nat \<Rightarrow> u32 \<Rightarrow> error + u32" where
  "offset_loop fs 0 cluster = Inr cluster"
| "offset_loop fs (Suc n) cluster =
    (let entry = fat16_get_fat_entry fs cluster
     in if entry \<ge> FAT16_END_OF_CHAIN then Inl IO_ERROR
        else if entry = FAT16_BAD_SECTOR then Inl IO_ERROR
        else if entry \<ge> FAT16_RESERVED_START \<and> entry \<le> FAT16_RESERVED_END then Inl IO_ERROR
        else if entry = FAT16_UNUSED then Inl IO_ERROR
        else offset_loop fs n entry)"

definition fat16_get_cluster_for_offset :: "fat_fs \<Rightarrow> u32 \<Rightarrow> nat \<Rightarrow> error + u32" where
  "fat16_get_cluster_for_offset fs starting_cluster offset =
    offset_loop fs (offset div fat16_cluster_bytes fs) starting_cluster"

text \<open>The offsets of the read loop are not negative: files and directories are shorter than 2 GiB.\<close>

function read_loop :: "fat_fs \<Rightarrow> u32 \<Rightarrow> nat \<Rightarrow> nat \<Rightarrow> error + bytes" where
  "read_loop fs cluster offset remaining =
    (if remaining = 0 \<or> fat16_cluster_bytes fs = 0 then Inr []
     else case fat16_get_cluster_for_offset fs cluster offset of
            Inl e \<Rightarrow> Inl e
          | Inr cluster_to_use \<Rightarrow>
              (let offset_from_cluster = offset mod fat16_cluster_bytes fs;
                  starting_pos = fat16_cluster_to_sector fs cluster_to_use * 512 + of_nat offset_from_cluster;
                  room = fat16_cluster_bytes fs - offset_from_cluster;
                  total_to_read = (if room > remaining then remaining else room)
              in case read_loop fs cluster (offset + total_to_read) (remaining - total_to_read) of
                   Inl e \<Rightarrow> Inl e
                 | Inr rest \<Rightarrow> Inr (stream_read starting_pos total_to_read fs @ rest)))"
  by pat_completeness auto
termination
  by (relation "measure (\<lambda>(fs, cluster, offset, remaining). remaining)") (auto split: if_splits)

declare read_loop.simps [simp del]

definition fat16_read_internal :: "fat_fs \<Rightarrow> u32 \<Rightarrow> nat \<Rightarrow> nat \<Rightarrow> error + bytes" where
  "fat16_read_internal fs starting_cluster offset remaining = read_loop fs starting_cluster offset remaining"


section \<open>A volume in order\<close>

definition clusters_per :: "fat_fs \<Rightarrow> nat" where
  "clusters_per fs = unat (sectors_per_cluster (header fs))"

definition volume_sectors :: "fat_fs \<Rightarrow> nat" where
  "volume_sectors fs = (if number_of_sectors (header fs) \<noteq> 0 then unat (number_of_sectors (header fs))
                        else unat (sectors_big (header fs)))"

definition limit_of :: "fat_fs \<Rightarrow> nat" where
  "limit_of fs = (volume_sectors fs - root_ending_sector_pos fs) div clusters_per fs + 2"

definition data_pos :: "fat_fs \<Rightarrow> nat \<Rightarrow> nat" where
  "data_pos fs c = (root_ending_sector_pos fs + (c - 2) * clusters_per fs) * 512"

definition cdata :: "fat_fs \<Rightarrow> nat \<Rightarrow> bytes" where
  "cdata fs c = slice (part (fs_disk fs)) (data_pos fs c) (fat16_cluster_bytes fs)"

definition fat_start :: "fat_fs \<Rightarrow> nat \<Rightarrow> nat" where
  "fat_start fs copy = (unat (reserved_sectors (header fs)) + copy * unat (sectors_per_fat (header fs))) * 512"

definition root_start :: "fat_fs \<Rightarrow> nat" where
  "root_start fs = root_sector_pos fs * 512"

text \<open>The geometry does not change while the volume is mounted.\<close>

definition geometry_ok :: "fat_fs \<Rightarrow> bool" where
  "geometry_ok fs \<longleftrightarrow> disk_ok (fs_disk fs) \<and> 0 < clusters_per fs
     \<and> root_sector_pos fs = unat (reserved_sectors (header fs)) + unat (fat_copies (header fs)) * unat (sectors_per_fat (header fs))
     \<and> root_sector_pos fs * 512 + 32 * unat (root_dir_entries (header fs)) \<le> root_ending_sector_pos fs * 512
     \<and> root_ending_sector_pos fs \<le> volume_sectors fs \<and> volume_sectors fs * 512 < 2 ^ 31
     \<and> length (fat fs) = unat (sectors_per_fat (header fs)) * 256
     \<and> limit_of fs \<le> length (fat fs) \<and> limit_of fs \<le> 0xFFF0
     \<and> length (root_item fs) = unat (root_dir_entries (header fs)) \<and> root_total fs \<le> length (root_item fs)
     \<and> (\<forall>it \<in> set (root_item fs). length it = 32)"

text \<open>Every copy of the table on disk agrees with the table in memory, and the root directory on disk
  with the root directory in memory.\<close>

definition fat_synced :: "fat_fs \<Rightarrow> bool" where
  "fat_synced fs \<longleftrightarrow>
    (\<forall>copy < unat (fat_copies (header fs)). \<forall>c < length (fat fs).
       slice (part (fs_disk fs)) (fat_start fs copy + 2 * c) 2 = le16 (fat fs ! c))"

definition root_synced :: "fat_fs \<Rightarrow> bool" where
  "root_synced fs \<longleftrightarrow>
    (\<forall>i < length (root_item fs). slice (part (fs_disk fs)) (root_start fs + 32 * i) 32 = root_item fs ! i)"

definition fs_ok :: "fat_fs \<Rightarrow> bool" where
  "fs_ok fs \<longleftrightarrow> geometry_ok fs \<and> fat_synced fs \<and> root_synced fs"

definition same_geometry :: "fat_fs \<Rightarrow> fat_fs \<Rightarrow> bool" where
  "same_geometry fs fs' \<longleftrightarrow> header fs' = header fs \<and> root_sector_pos fs' = root_sector_pos fs
     \<and> root_ending_sector_pos fs' = root_ending_sector_pos fs \<and> length (fat fs') = length (fat fs)
     \<and> lba_offset (fs_disk fs') = lba_offset (fs_disk fs)"

lemma same_geometry:
  assumes "same_geometry fs fs'"
  shows "clusters_per fs' = clusters_per fs" "volume_sectors fs' = volume_sectors fs" "limit_of fs' = limit_of fs"
    "data_pos fs' = data_pos fs" "fat_start fs' = fat_start fs" "root_start fs' = root_start fs"
    "fat16_cluster_bytes fs' = fat16_cluster_bytes fs" "fat16_cluster_to_sector fs' = fat16_cluster_to_sector fs"
    "fat16_cluster_limit fs' = fat16_cluster_limit fs" "header fs' = header fs"
    "length (fat fs') = length (fat fs)" "disk_ok (fs_disk fs') = disk_ok (fs_disk fs)"
  using assms
  by (auto simp: same_geometry_def clusters_per_def volume_sectors_def limit_of_def data_pos_def fat_start_def root_start_def
      fat16_cluster_bytes_def fat16_cluster_to_sector_def fat16_cluster_limit_def disk_ok_def fun_eq_iff)

lemma same_geometry_refl [simp]: "same_geometry fs fs"
  by (simp add: same_geometry_def)

lemma same_geometry_trans: "same_geometry a b \<Longrightarrow> same_geometry b c \<Longrightarrow> same_geometry a c"
  by (simp add: same_geometry_def)

section \<open>Positions do not wrap\<close>

lemma cluster_bytes: "fat16_cluster_bytes fs = clusters_per fs * 512"
  by (simp add: fat16_cluster_bytes_def clusters_per_def)

lemma data_pos_bound:
  assumes g: "geometry_ok fs" and c: "2 \<le> c" "c < limit_of fs"
  shows "data_pos fs c + fat16_cluster_bytes fs \<le> volume_sectors fs * 512"
proof -
  let ?s = "clusters_per fs" and ?n = "volume_sectors fs - root_ending_sector_pos fs"
  have "c - 2 + 1 \<le> ?n div ?s" using c by (simp add: limit_of_def)
  then have "(c - 2 + 1) * ?s \<le> ?n div ?s * ?s" by (rule mult_le_mono1)
  also have "\<dots> \<le> ?n" by simp
  finally have "(c - 2) * ?s + ?s \<le> ?n" by (simp add: algebra_simps)
  moreover have "root_ending_sector_pos fs \<le> volume_sectors fs" using g by (simp add: geometry_ok_def)
  ultimately have "root_ending_sector_pos fs + (c - 2) * ?s + ?s \<le> volume_sectors fs" by linarith
  then have "(root_ending_sector_pos fs + (c - 2) * ?s + ?s) * 512 \<le> volume_sectors fs * 512" by (rule mult_le_mono1)
  then show ?thesis by (simp add: data_pos_def cluster_bytes algebra_simps)
qed

lemma data_pos_disjoint:
  assumes "2 \<le> c" "2 \<le> d" "c \<noteq> d"
  shows "data_pos fs c + fat16_cluster_bytes fs \<le> data_pos fs d \<or> data_pos fs d + fat16_cluster_bytes fs \<le> data_pos fs c"
proof -
  have *: "data_pos fs a + fat16_cluster_bytes fs \<le> data_pos fs b" if "a < b" "2 \<le> a" for a b
  proof -
    have "(a - 2 + 1) * clusters_per fs \<le> (b - 2) * clusters_per fs" using that by (intro mult_le_mono1) simp
    then show ?thesis by (simp add: data_pos_def cluster_bytes)
  qed
  show ?thesis using assms *[of c d] *[of d c] by (cases "c < d") auto
qed

lemma unat_cluster_pos:
  assumes g: "geometry_ok fs" and c: "2 \<le> unat c" "unat c < limit_of fs"
  shows "unat (fat16_cluster_to_sector fs c * 512) = data_pos fs (unat c)"
proof -
  have b: "data_pos fs (unat c) < 2 ^ 31" using data_pos_bound [OF assms] g by (simp add: geometry_ok_def)
  have "unat c - 2 = unat (c - 2)" using c by (simp add: unat_sub word_le_nat_alt)
  then have "fat16_cluster_to_sector fs c * 512 = of_nat (data_pos fs (unat c))"
    by (simp add: fat16_cluster_to_sector_def data_pos_def clusters_per_def)
  then show ?thesis using b by (simp add: unat_of_nat take_bit_eq_mod)
qed


lemma unat_ucast_small [simp]:
  "unat (ucast (a :: u16) :: u32) = unat a" "unat (ucast (b :: u8) :: u32) = unat b"
  using unat_u16_less [of a] unat_u8_less [of b] by (simp_all add: unsigned_ucast_eq take_bit_nat_eq_self)

lemma sint_nonneg:
  assumes "unat (c :: u32) < 2 ^ 31"
  shows "0 \<le> sint c"
proof -
  have "uint c = int (unat c)" by simp
  also have "\<dots> < int (2 ^ 31)" using assms by (rule iffD2 [OF of_nat_less_iff])
  finally have "signed_take_bit 31 (uint c) = uint c"
    by (intro signed_take_bit_int_eq_self) (auto intro: order.trans [OF _ unsigned_greater_eq])
  then show ?thesis unfolding sint_uint by simp
qed

lemma length_le16 [simp]: "length (le16 v) = 2"
  by (simp add: le16_def)

lemma unat_limit:
  assumes g: "geometry_ok fs"
  shows "unat (fat16_cluster_limit fs) = limit_of fs"
proof -
  let ?r = "root_ending_sector_pos fs"
  let ?w = "(if number_of_sectors (header fs) \<noteq> 0 then ucast (number_of_sectors (header fs)) else sectors_big (header fs)) :: u32"
  have w: "unat ?w = volume_sectors fs" by (simp add: volume_sectors_def)
  have r: "?r \<le> volume_sectors fs" "volume_sectors fs * 512 < 2 ^ 31" using g by (auto simp: geometry_ok_def)
  have "unat (of_nat ?r :: u32) = ?r" using r by (simp add: unat_of_nat take_bit_eq_mod)
  then have "unat (?w - of_nat ?r) = volume_sectors fs - ?r" using r w by (simp add: unat_sub word_le_nat_alt)
  moreover have "unat (ucast (sectors_per_cluster (header fs)) :: u32) = clusters_per fs"
    by (simp add: clusters_per_def)
  ultimately have "unat ((?w - of_nat ?r) div ucast (sectors_per_cluster (header fs))) = limit_of fs - 2"
    by (simp add: unat_div limit_of_def)
  moreover have "limit_of fs \<le> 0xFFF0" "2 \<le> limit_of fs" using g by (auto simp: geometry_ok_def limit_of_def)
  ultimately show ?thesis by (simp add: fat16_cluster_limit_def Let_def unat_word_ariths take_bit_eq_mod)
qed

lemma stream_write:
  assumes "disk_ok (fs_disk fs)" "unat pos + length bs \<le> 2 ^ 31"
  shows "part (fs_disk (stream_write pos bs fs)) = overwrite (part (fs_disk fs)) (unat pos) bs"
    "lba_offset (fs_disk (stream_write pos bs fs)) = lba_offset (fs_disk fs)"
  using write_at [OF assms] by (simp_all add: stream_write_def)

lemma stream_write_frame [simp]:
  "header (stream_write pos bs fs) = header fs" "root_item (stream_write pos bs fs) = root_item fs"
  "root_total (stream_write pos bs fs) = root_total fs" "root_sector_pos (stream_write pos bs fs) = root_sector_pos fs"
  "root_ending_sector_pos (stream_write pos bs fs) = root_ending_sector_pos fs"
  "next_free_cluster (stream_write pos bs fs) = next_free_cluster fs" "fat (stream_write pos bs fs) = fat fs"
  by (simp_all add: stream_write_def)

lemma stream_read:
  assumes "disk_ok (fs_disk fs)" "unat pos + n \<le> 2 ^ 31"
  shows "stream_read pos n fs = slice (part (fs_disk fs)) (unat pos) n"
  by (simp add: stream_read_def read_at [OF assms])

section \<open>The table and its copies\<close>

definition fat_pos :: "fat_fs \<Rightarrow> nat \<Rightarrow> nat \<Rightarrow> nat" where
  "fat_pos fs copy c = fat_start fs copy + 2 * c"

lemma fat_pos:
  "length (fat fs) = unat (sectors_per_fat (header fs)) * 256 \<Longrightarrow>
   fat_pos fs copy c = unat (reserved_sectors (header fs)) * 512 + 2 * (copy * length (fat fs) + c)"
  by (simp add: fat_pos_def fat_start_def algebra_simps)

lemma fat_pos_disjoint:
  assumes g: "geometry_ok fs" and c: "c < length (fat fs)" "d < length (fat fs)" and "(k, c) \<noteq> (j, d)"
  shows "fat_pos fs k c + 2 \<le> fat_pos fs j d \<or> fat_pos fs j d + 2 \<le> fat_pos fs k c"
proof -
  let ?L = "length (fat fs)"
  have L: "?L = unat (sectors_per_fat (header fs)) * 256" using g by (simp add: geometry_ok_def)
  have L0: "?L \<noteq> 0" using c by linarith
  have "k * ?L + c \<noteq> j * ?L + d"
  proof
    assume e: "k * ?L + c = j * ?L + d"
    have "(k * ?L + c) div ?L = k" "(k * ?L + c) mod ?L = c" "(j * ?L + d) div ?L = j" "(j * ?L + d) mod ?L = d"
      using c by (auto simp: div_mult_self3 [OF L0])
    then show False using e assms(4) by simp
  qed
  then have "k * ?L + c < j * ?L + d \<or> j * ?L + d < k * ?L + c" by (rule linorder_neqE_nat) blast+
  then show ?thesis unfolding fat_pos [OF L] by (elim disjE) simp_all
qed

lemma fat_pos_end:
  assumes g: "geometry_ok fs" and c: "c < length (fat fs)" "k < unat (fat_copies (header fs))"
  shows "fat_pos fs k c + 2 \<le> root_start fs" "root_start fs < 2 ^ 31"
proof -
  let ?L = "length (fat fs)"
  have L: "?L = unat (sectors_per_fat (header fs)) * 256" using g by (simp add: geometry_ok_def)
  have "(k + 1) * ?L \<le> unat (fat_copies (header fs)) * ?L" using c(2) by (intro mult_le_mono1) simp
  then have "k * ?L + c + 1 \<le> unat (fat_copies (header fs)) * ?L" using c(1) by (simp add: algebra_simps)
  moreover have "root_start fs = unat (reserved_sectors (header fs)) * 512 + 2 * (unat (fat_copies (header fs)) * ?L)"
    using g L by (simp add: geometry_ok_def root_start_def algebra_simps)
  moreover define A B where "A = k * ?L + c" and "B = unat (fat_copies (header fs)) * ?L"
  ultimately have "A + 1 \<le> B" "root_start fs = unat (reserved_sectors (header fs)) * 512 + 2 * B" by (simp_all add: add.assoc)
  moreover have "fat_pos fs k c = unat (reserved_sectors (header fs)) * 512 + 2 * A" by (simp add: fat_pos [OF L] A_def)
  ultimately show "fat_pos fs k c + 2 \<le> root_start fs" by linarith
  have "root_sector_pos fs * 512 \<le> root_ending_sector_pos fs * 512" "root_ending_sector_pos fs \<le> volume_sectors fs"
    "volume_sectors fs * 512 < 2 ^ 31" using g by (auto simp: geometry_ok_def)
  then show "root_start fs < 2 ^ 31" by (simp add: root_start_def)
qed

lemma unat_fat_pos:
  assumes g: "geometry_ok fs" and c: "unat c < length (fat fs)" "k < unat (fat_copies (header fs))"
  shows "unat ((ucast (reserved_sectors (header fs)) + of_nat k * ucast (sectors_per_fat (header fs))) * 512 + c * 2 :: u32)
    = fat_pos fs k (unat c)"
proof -
  have "(ucast (reserved_sectors (header fs)) + of_nat k * ucast (sectors_per_fat (header fs))) * 512 + c * 2
      = (of_nat (fat_pos fs k (unat c)) :: u32)"
    by (simp add: fat_pos_def fat_start_def algebra_simps)
  moreover have "fat_pos fs k (unat c) < 2 ^ 32" using fat_pos_end [OF assms] by simp
  ultimately show ?thesis by (simp add: unat_of_nat take_bit_eq_mod)
qed

lemma get_fat_entry:
  assumes "geometry_ok fs" "unat c < length (fat fs)"
  shows "fat16_get_fat_entry fs c = ucast (fat fs ! unat c)"
proof -
  have "length (fat fs) < 2 ^ 24" using assms unat_u16_less [of "sectors_per_fat (header fs)"] by (simp add: geometry_ok_def)
  then have "0 \<le> sint c" using assms(2) by (intro sint_nonneg) simp
  then show ?thesis using assms(2) by (simp add: fat16_get_fat_entry_def)
qed

definition set_copies :: "u32 \<Rightarrow> u16 \<Rightarrow> nat list \<Rightarrow> fat_fs \<Rightarrow> fat_fs" where
  "set_copies cluster value js fs =
    fold (\<lambda>copy fs. stream_write
            ((ucast (reserved_sectors (header fs)) + of_nat copy * ucast (sectors_per_fat (header fs))) * 512 + cluster * 2)
            (le16 value) fs) js fs"

lemma set_copies:
  fixes c :: u32 and v :: u16
  assumes "geometry_ok fs" "unat c < length (fat fs)" "\<forall>j \<in> set js. j < unat (fat_copies (header fs))"
  defines "fs' \<equiv> set_copies c v js fs"
  shows "header fs' = header fs \<and> root_item fs' = root_item fs \<and> root_total fs' = root_total fs
      \<and> root_sector_pos fs' = root_sector_pos fs \<and> root_ending_sector_pos fs' = root_ending_sector_pos fs
      \<and> next_free_cluster fs' = next_free_cluster fs \<and> fat fs' = fat fs
      \<and> lba_offset (fs_disk fs') = lba_offset (fs_disk fs) \<and> geometry_ok fs'
      \<and> (\<forall>i \<ge> root_start fs. part (fs_disk fs') i = part (fs_disk fs) i)
      \<and> (\<forall>k < unat (fat_copies (header fs)). \<forall>d < length (fat fs).
          slice (part (fs_disk fs')) (fat_pos fs k d) 2
            = (if k \<in> set js \<and> d = unat c then le16 v else slice (part (fs_disk fs)) (fat_pos fs k d) 2))"
  using assms(1-3) unfolding fs'_def
proof (induction js arbitrary: fs)
  case Nil
  then show ?case by (simp add: set_copies_def)
next
  case (Cons j js)
  define pos :: u32 where "pos = (ucast (reserved_sectors (header fs)) + of_nat j * ucast (sectors_per_fat (header fs))) * 512 + c * 2"
  define fs1 where "fs1 = stream_write pos (le16 v) fs"
  have j: "j < unat (fat_copies (header fs))" using Cons.prems(3) by simp
  have pos: "unat pos = fat_pos fs j (unat c)" unfolding pos_def by (rule unat_fat_pos [OF Cons.prems(1,2) j])
  note e = fat_pos_end [OF Cons.prems(1,2) j]
  have ok: "disk_ok (fs_disk fs)" using Cons.prems(1) by (simp add: geometry_ok_def)
  have "unat pos + length (le16 v) \<le> 2 ^ 31" using pos e Cons.prems(1) by (simp add: geometry_ok_def)
  note w = stream_write [OF ok this, folded fs1_def, unfolded pos]
  have f1: "header fs1 = header fs" "root_item fs1 = root_item fs" "root_total fs1 = root_total fs"
    "root_sector_pos fs1 = root_sector_pos fs" "root_ending_sector_pos fs1 = root_ending_sector_pos fs"
    "next_free_cluster fs1 = next_free_cluster fs" "fat fs1 = fat fs"
    by (simp_all add: fs1_def)
  have sg: "same_geometry fs fs1" using f1 w by (simp add: same_geometry_def)
  have g1: "geometry_ok fs1" using Cons.prems(1) same_geometry [OF sg] f1 by (simp add: geometry_ok_def)
  have r: "set_copies c v (j # js) fs = set_copies c v js fs1" by (simp add: set_copies_def fs1_def pos_def)
  have fp: "fat_pos fs1 = fat_pos fs" by (intro ext) (simp add: fat_pos_def same_geometry [OF sg])
  have s1: "slice (part (fs_disk fs1)) (fat_pos fs k d) 2
      = (if k = j \<and> d = unat c then le16 v else slice (part (fs_disk fs)) (fat_pos fs k d) 2)"
    if "d < length (fat fs)" for k d
  proof (cases "(k, d) = (j, unat c)")
    case True
    then show ?thesis using slice_overwrite_same [of _ _ "le16 v"] w by simp
  next
    case False
    then show ?thesis
      using fat_pos_disjoint [OF Cons.prems(1) that Cons.prems(2) False] w by (auto simp: slice_overwrite_other)
  qed
  have o1: "part (fs_disk fs1) i = part (fs_disk fs) i" if "root_start fs \<le> i" for i
    unfolding w using that e by (intro overwrite_outside) simp
  have "unat c < length (fat fs1)" "\<forall>j \<in> set js. j < unat (fat_copies (header fs1))" using Cons.prems f1 by simp_all
  note ih = Cons.IH [OF g1 this, unfolded fp f1 same_geometry(6) [OF sg] w(2)]
  show ?case unfolding r using ih o1 s1 by simp
qed


text \<open>The volume outside the tables, and its clusters, do not change with an entry.\<close>

definition same_beyond :: "nat \<Rightarrow> fat_fs \<Rightarrow> fat_fs \<Rightarrow> bool" where
  "same_beyond p fs fs' \<longleftrightarrow> (\<forall>i \<ge> p. part (fs_disk fs') i = part (fs_disk fs) i)"

lemma root_synced_frame:
  assumes "root_synced fs" "root_item fs' = root_item fs" "root_start fs' = root_start fs" "same_beyond (root_start fs) fs fs'"
  shows "root_synced fs'"
proof -
  have "slice (part (fs_disk fs')) (root_start fs + 32 * i) 32 = slice (part (fs_disk fs)) (root_start fs + 32 * i) 32" for i
    by (rule slice_cong) (use assms(4) in \<open>simp add: same_beyond_def\<close>)
  then show ?thesis using assms(1-3) by (simp add: root_synced_def)
qed

lemma root_start_data: "geometry_ok fs \<Longrightarrow> root_start fs + 32 * length (root_item fs) \<le> root_ending_sector_pos fs * 512"
  by (simp add: geometry_ok_def root_start_def)

lemma data_pos_ge: "root_ending_sector_pos fs * 512 \<le> data_pos fs c"
  by (simp add: data_pos_def)

lemma cdata_beyond:
  assumes "geometry_ok fs" "same_geometry fs fs'" "same_beyond (root_start fs) fs fs'"
  shows "cdata fs' c = cdata fs c"
  unfolding cdata_def same_geometry [OF assms(2)]
  by (rule slice_cong) (use assms root_start_data data_pos_ge [of fs c] in \<open>fastforce simp: same_beyond_def\<close>)

definition set_fat :: "u32 \<Rightarrow> u16 \<Rightarrow> fat_fs \<Rightarrow> fat_fs" where
  "set_fat c v fs = fs\<lparr>fat := (fat fs)[unat c := v]\<rparr>"

lemma set_fat_entry:
  fixes v :: u16
  assumes ok: "fs_ok fs" and c: "unat c < length (fat fs)"
  defines "fs' \<equiv> fat16_set_fat_entry c v fs"
  shows "fat fs' = (fat fs)[unat c := v]" "fs_ok fs'" "same_geometry fs fs'" "same_beyond (root_start fs) fs fs'"
    "root_item fs' = root_item fs" "root_total fs' = root_total fs" "next_free_cluster fs' = next_free_cluster fs"
proof -
  let ?js = "[0..<unat (fat_copies (header fs))]"
  define fs1 where "fs1 = set_fat c v fs"
  have f1: "header fs1 = header fs" "root_item fs1 = root_item fs" "root_total fs1 = root_total fs"
    "root_sector_pos fs1 = root_sector_pos fs" "root_ending_sector_pos fs1 = root_ending_sector_pos fs"
    "next_free_cluster fs1 = next_free_cluster fs" "fat fs1 = (fat fs)[unat c := v]" "fs_disk fs1 = fs_disk fs"
    by (simp_all add: fs1_def set_fat_def)
  have s1: "same_geometry fs fs1" using f1 by (simp add: same_geometry_def)
  have g: "geometry_ok fs" and syn: "fat_synced fs" "root_synced fs" using ok by (simp_all add: fs_ok_def)
  have g1: "geometry_ok fs1" using g same_geometry [OF s1] f1 by (simp add: geometry_ok_def)
  have c1: "unat c < length (fat fs1)" using c f1 by simp
  have js: "\<forall>j \<in> set ?js. j < unat (fat_copies (header fs1))" using f1 by simp
  have fs': "fs' = set_copies c v ?js fs1"
    using c by (simp add: fs'_def fat16_set_fat_entry_def set_copies_def fs1_def set_fat_def)
  note S = set_copies [OF g1 c1 js, where v = v, folded fs']
  have fp: "fat_pos fs1 = fat_pos fs" by (intro ext) (simp add: fat_pos_def same_geometry [OF s1])
  show fat: "fat fs' = (fat fs)[unat c := v]" using S f1 by simp
  show sg: "same_geometry fs fs'" using S f1 by (simp add: same_geometry_def)
  show sb: "same_beyond (root_start fs) fs fs'" using S f1 same_geometry [OF s1] by (simp add: same_beyond_def)
  show ri: "root_item fs' = root_item fs" "root_total fs' = root_total fs" "next_free_cluster fs' = next_free_cluster fs"
    using S f1 by simp_all
  have "fat_synced fs'"
    unfolding fat_synced_def
  proof (intro allI impI)
    fix k d assume kd: "k < unat (fat_copies (header fs'))" "d < length (fat fs')"
    then have k: "k < unat (fat_copies (header fs))" "d < length (fat fs)" using S f1 by simp_all
    have "slice (part (fs_disk fs')) (fat_pos fs k d) 2 = (if d = unat c then le16 v else slice (part (fs_disk fs)) (fat_pos fs k d) 2)"
      using S f1 fp k by simp
    also have "\<dots> = le16 (fat fs' ! d)"
      using syn(1) k unfolding fat fat_synced_def fat_pos_def by (auto simp: nth_list_update)
    finally show "slice (part (fs_disk fs')) (fat_start fs' k + 2 * d) 2 = le16 (fat fs' ! d)"
      by (simp add: fat_pos_def same_geometry [OF sg])
  qed
  moreover have "root_synced fs'" by (rule root_synced_frame [OF syn(2) ri(1) same_geometry(6) [OF sg] sb])
  moreover have "geometry_ok fs'" using S by simp
  ultimately show "fs_ok fs'" by (simp add: fs_ok_def)
qed

section \<open>Writes to a cluster\<close>

text \<open>A write inside the data area changes nothing else of the volume.\<close>

lemma data_write:
  assumes ok: "fs_ok fs" and c: "2 \<le> unat c" "unat c < limit_of fs" and p: "off + length bs \<le> fat16_cluster_bytes fs"
    and pos: "unat pos = data_pos fs (unat c) + off"
  defines "fs' \<equiv> stream_write pos bs fs"
  shows "fs_ok fs'" "same_geometry fs fs'" "fat fs' = fat fs"
    "cdata fs' (unat c) = take off (cdata fs (unat c)) @ bs @ drop (off + length bs) (cdata fs (unat c))"
    "2 \<le> d \<Longrightarrow> d \<noteq> unat c \<Longrightarrow> cdata fs' d = cdata fs d"
    "root_item fs' = root_item fs" "root_total fs' = root_total fs" "next_free_cluster fs' = next_free_cluster fs"
proof -
  have g: "geometry_ok fs" and syn: "fat_synced fs" "root_synced fs" using ok by (simp_all add: fs_ok_def)
  have b: "data_pos fs (unat c) + fat16_cluster_bytes fs < 2 ^ 31"
    using data_pos_bound [OF g c] g by (simp add: geometry_ok_def)
  have d: "disk_ok (fs_disk fs)" using g by (simp add: geometry_ok_def)
  have "unat pos + length bs \<le> 2 ^ 31" using pos p b by simp
  note w = stream_write [OF d this, folded fs'_def, unfolded pos]
  have f: "header fs' = header fs" "root_item fs' = root_item fs" "root_total fs' = root_total fs"
    "root_sector_pos fs' = root_sector_pos fs" "root_ending_sector_pos fs' = root_ending_sector_pos fs"
    "next_free_cluster fs' = next_free_cluster fs" "fat fs' = fat fs" by (simp_all add: fs'_def)
  show "fat fs' = fat fs" "root_item fs' = root_item fs" "root_total fs' = root_total fs" "next_free_cluster fs' = next_free_cluster fs"
    using f by simp_all
  show sg: "same_geometry fs fs'" using f w by (simp add: same_geometry_def)
  note G = same_geometry [OF sg]
  have low: "slice (part (fs_disk fs')) q n = slice (part (fs_disk fs)) q n" if "q + n \<le> root_ending_sector_pos fs * 512" for q n
    unfolding w by (rule slice_overwrite_other) (use that data_pos_ge [of fs "unat c"] in simp)
  have "fat_synced fs'"
    unfolding fat_synced_def
  proof (intro allI impI)
    fix k e assume "k < unat (fat_copies (header fs'))" "e < length (fat fs')"
    then have k: "k < unat (fat_copies (header fs))" "e < length (fat fs)" using f by simp_all
    have "fat_start fs k + 2 * e + 2 \<le> root_start fs" using fat_pos_end(1) [OF g k(2,1)] by (simp add: fat_pos_def)
    also have "\<dots> \<le> root_ending_sector_pos fs * 512" using root_start_data [OF g] by simp
    finally show "slice (part (fs_disk fs')) (fat_start fs' k + 2 * e) 2 = le16 (fat fs' ! e)"
      using syn(1) k f low unfolding G fat_synced_def by simp
  qed
  moreover have "root_synced fs'"
    unfolding root_synced_def
  proof (intro allI impI)
    fix i assume i: "i < length (root_item fs')"
    then have "root_start fs + 32 * i + 32 \<le> root_start fs + 32 * length (root_item fs)" using f by simp
    also have "\<dots> \<le> root_ending_sector_pos fs * 512" by (rule root_start_data [OF g])
    finally show "slice (part (fs_disk fs')) (root_start fs' + 32 * i) 32 = root_item fs' ! i"
      using syn(2) i f low unfolding G root_synced_def by simp
  qed
  moreover have "geometry_ok fs'" using g f G unfolding geometry_ok_def by simp
  ultimately show "fs_ok fs'" by (simp add: fs_ok_def)
  show "cdata fs' (unat c) = take off (cdata fs (unat c)) @ bs @ drop (off + length bs) (cdata fs (unat c))"
    unfolding cdata_def G w using slice_overwrite_inner [of "data_pos fs (unat c)" "data_pos fs (unat c) + off" bs] p by simp
  show "cdata fs' d = cdata fs d" if "2 \<le> d" "d \<noteq> unat c"
    unfolding cdata_def G w
    by (rule slice_overwrite_other) (use data_pos_disjoint [OF c(1) that(1) not_sym [OF that(2)], of fs] p in linarith)
qed


lemma length_cdata [simp]: "length (cdata fs c) = fat16_cluster_bytes fs"
  by (simp add: cdata_def)

lemma zero_loop:
  assumes "fs_ok fs" "2 \<le> unat c" "unat c < limit_of fs" "off + 512 * n = fat16_cluster_bytes fs"
    "unat pos = data_pos fs (unat c) + off"
    "take off (cdata fs (unat c)) = replicate off 0"
  shows "fs_ok (zero_loop n pos fs) \<and> same_geometry fs (zero_loop n pos fs) \<and> fat (zero_loop n pos fs) = fat fs
    \<and> cdata (zero_loop n pos fs) (unat c) = replicate (fat16_cluster_bytes fs) 0
    \<and> (\<forall>d \<ge> 2. d \<noteq> unat c \<longrightarrow> cdata (zero_loop n pos fs) d = cdata fs d)
    \<and> root_item (zero_loop n pos fs) = root_item fs \<and> root_total (zero_loop n pos fs) = root_total fs
    \<and> next_free_cluster (zero_loop n pos fs) = next_free_cluster fs"
  using assms
proof (induction n arbitrary: off pos fs)
  case 0
  then show ?case by simp
next
  case (Suc n)
  let ?fs = "stream_write pos (replicate 512 0) fs"
  have p: "off + length (replicate 512 (0 :: u8)) \<le> fat16_cluster_bytes fs" using Suc.prems(4) by simp
  note w = data_write [OF Suc.prems(1-3) p Suc.prems(5)]
  note G = same_geometry [OF w(2)]
  have b: "data_pos fs (unat c) + fat16_cluster_bytes fs < 2 ^ 31"
    using data_pos_bound [of fs "unat c"] Suc.prems(1-3) by (simp add: geometry_ok_def fs_ok_def)
  have "unat (pos + of_nat 512) = unat pos + 512" by (rule unat_advance) (use Suc.prems(4,5) b in simp)
  then have pos: "unat (pos + 512) = data_pos ?fs (unat c) + (off + 512)" using Suc.prems(5) by (simp add: G)
  have "take (off + 512) (cdata ?fs (unat c)) = replicate (off + 512) 0"
    unfolding w(4) using Suc.prems(6) p by (simp add: replicate_add [symmetric])
  then have "fs_ok (zero_loop n (pos + 512) ?fs) \<and> same_geometry ?fs (zero_loop n (pos + 512) ?fs)
    \<and> fat (zero_loop n (pos + 512) ?fs) = fat ?fs
    \<and> cdata (zero_loop n (pos + 512) ?fs) (unat c) = replicate (fat16_cluster_bytes ?fs) 0
    \<and> (\<forall>d \<ge> 2. d \<noteq> unat c \<longrightarrow> cdata (zero_loop n (pos + 512) ?fs) d = cdata ?fs d)
    \<and> root_item (zero_loop n (pos + 512) ?fs) = root_item ?fs \<and> root_total (zero_loop n (pos + 512) ?fs) = root_total ?fs
    \<and> next_free_cluster (zero_loop n (pos + 512) ?fs) = next_free_cluster ?fs"
    using Suc.prems(2-4) by (intro Suc.IH [OF w(1) _ _ _ pos]) (simp_all add: G)
  then show ?case using w(2,3,5,6,7,8) same_geometry_trans [OF w(2)] by (simp add: G)
qed

text \<open>What an allocation does, seen from the table and the clusters.\<close>

definition allocated :: "fat_fs \<Rightarrow> nat \<Rightarrow> fat_fs \<Rightarrow> bool" where
  "allocated fs c fs' \<longleftrightarrow> fs_ok fs' \<and> same_geometry fs fs' \<and> 2 \<le> c \<and> c < limit_of fs
     \<and> fat fs ! c = 0 \<and> fat fs' = (fat fs)[c := 0xFFFF]
     \<and> cdata fs' c = replicate (fat16_cluster_bytes fs) 0
     \<and> (\<forall>d \<ge> 2. d \<noteq> c \<longrightarrow> cdata fs' d = cdata fs d)
     \<and> root_item fs' = root_item fs \<and> root_total fs' = root_total fs"

lemma fs_ok_geometry: "fs_ok fs \<Longrightarrow> geometry_ok fs"
  by (simp add: fs_ok_def)

lemma limit_bounds: "fs_ok fs \<Longrightarrow> limit_of fs \<le> length (fat fs) \<and> limit_of fs \<le> 0xFFF0 \<and> 2 \<le> limit_of fs"
  by (simp add: fs_ok_def geometry_ok_def limit_of_def)

lemma fs_ok_next [simp]:
  "fs_ok (fs\<lparr>next_free_cluster := n\<rparr>) = fs_ok fs" "same_geometry fs (fs'\<lparr>next_free_cluster := n\<rparr>) = same_geometry fs fs'"
  "cdata (fs\<lparr>next_free_cluster := n\<rparr>) = cdata fs"
  by (simp_all add: fs_ok_def geometry_ok_def fat_synced_def root_synced_def same_geometry_def clusters_per_def
      volume_sectors_def limit_of_def fat_start_def root_start_def cdata_def data_pos_def fat16_cluster_bytes_def fun_eq_iff)

text \<open>The cluster of round \<open>n\<close> of the search.\<close>

definition search_pos :: "nat \<Rightarrow> nat \<Rightarrow> nat \<Rightarrow> nat" where
  "search_pos limit start n = (if start + n \<ge> limit then start + n - (limit - 2) else start + n)"

lemma alloc_loop:
  assumes ok: "fs_ok fs" and start: "2 \<le> unat start" "unat start < limit_of fs"
  shows "\<forall>n \<in> set ns. n < limit_of fs - 2 \<Longrightarrow>
    case alloc_loop (fat16_cluster_limit fs) start ns fs of
      Inr (c, fs') \<Rightarrow> allocated fs (unat c) fs'
    | Inl e \<Rightarrow> e = NO_MEMORY_ERROR
        \<and> (\<forall>n \<in> set ns. fat fs ! search_pos (limit_of fs) (unat start) n \<noteq> 0)"
proof (induction ns)
  case Nil
  then show ?case by simp
next
  case (Cons n ns)
  note g = fs_ok_geometry [OF ok] and lim = limit_bounds [OF ok]
  let ?L = "limit_of fs" and ?limit = "fat16_cluster_limit fs"
  have limit: "unat ?limit = ?L" by (rule unat_limit [OF g])
  have n: "n < ?L - 2" using Cons.prems by simp
  define c where "c = (if start + of_nat n \<ge> ?limit then start + of_nat n - (?limit - 2) else start + of_nat n)"
  have a: "unat (start + of_nat n) = unat start + n" by (rule unat_advance) (use start n lim in auto)
  have l2: "unat (?limit - 2) = ?L - 2" using lim limit by (simp add: unat_sub word_le_nat_alt)
  have c: "unat c = search_pos ?L (unat start) n"
    using a l2 limit n start by (auto simp: c_def search_pos_def word_le_nat_alt unat_sub)
  then have cr: "2 \<le> unat c" "unat c < ?L" using start n lim by (auto simp: search_pos_def split: if_splits)
  then have cl: "unat c < length (fat fs)" using lim by simp
  have e: "fat16_get_fat_entry fs c = ucast (fat fs ! unat c)" by (rule get_fat_entry [OF g cl])
  have z: "(ucast (v :: u16) :: u32) = 0 \<longleftrightarrow> v = 0" for v
    by (metis unat_ucast_small(1) unsigned_eq_0_iff)
  show ?case
  proof (cases "fat fs ! unat c = 0")
    case False
    then have "alloc_loop ?limit start (n # ns) fs = alloc_loop ?limit start ns fs"
      using e z by (simp add: Let_def c_def [symmetric])
    then show ?thesis
      using Cons.IH Cons.prems False c by (cases "alloc_loop ?limit start ns fs") (simp_all del: alloc_loop.simps)
  next
    case True
    define fs1 where "fs1 = fat16_set_fat_entry c 0xFFFF fs"
    define fs2 where "fs2 = zero_loop (fat16_cluster_bytes fs1 div 512) (fat16_cluster_to_sector fs1 c * 512) fs1"
    have r: "alloc_loop ?limit start (n # ns) fs = Inr (c, fs2\<lparr>next_free_cluster := c + 1\<rparr>)"
      using True e z by (simp add: Let_def c_def [symmetric] fs1_def fs2_def)
    note S = set_fat_entry [OF ok cl, where v = "0xFFFF", folded fs1_def]
    note G = same_geometry [OF S(3)]
    have cd: "cdata fs1 d = cdata fs d" for d by (rule cdata_beyond [OF g S(3,4)])
    have cr1: "unat c < limit_of fs1" using cr G by simp
    have pos: "unat (fat16_cluster_to_sector fs1 c * 512) = data_pos fs1 (unat c) + 0"
      using unat_cluster_pos [OF fs_ok_geometry [OF S(2)] cr(1) cr1] by simp
    have "0 + 512 * (fat16_cluster_bytes fs1 div 512) = fat16_cluster_bytes fs1" by (simp add: cluster_bytes)
    note Z = zero_loop [OF S(2) cr(1) cr1 this pos, folded fs2_def]
    have "allocated fs (unat c) (fs2\<lparr>next_free_cluster := c + 1\<rparr>)"
      using Z S cr True same_geometry_trans [OF S(3)] cd by (simp add: allocated_def G)
    then show ?thesis unfolding r by simp
  qed
qed

definition no_free :: "fat_fs \<Rightarrow> bool" where
  "no_free fs \<longleftrightarrow> (\<forall>c. 2 \<le> c \<and> c < limit_of fs \<longrightarrow> fat fs ! c \<noteq> 0)"

lemma alloc_spec:
  assumes "fs_ok fs"
  shows "case fat16_alloc_cluster fs of
      Inr (c, fs') \<Rightarrow> allocated fs (unat c) fs'
    | Inl e \<Rightarrow> e = NO_MEMORY_ERROR \<and> no_free fs"
proof -
  note g = fs_ok_geometry [OF assms] and lim = limit_bounds [OF assms]
  let ?L = "limit_of fs" and ?limit = "fat16_cluster_limit fs"
  define start where "start = (if next_free_cluster fs < 2 \<or> next_free_cluster fs \<ge> ?limit then 2 else next_free_cluster fs)"
  have limit: "unat ?limit = ?L" by (rule unat_limit [OF g])
  have l2: "unat (?limit - 2) = ?L - 2" using lim limit by (simp add: unat_sub word_le_nat_alt)
  have r: "fat16_alloc_cluster fs = alloc_loop ?limit start [0..<?L - 2] fs"
    by (simp add: fat16_alloc_cluster_def Let_def start_def l2)
  show ?thesis
  proof (cases "?L = 2")
    case True
    then show ?thesis by (auto simp: r no_free_def)
  next
    case False
    then have start: "2 \<le> unat start" "unat start < ?L"
      using lim limit by (auto simp: start_def word_less_nat_alt word_le_nat_alt)
    have all: "\<exists>n \<in> set [0..<?L - 2]. c = search_pos ?L (unat start) n"
      if "2 \<le> c" "c < ?L" for c
    proof (cases "unat start \<le> c")
      case True
      then show ?thesis using that start by (intro bexI [of _ "c - unat start"]) (auto simp: search_pos_def)
    next
      case False
      then show ?thesis using that start by (intro bexI [of _ "c + (?L - 2) - unat start"]) (auto simp: search_pos_def)
    qed
    have "\<forall>n \<in> set [0..<?L - 2]. n < ?L - 2" by simp
    from alloc_loop [OF assms start this] show ?thesis
      unfolding r using all by (cases "alloc_loop ?limit start [0..<?L - 2] fs") (simp_all add: no_free_def, metis)
  qed
qed


section \<open>Cluster chains\<close>

fun linked :: "u16 list \<Rightarrow> nat list \<Rightarrow> bool" where
  "linked f [] = True"
| "linked f [c] = (0xFFF8 \<le> unat (f ! c))"
| "linked f (c # d # cs) = (unat (f ! c) = d \<and> linked f (d # cs))"

definition chain_ok :: "fat_fs \<Rightarrow> nat \<Rightarrow> nat list \<Rightarrow> bool" where
  "chain_ok fs first cs \<longleftrightarrow> first = (case cs of [] \<Rightarrow> 0 | c # _ \<Rightarrow> c) \<and> distinct cs
     \<and> (\<forall>c \<in> set cs. 2 \<le> c \<and> c < limit_of fs) \<and> linked (fat fs) cs"

definition chain_data :: "fat_fs \<Rightarrow> nat list \<Rightarrow> bytes" where
  "chain_data fs cs = concat (map (cdata fs) cs)"

lemma linked_nth:
  "linked f cs \<Longrightarrow> i < length cs \<Longrightarrow>
   if Suc i < length cs then unat (f ! (cs ! i)) = cs ! Suc i else 0xFFF8 \<le> unat (f ! (cs ! i))"
proof (induction f cs arbitrary: i rule: linked.induct)
  case (3 f c d cs)
  then show ?case by (cases i) auto
qed auto

lemma linked_iff:
  "linked f cs \<longleftrightarrow> (\<forall>i < length cs. if Suc i < length cs then unat (f ! (cs ! i)) = cs ! Suc i else 0xFFF8 \<le> unat (f ! (cs ! i)))"
proof
  assume "linked f cs"
  then show "\<forall>i < length cs. if Suc i < length cs then unat (f ! (cs ! i)) = cs ! Suc i else 0xFFF8 \<le> unat (f ! (cs ! i))"
    using linked_nth by blast
next
  assume "\<forall>i < length cs. if Suc i < length cs then unat (f ! (cs ! i)) = cs ! Suc i else 0xFFF8 \<le> unat (f ! (cs ! i))"
  then show "linked f cs"
  proof (induction f cs rule: linked.induct)
    case (3 f c d cs)
    have "\<forall>i < length (d # cs). if Suc i < length (d # cs) then unat (f ! ((d # cs) ! i)) = (d # cs) ! Suc i
        else 0xFFF8 \<le> unat (f ! ((d # cs) ! i))"
      using 3(2) by fastforce
    then show ?case using 3(1) 3(2) [rule_format, of 0] by simp
  qed auto
qed

lemma linked_nonzero: "linked f cs \<Longrightarrow> (\<forall>c \<in> set cs. 2 \<le> c) \<Longrightarrow> c \<in> set cs \<Longrightarrow> f ! c \<noteq> 0"
proof
  assume l: "linked f cs" "\<forall>c \<in> set cs. 2 \<le> c" and c: "c \<in> set cs" "f ! c = 0"
  then obtain i where i: "i < length cs" "c = cs ! i" by (auto simp: in_set_conv_nth)
  have "2 \<le> cs ! Suc i" if "Suc i < length cs" using that l(2) by auto
  then show False using linked_nth [OF l(1) i(1)] c(2) i(2) by (auto split: if_splits)
qed

lemma linked_cong: "(\<And>c. c \<in> set cs \<Longrightarrow> f ! c = g ! c) \<Longrightarrow> linked f cs = linked g cs"
  by (induction f cs rule: linked.induct) auto

text \<open>Linking a fresh cluster to the end of a chain.\<close>

lemma linked_snoc:
  assumes "linked f cs" "cs \<noteq> []" "distinct (cs @ [d])" "\<forall>c \<in> set (cs @ [d]). c < length f" "d < 0x10000"
  shows "linked (f[d := 0xFFFF, last cs := of_nat d]) (cs @ [d])"
proof -
  let ?g = "f[d := 0xFFFF, last cs := of_nat d]"
  have l: "last cs = cs ! (length cs - 1)" by (rule last_conv_nth [OF assms(2)])
  have ne: "last cs \<noteq> d" using assms(2,3) by auto
  have g: "?g ! c = (if c = last cs then of_nat d else if c = d then 0xFFFF else f ! c)" if "c < length f" for c
    using that by (auto simp: nth_list_update)
  have u: "unat (of_nat d :: u16) = d" using assms(5) by (simp add: unat_of_nat take_bit_eq_mod)
  show ?thesis
    unfolding linked_iff
  proof (intro allI impI)
    fix i assume i: "i < length (cs @ [d])"
    have gi: "?g ! ((cs @ [d]) ! i) = (if (cs @ [d]) ! i = last cs then of_nat d else if (cs @ [d]) ! i = d then 0xFFFF else f ! ((cs @ [d]) ! i))"
      by (rule g) (use assms(4) i nth_mem in blast)
    consider "Suc i < length cs" | "Suc i = length cs" | "i = length cs" using i by fastforce
    then show "if Suc i < length (cs @ [d]) then unat (?g ! ((cs @ [d]) ! i)) = (cs @ [d]) ! Suc i
        else 0xFFF8 \<le> unat (?g ! ((cs @ [d]) ! i))"
    proof cases
      case 1
      have "cs ! i \<noteq> last cs" unfolding l using assms(3) 1 by (simp add: nth_eq_iff_index_eq)
      moreover have "cs ! i \<noteq> d" using assms(3) 1 by (auto simp: in_set_conv_nth)
      ultimately show ?thesis using 1 gi linked_nth [OF assms(1), of i] by (simp add: nth_append)
    next
      case 2
      then have "i = length cs - 1" "i < length cs" by simp_all
      then show ?thesis using 2 gi l u by (simp add: nth_append)
    next
      case 3
      then show ?thesis using gi ne by simp
    qed
  qed
qed

section \<open>Reading a chain\<close>

lemma length_chain_data [simp]: "length (chain_data fs cs) = length cs * fat16_cluster_bytes fs"
  by (induction cs) (simp_all add: chain_data_def)

lemma chain_data_simps [simp]:
  "chain_data fs [] = []" "chain_data fs (c # cs) = cdata fs c @ chain_data fs cs"
  "chain_data fs (cs @ ds) = chain_data fs cs @ chain_data fs ds"
  by (simp_all add: chain_data_def)

lemma chain_data_part:
  "q < length cs \<Longrightarrow> r + n \<le> fat16_cluster_bytes fs \<Longrightarrow>
   take n (drop (q * fat16_cluster_bytes fs + r) (chain_data fs cs)) = take n (drop r (cdata fs (cs ! q)))"
proof (induction cs arbitrary: q)
  case (Cons c cs)
  show ?case
  proof (cases q)
    case 0
    then show ?thesis using Cons.prems by simp
  next
    case (Suc p)
    then show ?thesis using Cons.IH [of p] Cons.prems by (simp add: add.assoc)
  qed
qed simp

definition w32 :: "nat \<Rightarrow> u32" where
  "w32 n = of_nat n"

lemma unat_w32: "n < 2 ^ 32 \<Longrightarrow> unat (w32 n) = n"
  by (simp add: w32_def unat_of_nat take_bit_eq_mod)

lemma w32_unat [simp]: "w32 (unat c) = c"
  by (simp add: w32_def)

lemma chain_entry:
  assumes ok: "fs_ok fs" and ch: "chain_ok fs first cs" and i: "i < length cs"
  shows "unat (w32 (cs ! i)) = cs ! i" "2 \<le> cs ! i" "cs ! i < limit_of fs" "cs ! i < length (fat fs)"
    "if Suc i < length cs
     then fat16_get_fat_entry fs (w32 (cs ! i)) = w32 (cs ! Suc i) \<and> 2 \<le> cs ! Suc i \<and> cs ! Suc i < 0xFFF0
     else FAT16_END_OF_CHAIN \<le> fat16_get_fat_entry fs (w32 (cs ! i))"
proof -
  note lim = limit_bounds [OF ok]
  have r: "2 \<le> cs ! j \<and> cs ! j < limit_of fs" if "j < length cs" for j
    using ch that nth_mem unfolding chain_ok_def by blast
  show "2 \<le> cs ! i" "cs ! i < limit_of fs" using r [OF i] by simp_all
  then show l: "cs ! i < length (fat fs)" and u: "unat (w32 (cs ! i)) = cs ! i" using lim by (auto intro!: unat_w32)
  have e: "fat16_get_fat_entry fs (w32 (cs ! i)) = ucast (fat fs ! (cs ! i))"
    using get_fat_entry [OF fs_ok_geometry [OF ok], of "w32 (cs ! i)"] u l by simp
  have n: "if Suc i < length cs then unat (fat fs ! (cs ! i)) = cs ! Suc i else 0xFFF8 \<le> unat (fat fs ! (cs ! i))"
    using ch i linked_nth unfolding chain_ok_def by blast
  have "(ucast v :: u32) = w32 (unat v)" for v :: u16
    by (simp add: w32_def)
  then show "if Suc i < length cs
     then fat16_get_fat_entry fs (w32 (cs ! i)) = w32 (cs ! Suc i) \<and> 2 \<le> cs ! Suc i \<and> cs ! Suc i < 0xFFF0
     else FAT16_END_OF_CHAIN \<le> fat16_get_fat_entry fs (w32 (cs ! i))"
    using n e r [of "Suc i"] lim unat_ucast_small(1) [of "fat fs ! (cs ! i)"] by (auto simp: word_le_nat_alt split: if_splits)
qed

text \<open>A small cluster number is below the special values.\<close>

lemma w32_special:
  assumes "2 \<le> n" "n < 0xFFF0"
  shows "\<not> FAT16_END_OF_CHAIN \<le> w32 n" "w32 n \<noteq> FAT16_BAD_SECTOR" "\<not> FAT16_RESERVED_START \<le> w32 n" "w32 n \<noteq> 0" "\<not> w32 n < 2"
proof -
  have u: "unat (w32 n) = n" using assms by (simp add: unat_w32)
  then show "\<not> FAT16_END_OF_CHAIN \<le> w32 n" "\<not> FAT16_RESERVED_START \<le> w32 n" "\<not> w32 n < 2"
    using assms by (simp_all add: word_le_nat_alt word_less_nat_alt)
  show "w32 n \<noteq> FAT16_BAD_SECTOR" "w32 n \<noteq> 0" using u assms by (auto dest: arg_cong [where f = unat])
qed

lemma offset_loop:
  assumes "fs_ok fs" "chain_ok fs first cs"
  shows "i < length cs \<Longrightarrow>
    offset_loop fs n (w32 (cs ! i)) = (if i + n < length cs then Inr (w32 (cs ! (i + n))) else Inl IO_ERROR)"
proof (induction n arbitrary: i)
  case (Suc n)
  note e = chain_entry(5) [OF assms Suc.prems]
  show ?case
  proof (cases "Suc i < length cs")
    case True
    then have r: "2 \<le> cs ! Suc i" "cs ! Suc i < 0xFFF0" and e': "fat16_get_fat_entry fs (w32 (cs ! i)) = w32 (cs ! Suc i)"
      using e by simp_all
    have "offset_loop fs (Suc n) (w32 (cs ! i)) = offset_loop fs n (w32 (cs ! Suc i))"
      using w32_special [OF r] e' by (simp add: Let_def)
    then show ?thesis using Suc.IH [OF True] by simp
  next
    case False
    then have "FAT16_END_OF_CHAIN \<le> fat16_get_fat_entry fs (w32 (cs ! i))" using e by simp
    then show ?thesis using False Suc.prems by (simp add: Let_def)
  qed
qed simp

lemma cluster_for_offset:
  assumes "fs_ok fs" "chain_ok fs first cs" "cs \<noteq> []"
  shows "fat16_get_cluster_for_offset fs (w32 first) off
    = (if off div fat16_cluster_bytes fs < length cs then Inr (w32 (cs ! (off div fat16_cluster_bytes fs))) else Inl IO_ERROR)"
proof -
  have "first = cs ! 0" using assms(2,3) by (auto simp: chain_ok_def neq_Nil_conv)
  then show ?thesis
    using offset_loop [OF assms(1,2), of 0] assms(3) by (simp add: fat16_get_cluster_for_offset_def)
qed

lemma cb_pos: "fs_ok fs \<Longrightarrow> 0 < fat16_cluster_bytes fs"
  by (simp add: fs_ok_def geometry_ok_def cluster_bytes)

text \<open>A read of one cluster.\<close>

lemma cluster_read:
  assumes ok: "fs_ok fs" and c: "2 \<le> unat c" "unat c < limit_of fs" and p: "off + n \<le> fat16_cluster_bytes fs"
  shows "stream_read (fat16_cluster_to_sector fs c * 512 + of_nat off) n fs = take n (drop off (cdata fs (unat c)))"
proof -
  have g: "geometry_ok fs" using ok by (rule fs_ok_geometry)
  have b: "data_pos fs (unat c) + fat16_cluster_bytes fs < 2 ^ 31"
    using data_pos_bound [OF g c] g by (simp add: geometry_ok_def)
  have u: "unat (fat16_cluster_to_sector fs c * 512 + of_nat off) = data_pos fs (unat c) + off"
    using unat_advance [of "fat16_cluster_to_sector fs c * 512" off] unat_cluster_pos [OF g c] b p by simp
  have "disk_ok (fs_disk fs)" using g by (simp add: geometry_ok_def)
  then show ?thesis
    using u b p stream_read [of fs _ n] by (simp add: cdata_def slice_sub)
qed

lemma fat16_read_internal:
  assumes ok: "fs_ok fs" and ch: "chain_ok fs first cs" and ne: "cs \<noteq> []"
  shows "off + n \<le> length cs * fat16_cluster_bytes fs \<Longrightarrow>
    fat16_read_internal fs (w32 first) off n = Inr (take n (drop off (chain_data fs cs)))"
  unfolding fat16_read_internal_def
proof (induction n arbitrary: off rule: less_induct)
  case (less n)
  let ?cb = "fat16_cluster_bytes fs"
  show ?case
  proof (cases "n = 0")
    case False
    let ?q = "off div ?cb" and ?r = "off mod ?cb"
    define m where "m = (if ?cb - ?r > n then n else ?cb - ?r)"
    note cb = cb_pos [OF ok]
    have "off < length cs * ?cb" using less.prems False by linarith
    then have q: "?q < length cs" using cb by (simp add: less_mult_imp_div_less)
    have m: "0 < m" "m \<le> n" "?r + m \<le> ?cb" using cb False mod_less_divisor [OF cb, of off] by (auto simp: m_def)
    note e = chain_entry [OF ok ch q]
    have c: "fat16_get_cluster_for_offset fs (w32 first) off = Inr (w32 (cs ! ?q))"
      using cluster_for_offset [OF ok ch ne] q by simp
    have rd: "stream_read (fat16_cluster_to_sector fs (w32 (cs ! ?q)) * 512 + of_nat ?r) m fs = take m (drop off (chain_data fs cs))"
      using cluster_read [OF ok _ _ m(3), of "w32 (cs ! ?q)"] e chain_data_part [OF q m(3)] by simp
    have ih: "read_loop fs (w32 first) (off + m) (n - m) = Inr (take (n - m) (drop (off + m) (chain_data fs cs)))"
      by (rule less.IH) (use m less.prems in auto)
    have "take n (drop off (chain_data fs cs)) = take m (drop off (chain_data fs cs)) @ take (n - m) (drop (off + m) (chain_data fs cs))"
      using m take_add [of m "n - m" "drop off (chain_data fs cs)"] by (simp add: add.commute)
    moreover have "read_loop fs (w32 first) off n
        = (case read_loop fs (w32 first) (off + m) (n - m) of Inl e \<Rightarrow> Inl e
           | Inr rest \<Rightarrow> Inr (stream_read (fat16_cluster_to_sector fs (w32 (cs ! ?q)) * 512 + of_nat ?r) m fs @ rest))"
      using False cb unfolding read_loop.simps [of fs "w32 first" off n] c sum.case Let_def m_def [symmetric] by simp
    ultimately show ?thesis using ih rd by simp
  qed (simp add: read_loop.simps)
qed


section \<open>Freeing a chain\<close>

lemma u16_u32_entry: "(ucast (v :: u16) :: u32) = w32 (unat v)"
  by (simp add: w32_def)

lemma free_step:
  assumes ok: "fs_ok fs" and c: "2 \<le> c" "c < limit_of fs"
  defines "fs' \<equiv> fat16_set_fat_entry (w32 c) 0 fs"
  shows "fs_ok fs'" "same_geometry fs fs'" "fat fs' = (fat fs)[c := 0]" "cdata fs' d = cdata fs d"
    "root_item fs' = root_item fs" "root_total fs' = root_total fs"
proof -
  have u: "unat (w32 c) = c" using c limit_bounds [OF ok] by (intro unat_w32) auto
  then have l: "unat (w32 c) < length (fat fs)" using c limit_bounds [OF ok] by auto
  note S = set_fat_entry [OF ok l, where v = 0, folded fs'_def, unfolded u]
  show "fs_ok fs'" "same_geometry fs fs'" "fat fs' = (fat fs)[c := 0]" "root_item fs' = root_item fs" "root_total fs' = root_total fs"
    by (rule S)+
  show "cdata fs' d = cdata fs d" by (rule cdata_beyond [OF fs_ok_geometry [OF ok] S(3,4)])
qed

definition clear_all :: "nat list \<Rightarrow> u16 list \<Rightarrow> u16 list" where
  "clear_all cs f = fold (\<lambda>c f. f[c := 0]) cs f"

lemma clear_all_nth:
  "c < length f \<Longrightarrow> clear_all cs f ! c = (if c \<in> set cs then 0 else f ! c)"
  by (induction cs arbitrary: f) (auto simp: clear_all_def nth_list_update)

lemma length_clear_all [simp]: "length (clear_all cs f) = length f"
  by (induction cs arbitrary: f) (auto simp: clear_all_def)

lemma free_chain_loop:
  "fs_ok fs \<Longrightarrow> chain_ok fs first cs \<Longrightarrow> cs \<noteq> [] \<Longrightarrow> length cs < k \<Longrightarrow>
   let fs' = free_chain_loop k (w32 first) fs
   in fs_ok fs' \<and> same_geometry fs fs' \<and> fat fs' = clear_all cs (fat fs) \<and> (\<forall>d. cdata fs' d = cdata fs d)
      \<and> root_item fs' = root_item fs \<and> root_total fs' = root_total fs"
proof (induction cs arbitrary: k first fs)
  case (Cons c cs)
  obtain k' where k: "k = Suc k'" "length cs < k'" using Cons.prems(4) by (cases k) auto
  have first: "first = c" using Cons.prems(2) by (simp add: chain_ok_def)
  have c: "2 \<le> c" "c < limit_of fs" using Cons.prems(2) by (simp_all add: chain_ok_def)
  define fs1 where "fs1 = fat16_set_fat_entry (w32 c) 0 fs"
  note S = free_step [OF Cons.prems(1) c, folded fs1_def]
  note G = same_geometry [OF S(2)]
  note e = chain_entry [OF Cons.prems(1,2), of 0]
  have c16: "\<not> FAT16_RESERVED_START \<le> w32 c" "\<not> w32 c < 2"
    using w32_special [of c] c limit_bounds [OF Cons.prems(1)] by auto
  have step: "free_chain_loop k (w32 first) fs = free_chain_loop k' (fat16_get_fat_entry fs (w32 c)) fs1"
    using c16 by (simp add: k first fs1_def not_le not_less)
  show ?case
  proof (cases cs)
    case Nil
    then have "FAT16_END_OF_CHAIN \<le> fat16_get_fat_entry fs (w32 c)" using e by simp
    then have "\<not> fat16_get_fat_entry fs (w32 c) < FAT16_RESERVED_START" by (auto simp: word_le_nat_alt word_less_nat_alt)
    then have "free_chain_loop k (w32 first) fs = fs1" using k Nil unfolding step by (cases k') simp_all
    then show ?thesis using S Nil by (simp add: Let_def clear_all_def)
  next
    case (Cons d ds)
    then have en: "fat16_get_fat_entry fs (w32 c) = w32 d" using e by simp
    have nc: "c \<notin> set cs" using Cons.prems(2) by (simp add: chain_ok_def)
    have "linked (fat fs1) cs = linked (fat fs) cs"
      unfolding S(3) by (rule linked_cong, rule nth_list_update_neq) (use nc in blast)
    moreover have "linked (fat fs) cs" using Cons.prems(2) Cons by (simp add: chain_ok_def)
    ultimately have "chain_ok fs1 d cs" using Cons.prems(2) Cons G by (simp add: chain_ok_def)
    from Cons.IH [OF S(1) this _ k(2)] show ?thesis
      using S same_geometry_trans [OF S(2)] Cons unfolding step en by (simp add: Let_def clear_all_def)
  qed
qed simp

lemma chain_length:
  assumes "fs_ok fs" "chain_ok fs first cs"
  shows "length cs < 0xFFF0"
proof -
  have "set cs \<subseteq> {2..<limit_of fs}" using assms(2) by (auto simp: chain_ok_def)
  then have "card (set cs) \<le> card {2..<limit_of fs}" by (intro card_mono) simp_all
  then have "length cs \<le> limit_of fs - 2" using assms(2) by (simp add: chain_ok_def distinct_card)
  then show ?thesis using limit_bounds [OF assms(1)] by linarith
qed

lemma free_chain_spec:
  assumes "fs_ok fs" "chain_ok fs first cs"
  shows "let fs' = fat16_free_chain (w32 first) fs
    in fs_ok fs' \<and> same_geometry fs fs' \<and> fat fs' = clear_all cs (fat fs) \<and> (\<forall>d. cdata fs' d = cdata fs d)
       \<and> root_item fs' = root_item fs \<and> root_total fs' = root_total fs"
proof (cases cs)
  case Nil
  then have "first = 0" using assms(2) by (simp add: chain_ok_def)
  have "free_chain_loop k 0 fs = fs" for k by (cases k) simp_all
  then have "free_chain_loop 65536 (w32 first) fs = fs"
    using \<open>first = 0\<close> by (simp add: w32_def)
  then show ?thesis using assms Nil by (simp add: fat16_free_chain_def Let_def clear_all_def)
next
  case (Cons c cs')
  then show ?thesis
    unfolding fat16_free_chain_def
    by (intro free_chain_loop [OF assms]) (use chain_length [OF assms] in simp_all)
qed

section \<open>Growing a chain\<close>

text \<open>The volume \<open>fs'\<close> comes from \<open>fs\<close> by adding the free clusters \<open>ns\<close> to the chain \<open>cs\<close>.\<close>

definition grown :: "fat_fs \<Rightarrow> nat list \<Rightarrow> nat list \<Rightarrow> fat_fs \<Rightarrow> bool" where
  "grown fs cs ns fs' \<longleftrightarrow> fs_ok fs' \<and> same_geometry fs fs' \<and> root_item fs' = root_item fs \<and> root_total fs' = root_total fs
     \<and> (\<forall>c \<in> set ns. fat fs ! c = 0 \<and> cdata fs' c = replicate (fat16_cluster_bytes fs) 0)
     \<and> (\<forall>c < length (fat fs). c \<notin> set cs \<and> c \<notin> set ns \<longrightarrow> fat fs' ! c = fat fs ! c)
     \<and> (\<forall>c \<ge> 2. c \<notin> set ns \<longrightarrow> cdata fs' c = cdata fs c)"

lemma grown_refl: "fs_ok fs \<Longrightarrow> grown fs cs [] fs"
  by (simp add: grown_def)

lemma grown_trans:
  assumes a: "grown fs cs ns fs1" and b: "grown fs1 (cs @ ns) ms fs2"
    and d: "distinct (cs @ ns @ ms)" "\<forall>c \<in> set (ns @ ms). c < length (fat fs) \<and> 2 \<le> c"
  shows "grown fs cs (ns @ ms) fs2"
proof -
  note G = same_geometry [of fs fs1]
  have g: "same_geometry fs fs1" using a by (simp add: grown_def)
  have 1: "fat fs ! c = 0 \<and> cdata fs2 c = replicate (fat16_cluster_bytes fs) 0" if c: "c \<in> set (ns @ ms)" for c
  proof (cases "c \<in> set ns")
    case True
    then have "c \<notin> set ms" "2 \<le> c" using d by auto
    then show ?thesis using a b True by (simp add: grown_def)
  next
    case False
    then have m: "c \<in> set ms" "c \<notin> set cs" "c < length (fat fs)" using c d by auto
    then have "fat fs1 ! c = 0 \<and> cdata fs2 c = replicate (fat16_cluster_bytes fs) 0"
      using b G(7) [OF g] by (simp add: grown_def)
    moreover have "fat fs1 ! c = fat fs ! c" using a m False unfolding grown_def by blast
    ultimately show ?thesis by metis
  qed
  have 2: "fat fs2 ! c = fat fs ! c" if "c < length (fat fs)" "c \<notin> set cs" "c \<notin> set (ns @ ms)" for c
    using a b that G(11) [OF g] by (simp add: grown_def)
  have 3: "cdata fs2 c = cdata fs c" if "2 \<le> c" "c \<notin> set (ns @ ms)" for c
    using a b that by (simp add: grown_def)
  show ?thesis
    using a b 1 2 3 same_geometry_trans [of fs fs1 fs2] unfolding grown_def by simp
qed

lemma link_fresh:
  assumes ok: "fs_ok fs" and ch: "chain_ok fs first cs" and ne: "cs \<noteq> []"
    and al: "allocated fs d fs1"
  defines "fs2 \<equiv> fat16_set_fat_entry (w32 (last cs)) (of_nat d) fs1"
  shows "grown fs cs [d] fs2" "chain_ok fs2 first (cs @ [d])"
proof -
  note lim = limit_bounds [OF ok]
  have A: "fs_ok fs1" "same_geometry fs fs1" "2 \<le> d" "d < limit_of fs" "fat fs ! d = 0" "fat fs1 = (fat fs)[d := 0xFFFF]"
    "cdata fs1 d = replicate (fat16_cluster_bytes fs) 0" "\<And>e. e \<ge> 2 \<Longrightarrow> e \<noteq> d \<Longrightarrow> cdata fs1 e = cdata fs e"
    "root_item fs1 = root_item fs" "root_total fs1 = root_total fs"
    using al by (simp_all add: allocated_def)
  note G1 = same_geometry [OF A(2)]
  have r: "\<And>c. c \<in> set cs \<Longrightarrow> 2 \<le> c \<and> c < limit_of fs" using ch by (simp add: chain_ok_def)
  have l: "last cs \<in> set cs" using ne by simp
  have lt: "last cs \<noteq> c" if "c \<notin> set cs" for c using l that by blast
  have u: "unat (w32 (last cs)) = last cs" using r [OF l] lim by (intro unat_w32) auto
  have ll: "unat (w32 (last cs)) < length (fat fs1)" using r [OF l] lim u G1 by simp
  note S = set_fat_entry [OF A(1) ll, where v = "of_nat d", folded fs2_def, unfolded u]
  have cd: "cdata fs2 e = cdata fs1 e" for e by (rule cdata_beyond [OF fs_ok_geometry [OF A(1)] S(3,4)])
  have d: "d \<notin> set cs"
    using ch A(5) linked_nonzero r by (auto simp: chain_ok_def)
  have sg: "same_geometry fs fs2" by (rule same_geometry_trans [OF A(2) S(3)])
  show "grown fs cs [d] fs2"
    unfolding grown_def using S sg A cd lt lim by (auto simp: nth_list_update)
  have "linked ((fat fs)[d := 0xFFFF, last cs := of_nat d]) (cs @ [d])"
  proof (rule linked_snoc)
    show "\<forall>c \<in> set (cs @ [d]). c < length (fat fs)" using r A(4) lim by fastforce
  qed (use ch ne d A(4) lim in \<open>auto simp: chain_ok_def\<close>)
  then show "chain_ok fs2 first (cs @ [d])"
    using ch ne d A(3,4) S(1) A(6) same_geometry [OF sg] by (auto simp: chain_ok_def neq_Nil_conv split: list.splits)
qed

lemma chain_ok_lt: "fs_ok fs \<Longrightarrow> chain_ok fs first cs \<Longrightarrow> c \<in> set cs \<Longrightarrow> c < length (fat fs) \<and> 2 \<le> c"
  using limit_bounds [of fs] by (auto simp: chain_ok_def)

lemma cluster_at_loop:
  "fs_ok fs \<Longrightarrow> chain_ok fs first cs \<Longrightarrow> i < length cs \<Longrightarrow> cluster_at_loop True n (w32 (cs ! i)) fs = (r, fs') \<Longrightarrow>
    \<exists>ns. grown fs cs ns fs' \<and> chain_ok fs' first (cs @ ns) \<and> (i + n < length cs \<longrightarrow> ns = [] \<and> fs' = fs)
      \<and> (case r of Inr c \<Rightarrow> i + n < length (cs @ ns) \<and> c = w32 ((cs @ ns) ! (i + n))
            \<and> (length cs \<le> i + n \<longrightarrow> length (cs @ ns) = i + n + 1)
         | Inl e \<Rightarrow> e = NO_MEMORY_ERROR \<and> no_free fs' \<and> length (cs @ ns) \<le> i + n)"
proof (induction n arbitrary: i cs fs)
  case 0
  then show ?case using grown_refl [OF 0(1)] by (intro exI [of _ "[]"]) auto
next
  case (Suc n)
  note e = chain_entry [OF Suc.prems(1-3)]
  show ?case
  proof (cases "Suc i < length cs")
    case True
    then have r: "2 \<le> cs ! Suc i" "cs ! Suc i < 0xFFF0" and e': "fat16_get_fat_entry fs (w32 (cs ! i)) = w32 (cs ! Suc i)"
      using e(5) by simp_all
    have "cluster_at_loop True n (w32 (cs ! Suc i)) fs = (r, fs')"
      using Suc.prems(4) w32_special [OF r] e' by (simp add: Let_def)
    from Suc.IH [OF Suc.prems(1,2) True this] show ?thesis unfolding add_Suc_shift .
  next
    case False
    then have last: "i = length cs - 1" "Suc i = length cs" using Suc.prems(3) by simp_all
    have ne: "cs \<noteq> []" using Suc.prems(3) by auto
    have lc: "cs ! i = last cs" using last ne by (simp add: last_conv_nth)
    have eoc: "FAT16_END_OF_CHAIN \<le> fat16_get_fat_entry fs (w32 (cs ! i))" using e(5) False by simp
    show ?thesis
    proof (cases "fat16_alloc_cluster fs")
      case (Inl x)
      then have "r = Inl x" "fs' = fs" using Suc.prems(4) eoc by (simp_all add: Let_def)
      moreover have "x = NO_MEMORY_ERROR \<and> no_free fs" using alloc_spec [OF Suc.prems(1)] unfolding Inl by simp
      ultimately show ?thesis
        using grown_refl [OF Suc.prems(1), of cs] Suc.prems(2) last(2)
        by (intro exI [of _ "[]"]) simp
    next
      case (Inr p)
      obtain new fs1 where p: "p = (new, fs1)" by fastforce
      let ?d = "unat new"
      define fs2 where "fs2 = fat16_set_fat_entry (w32 (last cs)) (of_nat ?d) fs1"
      have al: "allocated fs ?d fs1" using alloc_spec [OF Suc.prems(1)] unfolding Inr p by simp
      note L = link_fresh [OF Suc.prems(1,2) ne al, folded fs2_def]
      have uc: "(ucast new :: u16) = of_nat ?d" by simp
      have w: "cluster_at_loop True n (w32 ((cs @ [?d]) ! Suc i)) fs2 = (r, fs')"
      proof -
        have "(cs @ [?d]) ! Suc i = ?d" unfolding last(2) by simp
        moreover have "cluster_at_loop True (Suc n) (w32 (cs ! i)) fs = cluster_at_loop True n new fs2"
          unfolding cluster_at_loop.simps Let_def Inr p sum.case prod.case fs2_def uc [symmetric] lc
          using eoc unfolding lc by simp
        ultimately show ?thesis using Suc.prems(4) by simp
      qed
      have ok2: "fs_ok fs2" using L(1) by (simp add: grown_def)
      have i2: "Suc i < length (cs @ [?d])" using last by simp
      obtain ns where "grown fs2 (cs @ [?d]) ns fs' \<and> chain_ok fs' first ((cs @ [?d]) @ ns)
        \<and> (Suc i + n < length (cs @ [?d]) \<longrightarrow> ns = [] \<and> fs' = fs2)
        \<and> (case r of Inr c \<Rightarrow> Suc i + n < length ((cs @ [?d]) @ ns) \<and> c = w32 (((cs @ [?d]) @ ns) ! (Suc i + n))
            \<and> (length (cs @ [?d]) \<le> Suc i + n \<longrightarrow> length ((cs @ [?d]) @ ns) = Suc i + n + 1)
         | Inl e \<Rightarrow> e = NO_MEMORY_ERROR \<and> no_free fs' \<and> length ((cs @ [?d]) @ ns) \<le> Suc i + n)"
        by (rule exE [OF Suc.IH [OF ok2 L(2) i2 w]])
      note ns = conjunct1 [OF this] conjunct1 [OF conjunct2 [OF this]] conjunct1 [OF conjunct2 [OF conjunct2 [OF this]]]
        conjunct2 [OF conjunct2 [OF conjunct2 [OF this]]]
      have ok': "fs_ok fs'" and sg': "length (fat fs') = length (fat fs)"
        using ns(1) L(1) same_geometry(11) by (auto simp: grown_def)
      have "grown fs cs ([?d] @ ns) fs'"
        by (rule grown_trans [OF L(1) ns(1)])
          (use ns(2) chain_ok_lt [OF ok' ns(2)] sg' in \<open>auto simp: chain_ok_def\<close>)
      moreover have "chain_ok fs' first (cs @ [?d] @ ns)" using ns(2) by simp
      moreover have "case r of Inr c \<Rightarrow> i + Suc n < length (cs @ [?d] @ ns) \<and> c = w32 ((cs @ [?d] @ ns) ! (i + Suc n))
            \<and> (length cs \<le> i + Suc n \<longrightarrow> length (cs @ [?d] @ ns) = i + Suc n + 1)
         | Inl e \<Rightarrow> e = NO_MEMORY_ERROR \<and> no_free fs' \<and> length (cs @ [?d] @ ns) \<le> i + Suc n"
      proof (cases "Suc i + n < length (cs @ [?d])")
        case True
        then have "n = 0" "ns = []" using last ns(3) by simp_all
        then show ?thesis using ns(4) last by (simp split: sum.splits)
      next
        case False
        then show ?thesis using ns(4) by (cases r) (simp_all add: add_Suc_shift)
      qed
      ultimately show ?thesis using last(2) by (intro exI [of _ "[?d] @ ns"]) simp
    qed
  qed
qed


lemma cluster_at_spec:
  assumes ok: "fs_ok fs" and ch: "chain_ok fs first cs" and first: "first < 2 ^ 32"
    and r: "fat16_cluster_at (w32 first) idx True fs = (r, first', fs')"
  shows "\<exists>ns. grown fs cs ns fs' \<and> chain_ok fs' (unat first') (cs @ ns) \<and> (idx < length cs \<longrightarrow> ns = [] \<and> fs' = fs)
      \<and> (case r of Inr c \<Rightarrow> idx < length (cs @ ns) \<and> c = w32 ((cs @ ns) ! idx)
            \<and> (length cs \<le> idx \<longrightarrow> length (cs @ ns) = idx + 1)
         | Inl e \<Rightarrow> e = NO_MEMORY_ERROR \<and> no_free fs' \<and> length (cs @ ns) \<le> idx)"
proof (cases cs)
  case (Cons c cs')
  have f: "first = cs ! 0" "unat (w32 first) = first" using ch Cons first by (auto simp: chain_ok_def unat_w32)
  have "w32 first \<noteq> 0"
    using w32_special [of first] ch Cons limit_bounds [OF ok] by (auto simp: chain_ok_def)
  then have "cluster_at_loop True idx (w32 (cs ! 0)) fs = (r, fs')" and f': "first' = w32 first"
    using r f(1) by (auto simp: fat16_cluster_at_def split: prod.splits)
  from cluster_at_loop [OF ok ch _ this(1), unfolded add_0] show ?thesis using Cons f f' by simp
next
  case Nil
  then have z: "first = 0" using ch by (simp add: chain_ok_def)
  show ?thesis
  proof (cases "fat16_alloc_cluster fs")
    case (Inl e)
    then have "r = Inl e" "first' = w32 first" "fs' = fs" using r z by (simp_all add: fat16_cluster_at_def w32_def)
    then show ?thesis
      using alloc_spec [OF ok] grown_refl [OF ok] ch Nil z unfolding Inl by (intro exI [of _ "[]"]) (simp add: w32_def)
  next
    case (Inr p)
    obtain new fs1 where p: "p = (new, fs1)" by fastforce
    let ?d = "unat new"
    have A: "allocated fs ?d fs1" using alloc_spec [OF ok] unfolding Inr p by simp
    have ok1: "fs_ok fs1" and sg: "same_geometry fs fs1" and d: "2 \<le> ?d" "?d < limit_of fs"
      and fat1: "fat fs1 = (fat fs)[?d := 0xFFFF]" using A by (simp_all add: allocated_def)
    note G = same_geometry [OF sg]
    have "fat fs1 ! ?d = 0xFFFF" using d limit_bounds [OF ok] by (simp add: fat1)
    then have ch1: "chain_ok fs1 ?d [?d]" using d G by (simp add: chain_ok_def)
    have g1: "grown fs [] [?d] fs1" using A by (auto simp: allocated_def grown_def nth_list_update)
    have "cluster_at_loop True idx (w32 ([?d] ! 0)) fs1 = (r, fs')" and f': "first' = new"
      using r z Inr p by (auto simp: fat16_cluster_at_def w32_def split: prod.splits)
    note loop = cluster_at_loop [OF ok1 ch1 _ this(1)]
    have "0 < length [?d]" by simp
    from loop [OF this] obtain ns where ns: "grown fs1 [?d] ns fs'" "chain_ok fs' ?d ([?d] @ ns)"
      "0 + idx < length [?d] \<longrightarrow> ns = [] \<and> fs' = fs1"
      "case r of Inr c \<Rightarrow> 0 + idx < length ([?d] @ ns) \<and> c = w32 (([?d] @ ns) ! (0 + idx))
            \<and> (length [?d] \<le> 0 + idx \<longrightarrow> length ([?d] @ ns) = 0 + idx + 1)
         | Inl e \<Rightarrow> e = NO_MEMORY_ERROR \<and> no_free fs' \<and> length ([?d] @ ns) \<le> 0 + idx"
      by (elim exE conjE)
    have ok': "fs_ok fs'" and l: "length (fat fs') = length (fat fs)"
      using ns(1) G(11) same_geometry(11) by (auto simp: grown_def)
    have "grown fs [] ([?d] @ ns) fs'"
      by (rule grown_trans [OF g1]) (use ns(1,2) chain_ok_lt [OF ok' ns(2)] l in \<open>auto simp: chain_ok_def\<close>)
    then show ?thesis
      using ns(2,3,4) f' Nil by (intro exI [of _ "[?d] @ ns"]) (cases r; auto)
  qed
qed

section \<open>A small volume\<close>

definition demo_image :: "nat \<Rightarrow> u8" where
  "demo_image = (\<lambda>i. if i \<in> {518, 519, 1030, 1031} then 255 else if i = 516 \<or> i = 1028 then 3 else if 2048 \<le> i \<and> i < 3072 then 7 else 0)"

definition demo_fs :: fat_fs where
  "demo_fs = \<lparr>fs_disk = \<lparr>image = demo_image, lba_offset = 0\<rparr>,
    header = \<lparr>sectors_per_cluster = 1, reserved_sectors = 1, fat_copies = 2, root_dir_entries = 16,
      number_of_sectors = 10, sectors_per_fat = 1, sectors_big = 0, signature = 0x29\<rparr>,
    root_item = replicate 16 (replicate 32 0), root_total = 0, root_sector_pos = 3, root_ending_sector_pos = 4,
    next_free_cluster = 0, fat = (replicate 256 0)[2 := 3, 3 := 0xFFFF]\<rparr>"

lemma demo_fs_ok: "fs_ok demo_fs"
proof -
  have u: "unat (of_nat n :: u32) = n" if "n < 2 ^ 32" for n using that by (simp add: unat_of_nat take_bit_eq_mod)
  have "geometry_ok demo_fs"
    by (simp add: geometry_ok_def demo_fs_def disk_ok_def clusters_per_def volume_sectors_def limit_of_def)
  moreover have "fat_synced demo_fs"
  proof -
    have "slice (part (fs_disk demo_fs)) (fat_start demo_fs k + 2 * c) 2 = le16 (fat demo_fs ! c)" if "k < 2" "c < 256" for k c
    proof -
      have "k = 0 \<or> k = 1" using that by auto
      moreover have "c = 2 \<or> c = 3 \<or> (c \<noteq> 2 \<and> c \<noteq> 3)" by blast
      ultimately show ?thesis using that
        by (elim disjE) (auto simp: slice_def upt_rec part_def demo_fs_def demo_image_def fat_start_def le16_def nth_list_update)
    qed
    then show ?thesis by (simp add: fat_synced_def demo_fs_def)
  qed
  moreover have "root_synced demo_fs"
    by (auto simp: root_synced_def demo_fs_def root_start_def slice_def part_def demo_image_def intro!: nth_equalityI)
  ultimately show ?thesis by (simp add: fs_ok_def)
qed

lemma demo_chain: "chain_ok demo_fs 2 [2, 3]"
  by (simp add: chain_ok_def demo_fs_def limit_of_def volume_sectors_def clusters_per_def)


section \<open>Freeing always ends\<close>


















section \<open>The results\<close>

text \<open>C22. An allocation takes a cluster that was free, marks it as the end of a chain in every copy of the
  table, zeroes it, and touches no other entry, no other cluster and not the root directory. It fails only on
  a volume without a free cluster, and then changes nothing.\<close>

theorem fat16_alloc_cluster_result:
  assumes "fs_ok fs"
  shows "case fat16_alloc_cluster fs of
      Inr (c, fs') \<Rightarrow> allocated fs (unat c) fs'
    | Inl e \<Rightarrow> e = NO_MEMORY_ERROR \<and> no_free fs"
  by (rule alloc_spec [OF assms])

theorem fat16_alloc_cluster_result_witness:
  "\<exists>c fs'. fat16_alloc_cluster demo_fs = Inr (c, fs') \<and> allocated demo_fs (unat c) fs'"
proof -
  have "\<not> no_free demo_fs"
    by (auto simp: no_free_def demo_fs_def limit_of_def volume_sectors_def clusters_per_def intro!: exI [of _ 4])
  then show ?thesis
    using fat16_alloc_cluster_result [OF demo_fs_ok] by (cases "fat16_alloc_cluster demo_fs") auto
qed

text \<open>C25. Freeing a chain clears exactly the entries of the chain, in every copy of the table, and leaves
  the other entries, all clusters and the root directory as they are.\<close>

theorem fat16_free_chain_result:
  assumes "fs_ok fs" "chain_ok fs first cs"
  shows "let fs' = fat16_free_chain (w32 first) fs
    in fs_ok fs' \<and> same_geometry fs fs' \<and> fat fs' = clear_all cs (fat fs) \<and> (\<forall>d. cdata fs' d = cdata fs d)
       \<and> root_item fs' = root_item fs \<and> root_total fs' = root_total fs"
  by (rule free_chain_spec [OF assms])

theorem fat16_free_chain_result_witness:
  "fat demo_fs ! 2 = 3 \<and> fat (fat16_free_chain (w32 2) demo_fs) = replicate 256 0"
proof -
  have "fat (fat16_free_chain (w32 2) demo_fs) = clear_all [2, 3] (fat demo_fs)"
    using fat16_free_chain_result [OF demo_fs_ok demo_chain] by (simp add: Let_def)
  moreover have "clear_all [2, 3] (fat demo_fs) = replicate 256 0"
    by (rule nth_equalityI) (simp_all add: clear_all_nth demo_fs_def)
  ultimately show ?thesis by (simp add: demo_fs_def)
qed

end
