(* ===== verification/FatFile.thy ===== *)
theory FatFile
  imports FatTable
begin

text \<open>
  Files and directories of \<^verbatim>\<open>src/file_system/fat/fat16.c\<close>: mounting, lookup, open, read, seek, stat, listdir,
  write, create, remove and mkdir.

  Allocations of descriptors and copies of items succeed in the model; a \<^verbatim>\<open>calloc\<close> of 0 bytes fails, as
  in the heap. The reading of the clock is an argument, \<open>(date, time)\<close>. The path is the list of its parts.
  Results are an error or a value; the codes \<^verbatim>\<open>res < 0\<close> after a disk access are dead, because the disk
  routines always return \<^verbatim>\<open>OK\<close>.
\<close>

section \<open>Mounting\<close>

definition parse_header :: "bytes \<Rightarrow> fat_header" where
  "parse_header b = \<lparr>sectors_per_cluster = byte_at b 13, reserved_sectors = get16 b 14, fat_copies = byte_at b 16,
    root_dir_entries = get16 b 17, number_of_sectors = get16 b 19, sectors_per_fat = get16 b 22,
    sectors_big = get32 b 32, signature = byte_at b 38\<rparr>"

fun count_root_loop :: "disk \<Rightarrow> u32 \<Rightarrow> nat \<Rightarrow> nat \<Rightarrow> nat" where
  "count_root_loop d pos 0 i = i"
| "count_root_loop d pos (Suc k) i =
    (let (item, pos) = read_at d pos 32
     in if byte_at item 0 = FAT_ENTRY_END then i else count_root_loop d pos k (i + 1))"

definition fat16_get_total_items_for_directory :: "disk \<Rightarrow> u32 \<Rightarrow> nat \<Rightarrow> nat" where
  "fat16_get_total_items_for_directory d directory_start_sector max_items =
    count_root_loop d (directory_start_sector * 512) max_items 0"

fun chunks32 :: "nat \<Rightarrow> bytes \<Rightarrow> fat_item_bytes list" where
  "chunks32 0 bs = []"
| "chunks32 (Suc n) bs = take 32 bs # chunks32 n (drop 32 bs)"

text \<open>The items, their number, the first sector of the root directory and the first one after it.\<close>

definition fat16_get_root_directory :: "disk \<Rightarrow> fat_header \<Rightarrow> error + (fat_item_bytes list \<times> nat \<times> nat \<times> nat)" where
  "fat16_get_root_directory d h =
    (let root_dir_sector_pos = unat (fat_copies h) * unat (sectors_per_fat h) + unat (reserved_sectors h);
         entries = unat (root_dir_entries h); root_dir_size = entries * 32;
         total_sectors = root_dir_size div SECTOR_SIZE + (if root_dir_size mod SECTOR_SIZE \<noteq> 0 then 1 else 0);
         total_items = fat16_get_total_items_for_directory d (of_nat root_dir_sector_pos) entries
     in if root_dir_size = 0 then Inl NO_MEMORY_ERROR
        else Inr (chunks32 entries (fst (read_at d (fat16_sector_to_absolute (of_nat root_dir_sector_pos)) root_dir_size)),
                  total_items, root_dir_sector_pos, root_dir_sector_pos + total_sectors))"

fun entries16 :: "nat \<Rightarrow> bytes \<Rightarrow> u16 list" where
  "entries16 0 bs = []"
| "entries16 (Suc n) bs = get16 bs 0 # entries16 n (drop 2 bs)"

definition fat16_resolve :: "disk \<Rightarrow> error + fat_fs" where
  "fat16_resolve d =
    (let h = parse_header (fst (read_at d 0 62))
     in if signature h \<noteq> FAT16_SIGNATURE then Inl SIGNATURE_ERROR
        else case fat16_get_root_directory d h of
               Inl e \<Rightarrow> Inl IO_ERROR
             | Inr (items, n, pos, ending) \<Rightarrow>
                 (let fat_bytes = unat (sectors_per_fat h) * SECTOR_SIZE
                  in if fat_bytes = 0 then Inl NO_MEMORY_ERROR
                     else Inr \<lparr>fs_disk = d, header = h, root_item = items, root_total = n, root_sector_pos = pos,
                       root_ending_sector_pos = ending, next_free_cluster = 0,
                       fat = entries16 (fat_bytes div 2)
                         (fst (read_at d (ucast (reserved_sectors h) * 512) fat_bytes))\<rparr>))"

section \<open>Directories\<close>

record fat_directory =
  dir_items :: "fat_item_bytes list"
  dir_sector_pos :: u32
  dir_first_cluster :: u32

datatype fat_item = Fat_file fat_item_bytes | Fat_directory fat_directory

definition root_directory :: "fat_fs \<Rightarrow> fat_directory" where
  "root_directory fs = \<lparr>dir_items = take (root_total fs) (root_item fs),
    dir_sector_pos = of_nat (root_sector_pos fs), dir_first_cluster = 0\<rparr>"

text \<open>Items of a subdirectory up to the end marker or the end of the chain. At \<open>2 ^ 26\<close> items the byte
  offset, an \<^verbatim>\<open>int\<close>, would overflow; only a chain with a cycle gets there.\<close>

function count_sub_loop :: "fat_fs \<Rightarrow> u32 \<Rightarrow> nat \<Rightarrow> nat" where
  "count_sub_loop fs cluster i =
    (if i \<ge> 2 ^ 26 then i
     else case fat16_read_internal fs cluster (i * 32) 32 of
            Inl e \<Rightarrow> i
          | Inr item \<Rightarrow> if byte_at item 0 = FAT_ENTRY_END then i else count_sub_loop fs cluster (i + 1))"
  by pat_completeness auto
termination by (relation "measure (\<lambda>(fs, cluster, i). 2 ^ 26 - i)") auto

declare count_sub_loop.simps [simp del]

definition fat16_get_total_items_for_subdirectory :: "fat_fs \<Rightarrow> u32 \<Rightarrow> nat" where
  "fat16_get_total_items_for_subdirectory fs cluster = count_sub_loop fs cluster 0"

definition fat16_load_fat_directory :: "fat_fs \<Rightarrow> fat_item_bytes \<Rightarrow> fat_directory option" where
  "fat16_load_fat_directory fs it =
    (if attribute it AND FAT_FILE_SUBDIRECTORY = 0 then None
     else let cluster = fat16_get_first_cluster it;
              n = fat16_get_total_items_for_subdirectory fs cluster;
              dir = \<lparr>dir_items = [], dir_sector_pos = fat16_cluster_to_sector fs cluster, dir_first_cluster = cluster\<rparr>
          in if n = 0 then Some dir
             else case fat16_read_internal fs cluster 0 (n * 32) of
                    Inl e \<Rightarrow> None
                  | Inr bs \<Rightarrow> Some (dir\<lparr>dir_items := chunks32 n bs\<rparr>))"

definition fat16_new_fat_item_for_directory_item :: "fat_fs \<Rightarrow> fat_item_bytes \<Rightarrow> fat_item option" where
  "fat16_new_fat_item_for_directory_item fs it =
    (if attribute it AND FAT_FILE_SUBDIRECTORY \<noteq> 0
     then case fat16_load_fat_directory fs it of None \<Rightarrow> None | Some d \<Rightarrow> Some (Fat_directory d)
     else Some (Fat_file it))"

definition fat16_find_item_in_directory :: "fat_fs \<Rightarrow> fat_directory \<Rightarrow> bytes \<Rightarrow> fat_item option" where
  "fat16_find_item_in_directory fs dir name =
    (case fat16_find_index (dir_items dir) name of
       None \<Rightarrow> None
     | Some i \<Rightarrow> fat16_new_fat_item_for_directory_item fs (dir_items dir ! i))"

text \<open>When a part in the middle of the path is missing, the code goes on to read the type of the null item;
  the model takes that read to give something else than a directory, so that the walk ends there.\<close>

fun walk_loop :: "fat_fs \<Rightarrow> fat_item \<Rightarrow> bytes list \<Rightarrow> fat_item option" where
  "walk_loop fs current_item [] = Some current_item"
| "walk_loop fs current_item (next_part # parts) =
    (case current_item of
       Fat_file it \<Rightarrow> None
     | Fat_directory d \<Rightarrow>
         (case fat16_find_item_in_directory fs d next_part of
            None \<Rightarrow> None
          | Some tmp_item \<Rightarrow> walk_loop fs tmp_item parts))"

fun fat16_get_directory_entry :: "fat_fs \<Rightarrow> bytes list \<Rightarrow> fat_item option" where
  "fat16_get_directory_entry fs [] = None"
| "fat16_get_directory_entry fs (name # parts) =
    (case fat16_find_item_in_directory fs (root_directory fs) name of
       None \<Rightarrow> None
     | Some item \<Rightarrow> walk_loop fs item parts)"

record file_dirent =
  de_name :: bytes
  de_size :: u32
  is_dir :: bool
  de_date :: u16
  de_time :: u16

fun listdir_loop :: "fat_item_bytes list \<Rightarrow> nat list \<Rightarrow> nat \<Rightarrow> file_dirent list" where
  "listdir_loop items [] room = []"
| "listdir_loop items (i # is) room =
    (if room = 0 then []
     else let it = items ! i
          in if skipped it \<or> byte_at it 0 = 46 then listdir_loop items is room
             else \<lparr>de_name = fat16_get_item_name items i 64, de_size = filesize it,
                    is_dir = (attribute it AND FAT_FILE_SUBDIRECTORY \<noteq> 0),
                    de_date = get16 it 24, de_time = get16 it 22\<rparr> # listdir_loop items is (room - 1))"

definition fat16_listdir :: "fat_fs \<Rightarrow> bytes list \<Rightarrow> int \<Rightarrow> error + file_dirent list" where
  "fat16_listdir fs path max_entries =
    (case (if path = [] then Inr (root_directory fs)
           else case fat16_get_directory_entry fs path of
                  None \<Rightarrow> Inl NOT_FOUND_ERROR
                | Some (Fat_file it) \<Rightarrow> Inl NOT_DIRECTORY_ERROR
                | Some (Fat_directory d) \<Rightarrow> Inr d) of
       Inl e \<Rightarrow> Inl e
     | Inr d \<Rightarrow> Inr (listdir_loop (dir_items d) [0..<length (dir_items d)] (nat max_entries)))"

section \<open>Directory items on disk\<close>

definition fat16_dir_entry_pos :: "fat_fs \<Rightarrow> fat_directory \<Rightarrow> nat \<Rightarrow> error + u32" where
  "fat16_dir_entry_pos fs dir idx =
    (let offset = idx * 32
     in if dir_first_cluster dir = 0 then Inr (dir_sector_pos dir * 512 + of_nat offset)
        else case fat16_get_cluster_for_offset fs (dir_first_cluster dir) offset of
               Inl e \<Rightarrow> Inl e
             | Inr cluster \<Rightarrow> Inr (fat16_cluster_to_sector fs cluster * 512 + of_nat (offset mod fat16_cluster_bytes fs)))"

definition fat16_write_dir_entry :: "u32 \<Rightarrow> fat_item_bytes \<Rightarrow> fat_fs \<Rightarrow> fat_fs" where
  "fat16_write_dir_entry pos it fs =
    (let fs = stream_write pos it fs;
         start = of_nat (root_sector_pos fs) * 512;
         entries = root_dir_entries (header fs)
     in if pos \<ge> start \<and> pos < start + ucast entries * 32
        then let idx = unat ((pos - start) div 32)
             in fs\<lparr>root_item := (root_item fs)[idx := it],
                   root_total := (if byte_at it 0 \<noteq> FAT_ENTRY_END \<and> idx \<ge> root_total fs then idx + 1 else root_total fs)\<rparr>
        else fs)"

fun slot_loop :: "fat_item_bytes list \<Rightarrow> nat \<Rightarrow> nat \<Rightarrow> nat \<Rightarrow> nat option" where
  "slot_loop [] count i run = None"
| "slot_loop (it # its) count i run =
    (let run = (if byte_at it 0 = FAT_ENTRY_DELETED then run + 1 else 0)
     in if run = count then Some (i + 1 - count) else slot_loop its count (i + 1) run)"

definition fat16_find_free_slot :: "fat_directory \<Rightarrow> nat \<Rightarrow> fat_fs \<Rightarrow> (error + nat) \<times> fat_fs" where
  "fat16_find_free_slot dir count fs =
    (case slot_loop (dir_items dir) count 0 0 of
       Some i \<Rightarrow> (Inr i, fs)
     | None \<Rightarrow>
         (let idx = length (dir_items dir)
         in if dir_first_cluster dir = 0
            then (if idx + count < unat (root_dir_entries (header fs)) then Inr idx else Inl NO_MEMORY_ERROR, fs)
            else let per_cluster = fat16_cluster_bytes fs div 32
                 in case fat16_cluster_at (dir_first_cluster dir) ((idx + count) div per_cluster) True fs of
                      (Inl e, first, fs) \<Rightarrow> (Inl e, fs)
                    | (Inr c, first, fs) \<Rightarrow> (Inr idx, fs)))"

type_synonym fat_clock = "u16 \<times> u16"

definition fat16_stamp_item :: "fat_clock \<Rightarrow> fat_item_bytes \<Rightarrow> fat_item_bytes" where
  "fat16_stamp_item now it =
    put16 18 (fst now) (put16 22 (snd now) (put16 24 (fst now) (put16 14 (snd now) (put16 16 (fst now) it))))"

definition fat16_get_parent :: "fat_fs \<Rightarrow> bytes list \<Rightarrow> error + (fat_directory \<times> bytes)" where
  "fat16_get_parent fs path =
    (if path = [] then Inl INVALID_PATH_ERROR
     else if tl path = [] then Inr (root_directory fs, hd path)
     else case fat16_get_directory_entry fs (butlast path) of
            None \<Rightarrow> Inl NOT_FOUND_ERROR
          | Some (Fat_file it) \<Rightarrow> Inl NOT_DIRECTORY_ERROR
          | Some (Fat_directory d) \<Rightarrow> Inr (d, List.last path))"

text \<open>Writes the entries from slot \<open>i\<close> on; the position of the last one is the result.\<close>

fun write_entries :: "fat_directory \<Rightarrow> nat \<Rightarrow> fat_item_bytes list \<Rightarrow> fat_fs \<Rightarrow> (error + u32) \<times> fat_fs" where
  "write_entries dir i [] fs = (Inl IO_ERROR, fs)"
| "write_entries dir i (it # its) fs =
    (case fat16_dir_entry_pos fs dir i of
       Inl e \<Rightarrow> (Inl e, fs)
     | Inr pos \<Rightarrow>
         let fs = fat16_write_dir_entry pos it fs
         in if its = [] then (Inr pos, fs) else write_entries dir (i + 1) its fs)"

text \<open>The entry as it is stored is part of the result: the code fills in its name through the pointer.\<close>

definition fat16_create_item :: "fat_directory \<Rightarrow> bytes \<Rightarrow> fat_item_bytes \<Rightarrow> fat_fs \<Rightarrow> (error + u32 \<times> fat_item_bytes) \<times> fat_fs" where
  "fat16_create_item dir name it fs =
    (case (case fat16_make_short_name name of
             Inr (out, bits) \<Rightarrow> Inr (out @ drop 11 (it[12 := bits]), [])
           | Inl e \<Rightarrow>
               (if \<not> fat16_valid_long_name name then Inl INVALID_PATH_ERROR
               else case fat16_make_alias (dir_items dir) name of
                      Inl e \<Rightarrow> Inl e
                    | Inr out \<Rightarrow> Inr (out @ drop 11 (it[12 := 0]), make_lfn name (fat16_short_name_checksum out)))) of
       Inl e \<Rightarrow> (Inl e, fs)
     | Inr (it, lfn) \<Rightarrow>
         (case fat16_find_free_slot dir (length lfn + 1) fs of
            (Inl e, fs) \<Rightarrow> (Inl e, fs)
          | (Inr slot, fs) \<Rightarrow>
              (case write_entries dir slot (lfn @ [it]) fs of
                 (Inl e, fs) \<Rightarrow> (Inl e, fs)
               | (Inr pos, fs) \<Rightarrow> (Inr (pos, it), fs))))"


section \<open>Open files\<close>

datatype file_mode = FILE_MODE_READ | FILE_MODE_WRITE | FILE_MODE_APPEND

record fat_file_descriptor =
  fd_item :: fat_item
  fd_pos :: u32
  fd_mode :: file_mode
  dir_entry_pos :: u32

definition fat16_open_for_write :: "fat_clock \<Rightarrow> bytes list \<Rightarrow> file_mode \<Rightarrow> fat_fs \<Rightarrow> (error + fat_file_descriptor) \<times> fat_fs" where
  "fat16_open_for_write now path mode fs =
    (case fat16_get_parent fs path of
       Inl e \<Rightarrow> (Inl e, fs)
     | Inr (dir, name) \<Rightarrow>
         (case (case fat16_find_index (dir_items dir) name of
                  Some idx \<Rightarrow>
                    (let entry = dir_items dir ! idx
                     in if attribute entry AND FAT_FILE_SUBDIRECTORY \<noteq> 0 then (Inl INVALID_ARG_ERROR, fs)
                        else case fat16_dir_entry_pos fs dir idx of
                               Inl e \<Rightarrow> (Inl e, fs)
                             | Inr pos \<Rightarrow> (Inr (pos, entry), fs))
                | None \<Rightarrow>
                    fat16_create_item dir name
                      (fat16_stamp_item now ((replicate 32 0)[11 := FAT_FILE_ARCHIVED])) fs) of
            (Inl e, fs) \<Rightarrow> (Inl e, fs)
          | (Inr (pos, entry), fs) \<Rightarrow>
              (let (entry, fs) =
                     (if mode = FILE_MODE_WRITE \<and> fat16_get_first_cluster entry \<noteq> 0
                      then let fs = fat16_free_chain (fat16_get_first_cluster entry) fs;
                               entry = set_filesize 0 (fat16_set_first_cluster 0 entry)
                           in (entry, fat16_write_dir_entry pos entry fs)
                      else (entry, fs))
               in (Inr \<lparr>fd_item = Fat_file entry, fd_pos = (if mode = FILE_MODE_APPEND then filesize entry else 0),
                        fd_mode = mode, dir_entry_pos = pos\<rparr>, fs))))"

definition fat16_open :: "fat_clock \<Rightarrow> bytes list \<Rightarrow> file_mode \<Rightarrow> fat_fs \<Rightarrow> (error + fat_file_descriptor) \<times> fat_fs" where
  "fat16_open now path mode fs =
    (if mode \<noteq> FILE_MODE_READ then fat16_open_for_write now path mode fs
     else case fat16_get_directory_entry fs path of
            None \<Rightarrow> (Inl IO_ERROR, fs)
          | Some item \<Rightarrow> (Inr \<lparr>fd_item = item, fd_pos = 0, fd_mode = FILE_MODE_READ, dir_entry_pos = 0\<rparr>, fs))"

record file_stat =
  stat_flags :: u32
  stat_filesize :: u32

definition fat16_stat :: "fat_file_descriptor \<Rightarrow> error + file_stat" where
  "fat16_stat d =
    (case fd_item d of
       Fat_directory dir \<Rightarrow> Inl INVALID_ARG_ERROR
     | Fat_file it \<Rightarrow> Inr \<lparr>stat_flags = (if attribute it AND FAT_FILE_READ_ONLY \<noteq> 0 then 1 else 0),
                        stat_filesize = filesize it\<rparr>)"

text \<open>The members read and their bytes. The \<^verbatim>\<open>total\<close> of the read loop is an \<^verbatim>\<open>int\<close>.\<close>

definition fat16_read :: "fat_fs \<Rightarrow> u32 \<Rightarrow> u32 \<Rightarrow> fat_file_descriptor \<Rightarrow> (error + u32 \<times> bytes) \<times> fat_file_descriptor" where
  "fat16_read fs elsize nmemb d =
    (case fd_item d of
       Fat_directory dir \<Rightarrow> (Inl INVALID_ARG_ERROR, d)
     | Fat_file it \<Rightarrow>
         (let members = (filesize it - fd_pos d) div elsize;
             members = (if members > nmemb then nmemb else members)
         in if members = 0 then (Inr (0, []), d)
            else case fat16_read_internal fs (fat16_get_first_cluster it) (unat (fd_pos d)) (nat (sint (members * elsize))) of
                   Inl e \<Rightarrow> (Inl e, d)
                 | Inr bs \<Rightarrow> (Inr (members, bs), d\<lparr>fd_pos := fd_pos d + members * elsize\<rparr>)))"

abbreviation (input) SEEK_SET :: u32 where "SEEK_SET \<equiv> 0"
abbreviation (input) SEEK_CUR :: u32 where "SEEK_CUR \<equiv> 1"
abbreviation (input) SEEK_END :: u32 where "SEEK_END \<equiv> 2"

definition fat16_seek :: "u32 \<Rightarrow> u32 \<Rightarrow> fat_file_descriptor \<Rightarrow> error option \<times> fat_file_descriptor" where
  "fat16_seek offset seek_mode d =
    (case fd_item d of
       Fat_directory dir \<Rightarrow> (Some INVALID_ARG_ERROR, d)
     | Fat_file it \<Rightarrow>
         if seek_mode \<noteq> SEEK_SET \<and> seek_mode \<noteq> SEEK_END \<and> seek_mode \<noteq> SEEK_CUR then (Some INVALID_ARG_ERROR, d)
         else let new_pos = (if seek_mode = SEEK_SET then offset
                             else if seek_mode = SEEK_END then filesize it + offset else fd_pos d + offset)
              in if sint new_pos < 0 \<or> new_pos > filesize it then (Some IO_ERROR, d)
                 else (None, d\<lparr>fd_pos := new_pos\<rparr>))"

function write_loop :: "bytes \<Rightarrow> fat_item_bytes \<Rightarrow> u32 \<Rightarrow> fat_fs \<Rightarrow> error option \<times> fat_item_bytes \<times> u32 \<times> fat_fs" where
  "write_loop bs it pos fs =
    (if bs = [] \<or> fat16_cluster_bytes fs = 0 then (None, it, pos, fs)
     else case fat16_cluster_at (fat16_get_first_cluster it) (unat pos div fat16_cluster_bytes fs) True fs of
            (r, first, fs1) \<Rightarrow>
              (let it = fat16_set_first_cluster first it
               in case r of
                    Inl e \<Rightarrow> (Some e, it, pos, fs1)
                  | Inr cluster \<Rightarrow>
                      let offset = unat pos mod fat16_cluster_bytes fs;
                          chunk = (if fat16_cluster_bytes fs - offset > length bs then length bs
                                   else fat16_cluster_bytes fs - offset);
                          fs = stream_write (fat16_cluster_to_sector fs1 cluster * 512 + of_nat offset) (take chunk bs) fs1
                      in write_loop (drop chunk bs) it (pos + of_nat chunk) fs))"
  by pat_completeness auto
termination
  by (relation "measure (\<lambda>(bs, it, pos, fs). length bs)") (auto split: if_splits)

declare write_loop.simps [simp del]

definition fat16_write :: "fat_clock \<Rightarrow> u32 \<Rightarrow> u32 \<Rightarrow> bytes \<Rightarrow> fat_file_descriptor \<Rightarrow> fat_fs
    \<Rightarrow> (error + u32) \<times> fat_file_descriptor \<times> fat_fs" where
  "fat16_write now elsize nmemb input d fs =
    (case fd_item d of
       Fat_directory dir \<Rightarrow> (Inl INVALID_ARG_ERROR, d, fs)
     | Fat_file it \<Rightarrow>
         (if fd_mode d = FILE_MODE_READ then (Inl INVALID_ARG_ERROR, d, fs)
         else let (res, it, pos, fs) = write_loop (take (unat (elsize * nmemb)) input) it (fd_pos d) fs;
                  it = (if pos > filesize it then set_filesize pos it else it);
                  it = put16 18 (fst now) (put16 22 (snd now) (put16 24 (fst now) it));
                  fs = fat16_write_dir_entry (dir_entry_pos d) it fs;
                  d = d\<lparr>fd_item := Fat_file it, fd_pos := pos\<rparr>
              in case res of Some e \<Rightarrow> (Inl e, d, fs) | None \<Rightarrow> (Inr nmemb, d, fs)))"

section \<open>Removing and making directories\<close>

definition fat16_directory_is_empty :: "fat_fs \<Rightarrow> fat_item_bytes \<Rightarrow> bool" where
  "fat16_directory_is_empty fs it =
    (case fat16_load_fat_directory fs it of
       None \<Rightarrow> True
     | Some dir \<Rightarrow> (\<forall>i \<in> set (dir_items dir).
         \<not> (byte_at i 0 \<noteq> FAT_ENTRY_DELETED \<and> byte_at i 0 \<noteq> 46 \<and> attribute i \<noteq> FAT_FILE_LONG_NAME)))"

text \<open>Marks the items \<open>is\<close> as deleted; the flag says that all were. When the position of one is not found,
  \<^verbatim>\<open>fat16_remove\<close> leaves with the \<^verbatim>\<open>OK\<close> it has in \<^verbatim>\<open>res\<close>.\<close>

fun delete_lfn_loop :: "fat_directory \<Rightarrow> nat list \<Rightarrow> fat_fs \<Rightarrow> bool \<times> fat_fs" where
  "delete_lfn_loop dir [] fs = (True, fs)"
| "delete_lfn_loop dir (i # is) fs =
    (case fat16_dir_entry_pos fs dir i of
       Inl e \<Rightarrow> (False, fs)
     | Inr pos \<Rightarrow> delete_lfn_loop dir is (fat16_write_dir_entry pos ((dir_items dir ! i)[0 := FAT_ENTRY_DELETED]) fs))"

definition fat16_remove :: "bytes list \<Rightarrow> fat_fs \<Rightarrow> error option \<times> fat_fs" where
  "fat16_remove path fs =
    (case fat16_get_parent fs path of
       Inl e \<Rightarrow> (Some e, fs)
     | Inr (dir, name) \<Rightarrow>
         (case fat16_find_index (dir_items dir) name of
            None \<Rightarrow> (Some NOT_FOUND_ERROR, fs)
          | Some idx \<Rightarrow>
              (let it = dir_items dir ! idx
               in if attribute it AND FAT_FILE_SUBDIRECTORY \<noteq> 0 \<and> \<not> fat16_directory_is_empty fs it
                  then (Some DIR_NOT_EMPTY_ERROR, fs)
                  else case fat16_dir_entry_pos fs dir idx of
                         Inl e \<Rightarrow> (Some e, fs)
                       | Inr pos \<Rightarrow>
                           let lfn_count = fat16_lfn_count (dir_items dir) idx;
                               (all_deleted, fs) = delete_lfn_loop dir [idx - lfn_count..<idx] fs
                           in if \<not> all_deleted then (None, fs)
                              else let fs = fat16_free_chain (fat16_get_first_cluster it) fs
                                   in (None, fat16_write_dir_entry pos (it[0 := FAT_ENTRY_DELETED]) fs))))"

definition dot_item :: "fat_clock \<Rightarrow> nat \<Rightarrow> u32 \<Rightarrow> fat_item_bytes" where
  "dot_item now dots cluster =
    fat16_set_first_cluster cluster (fat16_stamp_item now
      (replicate dots 46 @ replicate (11 - dots) 0x20 @ [FAT_FILE_SUBDIRECTORY] @ replicate 20 0))"

definition fat16_mkdir :: "fat_clock \<Rightarrow> bytes list \<Rightarrow> fat_fs \<Rightarrow> error option \<times> fat_fs" where
  "fat16_mkdir now path fs =
    (case fat16_get_parent fs path of
       Inl e \<Rightarrow> (Some e, fs)
     | Inr (dir, name) \<Rightarrow>
         (if fat16_find_index (dir_items dir) name \<noteq> None then (Some FILE_EXISTS_ERROR, fs)
         else case fat16_alloc_cluster fs of
                Inl e \<Rightarrow> (Some e, fs)
              | Inr (cluster, fs) \<Rightarrow>
                  (let entry = fat16_stamp_item now (fat16_set_first_cluster cluster ((replicate 32 0)[11 := FAT_FILE_SUBDIRECTORY]));
                      fs = stream_write (fat16_cluster_to_sector fs cluster * 512)
                             (dot_item now 1 cluster @ dot_item now 2 (dir_first_cluster dir)) fs
                  in case fat16_create_item dir name entry fs of
                       (Inl e, fs) \<Rightarrow> (Some e, fat16_free_chain cluster fs)
                     | (Inr r, fs) \<Rightarrow> (None, fs))))"


section \<open>Fields of an item\<close>

lemma cluster_halves:
  "push_bit 16 (ucast (ucast (drop_bit 16 c) :: u16)) OR ucast (ucast (c AND 0xFFFF) :: u16) = (c :: u32)"
proof (rule bit_word_eqI)
  fix n assume n: "n < LENGTH(32)"
  have m: "bit (0xFFFF :: u32) n \<longleftrightarrow> n < 16"
    using n bit_mask_iff [where 'a = u32, of 16 n] by (simp add: mask_eq_exp_minus_1)
  show "bit (push_bit 16 (ucast (ucast (drop_bit 16 c) :: u16)) OR ucast (ucast (c AND 0xFFFF) :: u16) :: u32) n = bit c n"
    using n m by (auto simp: bit_or_iff bit_push_bit_iff bit_unsigned_iff bit_and_iff bit_drop_bit_eq)
qed

lemma first_cluster_set [simp]:
  "length it = 32 \<Longrightarrow> fat16_get_first_cluster (fat16_set_first_cluster c it) = c"
  by (simp add: fat16_get_first_cluster_def fat16_set_first_cluster_def get16_put16 get16_put16_other cluster_halves)

lemma length_set_first_cluster [simp]: "length (fat16_set_first_cluster c it) = length it"
  by (simp add: fat16_set_first_cluster_def)

lemma length_set_filesize [simp]: "length (set_filesize n it) = length it"
  by (simp add: set_filesize_def put32_def)

lemma u32_halves: "ucast (ucast v :: u16) + 65536 * ucast (ucast (v div 65536) :: u16) = (v :: u32)"
proof (rule word_unat_eq_iff [THEN iffD2])
  have v: "unat v < 4294967296" by (rule unat_u32_less)
  have d: "unat v div 65536 < 65536" using v by (simp add: less_mult_imp_div_less)
  have "unat (ucast (v div 65536) :: u16) = unat v div 65536"
    using d by (simp add: unsigned_ucast_eq unat_div take_bit_eq_mod)
  moreover have "unat (ucast v :: u16) = unat v mod 65536" by (simp add: unsigned_ucast_eq take_bit_eq_mod)
  moreover have "unat v mod 65536 + 65536 * (unat v div 65536) = unat v" by simp
  ultimately show "unat (ucast (ucast v :: u16) + 65536 * ucast (ucast (v div 65536) :: u16) :: u32) = unat v"
    using v by (simp add: unat_word_ariths unsigned_ucast_eq take_bit_eq_mod)
qed

lemma filesize_set [simp]: "length it = 32 \<Longrightarrow> filesize (set_filesize n it) = n"
  by (simp add: filesize_def set_filesize_def get32_def put32_def get16_put16 get16_put16_other u32_halves)

text \<open>Items that agree outside the cluster fields, and outside the fields a write stamps.\<close>

definition same_but_cluster :: "fat_item_bytes \<Rightarrow> fat_item_bytes \<Rightarrow> bool" where
  "same_but_cluster it it' \<longleftrightarrow> length it' = length it \<and> (\<forall>j. j \<notin> {20, 21, 26, 27} \<longrightarrow> byte_at it' j = byte_at it j)"

lemma same_but_cluster_refl [simp]: "same_but_cluster it it"
  by (simp add: same_but_cluster_def)

lemma same_but_cluster_trans: "same_but_cluster a b \<Longrightarrow> same_but_cluster b c \<Longrightarrow> same_but_cluster a c"
  by (simp add: same_but_cluster_def)

lemma same_but_cluster_set: "same_but_cluster it (fat16_set_first_cluster c it)"
  by (auto simp: same_but_cluster_def fat16_set_first_cluster_def byte_at_put16)

lemma same_but_cluster_filesize: "same_but_cluster it it' \<Longrightarrow> filesize it' = filesize it"
  by (simp add: same_but_cluster_def filesize_def get32_def get16_def)

section \<open>Splicing\<close>

definition splice :: "nat \<Rightarrow> 'a list \<Rightarrow> 'a list \<Rightarrow> 'a list" where
  "splice p b D = take p D @ b @ drop (p + length b) D"

lemma length_splice: "p + length b \<le> length D \<Longrightarrow> length (splice p b D) = length D"
  by (simp add: splice_def)

lemma splice_Nil [simp]: "splice p [] D = D"
  by (simp add: splice_def)

lemma splice_append1: "p + length b \<le> length D \<Longrightarrow> splice p b (D @ E) = splice p b D @ E"
  by (simp add: splice_def)

lemma splice_append2: "splice (length C + p) b (C @ D) = C @ splice p b D"
  by (simp add: splice_def add.assoc)

lemma splice_splice:
  assumes "p + length b \<le> length D"
  shows "splice (p + length b) c (splice p b D @ Z) = splice p (b @ c) (D @ Z)"
  using assms by (simp add: splice_def ac_simps)

lemma chain_data_cong: "(\<And>c. c \<in> set cs \<Longrightarrow> cdata fs' c = cdata fs c) \<Longrightarrow> chain_data fs' cs = chain_data fs cs"
  by (induction cs) simp_all

lemma chain_data_splice:
  assumes "fat16_cluster_bytes fs' = fat16_cluster_bytes fs"
  shows "distinct cs \<Longrightarrow> q < length cs \<Longrightarrow> r + length b \<le> fat16_cluster_bytes fs \<Longrightarrow>
    cdata fs' (cs ! q) = take r (cdata fs (cs ! q)) @ b @ drop (r + length b) (cdata fs (cs ! q)) \<Longrightarrow>
    (\<And>c. c \<in> set cs \<Longrightarrow> c \<noteq> cs ! q \<Longrightarrow> cdata fs' c = cdata fs c) \<Longrightarrow>
    chain_data fs' cs = splice (q * fat16_cluster_bytes fs + r) b (chain_data fs cs)"
proof (induction cs arbitrary: q)
  case (Cons c cs)
  show ?case
  proof (cases q)
    case 0
    have "chain_data fs' cs = chain_data fs cs"
      by (rule chain_data_cong) (use Cons.prems 0 in auto)
    moreover have "cdata fs' c = splice r b (cdata fs c)" using Cons.prems 0 by (simp add: splice_def)
    ultimately show ?thesis using Cons.prems 0 splice_append1 [of r b "cdata fs c"] by simp
  next
    case (Suc p)
    have "chain_data fs' cs = splice (p * fat16_cluster_bytes fs + r) b (chain_data fs cs)"
      by (rule Cons.IH) (use Cons.prems Suc in auto)
    moreover have "cdata fs' c = cdata fs c"
    proof (rule Cons.prems(5))
      have "p < length cs" using Cons.prems(2) Suc by simp
      then show "c \<noteq> (c # cs) ! q" using Cons.prems(1) Suc nth_mem [of p cs] by auto
    qed simp
    ultimately show ?thesis
      using splice_append2 [of "cdata fs c" "p * fat16_cluster_bytes fs + r" b] Suc by (simp add: add.assoc)
  qed
qed simp

section \<open>Writing\<close>

definition written :: "fat_fs \<Rightarrow> nat list \<Rightarrow> nat list \<Rightarrow> fat_fs \<Rightarrow> bool" where
  "written fs cs ns fs' \<longleftrightarrow> fs_ok fs' \<and> same_geometry fs fs' \<and> root_item fs' = root_item fs \<and> root_total fs' = root_total fs
     \<and> (\<forall>c \<in> set ns. fat fs ! c = 0)
     \<and> (\<forall>c < length (fat fs). c \<notin> set cs \<and> c \<notin> set ns \<longrightarrow> fat fs' ! c = fat fs ! c)
     \<and> (\<forall>c \<ge> 2. c \<notin> set cs \<and> c \<notin> set ns \<longrightarrow> cdata fs' c = cdata fs c)"

lemma written_trans:
  assumes a: "written fs cs ns fs1" and b: "written fs1 (cs @ ns) ms fs2"
    and d: "\<forall>c \<in> set ms. c < length (fat fs) \<and> c \<notin> set cs \<and> c \<notin> set ns"
  shows "written fs cs (ns @ ms) fs2"
proof -
  have g: "same_geometry fs fs1" using a by (simp add: written_def)
  have "fat fs ! c = 0" if c: "c \<in> set (ns @ ms)" for c
  proof (cases "c \<in> set ns")
    case False
    then have m: "c \<in> set ms" "c \<notin> set cs" "c < length (fat fs)" using c d by auto
    then have "fat fs1 ! c = 0" using b by (simp add: written_def)
    moreover have "fat fs1 ! c = fat fs ! c" using a m False unfolding written_def by blast
    ultimately show ?thesis by metis
  qed (use a in \<open>simp add: written_def\<close>)
  moreover have "fat fs2 ! c = fat fs ! c" if "c < length (fat fs)" "c \<notin> set cs" "c \<notin> set (ns @ ms)" for c
    using a b that same_geometry(11) [OF g] by (simp add: written_def)
  moreover have "cdata fs2 c = cdata fs c" if "2 \<le> c" "c \<notin> set cs" "c \<notin> set (ns @ ms)" for c
    using a b that by (simp add: written_def)
  ultimately show ?thesis
    using a b same_geometry_trans [of fs fs1 fs2] unfolding written_def by simp
qed

lemma grown_data:
  assumes "grown fs cs ns fs'" "\<forall>c \<in> set cs. 2 \<le> c" "distinct (cs @ ns)"
  shows "chain_data fs' (cs @ ns) = chain_data fs cs @ replicate (length ns * fat16_cluster_bytes fs) 0"
proof -
  have "chain_data fs' cs = chain_data fs cs"
    by (rule chain_data_cong) (use assms in \<open>auto simp: grown_def\<close>)
  moreover have "chain_data fs' ms = replicate (length ms * fat16_cluster_bytes fs) 0" if "set ms \<subseteq> set ns" for ms
    using that
  proof (induction ms)
    case (Cons m ms)
    then have "cdata fs' m = replicate (fat16_cluster_bytes fs) 0" using assms(1) by (simp add: grown_def)
    then show ?case using Cons by (simp add: replicate_add)
  qed simp
  ultimately show ?thesis by simp
qed

lemma grown_written:
  "grown fs cs ns fs' \<Longrightarrow> written fs cs ns fs'"
  by (simp add: grown_def written_def)

text \<open>One round: the chain reaches the position, the chunk is in its cluster.\<close>

lemma write_round:
  assumes ok: "fs_ok fs" and ch: "chain_ok fs first cs" and pos: "p \<le> length cs * fat16_cluster_bytes fs"
    and f: "first < 2 ^ 32" and r: "fat16_cluster_at (w32 first) (p div fat16_cluster_bytes fs) True fs = (Inr c, first', fs1)"
    and chunk: "p mod fat16_cluster_bytes fs + length b \<le> fat16_cluster_bytes fs"
  defines "fs2 \<equiv> stream_write (fat16_cluster_to_sector fs1 c * 512 + of_nat (p mod fat16_cluster_bytes fs)) b fs1"
  shows "\<exists>ns. written fs cs ns fs2 \<and> chain_ok fs2 (unat first') (cs @ ns)
    \<and> chain_data fs2 (cs @ ns) = splice p b (chain_data fs cs @ replicate (length ns * fat16_cluster_bytes fs) 0)
    \<and> p + length b \<le> length (cs @ ns) * fat16_cluster_bytes fs"
proof -
  let ?cb = "fat16_cluster_bytes fs" and ?q = "p div fat16_cluster_bytes fs" and ?r = "p mod fat16_cluster_bytes fs"
  obtain ns where "grown fs cs ns fs1 \<and> chain_ok fs1 (unat first') (cs @ ns) \<and> (?q < length cs \<longrightarrow> ns = [] \<and> fs1 = fs)
      \<and> (case Inr c of Inr c \<Rightarrow> ?q < length (cs @ ns) \<and> c = w32 ((cs @ ns) ! ?q)
            \<and> (length cs \<le> ?q \<longrightarrow> length (cs @ ns) = ?q + 1)
         | Inl e \<Rightarrow> e = NO_MEMORY_ERROR \<and> no_free fs1 \<and> length (cs @ ns) \<le> ?q)"
    by (rule exE [OF cluster_at_spec [OF ok ch f r]])
  then have ns: "grown fs cs ns fs1" "chain_ok fs1 (unat first') (cs @ ns)" "?q < length (cs @ ns)" "c = w32 ((cs @ ns) ! ?q)"
    by simp_all
  have ok1: "fs_ok fs1" and sg: "same_geometry fs fs1" using ns(1) by (simp_all add: grown_def)
  note G = same_geometry [OF sg]
  note e = chain_entry [OF ok1 ns(2,3)]
  have c: "2 \<le> unat c" "unat c < limit_of fs1" "unat c = (cs @ ns) ! ?q" using e ns(4) by simp_all
  have b: "data_pos fs1 (unat c) + ?cb < 2 ^ 31"
    using data_pos_bound [OF fs_ok_geometry [OF ok1] c(1,2)] fs_ok_geometry [OF ok1] G by (simp add: geometry_ok_def)
  have u: "unat (fat16_cluster_to_sector fs1 c * 512 + of_nat ?r) = data_pos fs1 (unat c) + ?r"
    using unat_advance [of "fat16_cluster_to_sector fs1 c * 512" ?r] unat_cluster_pos [OF fs_ok_geometry [OF ok1] c(1,2)] b chunk by simp
  have ck: "?r + length b \<le> fat16_cluster_bytes fs1" using chunk G by simp
  note W = data_write [OF ok1 c(1,2) ck u, folded fs2_def]
  note G2 = same_geometry [OF W(2)]
  have d: "distinct (cs @ ns)" "\<forall>x \<in> set (cs @ ns). 2 \<le> x" using ns(2) by (auto simp: chain_ok_def)
  have ch2: "chain_ok fs2 (unat first') (cs @ ns)" using ns(2) G2 W(3) by (simp add: chain_ok_def)
  have "chain_data fs2 (cs @ ns) = splice (?q * fat16_cluster_bytes fs1 + ?r) b (chain_data fs1 (cs @ ns))"
    by (rule chain_data_splice [OF G2(7) d(1) ns(3) ck]) (use W(4,5) c(3) d(2) in auto)
  also have "?q * fat16_cluster_bytes fs1 + ?r = p" using G by simp
  also have "chain_data fs1 (cs @ ns) = chain_data fs cs @ replicate (length ns * ?cb) 0"
    by (rule grown_data [OF ns(1) _ d(1)]) (use d(2) in simp)
  finally have data: "chain_data fs2 (cs @ ns) = splice p b (chain_data fs cs @ replicate (length ns * ?cb) 0)" .
  have cin: "unat c \<in> set (cs @ ns)" unfolding c(3) by (rule nth_mem [OF ns(3)])
  have "cdata fs2 x = cdata fs1 x" if "2 \<le> x" "x \<notin> set cs" "x \<notin> set ns" for x
    by (rule W(5)) (use that cin in auto)
  then have "written fs cs ns fs2"
    using ns(1) W(1,3,6,7) same_geometry_trans [OF sg W(2)] unfolding grown_def written_def by auto
  moreover have "p + length b \<le> length (cs @ ns) * ?cb"
  proof -
    have "p + length b \<le> ?q * ?cb + ?cb" using chunk div_mult_mod_eq [of p ?cb] by linarith
    also have "\<dots> = (?q + 1) * ?cb" by simp
    also have "\<dots> \<le> length (cs @ ns) * ?cb" using ns(3) by (intro mult_le_mono1) simp
    finally show ?thesis .
  qed
  ultimately show ?thesis using ch2 data by blast
qed


lemma first_lt: "unat (c :: u32) < 2 ^ 32"
  using unat_u32_less [of c] by simp

definition write_done :: "fat_fs \<Rightarrow> nat list \<Rightarrow> nat \<Rightarrow> bytes \<Rightarrow> fat_item_bytes \<Rightarrow> error option \<Rightarrow> fat_item_bytes \<Rightarrow> u32 \<Rightarrow> fat_fs
    \<Rightarrow> nat list \<Rightarrow> nat \<Rightarrow> bool" where
  "write_done fs cs p bs it r it' pos' fs' ns k \<longleftrightarrow> k \<le> length bs \<and> written fs cs ns fs'
     \<and> chain_ok fs' (unat (fat16_get_first_cluster it')) (cs @ ns) \<and> same_but_cluster it it'
     \<and> chain_data fs' (cs @ ns) = splice p (take k bs) (chain_data fs cs @ replicate (length ns * fat16_cluster_bytes fs) 0)
     \<and> unat pos' = p + k \<and> p + k \<le> length (cs @ ns) * fat16_cluster_bytes fs
     \<and> (case r of None \<Rightarrow> k = length bs
         | Some e \<Rightarrow> e = NO_MEMORY_ERROR \<and> no_free fs' \<and> length (cs @ ns) * fat16_cluster_bytes fs \<le> p + k)"

lemma write_done_refl:
  assumes "fs_ok fs" "chain_ok fs (unat (fat16_get_first_cluster it)) cs" "unat pos \<le> length cs * fat16_cluster_bytes fs"
  shows "write_done fs cs (unat pos) [] it None it pos fs [] 0"
  using assms grown_written [OF grown_refl [OF assms(1)]] by (simp add: write_done_def)

lemma write_loop:
  "fs_ok fs \<Longrightarrow> chain_ok fs (unat (fat16_get_first_cluster it)) cs \<Longrightarrow> length it = 32 \<Longrightarrow>
   unat pos \<le> length cs * fat16_cluster_bytes fs \<Longrightarrow> unat pos + length bs < 2 ^ 31 \<Longrightarrow>
   write_loop bs it pos fs = (r, it', pos', fs') \<Longrightarrow>
   \<exists>ns k. write_done fs cs (unat pos) bs it r it' pos' fs' ns k"
proof (induction "length bs" arbitrary: bs it pos fs cs rule: less_induct)
  case less
  note ok = less.prems(1) and ch = less.prems(2) and len = less.prems(3) and pos = less.prems(4)
  let ?cb = "fat16_cluster_bytes fs" and ?p = "unat pos"
  note cb = cb_pos [OF ok]
  show ?case
  proof (cases "bs = []")
    case True
    then have "r = None" "it' = it" "pos' = pos" "fs' = fs" using less.prems(6) by (simp_all add: write_loop.simps)
    then show ?thesis using write_done_refl [OF ok ch pos] True by blast
  next
    case False
    let ?first = "unat (fat16_get_first_cluster it)"
    obtain r1 first' fs1 where at: "fat16_cluster_at (fat16_get_first_cluster it) (?p div ?cb) True fs = (r1, first', fs1)"
      by (cases "fat16_cluster_at (fat16_get_first_cluster it) (?p div ?cb) True fs") auto
    then have at': "fat16_cluster_at (w32 ?first) (?p div ?cb) True fs = (r1, first', fs1)" by simp
    let ?it = "fat16_set_first_cluster first' it"
    have itl: "length ?it = 32" "fat16_get_first_cluster ?it = first'" using len by simp_all
    show ?thesis
    proof (cases r1)
      case (Inl e)
      have res: "r = Some e" "it' = ?it" "pos' = pos" "fs' = fs1"
        using less.prems(6) False cb at Inl by (simp_all add: write_loop.simps [of bs] Let_def)
      obtain ns where "grown fs cs ns fs1 \<and> chain_ok fs1 (unat first') (cs @ ns) \<and> (?p div ?cb < length cs \<longrightarrow> ns = [] \<and> fs1 = fs)
          \<and> (case r1 of Inr c \<Rightarrow> ?p div ?cb < length (cs @ ns) \<and> c = w32 ((cs @ ns) ! (?p div ?cb))
                \<and> (length cs \<le> ?p div ?cb \<longrightarrow> length (cs @ ns) = ?p div ?cb + 1)
             | Inl e \<Rightarrow> e = NO_MEMORY_ERROR \<and> no_free fs1 \<and> length (cs @ ns) \<le> ?p div ?cb)"
        by (rule exE [OF cluster_at_spec [OF ok ch first_lt at']])
      then have ns: "grown fs cs ns fs1" "chain_ok fs1 (unat first') (cs @ ns)" "e = NO_MEMORY_ERROR" "no_free fs1"
        "length (cs @ ns) \<le> ?p div ?cb"
        using Inl by simp_all
      have "length (cs @ ns) * ?cb \<le> ?p div ?cb * ?cb" using ns(5) by (rule mult_le_mono1)
      also have "\<dots> \<le> ?p" by simp
      finally have full: "length (cs @ ns) * ?cb \<le> ?p" .
      have "chain_data fs1 (cs @ ns) = chain_data fs cs @ replicate (length ns * ?cb) 0"
        by (rule grown_data [OF ns(1)]) (use ns(2) in \<open>auto simp: chain_ok_def\<close>)
      moreover have "?p \<le> length (cs @ ns) * ?cb" using pos by (simp add: add_mult_distrib)
      ultimately have "write_done fs cs ?p bs it r it' pos' fs' ns 0"
        using full ns(1-4) grown_written [OF ns(1)] itl same_but_cluster_set [of it first'] by (simp add: write_done_def res)
      then show ?thesis by blast
    next
      case (Inr c)
      let ?o = "?p mod ?cb"
      define chunk where "chunk = (if ?cb - ?o > length bs then length bs else ?cb - ?o)"
      define fs2 where "fs2 = stream_write (fat16_cluster_to_sector fs1 c * 512 + of_nat ?o) (take chunk bs) fs1"
      have o: "?o < ?cb" using cb by simp
      have k: "0 < chunk" "chunk \<le> length bs" "?o + chunk \<le> ?cb" using o False by (auto simp: chunk_def)
      have lt: "length (take chunk bs) = chunk" using k by simp
      have step: "write_loop (drop chunk bs) ?it (pos + of_nat chunk) fs2 = (r, it', pos', fs')"
        using less.prems(6) False cb at Inr unfolding write_loop.simps [of bs] fs2_def chunk_def
        by (simp add: Let_def)
      obtain ns where ns: "written fs cs ns fs2" "chain_ok fs2 (unat first') (cs @ ns)"
        "chain_data fs2 (cs @ ns) = splice ?p (take chunk bs) (chain_data fs cs @ replicate (length ns * ?cb) 0)"
        "?p + chunk \<le> length (cs @ ns) * ?cb"
        using write_round [OF ok ch pos first_lt at' [unfolded Inr], of "take chunk bs", folded fs2_def] k lt by auto
      have ok2: "fs_ok fs2" and sg: "same_geometry fs fs2" using ns(1) by (simp_all add: written_def)
      note G = same_geometry [OF sg]
      have p2: "unat (pos + of_nat chunk) = ?p + chunk" by (rule unat_advance) (use less.prems(5) k in simp)
      have "\<exists>ns' k'. write_done fs2 (cs @ ns) (unat (pos + of_nat chunk)) (drop chunk bs) ?it r it' pos' fs' ns' k'"
        by (rule less.hyps [OF _ ok2 _ itl(1) _ _ step]) (use k p2 ns(2,4) G itl less.prems(5) in auto)
      then obtain ns' k' where d: "write_done fs2 (cs @ ns) (?p + chunk) (drop chunk bs) ?it r it' pos' fs' ns' k'"
        using p2 by auto
      note D = d [unfolded write_done_def]
      have ok': "fs_ok fs'" and ch': "chain_ok fs' (unat (fat16_get_first_cluster it')) ((cs @ ns) @ ns')"
        and lf: "length (fat fs') = length (fat fs)"
        using D G(11) same_geometry(11) [of fs2 fs'] by (auto simp: written_def)
      have "\<forall>c \<in> set ns'. c < length (fat fs) \<and> c \<notin> set cs \<and> c \<notin> set ns"
        using chain_ok_lt [OF ok' ch'] lf ch' by (auto simp: chain_ok_def)
      then have w: "written fs cs (ns @ ns') fs'" using written_trans [OF ns(1)] D by blast
      have "chain_data fs' ((cs @ ns) @ ns')
          = splice (?p + chunk) (take k' (drop chunk bs)) (splice ?p (take chunk bs) (chain_data fs cs @ replicate (length ns * ?cb) 0)
              @ replicate (length ns' * ?cb) 0)"
        using D ns(3) G(7) by metis
      also have "\<dots> = splice ?p (take chunk bs @ take k' (drop chunk bs))
            ((chain_data fs cs @ replicate (length ns * ?cb) 0) @ replicate (length ns' * ?cb) 0)"
        using splice_splice [of ?p "take chunk bs" "chain_data fs cs @ replicate (length ns * ?cb) 0"] lt ns(4)
        by (simp add: add_mult_distrib)
      also have "take chunk bs @ take k' (drop chunk bs) = take (chunk + k') bs" by (simp add: take_add)
      finally have data: "chain_data fs' (cs @ ns @ ns')
          = splice ?p (take (chunk + k') bs) (chain_data fs cs @ replicate (length (ns @ ns') * ?cb) 0)"
        by (simp add: replicate_add add_mult_distrib)
      have "write_done fs cs ?p bs it r it' pos' fs' (ns @ ns') (chunk + k')"
        using D w data k G(7) same_but_cluster_trans [OF same_but_cluster_set [of it first']]
        unfolding write_done_def by (auto split: option.splits)
      then show ?thesis by blast
    qed
  qed
qed


section \<open>Directory items\<close>

definition in_root :: "fat_fs \<Rightarrow> u32 \<Rightarrow> nat \<Rightarrow> bool" where
  "in_root fs pos i \<longleftrightarrow> i < length (root_item fs) \<and> unat pos = root_start fs + 32 * i"

definition in_cluster :: "fat_fs \<Rightarrow> u32 \<Rightarrow> nat \<Rightarrow> bool" where
  "in_cluster fs pos c \<longleftrightarrow> 2 \<le> c \<and> c < limit_of fs
     \<and> (\<exists>j. 32 * j + 32 \<le> fat16_cluster_bytes fs \<and> unat pos = data_pos fs c + 32 * j)"

lemma root_window:
  assumes g: "geometry_ok fs"
  shows "unat (of_nat (root_sector_pos fs) * 512 :: u32) = root_start fs"
    "unat (of_nat (root_sector_pos fs) * 512 + ucast (root_dir_entries (header fs)) * 32 :: u32) = root_start fs + 32 * length (root_item fs)"
    "root_start fs + 32 * length (root_item fs) < 2 ^ 31"
proof -
  have l: "length (root_item fs) = unat (root_dir_entries (header fs))" using g by (simp add: geometry_ok_def)
  show b: "root_start fs + 32 * length (root_item fs) < 2 ^ 31"
    using root_start_data [OF g] g by (auto simp: geometry_ok_def)
  have "of_nat (root_sector_pos fs) * 512 = (of_nat (root_start fs) :: u32)" by (simp add: root_start_def)
  then show "unat (of_nat (root_sector_pos fs) * 512 :: u32) = root_start fs"
    using b by (simp add: unat_of_nat take_bit_eq_mod)
  have "of_nat (root_sector_pos fs) * 512 + ucast (root_dir_entries (header fs)) * 32
      = (of_nat (root_start fs + 32 * length (root_item fs)) :: u32)"
    by (simp add: root_start_def l)
  then show "unat (of_nat (root_sector_pos fs) * 512 + ucast (root_dir_entries (header fs)) * 32 :: u32) = root_start fs + 32 * length (root_item fs)"
    using b by (simp only: unat_of_nat) (simp add: take_bit_eq_mod)
qed

lemma write_dir_entry_cluster:
  assumes ok: "fs_ok fs" and p: "in_cluster fs pos c" and it: "length it = 32"
  defines "fs' \<equiv> fat16_write_dir_entry pos it fs"
  shows "fs_ok fs'" "same_geometry fs fs'" "fat fs' = fat fs" "2 \<le> d \<Longrightarrow> d \<noteq> c \<Longrightarrow> cdata fs' d = cdata fs d"
    "root_item fs' = root_item fs" "slice (part (fs_disk fs')) (unat pos) 32 = it"
    "unat pos \<le> i \<and> i < unat pos + 32 \<or> part (fs_disk fs') i = part (fs_disk fs) i"
proof -
  note g = fs_ok_geometry [OF ok]
  obtain j where c: "2 \<le> c" "c < limit_of fs" and j: "32 * j + length it \<le> fat16_cluster_bytes fs" "unat pos = data_pos fs c + 32 * j"
    using p it by (auto simp: in_cluster_def)
  define x where "x = w32 c"
  have x: "unat x = c" unfolding x_def using c limit_bounds [OF ok] by (intro unat_w32) auto
  have "\<not> pos < of_nat (root_sector_pos fs) * 512 + ucast (root_dir_entries (header fs)) * 32"
    unfolding word_less_nat_alt root_window(2) [OF g]
    using root_start_data [OF g] data_pos_ge [of fs c] j by simp
  then have e: "fs' = stream_write pos it fs" unfolding fs'_def fat16_write_dir_entry_def Let_def by simp
  have x': "2 \<le> unat x" "unat x < limit_of fs" "unat pos = data_pos fs (unat x) + 32 * j" using x c j by simp_all
  note W = data_write [OF ok x'(1,2) j(1) x'(3), folded e, unfolded x]
  show "fs_ok fs'" "same_geometry fs fs'" "fat fs' = fat fs" "2 \<le> d \<Longrightarrow> d \<noteq> c \<Longrightarrow> cdata fs' d = cdata fs d"
    "root_item fs' = root_item fs" by (rule W; assumption)+
  have len: "unat pos + length it \<le> 2 ^ 31"
    using data_pos_bound [OF g c] g j by (simp add: geometry_ok_def)
  then have w: "part (fs_disk fs') = overwrite (part (fs_disk fs)) (unat pos) it"
    unfolding e using g by (intro stream_write(1)) (simp_all add: geometry_ok_def)
  then show "slice (part (fs_disk fs')) (unat pos) 32 = it" using slice_overwrite_same [of _ _ it] it by simp
  show "unat pos \<le> i \<and> i < unat pos + 32 \<or> part (fs_disk fs') i = part (fs_disk fs) i"
    unfolding w using it by (auto simp: overwrite_def)
qed

lemma write_dir_entry_root:
  assumes ok: "fs_ok fs" and p: "in_root fs pos i" and it: "length it = 32"
  defines "fs' \<equiv> fat16_write_dir_entry pos it fs"
  shows "fs_ok fs'" "same_geometry fs fs'" "fat fs' = fat fs" "cdata fs' d = cdata fs d"
    "root_item fs' = (root_item fs)[i := it]" "slice (part (fs_disk fs')) (unat pos) 32 = it"
    "unat pos \<le> a \<and> a < unat pos + 32 \<or> part (fs_disk fs') a = part (fs_disk fs) a"
proof -
  note g = fs_ok_geometry [OF ok]
  have syn: "fat_synced fs" "root_synced fs" using ok by (simp_all add: fs_ok_def)
  have i: "i < length (root_item fs)" "unat pos = root_start fs + 32 * i" using p by (simp_all add: in_root_def)
  note rw = root_window [OF g]
  define fs1 where "fs1 = stream_write pos it fs"
  have "unat pos + length it \<le> 2 ^ 31" using rw i it by simp
  moreover have "disk_ok (fs_disk fs)" using g by (simp add: geometry_ok_def)
  ultimately have w: "part (fs_disk fs1) = overwrite (part (fs_disk fs)) (unat pos) it" "lba_offset (fs_disk fs1) = lba_offset (fs_disk fs)"
    using stream_write [of fs pos it] unfolding fs1_def by simp_all
  have ge: "of_nat (root_sector_pos fs) * 512 \<le> pos" unfolding word_le_nat_alt rw(1) using i by simp
  have lt: "pos < of_nat (root_sector_pos fs) * 512 + ucast (root_dir_entries (header fs)) * 32"
    unfolding word_less_nat_alt rw(2) using i by simp
  have "unat (pos - of_nat (root_sector_pos fs) * 512) = 32 * i"
    using ge i rw(1) by (simp add: unat_sub word_le_nat_alt)
  then have idx: "unat ((pos - of_nat (root_sector_pos fs) * 512) div 32) = i" by (simp add: unat_div)
  have f1: "header fs1 = header fs" "root_item fs1 = root_item fs" "root_total fs1 = root_total fs"
    "root_sector_pos fs1 = root_sector_pos fs" "fat fs1 = fat fs" "root_ending_sector_pos fs1 = root_ending_sector_pos fs"
    by (simp_all add: fs1_def)
  have e: "fs' = fs1\<lparr>root_item := (root_item fs)[i := it],
      root_total := (if byte_at it 0 \<noteq> FAT_ENTRY_END \<and> i \<ge> root_total fs then i + 1 else root_total fs)\<rparr>"
    using ge lt unfolding fs'_def fat16_write_dir_entry_def Let_def fs1_def [symmetric] f1 idx by simp
  show ri: "root_item fs' = (root_item fs)[i := it]" and fat: "fat fs' = fat fs" using f1 by (simp_all add: e)
  have d': "fs_disk fs' = fs_disk fs1" by (simp add: e)
  show "unat pos \<le> a \<and> a < unat pos + 32 \<or> part (fs_disk fs') a = part (fs_disk fs) a"
    unfolding d' w using it by (auto simp: overwrite_def)
  show sg: "same_geometry fs fs'" using f1 w by (simp add: same_geometry_def e)
  note G = same_geometry [OF sg]
  show "slice (part (fs_disk fs')) (unat pos) 32 = it"
    unfolding d' w using slice_overwrite_same [of _ _ it] it by simp
  show "cdata fs' d = cdata fs d"
    unfolding cdata_def G d' w
    by (rule slice_overwrite_other) (use i it root_start_data [OF g] data_pos_ge [of fs d] in simp)
  have tot: "root_total fs' \<le> length (root_item fs)" using g i by (simp add: e geometry_ok_def)
  have items: "\<forall>x \<in> set (root_item fs'). length x = 32"
    unfolding ri using g it set_update_subset_insert [of "root_item fs" i it] by (auto simp: geometry_ok_def)
  have geo: "geometry_ok fs'"
    using g G tot items ri f1 unfolding geometry_ok_def by (simp add: e)
  have "fat_synced fs'"
    unfolding fat_synced_def
  proof (intro allI impI)
    fix k c assume "k < unat (fat_copies (header fs'))" "c < length (fat fs')"
    then have kc: "k < unat (fat_copies (header fs))" "c < length (fat fs)" using G fat by simp_all
    have "slice (part (fs_disk fs')) (fat_start fs k + 2 * c) 2 = slice (part (fs_disk fs)) (fat_start fs k + 2 * c) 2"
      unfolding d' w by (rule slice_overwrite_other)
        (use fat_pos_end(1) [OF g kc(2,1)] i in \<open>simp add: fat_pos_def\<close>)
    then show "slice (part (fs_disk fs')) (fat_start fs' k + 2 * c) 2 = le16 (fat fs' ! c)"
      using syn(1) kc unfolding G fat fat_synced_def by simp
  qed
  moreover have "root_synced fs'"
    unfolding root_synced_def
  proof (intro allI impI)
    fix j assume j: "j < length (root_item fs')"
    show "slice (part (fs_disk fs')) (root_start fs' + 32 * j) 32 = root_item fs' ! j"
    proof (cases "j = i")
      case True
      then show ?thesis unfolding G d' w ri using slice_overwrite_same [of _ _ it] it i by simp
    next
      case False
      have "slice (part (fs_disk fs')) (root_start fs + 32 * j) 32 = slice (part (fs_disk fs)) (root_start fs + 32 * j) 32"
        unfolding d' w by (rule slice_overwrite_other) (use False i it in auto)
      then show ?thesis using syn(2) j False unfolding G ri root_synced_def by simp
    qed
  qed
  ultimately show "fs_ok fs'" using geo by (simp add: fs_ok_def)
qed

section \<open>Open files and their content\<close>

definition content :: "fat_fs \<Rightarrow> fat_item_bytes \<Rightarrow> nat list \<Rightarrow> bytes" where
  "content fs it cs = take (unat (filesize it)) (chain_data fs cs)"

text \<open>The descriptor \<open>d\<close> is open on the file with item \<open>it\<close> and clusters \<open>cs\<close>, and writes its item
  to a place in the root directory or in a cluster of another chain.\<close>

definition file_open :: "fat_fs \<Rightarrow> fat_file_descriptor \<Rightarrow> fat_item_bytes \<Rightarrow> nat list \<Rightarrow> bool" where
  "file_open fs d it cs \<longleftrightarrow> fd_item d = Fat_file it \<and> length it = 32
     \<and> chain_ok fs (unat (fat16_get_first_cluster it)) cs
     \<and> unat (filesize it) \<le> length cs * fat16_cluster_bytes fs \<and> unat (fd_pos d) \<le> unat (filesize it)"

definition item_place :: "fat_fs \<Rightarrow> u32 \<Rightarrow> nat list \<Rightarrow> bool" where
  "item_place fs pos cs \<longleftrightarrow> (\<exists>i. in_root fs pos i) \<or> (\<exists>c. in_cluster fs pos c \<and> c \<notin> set cs \<and> fat fs ! c \<noteq> 0)"

lemma write_dir_entry_place:
  assumes ok: "fs_ok fs" and p: "item_place fs pos cs" and it: "length it = 32"
  defines "fs' \<equiv> fat16_write_dir_entry pos it fs"
  shows "fs_ok fs'" "same_geometry fs fs'" "fat fs' = fat fs"
    "2 \<le> d \<Longrightarrow> \<not> in_cluster fs pos d \<or> d \<in> set cs \<Longrightarrow> cdata fs' d = cdata fs d"
    "slice (part (fs_disk fs')) (unat pos) 32 = it"
    "unat pos \<le> a \<and> a < unat pos + 32 \<or> part (fs_disk fs') a = part (fs_disk fs) a"
    "length (root_item fs') = length (root_item fs)"
    "\<not> in_root fs pos j \<Longrightarrow> root_item fs' ! j = root_item fs ! j"
proof -
  have "fs_ok fs' \<and> same_geometry fs fs' \<and> fat fs' = fat fs
      \<and> (\<forall>d \<ge> 2. \<not> in_cluster fs pos d \<or> d \<in> set cs \<longrightarrow> cdata fs' d = cdata fs d) \<and> slice (part (fs_disk fs')) (unat pos) 32 = it
      \<and> (unat pos \<le> a \<and> a < unat pos + 32 \<or> part (fs_disk fs') a = part (fs_disk fs) a)
      \<and> length (root_item fs') = length (root_item fs) \<and> (\<not> in_root fs pos j \<longrightarrow> root_item fs' ! j = root_item fs ! j)"
    using p unfolding item_place_def
  proof (elim disjE exE conjE)
    fix i assume i: "in_root fs pos i"
    have "\<not> in_root fs pos j \<longrightarrow> (root_item fs)[i := it] ! j = root_item fs ! j"
      using i by (cases "i = j") auto
    then show ?thesis
      using write_dir_entry_root(1-4,6,7) [OF ok i it] write_dir_entry_root(5) [OF ok i it] unfolding fs'_def by simp
  next
    fix c assume c: "in_cluster fs pos c" "c \<notin> set cs"
    have "cdata fs' d = cdata fs d" if "2 \<le> d" "\<not> in_cluster fs pos d \<or> d \<in> set cs" for d
      using write_dir_entry_cluster(4) [OF ok c(1) it that(1)] that(2) c unfolding fs'_def by blast
    then show ?thesis
      using write_dir_entry_cluster(1,2,3,6,7) [OF ok c(1) it] write_dir_entry_cluster(5) [OF ok c(1) it]
      unfolding fs'_def by simp
  qed
  then show "fs_ok fs'" "same_geometry fs fs'" "fat fs' = fat fs"
    "2 \<le> d \<Longrightarrow> \<not> in_cluster fs pos d \<or> d \<in> set cs \<Longrightarrow> cdata fs' d = cdata fs d"
    "slice (part (fs_disk fs')) (unat pos) 32 = it"
    "unat pos \<le> a \<and> a < unat pos + 32 \<or> part (fs_disk fs') a = part (fs_disk fs) a"
    "length (root_item fs') = length (root_item fs)"
    "\<not> in_root fs pos j \<Longrightarrow> root_item fs' ! j = root_item fs ! j" by blast+
qed


lemma take_splice:
  assumes "p \<le> n" "n \<le> length C"
  shows "take (if p + length b > n then p + length b else n) (splice p b (C @ Z))
    = take p (take n C) @ b @ drop (p + length b) (take n C)"
  using assms by (auto simp: splice_def drop_take)

lemma stamped:
  fixes a b c :: u16
  assumes "length it = 32"
  defines "it' \<equiv> put16 18 a (put16 22 b (put16 24 c it))"
  shows "length it' = 32" "filesize it' = filesize it" "fat16_get_first_cluster it' = fat16_get_first_cluster it"
  using assms
  by (simp_all add: it'_def filesize_def get32_def fat16_get_first_cluster_def get16_put16_other)

lemma first_cluster_filesize [simp]:
  "length it = 32 \<Longrightarrow> fat16_get_first_cluster (set_filesize n it) = fat16_get_first_cluster it"
  by (simp add: fat16_get_first_cluster_def set_filesize_def put32_def get16_put16_other)

text \<open>What another chain sees of a write.\<close>

lemma write_isolated:
  assumes w: "written fs cs ns fs1" and ds: "chain_ok fs f ds" "set ds \<inter> set cs = {}" and ok: "fs_ok fs"
  shows "chain_ok fs1 f ds" "chain_data fs1 ds = chain_data fs ds" "set ds \<inter> set ns = {}"
proof -
  have r: "\<And>c. c \<in> set ds \<Longrightarrow> 2 \<le> c \<and> c < limit_of fs" using ds by (simp add: chain_ok_def)
  have nz: "\<And>c. c \<in> set ds \<Longrightarrow> fat fs ! c \<noteq> 0" using ds linked_nonzero by (auto simp: chain_ok_def)
  moreover have "\<forall>c \<in> set ns. fat fs ! c = 0" using w by (simp add: written_def)
  ultimately show n: "set ds \<inter> set ns = {}" by blast
  have g: "same_geometry fs fs1" using w by (simp add: written_def)
  have "fat fs1 ! c = fat fs ! c" if c: "c \<in> set ds" for c
  proof -
    have "c < length (fat fs)" using r [OF c] limit_bounds [OF ok] by linarith
    moreover have "c \<notin> set cs" "c \<notin> set ns" using c ds(2) n by auto
    ultimately show ?thesis using w unfolding written_def by blast
  qed
  then have "linked (fat fs1) ds = linked (fat fs) ds" by (rule linked_cong)
  then show "chain_ok fs1 f ds" using ds(1) same_geometry [OF g] by (simp add: chain_ok_def)
  show "chain_data fs1 ds = chain_data fs ds"
  proof (rule chain_data_cong)
    fix c assume c: "c \<in> set ds"
    then have "2 \<le> c" "c \<notin> set cs" "c \<notin> set ns" using r n ds(2) by blast+
    then show "cdata fs1 c = cdata fs c" using w unfolding written_def by blast
  qed
qed

text \<open>What a write leaves as it was: the other items of the root directory, the table entries and the bytes of every
  cluster outside the file's, apart from the 32 bytes of its item when those are in a cluster.\<close>

definition nothing_else :: "fat_fs \<Rightarrow> u32 \<Rightarrow> nat list \<Rightarrow> fat_fs \<Rightarrow> bool" where
  "nothing_else fs pos cs fs' \<longleftrightarrow>
     length (root_item fs') = length (root_item fs)
     \<and> (\<forall>i < length (root_item fs). \<not> in_root fs pos i \<longrightarrow> root_item fs' ! i = root_item fs ! i)
     \<and> (\<forall>c < length (fat fs). c \<notin> set cs \<longrightarrow> fat fs' ! c = fat fs ! c)
     \<and> (\<forall>c \<ge> 2. c \<notin> set cs \<longrightarrow> (\<forall>i < fat16_cluster_bytes fs.
          unat pos \<le> data_pos fs c + i \<and> data_pos fs c + i < unat pos + 32 \<or> cdata fs' c ! i = cdata fs c ! i))"

text \<open>The outcome of a write of \<open>k\<close> of the bytes \<open>bs\<close> at the position. The clusters \<open>ns\<close> it adds to the file were
  free; of the item it changes the first cluster, the size and the times.\<close>

definition write_outcome :: "fat_fs \<Rightarrow> fat_file_descriptor \<Rightarrow> fat_item_bytes \<Rightarrow> nat list \<Rightarrow> bytes \<Rightarrow> nat \<Rightarrow>
    fat_file_descriptor \<Rightarrow> fat_fs \<Rightarrow> bool" where
  "write_outcome fs d it cs bs k d' fs' \<longleftrightarrow>
    (\<exists>it' ns. fs_ok fs' \<and> same_geometry fs fs' \<and> file_open fs' d' it' (cs @ ns) \<and> fd_pos d' = fd_pos d + of_nat k \<and> k \<le> length bs
       \<and> fd_mode d' = fd_mode d
       \<and> content fs' it' (cs @ ns)
           = take (unat (fd_pos d)) (content fs it cs) @ take k bs @ drop (unat (fd_pos d) + k) (content fs it cs)
       \<and> slice (part (fs_disk fs')) (unat (dir_entry_pos d)) 32 = it'
       \<and> take 18 it' = take 18 it
       \<and> (\<forall>c \<in> set ns. fat fs ! c = 0) \<and> nothing_else fs (dir_entry_pos d) (cs @ ns) fs')
    \<and> (\<forall>f ds. chain_ok fs f ds \<and> set ds \<inter> set cs = {} \<longrightarrow>
         chain_ok fs' f ds
         \<and> ((\<forall>c \<in> set ds. \<not> in_cluster fs (dir_entry_pos d) c) \<longrightarrow> chain_data fs' ds = chain_data fs ds))"

lemma cdata_nth: "i < fat16_cluster_bytes fs \<Longrightarrow> cdata fs c ! i = part (fs_disk fs) (data_pos fs c + i)"
  by (simp add: cdata_def slice_nth)

lemma write_nothing_else:
  assumes wr: "written fs cs ns fs1" and fat: "fat fs' = fat fs1"
    and at: "\<And>a. unat pos \<le> a \<and> a < unat pos + 32 \<or> part (fs_disk fs') a = part (fs_disk fs1) a"
    and root: "length (root_item fs') = length (root_item fs1)" "\<And>j. \<not> in_root fs1 pos j \<Longrightarrow> root_item fs' ! j = root_item fs1 ! j"
    and ir: "\<And>j. in_root fs1 pos j = in_root fs pos j" and sg: "same_geometry fs1 fs'"
  shows "nothing_else fs pos (cs @ ns) fs'"
proof -
  have W: "same_geometry fs fs1" "root_item fs1 = root_item fs"
      "\<And>c. c < length (fat fs) \<Longrightarrow> c \<notin> set (cs @ ns) \<Longrightarrow> fat fs1 ! c = fat fs ! c"
      "\<And>c. 2 \<le> c \<Longrightarrow> c \<notin> set (cs @ ns) \<Longrightarrow> cdata fs1 c = cdata fs c"
    using wr by (simp_all add: written_def)
  note G = same_geometry [OF W(1)] and G1 = same_geometry [OF sg]
  have "unat pos \<le> data_pos fs c + i \<and> data_pos fs c + i < unat pos + 32 \<or> cdata fs' c ! i = cdata fs c ! i"
    if "2 \<le> c" "c \<notin> set (cs @ ns)" "i < fat16_cluster_bytes fs" for c i
  proof -
    have "cdata fs' c ! i = part (fs_disk fs') (data_pos fs c + i)" using that(3) G G1 by (simp add: cdata_nth)
    moreover have "part (fs_disk fs1) (data_pos fs c + i) = cdata fs c ! i"
      using that(3) G W(4) [OF that(1,2)] cdata_nth [of i fs1 c] by simp
    ultimately show ?thesis using at [of "data_pos fs c + i"] by auto
  qed
  then show ?thesis
    using root W(2,3) fat unfolding nothing_else_def ir by simp
qed

lemma write_spec:
  assumes ok: "fs_ok fs" and fo: "file_open fs d it cs" and mode: "fd_mode d \<noteq> FILE_MODE_READ"
    and place: "item_place fs (dir_entry_pos d) cs"
    and input: "unat (elsize * nmemb) \<le> length input" and small: "unat (fd_pos d) + unat (elsize * nmemb) < 2 ^ 31"
    and w: "fat16_write now elsize nmemb input d fs = (r, d', fs')"
  shows "\<exists>k. write_outcome fs d it cs (take (unat (elsize * nmemb)) input) k d' fs'
    \<and> (case r of Inr n \<Rightarrow> n = nmemb \<and> k = unat (elsize * nmemb) | Inl e \<Rightarrow> e = NO_MEMORY_ERROR \<and> no_free fs'
        \<and> length cs * fat16_cluster_bytes fs \<le> unat (fd_pos d) + k)"
proof -
  define bs where "bs = take (unat (elsize * nmemb)) input"
  have lb: "length bs = unat (elsize * nmemb)" using input by (simp add: bs_def)
  have F: "fd_item d = Fat_file it" "length it = 32" "chain_ok fs (unat (fat16_get_first_cluster it)) cs"
    "unat (filesize it) \<le> length cs * fat16_cluster_bytes fs" "unat (fd_pos d) \<le> unat (filesize it)"
    using fo by (simp_all add: file_open_def)
  obtain res it1 pos1 fs1 where loop: "write_loop bs it (fd_pos d) fs = (res, it1, pos1, fs1)"
    by (cases "write_loop bs it (fd_pos d) fs") auto
  let ?p = "unat (fd_pos d)"
  have pl: "?p \<le> length cs * fat16_cluster_bytes fs" using F(4,5) by linarith
  have sm: "?p + length bs < 2 ^ 31" using small lb by simp
  obtain ns k where "write_done fs cs ?p bs it res it1 pos1 fs1 ns k"
    using write_loop [OF ok F(3,2) pl sm loop] by blast
  note D = this [unfolded write_done_def]
  have k: "k \<le> length bs" and wr: "written fs cs ns fs1" and ch1: "chain_ok fs1 (unat (fat16_get_first_cluster it1)) (cs @ ns)"
    and sbc: "same_but_cluster it it1"
    and data1: "chain_data fs1 (cs @ ns) = splice ?p (take k bs) (chain_data fs cs @ replicate (length ns * fat16_cluster_bytes fs) 0)"
    and pos1: "unat pos1 = ?p + k" and room: "?p + k \<le> length (cs @ ns) * fat16_cluster_bytes fs"
    and fin: "case res of None \<Rightarrow> k = length bs
      | Some e \<Rightarrow> e = NO_MEMORY_ERROR \<and> no_free fs1 \<and> length (cs @ ns) * fat16_cluster_bytes fs \<le> ?p + k"
    using D by blast+
  have fsz: "filesize it1 = filesize it" and l1: "length it1 = 32"
    using same_but_cluster_filesize [OF sbc] sbc F(2) by (simp_all add: same_but_cluster_def)
  define it2 where "it2 = (if pos1 > filesize it1 then set_filesize pos1 it1 else it1)"
  define it3 where "it3 = put16 18 (fst now) (put16 22 (snd now) (put16 24 (fst now) it2))"
  have l2: "length it2 = 32" "fat16_get_first_cluster it2 = fat16_get_first_cluster it1" using l1 by (simp_all add: it2_def)
  note st = stamped [OF l2(1), of "fst now" "snd now" "fst now", folded it3_def]
  define n' where "n' = (if ?p + k > unat (filesize it) then ?p + k else unat (filesize it))"
  have n': "unat (filesize it3) = n'"
    using st(2) l1 fsz pos1 by (auto simp: it2_def n'_def word_less_nat_alt)
  have fs': "fs' = fat16_write_dir_entry (dir_entry_pos d) it3 fs1" and d': "d' = d\<lparr>fd_item := Fat_file it3, fd_pos := pos1\<rparr>"
    and r: "r = (case res of Some e \<Rightarrow> Inl e | None \<Rightarrow> Inr nmemb)"
    using w mode F(1) loop unfolding fat16_write_def bs_def [symmetric]
    by (auto simp: Let_def it2_def it3_def split: option.splits)
  have ok1: "fs_ok fs1" and sg: "same_geometry fs fs1" and ri: "root_item fs1 = root_item fs" using wr by (simp_all add: written_def)
  note G = same_geometry [OF sg]
  have ic: "in_cluster fs1 p c = in_cluster fs p c" for p c by (simp add: in_cluster_def G)
  have place1: "item_place fs1 (dir_entry_pos d) (cs @ ns)"
    using place unfolding item_place_def
  proof (elim disjE exE conjE)
    fix i assume "in_root fs (dir_entry_pos d) i"
    then have "in_root fs1 (dir_entry_pos d) i" by (simp add: in_root_def G ri)
    then show "(\<exists>i. in_root fs1 (dir_entry_pos d) i) \<or> (\<exists>c. in_cluster fs1 (dir_entry_pos d) c \<and> c \<notin> set (cs @ ns) \<and> fat fs1 ! c \<noteq> 0)"
      by blast
  next
    fix c assume c: "in_cluster fs (dir_entry_pos d) c" "c \<notin> set cs" "fat fs ! c \<noteq> 0"
    then have "c < length (fat fs)" using limit_bounds [OF ok] by (auto simp: in_cluster_def)
    moreover have "c \<notin> set ns" using wr c(3) by (auto simp: written_def)
    ultimately have "fat fs1 ! c = fat fs ! c" using wr c(2) unfolding written_def by blast
    then show "(\<exists>i. in_root fs1 (dir_entry_pos d) i) \<or> (\<exists>c. in_cluster fs1 (dir_entry_pos d) c \<and> c \<notin> set (cs @ ns) \<and> fat fs1 ! c \<noteq> 0)"
      using c \<open>c \<notin> set ns\<close> by (intro disjI2 exI [of _ c]) (simp add: ic)
  qed
  note E = write_dir_entry_place [OF ok1 place1 st(1), folded fs', unfolded ic]
  note G' = same_geometry [OF E(2)]
  have ge2: "\<forall>c \<in> set (cs @ ns). 2 \<le> c" using ch1 by (auto simp: chain_ok_def)
  have data': "chain_data fs' (cs @ ns) = chain_data fs1 (cs @ ns)"
    by (rule chain_data_cong) (rule E(4), use ge2 in auto)
  have ch': "chain_ok fs' (unat (fat16_get_first_cluster it3)) (cs @ ns)"
    using ch1 st(3) l2(2) G' E(3) by (simp add: chain_ok_def)
  have n'_le: "n' \<le> length (cs @ ns) * fat16_cluster_bytes fs"
    using room F(4) by (auto simp: n'_def add_mult_distrib)
  have "file_open fs' d' it3 (cs @ ns)"
    unfolding file_open_def using st(1) ch' n' n'_le G G' pos1 by (auto simp: d' n'_def)
  moreover have "content fs' it3 (cs @ ns)
      = take ?p (content fs it cs) @ take k bs @ drop (?p + k) (content fs it cs)"
  proof -
    have "n' = (if ?p + length (take k bs) > unat (filesize it) then ?p + length (take k bs) else unat (filesize it))"
      using k by (simp add: n'_def)
    moreover have "length (take k bs) = k" using k by simp
    ultimately show ?thesis
      unfolding content_def n' data' data1 using take_splice [of ?p "unat (filesize it)" "chain_data fs cs" "take k bs"] F(4,5)
      by simp
  qed
  moreover have "fd_pos d' = fd_pos d + of_nat k"
    using pos1 unat_advance [of "fd_pos d" k] sm k by (simp add: d' word_unat_eq_iff)
  moreover have "chain_ok fs' f ds \<and> ((\<forall>c \<in> set ds. \<not> in_cluster fs (dir_entry_pos d) c) \<longrightarrow> chain_data fs' ds = chain_data fs ds)"
    if ds: "chain_ok fs f ds" "set ds \<inter> set cs = {}" for f ds
  proof -
    note I = write_isolated [OF wr ds ok]
    have "chain_ok fs' f ds" using I(1) G' E(3) by (simp add: chain_ok_def)
    moreover have "chain_data fs' ds = chain_data fs1 ds" if "\<forall>c \<in> set ds. \<not> in_cluster fs (dir_entry_pos d) c"
      by (rule chain_data_cong, rule E(4)) (use that I(1) in \<open>auto simp: chain_ok_def\<close>)
    ultimately show ?thesis using I(2) by simp
  qed
  moreover have "nothing_else fs (dir_entry_pos d) (cs @ ns) fs'"
    using write_nothing_else [OF wr E(3,6,7,8) _ E(2)] ri by (simp add: in_root_def G)
  moreover have "take 18 it3 = take 18 it"
  proof -
    have "byte_at it1 i = byte_at it i" if "i < 18" for i using sbc that by (simp add: same_but_cluster_def)
    then have "take 18 it1 = take 18 it" using l1 F(2) by (intro nth_equalityI) (simp_all add: byte_at_def)
    then show ?thesis by (simp add: it3_def it2_def set_filesize_def put32_def put16_def)
  qed
  moreover have "\<forall>c \<in> set ns. fat fs ! c = 0" using wr by (simp add: written_def)
  ultimately have "write_outcome fs d it cs bs k d' fs'"
    unfolding write_outcome_def using E(1,5) same_geometry_trans [OF sg E(2)] k
    by (intro conjI exI [of _ it3] exI [of _ ns]) (simp_all add: d', blast?)
  moreover have "case r of Inr n \<Rightarrow> n = nmemb \<and> k = unat (elsize * nmemb) | Inl e \<Rightarrow> e = NO_MEMORY_ERROR \<and> no_free fs'
      \<and> length cs * fat16_cluster_bytes fs \<le> unat (fd_pos d) + k"
    using fin lb G' E(3) by (cases res) (simp_all add: r no_free_def add_mult_distrib)
  ultimately show ?thesis unfolding bs_def by blast
qed


section \<open>Reading\<close>

lemma read_spec:
  fixes nmemb :: u32
  assumes ok: "fs_ok fs" and fo: "file_open fs d it cs" and el: "elsize \<noteq> 0" and small: "unat (filesize it) < 2 ^ 31"
  defines "m \<equiv> min ((unat (filesize it) - unat (fd_pos d)) div unat elsize) (unat nmemb)"
  shows "fat16_read fs elsize nmemb d
      = (Inr (of_nat m, take (m * unat elsize) (drop (unat (fd_pos d)) (content fs it cs))),
         d\<lparr>fd_pos := fd_pos d + of_nat (m * unat elsize)\<rparr>)
    \<and> file_open fs (d\<lparr>fd_pos := fd_pos d + of_nat (m * unat elsize)\<rparr>) it cs"
proof -
  have F: "fd_item d = Fat_file it" "length it = 32" "chain_ok fs (unat (fat16_get_first_cluster it)) cs"
    "unat (filesize it) \<le> length cs * fat16_cluster_bytes fs" "unat (fd_pos d) \<le> unat (filesize it)"
    using fo by (simp_all add: file_open_def)
  let ?p = "unat (fd_pos d)" and ?n = "unat (filesize it)" and ?e = "unat elsize"
  define members where "members = (filesize it - fd_pos d) div elsize"
  define w where "w = (if members > nmemb then nmemb else members)"
  have "unat (filesize it - fd_pos d) = ?n - ?p" using F(5) by (simp add: unat_sub word_le_nat_alt)
  then have um: "unat members = (?n - ?p) div ?e" by (simp add: members_def unat_div)
  then have uw: "unat w = m" by (auto simp: w_def m_def word_less_nat_alt min_def)
  have "m * ?e \<le> (?n - ?p) div ?e * ?e" by (intro mult_le_mono1) (simp add: m_def)
  also have "\<dots> \<le> ?n - ?p" by simp
  finally have fit: "?p + m * ?e \<le> ?n" using F(5) by linarith
  have ue: "unat (w * elsize) = m * ?e" using fit small uw by (simp add: unat_word_ariths take_bit_eq_mod)
  have wm: "w = of_nat m" using uw by (metis of_nat_unat ucast_id)
  have we: "w * elsize = of_nat (m * ?e)" using ue by (metis of_nat_unat ucast_id)
  have up: "unat (fd_pos d + of_nat (m * ?e)) = ?p + m * ?e" by (rule unat_advance) (use fit small in simp)
  have fo': "file_open fs (d\<lparr>fd_pos := fd_pos d + of_nat (m * ?e)\<rparr>) it cs"
    using fo up fit by (simp add: file_open_def)
  have r: "fat16_read fs elsize nmemb d
    = (if w = 0 then (Inr (0, []), d)
       else case fat16_read_internal fs (fat16_get_first_cluster it) ?p (nat (sint (w * elsize))) of
              Inl e \<Rightarrow> (Inl e, d)
            | Inr bs \<Rightarrow> (Inr (w, bs), d\<lparr>fd_pos := fd_pos d + w * elsize\<rparr>))"
    unfolding fat16_read_def F(1) fat_item.case Let_def members_def [symmetric] w_def [symmetric] ..
  show ?thesis
  proof (cases "m = 0")
    case True
    then have "w = 0" using uw unat_eq_zero by blast
    then show ?thesis using r True fo by simp
  next
    case False
    then have w0: "w \<noteq> 0" using uw by auto
    have pos: "0 < m * ?e" using False el by (simp add: unat_gt_0)
    have ne: "cs \<noteq> []" using F(4) fit pos by auto
    define q where "q = m * ?e"
    have "q < 2 ^ 31" using fit small unfolding q_def by linarith
    then have bits: "int q < 2 ^ 31" by simp
    have "sint (w * elsize) = int q"
    proof -
      have u: "uint (w * elsize) = int q" using ue unfolding q_def by (metis uint_nat)
      have "signed_take_bit 31 (uint (w * elsize)) = uint (w * elsize)"
        unfolding u by (rule signed_take_bit_int_eq_self) (use bits in simp_all)
      then show ?thesis using u unfolding sint_uint by simp
    qed
    then have "nat (sint (w * elsize)) = q" by simp
    then have k: "nat (sint (w * elsize)) = m * ?e" unfolding q_def .
    have "fat16_read_internal fs (w32 (unat (fat16_get_first_cluster it))) ?p (m * ?e)
        = Inr (take (m * ?e) (drop ?p (chain_data fs cs)))"
      by (rule fat16_read_internal [OF ok F(3) ne]) (use fit F(4) in linarith)
    moreover have "take (m * ?e) (drop ?p (chain_data fs cs)) = take (m * ?e) (drop ?p (content fs it cs))"
      using fit by (simp add: content_def drop_take min_def)
    ultimately show ?thesis using r w0 k wm we fo' by simp
  qed
qed

text \<open>A read returns the bytes of the file at the position, as many whole members as are asked for and
  left in front of the end of the file, and moves the position over them.\<close>

theorem fat16_read_result:
  assumes "fs_ok fs" "file_open fs d it cs" "elsize \<noteq> 0" "unat (filesize it) < 2 ^ 31"
  shows "let m = min ((unat (filesize it) - unat (fd_pos d)) div unat elsize) (unat nmemb);
             d' = d\<lparr>fd_pos := fd_pos d + of_nat (m * unat elsize)\<rparr>
    in fat16_read fs elsize nmemb d
         = (Inr (of_nat m, take (m * unat elsize) (drop (unat (fd_pos d)) (content fs it cs))), d')
       \<and> file_open fs d' it cs"
  using read_spec [OF assms] by (simp add: Let_def)

text \<open>C23. A write puts its bytes at the position of the file, whatever clusters it crosses, and grows the
  file and its chain as far as needed, with clusters that were free; the item on disk has the new size, first cluster
  and times and the old name and attributes. Every other chain keeps its clusters and its bytes (but for the cluster that
  holds the item). Of the table no entry of another cluster changes, of the root directory no other item, and of
  the clusters no byte outside the file's own and the 32 bytes of the item. It stops early only at the end of the
  chain on a full volume, with the bytes so far in the file.\<close>

theorem fat16_write_result:
  assumes "fs_ok fs" "file_open fs d it cs" "fd_mode d \<noteq> FILE_MODE_READ" "item_place fs (dir_entry_pos d) cs"
    and "unat (elsize * nmemb) \<le> length input" "unat (fd_pos d) + unat (elsize * nmemb) < 2 ^ 31"
    and "fat16_write now elsize nmemb input d fs = (r, d', fs')"
  shows "\<exists>k. write_outcome fs d it cs (take (unat (elsize * nmemb)) input) k d' fs'
    \<and> (case r of Inr n \<Rightarrow> n = nmemb \<and> k = unat (elsize * nmemb) | Inl e \<Rightarrow> e = NO_MEMORY_ERROR \<and> no_free fs'
        \<and> length cs * fat16_cluster_bytes fs \<le> unat (fd_pos d) + k)"
  by (rule write_spec [OF assms])

text \<open>C24. What was written is read back: seeking to where the write began and reading as much gives the
  bytes of the write.\<close>

theorem fat16_write_read:
  assumes ok: "fs_ok fs" and fo: "file_open fs d it cs" and mode: "fd_mode d \<noteq> FILE_MODE_READ"
    and place: "item_place fs (dir_entry_pos d) cs"
    and el: "elsize \<noteq> 0" and total: "unat (elsize * nmemb) = unat elsize * unat nmemb" "length input = unat elsize * unat nmemb"
    and small: "unat (filesize it) + unat elsize * unat nmemb < 2 ^ 31"
    and w: "fat16_write now elsize nmemb input d fs = (Inr n, d', fs')"
  shows "fst (fat16_read fs' elsize nmemb (snd (fat16_seek (fd_pos d) SEEK_SET d'))) = Inr (nmemb, input)"
proof -
  let ?p = "unat (fd_pos d)" and ?t = "unat elsize * unat nmemb"
  have F: "?p \<le> unat (filesize it)" "unat (filesize it) \<le> length cs * fat16_cluster_bytes fs" using fo by (simp_all add: file_open_def)
  obtain k where k: "write_outcome fs d it cs (take (unat (elsize * nmemb)) input) k d' fs'" "k = ?t"
    using write_spec [OF ok fo mode place _ _ w] total small F by auto
  then obtain it' ns where o: "fs_ok fs'" "file_open fs' d' it' (cs @ ns)" "fd_pos d' = fd_pos d + of_nat k"
    "content fs' it' (cs @ ns) = take ?p (content fs it cs) @ take k input @ drop (?p + k) (content fs it cs)"
    using total unfolding write_outcome_def by auto
  have F': "fd_item d' = Fat_file it'" "unat (fd_pos d') \<le> unat (filesize it')"
    "unat (filesize it') \<le> length (cs @ ns) * fat16_cluster_bytes fs'" using o(2) by (simp_all add: file_open_def)
  have lc: "length (content fs it cs) = unat (filesize it)" using F(2) by (simp add: content_def)
  have "length (content fs' it' (cs @ ns)) = unat (filesize it')" 
    unfolding content_def length_take length_chain_data using F'(3) by (rule min_absorb2)
  then have n': "unat (filesize it') = ?p + k + (unat (filesize it) - (?p + k))"
    unfolding o(4) using lc F(1) total k(2) by simp
  have sm: "unat (filesize it') < 2 ^ 31" using n' F(1) small k(2) by linarith
  have le: "fd_pos d \<le> filesize it'" unfolding word_le_nat_alt using n' by linarith
  have "0 \<le> sint (fd_pos d)" by (rule sint_nonneg) (use F(1) small in linarith)
  then have s: "snd (fat16_seek (fd_pos d) SEEK_SET d') = d'\<lparr>fd_pos := fd_pos d\<rparr>"
    using F'(1) le by (simp add: fat16_seek_def Let_def)
  have fo2: "file_open fs' (d'\<lparr>fd_pos := fd_pos d\<rparr>) it' (cs @ ns)"
    using o(2) le by (simp add: file_open_def word_le_nat_alt)
  have e0: "0 < unat elsize" using el by (simp add: unat_gt_0)
  have "?t div unat elsize \<le> (unat (filesize it') - ?p) div unat elsize" by (rule div_le_mono) (use n' k(2) in linarith)
  then have m: "min ((unat (filesize it') - ?p) div unat elsize) (unat nmemb) = unat nmemb" using e0 by simp
  have "fst (fat16_read fs' elsize nmemb (d'\<lparr>fd_pos := fd_pos d\<rparr>))
      = Inr (of_nat (unat nmemb), take (unat nmemb * unat elsize) (drop ?p (content fs' it' (cs @ ns))))"
    using read_spec [OF o(1) fo2 el sm, of nmemb] m by simp
  also have "take (unat nmemb * unat elsize) (drop ?p (content fs' it' (cs @ ns))) = input"
    unfolding o(4) using lc F(1) total k(2) by (simp add: mult.commute)
  finally show ?thesis unfolding s by simp
qed

section \<open>An open file\<close>

definition demo_item :: fat_item_bytes where
  "demo_item = str ''NOTES   TXT'' @ [0x20] @ replicate 14 0 @ [2, 0, 0x58, 2, 0, 0]"

definition demo_fd :: fat_file_descriptor where
  "demo_fd = \<lparr>fd_item = Fat_file demo_item, fd_pos = 510, fd_mode = FILE_MODE_WRITE, dir_entry_pos = 1536\<rparr>"

lemma demo_item: "length demo_item = 32" "filesize demo_item = 600" "fat16_get_first_cluster demo_item = 2"
  by code_simp+

lemma demo_open: "file_open demo_fs demo_fd demo_item [2, 3]"
proof -
  have "fat16_cluster_bytes demo_fs = 512" by (simp add: fat16_cluster_bytes_def demo_fs_def)
  then show ?thesis using demo_chain by (simp add: file_open_def demo_fd_def demo_item)
qed

lemma demo_place: "item_place demo_fs (dir_entry_pos demo_fd) [2, 3]"
  unfolding item_place_def
  by (intro disjI1 exI [of _ 0]) (simp add: in_root_def demo_fs_def demo_fd_def root_start_def)

theorem fat16_read_result_witness:
  "fst (fat16_read demo_fs 30 7 demo_fd) = Inr (3, take 90 (drop 510 (content demo_fs demo_item [2, 3])))"
proof -
  have "(30 :: u32) \<noteq> 0" "unat (filesize demo_item) < 2 ^ 31" by (simp_all add: demo_item)
  from fat16_read_result [OF demo_fs_ok demo_open this, of 7] show ?thesis
    by (simp add: Let_def demo_item demo_fd_def)
qed

text \<open>A write inside the chain does not need the free clusters.\<close>

lemma demo_write: "\<exists>d' fs'. fat16_write (1, 2) 2 3 [1, 2, 3, 4, 5, 6] demo_fd demo_fs = (Inr 3, d', fs')"
proof -
  obtain r d' fs' where w: "fat16_write (1, 2) 2 3 [1, 2, 3, 4, 5, 6] demo_fd demo_fs = (r, d', fs')"
    by (cases "fat16_write (1, 2) 2 3 [1, 2, 3, 4, 5, 6] demo_fd demo_fs") auto
  have h: "fd_mode demo_fd \<noteq> FILE_MODE_READ" "unat (2 * 3 :: u32) \<le> length [1, 2, 3, 4, 5, 6 :: u8]"
    "unat (fd_pos demo_fd) + unat (2 * 3 :: u32) < 2 ^ 31" by (simp_all add: demo_fd_def)
  have cb: "fat16_cluster_bytes demo_fs = 512" by (simp add: fat16_cluster_bytes_def demo_fs_def)
  obtain k where k: "write_outcome demo_fs demo_fd demo_item [2, 3] (take (unat (2 * 3 :: u32)) [1, 2, 3, 4, 5, 6]) k d' fs'"
    "case r of Inr n \<Rightarrow> n = 3 \<and> k = unat (2 * 3 :: u32) | Inl e \<Rightarrow> e = NO_MEMORY_ERROR \<and> no_free fs'
      \<and> length [2, 3 :: nat] * fat16_cluster_bytes demo_fs \<le> unat (fd_pos demo_fd) + k"
    using write_spec [OF demo_fs_ok demo_open h(1) demo_place h(2,3) w] by blast
  have "k \<le> 6" using k(1) by (auto simp: write_outcome_def)
  then have "r = Inr 3" using k(2) cb by (cases r) (simp_all add: demo_fd_def)
  then show ?thesis using w by blast
qed

theorem fat16_write_result_witness:
  "case fat16_write (1, 2) 2 3 [1, 2, 3, 4, 5, 6] demo_fd demo_fs of (r, d', fs') \<Rightarrow>
     r = Inr 3 \<and> write_outcome demo_fs demo_fd demo_item [2, 3] (take (unat (2 * 3 :: u32)) [1, 2, 3, 4, 5, 6]) 6 d' fs'"
proof -
  obtain d' fs' where w: "fat16_write (1, 2) 2 3 [1, 2, 3, 4, 5, 6] demo_fd demo_fs = (Inr 3, d', fs')"
    using demo_write by blast
  have h: "fd_mode demo_fd \<noteq> FILE_MODE_READ" "unat (2 * 3 :: u32) \<le> length [1, 2, 3, 4, 5, 6 :: u8]"
    "unat (fd_pos demo_fd) + unat (2 * 3 :: u32) < 2 ^ 31" by (simp_all add: demo_fd_def)
  show ?thesis
    unfolding w prod.case using fat16_write_result [OF demo_fs_ok demo_open h(1) demo_place h(2,3) w] by auto
qed

theorem fat16_write_read_witness:
  "case fat16_write (1, 2) 2 3 [1, 2, 3, 4, 5, 6] demo_fd demo_fs of (r, d', fs') \<Rightarrow>
     fst (fat16_read fs' 2 3 (snd (fat16_seek (fd_pos demo_fd) SEEK_SET d'))) = Inr (3, [1, 2, 3, 4, 5, 6])"
proof -
  obtain d' fs' where w: "fat16_write (1, 2) 2 3 [1, 2, 3, 4, 5, 6] demo_fd demo_fs = (Inr 3, d', fs')"
    using demo_write by blast
  show ?thesis
    unfolding w prod.case
    by (rule fat16_write_read [OF demo_fs_ok demo_open _ demo_place _ _ _ _ w]) (simp_all add: demo_fd_def demo_item)
qed

section \<open>Mounting\<close>

lemma nth_entries16: "c < n \<Longrightarrow> entries16 n bs ! c = get16 (drop (2 * c) bs) 0"
  by (induction n bs arbitrary: c rule: entries16.induct) (auto simp: nth_Cons split: nat.split)

lemma length_entries16 [simp]: "length (entries16 n bs) = n"
  by (induction n bs rule: entries16.induct) auto

lemma nth_chunks32: "c < n \<Longrightarrow> chunks32 n bs ! c = take 32 (drop (32 * c) bs)"
  by (induction n bs arbitrary: c rule: chunks32.induct) (auto simp: nth_Cons add.commute split: nat.split)

lemma length_chunks32 [simp]: "length (chunks32 n bs) = n"
  by (induction n bs rule: chunks32.induct) auto

lemma count_root_loop_le: "count_root_loop d pos k i \<le> i + k"
  by (induction d pos k i rule: count_root_loop.induct) (auto simp: Let_def split: prod.split)

lemma le16_get16:
  assumes "length bs = 2"
  shows "le16 (get16 bs 0) = bs"
proof -
  obtain a b where bs: "bs = [a, b]" using assms by (auto simp: numeral_2_eq_2 length_Suc_conv)
  have v: "unat (get16 bs 0) = unat a + 256 * unat b"
    using unat_u8_less [of a] unat_u8_less [of b]
    by (simp add: bs get16_def byte_at_def unat_word_ariths unsigned_ucast_eq take_bit_eq_mod)
  have "ucast (get16 bs 0) = a"
    using v unat_u8_less [of a] by (simp add: word_unat_eq_iff unsigned_ucast_eq take_bit_eq_mod)
  moreover have "ucast (get16 bs 0 div 256) = b"
    using v unat_u8_less [of a] unat_u8_less [of b] by (simp add: word_unat_eq_iff unsigned_ucast_eq take_bit_eq_mod unat_div)
  ultimately show ?thesis by (simp add: le16_def bs)
qed

text \<open>What the code takes for granted of a volume: its sizes fit, and its copies of the table agree.\<close>

definition sound_volume :: "fat_fs \<Rightarrow> bool" where
  "sound_volume fs \<longleftrightarrow> disk_ok (fs_disk fs) \<and> 0 < clusters_per fs \<and> root_ending_sector_pos fs \<le> volume_sectors fs
     \<and> volume_sectors fs * 512 < 2 ^ 31 \<and> limit_of fs \<le> length (fat fs) \<and> limit_of fs \<le> 0xFFF0
     \<and> (\<forall>k < unat (fat_copies (header fs)).
          slice (part (fs_disk fs)) (fat_start fs k) (unat (sectors_per_fat (header fs)) * 512)
            = slice (part (fs_disk fs)) (fat_start fs 0) (unat (sectors_per_fat (header fs)) * 512))"

lemma resolve_fields:
  assumes "fat16_resolve d = Inr fs"
  shows "fs_disk fs = d" "root_item fs = chunks32 (unat (root_dir_entries (header fs)))
      (fst (read_at d (of_nat (root_sector_pos fs) * 512) (unat (root_dir_entries (header fs)) * 32)))"
    "root_sector_pos fs = unat (fat_copies (header fs)) * unat (sectors_per_fat (header fs)) + unat (reserved_sectors (header fs))"
    "root_sector_pos fs * 512 + 32 * unat (root_dir_entries (header fs)) \<le> root_ending_sector_pos fs * 512"
    "root_total fs \<le> unat (root_dir_entries (header fs))"
    "fat fs = entries16 (unat (sectors_per_fat (header fs)) * 256)
       (fst (read_at d (ucast (reserved_sectors (header fs)) * 512) (unat (sectors_per_fat (header fs)) * 512)))"
proof -
  define h where "h = parse_header (fst (read_at d 0 62))"
  obtain items n pos ending where r: "fat16_get_root_directory d h = Inr (items, n, pos, ending)"
    and fs: "fs = \<lparr>fs_disk = d, header = h, root_item = items, root_total = n, root_sector_pos = pos,
      root_ending_sector_pos = ending, next_free_cluster = 0,
      fat = entries16 (unat (sectors_per_fat h) * SECTOR_SIZE div 2)
        (fst (read_at d (ucast (reserved_sectors h) * 512) (unat (sectors_per_fat h) * SECTOR_SIZE)))\<rparr>"
    using assms by (auto simp: fat16_resolve_def Let_def h_def split: if_splits sum.splits)
  have pos: "pos = unat (fat_copies h) * unat (sectors_per_fat h) + unat (reserved_sectors h)"
    and items: "items = chunks32 (unat (root_dir_entries h)) (fst (read_at d (of_nat pos * 512) (unat (root_dir_entries h) * 32)))"
    and n: "n = count_root_loop d (of_nat pos * 512) (unat (root_dir_entries h)) 0"
    and ending: "ending = pos + (unat (root_dir_entries h) * 32 div 512 + (if unat (root_dir_entries h) * 32 mod 512 \<noteq> 0 then 1 else 0))"
    using r by (auto simp: fat16_get_root_directory_def Let_def fat16_sector_to_absolute_def
        fat16_get_total_items_for_directory_def split: if_splits)
  have "x \<le> (x div 512 + (if x mod 512 \<noteq> 0 then 1 else 0)) * 512" for x :: nat
  proof (cases "x mod 512 = 0")
    case True
    then show ?thesis using div_mult_mod_eq [of x 512] by simp
  next
    case False
    have "x = x div 512 * 512 + x mod 512" "x mod 512 < 512" by simp_all
    moreover have "(x div 512 + 1) * 512 = x div 512 * 512 + 512" by simp
    ultimately show ?thesis using False by (simp only: if_True not_False_eq_True)
  qed
  from this [of "unat (root_dir_entries h) * 32"]
  have e: "pos * 512 + 32 * unat (root_dir_entries h) \<le> ending * 512" unfolding ending by (simp add: algebra_simps)
  have H: "header fs = h" "root_item fs = items" "root_sector_pos fs = pos" "root_ending_sector_pos fs = ending" "root_total fs = n"
    by (simp_all add: fs)
  have two: "unat (sectors_per_fat h) * SECTOR_SIZE div 2 = unat (sectors_per_fat h) * 256" by simp
  show "fs_disk fs = d" by (simp add: fs)
  show "root_item fs = chunks32 (unat (root_dir_entries (header fs)))
      (fst (read_at d (of_nat (root_sector_pos fs) * 512) (unat (root_dir_entries (header fs)) * 32)))"
    unfolding H by (rule items)
  show "root_sector_pos fs = unat (fat_copies (header fs)) * unat (sectors_per_fat (header fs)) + unat (reserved_sectors (header fs))"
    unfolding H by (rule pos)
  show "root_sector_pos fs * 512 + 32 * unat (root_dir_entries (header fs)) \<le> root_ending_sector_pos fs * 512"
    unfolding H by (rule e)
  show "root_total fs \<le> unat (root_dir_entries (header fs))"
    unfolding H n using count_root_loop_le [of d "of_nat pos * 512" "unat (root_dir_entries h)" 0] by simp
  show "fat fs = entries16 (unat (sectors_per_fat (header fs)) * 256)
       (fst (read_at d (ucast (reserved_sectors (header fs)) * 512) (unat (sectors_per_fat (header fs)) * 512)))"
    unfolding H unfolding fs two by simp
qed

text \<open>Mounting a sound volume gives a volume in order: the table and the root directory in memory are
  those on disk, and no position of the volume wraps.\<close>

theorem fat16_resolve_ok:
  assumes r: "fat16_resolve d = Inr fs" and s: "sound_volume fs"
  shows "fs_ok fs"
proof -
  note R = resolve_fields [OF r]
  let ?spf = "unat (sectors_per_fat (header fs))" and ?n = "unat (root_dir_entries (header fs))"
  have d: "disk_ok d" and vol: "root_ending_sector_pos fs * 512 < 2 ^ 31" "root_ending_sector_pos fs \<le> volume_sectors fs"
    using s R(1) by (auto simp: sound_volume_def)
  have lf: "length (fat fs) = ?spf * 256" by (simp add: R(6))
  have rs: "root_start fs + 32 * ?n < 2 ^ 31" using R(4) vol by (simp add: root_start_def)
  have "unat (of_nat (root_sector_pos fs) * 512 :: u32) = root_start fs"
  proof -
    have "of_nat (root_sector_pos fs) * 512 = (of_nat (root_start fs) :: u32)" by (simp add: root_start_def)
    then show ?thesis using rs by (simp only: unat_of_nat) (simp add: take_bit_eq_mod)
  qed
  then have items: "root_item fs = chunks32 ?n (slice (part d) (root_start fs) (?n * 32))"
    using R(2) read_at [OF d, of "of_nat (root_sector_pos fs) * 512" "?n * 32"] rs by simp
  have item: "root_item fs ! i = slice (part d) (root_start fs + 32 * i) 32" if "i < ?n" for i
    unfolding items nth_chunks32 [OF that] using that by (simp add: slice_sub)
  have geo: "geometry_ok fs"
  proof -
    have "\<forall>x \<in> set (root_item fs). length x = 32"
      using item by (auto simp: in_set_conv_nth items)
    then show ?thesis
      using s R(3,4,5) lf R(1) by (simp add: geometry_ok_def sound_volume_def items)
  qed
  have "root_synced fs" using item R(1) by (simp add: root_synced_def items)
  moreover have "fat_synced fs"
    unfolding fat_synced_def
  proof (intro allI impI)
    fix k c assume k: "k < unat (fat_copies (header fs))" "c < length (fat fs)"
    have "(0 + 1) * ?spf \<le> unat (fat_copies (header fs)) * ?spf" using k(1) by (intro mult_le_mono1) simp
    then have "(unat (reserved_sectors (header fs)) + ?spf) * 512 \<le> root_start fs"
      using R(3) by (simp add: root_start_def)
    then have f0: "fat_start fs 0 + ?spf * 512 < 2 ^ 31" using rs by (simp add: fat_start_def)
    have "unat (ucast (reserved_sectors (header fs)) * 512 :: u32) = fat_start fs 0"
      using f0 by (simp add: fat_start_def unat_word_ariths take_bit_eq_mod)
    then have fat: "fat fs = entries16 (?spf * 256) (slice (part d) (fat_start fs 0) (?spf * 512))"
      using R(6) read_at [OF d, of "ucast (reserved_sectors (header fs)) * 512" "?spf * 512"] f0 by simp
    have c: "c < ?spf * 256" using k(2) lf by simp
    have sub: "take 2 (drop (2 * c) (slice (part d) (fat_start fs j) (?spf * 512))) = slice (part d) (fat_start fs j + 2 * c) 2" for j
      by (rule slice_sub) (use c in simp)
    have g2: "get16 bs 0 = get16 (take 2 bs) 0" if "2 \<le> length bs" for bs
    proof -
      have "bs \<noteq> []" using that by auto
      then show ?thesis using that by (simp add: get16_def byte_at_def)
    qed
    have "fat fs ! c = get16 (slice (part d) (fat_start fs 0 + 2 * c) 2) 0"
      unfolding fat nth_entries16 [OF c] sub [symmetric] by (rule g2) (use c in simp)
    then have "le16 (fat fs ! c) = slice (part d) (fat_start fs 0 + 2 * c) 2" by (simp add: le16_get16)
    moreover have "slice (part d) (fat_start fs k + 2 * c) 2 = slice (part d) (fat_start fs 0 + 2 * c) 2"
    proof -
      have "slice (part d) (fat_start fs k) (?spf * 512) = slice (part d) (fat_start fs 0) (?spf * 512)"
        using s k(1) unfolding sound_volume_def R(1) by blast
      then show ?thesis using sub [of k] sub [of 0] by metis
    qed
    ultimately show "slice (part (fs_disk fs)) (fat_start fs k + 2 * c) 2 = le16 (fat fs ! c)" by (simp add: R(1))
  qed
  ultimately show ?thesis using geo by (simp add: fs_ok_def)
qed

definition blank_disk :: disk where
  "blank_disk = \<lparr>image = (\<lambda>i. if i = 13 \<or> i = 14 \<or> i = 22 then 1 else if i = 16 then 2 else if i = 17 then 16
    else if i = 19 then 10 else if i = 38 then 0x29 else 0), lba_offset = 0\<rparr>"

lemma byte_at_slice: "byte_at (slice f p n) i = (if i < n then f (p + i) else 0)"
  by (simp add: byte_at_def slice_nth)

theorem fat16_resolve_ok_witness:
  "case fat16_resolve blank_disk of Inr fs \<Rightarrow> fs_ok fs \<and> limit_of fs = 8 | Inl e \<Rightarrow> False"
proof -
  have d: "disk_ok blank_disk" by (simp add: disk_ok_def blank_disk_def)
  have h: "parse_header (fst (read_at blank_disk 0 62)) = \<lparr>sectors_per_cluster = 1, reserved_sectors = 1, fat_copies = 2,
      root_dir_entries = 16, number_of_sectors = 10, sectors_per_fat = 1, sectors_big = 0, signature = 0x29\<rparr>"
  proof -
    have "fst (read_at blank_disk 0 62) = slice (part blank_disk) 0 62" using read_at [OF d, of 0 62] by simp
    then show ?thesis by (simp only:) (simp add: parse_header_def byte_at_slice get16_def get32_def part_def blank_disk_def)
  qed
  obtain fs where fs: "fat16_resolve blank_disk = Inr fs"
    by (auto simp: fat16_resolve_def h Let_def fat16_get_root_directory_def)
  have hd: "header fs = \<lparr>sectors_per_cluster = 1, reserved_sectors = 1, fat_copies = 2,
      root_dir_entries = 16, number_of_sectors = 10, sectors_per_fat = 1, sectors_big = 0, signature = 0x29\<rparr>"
    "root_ending_sector_pos fs = 4"
    using fs by (auto simp: fat16_resolve_def h Let_def fat16_get_root_directory_def)
  have lim: "limit_of fs = 8" by (simp add: limit_of_def volume_sectors_def clusters_per_def hd)
  have len: "length (fat fs) = 256" using resolve_fields(6) [OF fs] by (simp add: hd)
  have copies: "\<forall>k < unat (fat_copies (header fs)).
      slice (part blank_disk) (fat_start fs k) (unat (sectors_per_fat (header fs)) * 512)
        = slice (part blank_disk) (fat_start fs 0) (unat (sectors_per_fat (header fs)) * 512)"
    by (intro allI impI nth_equalityI) (simp_all add: slice_nth part_def blank_disk_def fat_start_def hd)
  have "sound_volume fs"
    unfolding sound_volume_def resolve_fields(1) [OF fs]
    by (intro conjI copies d) (simp_all add: lim len clusters_per_def volume_sectors_def hd)
  then show ?thesis using fat16_resolve_ok [OF fs] fs lim by simp
qed

end
