(* ===== verification/FileApi.thy ===== *)
theory FileApi
  imports FatFile PathParser CString
begin

text \<open>
  Files as the kernel uses them: the descriptor table of \<^verbatim>\<open>src/file_system/file.c\<close> and the
  functions of \<^verbatim>\<open>src/libc/stdio/stdio.c\<close> over it.

  There is one disk, with the FAT16 volume mounted by \<^verbatim>\<open>fs_resolve\<close>; \<open>volume\<close> is \<open>None\<close> while the
  disk has no file system. The function pointers of \<^verbatim>\<open>struct file_system\<close> are the functions of
  \<open>FatFile\<close>. The number of an open file is the index of its descriptor plus one, 0 means
  failure. \<open>now\<close> is the date and time the clock gives for the entries that get written.
\<close>

abbreviation (input) MAX_FILE_DESCS :: nat where "MAX_FILE_DESCS \<equiv> 512"

record vfs =
  volume :: "fat_fs option"
  descs :: "fat_file_descriptor option list"

section \<open>Mounting\<close>

definition fs_init :: vfs where
  "fs_init = \<lparr>volume = None, descs = replicate MAX_FILE_DESCS None\<rparr>"

text \<open>\<^verbatim>\<open>fs_resolve\<close> asks the only file system there is.\<close>

definition fs_resolve :: "disk \<Rightarrow> vfs \<Rightarrow> vfs" where
  "fs_resolve d v = v\<lparr>volume := (case fat16_resolve d of Inl e \<Rightarrow> None | Inr fs \<Rightarrow> Some fs)\<rparr>"

section \<open>Descriptors\<close>

definition file_get_mode_by_string :: "bytes \<Rightarrow> file_mode option" where
  "file_get_mode_by_string s =
    (if strncmp s (str ''r'') 1 = 0 then Some FILE_MODE_READ
     else if strncmp s (str ''w'') 1 = 0 then Some FILE_MODE_WRITE
     else if strncmp s (str ''a'') 1 = 0 then Some FILE_MODE_APPEND
     else None)"

definition file_get_descriptor :: "int \<Rightarrow> vfs \<Rightarrow> fat_file_descriptor option" where
  "file_get_descriptor fd v = (if fd \<le> 0 \<or> fd > int MAX_FILE_DESCS then None else descs v ! nat (fd - 1))"

fun free_desc_loop :: "fat_file_descriptor option list \<Rightarrow> nat list \<Rightarrow> nat option" where
  "free_desc_loop ds [] = None"
| "free_desc_loop ds (i # is) = (if ds ! i = None then Some i else free_desc_loop ds is)"

definition file_new_descriptor :: "fat_file_descriptor \<Rightarrow> vfs \<Rightarrow> (int \<times> vfs) option" where
  "file_new_descriptor d v =
    (case free_desc_loop (descs v) [0..<MAX_FILE_DESCS] of
       None \<Rightarrow> None
     | Some i \<Rightarrow> Some (int i + 1, v\<lparr>descs := (descs v)[i := Some d]\<rparr>))"

definition file_free_descriptor :: "int \<Rightarrow> vfs \<Rightarrow> vfs" where
  "file_free_descriptor fd v = v\<lparr>descs := (descs v)[nat (fd - 1) := None]\<rparr>"

text \<open>What \<^verbatim>\<open>desc->priv\<close> points to changes with the file.\<close>

definition set_descriptor :: "int \<Rightarrow> fat_file_descriptor \<Rightarrow> vfs \<Rightarrow> vfs" where
  "set_descriptor fd d v = v\<lparr>descs := (descs v)[nat (fd - 1) := Some d]\<rparr>"

section \<open>Opening and closing\<close>

definition fopen :: "fat_clock \<Rightarrow> bytes \<Rightarrow> bytes \<Rightarrow> vfs \<Rightarrow> int \<times> vfs" where
  "fopen now filename mode_str v =
    (case pathparser_parse filename of
       None \<Rightarrow> (0, v)
     | Some root \<Rightarrow>
         if parts root = [] \<or> drive_no root \<noteq> 0 then (0, v)
         else (case (volume v, file_get_mode_by_string mode_str) of
                (Some fs, Some mode) \<Rightarrow>
                  (case fat16_open now (parts root) mode fs of
                     (Inl e, fs) \<Rightarrow> (0, v\<lparr>volume := Some fs\<rparr>)
                   | (Inr d, fs) \<Rightarrow>
                       (case file_new_descriptor d (v\<lparr>volume := Some fs\<rparr>) of
                          None \<Rightarrow> (0, v\<lparr>volume := Some fs\<rparr>)
                        | Some (fd, v) \<Rightarrow> (fd, v)))
              | _ \<Rightarrow> (0, v)))"

definition fclose :: "int \<Rightarrow> vfs \<Rightarrow> error option \<times> vfs" where
  "fclose fd v =
    (case file_get_descriptor fd v of
       None \<Rightarrow> (Some IO_ERROR, v)
     | Some d \<Rightarrow> (None, file_free_descriptor fd v))"

section \<open>Open files\<close>

definition fstat :: "int \<Rightarrow> vfs \<Rightarrow> error + file_stat" where
  "fstat fd v = (case file_get_descriptor fd v of None \<Rightarrow> Inl IO_ERROR | Some d \<Rightarrow> fat16_stat d)"

definition fseek :: "int \<Rightarrow> u32 \<Rightarrow> u32 \<Rightarrow> vfs \<Rightarrow> error option \<times> vfs" where
  "fseek fd offset whence v =
    (case file_get_descriptor fd v of
       None \<Rightarrow> (Some IO_ERROR, v)
     | Some d \<Rightarrow> (case fat16_seek offset whence d of (r, d) \<Rightarrow> (r, set_descriptor fd d v)))"

text \<open>The members read and their bytes.\<close>

definition fread :: "u32 \<Rightarrow> u32 \<Rightarrow> int \<Rightarrow> vfs \<Rightarrow> (error + u32 \<times> bytes) \<times> vfs" where
  "fread elsize nmemb fd v =
    (if elsize = 0 \<or> nmemb = 0 \<or> fd < 1 then (Inl INVALID_ARG_ERROR, v)
     else case (file_get_descriptor fd v, volume v) of
            (Some d, Some fs) \<Rightarrow> (case fat16_read fs elsize nmemb d of (r, d) \<Rightarrow> (r, set_descriptor fd d v))
          | _ \<Rightarrow> (Inl INVALID_ARG_ERROR, v))"

definition fwrite :: "fat_clock \<Rightarrow> bytes \<Rightarrow> u32 \<Rightarrow> u32 \<Rightarrow> int \<Rightarrow> vfs \<Rightarrow> (error + u32) \<times> vfs" where
  "fwrite now ptr elsize nmemb fd v =
    (if elsize = 0 \<or> nmemb = 0 then (Inr 0, v)
     else case (file_get_descriptor fd v, volume v) of
            (Some d, Some fs) \<Rightarrow>
              (case fat16_write now elsize nmemb ptr d fs of
                 (r, d, fs) \<Rightarrow> (r, set_descriptor fd d (v\<lparr>volume := Some fs\<rparr>)))
          | _ \<Rightarrow> (Inl INVALID_ARG_ERROR, v))"

section \<open>Operations on paths\<close>

definition file_path_op :: "bytes \<Rightarrow> (fat_fs \<Rightarrow> bytes list \<Rightarrow> (error + 'r) \<times> fat_fs) \<Rightarrow> vfs \<Rightarrow> (error + 'r) \<times> vfs" where
  "file_path_op path op v =
    (case pathparser_parse path of
       None \<Rightarrow> (Inl INVALID_PATH_ERROR, v)
     | Some root \<Rightarrow>
         (case (if drive_no root = 0 then volume v else None) of
            None \<Rightarrow> (Inl IO_ERROR, v)
          | Some fs \<Rightarrow> (case op fs (parts root) of (r, fs) \<Rightarrow> (r, v\<lparr>volume := Some fs\<rparr>))))"

definition listdir :: "bytes \<Rightarrow> int \<Rightarrow> vfs \<Rightarrow> (error + file_dirent list) \<times> vfs" where
  "listdir path max_entries v = file_path_op path (\<lambda>fs ps. (fat16_listdir fs ps max_entries, fs)) v"

definition as_result :: "error option \<times> fat_fs \<Rightarrow> (error + unit) \<times> fat_fs" where
  "as_result r = (case fst r of Some e \<Rightarrow> Inl e | None \<Rightarrow> Inr (), snd r)"

definition remove_file :: "bytes \<Rightarrow> vfs \<Rightarrow> (error + unit) \<times> vfs" where
  "remove_file path v = file_path_op path (\<lambda>fs ps. as_result (fat16_remove ps fs)) v"

definition mkdir :: "fat_clock \<Rightarrow> bytes \<Rightarrow> vfs \<Rightarrow> (error + unit) \<times> vfs" where
  "mkdir now path v = file_path_op path (\<lambda>fs ps. as_result (fat16_mkdir now ps fs)) v"

section \<open>The descriptor table\<close>

text \<open>The table has its size.\<close>

definition vfs_ok :: "vfs \<Rightarrow> bool" where
  "vfs_ok v \<longleftrightarrow> length (descs v) = MAX_FILE_DESCS"

definition open_file :: "vfs \<Rightarrow> int \<Rightarrow> bool" where
  "open_file v fd \<longleftrightarrow> file_get_descriptor fd v \<noteq> None"

lemma free_desc_loop_spec:
  "free_desc_loop ds is = Some i \<Longrightarrow> i \<in> set is \<and> ds ! i = None"
  "free_desc_loop ds is = None \<Longrightarrow> \<forall>i\<in>set is. ds ! i \<noteq> None"
  by (induction "is") (auto split: if_splits)

lemma free_desc_least: "free_desc_loop ds [m..<n] = Some i \<Longrightarrow> m \<le> j \<Longrightarrow> j < i \<Longrightarrow> ds ! j \<noteq> None"
proof (induction "n - m" arbitrary: m)
  case 0
  then show ?case by simp
next
  case (Suc k)
  then have u: "[m..<n] = m # [Suc m..<n]" by (simp add: upt_conv_Cons)
  show ?case
  proof (cases "j = m")
    case True
    then show ?thesis using Suc.prems u by (auto split: if_splits)
  next
    case False
    then show ?thesis using Suc.prems u Suc.hyps by (intro Suc.hyps(1) [of "Suc m"]) (auto split: if_splits)
  qed
qed

lemma get_new_descriptor:
  assumes "vfs_ok v" "file_new_descriptor d v = Some (fd, v')"
  shows "1 \<le> fd" "fd \<le> int MAX_FILE_DESCS" "file_get_descriptor fd v = None"
    "\<And>f. file_get_descriptor f v' = (if f = fd then Some d else file_get_descriptor f v)"
    "\<And>f. 1 \<le> f \<Longrightarrow> f < fd \<Longrightarrow> file_get_descriptor f v \<noteq> None"
    "vfs_ok v'" "volume v' = volume v"
proof -
  obtain i where i: "free_desc_loop (descs v) [0..<MAX_FILE_DESCS] = Some i" "fd = int i + 1"
    and v': "v' = v\<lparr>descs := (descs v)[i := Some d]\<rparr>"
    using assms(2) by (auto simp: file_new_descriptor_def split: option.splits)
  have m: "i < MAX_FILE_DESCS" "descs v ! i = None" using free_desc_loop_spec(1) [OF i(1)] by auto
  show "1 \<le> fd" "fd \<le> int MAX_FILE_DESCS" "file_get_descriptor fd v = None" "vfs_ok v'" "volume v' = volume v"
    using i m assms(1) by (simp_all add: file_get_descriptor_def v' vfs_ok_def)
  show "file_get_descriptor f v' = (if f = fd then Some d else file_get_descriptor f v)" for f
    using i m assms(1) by (auto simp: file_get_descriptor_def v' vfs_ok_def nth_list_update)
  show "file_get_descriptor f v \<noteq> None" if "1 \<le> f" "f < fd" for f
    using free_desc_least [OF i(1), of "nat (f - 1)"] that i m by (auto simp: file_get_descriptor_def)
qed

end
