(* ===== verification/Keyboard.thy ===== *)
theory Keyboard
  imports ByteQueue
begin

text \<open>
  The keyboard driver, \<^verbatim>\<open>src/drivers/keyboard/keyboard.c\<close>: scancodes become chars in a ring buffer
  and key events in a second one. \<^verbatim>\<open>keyboard_handle_interrupt\<close> gets the byte it reads from
  the controller as an argument; a mouse byte is left alone and does not reach it.

  The input buffer is a queue of 127 chars that drops what does not fit. It is shown to be one by
  interpreting \<open>byte_queue\<close>.
\<close>

section \<open>State\<close>

abbreviation (input) KEYBOARD_BUFFER_SIZE :: nat where "KEYBOARD_BUFFER_SIZE \<equiv> 128"
abbreviation (input) KEYBOARD_EVENTS_SIZE :: nat where "KEYBOARD_EVENTS_SIZE \<equiv> 128"
abbreviation (input) KEY_CTRL_C :: u8 where "KEY_CTRL_C \<equiv> 3"
abbreviation (input) KEY_CTRL_D :: u8 where "KEY_CTRL_D \<equiv> 4"
abbreviation (input) KEY_RELEASED :: u16 where "KEY_RELEASED \<equiv> 0x100"

record keyboard =
  kb_buffer :: bytes
  buffer_head :: nat
  buffer_tail :: nat
  kb_events :: "u16 list"
  events_head :: nat
  events_tail :: nat
  shift_held :: bool
  ctrl_held :: bool
  caps_lock :: bool
  extended :: bool
  ctrl_c_pressed :: bool

definition keyboard_init :: keyboard where
  "keyboard_init = \<lparr>kb_buffer = replicate KEYBOARD_BUFFER_SIZE 0, buffer_head = 0, buffer_tail = 0,
     kb_events = replicate KEYBOARD_EVENTS_SIZE 0, events_head = 0, events_tail = 0, shift_held = False,
     ctrl_held = False, caps_lock = False, extended = False, ctrl_c_pressed = False\<rparr>"

definition keymap :: "u8 list" where
  "keymap = [0, 27] @ str ''1234567890-='' @ [8, 9] @ str ''qwertyuiop[]'' @ [10, 0] @ str ''asdfghjkl;''
     @ [39, 96, 0, 92] @ str ''zxcvbnm,./'' @ [0, 42, 0, 32]"

definition keymap_shift :: "u8 list" where
  "keymap_shift = [0, 27] @ str ''!@#$%^&*()_+'' @ [8, 9] @ str ''QWERTYUIOP{}'' @ [10, 0] @ str ''ASDFGHJKL:''
     @ [34, 126, 0, 124] @ str ''ZXCVBNM<>?'' @ [0, 42, 0, 32]"

section \<open>The two rings\<close>

definition buffer_push :: "u8 \<Rightarrow> keyboard \<Rightarrow> keyboard" where
  "buffer_push c kb =
    (let nxt = (buffer_head kb + 1) mod KEYBOARD_BUFFER_SIZE
     in if nxt = buffer_tail kb then kb
        else kb\<lparr>kb_buffer := (kb_buffer kb)[buffer_head kb := c], buffer_head := nxt\<rparr>)"

definition event_push :: "u16 \<Rightarrow> keyboard \<Rightarrow> keyboard" where
  "event_push event kb =
    (let nxt = (events_head kb + 1) mod KEYBOARD_EVENTS_SIZE;
         kb = (if nxt = events_tail kb then kb\<lparr>events_tail := (events_tail kb + 1) mod KEYBOARD_EVENTS_SIZE\<rparr> else kb)
     in kb\<lparr>kb_events := (kb_events kb)[events_head kb := event], events_head := nxt\<rparr>)"

definition keyboard_getchar :: "keyboard \<Rightarrow> u8 option \<times> keyboard" where
  "keyboard_getchar kb =
    (if buffer_tail kb = buffer_head kb then (None, kb)
     else (Some (kb_buffer kb ! buffer_tail kb),
           kb\<lparr>buffer_tail := (buffer_tail kb + 1) mod KEYBOARD_BUFFER_SIZE\<rparr>))"

definition keyboard_take_ctrl_c :: "keyboard \<Rightarrow> bool \<times> keyboard" where
  "keyboard_take_ctrl_c kb = (ctrl_c_pressed kb, kb\<lparr>ctrl_c_pressed := False\<rparr>)"

definition keyboard_flush :: "keyboard \<Rightarrow> keyboard" where
  "keyboard_flush kb = kb\<lparr>buffer_tail := buffer_head kb, ctrl_c_pressed := False\<rparr>"

definition keyboard_get_event :: "keyboard \<Rightarrow> u16 option \<times> keyboard" where
  "keyboard_get_event kb =
    (if events_tail kb = events_head kb then (None, kb)
     else (Some (kb_events kb ! events_tail kb),
           kb\<lparr>events_tail := (events_tail kb + 1) mod KEYBOARD_EVENTS_SIZE\<rparr>))"

definition keyboard_flush_events :: "keyboard \<Rightarrow> keyboard" where
  "keyboard_flush_events kb = kb\<lparr>events_tail := events_head kb\<rparr>"

section \<open>Scancodes\<close>

text \<open>Navigation keys: the code of an extended scancode that has one in the input buffer.\<close>

definition nav_key :: "u8 \<Rightarrow> u8" where
  "nav_key sc = (if sc = 0x48 then 0x80 else if sc = 0x50 then 0x81 else if sc = 0x4B then 0x82
     else if sc = 0x4D then 0x83 else if sc = 0x47 then 0x84 else if sc = 0x4F then 0x85
     else if sc = 0x53 then 0x86 else 0)"

definition event_key :: "u8 \<Rightarrow> bool \<Rightarrow> u16" where
  "event_key sc is_extended =
    (if is_extended then
       (if nav_key sc \<noteq> 0 then ucast (nav_key sc)
        else if sc = 0x49 then 0x96 else if sc = 0x51 then 0x97 else if sc = 0x52 then 0x98
        else if sc = 0x1D then 0x87 else if sc = 0x38 then 0x89 else if sc = 0x1C then 10 else 0)
     else if sc = 0x1D then 0x87
     else if sc = 0x2A \<or> sc = 0x36 then 0x88
     else if sc = 0x38 then 0x89
     else if sc = 0x57 then 0x8A + 10 else if sc = 0x58 then 0x8A + 11
     else if sc \<ge> 0x3B \<and> sc \<le> 0x44 then 0x8A + ucast sc - 0x3B
     else if unat sc < length keymap then ucast (keymap ! unat sc) else 0)"

definition translate :: "keyboard \<Rightarrow> u8 \<Rightarrow> u8" where
  "translate kb sc =
    (if unat sc \<ge> length keymap then 0
     else let c = keymap ! unat sc;
              upper = (if 97 \<le> c \<and> c \<le> 122 then shift_held kb \<noteq> caps_lock kb else shift_held kb)
          in if upper then keymap_shift ! unat sc else c)"

definition keyboard_handle_interrupt :: "u8 \<Rightarrow> keyboard \<Rightarrow> keyboard" where
  "keyboard_handle_interrupt byte kb =
    (if byte = 0xE0 then kb\<lparr>extended := True\<rparr>
     else let released = (byte AND 0x80 \<noteq> 0);
              sc = byte AND 0x7F;
              key = event_key sc (extended kb);
              kb = (if key \<noteq> 0 then event_push (key OR (if released then KEY_RELEASED else 0)) kb else kb)
          in if extended kb then
               (let kb = kb\<lparr>extended := False\<rparr>
                in if sc = 0x1D then kb\<lparr>ctrl_held := \<not> released\<rparr>
                   else if released \<or> nav_key sc = 0 then kb
                   else buffer_push (nav_key sc) kb)
             else if sc = 0x2A \<or> sc = 0x36 then kb\<lparr>shift_held := \<not> released\<rparr>
             else if sc = 0x1D then kb\<lparr>ctrl_held := \<not> released\<rparr>
             else if sc = 0x3A then (if released then kb else kb\<lparr>caps_lock := \<not> caps_lock kb\<rparr>)
             else if released then kb
             else let c = translate kb sc
                  in if c = 0 then kb
                     else if ctrl_held kb \<and> (c = 99 \<or> c = 67) then buffer_push KEY_CTRL_C (kb\<lparr>ctrl_c_pressed := True\<rparr>)
                     else if ctrl_held kb \<and> (c = 100 \<or> c = 68) then buffer_push KEY_CTRL_D kb
                     else buffer_push c kb)"

section \<open>The input buffer is a queue\<close>

definition keyboard_ok :: "keyboard \<Rightarrow> bool" where
  "keyboard_ok kb \<longleftrightarrow> length (kb_buffer kb) = KEYBOARD_BUFFER_SIZE
    \<and> buffer_head kb < KEYBOARD_BUFFER_SIZE \<and> buffer_tail kb < KEYBOARD_BUFFER_SIZE
    \<and> length (kb_events kb) = KEYBOARD_EVENTS_SIZE
    \<and> events_head kb < KEYBOARD_EVENTS_SIZE \<and> events_tail kb < KEYBOARD_EVENTS_SIZE"

definition pending :: "keyboard \<Rightarrow> nat" where
  "pending kb = (buffer_head kb + KEYBOARD_BUFFER_SIZE - buffer_tail kb) mod KEYBOARD_BUFFER_SIZE"

definition typed :: "keyboard \<Rightarrow> bytes" where
  "typed kb = map (\<lambda>i. kb_buffer kb ! ((buffer_tail kb + i) mod KEYBOARD_BUFFER_SIZE)) [0..<pending kb]"

lemma keyboard_maps: "length keymap = 58" "length keymap_shift = 58"
  by (simp_all add: keymap_def keymap_shift_def str_def)

lemma pending_less: "pending kb < KEYBOARD_BUFFER_SIZE"
  by (simp add: pending_def)

lemma head_of_pending: "keyboard_ok kb \<Longrightarrow> (buffer_tail kb + pending kb) mod KEYBOARD_BUFFER_SIZE = buffer_head kb"
  by (simp add: keyboard_ok_def pending_def mod_simps)

lemma ring_next: "t < 128 \<Longrightarrow> (Suc h mod 128 + 128 - t) mod 128 = Suc ((h + 128 - t) mod 128) mod (128 :: nat)"
proof -
  assume t: "t < 128"
  have a: "Suc h mod 128 + 128 - t = (h + 1) mod 128 + (128 - t)" "h + 128 - t = h + (128 - t)" using t by simp_all
  have "((h + 1) mod 128 + (128 - t)) mod 128 = (h + 1 + (128 - t)) mod 128"
    "((h + (128 - t)) mod 128 + 1) mod 128 = (h + (128 - t) + 1) mod 128"
    by (rule mod_add_left_eq)+
  moreover have "h + 1 + (128 - t) = h + (128 - t) + 1" by simp
  ultimately have "((h + 1) mod 128 + (128 - t)) mod 128 = ((h + (128 - t)) mod 128 + 1) mod 128" by (simp only:)
  then show ?thesis unfolding a by simp
qed

lemma ring_step: "pending kb \<noteq> KEYBOARD_BUFFER_SIZE - 1 \<longleftrightarrow> (buffer_head kb + 1) mod KEYBOARD_BUFFER_SIZE \<noteq> buffer_tail kb"
  if "keyboard_ok kb"
proof -
  have l: "buffer_head kb < 128" "buffer_tail kb < 128" using that by (simp_all add: keyboard_ok_def)
  show ?thesis
  proof (cases "buffer_tail kb \<le> buffer_head kb")
    case True
    then have "pending kb = buffer_head kb - buffer_tail kb" using l by (simp add: pending_def mod_if)
    then show ?thesis using l True by (auto simp: mod_if)
  next
    case False
    then have "pending kb = buffer_head kb + 128 - buffer_tail kb" using l by (simp add: pending_def mod_if)
    then show ?thesis using l False by (auto simp: mod_if)
  qed
qed

lemma push_char:
  assumes ok: "keyboard_ok kb"
  shows "keyboard_ok (buffer_push c kb)"
    and "typed (buffer_push c kb) = (if pending kb = KEYBOARD_BUFFER_SIZE - 1 then typed kb else typed kb @ [c])"
proof -
  show "keyboard_ok (buffer_push c kb)" using ok by (simp add: buffer_push_def keyboard_ok_def Let_def)
  have l: "buffer_head kb < 128" "buffer_tail kb < 128" "length (kb_buffer kb) = 128"
    using ok by (simp_all add: keyboard_ok_def)
  show "typed (buffer_push c kb) = (if pending kb = KEYBOARD_BUFFER_SIZE - 1 then typed kb else typed kb @ [c])"
  proof (cases "pending kb = 127")
    case True
    then have "buffer_push c kb = kb" using ring_step [OF ok] by (simp add: buffer_push_def)
    then show ?thesis using True by simp
  next
    case False
    define kb' where "kb' = buffer_push c kb"
    have kb': "kb' = kb\<lparr>kb_buffer := (kb_buffer kb)[buffer_head kb := c], buffer_head := (buffer_head kb + 1) mod 128\<rparr>"
      using False ring_step [OF ok] by (simp add: kb'_def buffer_push_def)
    have "pending kb' = (pending kb + 1) mod 128"
      using l by (simp add: pending_def kb' ring_next)
    then have p: "pending kb' = Suc (pending kb)" using pending_less [of kb] False by simp
    have h: "(buffer_tail kb + pending kb) mod 128 = buffer_head kb" using head_of_pending [OF ok] by simp
    have old: "(buffer_tail kb + i) mod 128 \<noteq> buffer_head kb" if "i < pending kb" for i
    proof
      assume "(buffer_tail kb + i) mod 128 = buffer_head kb"
      then show False using that h pending_less [of kb] l by (auto simp: mod_if split: if_splits)
    qed
    have "typed kb' = map (\<lambda>i. kb_buffer kb' ! ((buffer_tail kb + i) mod 128)) [0..<pending kb] @ [c]"
      unfolding typed_def p using h l by (simp add: kb')
    also have "map (\<lambda>i. kb_buffer kb' ! ((buffer_tail kb + i) mod 128)) [0..<pending kb] = typed kb"
      unfolding typed_def using old [THEN not_sym] by (auto simp: kb')
    finally show ?thesis using False by (simp add: kb'_def)
  qed
qed

lemma take_char:
  assumes ok: "keyboard_ok kb"
  shows "keyboard_ok (snd (keyboard_getchar kb))"
    and "typed kb = [] \<Longrightarrow> keyboard_getchar kb = (None, kb)"
    and "typed kb = c # cs \<Longrightarrow> fst (keyboard_getchar kb) = Some c \<and> typed (snd (keyboard_getchar kb)) = cs"
proof -
  have l: "buffer_head kb < 128" "buffer_tail kb < 128" "length (kb_buffer kb) = 128"
    using ok by (simp_all add: keyboard_ok_def)
  show "keyboard_ok (snd (keyboard_getchar kb))" using ok by (simp add: keyboard_getchar_def keyboard_ok_def)
  have e: "pending kb = 0 \<longleftrightarrow> buffer_tail kb = buffer_head kb"
    using l by (auto simp: pending_def mod_if)
  show "keyboard_getchar kb = (None, kb)" if "typed kb = []"
    using that e by (simp add: typed_def keyboard_getchar_def)
  assume t: "typed kb = c # cs"
  then have ne: "buffer_tail kb \<noteq> buffer_head kb" using e by (auto simp: typed_def)
  define kb' where "kb' = snd (keyboard_getchar kb)"
  have kb': "kb' = kb\<lparr>buffer_tail := (buffer_tail kb + 1) mod 128\<rparr>" "fst (keyboard_getchar kb) = Some (kb_buffer kb ! buffer_tail kb)"
    using ne by (simp_all add: kb'_def keyboard_getchar_def)
  have p: "pending kb = Suc (pending kb')"
    using l ne by (auto simp: pending_def kb' mod_if)
  have "[0..<pending kb] = 0 # map Suc [0..<pending kb']"
    unfolding p by (simp add: map_Suc_upt upt_conv_Cons del: upt_Suc)
  then have "typed kb = kb_buffer kb ! ((buffer_tail kb + 0) mod 128)
      # map (\<lambda>i. kb_buffer kb ! ((buffer_tail kb + Suc i) mod 128)) [0..<pending kb']"
    by (simp add: typed_def comp_def)
  moreover have "map (\<lambda>i. kb_buffer kb ! ((buffer_tail kb + Suc i) mod 128)) [0..<pending kb'] = typed kb'"
    unfolding typed_def by (simp add: kb' mod_simps)
  ultimately have "typed kb = kb_buffer kb ! buffer_tail kb # typed kb'" using l by simp
  then show "fst (keyboard_getchar kb) = Some c \<and> typed (snd (keyboard_getchar kb)) = cs"
    using t kb' by (simp add: kb'_def [symmetric])
qed

definition push_chars :: "bytes \<Rightarrow> keyboard \<Rightarrow> keyboard" where
  "push_chars bs kb = fold buffer_push bs kb"

fun take_chars :: "nat \<Rightarrow> keyboard \<Rightarrow> bytes \<times> keyboard" where
  "take_chars 0 kb = ([], kb)"
| "take_chars (Suc n) kb =
    (case keyboard_getchar kb of
       (None, kb) \<Rightarrow> ([], kb)
     | (Some c, kb) \<Rightarrow> (let (cs, kb) = take_chars n kb in (c # cs, kb)))"

lemma length_typed [simp]: "length (typed kb) = pending kb"
  by (simp add: typed_def)

lemma push_chars_ok:
  "keyboard_ok kb \<Longrightarrow> length (typed kb) + length bs \<le> 127 \<Longrightarrow>
   keyboard_ok (push_chars bs kb) \<and> typed (push_chars bs kb) = typed kb @ bs"
proof (induction bs arbitrary: kb)
  case (Cons c bs)
  have "pending kb \<noteq> 127" using Cons.prems by simp
  then have "typed (buffer_push c kb) = typed kb @ [c]" using push_char(2) [OF Cons.prems(1)] by simp
  moreover from arg_cong [OF this, of length] have "pending (buffer_push c kb) = Suc (pending kb)" by simp
  ultimately show ?case using Cons.IH [of "buffer_push c kb"] push_char(1) [OF Cons.prems(1)] Cons.prems(2)
    by (simp add: push_chars_def)
qed (simp add: push_chars_def)

lemma take_chars_ok:
  "keyboard_ok kb \<Longrightarrow> n \<le> length (typed kb) \<Longrightarrow> keyboard_ok (snd (take_chars n kb))
    \<and> fst (take_chars n kb) = take n (typed kb) \<and> typed (snd (take_chars n kb)) = drop n (typed kb)"
proof (induction n arbitrary: kb)
  case (Suc n)
  obtain c cs where c: "typed kb = c # cs" using Suc.prems(2) by (cases "typed kb") auto
  obtain kb' where kb': "keyboard_getchar kb = (Some c, kb')" "typed kb' = cs" "keyboard_ok kb'"
    using take_char(1,3) [OF Suc.prems(1)] c by (metis prod.collapse)
  have "n \<le> length (typed kb')" using Suc.prems(2) c kb'(2) by simp
  from Suc.IH [OF kb'(3) this] show ?case using kb' c by (simp add: case_prod_beta)
qed simp

interpretation kbd: byte_queue keyboard_ok 127 typed push_chars take_chars
  by unfold_locales (simp_all add: push_chars_ok take_chars_ok)

section \<open>Interrupts\<close>

lemma push_state [simp]:
  "ctrl_c_pressed (buffer_push c kb) = ctrl_c_pressed kb" "shift_held (buffer_push c kb) = shift_held kb"
  "ctrl_held (buffer_push c kb) = ctrl_held kb" "caps_lock (buffer_push c kb) = caps_lock kb"
  "extended (buffer_push c kb) = extended kb"
  by (simp_all add: buffer_push_def Let_def)

lemma event_state [simp]:
  "kb_buffer (event_push e kb) = kb_buffer kb" "buffer_head (event_push e kb) = buffer_head kb"
  "buffer_tail (event_push e kb) = buffer_tail kb" "typed (event_push e kb) = typed kb"
  "pending (event_push e kb) = pending kb"
  by (simp_all add: event_push_def Let_def typed_def pending_def)

lemma event_push_ok: "keyboard_ok kb \<Longrightarrow> keyboard_ok (event_push e kb)"
  by (simp add: keyboard_ok_def event_push_def Let_def)

text \<open>Whatever the controller sends, the rings stay in bounds.\<close>

lemma interrupt_ok: "keyboard_ok kb \<Longrightarrow> keyboard_ok (keyboard_handle_interrupt byte kb)"
proof -
  assume ok: "keyboard_ok kb"
  have fields: "keyboard_ok k \<Longrightarrow> keyboard_ok (k\<lparr>extended := b\<rparr>)" "keyboard_ok k \<Longrightarrow> keyboard_ok (k\<lparr>ctrl_held := b\<rparr>)"
    "keyboard_ok k \<Longrightarrow> keyboard_ok (k\<lparr>shift_held := b\<rparr>)" "keyboard_ok k \<Longrightarrow> keyboard_ok (k\<lparr>caps_lock := b\<rparr>)"
    "keyboard_ok k \<Longrightarrow> keyboard_ok (k\<lparr>ctrl_c_pressed := b\<rparr>)" for k b
    by (simp_all add: keyboard_ok_def)
  have if_ok: "keyboard_ok a \<Longrightarrow> keyboard_ok b \<Longrightarrow> keyboard_ok (if c then a else b)" for a b c by simp
  show ?thesis
    unfolding keyboard_handle_interrupt_def Let_def
    by (intro if_ok fields push_char(1) event_push_ok ok)
qed

lemma flush_ok: "keyboard_ok kb \<Longrightarrow> keyboard_ok (keyboard_flush kb) \<and> typed (keyboard_flush kb) = []"
  by (simp add: keyboard_ok_def keyboard_flush_def typed_def pending_def)

end
