(* ===== verification/Terminal.thy ===== *)
theory Terminal
  imports CString
begin

text \<open>
  The text screen, \<^verbatim>\<open>src/drivers/screen/terminal.c\<close>, and the kernel's \<^verbatim>\<open>printf\<close> of
  \<^verbatim>\<open>src/libc/stdio/stdio.c\<close>.

  \<open>vga\<close> is the text memory at \<^verbatim>\<open>VGA_MEMORY\<close>, 80 by 25 cells of a char and a colour. While a
  program has the screen in a graphics mode the text goes to \<^verbatim>\<open>hidden_buffer\<close>. The ports of the
  hardware cursor and the serial and debug consoles are not part of the model.
\<close>

abbreviation (input) VGA_WIDTH :: nat where "VGA_WIDTH \<equiv> 80"
abbreviation (input) VGA_HEIGHT :: nat where "VGA_HEIGHT \<equiv> 25"

record terminal =
  t_row :: nat
  t_column :: nat
  t_colour :: u8
  vga :: "u16 list"
  hidden_buffer :: "u16 list"
  hidden :: bool
  t_scrolls :: u32

section \<open>Cells\<close>

definition vga_entry_colour :: "u8 \<Rightarrow> u8 \<Rightarrow> u8" where
  "vga_entry_colour fg bg = fg OR push_bit 4 bg"

definition vga_entry :: "u8 \<Rightarrow> u8 \<Rightarrow> u16" where
  "vga_entry uc colour = push_bit 8 (ucast colour) OR ucast uc"

text \<open>What \<^verbatim>\<open>terminal_buffer\<close> points to.\<close>

definition terminal_buffer :: "terminal \<Rightarrow> u16 list" where
  "terminal_buffer t = (if hidden t then hidden_buffer t else vga t)"

definition set_buffer :: "u16 list \<Rightarrow> terminal \<Rightarrow> terminal" where
  "set_buffer cells t = (if hidden t then t\<lparr>hidden_buffer := cells\<rparr> else t\<lparr>vga := cells\<rparr>)"

definition terminal_putentryat :: "u8 \<Rightarrow> u8 \<Rightarrow> nat \<Rightarrow> nat \<Rightarrow> terminal \<Rightarrow> terminal" where
  "terminal_putentryat c colour x y t =
    set_buffer ((terminal_buffer t)[y * VGA_WIDTH + x := vga_entry c colour]) t"

definition terminal_clean :: "terminal \<Rightarrow> terminal" where
  "terminal_clean t =
    (let t = t\<lparr>t_row := 0, t_column := 0\<rparr>
     in fold (\<lambda>y t. fold (\<lambda>x t. terminal_putentryat 32 (t_colour t) x y t) [0..<VGA_WIDTH] t) [0..<VGA_HEIGHT] t)"

definition terminal_init :: "terminal \<Rightarrow> terminal" where
  "terminal_init t = terminal_clean (t\<lparr>t_colour := vga_entry_colour 15 0, hidden := False\<rparr>)"

definition terminal_setcolour :: "u8 \<Rightarrow> terminal \<Rightarrow> terminal" where
  "terminal_setcolour colour t = t\<lparr>t_colour := colour\<rparr>"

section \<open>Printing chars\<close>

definition terminal_scroll :: "terminal \<Rightarrow> terminal" where
  "terminal_scroll t =
    (let cells = terminal_buffer t;
         t = set_buffer (drop VGA_WIDTH cells @ drop ((VGA_HEIGHT - 1) * VGA_WIDTH) cells) t;
         t = fold (\<lambda>x t. terminal_putentryat 32 (t_colour t) x (VGA_HEIGHT - 1) t) [0..<VGA_WIDTH] t
     in t\<lparr>t_row := VGA_HEIGHT - 1, t_scrolls := t_scrolls t + 1\<rparr>)"

definition terminal_newline :: "terminal \<Rightarrow> terminal" where
  "terminal_newline t =
    (let t = t\<lparr>t_column := 0, t_row := t_row t + 1\<rparr>
     in if t_row t = VGA_HEIGHT then terminal_scroll t else t)"

definition terminal_putchar :: "u8 \<Rightarrow> terminal \<Rightarrow> terminal" where
  "terminal_putchar c t =
    (if c = 10 then terminal_newline t
     else if c = 8 then
       (let t = (if t_column t > 0 then t\<lparr>t_column := t_column t - 1\<rparr>
                 else if t_row t > 0 then t\<lparr>t_row := t_row t - 1, t_column := VGA_WIDTH - 1\<rparr> else t)
        in terminal_putentryat 32 (t_colour t) (t_column t) (t_row t) t)
     else if c = 9 then
       (let t = t\<lparr>t_column := t_column t + 4\<rparr>
        in if t_column t \<ge> VGA_WIDTH then terminal_newline t else t)
     else let t = terminal_putentryat c (t_colour t) (t_column t) (t_row t) t;
              t = t\<lparr>t_column := t_column t + 1\<rparr>
          in if t_column t = VGA_WIDTH then terminal_newline t else t)"

definition terminal_write :: "bytes \<Rightarrow> terminal \<Rightarrow> terminal" where
  "terminal_write data t = fold terminal_putchar data t"

definition terminal_writestring :: "bytes \<Rightarrow> terminal \<Rightarrow> terminal" where
  "terminal_writestring data t = terminal_write data t"

section \<open>Printing numbers\<close>

text \<open>The digits of a number, the lowest first.\<close>

function number_digits :: "u32 \<Rightarrow> u8 list" where
  "number_digits n = (if n = 0 then [] else (48 + ucast (n mod 10)) # number_digits (n div 10))"
  by pat_completeness auto
termination
proof (relation "measure unat")
  fix n :: u32
  assume "n \<noteq> 0"
  then show "(n div 10, n) \<in> measure unat" by (simp add: unat_div unat_gt_0)
qed simp

declare number_digits.simps [simp del]

text \<open>\<^verbatim>\<open>terminal_writeint\<close> puts an underscore in front of every group of three digits.\<close>

fun group_digits :: "u8 list \<Rightarrow> nat \<Rightarrow> bytes" where
  "group_digits ds 0 = []"
| "group_digits ds (Suc i) =
    (if (int i - 2) mod 3 = 0 \<and> i \<noteq> length ds - 1 then [95] else []) @ [ds ! i] @ group_digits ds i"

definition terminal_writeint :: "u32 \<Rightarrow> terminal \<Rightarrow> terminal" where
  "terminal_writeint num t =
    (let t = (if sint num < 0 then terminal_putchar 45 t else t);
         mag = (if sint num < 0 then - num else num)
     in if mag = 0 then terminal_putchar 48 t
        else terminal_write (group_digits (number_digits mag) (length (number_digits mag))) t)"

definition terminal_writeuint :: "u32 \<Rightarrow> terminal \<Rightarrow> terminal" where
  "terminal_writeuint num t = terminal_write (if num = 0 then [48] else rev (number_digits num)) t"

definition hex_digit :: "u32 \<Rightarrow> u8" where
  "hex_digit d = (if d < 10 then 48 + ucast d else 87 + ucast d)"

definition terminal_writehex :: "u32 \<Rightarrow> terminal \<Rightarrow> terminal" where
  "terminal_writehex num t =
    terminal_write (map (\<lambda>i. hex_digit (drop_bit (28 - 4 * i) num AND 0xF)) [0..<8])
      (terminal_writestring (str ''0x'') t)"

section \<open>The cursor and the hidden screen\<close>

definition terminal_get_cursor :: "terminal \<Rightarrow> nat \<times> nat" where
  "terminal_get_cursor t = (t_row t, t_column t)"

definition terminal_set_cursor :: "nat \<Rightarrow> nat \<Rightarrow> terminal \<Rightarrow> terminal" where
  "terminal_set_cursor row column t =
    t\<lparr>t_row := (if row < VGA_HEIGHT then row else VGA_HEIGHT - 1),
      t_column := (if column < VGA_WIDTH then column else VGA_WIDTH - 1)\<rparr>"

definition terminal_hide :: "terminal \<Rightarrow> terminal" where
  "terminal_hide t = t\<lparr>hidden_buffer := vga t, hidden := True\<rparr>"

definition terminal_show :: "terminal \<Rightarrow> terminal" where
  "terminal_show t = t\<lparr>vga := hidden_buffer t, hidden := False\<rparr>"

definition init_OK :: "terminal \<Rightarrow> terminal" where
  "init_OK t = terminal_setcolour 15 (terminal_writestring (str '' [OK]'' @ [10]) (terminal_setcolour 2 t))"

definition init_ER :: "terminal \<Rightarrow> terminal" where
  "init_ER t = terminal_setcolour 15 (terminal_writestring (str '' [ER]'' @ [10]) (terminal_setcolour 4 t))"

section \<open>The kernel's printf\<close>

text \<open>An argument is a 32 bit word or the string a pointer points to. \<open>None\<close>: the format asks for
  an argument that is not there, or for a string where a number was passed.\<close>

datatype printf_arg = Arg_word u32 | Arg_string bytes

definition word_conversion :: "u8 \<Rightarrow> bool" where
  "word_conversion f \<longleftrightarrow> f = 100 \<or> f = 117 \<or> f = 99 \<or> f = 120 \<or> f = 67"

definition print_word :: "u8 \<Rightarrow> u32 \<Rightarrow> terminal \<Rightarrow> terminal" where
  "print_word f w t =
    (if f = 100 then terminal_writeint w t
     else if f = 117 then terminal_writeuint w t
     else if f = 99 then terminal_putchar (ucast w) t
     else if f = 120 then terminal_writehex w t
     else terminal_setcolour (ucast w) t)"

fun printf :: "bytes \<Rightarrow> printf_arg list \<Rightarrow> terminal \<Rightarrow> terminal option" where
  "printf [] args t = Some t"
| "printf (c # cs) args t =
    (if c \<noteq> 37 then printf cs args (terminal_putchar c t)
     else case cs of
            [] \<Rightarrow> Some t
          | f # fs \<Rightarrow>
              (if word_conversion f then
                 (case args of
                    Arg_word w # args \<Rightarrow> printf fs args (print_word f w t)
                  | _ \<Rightarrow> None)
               else if f = 115 then
                 (case args of Arg_string s # args \<Rightarrow> printf fs args (terminal_writestring s t) | _ \<Rightarrow> None)
               else if f = 37 then printf fs args (terminal_putchar 37 t)
               else printf fs args t))"

section \<open>The screen stays in bounds\<close>

text \<open>The cursor is always on the screen, so every cell that is written exists.\<close>

definition terminal_ok :: "terminal \<Rightarrow> bool" where
  "terminal_ok t \<longleftrightarrow> t_row t < VGA_HEIGHT \<and> t_column t < VGA_WIDTH
    \<and> length (vga t) = VGA_HEIGHT * VGA_WIDTH \<and> length (hidden_buffer t) = VGA_HEIGHT * VGA_WIDTH"

lemma put_ok [simp]: "terminal_ok (terminal_putentryat c col x y t) = terminal_ok t"
  "t_row (terminal_putentryat c col x y t) = t_row t" "t_column (terminal_putentryat c col x y t) = t_column t"
  "length (vga (terminal_putentryat c col x y t)) = length (vga t)"
  "length (hidden_buffer (terminal_putentryat c col x y t)) = length (hidden_buffer t)"
  by (simp_all add: terminal_putentryat_def set_buffer_def terminal_buffer_def terminal_ok_def)

lemma put_row_ok:
  "t_row (fold (\<lambda>x t. terminal_putentryat c (t_colour t) x y t) xs t) = t_row t
   \<and> t_column (fold (\<lambda>x t. terminal_putentryat c (t_colour t) x y t) xs t) = t_column t
   \<and> length (vga (fold (\<lambda>x t. terminal_putentryat c (t_colour t) x y t) xs t)) = length (vga t)
   \<and> length (hidden_buffer (fold (\<lambda>x t. terminal_putentryat c (t_colour t) x y t) xs t)) = length (hidden_buffer t)"
  by (induction xs arbitrary: t) simp_all

lemma scroll_ok:
  "t_column t < VGA_WIDTH \<Longrightarrow> length (vga t) = VGA_HEIGHT * VGA_WIDTH \<Longrightarrow>
   length (hidden_buffer t) = VGA_HEIGHT * VGA_WIDTH \<Longrightarrow> terminal_ok (terminal_scroll t)"
  by (simp add: terminal_scroll_def Let_def terminal_ok_def put_row_ok)
    (simp add: set_buffer_def terminal_buffer_def)

lemma newline_ok:
  "t_row t < VGA_HEIGHT \<Longrightarrow> length (vga t) = VGA_HEIGHT * VGA_WIDTH \<Longrightarrow>
   length (hidden_buffer t) = VGA_HEIGHT * VGA_WIDTH \<Longrightarrow> terminal_ok (terminal_newline t)"
  using scroll_ok [of "t\<lparr>t_column := 0, t_row := t_row t + 1\<rparr>"]
  by (auto simp: terminal_newline_def Let_def terminal_ok_def)

lemma putchar_ok:
  assumes "terminal_ok t"
  shows "terminal_ok (terminal_putchar c t)"
proof -
  note T = assms [unfolded terminal_ok_def]
  consider "c = 10" | "c = 8" | "c = 9" | "c \<noteq> 10" "c \<noteq> 8" "c \<noteq> 9" by blast
  then show ?thesis
  proof cases
    case 1
    then show ?thesis using T newline_ok [of t] by (simp add: terminal_putchar_def)
  next
    case 2
    then show ?thesis using T by (simp add: terminal_putchar_def Let_def) (auto simp: terminal_ok_def)
  next
    case 3
    then show ?thesis using T newline_ok [of "t\<lparr>t_column := t_column t + 4\<rparr>"]
      by (simp add: terminal_putchar_def Let_def) (simp add: terminal_ok_def)
  next
    case 4
    let ?t = "terminal_putentryat c (t_colour t) (t_column t) (t_row t) t"
    have n: "terminal_ok (terminal_newline (?t\<lparr>t_column := t_column t + 1\<rparr>))" using T by (intro newline_ok) simp_all
    have p: "terminal_putchar c t = (if t_column t + 1 = VGA_WIDTH then terminal_newline (?t\<lparr>t_column := t_column t + 1\<rparr>)
        else ?t\<lparr>t_column := t_column t + 1\<rparr>)"
      using 4 by (simp add: terminal_putchar_def Let_def)
    show ?thesis
    proof (cases "t_column t + 1 = VGA_WIDTH")
      case True
      then show ?thesis using n unfolding p by simp
    next
      case False
      then show ?thesis using T unfolding p by (simp add: terminal_ok_def)
    qed
  qed
qed

lemma write_ok: "terminal_ok t \<Longrightarrow> terminal_ok (terminal_write data t)"
  unfolding terminal_write_def by (induction data arbitrary: t) (simp_all add: putchar_ok)

lemma clean_ok:
  "length (vga t) = VGA_HEIGHT * VGA_WIDTH \<Longrightarrow> length (hidden_buffer t) = VGA_HEIGHT * VGA_WIDTH \<Longrightarrow>
   terminal_ok (terminal_clean t)"
proof -
  have "t_row s = 0 \<Longrightarrow> t_column s = 0 \<Longrightarrow> length (vga s) = VGA_HEIGHT * VGA_WIDTH \<Longrightarrow>
      length (hidden_buffer s) = VGA_HEIGHT * VGA_WIDTH \<Longrightarrow>
      terminal_ok (fold (\<lambda>y t. fold (\<lambda>x t. terminal_putentryat 32 (t_colour t) x y t) [0..<VGA_WIDTH] t) ys s)" for ys s
    by (induction ys arbitrary: s) (simp_all add: put_row_ok, simp add: terminal_ok_def)
  then show "length (vga t) = VGA_HEIGHT * VGA_WIDTH \<Longrightarrow> length (hidden_buffer t) = VGA_HEIGHT * VGA_WIDTH \<Longrightarrow>
   ?thesis" by (simp add: terminal_clean_def Let_def)
qed

lemma numbers_ok:
  "terminal_ok t \<Longrightarrow> terminal_ok (terminal_writeint n t)" "terminal_ok t \<Longrightarrow> terminal_ok (terminal_writeuint n t)"
  "terminal_ok t \<Longrightarrow> terminal_ok (terminal_writehex n t)" "terminal_ok t \<Longrightarrow> terminal_ok (terminal_writestring s t)"
  by (simp_all add: terminal_writeint_def terminal_writeuint_def terminal_writehex_def terminal_writestring_def
      Let_def write_ok putchar_ok)

lemma colour_ok [simp]: "terminal_ok (terminal_setcolour c t) = terminal_ok t"
  by (simp add: terminal_ok_def terminal_setcolour_def)

lemma screen_ok:
  "terminal_ok t \<Longrightarrow> terminal_ok (terminal_hide t)" "terminal_ok t \<Longrightarrow> terminal_ok (terminal_show t)"
  "terminal_ok t \<Longrightarrow> terminal_ok (terminal_set_cursor r c t)"
  by (simp_all add: terminal_ok_def terminal_hide_def terminal_show_def terminal_set_cursor_def)

lemma print_word_ok: "terminal_ok t \<Longrightarrow> terminal_ok (print_word f w t)"
  by (simp add: print_word_def putchar_ok numbers_ok)

lemma printf_ok: "terminal_ok t \<Longrightarrow> printf fmt args t = Some t' \<Longrightarrow> terminal_ok t'"
proof (induction fmt args t rule: printf.induct)
  case (2 c cs args t)
  show ?case
  proof (cases "c = 37")
    case False
    then show ?thesis using "2.IH"(1) "2.prems" by (simp add: putchar_ok)
  next
    case True
    show ?thesis
    proof (cases cs)
      case Nil
      then show ?thesis using 2 True by simp
    next
      case (Cons f fs)
      note IH = "2.IH"(2-) [of f fs]
      consider "word_conversion f" | "\<not> word_conversion f" "f = 115" | "\<not> word_conversion f" "f = 37"
        | "\<not> word_conversion f" "f \<noteq> 115" "f \<noteq> 37" by blast
      then show ?thesis
      proof cases
        case 1
        then obtain w as where "args = Arg_word w # as" "printf fs as (print_word f w t) = Some t'"
          using "2.prems"(2) True Cons by (auto split: list.splits printf_arg.splits)
        then show ?thesis using IH(1) True Cons 1 print_word_ok [OF "2.prems"(1)] by simp
      next
        case 2
        then obtain s as where "args = Arg_string s # as" "printf fs as (terminal_writestring s t) = Some t'"
          using "2.prems"(2) True Cons by (auto split: list.splits printf_arg.splits)
        then show ?thesis using IH(2) True Cons 2 numbers_ok(4) [OF "2.prems"(1)] by simp
      next
        case 3
        then show ?thesis using IH(3) True Cons "2.prems" by (simp add: putchar_ok)
      next
        case 4
        then show ?thesis using IH(4) True Cons "2.prems" by simp
      qed
    qed
  qed
qed simp

end
