(* ===== verification/Devices.thy ===== *)
theory Devices
  imports CString
begin

text \<open>
  The smaller devices: the mouse (\<^verbatim>\<open>src/drivers/mouse/mouse.c\<close>), the clock
  (\<^verbatim>\<open>src/drivers/rtc/rtc.c\<close>) and the graphics modes of the screen
  (\<^verbatim>\<open>src/drivers/screen/vga_gfx.c\<close>).

  What a port gives is an argument of the function that reads it. The registers of the vga card
  are not part of the model, only what they are set up for: the colours in the dac, the pixels
  and the mode.
\<close>

section \<open>The mouse\<close>

abbreviation (input) MOUSE_EVENTS_SIZE :: nat where "MOUSE_EVENTS_SIZE \<equiv> 64"

record mouse_event =
  me_dx :: u16
  me_dy :: u16
  me_buttons :: u8
  me_absolute :: u8

record mouse =
  vmmouse :: bool
  m_events :: "mouse_event list"
  m_head :: nat
  m_tail :: nat
  packet :: bytes    \<comment> \<open>the \<^verbatim>\<open>packet_len\<close> bytes received so far\<close>

definition mouse_reset :: mouse where
  "mouse_reset = \<lparr>vmmouse = False,
     m_events = replicate MOUSE_EVENTS_SIZE \<lparr>me_dx = 0, me_dy = 0, me_buttons = 0, me_absolute = 0\<rparr>,
     m_head = 0, m_tail = 0, packet = []\<rparr>"

definition mouse_event_push :: "mouse_event \<Rightarrow> mouse \<Rightarrow> mouse" where
  "mouse_event_push e m =
    (let nxt = (m_head m + 1) mod MOUSE_EVENTS_SIZE;
         m = (if nxt = m_tail m then m\<lparr>m_tail := (m_tail m + 1) mod MOUSE_EVENTS_SIZE\<rparr> else m)
     in m\<lparr>m_events := (m_events m)[m_head m := e], m_head := nxt\<rparr>)"

text \<open>The answers of the vmmouse: its status, and the packet it gives where the status says there
  is one. The list ends where the driver stops asking.\<close>

record backdoor =
  b_eax :: u32
  b_ebx :: u32
  b_ecx :: u32

definition vmmouse_event :: "backdoor \<Rightarrow> mouse_event" where
  "vmmouse_event p =
    \<lparr>me_dx = ucast (drop_bit 1 (b_ebx p AND 0xFFFF)), me_dy = ucast (drop_bit 1 (b_ecx p AND 0xFFFF)),
     me_buttons = (if b_eax p AND 0x20 \<noteq> 0 then 1 else 0) OR (if b_eax p AND 0x10 \<noteq> 0 then 2 else 0)
                  OR (if b_eax p AND 0x08 \<noteq> 0 then 4 else 0),
     me_absolute = 1\<rparr>"

fun vmmouse_read :: "(u32 \<times> backdoor) list \<Rightarrow> mouse \<Rightarrow> mouse" where
  "vmmouse_read [] m = m"
| "vmmouse_read ((status, p) # rest) m =
    (if status AND 0xFFFF0000 = 0xFFFF0000 \<or> status AND 0xFFFF < 4 then m
     else vmmouse_read rest (mouse_event_push (vmmouse_event p) m))"

definition ps2_event :: "bytes \<Rightarrow> mouse_event" where
  "ps2_event pk =
    \<lparr>me_dx = ucast (pk ! 1) - (if pk ! 0 AND 0x10 \<noteq> 0 then 256 else 0),
     me_dy = - (ucast (pk ! 2) - (if pk ! 0 AND 0x20 \<noteq> 0 then 256 else 0)),
     me_buttons = pk ! 0 AND 7, me_absolute = 0\<rparr>"

definition mouse_handle_interrupt :: "u8 \<Rightarrow> (u32 \<times> backdoor) list \<Rightarrow> mouse \<Rightarrow> mouse" where
  "mouse_handle_interrupt data answers m =
    (if packet m = [] \<and> (data AND 0x08 = 0 \<or> data = 0xFA) then m
     else let pk = packet m @ [data]
          in if length pk < 3 then m\<lparr>packet := pk\<rparr>
             else let m = m\<lparr>packet := []\<rparr>
                  in if vmmouse m then vmmouse_read answers m
                     else if pk ! 0 AND 0xC0 \<noteq> 0 then m
                     else mouse_event_push (ps2_event pk) m)"

definition mouse_get_event :: "mouse \<Rightarrow> mouse_event option \<times> mouse" where
  "mouse_get_event m =
    (if m_tail m = m_head m then (None, m)
     else (Some (m_events m ! m_tail m), m\<lparr>m_tail := (m_tail m + 1) mod MOUSE_EVENTS_SIZE\<rparr>))"

definition mouse_flush_events :: "mouse \<Rightarrow> mouse" where
  "mouse_flush_events m = m\<lparr>m_tail := m_head m\<rparr>"

section \<open>The clock\<close>

record rtc_time =
  rt_year :: u16
  rt_month :: u8
  rt_day :: u8
  rt_hour :: u8
  rt_minute :: u8
  rt_second :: u8

definition bcd_to_binary :: "u8 \<Rightarrow> u8" where
  "bcd_to_binary bcd = (bcd AND 0x0F) + drop_bit 4 bcd * 10"

text \<open>\<open>reads\<close> is what \<^verbatim>\<open>rtc_read_raw\<close> gives from call to call; \<open>None\<close>: none of them agreed with
  the one before, the code still reads.\<close>

fun rtc_agree :: "rtc_time \<Rightarrow> rtc_time list \<Rightarrow> rtc_time option" where
  "rtc_agree prev [] = None"
| "rtc_agree prev (t # ts) = (if prev = t then Some t else rtc_agree t ts)"

definition rtc_convert :: "u8 \<Rightarrow> rtc_time \<Rightarrow> rtc_time" where
  "rtc_convert status t =
    (let pm = rt_hour t AND 0x80;
         t = t\<lparr>rt_hour := rt_hour t AND NOT 0x80\<rparr>;
         t = (if status AND 0x04 = 0
              then \<lparr>rt_year = ucast (bcd_to_binary (ucast (rt_year t))), rt_month = bcd_to_binary (rt_month t),
                    rt_day = bcd_to_binary (rt_day t), rt_hour = bcd_to_binary (rt_hour t),
                    rt_minute = bcd_to_binary (rt_minute t), rt_second = bcd_to_binary (rt_second t)\<rparr>
              else t);
         t = (if status AND 0x02 = 0
              then t\<lparr>rt_hour := rt_hour t mod 12 + (if pm \<noteq> 0 then 12 else 0)\<rparr> else t)
     in t\<lparr>rt_year := rt_year t + 2000\<rparr>)"

definition rtc_now :: "u8 \<Rightarrow> rtc_time list \<Rightarrow> rtc_time option" where
  "rtc_now status reads =
    (case reads of [] \<Rightarrow> None | t # ts \<Rightarrow> map_option (rtc_convert status) (rtc_agree t ts))"

definition rtc_fat_date :: "rtc_time \<Rightarrow> u16" where
  "rtc_fat_date now = push_bit 9 (rt_year now - 1980) OR push_bit 5 (ucast (rt_month now)) OR ucast (rt_day now)"

definition rtc_fat_time :: "rtc_time \<Rightarrow> u16" where
  "rtc_fat_time now = push_bit 11 (ucast (rt_hour now)) OR push_bit 5 (ucast (rt_minute now)) OR ucast (rt_second now div 2)"

section \<open>Graphics modes\<close>

abbreviation (input) VGA_MODE_TEXT :: u8 where "VGA_MODE_TEXT \<equiv> 0"
abbreviation (input) VGA_MODE_256 :: u8 where "VGA_MODE_256 \<equiv> 1"
abbreviation (input) VGA_MODE_MONO :: u8 where "VGA_MODE_MONO \<equiv> 2"

record gfx =
  active :: u8
  dac :: bytes             \<comment> \<open>three bytes for each of 256 colours\<close>
  saved_palette :: bytes
  frame_buffer :: bytes

definition vga_gfx_frame_size :: "gfx \<Rightarrow> u32" where
  "vga_gfx_frame_size g =
    (if active g = VGA_MODE_256 then 320 * 200 else if active g = VGA_MODE_MONO then 640 div 8 * 480 else 0)"

definition vga_gfx_set_palette :: "bytes \<Rightarrow> nat \<Rightarrow> nat \<Rightarrow> gfx \<Rightarrow> gfx" where
  "vga_gfx_set_palette rgb first n g =
    g\<lparr>dac := fold (\<lambda>i d. d[3 * first + i := drop_bit 2 (rgb ! i)]) [0..<3 * n] (dac g)\<rparr>"

definition put_frame :: "bytes \<Rightarrow> gfx \<Rightarrow> gfx" where
  "put_frame bs g = g\<lparr>frame_buffer := bs @ drop (length bs) (frame_buffer g)\<rparr>"

text \<open>Both modes set up the card, what it shows before the first frame is black.\<close>

definition gfx_enter :: "u8 \<Rightarrow> gfx \<Rightarrow> gfx" where
  "gfx_enter mode g =
    (let g = (if active g = VGA_MODE_TEXT then g\<lparr>saved_palette := dac g\<rparr> else g);
         g = g\<lparr>active := mode\<rparr>;
         g = (if mode = VGA_MODE_MONO
              then vga_gfx_set_palette [0, 0, 0] 63 1 (vga_gfx_set_palette [255, 255, 255] 0 1 g) else g)
     in put_frame (replicate (unat (vga_gfx_frame_size g)) 0) g)"

definition gfx_leave :: "gfx \<Rightarrow> gfx" where
  "gfx_leave g = g\<lparr>dac := saved_palette g, active := VGA_MODE_TEXT\<rparr>"

definition vga_gfx_blit :: "bytes \<Rightarrow> gfx \<Rightarrow> gfx" where
  "vga_gfx_blit pixels g = put_frame (take (unat (vga_gfx_frame_size g)) pixels) g"

end
