(* ===== verification/Handle.thy ===== *)
theory Handle
  imports Pipe FileApi Keyboard Terminal Devices
begin

text \<open>
  Handles, \<^verbatim>\<open>src/kernel/task/handle.c\<close>: what a file descriptor of a task refers to. A handle is
  shared by the descriptors that refer to it and counts them; the last close releases the open
  file or the pipe end.

  \<open>system\<close> extends the kernel with the devices and the files the handles use. The pointer to a
  handle is its address in the kernel heap; the terminal handle is a static object of the
  kernel, for which the model takes the odd address 1, which the heap never returns.
\<close>

section \<open>State\<close>

record system = kernel +
  files :: vfs
  kbd :: keyboard
  screen :: terminal
  gfx_card :: gfx
  mouse_dev :: mouse
  line_buf :: bytes          \<comment> \<open>\<^verbatim>\<open>terminal_line\<close>, the \<^verbatim>\<open>terminal_line_len\<close> chars in it\<close>
  line_pos :: nat
  clock :: fat_clock         \<comment> \<open>what the clock shows now, changes on its own\<close>
  fpu_reset_state :: bytes   \<comment> \<open>\<^verbatim>\<open>reset_state\<close> of \<^verbatim>\<open>fpu.c\<close>\<close>

abbreviation (input) TERMINAL_LINE_MAX :: nat where "TERMINAL_LINE_MAX \<equiv> 256"

definition handle_terminal :: u32 where
  "handle_terminal = 1"

definition handle_at :: "'a kernel_scheme \<Rightarrow> u32 \<Rightarrow> handle" where
  "handle_at k h =
    (if h = handle_terminal then \<lparr>h_type = HANDLE_TERMINAL, h_refs = 1, file_fd = 0, h_pipe = 0\<rparr>
     else the (handles k h))"

definition set_handle :: "u32 \<Rightarrow> handle \<Rightarrow> 'a kernel_scheme \<Rightarrow> 'a kernel_scheme" where
  "set_handle h x k = k\<lparr>handles := (handles k)(h \<mapsto> x)\<rparr>"

definition free_handle :: "u32 \<Rightarrow> 'a kernel_scheme \<Rightarrow> 'a kernel_scheme" where
  "free_handle h k = k\<lparr>heap := kfree (heap k) h, handles := (handles k)(h := None)\<rparr>"

section \<open>Making handles\<close>

definition handle_new :: "handle_type \<Rightarrow> 'a kernel_scheme \<Rightarrow> 'a kernel_scheme \<times> u32" where
  "handle_new ty k =
    (let (h, p) = heap_malloc (heap k) 16
     in if p = 0 then (k\<lparr>heap := h\<rparr>, 0)
        else (set_handle p \<lparr>h_type = ty, h_refs = 1, file_fd = 0, h_pipe = 0\<rparr> (k\<lparr>heap := h\<rparr>), p))"

definition handle_new_file :: "int \<Rightarrow> 'a kernel_scheme \<Rightarrow> 'a kernel_scheme \<times> u32" where
  "handle_new_file fd k =
    (let (k, h) = handle_new HANDLE_FILE k
     in if h = 0 then (k, 0) else (set_handle h ((handle_at k h)\<lparr>file_fd := fd\<rparr>) k, h))"

definition free_pipe :: "u32 \<Rightarrow> 'a kernel_scheme \<Rightarrow> 'a kernel_scheme" where
  "free_pipe p k = k\<lparr>heap := kfree (heap k) p, pipes := (pipes k)(p := None)\<rparr>"

definition handle_new_pipe :: "'a kernel_scheme \<Rightarrow> 'a kernel_scheme \<times> (error + u32 \<times> u32)" where
  "handle_new_pipe k =
    (let (k, p) = pipe_new k;
         (k, r) = handle_new HANDLE_PIPE_READ k;
         (k, w) = handle_new HANDLE_PIPE_WRITE k
     in if p = 0 \<or> r = 0 \<or> w = 0
        then (free_handle w (free_handle r (free_pipe p k)), Inl NO_MEMORY_ERROR)
        else let k = set_handle r ((handle_at k r)\<lparr>h_pipe := p\<rparr>) k;
                 k = set_handle w ((handle_at k w)\<lparr>h_pipe := p\<rparr>) k
             in (k, Inr (r, w)))"

text \<open>\<^verbatim>\<open>handle_ref\<close> counts the terminal handle too, which no close ever counts down.\<close>

definition handle_ref :: "u32 \<Rightarrow> 'a kernel_scheme \<Rightarrow> 'a kernel_scheme" where
  "handle_ref h k =
    (if h = handle_terminal then k else set_handle h ((handle_at k h)\<lparr>h_refs := h_refs (handle_at k h) + 1\<rparr>) k)"

definition handle_close :: "u32 \<Rightarrow> 'a system_scheme \<Rightarrow> 'a system_scheme" where
  "handle_close h k =
    (if h = handle_terminal then k
     else let x = (handle_at k h)\<lparr>h_refs := h_refs (handle_at k h) - 1\<rparr>;
              k = set_handle h x k
          in if h_refs x > 0 then k
             else let k = (case h_type x of
                             HANDLE_FILE \<Rightarrow> k\<lparr>files := snd (fclose (file_fd x) (files k))\<rparr>
                           | HANDLE_PIPE_READ \<Rightarrow> pipe_close_reader (h_pipe x) k
                           | HANDLE_PIPE_WRITE \<Rightarrow> pipe_close_writer (h_pipe x) k
                           | HANDLE_TERMINAL \<Rightarrow> k)
                  in free_handle h k)"

section \<open>Waiting for a key\<close>

text \<open>\<^verbatim>\<open>task_wait_key\<close> of \<^verbatim>\<open>task.c\<close>: \<open>None\<close> where the code returns -1 to a killed task. \<open>use\<close> is
  what the caller does with the key.\<close>

definition task_wait_key :: "key_use \<Rightarrow> 'a system_scheme \<Rightarrow> ('a system_scheme, u8 option) outcome" where
  "task_wait_key use k =
    (if killed (running_task k) then Done k None
     else case (if foreground (running_task k) then keyboard_getchar (kbd k) else (None, kbd k)) of
            (Some c, kb) \<Rightarrow> Done (k\<lparr>kbd := kb\<rparr>) (Some c)
          | (None, kb) \<Rightarrow>
              Switched (schedule (upd_running (\<lambda>t. t\<lparr>t_state := TASK_WAITING_KEY, saved_ctx := Ctx_key use\<rparr>) k)))"

section \<open>Lines typed on the terminal\<close>

definition putchar :: "u8 \<Rightarrow> 'a system_scheme \<Rightarrow> 'a system_scheme" where
  "putchar c k = k\<lparr>screen := terminal_putchar c (screen k)\<rparr>"

text \<open>The loop of \<^verbatim>\<open>terminal_read_line\<close>. Every round takes a key out of the keyboard buffer or
  waits, so with the buffer's 127 chars it ends within \<open>KEYBOARD_BUFFER_SIZE\<close> rounds; the first
  argument counts them. The result is the length of the line, -1 for a killed task.\<close>

fun read_line_loop :: "nat \<Rightarrow> nat \<Rightarrow> 'a system_scheme \<Rightarrow> ('a system_scheme, int) outcome option" where
  "read_line_loop 0 len k = None"
| "read_line_loop (Suc fuel) len k =
    (case task_wait_key (Key_line len) k of
       Switched k \<Rightarrow> Some (Switched k)
     | Done k None \<Rightarrow> Some (Done k (- 1))
     | Done k (Some key) \<Rightarrow>
         (if key = KEY_CTRL_D then Some (Done k (int (length (line_buf k))))
          else if key = 8 then
            read_line_loop fuel len
              (if line_buf k \<noteq> [] then putchar 8 (k\<lparr>line_buf := butlast (line_buf k)\<rparr>) else k)
          else if key = 10 \<or> (32 \<le> key \<and> key < 127) then
            (let k = (if length (line_buf k) < TERMINAL_LINE_MAX
                      then putchar key (k\<lparr>line_buf := line_buf k @ [key]\<rparr>) else k)
             in if key = 10 then Some (Done k (int (length (line_buf k)))) else read_line_loop fuel len k)
          else read_line_loop fuel len k))"

definition line_ready :: "nat \<Rightarrow> 'a system_scheme \<Rightarrow> ('a system_scheme, int \<times> bytes) outcome" where
  "line_ready len k =
    (let total = min len (length (line_buf k) - line_pos k)
     in Done (k\<lparr>line_pos := line_pos k + total\<rparr>) (int total, take total (drop (line_pos k) (line_buf k))))"

text \<open>\<^verbatim>\<open>terminal_read\<close> from the call of \<^verbatim>\<open>terminal_read_line\<close> on, and the whole of it.\<close>

definition terminal_read_rest :: "nat \<Rightarrow> 'a system_scheme \<Rightarrow> ('a system_scheme, int \<times> bytes) outcome option" where
  "terminal_read_rest len k =
    (case read_line_loop KEYBOARD_BUFFER_SIZE len k of
       None \<Rightarrow> None
     | Some (Switched k) \<Rightarrow> Some (Switched k)
     | Some (Done k res) \<Rightarrow> Some (if res \<le> 0 then Done k (res, []) else line_ready len k))"

definition terminal_read :: "nat \<Rightarrow> 'a system_scheme \<Rightarrow> ('a system_scheme, int \<times> bytes) outcome option" where
  "terminal_read len k =
    (if line_pos k = length (line_buf k) then terminal_read_rest len (k\<lparr>line_pos := 0, line_buf := []\<rparr>)
     else Some (line_ready len k))"

section \<open>Reading and writing\<close>

definition pipe_outcome :: "('k, bytes option) outcome \<Rightarrow> ('k, int \<times> bytes) outcome" where
  "pipe_outcome r =
    (case r of Done k None \<Rightarrow> Done k (- 1, []) | Done k (Some bs) \<Rightarrow> Done k (int (length bs), bs) | Switched k \<Rightarrow> Switched k)"

definition handle_read :: "u32 \<Rightarrow> nat \<Rightarrow> 'a system_scheme \<Rightarrow> ('a system_scheme, int \<times> bytes) outcome option" where
  "handle_read h len k =
    (case h_type (handle_at k h) of
       HANDLE_TERMINAL \<Rightarrow> terminal_read len k
     | HANDLE_FILE \<Rightarrow>
         Some (if len = 0 then Done k (0, [])
          else case fread 1 (of_nat len) (file_fd (handle_at k h)) (files k) of
                 (Inl e, v) \<Rightarrow> Done (k\<lparr>files := v\<rparr>) (err_code e, [])
               | (Inr (n, bs), v) \<Rightarrow> Done (k\<lparr>files := v\<rparr>) (sint n, bs))
     | HANDLE_PIPE_READ \<Rightarrow> Some (pipe_outcome (pipe_read (h_pipe (handle_at k h)) len k))
     | HANDLE_PIPE_WRITE \<Rightarrow> Some (Done k (err_code INVALID_ARG_ERROR, [])))"

definition handle_write :: "u32 \<Rightarrow> bytes \<Rightarrow> 'a system_scheme \<Rightarrow> ('a system_scheme, int) outcome" where
  "handle_write h data k =
    (case h_type (handle_at k h) of
       HANDLE_TERMINAL \<Rightarrow> Done (k\<lparr>screen := terminal_write data (screen k)\<rparr>) (int (length data))
     | HANDLE_FILE \<Rightarrow>
         (if data = [] then Done k 0
          else case fwrite (clock k) data 1 (of_nat (length data)) (file_fd (handle_at k h)) (files k) of
                 (Inl e, v) \<Rightarrow> Done (k\<lparr>files := v\<rparr>) (err_code e)
               | (Inr n, v) \<Rightarrow> Done (k\<lparr>files := v\<rparr>) (sint n))
     | HANDLE_PIPE_WRITE \<Rightarrow> pipe_write (h_pipe (handle_at k h)) data k
     | HANDLE_PIPE_READ \<Rightarrow> Done k (err_code INVALID_ARG_ERROR))"

definition handle_pending :: "u32 \<Rightarrow> 'a kernel_scheme \<Rightarrow> int" where
  "handle_pending h k =
    (if h_type (handle_at k h) \<noteq> HANDLE_PIPE_READ then err_code INVALID_ARG_ERROR
     else let x = pipe_at k (h_pipe (handle_at k h))
          in if count x = 0 \<and> writers x = 0 then - 1 else sint (count x))"

text \<open>The conversions of \<^verbatim>\<open>handle_getchar\<close>: a key, or the byte of a one byte read.\<close>

definition key_result :: "u8 option \<Rightarrow> int" where
  "key_result c = (case c of None \<Rightarrow> - 1 | Some c \<Rightarrow> uint c)"

definition byte_result :: "int \<times> bytes \<Rightarrow> int" where
  "byte_result r = (if fst r = 1 then uint (hd (snd r)) else - 1)"

fun map_outcome :: "('r \<Rightarrow> 's) \<Rightarrow> ('k, 'r) outcome \<Rightarrow> ('k, 's) outcome" where
  "map_outcome f (Done k r) = Done k (f r)"
| "map_outcome f (Switched k) = Switched k"

definition handle_getchar :: "u32 \<Rightarrow> 'a system_scheme \<Rightarrow> ('a system_scheme, int) outcome option" where
  "handle_getchar h k =
    (if h_type (handle_at k h) = HANDLE_TERMINAL then Some (map_outcome key_result (task_wait_key Key_getchar k))
     else map_option (map_outcome byte_result) (handle_read h 1 k))"

section \<open>The line editor ends\<close>

text \<open>The rounds are enough: reading a line always gives a result or waits.\<close>

lemma wait_key_takes:
  assumes "keyboard_ok (kbd k)" "task_wait_key u k = Done k' (Some c)"
  shows "keyboard_ok (kbd k') \<and> pending (kbd k) = Suc (pending (kbd k'))"
proof -
  obtain kb where g: "keyboard_getchar (kbd k) = (Some c, kb)" and k': "k' = k\<lparr>kbd := kb\<rparr>"
    using assms(2) by (auto simp: task_wait_key_def split: if_splits prod.splits option.splits)
  have "typed (kbd k) \<noteq> []" using take_char(2) [OF assms(1)] g by auto
  then obtain d ds where t: "typed (kbd k) = d # ds" by (cases "typed (kbd k)") auto
  then have "typed kb = ds" using take_char(3) [OF assms(1) t] g by simp
  then have "length (typed (kbd k)) = Suc (length (typed kb))" using t by simp
  then show ?thesis using take_char(1) [OF assms(1)] g by (simp add: k')
qed

lemma putchar_kbd [simp]: "kbd (putchar c k) = kbd k"
  by (simp add: putchar_def)

lemma read_line_ends:
  "keyboard_ok (kbd k) \<Longrightarrow> pending (kbd k) < fuel \<Longrightarrow> read_line_loop fuel len k \<noteq> None"
proof (induction fuel len k rule: read_line_loop.induct)
  case (2 fuel len k)
  show ?case
  proof (cases "task_wait_key (Key_line len) k")
    case (Done k1 r)
    show ?thesis
    proof (cases r)
      case (Some key)
      note W = wait_key_takes [OF "2.prems"(1) Done [unfolded Some]]
      then show ?thesis using "2.IH" [OF Done Some] "2.prems"(2) Done Some by (simp add: Let_def)
    qed (use Done in simp)
  qed simp
qed simp

lemma terminal_read_ends: "keyboard_ok (kbd k) \<Longrightarrow> terminal_read len k \<noteq> None"
  using read_line_ends [of "k\<lparr>line_pos := 0, line_buf := []\<rparr>" KEYBOARD_BUFFER_SIZE len] pending_less [of "kbd k"]
  by (auto simp: terminal_read_def terminal_read_rest_def split: option.splits outcome.splits)

end
