(* ===== verification/Elf.thy ===== *)
theory Elf
  imports AddressSpace
begin

text \<open>
  The loader of ELF executables, \<^verbatim>\<open>src/kernel/task/elf.c\<close>: validation of the header and of every
  segment, and the copies into the address space.

  \<^verbatim>\<open>elf_load\<close> gets the function that copies to the address space as an argument. The locale
  \<open>elf_copier\<close> is the contract of that function; it is interpreted on \<open>task_copy_to_user\<close>,
  which \<^verbatim>\<open>task_load\<close> passes.
\<close>

section \<open>Headers\<close>

record elf32_header =
  ident :: bytes
  e_type :: u16
  machine :: u16
  e_entry :: u32
  phoff :: u32
  phentsize :: u16
  phnum :: u16

definition elf_header :: "bytes \<Rightarrow> elf32_header" where
  "elf_header buf = \<lparr>ident = take 16 buf, e_type = get16 buf 16, machine = get16 buf 18,
     e_entry = get32 buf 24, phoff = get32 buf 28, phentsize = get16 buf 42, phnum = get16 buf 44\<rparr>"

record elf32_program_header =
  p_type :: u32
  p_offset :: u32
  vaddr :: u32
  filesz :: u32
  memsz :: u32
  p_flags :: u32

text \<open>The program header at \<^verbatim>\<open>ph\<close>, \<open>i\<close> headers behind \<^verbatim>\<open>buf + phoff\<close>.\<close>

definition program_header :: "bytes \<Rightarrow> nat \<Rightarrow> elf32_program_header" where
  "program_header buf i =
    (let at = unat (phoff (elf_header buf)) + 32 * i
     in \<lparr>p_type = get32 buf at, p_offset = get32 buf (at + 4), vaddr = get32 buf (at + 8),
         filesz = get32 buf (at + 16), memsz = get32 buf (at + 20), p_flags = get32 buf (at + 24)\<rparr>)"

abbreviation (input) ELF_PT_LOAD :: u32 where "ELF_PT_LOAD \<equiv> 1"
abbreviation (input) ELF_PF_W :: u32 where "ELF_PF_W \<equiv> 2"

definition elf_validate_header :: "bytes \<Rightarrow> u32 \<Rightarrow> error option" where
  "elf_validate_header buf size' =
    (if size' < 52 \<or> take 4 (ident (elf_header buf)) \<noteq> [0x7F, 0x45, 0x4C, 0x46]
        \<or> ident (elf_header buf) ! 4 \<noteq> 1 \<or> ident (elf_header buf) ! 5 \<noteq> 1
        \<or> e_type (elf_header buf) \<noteq> 2 \<or> machine (elf_header buf) \<noteq> 3 \<or> phentsize (elf_header buf) \<noteq> 32
     then Some INVALID_ARG_ERROR
     else let table_end = phoff (elf_header buf) + ucast (phnum (elf_header buf)) * 32
          in if table_end < phoff (elf_header buf) \<or> table_end > size' then Some INVALID_ARG_ERROR else None)"

section \<open>Loading\<close>

type_synonym 'c elf_copy_function = "'c \<Rightarrow> u32 \<Rightarrow> bytes option \<Rightarrow> nat \<Rightarrow> bool \<Rightarrow> 'c \<times> error option"

definition elf_segment_bad :: "elf32_program_header \<Rightarrow> u32 \<Rightarrow> u32 \<Rightarrow> u32 \<Rightarrow> bool" where
  "elf_segment_bad ph size' min_addr max_addr \<longleftrightarrow>
    vaddr ph < min_addr \<or> vaddr ph + memsz ph > max_addr \<or> vaddr ph + memsz ph < vaddr ph
    \<or> filesz ph > memsz ph \<or> p_offset ph + filesz ph > size' \<or> p_offset ph + filesz ph < p_offset ph"

text \<open>The file contents, then the zero filled rest of the segment.\<close>

definition elf_load_segment ::
  "'c elf_copy_function \<Rightarrow> bytes \<Rightarrow> elf32_program_header \<Rightarrow> 'c \<Rightarrow> 'c \<times> error option" where
  "elf_load_segment copy buf ph c =
    (let writable = (p_flags ph AND ELF_PF_W \<noteq> 0)
     in case copy c (vaddr ph) (Some (take (unat (filesz ph)) (drop (unat (p_offset ph)) buf)))
               (unat (filesz ph)) writable of
          (c, Some e) \<Rightarrow> (c, Some e)
        | (c, None) \<Rightarrow>
            if memsz ph > filesz ph
            then copy c (vaddr ph + filesz ph) None (unat (memsz ph - filesz ph)) writable
            else (c, None))"

text \<open>The loop over the program headers; \<open>end'\<close> and \<open>loaded\<close> are the locals \<^verbatim>\<open>end\<close> and \<^verbatim>\<open>entry_loaded\<close>.\<close>

fun elf_load_loop ::
  "'c elf_copy_function \<Rightarrow> bytes \<Rightarrow> u32 \<Rightarrow> u32 \<Rightarrow> u32 \<Rightarrow> nat list \<Rightarrow> u32 \<Rightarrow> bool \<Rightarrow> 'c
    \<Rightarrow> 'c \<times> (error + (u32 \<times> bool))" where
  "elf_load_loop copy buf size' min_addr max_addr [] end' loaded c = (c, Inr (end', loaded))"
| "elf_load_loop copy buf size' min_addr max_addr (i # is) end' loaded c =
    (let ph = program_header buf i;
         seg_end = vaddr ph + memsz ph;
         entry = e_entry (elf_header buf)
     in if p_type ph \<noteq> ELF_PT_LOAD \<or> memsz ph = 0
        then elf_load_loop copy buf size' min_addr max_addr is end' loaded c
        else if elf_segment_bad ph size' min_addr max_addr then (c, Inl INVALID_ARG_ERROR)
        else case elf_load_segment copy buf ph c of
               (c, Some e) \<Rightarrow> (c, Inl e)
             | (c, None) \<Rightarrow>
                 elf_load_loop copy buf size' min_addr max_addr is
                   (if seg_end > end' then seg_end else end')
                   (loaded \<or> (entry \<ge> vaddr ph \<and> entry < seg_end)) c)"

text \<open>The result is the entry point and the end of the image.\<close>

definition elf_load ::
  "bytes \<Rightarrow> u32 \<Rightarrow> u32 \<Rightarrow> u32 \<Rightarrow> 'c elf_copy_function \<Rightarrow> 'c \<Rightarrow> 'c \<times> (error + (u32 \<times> u32))" where
  "elf_load buf size' min_addr max_addr copy c =
    (case elf_validate_header buf size' of
       Some e \<Rightarrow> (c, Inl e)
     | None \<Rightarrow>
         (case elf_load_loop copy buf size' min_addr max_addr [0..<unat (phnum (elf_header buf))] min_addr False c of
            (c, Inl e) \<Rightarrow> (c, Inl e)
          | (c, Inr (end', loaded)) \<Rightarrow>
              if \<not> loaded then (c, Inl INVALID_ARG_ERROR) else (c, Inr (e_entry (elf_header buf), end'))))"

section \<open>What is loaded\<close>

definition load_segment :: "bytes \<Rightarrow> nat \<Rightarrow> bool" where
  "load_segment buf i \<longleftrightarrow> p_type (program_header buf i) = ELF_PT_LOAD \<and> memsz (program_header buf i) \<noteq> 0"

definition in_segment :: "bytes \<Rightarrow> nat \<Rightarrow> u32 \<Rightarrow> bool" where
  "in_segment buf i x \<longleftrightarrow> load_segment buf i \<and> in_range (vaddr (program_header buf i)) (unat (memsz (program_header buf i))) x"

text \<open>The byte the segment \<open>i\<close> has at address \<open>x\<close>.\<close>

definition image_byte :: "bytes \<Rightarrow> nat \<Rightarrow> u32 \<Rightarrow> u8" where
  "image_byte buf i x =
    (let ph = program_header buf i; j = unat x - unat (vaddr ph)
     in if j < unat (filesz ph) then buf ! (unat (p_offset ph) + j) else 0)"

lemma unat_no_wrap: "\<not> a + b < (a :: u32) \<Longrightarrow> unat (a + b) = unat a + unat b"
  by (metis linorder_not_less no_olen_add_nat unat_add_lem)

lemma good_segment:
  assumes "\<not> elf_segment_bad ph size' mn mx"
  shows "unat mn \<le> unat (vaddr ph)" "unat (vaddr ph) + unat (memsz ph) \<le> unat mx"
    "unat (vaddr ph + memsz ph) = unat (vaddr ph) + unat (memsz ph)"
    "unat (vaddr ph + filesz ph) = unat (vaddr ph) + unat (filesz ph)"
    "unat (memsz ph - filesz ph) = unat (memsz ph) - unat (filesz ph)"
    "unat (filesz ph) \<le> unat (memsz ph)" "unat (p_offset ph) + unat (filesz ph) \<le> unat size'"
proof -
  have F: "filesz ph \<le> memsz ph" using assms by (simp add: elf_segment_bad_def not_less)
  show m: "unat (filesz ph) \<le> unat (memsz ph)" using F by (simp add: word_le_nat_alt)
  show v: "unat (vaddr ph + memsz ph) = unat (vaddr ph) + unat (memsz ph)"
    using assms by (intro unat_no_wrap) (simp add: elf_segment_bad_def)
  then have "unat (vaddr ph) + unat (memsz ph) < 2 ^ 32" using unat_u32_less [of "vaddr ph + memsz ph"] by simp
  then show "unat (vaddr ph + filesz ph) = unat (vaddr ph) + unat (filesz ph)"
    using m by (simp add: unat_word_ariths)
  show "unat (memsz ph - filesz ph) = unat (memsz ph) - unat (filesz ph)" using F by (rule unat_sub)
  show "unat mn \<le> unat (vaddr ph)" using assms by (simp add: elf_segment_bad_def word_le_nat_alt not_less)
  show "unat (vaddr ph) + unat (memsz ph) \<le> unat mx"
    using assms v by (simp add: elf_segment_bad_def word_le_nat_alt not_less)
  have "unat (p_offset ph + filesz ph) = unat (p_offset ph) + unat (filesz ph)"
    using assms by (intro unat_no_wrap) (simp add: elf_segment_bad_def)
  then show "unat (p_offset ph) + unat (filesz ph) \<le> unat size'"
    using assms by (simp add: elf_segment_bad_def word_le_nat_alt not_less)
qed

section \<open>The contract of the copy function\<close>

locale elf_copier =
  fixes copy :: "'c elf_copy_function"
    and ok :: "'c \<Rightarrow> bool"
    and look :: "'c \<Rightarrow> u32 \<Rightarrow> u8 option"
    and rest :: "'c \<Rightarrow> 'c \<Rightarrow> bool"
  assumes rest_refl: "rest c c"
    and rest_trans: "rest c c' \<Longrightarrow> rest c' c'' \<Longrightarrow> rest c c''"
    and copy_ok: "ok c \<Longrightarrow> src_fits src len \<Longrightarrow> copy c va src len w = (c', r) \<Longrightarrow> ok c' \<and> rest c c'"
    and copy_outside: "ok c \<Longrightarrow> src_fits src len \<Longrightarrow> copy c va src len w = (c', r) \<Longrightarrow> \<not> in_range va len x
      \<Longrightarrow> keeps (look c x) (look c' x)"
    and copy_inside: "ok c \<Longrightarrow> src_fits src len \<Longrightarrow> copy c va src len w = (c', None) \<Longrightarrow> in_range va len x
      \<Longrightarrow> copied src (unat x - unat va) (look c x) (look c' x)"
begin

lemma segment_ok:
  assumes ok: "ok c" and e: "elf_load_segment copy buf ph c = (c', r)"
    and good: "\<not> elf_segment_bad ph size' mn mx" and buf: "length buf = unat size'"
  shows "ok c' \<and> rest c c' \<and> (\<forall>x. \<not> in_range (vaddr ph) (unat (memsz ph)) x \<longrightarrow> keeps (look c x) (look c' x))"
    and "r = None \<Longrightarrow> in_range (vaddr ph) (unat (memsz ph)) x \<Longrightarrow> keeps None (look c x) \<Longrightarrow>
      look c' x = Some (if unat x - unat (vaddr ph) < unat (filesz ph)
        then buf ! (unat (p_offset ph) + (unat x - unat (vaddr ph))) else 0)"
proof -
  note B = good_segment [OF good]
  define bs where "bs = take (unat (filesz ph)) (drop (unat (p_offset ph)) buf)"
  have fit: "src_fits (Some bs) (unat (filesz ph))" using B buf by (simp add: src_fits_def bs_def)
  have bs: "bs ! k = buf ! (unat (p_offset ph) + k)" if "k < unat (filesz ph)" for k
    using that B buf by (simp add: bs_def)
  obtain c1 r1 where c1: "copy c (vaddr ph) (Some bs) (unat (filesz ph)) (p_flags ph AND ELF_PF_W \<noteq> 0) = (c1, r1)"
    by fastforce
  have k1: "ok c1" "rest c c1" using copy_ok [OF ok fit c1] by auto
  note o1 = copy_outside [OF ok fit c1]
  have r2: "in_range (vaddr ph + filesz ph) (unat (memsz ph - filesz ph)) x
      \<longleftrightarrow> unat (vaddr ph) + unat (filesz ph) \<le> unat x \<and> unat x < unat (vaddr ph) + unat (memsz ph)" for x
    using B by (auto simp: in_range_def)
  consider (err) e where "r1 = Some e" "c' = c1" "r = r1"
    | (short) "r1 = None" "\<not> filesz ph < memsz ph" "c' = c1" "r = None"
    | (long) "r1 = None" "filesz ph < memsz ph"
        "copy c1 (vaddr ph + filesz ph) None (unat (memsz ph - filesz ph)) (p_flags ph AND ELF_PF_W \<noteq> 0) = (c', r)"
    using e c1 by (auto simp: elf_load_segment_def Let_def bs_def [symmetric] split: option.splits if_splits)
  note cases = this
  have in1: "in_range (vaddr ph) (unat (filesz ph)) x \<Longrightarrow> in_range (vaddr ph) (unat (memsz ph)) x" for x
    using B by (auto simp: in_range_def)
  show "ok c' \<and> rest c c' \<and> (\<forall>x. \<not> in_range (vaddr ph) (unat (memsz ph)) x \<longrightarrow> keeps (look c x) (look c' x))"
  proof (cases rule: cases)
    case long
    have f2: "src_fits None (unat (memsz ph - filesz ph))" by (simp add: src_fits_def)
    have "keeps (look c1 x) (look c' x)" if "\<not> in_range (vaddr ph) (unat (memsz ph)) x" for x
      using copy_outside [OF k1(1) f2 long(3), of x] that r2 [of x] by (auto simp: in_range_def)
    then show ?thesis using copy_ok [OF k1(1) f2 long(3)] k1 o1 in1 rest_trans keeps_trans by meson
  qed (use k1 o1 in1 in auto)
  assume r: "r = None" and x: "in_range (vaddr ph) (unat (memsz ph)) x" and n: "keeps None (look c x)"
  have inside: "look c1 x = Some (bs ! (unat x - unat (vaddr ph)))" if "r1 = None" "in_range (vaddr ph) (unat (filesz ph)) x"
    using copy_inside [OF ok fit c1 [unfolded that(1)] that(2)] by (simp add: copied_def)
  have blank: "look c1 x = None \<or> look c1 x = Some 0" if "\<not> in_range (vaddr ph) (unat (filesz ph)) x"
    using o1 [OF that] n by (auto simp: keeps_def)
  show "look c' x = Some (if unat x - unat (vaddr ph) < unat (filesz ph)
        then buf ! (unat (p_offset ph) + (unat x - unat (vaddr ph))) else 0)"
  proof (cases rule: cases)
    case err
    then show ?thesis using r by simp
  next
    case short
    then have "unat (memsz ph) = unat (filesz ph)" using B by (simp add: word_less_nat_alt)
    then show ?thesis using short inside x bs by (auto simp: in_range_def)
  next
    case long
    have f2: "src_fits None (unat (memsz ph - filesz ph))" by (simp add: src_fits_def)
    show ?thesis
    proof (cases "in_range (vaddr ph) (unat (filesz ph)) x")
      case True
      have "\<not> in_range (vaddr ph + filesz ph) (unat (memsz ph - filesz ph)) x"
        using True r2 [of x] by (auto simp: in_range_def)
      then have "keeps (look c1 x) (look c' x)" by (rule copy_outside [OF k1(1) f2 long(3)])
      then show ?thesis using inside [OF long(1) True] True bs by (auto simp: keeps_def in_range_def)
    next
      case False
      then have "in_range (vaddr ph + filesz ph) (unat (memsz ph - filesz ph)) x"
        using x r2 [of x] by (auto simp: in_range_def)
      then have "look c' x = Some 0"
        using copy_inside [OF k1(1) f2 long(3) [unfolded r]] blank [OF False] by (auto simp: copied_def)
      then show ?thesis using False x by (auto simp: in_range_def)
    qed
  qed
qed

lemma loop_ok:
  assumes "ok c" "elf_load_loop copy buf size' mn mx is end' loaded c = (c', r)" "length buf = unat size'"
  shows "ok c' \<and> rest c c' \<and> (\<forall>x. (\<forall>i\<in>set is. \<not> elf_segment_bad (program_header buf i) size' mn mx \<longrightarrow> \<not> in_segment buf i x)
      \<longrightarrow> keeps (look c x) (look c' x))"
  using assms
proof (induction "is" arbitrary: end' loaded c)
  case Nil
  then show ?case by (simp add: rest_refl)
next
  case (Cons i "is")
  let ?ph = "program_header buf i"
  show ?case
  proof (cases "load_segment buf i")
    case False
    then have "elf_load_loop copy buf size' mn mx is end' loaded c = (c', r)"
      using Cons.prems by (auto simp: load_segment_def Let_def)
    from Cons.IH [OF Cons.prems(1) this Cons.prems(3)] show ?thesis by simp
  next
    case True
    show ?thesis
    proof (cases "elf_segment_bad ?ph size' mn mx")
      case True
      then show ?thesis using Cons.prems \<open>load_segment buf i\<close>
        by (simp add: load_segment_def Let_def rest_refl)
    next
      case good: False
      obtain c1 r1 where c1: "elf_load_segment copy buf ?ph c = (c1, r1)" by fastforce
      note S = segment_ok(1) [OF Cons.prems(1) c1 good Cons.prems(3)]
      have seg: "in_segment buf i x \<longleftrightarrow> in_range (vaddr ?ph) (unat (memsz ?ph)) x" for x
        using True by (simp add: in_segment_def)
      show ?thesis
      proof (cases r1)
        case None
        then obtain end1 loaded1 where "elf_load_loop copy buf size' mn mx is end1 loaded1 c1 = (c', r)"
          using Cons.prems True good c1 by (auto simp: load_segment_def Let_def)
        from Cons.IH [OF _ this Cons.prems(3)] S
        have k: "ok c'" "rest c1 c'" "\<And>x. (\<forall>i\<in>set is. \<not> elf_segment_bad (program_header buf i) size' mn mx
            \<longrightarrow> \<not> in_segment buf i x) \<Longrightarrow> keeps (look c1 x) (look c' x)"
          by auto
        have "keeps (look c x) (look c' x)" if a: "\<forall>i\<in>set (i # is). \<not> elf_segment_bad (program_header buf i) size' mn mx
            \<longrightarrow> \<not> in_segment buf i x" for x
        proof (rule keeps_trans)
          show "keeps (look c x) (look c1 x)" using S seg a good by simp
          show "keeps (look c1 x) (look c' x)" by (rule k(3)) (use a in simp)
        qed
        then show ?thesis using k(1,2) S rest_trans by blast
      next
        case (Some e)
        then have "c' = c1" using Cons.prems True good c1 by (auto simp: load_segment_def Let_def)
        then show ?thesis using S seg good by simp
      qed
    qed
  qed
qed

lemma loop_image:
  assumes "ok c" "elf_load_loop copy buf size' mn mx is end' loaded c = (c', Inr (end2, loaded2))" "length buf = unat size'"
  shows "unat end' \<le> unat end2 \<and> unat end2 \<le> max (unat end') (unat mx)
    \<and> (\<forall>i\<in>set is. load_segment buf i \<longrightarrow> \<not> elf_segment_bad (program_header buf i) size' mn mx
        \<and> unat (vaddr (program_header buf i)) + unat (memsz (program_header buf i)) \<le> unat end2)
    \<and> (loaded2 \<longrightarrow> loaded \<or> (\<exists>i\<in>set is. in_segment buf i (e_entry (elf_header buf))))
    \<and> (distinct is \<and> (\<forall>i\<in>set is. \<forall>j\<in>set is. \<forall>x. in_segment buf i x \<and> in_segment buf j x \<longrightarrow> i = j) \<longrightarrow>
        (\<forall>i\<in>set is. \<forall>x. in_segment buf i x \<and> keeps None (look c x) \<longrightarrow> look c' x = Some (image_byte buf i x)))"
  using assms
proof (induction "is" arbitrary: end' loaded c)
  case Nil
  then show ?case by simp
next
  case (Cons i "is")
  let ?ph = "program_header buf i"
  show ?case
  proof (cases "load_segment buf i")
    case False
    then have e: "elf_load_loop copy buf size' mn mx is end' loaded c = (c', Inr (end2, loaded2))"
      using Cons.prems by (auto simp: load_segment_def Let_def)
    have "\<not> in_segment buf i x" for x using False by (simp add: in_segment_def)
    then show ?thesis using Cons.IH [OF Cons.prems(1) e Cons.prems(3)] False by simp
  next
    case True
    obtain c1 r1 where c1: "elf_load_segment copy buf ?ph c = (c1, r1)" by fastforce
    define end1 where "end1 = (if vaddr ?ph + memsz ?ph > end' then vaddr ?ph + memsz ?ph else end')"
    define loaded1 where "loaded1 \<longleftrightarrow> loaded
      \<or> (e_entry (elf_header buf) \<ge> vaddr ?ph \<and> e_entry (elf_header buf) < vaddr ?ph + memsz ?ph)"
    have good: "\<not> elf_segment_bad ?ph size' mn mx" and r1: "r1 = None"
      and e: "elf_load_loop copy buf size' mn mx is end1 loaded1 c1 = (c', Inr (end2, loaded2))"
      using Cons.prems True c1
      by (auto simp: load_segment_def Let_def end1_def loaded1_def split: option.splits if_splits)
    note B = good_segment [OF good]
    note S = segment_ok [OF Cons.prems(1) c1 good Cons.prems(3)]
    have seg: "in_segment buf i x \<longleftrightarrow> in_range (vaddr ?ph) (unat (memsz ?ph)) x" for x
      using True by (simp add: in_segment_def)
    have ok1: "ok c1" using S(1) by simp
    have k1: "\<not> in_segment buf i x \<Longrightarrow> keeps (look c x) (look c1 x)" for x using S(1) seg by simp
    note IH = Cons.IH [OF ok1 e Cons.prems(3)]
    have frame: "(\<forall>k\<in>set is. \<not> in_segment buf k x) \<Longrightarrow> keeps (look c1 x) (look c' x)" for x
      using loop_ok [OF ok1 e Cons.prems(3)] by blast
    have e1: "unat end' \<le> unat end1" "unat (vaddr ?ph) + unat (memsz ?ph) \<le> unat end1"
      "unat end1 \<le> max (unat end') (unat mx)"
      using B(2,3) by (auto simp: end1_def word_less_nat_alt)
    have l1: "loaded1 \<longrightarrow> loaded \<or> in_segment buf i (e_entry (elf_header buf))"
      using B(3) by (auto simp: loaded1_def seg in_range_def word_le_nat_alt word_less_nat_alt)
    have "look c' x = Some (image_byte buf k x)"
      if d: "distinct (i # is)" "\<forall>a\<in>set (i # is). \<forall>b\<in>set (i # is). \<forall>x. in_segment buf a x \<and> in_segment buf b x \<longrightarrow> a = b"
        and k: "k \<in> set (i # is)" and x: "in_segment buf k x" "keeps None (look c x)" for k x
    proof (cases "k = i")
      case True
      have "look c1 x = Some (image_byte buf i x)"
        using S(2) [OF r1, of x] x True seg by (simp add: image_byte_def Let_def)
      moreover have "keeps (look c1 x) (look c' x)"
        using d k x True by (intro frame) auto
      ultimately show ?thesis using True by (simp add: keeps_def)
    next
      case False
      then have "\<not> in_segment buf i x" using d k x by (metis list.set_intros(1))
      then have "keeps None (look c1 x)" using k1 x(2) keeps_trans by blast
      then show ?thesis using IH d k x False by simp
    qed
    moreover have "\<forall>k\<in>set (i # is). load_segment buf k \<longrightarrow> \<not> elf_segment_bad (program_header buf k) size' mn mx
        \<and> unat (vaddr (program_header buf k)) + unat (memsz (program_header buf k)) \<le> unat end2"
      using IH good e1 by auto
    moreover have "loaded2 \<longrightarrow> loaded \<or> (\<exists>k\<in>set (i # is). in_segment buf k (e_entry (elf_header buf)))"
      using IH l1 by auto
    moreover have "unat end' \<le> unat end2 \<and> unat end2 \<le> max (unat end') (unat mx)"
      using IH e1 by auto
    ultimately show ?thesis by blast
  qed
qed

lemma load_ok:
  assumes ok: "ok c" and e: "elf_load buf size' mn mx copy c = (c', r)" and buf: "length buf = unat size'" and m: "mn \<le> mx"
  shows "ok c' \<and> rest c c' \<and> (\<forall>x. \<not> (mn \<le> x \<and> x < mx) \<longrightarrow> keeps (look c x) (look c' x))"
    and "r = Inr (entry, end') \<Longrightarrow> entry = e_entry (elf_header buf)
      \<and> (\<exists>i < unat (phnum (elf_header buf)). in_segment buf i entry) \<and> mn \<le> end' \<and> end' \<le> mx
      \<and> (\<forall>i x. i < unat (phnum (elf_header buf)) \<and> in_segment buf i x \<longrightarrow> mn \<le> x \<and> x < end')"
    and "r = Inr (entry, end') \<Longrightarrow>
      \<forall>i j x. i < unat (phnum (elf_header buf)) \<and> j < unat (phnum (elf_header buf)) \<and> in_segment buf i x \<and> in_segment buf j x \<longrightarrow> i = j \<Longrightarrow>
      i < unat (phnum (elf_header buf)) \<Longrightarrow> in_segment buf i x \<Longrightarrow> keeps None (look c x) \<Longrightarrow> look c' x = Some (image_byte buf i x)"
proof -
  let ?n = "unat (phnum (elf_header buf))"
  have refused: "ok c \<and> rest c c \<and> (\<forall>x. \<not> (mn \<le> x \<and> x < mx) \<longrightarrow> keeps (look c x) (look c x))"
    using ok by (simp add: rest_refl)
  show "ok c' \<and> rest c c' \<and> (\<forall>x. \<not> (mn \<le> x \<and> x < mx) \<longrightarrow> keeps (look c x) (look c' x))"
  proof (cases "elf_validate_header buf size'")
    case None
    obtain r1 where l: "elf_load_loop copy buf size' mn mx [0..<?n] mn False c = (c', r1)"
      using e None by (auto simp: elf_load_def split: prod.splits sum.splits if_splits)
    have "\<not> in_segment buf i x" if "\<not> elf_segment_bad (program_header buf i) size' mn mx" "\<not> (mn \<le> x \<and> x < mx)" for i x
      using good_segment(1,2) [OF that(1)] that(2)
      by (auto simp: in_segment_def in_range_def word_le_nat_alt word_less_nat_alt)
    then show ?thesis using loop_ok [OF ok l buf] by blast
  next
    case (Some err)
    then show ?thesis using e refused by (simp add: elf_load_def)
  qed
  assume "r = Inr (entry, end')"
  then obtain loaded where l: "elf_load_loop copy buf size' mn mx [0..<?n] mn False c = (c', Inr (end', loaded))"
    and loaded: "loaded" and entry: "entry = e_entry (elf_header buf)"
    using e by (auto simp: elf_load_def split: option.splits prod.splits sum.splits if_splits)
  note I = loop_image [OF ok l buf]
  have seg: "mn \<le> x \<and> x < end'" if i: "i < ?n" and x: "in_segment buf i x" for i x
  proof -
    have "\<not> elf_segment_bad (program_header buf i) size' mn mx"
      "unat (vaddr (program_header buf i)) + unat (memsz (program_header buf i)) \<le> unat end'"
      using I i x by (auto simp: in_segment_def)
    then show ?thesis using good_segment(1) x
      by (fastforce simp: in_segment_def in_range_def word_le_nat_alt word_less_nat_alt)
  qed
  show "entry = e_entry (elf_header buf) \<and> (\<exists>i < ?n. in_segment buf i entry) \<and> mn \<le> end' \<and> end' \<le> mx
      \<and> (\<forall>i x. i < ?n \<and> in_segment buf i x \<longrightarrow> mn \<le> x \<and> x < end')"
    using I loaded entry seg m by (auto simp: word_le_nat_alt)
  assume d: "\<forall>i j x. i < ?n \<and> j < ?n \<and> in_segment buf i x \<and> in_segment buf j x \<longrightarrow> i = j"
    and i: "i < ?n" and x: "in_segment buf i x" "keeps None (look c x)"
  have "distinct [0..<?n]" "\<forall>i\<in>set [0..<?n]. \<forall>j\<in>set [0..<?n]. \<forall>x. in_segment buf i x \<and> in_segment buf j x \<longrightarrow> i = j"
    using d by auto
  then have "\<forall>i\<in>set [0..<?n]. \<forall>x. in_segment buf i x \<and> keeps None (look c x) \<longrightarrow> look c' x = Some (image_byte buf i x)"
    using I [THEN conjunct2, THEN conjunct2, THEN conjunct2, THEN conjunct2] by blast
  moreover have "i \<in> set [0..<?n]" using i by simp
  ultimately show "look c' x = Some (image_byte buf i x)" using x by blast
qed

end

section \<open>Loading a program into an address space\<close>

definition other_spaces :: "u32 set \<Rightarrow> u32 \<Rightarrow> 'a mm_state_scheme \<Rightarrow> 'a mm_state_scheme \<Rightarrow> bool" where
  "other_spaces U d m m' \<longleftrightarrow> (\<forall>d' \<in> U. d' \<noteq> d \<longrightarrow> uload m' d' = uload m d')"

lemma other_spaces_refl: "other_spaces U d m m"
  by (simp add: other_spaces_def)

lemma other_spaces_trans: "other_spaces U d m m' \<Longrightarrow> other_spaces U d m' m'' \<Longrightarrow> other_spaces U d m m''"
  by (simp add: other_spaces_def)

lemma user_copy:
  assumes "mm_ok m U \<and> d \<in> U" "src_fits src len" "task_copy_to_user m d va src len w = (m', r)"
  shows "(mm_ok m' U \<and> d \<in> U) \<and> other_spaces U d m m'"
    and "\<not> in_range va len x \<Longrightarrow> keeps (uload m d x) (uload m' d x)"
    and "r = None \<Longrightarrow> in_range va len x \<Longrightarrow> copied src (unat x - unat va) (uload m d x) (uload m' d x)"
  using task_copy_to_user_spec [OF conjunct1 [OF assms(1)] conjunct2 [OF assms(1)] assms(2,3)] assms(1)
  by (simp_all add: other_spaces_def)

interpretation us: elf_copier "\<lambda>m. task_copy_to_user m d" "\<lambda>m. mm_ok m U \<and> d \<in> U" "\<lambda>m. uload m d" "other_spaces U d"
  for d U
  by unfold_locales
    (rule other_spaces_refl, erule (1) other_spaces_trans, erule (2) user_copy(1), erule (3) user_copy(2),
     rule user_copy(3) [OF _ _ _ refl])

text \<open>C28. Loading a program touches the address space of its task only, keeps the invariants of paging,
  and changes nothing outside the user area between \<open>USER_CODE_ADDR\<close> and \<open>USER_HEAP_LIMIT\<close>, whatever the
  file holds. When it succeeds the entry point lies in a loaded segment, every segment lies between
  the start and the reported end of the image, and in an empty address space every byte of a
  segment is the byte of the file or the 0 the program headers call for, unless segments overlap.\<close>

theorem elf_load_result:
  assumes "mm_ok m U" "d \<in> U" "length buf = unat size'"
    and "elf_load buf size' USER_CODE_ADDR USER_HEAP_LIMIT (\<lambda>m. task_copy_to_user m d) m = (m', r)"
  shows "mm_ok m' U \<and> (\<forall>d' \<in> U. d' \<noteq> d \<longrightarrow> uload m' d' = uload m d')
    \<and> (\<forall>x. \<not> (USER_CODE_ADDR \<le> x \<and> x < USER_HEAP_LIMIT) \<longrightarrow> keeps (uload m d x) (uload m' d x))
    \<and> (case r of Inl e \<Rightarrow> True
       | Inr (entry, end') \<Rightarrow>
          (\<exists>i < unat (phnum (elf_header buf)). in_segment buf i entry) \<and> end' \<le> USER_HEAP_LIMIT
          \<and> (\<forall>i x. i < unat (phnum (elf_header buf)) \<and> in_segment buf i x \<longrightarrow> USER_CODE_ADDR \<le> x \<and> x < end')
          \<and> (uload m d = Map.empty
              \<and> (\<forall>i j x. i < unat (phnum (elf_header buf)) \<and> j < unat (phnum (elf_header buf))
                   \<and> in_segment buf i x \<and> in_segment buf j x \<longrightarrow> i = j)
              \<longrightarrow> (\<forall>i x. i < unat (phnum (elf_header buf)) \<and> in_segment buf i x
                     \<longrightarrow> uload m' d x = Some (image_byte buf i x))))"
proof -
  have lim: "USER_CODE_ADDR \<le> USER_HEAP_LIMIT" by simp
  note L = us.load_ok [OF conjI [OF assms(1,2)] assms(4,3) lim]
  have "keeps None None" by simp
  then show ?thesis using L(1) L(2,3) by (fastforce simp: other_spaces_def split: sum.split)
qed

text \<open>A program of one segment: two bytes of code and two bytes of bss.\<close>

definition example_elf :: bytes where
  "example_elf = [0x7F, 0x45, 0x4C, 0x46, 1, 1, 1, 0, 0, 0, 0, 0, 0, 0, 0, 0, 2, 0, 3, 0, 1, 0, 0, 0,
     0, 0, 0, 0x40, 52, 0, 0, 0, 0, 0, 0, 0, 0, 0, 0, 0, 52, 0, 32, 0, 1, 0, 0, 0, 0, 0, 0, 0,
     1, 0, 0, 0, 84, 0, 0, 0, 0, 0, 0, 0x40, 0, 0, 0, 0x40, 2, 0, 0, 0, 4, 0, 0, 0, 5, 0, 0, 0, 0, 16, 0, 0,
     0xEB, 0xFE]"

theorem elf_load_result_witness:
  "elf_validate_header example_elf 86 = None \<and> \<not> elf_segment_bad (program_header example_elf 0) 86 USER_CODE_ADDR USER_HEAP_LIMIT
    \<and> (case elf_load example_elf 86 USER_CODE_ADDR USER_HEAP_LIMIT (\<lambda>m. task_copy_to_user m 0x3000) example_mm2 of
        (m', Inl e) \<Rightarrow> mm_ok m' {0x3000}
      | (m', Inr (entry, end')) \<Rightarrow> mm_ok m' {0x3000} \<and> uload m' 0x3000 0x40000001 = Some 0xFE \<and> uload m' 0x3000 0x40000003 = Some 0)"
proof -
  have v: "elf_validate_header example_elf 86 = None" by code_simp
  have b: "\<not> elf_segment_bad (program_header example_elf 0) 86 USER_CODE_ADDR USER_HEAP_LIMIT" by code_simp
  have n: "unat (phnum (elf_header example_elf)) = 1" by code_simp
  have p: "load_segment example_elf 0" "vaddr (program_header example_elf 0) = 0x40000000"
    "memsz (program_header example_elf 0) = 4" "filesz (program_header example_elf 0) = 2"
    "p_offset (program_header example_elf 0) = 84" by code_simp+
  have i: "image_byte example_elf 0 0x40000001 = 0xFE" "image_byte example_elf 0 0x40000003 = 0"
    by (simp_all add: image_byte_def Let_def p) (simp add: example_elf_def)
  have s: "in_segment example_elf 0 0x40000001" "in_segment example_elf 0 0x40000003"
    using p by (simp_all add: in_segment_def in_range_def)
  obtain m' r where e: "elf_load example_elf 86 USER_CODE_ADDR USER_HEAP_LIMIT (\<lambda>m. task_copy_to_user m 0x3000) example_mm2 = (m', r)"
    by fastforce
  have len: "length example_elf = unat (86 :: u32)" by (simp add: example_elf_def)
  have fresh: "uload example_mm2 0x3000 = Map.empty"
    using page_dir_new_user_spec(4) [OF example_mm_ok(1) _ example_mm_ok(2), of "fst (page_dir_new_user example_mm 0x2000 USER_CODE_ADDR)" "0x3000"]
      example_new_user by (simp add: example_mm2_def prod_eq_iff)
  note R = elf_load_result [OF example_mm2_ok _ len e]
  show ?thesis
  proof (cases r)
    case (Inl a)
    then show ?thesis using R v b e by simp
  next
    case (Inr a)
    then show ?thesis using R v b e n s i fresh by (cases a) auto
  qed
qed

end
