(* ===== verification/Task.thy ===== *)
theory Task
  imports Handle Elf
begin

text \<open>
  Tasks, \<^verbatim>\<open>src/kernel/task/task.c\<close>: the task table, loading and starting programs, descriptors,
  waiting, killing, sleeping and the end of a task.

  A call that waits ends in \<open>Switched\<close> with what it still has to do as the \<open>saved_ctx\<close> of the
  task; the functions named \<open>..._resumed\<close> go on from there. When a task goes on, \<^verbatim>\<open>schedule\<close> first frees
  the zombies nobody waits for (\<open>schedule_resumed\<close>). \<open>None\<close> is a kernel panic. What the code writes on a
  new kernel stack is the \<open>saved_ctx\<close> of the new task.
\<close>

section \<open>The task table\<close>

fun task_state_name :: "task_state \<Rightarrow> bytes" where
  "task_state_name TASK_UNUSED = str ''unused''"
| "task_state_name TASK_LOADING = str ''loading''"
| "task_state_name TASK_READY = str ''ready''"
| "task_state_name TASK_RUNNING = str ''running''"
| "task_state_name TASK_SLEEPING = str ''sleeping''"
| "task_state_name TASK_WAITING_KEY = str ''key''"
| "task_state_name TASK_WAITING_CHILD = str ''wait''"
| "task_state_name TASK_BLOCKED = str ''blocked''"
| "task_state_name TASK_ZOMBIE = str ''zombie''"

fun unused_loop :: "'a kernel_scheme \<Rightarrow> nat list \<Rightarrow> nat option" where
  "unused_loop k [] = None"
| "unused_loop k (i # is) = (if t_state (task_at k i) = TASK_UNUSED then Some i else unused_loop k is)"

definition task_alloc :: "bytes \<Rightarrow> u8 \<Rightarrow> bool \<Rightarrow> 'a system_scheme \<Rightarrow> 'a system_scheme \<times> nat option" where
  "task_alloc name prio kern k =
    (case unused_loop k [0..<MAX_TASKS] of
       None \<Rightarrow> (k, None)
     | Some i \<Rightarrow>
         (upd_task i (\<lambda>t. zero_task\<lparr>t_state := TASK_LOADING, pid := next_pid k, t_name := take (TASK_NAME_LEN - 1) name,
              priority := prio, base_priority := prio, is_kernel := kern, fpu := fpu_reset_state k, wait_pid := - 1\<rparr>)
            (k\<lparr>next_pid := next_pid k + 1\<rparr>), Some i))"

definition task_free :: "nat \<Rightarrow> 'a kernel_scheme \<Rightarrow> 'a kernel_scheme" where
  "task_free i k =
    (let k = (if dir (task_at k i) \<noteq> 0
              then page_dir_free_user (task_free_user_pages k (dir (task_at k i))) (dir (task_at k i)) else k);
         k = k\<lparr>heap := kfree (heap k) (kernel_stack (task_at k i))\<rparr>
     in upd_task i (\<lambda>t. t\<lparr>dir := 0, kernel_stack := 0, t_state := TASK_UNUSED\<rparr>) k)"

definition task_reap_zombies :: "'a kernel_scheme \<Rightarrow> 'a kernel_scheme" where
  "task_reap_zombies k =
    fold (\<lambda>i k. if t_state (task_at k i) = TASK_ZOMBIE \<and> detached (task_at k i) \<and> i \<noteq> task_running k
               then task_free i k else k) [0..<MAX_TASKS] k"

text \<open>What \<^verbatim>\<open>schedule\<close> does behind its \<^verbatim>\<open>context_switch\<close>: a task runs it when it goes on after a switch.\<close>

definition schedule_resumed :: "'a kernel_scheme \<Rightarrow> 'a kernel_scheme" where
  "schedule_resumed k = task_reap_zombies k"

definition task_alloc_kernel_stack :: "nat \<Rightarrow> 'a kernel_scheme \<Rightarrow> 'a kernel_scheme \<times> error option" where
  "task_alloc_kernel_stack i k =
    (let (h, p) = heap_malloc (heap k) 16384;
         k = upd_task i (kernel_stack_update (\<lambda>_. p)) (k\<lparr>heap := h\<rparr>)
     in if p = 0 then (k, Some NO_MEMORY_ERROR)
        else (upd_task i (kernel_stack_top_update (\<lambda>_. p + 16384)) k, None))"

text \<open>The idle and the init thread. The code does not look whether the idle thread got a stack.\<close>

definition task_init :: "u32 \<Rightarrow> 'a system_scheme \<Rightarrow> 'a system_scheme" where
  "task_init kernel_dir k =
    (let k = k\<lparr>kernel_page_dir := kernel_dir, task_table := replicate MAX_TASKS zero_task\<rparr>;
         (k, idle) = task_alloc (str ''idle'') 0 True k;
         k = k\<lparr>task_idle := the idle\<rparr>;
         k = fst (task_alloc_kernel_stack (task_idle k) k);
         k = upd_task (task_idle k) (\<lambda>t. t\<lparr>saved_ctx := Ctx_idle, t_state := TASK_READY\<rparr>) k;
         (k, init) = task_alloc (str ''init'') TASK_PRIORITY_SHELL True k;
         k = k\<lparr>task_init_thread := the init\<rparr>;
         k = upd_task (task_init_thread k) (\<lambda>t. t\<lparr>t_state := TASK_RUNNING, cwd := str ''0:/'', foreground := True\<rparr>) k
     in k\<lparr>task_running := task_init_thread k\<rparr>)"

section \<open>Starting a program\<close>

definition page_up :: "u32 \<Rightarrow> u32" where
  "page_up x = (x + PAGE_SIZE - 1) AND NOT (PAGE_SIZE - 1)"

definition task_load :: "nat \<Rightarrow> bytes \<Rightarrow> 'a system_scheme \<Rightarrow> 'a system_scheme \<times> error option" where
  "task_load i path k =
    (case fopen (clock k) path (str ''r'') (files k) of (fd, v) \<Rightarrow>
       (let k = k\<lparr>files := v\<rparr>
        in if fd = 0 then (k, Some NOT_FOUND_ERROR)
           else
             let (k, buf, res) =
               (case fstat fd (files k) of
                  Inl e \<Rightarrow> (k, 0, Some INVALID_ARG_ERROR)
                | Inr st \<Rightarrow>
                    if stat_filesize st = 0 then (k, 0, Some INVALID_ARG_ERROR)
                    else
                      let (k, d) = page_dir_new_user k (kernel_page_dir k) USER_CODE_ADDR;
                          k = upd_task i (dir_update (\<lambda>_. d)) k;
                          (h, buf) = heap_malloc (heap k) (stat_filesize st);
                          k = k\<lparr>heap := h\<rparr>
                      in if d = 0 \<or> buf = 0 then (k, buf, Some NO_MEMORY_ERROR)
                         else
                           let (r, v) = fread (stat_filesize st) 1 fd (files k);
                               k = k\<lparr>files := v\<rparr>
                           in (case r of
                                 Inl e \<Rightarrow> (k, buf, Some IO_ERROR)
                               | Inr (n, bs) \<Rightarrow>
                                   if n \<noteq> 1 then (k, buf, Some IO_ERROR)
                                   else (case elf_load bs (stat_filesize st) USER_CODE_ADDR USER_HEAP_LIMIT
                                                (\<lambda>k. task_copy_to_user k d) k of
                                           (k, Inl e) \<Rightarrow> (k, buf, Some e)
                                         | (k, Inr (ent, image_end)) \<Rightarrow>
                                             let k = upd_task i (\<lambda>t. t\<lparr>entry := ent, brk_start := page_up image_end,
                                                                     brk := page_up image_end\<rparr>) k;
                                                 (k, res) = task_copy_to_user k d (USER_STACK_TOP - USER_STACK_SIZE) None
                                                              (unat USER_STACK_SIZE) True
                                             in (k, buf, res))))
             in (k\<lparr>heap := kfree (heap k) buf, files := snd (fclose fd (files k))\<rparr>, res)))"

text \<open>The arguments are copied from the last one down; \<open>None\<close> when they are too long.\<close>

fun push_args_loop :: "u32 \<Rightarrow> bytes list \<Rightarrow> u32 \<Rightarrow> u32 list \<Rightarrow> 'a mm_state_scheme \<Rightarrow> 'a mm_state_scheme \<times> (u32 \<times> u32 list) option" where
  "push_args_loop d [] sp pointers k = (k, Some (sp, pointers))"
| "push_args_loop d (a # as) sp pointers k =
    (let sp = sp - (of_nat (length a) + 1)
     in if USER_STACK_TOP - sp > 1024 then (k, None)
        else push_args_loop d as sp (sp # pointers) (fst (task_copy_to_user k d sp (Some (a @ [0])) (length a + 1) True)))"

definition word_bytes :: "u32 \<Rightarrow> bytes" where
  "word_bytes w = put32 0 w (replicate 4 0)"

definition task_push_args :: "nat \<Rightarrow> bytes list \<Rightarrow> 'a kernel_scheme \<Rightarrow> 'a kernel_scheme \<times> (error + u32)" where
  "task_push_args i argv k =
    (if length argv > 16 then (k, Inl INVALID_ARG_ERROR)
     else let d = dir (task_at k i)
          in case push_args_loop d (rev argv) USER_STACK_TOP [] k of
               (k, None) \<Rightarrow> (k, Inl INVALID_ARG_ERROR)
             | (k, Some (sp, pointers)) \<Rightarrow>
                 let sp = sp AND NOT 3;
                     sp = sp - (of_nat (length argv) + 1) * 4;
                     k = fst (task_copy_to_user k d sp (Some (concat (map word_bytes (pointers @ [0]))))
                                ((length argv + 1) * 4) True);
                     frame = word_bytes (of_nat (length argv)) @ word_bytes sp;
                     sp = sp - 8;
                     k = fst (task_copy_to_user k d sp (Some frame) 8 True)
                 in (k, Inr sp))"

definition task_name_from_path :: "bytes \<Rightarrow> bytes" where
  "task_name_from_path path =
    take (TASK_NAME_LEN - 1) (takeWhile (\<lambda>c. c \<noteq> dot)
      (fold (\<lambda>i start. if path ! i = slash then drop (i + 1) path else start) [0..<length path] path))"

section \<open>Descriptors\<close>

definition task_fd_get :: "int \<Rightarrow> 'a kernel_scheme \<Rightarrow> u32" where
  "task_fd_get fd k =
    (if is_kernel (running_task k) then (if fd \<ge> 0 \<and> fd \<le> 2 then handle_terminal else 0)
     else if fd < 0 \<or> fd \<ge> int TASK_MAX_FDS then 0
     else fds (running_task k) ! nat fd)"

definition task_inherit_fd :: "int \<Rightarrow> 'a kernel_scheme \<Rightarrow> u32" where
  "task_inherit_fd fd k = (if task_fd_get fd k \<noteq> 0 then task_fd_get fd k else handle_terminal)"

fun free_fd_loop :: "u32 list \<Rightarrow> nat list \<Rightarrow> nat option" where
  "free_fd_loop hs [] = None"
| "free_fd_loop hs (i # is) = (if hs ! i = 0 then Some i else free_fd_loop hs is)"

definition set_fd :: "nat \<Rightarrow> nat \<Rightarrow> u32 \<Rightarrow> 'a kernel_scheme \<Rightarrow> 'a kernel_scheme" where
  "set_fd i fd h k = upd_task i (fds_update (\<lambda>hs. hs[fd := h])) k"

definition task_fd_install :: "u32 \<Rightarrow> 'a kernel_scheme \<Rightarrow> 'a kernel_scheme \<times> (error + nat)" where
  "task_fd_install h k =
    (case free_fd_loop (fds (running_task k)) [0..<TASK_MAX_FDS] of
       None \<Rightarrow> (k, Inl FILE_HANDLER_OVERFLOW)
     | Some fd \<Rightarrow> (set_fd (task_running k) fd h k, Inr fd))"

definition task_fd_close :: "int \<Rightarrow> 'a system_scheme \<Rightarrow> 'a system_scheme \<times> error option" where
  "task_fd_close fd k =
    (if task_fd_get fd k = 0 \<or> is_kernel (running_task k) then (k, Some INVALID_ARG_ERROR)
     else (handle_close (task_fd_get fd k) (set_fd (task_running k) (nat fd) 0 k), None))"

text \<open>The first part of \<^verbatim>\<open>task_spawn\<close> makes a loaded task, the second gives it to the scheduler. A null
  handle inherits the descriptor of the running task.\<close>

definition inherit_std :: "nat \<Rightarrow> int \<Rightarrow> u32 \<Rightarrow> 'a kernel_scheme \<Rightarrow> 'a kernel_scheme" where
  "inherit_std i fd given k =
    (let h = (if given \<noteq> 0 then given else task_inherit_fd fd k) in set_fd i (nat fd) h (handle_ref h k))"

definition task_start :: "nat \<Rightarrow> u32 \<Rightarrow> u32 \<Rightarrow> u32 \<Rightarrow> u32 \<Rightarrow> 'a system_scheme \<Rightarrow> 'a system_scheme" where
  "task_start i flags std_in std_out std_err k =
    (let bg = (flags AND 1 \<noteq> 0);
         k = upd_task i (\<lambda>t. t\<lparr>saved_ctx := Ctx_start, parent := Some (task_running k), background := bg, detached := bg,
               is_shell := (flags AND 2 \<noteq> 0), foreground := (\<not> bg \<and> foreground (running_task k)),
               cwd := cwd (running_task k)\<rparr>) k;
         k = inherit_std i 0 std_in k;
         k = inherit_std i 1 std_out k;
         k = inherit_std i 2 std_err k;
         k = (if foreground (task_at k i) then k\<lparr>kbd := keyboard_flush (kbd k)\<rparr> else k)
     in sched_wake i k)"

definition task_spawn ::
  "bytes \<Rightarrow> bytes list \<Rightarrow> u8 \<Rightarrow> u32 \<Rightarrow> u32 \<Rightarrow> u32 \<Rightarrow> u32 \<Rightarrow> 'a system_scheme \<Rightarrow> 'a system_scheme \<times> (error + int)" where
  "task_spawn path argv prio flags std_in std_out std_err k =
    (case task_alloc (task_name_from_path path) prio False k of
       (k, None) \<Rightarrow> (k, Inl NO_MEMORY_ERROR)
     | (k, Some i) \<Rightarrow>
         (case (case task_load i path k of
                  (k, Some e) \<Rightarrow> (k, Some e)
                | (k, None) \<Rightarrow>
                    (case task_push_args i argv k of
                       (k, Inl e) \<Rightarrow> (k, Some e)
                     | (k, Inr user_esp) \<Rightarrow> task_alloc_kernel_stack i k)) of
            (k, Some e) \<Rightarrow> (task_free i k, Inl e)
          | (k, None) \<Rightarrow> (task_start i flags std_in std_out std_err k, Inr (pid (task_at k i)))))"

section \<open>Memory, directory and programs of a task\<close>

definition task_sbrk :: "u32 \<Rightarrow> 'a kernel_scheme \<Rightarrow> 'a kernel_scheme \<times> u32" where
  "task_sbrk increment k =
    (let t = running_task k;
         old_brk = brk t;
         new_brk = old_brk + increment
     in if (sint increment > 0 \<and> new_brk < old_brk) \<or> new_brk < brk_start t \<or> new_brk > USER_HEAP_LIMIT
        then (k, 0)
        else let (k, res) = (if new_brk > old_brk
                             then task_copy_to_user k (dir t) old_brk None (unat (new_brk - old_brk)) True
                             else (k, None))
             in case res of
                  Some e \<Rightarrow> (k, 0)
                | None \<Rightarrow> (upd_running (brk_update (\<lambda>_. new_brk)) k, old_brk))"

definition task_cwd :: "'a kernel_scheme \<Rightarrow> bytes" where
  "task_cwd k = cwd (running_task k)"

definition task_set_cwd :: "bytes \<Rightarrow> 'a kernel_scheme \<Rightarrow> 'a kernel_scheme" where
  "task_set_cwd path k = upd_running (cwd_update (\<lambda>_. path)) k"

definition task_resolve_path :: "bytes \<Rightarrow> 'a kernel_scheme \<Rightarrow> bytes option" where
  "task_resolve_path path k = pathparser_resolve (cwd (running_task k)) path (int MAX_PATH_LEN + 1)"

definition task_find_program :: "bytes \<Rightarrow> 'a system_scheme \<Rightarrow> 'a system_scheme \<times> bytes option" where
  "task_find_program name k =
    (if strchr name slash \<noteq> None \<or> strchr name colon \<noteq> None then (k, task_resolve_path name k)
     else if length (str ''0:/bin/'') + length name + length (str ''.elf'') > MAX_PATH_LEN then (k, None)
     else let path = str ''0:/bin/'' @ name @ str ''.elf'';
              (fd, v) = fopen (clock k) path (str ''r'') (files k)
          in if fd = 0 then (k\<lparr>files := v\<rparr>, None)
             else (k\<lparr>files := snd (fclose fd v)\<rparr>, Some path))"

definition task_user_range_valid :: "u32 \<Rightarrow> u32 \<Rightarrow> 'a kernel_scheme \<Rightarrow> bool" where
  "task_user_range_valid start len k \<longleftrightarrow>
    \<not> is_kernel (running_task k) \<and> start \<ge> USER_CODE_ADDR \<and> start + len \<ge> start \<and> start + len \<le> USER_STACK_TOP"

section \<open>Waiting for a child, the end of a task\<close>

fun find_loop :: "'a kernel_scheme \<Rightarrow> int \<Rightarrow> bool \<Rightarrow> nat list \<Rightarrow> nat option" where
  "find_loop k p zombies [] = None"
| "find_loop k p zombies (i # is) =
    (if pid (task_at k i) = p \<and> t_state (task_at k i) \<noteq> TASK_UNUSED \<and> t_state (task_at k i) \<noteq> TASK_LOADING
        \<and> (zombies \<or> t_state (task_at k i) \<noteq> TASK_ZOMBIE)
     then Some i else find_loop k p zombies is)"

definition task_find :: "int \<Rightarrow> bool \<Rightarrow> 'a kernel_scheme \<Rightarrow> nat option" where
  "task_find p zombies k = find_loop k p zombies [0..<MAX_TASKS]"

text \<open>The loop of \<^verbatim>\<open>task_wait\<close> and what follows it.\<close>

definition wait_loop :: "nat \<Rightarrow> int \<Rightarrow> 'a kernel_scheme \<Rightarrow> ('a kernel_scheme, error + int) outcome" where
  "wait_loop child p k =
    (if t_state (task_at k child) \<noteq> TASK_ZOMBIE
     then Switched (schedule (upd_running (\<lambda>t. t\<lparr>wait_pid := p, t_state := TASK_WAITING_CHILD, saved_ctx := Ctx_wait child p\<rparr>) k))
     else let k = upd_running (wait_pid_update (\<lambda>_. - 1)) k
          in Done (task_free child k) (Inr (exit_code (task_at k child))))"

definition task_wait :: "int \<Rightarrow> 'a kernel_scheme \<Rightarrow> ('a kernel_scheme, error + int) outcome" where
  "task_wait p k =
    (case task_find p True k of
       None \<Rightarrow> Done k (Inl INVALID_ARG_ERROR)
     | Some child \<Rightarrow>
         if parent (task_at k child) \<noteq> Some (task_running k) \<or> detached (task_at k child)
         then Done k (Inl INVALID_ARG_ERROR) else wait_loop child p k)"

definition vga_gfx_leave :: "'a system_scheme \<Rightarrow> 'a system_scheme" where
  "vga_gfx_leave k =
    (if active (gfx_card k) = VGA_MODE_TEXT then k
     else k\<lparr>gfx_card := gfx_leave (gfx_card k), screen := terminal_show (screen k)\<rparr>)"

definition close_fds :: "nat \<Rightarrow> 'a system_scheme \<Rightarrow> 'a system_scheme" where
  "close_fds i k =
    fold (\<lambda>fd k. if fds (task_at k i) ! fd \<noteq> 0
                then set_fd i fd 0 (handle_close (fds (task_at k i) ! fd) k) else k) [0..<TASK_MAX_FDS] k"

definition orphan_children :: "nat \<Rightarrow> 'a kernel_scheme \<Rightarrow> 'a kernel_scheme" where
  "orphan_children i k =
    fold (\<lambda>j k. if t_state (task_at k j) \<noteq> TASK_UNUSED \<and> parent (task_at k j) = Some i
               then upd_task j (\<lambda>t. t\<lparr>parent := Some (task_init_thread k), detached := True\<rparr>) k else k)
      [0..<MAX_TASKS] k"

definition exit_message :: "nat \<Rightarrow> int \<Rightarrow> 'a system_scheme \<Rightarrow> 'a system_scheme" where
  "exit_message i code k =
    k\<lparr>screen := the (printf (str ''[%d] %s %s'' @ [10])
        [Arg_word (word_of_int (pid (task_at k i))), Arg_string (t_name (task_at k i)),
         Arg_string (if code = TASK_KILLED then str ''killed'' else str ''done'')] (screen k))\<rparr>"

text \<open>Everything \<^verbatim>\<open>task_exit\<close> does for a user task in front of its last \<^verbatim>\<open>schedule ()\<close>.\<close>

definition task_exit_state :: "int \<Rightarrow> 'a system_scheme \<Rightarrow> 'a system_scheme" where
  "task_exit_state code k =
    (let i = task_running k;
         k = mutex_release_all i k;
         k = (if owns_screen (task_at k i) then vga_gfx_leave (upd_task i (owns_screen_update (\<lambda>_. False)) k) else k);
         k = close_fds i k;
         k = upd_task i (\<lambda>t. t\<lparr>t_state := TASK_ZOMBIE, exit_code := code, saved_ctx := Ctx_dead\<rparr>) k;
         k = orphan_children i k;
         k = (case parent (task_at k i) of
                None \<Rightarrow> k
              | Some p \<Rightarrow> if t_state (task_at k p) = TASK_WAITING_CHILD \<and> wait_pid (task_at k p) = pid (task_at k i)
                          then sched_wake p k else k);
         k = (if background (task_at k i) then exit_message i code k else k)
     in if foreground (task_at k i) then k\<lparr>kbd := keyboard_flush (kbd k)\<rparr> else k)"

definition task_exit :: "int \<Rightarrow> 'a system_scheme \<Rightarrow> 'a system_scheme option" where
  "task_exit code k = (if is_kernel (running_task k) then None else Some (schedule (task_exit_state code k)))"

section \<open>Killing\<close>

definition task_kill :: "int \<Rightarrow> 'a kernel_scheme \<Rightarrow> 'a kernel_scheme \<times> error option" where
  "task_kill p k =
    (case task_find p False k of
       None \<Rightarrow> (k, Some INVALID_ARG_ERROR)
     | Some i \<Rightarrow>
         if is_kernel (task_at k i) then (k, Some INVALID_ARG_ERROR)
         else let k = upd_task i (\<lambda>t. t\<lparr>killed := True, priority := TASK_PRIORITY_MAX\<rparr>) k
              in (if t_state (task_at k i) \<in> {TASK_SLEEPING, TASK_WAITING_KEY, TASK_BLOCKED} then sched_wake i k else k, None))"

fun kill_foreground_loop :: "nat list \<Rightarrow> bool \<Rightarrow> 'a kernel_scheme \<Rightarrow> 'a kernel_scheme \<times> bool" where
  "kill_foreground_loop [] done' k = (k, done')"
| "kill_foreground_loop (i # is) done' k =
    (let t = task_at k i
     in if foreground t \<and> \<not> is_kernel t \<and> \<not> is_shell t \<and> t_state t \<noteq> TASK_UNUSED \<and> t_state t \<noteq> TASK_ZOMBIE
        then (case task_kill (pid t) k of (k, r) \<Rightarrow> kill_foreground_loop is (done' \<or> r = None) k)
        else kill_foreground_loop is done' k)"

definition task_kill_foreground :: "'a system_scheme \<Rightarrow> 'a system_scheme" where
  "task_kill_foreground k =
    (case kill_foreground_loop [0..<MAX_TASKS] False k of (k, any) \<Rightarrow>
      if any then k\<lparr>screen := terminal_writestring (str ''^C'' @ [10]) (screen k), kbd := keyboard_flush (kbd k)\<rparr> else k)"

section \<open>Sleeping and keys\<close>

definition pit_ms_to_ticks :: "u32 \<Rightarrow> u32" where
  "pit_ms_to_ticks ms = (ms * 100 + 999) div 1000"

definition pit_uptime_ms :: "'a kernel_scheme \<Rightarrow> u32" where
  "pit_uptime_ms k = ticks k * 10"

definition pit_tick :: "'a kernel_scheme \<Rightarrow> 'a kernel_scheme" where
  "pit_tick k = k\<lparr>ticks := ticks k + 1\<rparr>"

text \<open>\<open>r\<close> is what the caller returns afterwards.\<close>

definition task_sleep_until_tick :: "u32 \<Rightarrow> int \<Rightarrow> 'a kernel_scheme \<Rightarrow> ('a kernel_scheme, int) outcome" where
  "task_sleep_until_tick tick r k =
    (if sint (tick - ticks k) > 0 \<and> \<not> killed (running_task k)
     then Switched (schedule (upd_running (\<lambda>t. t\<lparr>wake_tick := tick, t_state := TASK_SLEEPING, saved_ctx := Ctx_sleep tick r\<rparr>) k))
     else Done k r)"

definition task_sleep_ms :: "u32 \<Rightarrow> 'a kernel_scheme \<Rightarrow> ('a kernel_scheme, int) outcome" where
  "task_sleep_ms ms k = task_sleep_until_tick (ticks k + pit_ms_to_ticks ms) 0 k"

definition task_on_keyboard_input :: "'a kernel_scheme \<Rightarrow> 'a kernel_scheme" where
  "task_on_keyboard_input k =
    fold (\<lambda>i k. if foreground (task_at k i) \<and> t_state (task_at k i) = TASK_WAITING_KEY then sched_wake i k else k)
      [0..<MAX_TASKS] k"

text \<open>The end of \<^verbatim>\<open>task_return_to_user\<close>, the function up to its \<^verbatim>\<open>schedule ()\<close>, which returns at once when it picks the
  same task again, and what a task does that goes on there after a switch.\<close>

definition return_if_alive :: "'a system_scheme \<Rightarrow> ('a system_scheme, unit) outcome option" where
  "return_if_alive k =
    (if killed (running_task k) then map_option Switched (task_exit TASK_KILLED k) else Some (Done k ()))"

definition task_return_to_user :: "'a system_scheme \<Rightarrow> ('a system_scheme, unit) outcome option" where
  "task_return_to_user k =
    (if killed (running_task k) then map_option Switched (task_exit TASK_KILLED k)
     else if sched_need_resched k
     then let k' = schedule (upd_running (saved_ctx_update (\<lambda>_. Ctx_user)) k)
          in if task_running k' = task_running k then return_if_alive k' else Some (Switched k')
     else return_if_alive k)"

definition task_return_to_user_resumed :: "'a system_scheme \<Rightarrow> ('a system_scheme, unit) outcome option" where
  "task_return_to_user_resumed k = return_if_alive (schedule_resumed k)"

section \<open>Periodic tasks, priorities and the task list\<close>

definition task_set_period :: "u32 \<Rightarrow> 'a kernel_scheme \<Rightarrow> 'a kernel_scheme \<times> error option" where
  "task_set_period ms k =
    (if is_kernel (running_task k) then (k, Some INVALID_ARG_ERROR)
     else (sched_request_resched (upd_running (\<lambda>t. t\<lparr>period_ticks := pit_ms_to_ticks ms,
             deadline := ticks k + pit_ms_to_ticks ms, jobs := 0, deadline_misses := 0\<rparr>) k), None))"

definition task_wait_period :: "'a kernel_scheme \<Rightarrow> ('a kernel_scheme, int) outcome" where
  "task_wait_period k =
    (let t = running_task k
     in if period_ticks t = 0 then Done k (err_code INVALID_ARG_ERROR)
        else let missed = sint (ticks k - deadline t) \<ge> 0;
                 k = upd_running (\<lambda>t. t\<lparr>jobs := jobs t + 1, deadline_misses := deadline_misses t + (if missed then 1 else 0),
                       deadline := deadline t + period_ticks t\<rparr>) k
             in task_sleep_until_tick (deadline t) (if missed then 1 else 0) k)"

definition task_set_priority :: "int \<Rightarrow> u8 \<Rightarrow> 'a kernel_scheme \<Rightarrow> 'a kernel_scheme \<times> error option" where
  "task_set_priority p prio k =
    (case (if p \<noteq> 0 then task_find p False k else Some (task_running k)) of
       None \<Rightarrow> (k, Some INVALID_ARG_ERROR)
     | Some i \<Rightarrow>
         if is_kernel (task_at k i) \<or> killed (task_at k i) then (k, Some INVALID_ARG_ERROR)
         else (mutex_update_priority i (upd_task i (base_priority_update (\<lambda>_. prio)) k), None))"

record task_info =
  ti_pid :: int
  ti_name :: bytes
  ti_state :: bytes
  ti_priority :: u8
  ti_background :: bool
  ti_is_kernel :: bool
  ti_cpu_ms :: u32
  ti_period_ms :: u32
  ti_jobs :: u32
  ti_deadline_misses :: u32
  ti_parent :: int

definition task_info_of :: "'a kernel_scheme \<Rightarrow> nat \<Rightarrow> task_info" where
  "task_info_of k i =
    (let t = task_at k i
     in \<lparr>ti_pid = pid t, ti_name = t_name t, ti_state = task_state_name (t_state t), ti_priority = priority t,
         ti_background = background t, ti_is_kernel = is_kernel t, ti_cpu_ms = cpu_ticks t * 10,
         ti_period_ms = period_ticks t * 10, ti_jobs = jobs t, ti_deadline_misses = deadline_misses t,
         ti_parent = (case parent t of None \<Rightarrow> 0 | Some p \<Rightarrow> pid (task_at k p))\<rparr>)"

definition task_list :: "int \<Rightarrow> 'a kernel_scheme \<Rightarrow> task_info list" where
  "task_list mx k =
    take (nat mx) (map (task_info_of k) (filter (\<lambda>i. t_state (task_at k i) \<noteq> TASK_UNUSED) [0..<MAX_TASKS]))"

end
