(* ===== verification/Syscall.thy ===== *)
theory Syscall
  imports Task
begin

text \<open>
  System calls, \<^verbatim>\<open>src/kernel/syscall/syscall.c\<close>: what a program can ask the kernel for. The
  pointers of a program are checked against the user area before they are used.

  Results are values of \<open>('k, int) outcome option\<close>: the number for eax, or a switch to another
  task in the middle of the call. \<open>None\<close>: the kernel panics, or writes outside its objects.
  A page of the user area that is not mapped passes the check of the code and faults in ring 0,
  which is a panic. Where a call reads a buffer the model reads all of it first.
\<close>

section \<open>User memory\<close>

text \<open>The kernel runs in the address space of the program. It may write to read only pages, cr0
  has no write protection set.\<close>

definition user_byte :: "'a kernel_scheme \<Rightarrow> u32 \<Rightarrow> u8 option" where
  "user_byte k va = uload k (dir (running_task k)) va"

fun user_load :: "'a kernel_scheme \<Rightarrow> u32 \<Rightarrow> nat \<Rightarrow> bytes option" where
  "user_load k va 0 = Some []"
| "user_load k va (Suc n) =
    (case user_byte k va of
       None \<Rightarrow> None
     | Some b \<Rightarrow> map_option ((#) b) (user_load k (va + 1) n))"

definition put_user_byte :: "'a kernel_scheme \<Rightarrow> u32 \<Rightarrow> u8 \<Rightarrow> 'a kernel_scheme option" where
  "put_user_byte k va b =
    (if user_byte k va = None then None
     else Some (write_page k (frame (upte k (dir (running_task k)) (tab_no va) (slot_no va))) (unat (va mod PAGE_SIZE)) [b]))"

fun user_store :: "'a kernel_scheme \<Rightarrow> u32 \<Rightarrow> bytes \<Rightarrow> 'a kernel_scheme option" where
  "user_store k va [] = Some k"
| "user_store k va (b # bs) =
    (case put_user_byte k va b of None \<Rightarrow> None | Some k \<Rightarrow> user_store k (va + 1) bs)"

definition user_word :: "'a kernel_scheme \<Rightarrow> u32 \<Rightarrow> u32 option" where
  "user_word k va = map_option (\<lambda>bs. get32 bs 0) (user_load k va 4)"

section \<open>Results\<close>

type_synonym 'a reply = "('a system_scheme, int) outcome option"

abbreviation reply :: "'a system_scheme \<Rightarrow> int \<Rightarrow> 'a reply" where
  "reply k n \<equiv> Some (Done k n)"

abbreviation refuse :: "'a system_scheme \<Rightarrow> error \<Rightarrow> 'a reply" where
  "refuse k e \<equiv> reply k (err_code e)"

fun unit_code :: "error option \<Rightarrow> int" where
  "unit_code None = 0"
| "unit_code (Some e) = err_code e"

fun sum_code :: "error + int \<Rightarrow> int" where
  "sum_code (Inl e) = err_code e"
| "sum_code (Inr n) = n"

definition reply_unit :: "'a system_scheme \<times> error option \<Rightarrow> 'a reply" where
  "reply_unit r = reply (fst r) (unit_code (snd r))"

definition reply_sum :: "'a system_scheme \<times> (error + int) \<Rightarrow> 'a reply" where
  "reply_sum r = reply (fst r) (sum_code (snd r))"

text \<open>A result that goes to a buffer of the program.\<close>

definition reply_bytes :: "'a system_scheme \<Rightarrow> u32 \<Rightarrow> bytes \<Rightarrow> int \<Rightarrow> 'a reply" where
  "reply_bytes k va bs n = (case user_store k va bs of None \<Rightarrow> None | Some k \<Rightarrow> reply k n)"

section \<open>Strings and paths of a program\<close>

fun user_strlen_loop :: "'a kernel_scheme \<Rightarrow> u32 \<Rightarrow> u32 \<Rightarrow> nat \<Rightarrow> (error + u32) option" where
  "user_strlen_loop k va len 0 = Some (Inl INVALID_ARG_ERROR)"
| "user_strlen_loop k va len (Suc n) =
    (if \<not> task_user_range_valid (va + len) 1 k then Some (Inl INVALID_ARG_ERROR)
     else case user_byte k (va + len) of
            None \<Rightarrow> None
          | Some c \<Rightarrow> if c = 0 then Some (Inr len) else user_strlen_loop k va (len + 1) n)"

definition sys_user_strlen :: "u32 \<Rightarrow> u32 \<Rightarrow> 'a kernel_scheme \<Rightarrow> (error + u32) option" where
  "sys_user_strlen va mx k = user_strlen_loop k va 0 (unat mx + 1)"

definition sys_copy_string :: "u32 \<Rightarrow> u32 \<Rightarrow> 'a kernel_scheme \<Rightarrow> (error + bytes) option" where
  "sys_copy_string va mx k =
    (case sys_user_strlen va mx k of
       None \<Rightarrow> None
     | Some (Inl e) \<Rightarrow> Some (Inl e)
     | Some (Inr len) \<Rightarrow> map_option Inr (user_load k va (unat len)))"

definition sys_get_path :: "u32 \<Rightarrow> 'a kernel_scheme \<Rightarrow> (error + bytes) option" where
  "sys_get_path user_path k =
    (case sys_copy_string user_path (of_nat MAX_PATH_LEN) k of
       None \<Rightarrow> None
     | Some (Inl e) \<Rightarrow> Some (Inl INVALID_PATH_ERROR)
     | Some (Inr path) \<Rightarrow>
         Some (case task_resolve_path path k of None \<Rightarrow> Inl INVALID_PATH_ERROR | Some p \<Rightarrow> Inr p))"

definition with_path :: "u32 \<Rightarrow> 'a system_scheme \<Rightarrow> (bytes \<Rightarrow> 'a reply) \<Rightarrow> 'a reply" where
  "with_path user_path k f =
    (case sys_get_path user_path k of None \<Rightarrow> None | Some (Inl e) \<Rightarrow> refuse k e | Some (Inr path) \<Rightarrow> f path)"

section \<open>Reading and writing\<close>

definition sys_write :: "int \<Rightarrow> u32 \<Rightarrow> u32 \<Rightarrow> 'a system_scheme \<Rightarrow> 'a reply" where
  "sys_write fd buf len k =
    (let h = task_fd_get fd k
     in if h = 0 \<or> \<not> task_user_range_valid buf len k then refuse k INVALID_ARG_ERROR
        else if h_type (handle_at k h) = HANDLE_PIPE_READ then Some (handle_write h [] k)
        else (case user_load k buf (unat len) of None \<Rightarrow> None | Some data \<Rightarrow> Some (handle_write h data k)))"

text \<open>The bytes that were read go to the buffer of the program, also when the call had to wait.\<close>

definition finish_read :: "u32 \<Rightarrow> ('a system_scheme, int \<times> bytes) outcome option \<Rightarrow> 'a reply" where
  "finish_read buf r =
    (case r of
       None \<Rightarrow> None
     | Some (Switched k) \<Rightarrow> Some (Switched k)
     | Some (Done k x) \<Rightarrow> reply_bytes k buf (snd x) (fst x))"

definition sys_read :: "int \<Rightarrow> u32 \<Rightarrow> u32 \<Rightarrow> 'a system_scheme \<Rightarrow> 'a reply" where
  "sys_read fd buf len k =
    (let h = task_fd_get fd k
     in if h = 0 \<or> \<not> task_user_range_valid buf len k then refuse k INVALID_ARG_ERROR
        else finish_read buf (handle_read h (unat len) k))"

definition sys_print :: "u32 \<Rightarrow> 'a system_scheme \<Rightarrow> 'a reply" where
  "sys_print va k =
    (case sys_user_strlen va 4096 k of
       None \<Rightarrow> None
     | Some (Inl e) \<Rightarrow> refuse k e
     | Some (Inr len) \<Rightarrow> sys_write 1 va len k)"

section \<open>Files\<close>

definition fopen_mode :: "u32 \<Rightarrow> bytes" where
  "fopen_mode m = (if m = 0 then str ''r'' else if m = 1 then str ''w'' else str ''a'')"

text \<open>The end of \<^verbatim>\<open>sys_open\<close>: the open file becomes a descriptor of the task.\<close>

definition install_file :: "int \<Rightarrow> 'a system_scheme \<Rightarrow> 'a system_scheme \<times> (error + int)" where
  "install_file fd k =
    (case handle_new_file fd k of (k, h) \<Rightarrow>
      if h = 0 then (k\<lparr>files := snd (fclose fd (files k))\<rparr>, Inl NO_MEMORY_ERROR)
      else (case task_fd_install h k of
              (k, Inl e) \<Rightarrow> (handle_close h k, Inl e)
            | (k, Inr n) \<Rightarrow> (k, Inr (int n))))"

definition open_path :: "bytes \<Rightarrow> u32 \<Rightarrow> 'a system_scheme \<Rightarrow> 'a system_scheme \<times> (error + int)" where
  "open_path path mode k =
    (case fopen (clock k) path (fopen_mode mode) (files k) of (fd, v) \<Rightarrow>
      if fd = 0 then (k\<lparr>files := v\<rparr>, Inl NOT_FOUND_ERROR) else install_file fd (k\<lparr>files := v\<rparr>))"

definition sys_open :: "u32 \<Rightarrow> u32 \<Rightarrow> 'a system_scheme \<Rightarrow> 'a reply" where
  "sys_open user_path mode k =
    with_path user_path k (\<lambda>path.
      if mode > 2 then refuse k INVALID_ARG_ERROR else reply_sum (open_path path mode k))"

definition sys_file_fd :: "int \<Rightarrow> 'a kernel_scheme \<Rightarrow> int" where
  "sys_file_fd fd k =
    (let h = task_fd_get fd k in if h \<noteq> 0 \<and> h_type (handle_at k h) = HANDLE_FILE then file_fd (handle_at k h) else 0)"

definition sys_filesize :: "int \<Rightarrow> 'a system_scheme \<Rightarrow> 'a reply" where
  "sys_filesize fd k =
    (if sys_file_fd fd k = 0 then refuse k INVALID_ARG_ERROR
     else case fstat (sys_file_fd fd k) (files k) of
            Inl e \<Rightarrow> refuse k INVALID_ARG_ERROR
          | Inr st \<Rightarrow> reply k (sint (stat_filesize st)))"

definition sys_seek :: "int \<Rightarrow> u32 \<Rightarrow> u32 \<Rightarrow> 'a system_scheme \<Rightarrow> 'a reply" where
  "sys_seek fd offset whence k =
    (if sys_file_fd fd k = 0 then refuse k INVALID_ARG_ERROR
     else case fseek (sys_file_fd fd k) offset whence (files k) of (r, v) \<Rightarrow> reply (k\<lparr>files := v\<rparr>) (unit_code r))"

text \<open>One entry of a listing as the program sees it: the fields at their offsets, 76 bytes from
  entry to entry.\<close>

definition store_dirent :: "u32 \<Rightarrow> file_dirent \<Rightarrow> 'a kernel_scheme \<Rightarrow> 'a kernel_scheme option" where
  "store_dirent va d k =
    (case user_store k va (de_name d @ [0]) of
       None \<Rightarrow> None
     | Some k \<Rightarrow>
         (case user_store k (va + 64) (put32 0 (de_size d) (replicate 4 0) @ [if is_dir d then 1 else 0]) of
            None \<Rightarrow> None
          | Some k \<Rightarrow> user_store k (va + 70) (put16 0 (de_date d) (put16 2 (de_time d) (replicate 4 0)))))"

fun store_dirents :: "u32 \<Rightarrow> file_dirent list \<Rightarrow> 'a kernel_scheme \<Rightarrow> 'a kernel_scheme option" where
  "store_dirents va [] k = Some k"
| "store_dirents va (d # ds) k =
    (case store_dirent va d k of None \<Rightarrow> None | Some k \<Rightarrow> store_dirents (va + 76) ds k)"

definition sys_listdir :: "u32 \<Rightarrow> u32 \<Rightarrow> u32 \<Rightarrow> 'a system_scheme \<Rightarrow> 'a reply" where
  "sys_listdir user_path out mx k =
    with_path user_path k (\<lambda>path.
      if sint mx < 0 \<or> \<not> task_user_range_valid out (mx * 76) k then refuse k INVALID_ARG_ERROR
      else case listdir path (sint mx) (files k) of
             (Inl e, v) \<Rightarrow> refuse (k\<lparr>files := v\<rparr>) e
           | (Inr ds, v) \<Rightarrow>
               (case store_dirents out ds (k\<lparr>files := v\<rparr>) of None \<Rightarrow> None | Some k \<Rightarrow> reply k (int (length ds))))"

definition sys_path_op :: "u32 \<Rightarrow> (bytes \<Rightarrow> vfs \<Rightarrow> (error + unit) \<times> vfs) \<Rightarrow> 'a system_scheme \<Rightarrow> 'a reply" where
  "sys_path_op user_path op k =
    with_path user_path k (\<lambda>path.
      case op path (files k) of (r, v) \<Rightarrow> reply (k\<lparr>files := v\<rparr>) (case r of Inl e \<Rightarrow> err_code e | Inr u \<Rightarrow> 0))"

section \<open>Pipes\<close>

text \<open>The descriptors of a new pipe, before they are stored.\<close>

definition open_pipe :: "'a system_scheme \<Rightarrow> 'a system_scheme \<times> (error + nat \<times> nat)" where
  "open_pipe k =
    (case handle_new_pipe k of
       (k, Inl e) \<Rightarrow> (k, Inl e)
     | (k, Inr (r, w)) \<Rightarrow>
         (case task_fd_install r k of
            (k, Inl e) \<Rightarrow> (handle_close w (handle_close r k), Inl e)
          | (k, Inr rfd) \<Rightarrow>
              (case task_fd_install w k of
                 (k, Inl e) \<Rightarrow> (handle_close w (fst (task_fd_close (int rfd) k)), Inl e)
               | (k, Inr wfd) \<Rightarrow> (k, Inr (rfd, wfd)))))"

definition sys_pipe :: "u32 \<Rightarrow> 'a system_scheme \<Rightarrow> 'a reply" where
  "sys_pipe out k =
    (if \<not> task_user_range_valid out 8 k then refuse k INVALID_ARG_ERROR
     else case open_pipe k of
            (k, Inl e) \<Rightarrow> refuse k e
          | (k, Inr (r, w)) \<Rightarrow> reply_bytes k out (word_bytes (of_nat r) @ word_bytes (of_nat w)) 0)"

section \<open>Programs\<close>

text \<open>The argument strings. A string of exactly the bytes that are left makes the next maximum wrap to
  \<open>2^32 - 1\<close>; what then does not fit into the 1024 bytes of \<^verbatim>\<open>args\<close> is written behind them.\<close>

function collect_args :: "'a kernel_scheme \<Rightarrow> u32 \<Rightarrow> bytes list \<Rightarrow> u32 \<Rightarrow> (error + bytes list) option" where
  "collect_args k user_argv args used =
    (let p = user_argv + 4 * of_nat (length args)
     in if length args > 16 \<or> \<not> task_user_range_valid p 4 k then Some (Inl INVALID_ARG_ERROR)
        else case user_word k p of
               None \<Rightarrow> None
             | Some ptr \<Rightarrow>
                 if ptr = 0 then Some (Inr args)
                 else if length args = 16 then Some (Inl INVALID_ARG_ERROR)
                 else (case sys_copy_string ptr (1024 - used - 1) k of
                         None \<Rightarrow> None
                       | Some (Inl e) \<Rightarrow> Some (Inl e)
                       | Some (Inr s) \<Rightarrow>
                           if unat used + length s + 1 > 1024 then None
                           else collect_args k user_argv (args @ [s]) (used + of_nat (length s) + 1)))"
  by pat_completeness auto
termination by (relation "measure (\<lambda>(k, p, args, used). 17 - length args)") auto

declare collect_args.simps [simp del]

definition sys_start :: "u32 \<Rightarrow> u32 \<Rightarrow> u32 \<Rightarrow> u32 \<Rightarrow> u32 \<Rightarrow> u8 \<Rightarrow> bool \<Rightarrow> 'a system_scheme \<Rightarrow> 'a reply" where
  "sys_start user_name user_argv std_in std_out std_err prio bg k =
    (case sys_copy_string user_name (of_nat MAX_PATH_LEN) k of
       None \<Rightarrow> None
     | Some (Inl e) \<Rightarrow> refuse k INVALID_PATH_ERROR
     | Some (Inr name) \<Rightarrow>
         (case task_find_program name k of
            (k, None) \<Rightarrow> refuse k NOT_FOUND_ERROR
          | (k, Some path) \<Rightarrow>
              (case collect_args k user_argv [] 0 of
                 None \<Rightarrow> None
               | Some (Inl e) \<Rightarrow> refuse k e
               | Some (Inr argv) \<Rightarrow>
                   reply_sum (task_spawn path argv prio (if bg then 1 else 0) std_in std_out std_err k))))"

definition sys_spawn :: "u32 \<Rightarrow> u32 \<Rightarrow> u32 \<Rightarrow> 'a system_scheme \<Rightarrow> 'a reply" where
  "sys_spawn user_name user_argv io k =
    (if io = 0 then sys_start user_name user_argv 0 0 0 (priority (running_task k)) False k
     else if \<not> task_user_range_valid io 8 k then refuse k INVALID_ARG_ERROR
     else case user_load k io 8 of
            None \<Rightarrow> None
          | Some bs \<Rightarrow>
              (let std_in = task_fd_get (sint (get32 bs 0)) k; std_out = task_fd_get (sint (get32 bs 4)) k
               in if std_in = 0 \<or> std_out = 0 then refuse k INVALID_ARG_ERROR
                  else sys_start user_name user_argv std_in std_out 0 (priority (running_task k)) False k))"

text \<open>The handle for a descriptor in \<^verbatim>\<open>struct run_opts\<close>; \<open>None\<close>: it is not open.\<close>

definition opt_handle :: "int \<Rightarrow> 'a kernel_scheme \<Rightarrow> u32 option" where
  "opt_handle fd k = (if fd < 0 then Some 0 else if task_fd_get fd k = 0 then None else Some (task_fd_get fd k))"

definition sys_run :: "u32 \<Rightarrow> u32 \<Rightarrow> u32 \<Rightarrow> 'a system_scheme \<Rightarrow> 'a reply" where
  "sys_run user_name user_argv user_opts k =
    (if \<not> task_user_range_valid user_opts 20 k then refuse k INVALID_ARG_ERROR
     else case user_load k user_opts 20 of
            None \<Rightarrow> None
          | Some bs \<Rightarrow>
              (let prio = sint (get32 bs 8)
               in if prio < 1 \<or> prio > TASK_PRIORITY_USER_MAX then refuse k INVALID_ARG_ERROR
                  else case (opt_handle (sint (get32 bs 0)) k, opt_handle (sint (get32 bs 4)) k, opt_handle (sint (get32 bs 16)) k) of
                         (Some std_in, Some std_out, Some std_err) \<Rightarrow>
                           sys_start user_name user_argv std_in std_out std_err (word_of_int prio) (get32 bs 12 \<noteq> 0) k
                       | _ \<Rightarrow> refuse k INVALID_ARG_ERROR))"

section \<open>The working directory and the task list\<close>

definition sys_chdir :: "u32 \<Rightarrow> 'a system_scheme \<Rightarrow> 'a reply" where
  "sys_chdir user_path k =
    with_path user_path k (\<lambda>path.
      case listdir path 1 (files k) of
        (Inl e, v) \<Rightarrow> refuse (k\<lparr>files := v\<rparr>) e
      | (Inr ds, v) \<Rightarrow> reply (task_set_cwd path (k\<lparr>files := v\<rparr>)) 0)"

definition sys_getcwd :: "u32 \<Rightarrow> u32 \<Rightarrow> 'a system_scheme \<Rightarrow> 'a reply" where
  "sys_getcwd buf len k =
    (if \<not> task_user_range_valid buf len k \<or> length (task_cwd k) + 1 > unat len then refuse k INVALID_ARG_ERROR
     else reply_bytes k buf (task_cwd k @ [0]) (int (length (task_cwd k))))"

definition padded :: "nat \<Rightarrow> bytes \<Rightarrow> bytes" where
  "padded n s = s @ replicate (n - length s) 0"

definition task_info_bytes :: "task_info \<Rightarrow> bytes" where
  "task_info_bytes t =
    word_bytes (word_of_int (ti_pid t)) @ padded 16 (ti_name t) @ padded 16 (ti_state t)
    @ [ti_priority t, if ti_background t then 1 else 0, if ti_is_kernel t then 1 else 0, 0]
    @ word_bytes (ti_cpu_ms t) @ word_bytes (ti_period_ms t) @ word_bytes (ti_jobs t)
    @ word_bytes (ti_deadline_misses t) @ word_bytes (word_of_int (ti_parent t))"

definition sys_tasks :: "u32 \<Rightarrow> u32 \<Rightarrow> 'a system_scheme \<Rightarrow> 'a reply" where
  "sys_tasks out mx k =
    (if sint mx < 0 \<or> \<not> task_user_range_valid out (mx * 60) k then refuse k INVALID_ARG_ERROR
     else let ts = task_list (sint mx) k in reply_bytes k out (concat (map task_info_bytes ts)) (int (length ts)))"

section \<open>The scheduler\<close>

definition policy_of :: "int \<Rightarrow> sched_policy option" where
  "policy_of n = (if n = 0 then Some SCHED_ROUND_ROBIN else if n = 1 then Some SCHED_REAL_TIME else if n = 2 then Some SCHED_EDF else None)"

fun policy_no :: "sched_policy \<Rightarrow> int" where
  "policy_no SCHED_ROUND_ROBIN = 0"
| "policy_no SCHED_REAL_TIME = 1"
| "policy_no SCHED_EDF = 2"

definition sys_sched :: "int \<Rightarrow> 'a system_scheme \<Rightarrow> 'a reply" where
  "sys_sched policy k =
    (case policy_of policy of
       Some p \<Rightarrow> reply (sched_set_policy p k) (policy_no (sched_get_policy (sched_set_policy p k)))
     | None \<Rightarrow> if policy \<noteq> - 1 then refuse k INVALID_ARG_ERROR else reply k (policy_no (sched_get_policy k)))"

definition sys_setprio :: "int \<Rightarrow> int \<Rightarrow> 'a system_scheme \<Rightarrow> 'a reply" where
  "sys_setprio p prio k =
    (if prio < 1 \<or> prio > TASK_PRIORITY_USER_MAX then refuse k INVALID_ARG_ERROR
     else reply_unit (task_set_priority p (word_of_int prio) k))"

section \<open>The screen\<close>

definition sys_getcursor :: "u32 \<Rightarrow> 'a system_scheme \<Rightarrow> 'a reply" where
  "sys_getcursor out k =
    (if \<not> task_user_range_valid out 12 k then refuse k INVALID_ARG_ERROR
     else case terminal_get_cursor (screen k) of (row, column) \<Rightarrow>
            reply_bytes k out (word_bytes (of_nat row) @ word_bytes (of_nat column) @ word_bytes (t_scrolls (screen k))) 0)"

definition sys_setcursor :: "u32 \<Rightarrow> u32 \<Rightarrow> 'a system_scheme \<Rightarrow> 'a reply" where
  "sys_setcursor row column k =
    (if row \<ge> of_nat VGA_HEIGHT \<or> column \<ge> of_nat VGA_WIDTH then refuse k INVALID_ARG_ERROR
     else reply (k\<lparr>screen := terminal_set_cursor (unat row) (unat column) (screen k)\<rparr>) 0)"

definition vga_gfx_enter :: "u8 \<Rightarrow> 'a system_scheme \<Rightarrow> 'a system_scheme" where
  "vga_gfx_enter mode k =
    (if mode = active (gfx_card k) then k
     else k\<lparr>screen := (if active (gfx_card k) = VGA_MODE_TEXT then terminal_hide (screen k) else screen k),
            gfx_card := gfx_enter mode (gfx_card k)\<rparr>)"

definition sys_gfx_mode :: "u32 \<Rightarrow> 'a system_scheme \<Rightarrow> 'a reply" where
  "sys_gfx_mode mode k =
    (if (active (gfx_card k) \<noteq> 0 \<and> \<not> owns_screen (running_task k)) \<or> mode > 2 then refuse k INVALID_ARG_ERROR
     else if mode \<noteq> 0 then reply (vga_gfx_enter (ucast mode) (upd_running (owns_screen_update (\<lambda>_. True)) k)) 0
     else reply (vga_gfx_leave (upd_running (owns_screen_update (\<lambda>_. False)) k)) 0)"

definition sys_gfx_palette :: "u32 \<Rightarrow> u32 \<Rightarrow> u32 \<Rightarrow> 'a system_scheme \<Rightarrow> 'a reply" where
  "sys_gfx_palette rgb first n k =
    (if \<not> owns_screen (running_task k) \<or> active (gfx_card k) \<noteq> VGA_MODE_256 \<or> first > 255 \<or> n > 256 - first
        \<or> \<not> task_user_range_valid rgb (n * 3) k then refuse k INVALID_ARG_ERROR
     else case user_load k rgb (3 * unat n) of
            None \<Rightarrow> None
          | Some bs \<Rightarrow> reply (k\<lparr>gfx_card := vga_gfx_set_palette bs (unat first) (unat n) (gfx_card k)\<rparr>) 0)"

definition sys_gfx_blit :: "u32 \<Rightarrow> 'a system_scheme \<Rightarrow> 'a reply" where
  "sys_gfx_blit pixels k =
    (if \<not> owns_screen (running_task k) \<or> \<not> task_user_range_valid pixels (vga_gfx_frame_size (gfx_card k)) k
     then refuse k INVALID_ARG_ERROR
     else case user_load k pixels (unat (vga_gfx_frame_size (gfx_card k))) of
            None \<Rightarrow> None
          | Some bs \<Rightarrow> reply (k\<lparr>gfx_card := vga_gfx_blit bs (gfx_card k)\<rparr>) 0)"

section \<open>The rest\<close>

definition sys_sysinfo :: "u32 \<Rightarrow> 'a system_scheme \<Rightarrow> 'a reply" where
  "sys_sysinfo out k =
    (if \<not> task_user_range_valid out 28 k then refuse k INVALID_ARG_ERROR
     else let st = heap_stats (heap k)
          in reply_bytes k out (concat (map word_bytes
               [of_nat (used_blocks st) * 4, of_nat (total_blocks st) * 4, of_nat (used_blocks st), of_nat (total_blocks st),
                pit_uptime_ms k, ticks k, 100])) 0)"

definition sys_mutex_open :: "u32 \<Rightarrow> u32 \<Rightarrow> 'a system_scheme \<Rightarrow> 'a reply" where
  "sys_mutex_open user_name flags k =
    (case sys_copy_string user_name (of_nat MUTEX_NAME_LEN - 1) k of
       None \<Rightarrow> None
     | Some (Inl e) \<Rightarrow> refuse k INVALID_ARG_ERROR
     | Some (Inr name) \<Rightarrow>
         (case mutex_open name flags k of (k, Inl e) \<Rightarrow> refuse k e | (k, Inr i) \<Rightarrow> reply k (int i)))"

definition half_bytes :: "u16 \<Rightarrow> bytes" where
  "half_bytes w = put16 0 w [0, 0]"

definition sys_mouse_event :: "u32 \<Rightarrow> u32 \<Rightarrow> 'a system_scheme \<Rightarrow> 'a reply" where
  "sys_mouse_event out flush k =
    (if flush \<noteq> 0 then reply (k\<lparr>mouse_dev := mouse_flush_events (mouse_dev k)\<rparr>) (- 1)
     else if \<not> foreground (running_task k) \<or> \<not> task_user_range_valid out 8 k then reply k (- 1)
     else case mouse_get_event (mouse_dev k) of
            (None, m) \<Rightarrow> reply k (- 1)
          | (Some e, m) \<Rightarrow>
              reply_bytes (k\<lparr>mouse_dev := m\<rparr>) out
                (half_bytes (me_dx e) @ half_bytes (me_dy e) @ [me_buttons e, me_absolute e, 0, 0]) 0)"

definition sys_isatty :: "int \<Rightarrow> 'a system_scheme \<Rightarrow> int" where
  "sys_isatty fd k = (let h = task_fd_get fd k in if h \<noteq> 0 \<and> h_type (handle_at k h) = HANDLE_TERMINAL then 1 else 0)"

definition sys_time :: "rtc_time \<Rightarrow> u32 \<Rightarrow> 'a system_scheme \<Rightarrow> 'a reply" where
  "sys_time now out k =
    (if \<not> task_user_range_valid out 8 k then refuse k INVALID_ARG_ERROR
     else reply_bytes k out (half_bytes (rt_year now) @ [rt_month now, rt_day now, rt_hour now, rt_minute now, rt_second now]) 0)"

definition sys_key_event :: "u32 \<Rightarrow> 'a system_scheme \<Rightarrow> 'a reply" where
  "sys_key_event flush k =
    (let k = (if flush \<noteq> 0 then k\<lparr>kbd := keyboard_flush_events (kbd k)\<rparr> else k)
     in if foreground (running_task k) \<and> flush = 0
        then (case keyboard_get_event (kbd k) of
                (None, kb) \<Rightarrow> reply k (- 1)
              | (Some e, kb) \<Rightarrow> reply (k\<lparr>kbd := kb\<rparr>) (uint e))
        else reply k (- 1))"

definition sys_pending :: "int \<Rightarrow> 'a system_scheme \<Rightarrow> 'a reply" where
  "sys_pending fd k =
    (let h = task_fd_get fd k in if h = 0 then refuse k INVALID_ARG_ERROR else reply k (handle_pending h k))"

definition sys_putchar :: "u32 \<Rightarrow> 'a system_scheme \<Rightarrow> 'a reply" where
  "sys_putchar c k =
    (let h = task_fd_get 1 k in if h = 0 then refuse k INVALID_ARG_ERROR else Some (handle_write h [ucast c] k))"

definition sys_getchar :: "'a system_scheme \<Rightarrow> 'a reply" where
  "sys_getchar k = (let h = task_fd_get 0 k in if h = 0 then reply k (- 1) else handle_getchar h k)"

section \<open>The dispatcher\<close>

record interrupt_frame =
  f_vector :: u32
  f_eax :: u32
  f_ebx :: u32
  f_ecx :: u32
  f_edx :: u32
  f_error :: u32
  f_eip :: u32
  f_cs :: u32

definition frame_from_user :: "interrupt_frame \<Rightarrow> bool" where
  "frame_from_user f \<longleftrightarrow> f_cs f AND 3 = 3"

text \<open>The calls 0 to 19 and 20 to 49 of \<^verbatim>\<open>syscall_handler\<close>. \<open>now\<close> is what the clock shows.\<close>

definition syscall_low :: "nat \<Rightarrow> u32 \<Rightarrow> u32 \<Rightarrow> u32 \<Rightarrow> 'a system_scheme \<Rightarrow> 'a reply" where
  "syscall_low n b c d k =
    (if n = 0 then map_option Switched (task_exit (sint b) k)
     else if n = 1 then sys_print b k
     else if n = 2 then sys_putchar b k
     else if n = 3 then sys_getchar k
     else if n = 4 then Some (task_sleep_ms b k)
     else if n = 5 then reply k (sint (pit_uptime_ms k))
     else if n = 6 then Some (task_sleep_until_tick (pit_ms_to_ticks b) 0 k)
     else if n = 7 then reply (sched_request_resched k) 0
     else if n = 8 then reply k (pid (running_task k))
     else if n = 9 then sys_open b c k
     else if n = 10 then sys_read (sint b) c d k
     else if n = 11 then sys_write (sint b) c d k
     else if n = 12 then reply_unit (task_fd_close (sint b) k)
     else if n = 13 then sys_filesize (sint b) k
     else if n = 14 then sys_listdir b c d k
     else if n = 15 then (case task_sbrk b k of (k, old) \<Rightarrow> reply k (sint old))
     else if n = 16 then sys_path_op b remove_file k
     else if n = 17 then sys_path_op b (mkdir (clock k)) k
     else if n = 18 then sys_seek (sint b) c d k
     else sys_pipe b k)"

definition wait_reply :: "('a system_scheme, error + int) outcome \<Rightarrow> 'a reply" where
  "wait_reply r = Some (map_outcome sum_code r)"

definition syscall_high :: "rtc_time \<Rightarrow> nat \<Rightarrow> u32 \<Rightarrow> u32 \<Rightarrow> u32 \<Rightarrow> 'a system_scheme \<Rightarrow> 'a reply" where
  "syscall_high now n b c d k =
    (if n = 20 then sys_spawn b c d k
     else if n = 21 then wait_reply (task_wait (sint b) k)
     else if n = 22 then reply k (sys_isatty (sint b) k)
     else if n = 23 then sys_time now b k
     else if n = 24 then sys_chdir b k
     else if n = 25 then sys_getcwd b c k
     else if n = 26 then sys_tasks b c k
     else if n = 27 then reply_unit (task_kill (sint b) k)
     else if n = 28 then sys_sched (sint b) k
     else if n = 29 then sys_setprio (sint b) (sint c) k
     else if n = 30 then sys_run b c d k
     else if n = 31 then reply (k\<lparr>screen := terminal_clean (screen k)\<rparr>) 0
     else if n = 32 then reply (k\<lparr>screen := terminal_setcolour (ucast (b AND 0x0F)) (screen k)\<rparr>) 0
     else if n = 33 then sys_getcursor b k
     else if n = 34 then sys_setcursor b c k
     else if n = 35 then sys_sysinfo b k
     else if n = 36 then reply k 0
     else if n = 37 then sys_mutex_open b c k
     else if n = 38 then wait_reply (mutex_lock (sint b) k)
     else if n = 39 then reply_sum (mutex_unlock (sint b) k)
     else if n = 40 then reply_sum (mutex_close (sint b) k)
     else if n = 41 then reply_unit (task_set_period b k)
     else if n = 42 then Some (task_wait_period k)
     else if n = 43 then sys_gfx_mode b k
     else if n = 44 then sys_gfx_palette b c d k
     else if n = 45 then sys_gfx_blit b k
     else if n = 46 then sys_key_event b k
     else if n = 47 then sys_mouse_event b c k
     else if n = 48 then reply (upd_running (is_shell_update (\<lambda>_. b \<noteq> 0)) k) 0
     else sys_pending (sint b) k)"

text \<open>The result goes to eax. A task that waits gets it when it goes on.\<close>

definition to_eax :: "interrupt_frame \<Rightarrow> 'a reply \<Rightarrow> ('a system_scheme, interrupt_frame) outcome option" where
  "to_eax f r = map_option (map_outcome (\<lambda>n. f\<lparr>f_eax := word_of_int n\<rparr>)) r"

definition syscall_handler ::
  "rtc_time \<Rightarrow> interrupt_frame \<Rightarrow> 'a system_scheme \<Rightarrow> ('a system_scheme, interrupt_frame) outcome option" where
  "syscall_handler now f k =
    to_eax f
      (if \<not> frame_from_user f then refuse k INVALID_ARG_ERROR
       else let n = unat (f_eax f)
            in if n < 20 then syscall_low n (f_ebx f) (f_ecx f) (f_edx f) k
               else if n < 50 then syscall_high now n (f_ebx f) (f_ecx f) (f_edx f) k
               else refuse k INVALID_ARG_ERROR)"

text \<open>A task goes on inside the call it waited in, first behind the switch in \<^verbatim>\<open>schedule\<close>. \<open>f\<close> is the frame on its
  kernel stack.\<close>

definition read_reply :: "interrupt_frame \<Rightarrow> ('a system_scheme, int \<times> bytes) outcome option \<Rightarrow> 'a reply" where
  "read_reply f r = (if f_eax f = 3 then map_option (map_outcome byte_result) r else finish_read (f_ecx f) r)"

definition call_resumed :: "interrupt_frame \<Rightarrow> 'a system_scheme \<Rightarrow> 'a reply" where
  "call_resumed f k =
      (case saved_ctx (running_task k) of
         Ctx_lock m \<Rightarrow> wait_reply (mutex_lock_resumed m k)
       | Ctx_pipe_read p len \<Rightarrow> read_reply f (Some (pipe_outcome (pipe_read_resumed p len k)))
       | Ctx_pipe_write p data n \<Rightarrow> Some (pipe_write_resumed p data n k)
       | Ctx_wait child p \<Rightarrow> wait_reply (wait_loop child p k)
       | Ctx_sleep tick r \<Rightarrow> Some (task_sleep_until_tick tick r k)
       | Ctx_key Key_getchar \<Rightarrow> Some (map_outcome key_result (task_wait_key Key_getchar k))
       | Ctx_key (Key_line len) \<Rightarrow> finish_read (f_ecx f) (terminal_read_rest len k)
       | _ \<Rightarrow> None)"

definition syscall_resumed :: "interrupt_frame \<Rightarrow> 'a system_scheme \<Rightarrow> ('a system_scheme, interrupt_frame) outcome option" where
  "syscall_resumed f k = to_eax f (call_resumed f (schedule_resumed k))"

section \<open>Interrupts\<close>

text \<open>\<^verbatim>\<open>interrupt_handler\<close> of \<^verbatim>\<open>src/kernel/idt/idt.c\<close>. The devices give the scancode and the mouse
  byte; \<open>names\<close> is the name of the exception, \<open>cr2\<close> the faulting address.\<close>

record device_input =
  in_scancode :: u8
  in_mouse :: u8
  in_vmmouse :: "(u32 \<times> backdoor) list"
  in_time :: rtc_time
  in_cr2 :: u32

definition exception_message :: "bytes \<Rightarrow> u32 \<Rightarrow> interrupt_frame \<Rightarrow> terminal \<Rightarrow> terminal" where
  "exception_message nm cr2 f t =
    (let t = the (printf (str ''%Cexception: %s'' @ [10] @ str ''vector: %d error code: %x eip: %x'')
               [Arg_word 4, Arg_string nm, Arg_word (f_vector f), Arg_word (f_error f), Arg_word (f_eip f)] t);
         t = (if f_vector f = 14 then the (printf (str '' address: %x'') [Arg_word cr2] t) else t)
     in the (printf ([10] @ str ''%C'') [Arg_word 15] t))"

definition irq_handler :: "u32 \<Rightarrow> device_input \<Rightarrow> 'a system_scheme \<Rightarrow> 'a system_scheme" where
  "irq_handler irq inp k =
    (if irq = 0 then sched_tick (pit_tick k)
     else if irq = 1 then
       (let (c, kb) = keyboard_take_ctrl_c (keyboard_handle_interrupt (in_scancode inp) (kbd k));
            k = k\<lparr>kbd := kb\<rparr>;
            k = (if c then task_kill_foreground k else k)
        in task_on_keyboard_input k)
     else if irq = 12 then k\<lparr>mouse_dev := mouse_handle_interrupt (in_mouse inp) (in_vmmouse inp) (mouse_dev k)\<rparr>
     else k)"

text \<open>The way back to ring 3, where a killed task ends and a task that used up its time gives way.\<close>

definition back_to_user ::
  "interrupt_frame \<Rightarrow> ('a system_scheme, interrupt_frame) outcome option \<Rightarrow> ('a system_scheme, interrupt_frame) outcome option" where
  "back_to_user f r =
    (case r of
       Some (Done k f') \<Rightarrow>
         if frame_from_user f then map_option (map_outcome (\<lambda>_. f')) (task_return_to_user k) else Some (Done k f')
     | _ \<Rightarrow> r)"

text \<open>The rest of \<^verbatim>\<open>interrupt_handler\<close> for a task that goes on after a switch: in its system call, or on the way
  back to ring 3.\<close>

definition interrupt_resumed ::
  "interrupt_frame \<Rightarrow> 'a system_scheme \<Rightarrow> ('a system_scheme, interrupt_frame) outcome option" where
  "interrupt_resumed f k =
    (if saved_ctx (running_task k) = Ctx_user then map_option (map_outcome (\<lambda>_. f)) (task_return_to_user_resumed k)
     else back_to_user f (syscall_resumed f k))"

definition interrupt_handler ::
  "bytes \<Rightarrow> device_input \<Rightarrow> interrupt_frame \<Rightarrow> 'a system_scheme \<Rightarrow> ('a system_scheme, interrupt_frame) outcome option" where
  "interrupt_handler nm inp f k =
    back_to_user f
      (if f_vector f = 0x80 then syscall_handler (in_time inp) f k
       else if f_vector f < 32 then
         (let k = k\<lparr>screen := exception_message nm (in_cr2 inp) f (screen k)\<rparr>
          in if frame_from_user f then map_option Switched (task_exit TASK_KILLED k) else None)
       else Some (Done (irq_handler (f_vector f - 32) inp k) f))"

end
