(* ===== verification/Descriptors.thy ===== *)
theory Descriptors
  imports Syscall
begin

text \<open>
  Who refers to a handle: the descriptors of the tasks. The invariant says that every handle
  counts its descriptors, that the ends of a pipe count their handles and that every open file
  belongs to one handle. \<open>X\<close> counts the references a call holds while it moves them, a call
  starts and ends without any.
\<close>

section \<open>Counting descriptors\<close>

definition fd_refs :: "'a kernel_scheme \<Rightarrow> u32 \<Rightarrow> int" where
  "fd_refs k h = (\<Sum>i<MAX_TASKS. int (count_list (fds (task_at k i)) h))"

definition fds_len :: "'a kernel_scheme \<Rightarrow> bool" where
  "fds_len k \<longleftrightarrow> tables_ok k \<and> (\<forall>i<MAX_TASKS. length (fds (task_at k i)) = TASK_MAX_FDS)"

lemma count_list_update:
  "j < length xs \<Longrightarrow> int (count_list (xs[j := v]) h)
     = int (count_list xs h) - (if xs ! j = h then 1 else 0) + (if v = h then 1 else 0)"
proof (induction xs arbitrary: j)
  case (Cons x xs)
  show ?case using Cons.prems Cons.IH [of "j - 1"] by (cases j) (auto split: if_splits)
qed simp

lemma sum_change:
  fixes f g :: "nat \<Rightarrow> int"
  assumes "i < n" "\<And>j. j \<noteq> i \<Longrightarrow> g j = f j"
  shows "sum g {..<n} = sum f {..<n} - f i + g i"
proof -
  have "sum g {..<n} = g i + sum g ({..<n} - {i})" "sum f {..<n} = f i + sum f ({..<n} - {i})"
    using assms(1) by (simp_all add: sum.remove)
  moreover have "sum g ({..<n} - {i}) = sum f ({..<n} - {i})" using assms(2) by (intro sum.cong) auto
  ultimately show ?thesis by simp
qed

lemma fds_len_at: "fds_len k \<Longrightarrow> i < MAX_TASKS \<Longrightarrow> i < length (task_table k) \<and> length (fds (task_at k i)) = TASK_MAX_FDS"
  by (simp add: fds_len_def tables_ok_def)

lemma fds_set_fd:
  "i < length (task_table k) \<Longrightarrow> fds (task_at (set_fd i fd h k) j) = (if j = i then (fds (task_at k i))[fd := h] else fds (task_at k j))"
  by (simp add: set_fd_def task_at_upd)

lemma fds_len_set_fd: "fds_len k \<Longrightarrow> i < MAX_TASKS \<Longrightarrow> fds_len (set_fd i fd h k)"
  using fds_len_at [of k i] by (auto simp: fds_len_def fds_set_fd) (simp add: set_fd_def)

lemma fd_refs_set_fd:
  assumes "fds_len k" "i < MAX_TASKS" "fd < TASK_MAX_FDS"
  shows "fd_refs (set_fd i fd new k) h
    = fd_refs k h - (if fds (task_at k i) ! fd = h then 1 else 0) + (if new = h then 1 else 0)"
proof -
  note L = fds_len_at [OF assms(1,2)]
  have "fd_refs (set_fd i fd new k) h = fd_refs k h - int (count_list (fds (task_at k i)) h)
      + int (count_list (fds (task_at (set_fd i fd new k) i)) h)"
    unfolding fd_refs_def using L assms(2) by (intro sum_change) (simp_all add: fds_set_fd)
  then show ?thesis using L assms(3) by (simp add: fds_set_fd count_list_update)
qed

section \<open>The invariant\<close>

definition heap_inv :: "'a kernel_scheme \<Rightarrow> bool" where
  "heap_inv k \<longleftrightarrow> heap_ok (heap k) \<and> aligned (h_addr (heap k))
    \<and> backed (\<lambda>p. live (heap k) p \<noteq> None) (handles k) \<and> backed (\<lambda>p. live (heap k) p \<noteq> None) (pipes k)
    \<and> dom (handles k) \<inter> dom (pipes k) = {}"

definition ref_ok :: "int \<Rightarrow> handle option \<Rightarrow> bool" where
  "ref_ok n ho = (case ho of None \<Rightarrow> n = 0 | Some x \<Rightarrow> h_refs x = n \<and> 0 < n)"

lemma ref_ok_simps [simp]: "ref_ok n None \<longleftrightarrow> n = 0" "ref_ok n (Some x) \<longleftrightarrow> h_refs x = n \<and> 0 < n"
  by (simp_all add: ref_ok_def)

definition refs_inv :: "(u32 \<Rightarrow> int) \<Rightarrow> 'a kernel_scheme \<Rightarrow> bool" where
  "refs_inv X k \<longleftrightarrow> (\<forall>h. h \<noteq> 0 \<and> h \<noteq> handle_terminal \<longrightarrow> ref_ok (fd_refs k h + X h) (handles k h))"

text \<open>The handles for one end of a pipe: one while the end is open, none afterwards.\<close>

definition pipe_ends :: "'a kernel_scheme \<Rightarrow> handle_type \<Rightarrow> u32 \<Rightarrow> u32 set" where
  "pipe_ends k ty p = {h. \<exists>x. handles k h = Some x \<and> h_type x = ty \<and> h_pipe x = p}"

definition end_ok :: "u32 \<Rightarrow> u32 set \<Rightarrow> bool" where
  "end_ok n S \<longleftrightarrow> (n = 0 \<and> S = {}) \<or> (n = 1 \<and> (\<exists>h. S = {h}))"

definition is_end :: "handle_type \<Rightarrow> bool" where
  "is_end ty \<longleftrightarrow> ty = HANDLE_PIPE_READ \<or> ty = HANDLE_PIPE_WRITE"

definition end_refs :: "handle_type \<Rightarrow> pipe \<Rightarrow> u32" where
  "end_refs ty y = (if ty = HANDLE_PIPE_READ then readers y else writers y)"

definition other_end :: "handle_type \<Rightarrow> handle_type" where
  "other_end ty = (if ty = HANDLE_PIPE_READ then HANDLE_PIPE_WRITE else HANDLE_PIPE_READ)"

definition ends_inv :: "'a kernel_scheme \<Rightarrow> bool" where
  "ends_inv k \<longleftrightarrow>
    (\<forall>h x. handles k h = Some x \<longrightarrow> h_type x \<noteq> HANDLE_TERMINAL \<and> (is_end (h_type x) \<longrightarrow> pipes k (h_pipe x) \<noteq> None))
    \<and> (\<forall>p y. pipes k p = Some y \<longrightarrow> (\<forall>ty. is_end ty \<longrightarrow> end_ok (end_refs ty y) (pipe_ends k ty p)) \<and> (readers y \<noteq> 0 \<or> writers y \<noteq> 0))"

lemma ends_invD:
  assumes "ends_inv k"
  shows "handles k h = Some x \<Longrightarrow> h_type x \<noteq> HANDLE_TERMINAL"
    "handles k h = Some x \<Longrightarrow> is_end (h_type x) \<Longrightarrow> \<exists>y. pipes k (h_pipe x) = Some y"
    "pipes k p = Some y \<Longrightarrow> is_end ty \<Longrightarrow> end_ok (end_refs ty y) (pipe_ends k ty p)"
    "pipes k p = Some y \<Longrightarrow> readers y \<noteq> 0 \<or> writers y \<noteq> 0"
  using assms unfolding ends_inv_def by blast+

lemma ends_invI:
  assumes "\<And>h x. handles k h = Some x \<Longrightarrow> h_type x \<noteq> HANDLE_TERMINAL"
    "\<And>h x. handles k h = Some x \<Longrightarrow> is_end (h_type x) \<Longrightarrow> pipes k (h_pipe x) \<noteq> None"
    "\<And>p y ty. pipes k p = Some y \<Longrightarrow> is_end ty \<Longrightarrow> end_ok (end_refs ty y) (pipe_ends k ty p)"
    "\<And>p y. pipes k p = Some y \<Longrightarrow> readers y \<noteq> 0 \<or> writers y \<noteq> 0"
  shows "ends_inv k"
  using assms unfolding ends_inv_def by blast

lemma end_simps [simp]:
  "is_end HANDLE_PIPE_READ" "is_end HANDLE_PIPE_WRITE" "\<not> is_end HANDLE_FILE" "\<not> is_end HANDLE_TERMINAL"
  "is_end ty \<Longrightarrow> is_end (other_end ty)" "is_end ty \<Longrightarrow> other_end ty \<noteq> ty"
  by (simp_all add: is_end_def other_end_def)

lemma end_cases: "is_end a \<Longrightarrow> is_end b \<Longrightarrow> a = b \<or> a = other_end b"
  by (auto simp: is_end_def other_end_def)

lemma ends_none: "is_end ty \<Longrightarrow> readers y \<noteq> 0 \<or> writers y \<noteq> 0 \<longleftrightarrow> end_refs ty y \<noteq> 0 \<or> end_refs (other_end ty) y \<noteq> 0"
  by (auto simp: is_end_def other_end_def end_refs_def)

definition files_inv :: "'a system_scheme \<Rightarrow> bool" where
  "files_inv k \<longleftrightarrow> vfs_ok (files k)
    \<and> (\<forall>h x. handles k h = Some x \<and> h_type x = HANDLE_FILE \<longrightarrow> open_file (files k) (file_fd x))
    \<and> (\<forall>h x h' x'. handles k h = Some x \<and> h_type x = HANDLE_FILE \<and> handles k h' = Some x' \<and> h_type x' = HANDLE_FILE
        \<and> file_fd x = file_fd x' \<longrightarrow> h = h')"

definition handles_inv :: "(u32 \<Rightarrow> int) \<Rightarrow> 'a system_scheme \<Rightarrow> bool" where
  "handles_inv X k \<longleftrightarrow> fds_len k \<and> heap_inv k \<and> refs_inv X k \<and> ends_inv k \<and> files_inv k"

lemma handles_invD:
  assumes "handles_inv X k"
  shows "fds_len k" "heap_inv k" "ends_inv k" "files_inv k" "tables_ok k"
    "\<And>h. h \<noteq> 0 \<Longrightarrow> h \<noteq> handle_terminal \<Longrightarrow> ref_ok (fd_refs k h + X h) (handles k h)"
  using assms by (auto simp: handles_inv_def refs_inv_def fds_len_def)

lemma refs_invI: "(\<And>h. h \<noteq> 0 \<Longrightarrow> h \<noteq> handle_terminal \<Longrightarrow> ref_ok (fd_refs k h + X h) (handles k h)) \<Longrightarrow> refs_inv X k"
  by (simp add: refs_inv_def)

lemma heap_inv_cong: "heap k' = heap k \<Longrightarrow> handles k' = handles k \<Longrightarrow> pipes k' = pipes k \<Longrightarrow> heap_inv k' = heap_inv k"
  by (simp add: heap_inv_def)

lemma ends_inv_cong: "handles k' = handles k \<Longrightarrow> pipes k' = pipes k \<Longrightarrow> ends_inv k' = ends_inv k"
  by (simp add: ends_inv_def pipe_ends_def)

lemma files_inv_cong: "handles k' = handles k \<Longrightarrow> files k' = files k \<Longrightarrow> files_inv k' = files_inv k"
  by (simp add: files_inv_def)

lemma inv_null: "heap_inv k \<Longrightarrow> handles k 0 = None" "heap_inv k \<Longrightarrow> handles k handle_terminal = None"
proof -
  assume h: "heap_inv k"
  then have b: "heap_ok (heap k)" "backed (\<lambda>p. live (heap k) p \<noteq> None) (handles k)" "aligned (h_addr (heap k))"
    by (simp_all add: heap_inv_def)
  show "handles k 0 = None" using kheap.backed_null [OF b(1,2)] .
  have "\<not> aligned handle_terminal" by (simp add: aligned_def handle_terminal_def)
  then have "live (heap k) handle_terminal = None" using page_aligned [OF b(1) b(3)] by blast
  then show "handles k handle_terminal = None" using backed_None [OF b(2)] by auto
qed

text \<open>What a state change has to keep for the invariant to stay.\<close>

lemma handles_inv_cong:
  assumes "handles_inv X k" "tables_ok k'" "\<And>i. i < MAX_TASKS \<Longrightarrow> fds (task_at k' i) = fds (task_at k i)"
    and "heap k' = heap k" "handles k' = handles k" "pipes k' = pipes k" "files k' = files k"
  shows "handles_inv X k'"
proof -
  have "fd_refs k' = fd_refs k" using assms(3) by (simp add: fd_refs_def fun_eq_iff)
  then show ?thesis
    using assms handles_invD [OF assms(1)] heap_inv_cong [OF assms(4,5,6)] ends_inv_cong [OF assms(5,6)] files_inv_cong [OF assms(5,7)]
    by (simp add: handles_inv_def fds_len_def refs_inv_def)
qed

lemma set_fd_simps [simp]:
  "heap (set_fd i fd h k) = heap k" "handles (set_fd i fd h k) = handles k" "pipes (set_fd i fd h k) = pipes k"
  "task_running (set_fd i fd h k) = task_running k" "kernel.more (set_fd i fd h k) = kernel.more k"
  by (simp_all add: set_fd_def)

lemma files_more: "kernel.more k' = kernel.more k \<Longrightarrow> files k' = files (k :: 'a system_scheme)"
  by (cases k; cases k') simp

lemma set_fd_ok:
  assumes inv: "handles_inv X k" and i: "i < MAX_TASKS" "fd < TASK_MAX_FDS" "fds (task_at k i) ! fd = old"
    and X: "\<And>h. h \<noteq> 0 \<Longrightarrow> h \<noteq> handle_terminal \<Longrightarrow> X' h = X h + (if old = h then 1 else 0) - (if new = h then 1 else 0)"
  shows "handles_inv X' (set_fd i fd new k)"
proof -
  let ?k = "set_fd i fd new k"
  note I = handles_invD [OF inv]
  have f: "files ?k = files k" by (rule files_more) simp
  have "refs_inv X' ?k"
  proof (rule refs_invI)
    fix h :: u32
    assume h: "h \<noteq> 0" "h \<noteq> handle_terminal"
    show "ref_ok (fd_refs ?k h + X' h) (handles ?k h)"
      using I(6) [OF h] X [OF h] fd_refs_set_fd [OF I(1) i(1,2), of new h] i(3) by (simp split: if_splits)
  qed
  then show ?thesis
    using I fds_len_set_fd [OF I(1) i(1)] heap_inv_cong [of ?k k] ends_inv_cong [of ?k k] files_inv_cong [of ?k k]
    by (simp add: handles_inv_def f)
qed

section \<open>New handles\<close>

lemma malloc_facts:
  assumes "heap_inv k" "heap_malloc (heap k) n = (h, p)" "p \<noteq> 0"
  shows "handles k p = None" "pipes k p = None" "p \<noteq> handle_terminal"
    "heap_inv (k\<lparr>heap := h, handles := (handles k)(p \<mapsto> x)\<rparr>)"
    "heap_inv (k\<lparr>heap := h, pipes := (pipes k)(p \<mapsto> y)\<rparr>)"
proof -
  have ok: "heap_ok (heap k)" "aligned (h_addr (heap k))"
    "backed (\<lambda>p. live (heap k) p \<noteq> None) (handles k)" "backed (\<lambda>p. live (heap k) p \<noteq> None) (pipes k)"
    "dom (handles k) \<inter> dom (pipes k) = {}"
    using assms(1) by (simp_all add: heap_inv_def)
  note R = heap_malloc_live [OF ok(1) assms(2,3)]
  show f: "handles k p = None" "pipes k p = None"
    using kheap.alloc_fresh [OF ok(1) ok(3) assms(2,3)] kheap.alloc_fresh [OF ok(1) ok(4) assms(2,3)] by auto
  have "live h p \<noteq> None" "heap_ok h" "aligned (h_addr h)" using R ok(2) by auto
  then have "aligned p" using page_aligned by blast
  then show "p \<noteq> handle_terminal" by (auto simp: aligned_def handle_terminal_def)
  show "heap_inv (k\<lparr>heap := h, handles := (handles k)(p \<mapsto> x)\<rparr>)"
    "heap_inv (k\<lparr>heap := h, pipes := (pipes k)(p \<mapsto> y)\<rparr>)"
    using R ok f kheap.alloc_backed_new [OF ok(1) ok(3) assms(2,3)] kheap.alloc_backed_new [OF ok(1) ok(4) assms(2,3)]
      kheap.alloc_keeps_backed [OF ok(1) ok(3) assms(2)] kheap.alloc_keeps_backed [OF ok(1) ok(4) assms(2)]
    by (auto simp: heap_inv_def)
qed

lemma fd_refs_cong: "task_table k' = task_table k \<Longrightarrow> fd_refs k' = fd_refs k"
  by (simp add: fd_refs_def fun_eq_iff)

lemma fds_len_cong:
  "task_table k' = task_table k \<Longrightarrow> tables_ok k' \<Longrightarrow> fds_len k \<Longrightarrow> fds_len k'"
  by (simp add: fds_len_def)

lemma handle_new_cases:
  assumes inv: "heap_inv k" and n: "handle_new ty k = (k', h)"
  obtains "h = 0" "k' = k"
  | hp where "h \<noteq> 0" "h \<noteq> handle_terminal" "handles k h = None" "pipes k h = None"
      "k' = k\<lparr>heap := hp, handles := (handles k)(h \<mapsto> \<lparr>h_type = ty, h_refs = 1, file_fd = 0, h_pipe = 0\<rparr>)\<rparr>"
      "\<And>x. heap_inv (k\<lparr>heap := hp, handles := (handles k)(h \<mapsto> x)\<rparr>)"
proof -
  obtain hp p where m: "heap_malloc (heap k) 16 = (hp, p)" by fastforce
  show ?thesis
  proof (cases "p = 0")
    case True
    then have "hp = heap k" using m inv kheap.alloc_null [of "heap k" 16 hp] by (simp add: heap_inv_def)
    then show ?thesis using that(1) n m True by (simp add: handle_new_def)
  next
    case False
    then show ?thesis
      using that(2) [of hp] n m malloc_facts [OF inv m False] by (auto simp: handle_new_def set_handle_def)
  qed
qed

lemma new_file_ok:
  assumes inv: "handles_inv X k" and n: "handle_new_file fd k = (k', h)"
    and fd: "open_file (files k) fd" "\<And>h x. handles k h = Some x \<Longrightarrow> h_type x = HANDLE_FILE \<Longrightarrow> file_fd x \<noteq> fd"
  shows "h = 0 \<and> k' = k \<or> h \<noteq> 0 \<and> h \<noteq> handle_terminal \<and> handles_inv (X(h := X h + 1)) k' \<and> handles k' h \<noteq> None
    \<and> files k' = files k \<and> task_table k' = task_table k"
proof -
  note I = handles_invD [OF inv]
  have hi: "heap_inv k" by (rule I(2))
  obtain k1 where n1: "handle_new HANDLE_FILE k = (k1, h)" and k': "k' = (if h = 0 then k1 else set_handle h ((handle_at k1 h)\<lparr>file_fd := fd\<rparr>) k1)"
    using n by (auto simp: handle_new_file_def split: prod.splits if_splits)
  from hi n1 show ?thesis
  proof (cases rule: handle_new_cases)
    case 1
    then show ?thesis using k' by simp
  next
    case (2 hp)
    let ?x = "\<lparr>h_type = HANDLE_FILE, h_refs = 1, file_fd = fd, h_pipe = 0\<rparr>"
    have e: "k' = k\<lparr>heap := hp, handles := (handles k)(h \<mapsto> ?x)\<rparr>"
      using 2 k' by (simp add: set_handle_def handle_at_def)
    have r: "fd_refs k h + X h = 0" using handles_invD(6) [OF inv 2(1,2)] 2(3) by simp
    have f: "fd_refs k' = fd_refs k" by (rule fd_refs_cong) (simp add: e)
    have 3: "refs_inv (X(h := X h + 1)) k'"
      using handles_invD(6) [OF inv] r by (intro refs_invI) (simp only: f, simp add: e)
    have E: "pipe_ends k' ty p = pipe_ends k ty p" if "is_end ty" for ty p
      using 2(3) that by (auto simp: pipe_ends_def e)
    have "ends_inv k'"
    proof (rule ends_invI)
      show "end_ok (end_refs ty y) (pipe_ends k' ty p)" if "pipes k' p = Some y" "is_end ty" for p y ty
        using that ends_invD(3) [OF I(3)] E by (simp add: e)
    qed (use ends_invD [OF I(3)] in \<open>auto simp: e split: if_splits\<close>)
    moreover have "files_inv k'" using inv fd 2(3) unfolding handles_inv_def files_inv_def by (auto simp: e)
    moreover have "fds_len k'" using inv by (intro fds_len_cong [of k' k]) (auto simp: e handles_inv_def fds_len_def tables_ok_def)
    moreover have "heap_inv k'" using 2(6) [of ?x] by (simp add: e)
    ultimately show ?thesis using 2(1,2) 3 by (auto simp: handles_inv_def e)
  qed
qed

lemma handle_ref_ok:
  assumes inv: "handles_inv X k" and h: "h = handle_terminal \<or> handles k h \<noteq> None"
  shows "handles_inv (X(h := X h + 1)) (handle_ref h k)"
proof (cases "h = handle_terminal")
  case True
  then show ?thesis using inv by (simp add: handle_ref_def handles_inv_def refs_inv_def)
next
  case False
  then obtain x where x: "handles k h = Some x" using h by auto
  let ?k = "handle_ref h k"
  have e: "?k = k\<lparr>handles := (handles k)(h \<mapsto> x\<lparr>h_refs := h_refs x + 1\<rparr>)\<rparr>"
    using False x by (simp add: handle_ref_def set_handle_def handle_at_def)
  have f: "fd_refs ?k = fd_refs k" by (rule fd_refs_cong) (simp add: e)
  have n0: "h \<noteq> 0" using inv_null(1) [OF handles_invD(2) [OF inv]] x by auto
  have "refs_inv (X(h := X h + 1)) ?k"
    using handles_invD(6) [OF inv] handles_invD(6) [OF inv n0 False] x by (intro refs_invI) (simp only: f, simp add: e)
  moreover have "pipe_ends ?k = pipe_ends k" using x by (intro ext) (auto simp: pipe_ends_def e)
  then have "ends_inv ?k" using inv x unfolding handles_inv_def ends_inv_def by (auto simp: e)
  moreover have "files_inv ?k" using inv x unfolding handles_inv_def files_inv_def by (auto simp: e)
  moreover have "fds_len ?k" using inv by (intro fds_len_cong [of ?k k]) (auto simp: e handles_inv_def fds_len_def tables_ok_def)
  moreover have "heap_inv ?k" using inv x by (auto simp: e handles_inv_def heap_inv_def backed_def)
  ultimately show ?thesis by (simp add: handles_inv_def)
qed

section \<open>Releasing\<close>

lemma kfree_addr [simp]: "h_addr (kfree h p) = h_addr h"
  by (simp add: kfree_def heap_free_def heap_free_blocks_def Let_def)

lemma free_inv:
  assumes "heap_inv k"
  shows "pipes k h = None \<Longrightarrow> heap_inv (free_handle h k)" "handles k h = None \<Longrightarrow> heap_inv (free_pipe h k)"
  using assms kfree_ok [of "heap k" h] kheap.release_removed [of "heap k" "handles k" h]
    kheap.release_removed [of "heap k" "pipes k" h] kheap.release_backed [of "heap k" "handles k" h]
    kheap.release_backed [of "heap k" "pipes k" h]
  by (auto simp: heap_inv_def free_handle_def free_pipe_def)

lemma free_simps [simp]:
  "task_table (free_handle h k) = task_table k" "task_table (free_pipe h k) = task_table k"
  "handles (free_handle h k) = (handles k)(h := None)" "handles (free_pipe h k) = handles k"
  "pipes (free_handle h k) = pipes k" "pipes (free_pipe h k) = (pipes k)(h := None)"
  "kernel.more (free_handle h k) = kernel.more k" "kernel.more (free_pipe h k) = kernel.more k"
  "tables_ok (free_handle h k) = tables_ok k" "tables_ok (free_pipe h k) = tables_ok k"
  by (simp_all add: free_handle_def free_pipe_def tables_ok_def)

lemma set_handle_simps [simp]:
  "task_table (set_handle h x k) = task_table k" "handles (set_handle h x k) = (handles k)(h \<mapsto> x)"
  "pipes (set_handle h x k) = pipes k" "kernel.more (set_handle h x k) = kernel.more k"
  "tables_ok (set_handle h x k) = tables_ok k" "heap (set_handle h x k) = heap k"
  by (simp_all add: set_handle_def tables_ok_def)

lemma set_handle_inv: "heap_inv k \<Longrightarrow> handles k h \<noteq> None \<Longrightarrow> heap_inv (set_handle h x k)"
  by (auto simp: heap_inv_def backed_def)

text \<open>The invariant from its parts, for an operation that leaves the descriptors alone.\<close>

lemma handles_inv_step:
  assumes "handles_inv X k" "tables_ok k'" "\<And>i. i < MAX_TASKS \<Longrightarrow> fds (task_at k' i) = fds (task_at k i)"
    and "heap_inv k'" "ends_inv k'" "files_inv k'"
    and "\<And>h. h \<noteq> 0 \<Longrightarrow> h \<noteq> handle_terminal \<Longrightarrow> ref_ok (fd_refs k h + X h) (handles k h) \<Longrightarrow> ref_ok (fd_refs k h + X' h) (handles k' h)"
  shows "handles_inv X' k'"
proof -
  have "fd_refs k' = fd_refs k" using assms(3) by (simp add: fd_refs_def fun_eq_iff)
  then show ?thesis using assms handles_invD(1,6) [OF assms(1)] by (simp add: handles_inv_def refs_inv_def fds_len_def)
qed

lemma pipe_new_cases:
  assumes inv: "heap_inv k" and n: "pipe_new k = (k', p)"
  obtains "p = 0" "k' = k"
  | hp where "p \<noteq> 0" "p \<noteq> handle_terminal" "handles k p = None" "pipes k p = None"
      "k' = k\<lparr>heap := hp, pipes := (pipes k)(p \<mapsto> \<lparr>buffer = replicate PIPE_SIZE 0, head = 0, count = 0, readers = 1, writers = 1\<rparr>)\<rparr>"
      "heap_inv k'"
proof -
  obtain hp q where m: "heap_malloc (heap k) 4112 = (hp, q)" by fastforce
  show ?thesis
  proof (cases "q = 0")
    case True
    then have "hp = heap k" using m inv kheap.alloc_null [of "heap k" 4112 hp] by (simp add: heap_inv_def)
    then show ?thesis using that(1) n m True by (simp add: pipe_new_def)
  next
    case False
    then show ?thesis
      using that(2) [of hp] n m malloc_facts [OF inv m False] by (auto simp: pipe_new_def set_pipe_def)
  qed
qed

lemma handle_new_facts:
  assumes "heap_inv k" "handle_new ty k = (k', h)"
  shows "heap_inv k'" "pipes k' = pipes k" "task_table k' = task_table k" "kernel.more k' = kernel.more k"
    "tables_ok k' = tables_ok k" "handles k h = None" "h \<noteq> handle_terminal"
    "h \<noteq> 0 \<Longrightarrow> pipes k h = None"
    "handles k' = (if h = 0 then handles k else (handles k)(h \<mapsto> \<lparr>h_type = ty, h_refs = 1, file_fd = 0, h_pipe = 0\<rparr>))"
  using assms inv_null [OF assms(1)] by (cases rule: handle_new_cases; auto simp: tables_ok_def handle_terminal_def)+

lemma pipe_new_facts:
  assumes "heap_inv k" "pipe_new k = (k', p)"
  shows "heap_inv k'" "handles k' = handles k" "task_table k' = task_table k" "kernel.more k' = kernel.more k"
    "tables_ok k' = tables_ok k" "pipes k p = None" "p \<noteq> 0 \<Longrightarrow> handles k p = None"
    "pipes k' = (if p = 0 then pipes k
       else (pipes k)(p \<mapsto> \<lparr>buffer = replicate PIPE_SIZE 0, head = 0, count = 0, readers = 1, writers = 1\<rparr>))"
  using assms kheap.backed_null [of "heap k" "pipes k"]
  by (cases rule: pipe_new_cases; auto simp: tables_ok_def handle_terminal_def heap_inv_def)+

section \<open>A new pipe\<close>

lemma end_ok_simps [simp]: "end_ok 0 S \<longleftrightarrow> S = {}" "end_ok 1 {h}"
  by (auto simp: end_ok_def)

lemma no_pipe_no_ends: "ends_inv k \<Longrightarrow> pipes k p = None \<Longrightarrow> is_end ty \<Longrightarrow> pipe_ends k ty p = {}"
  using ends_invD(2) [of k] by (fastforce simp: pipe_ends_def)

lemma new_pipe_ends:
  assumes e: "ends_inv k" and p: "pipes k p = None" and r: "handles k r = None" "handles k w = None" "r \<noteq> w"
    and h': "handles k' = (handles k)(r \<mapsto> \<lparr>h_type = HANDLE_PIPE_READ, h_refs = 1, file_fd = 0, h_pipe = p\<rparr>,
                                      w \<mapsto> \<lparr>h_type = HANDLE_PIPE_WRITE, h_refs = 1, file_fd = 0, h_pipe = p\<rparr>)"
    and p': "pipes k' = (pipes k)(p \<mapsto> y)" "readers y = 1" "writers y = 1"
  shows "ends_inv k'"
proof -
  have E: "pipe_ends k' ty q = (if q = p then {if ty = HANDLE_PIPE_READ then r else w} else pipe_ends k ty q)" if "is_end ty" for ty q
    using no_pipe_no_ends [OF e p that] r that by (auto simp: pipe_ends_def h' is_end_def)
  show ?thesis
  proof (rule ends_invI)
    show "h_type x \<noteq> HANDLE_TERMINAL" if "handles k' h = Some x" for h x
      using that ends_invD(1) [OF e] by (auto simp: h' split: if_splits)
    show "pipes k' (h_pipe x) \<noteq> None" if "handles k' h = Some x" "is_end (h_type x)" for h x
      using that ends_invD(2) [OF e] by (auto simp: h' p' split: if_splits)
    show "end_ok (end_refs ty z) (pipe_ends k' ty q)" if "pipes k' q = Some z" "is_end ty" for q z ty
      using that ends_invD(3) [OF e, of q z ty] p'(2,3) E [of ty q]
      by (cases "q = p") (auto simp: p'(1) end_refs_def)
    show "readers z \<noteq> 0 \<or> writers z \<noteq> 0" if "pipes k' q = Some z" for q z
      using that ends_invD(4) [OF e] p'(2) by (auto simp: p'(1) split: if_splits)
  qed
qed

lemma new_pipe_ok:
  assumes inv: "handles_inv X k" and n: "handle_new_pipe k = (k', res)"
  shows "tables_ok k'" "task_table k' = task_table k" "files k' = files k"
    "res = Inl e \<Longrightarrow> handles_inv X k'"
    "res = Inr (r, w) \<Longrightarrow> handles_inv (X(r := X r + 1, w := X w + 1)) k' \<and> r \<noteq> w \<and> r \<noteq> 0 \<and> w \<noteq> 0
        \<and> r \<noteq> handle_terminal \<and> w \<noteq> handle_terminal \<and> handles k' r \<noteq> None \<and> handles k' w \<noteq> None"
proof -
  note I = handles_invD [OF inv]
  obtain k1 p where p: "pipe_new k = (k1, p)" by fastforce
  note P = pipe_new_facts [OF I(2) p]
  obtain k2 r0 where r: "handle_new HANDLE_PIPE_READ k1 = (k2, r0)" by fastforce
  note R = handle_new_facts [OF P(1) r]
  obtain k3 w0 where w: "handle_new HANDLE_PIPE_WRITE k2 = (k3, w0)" by fastforce
  note W = handle_new_facts [OF R(1) w]
  note n' = n [unfolded handle_new_pipe_def p r w Let_def prod.case]
  have z: "handles k 0 = None" "pipes k 0 = None" "handles k handle_terminal = None"
    using inv_null [OF I(2)] kheap.backed_null [of "heap k" "pipes k"] I(2) by (auto simp: heap_inv_def)
  have more: "files k3 = files k" using P(4) R(4) W(4) by (intro files_more) simp
  show "tables_ok k'" "task_table k' = task_table k"
    using n' I(5) P(3,5) R(3,5) W(3,5) by (auto split: if_splits)
  show "files k' = files k"
    using n' more files_more [of k' k3] by (auto split: if_splits)
  have pr: "pipes k r0 = None" using P(8) R(8) z by (cases "r0 = 0") (auto split: if_splits)
  have pw: "pipes k w0 = None" using P(8) R(2) W(8) z by (cases "w0 = 0") (auto split: if_splits)
  have hp: "handles k3 p = None"
  proof (cases "p = 0")
    case True
    then show ?thesis using inv_null(1) [OF W(1)] by simp
  next
    case False
    then have "p \<noteq> r0 \<or> r0 = 0" "p \<noteq> w0 \<or> w0 = 0" using P(8) R(2,8) W(8) by auto
    then show ?thesis using False P(2,7) R(9) W(9) by auto
  qed
  show "handles_inv X k'" if "res = Inl e"
  proof (cases "p = 0 \<or> r0 = 0 \<or> w0 = 0")
    case True
    then have k': "k' = free_handle w0 (free_handle r0 (free_pipe p k3))" using n' by simp
    have eq: "handles k' = handles k" "pipes k' = pipes k"
      using P(2,6,8) R(2,6,9) W(2,6,9) z by (auto simp: k' fun_eq_iff split: if_splits)
    have fp: "pipes (free_pipe p k3) = pipes k" using P(6,8) R(2) W(2) by auto
    have "heap_inv k'"
      unfolding k' by (intro free_inv W(1)) (simp_all only: free_simps(5) fp pr pw hp)
    then show ?thesis
      using inv \<open>tables_ok k'\<close> \<open>task_table k' = task_table k\<close> \<open>files k' = files k\<close> I eq ends_inv_cong [of k' k] files_inv_cong [of k' k]
      by (intro handles_inv_step [of X k k' X]) auto
  qed (use n' that in simp)
  show "handles_inv (X(r := X r + 1, w := X w + 1)) k' \<and> r \<noteq> w \<and> r \<noteq> 0 \<and> w \<noteq> 0
        \<and> r \<noteq> handle_terminal \<and> w \<noteq> handle_terminal \<and> handles k' r \<noteq> None \<and> handles k' w \<noteq> None" if "res = Inr (r, w)"
  proof -
    have nz: "p \<noteq> 0" "r0 \<noteq> 0" "w0 \<noteq> 0" and rw: "r = r0" "w = w0" using n' that by (auto split: if_splits)
    have ne: "r \<noteq> w" "handles k r = None" "handles k w = None"
      using P(2) R(6,9) W(6) nz by (auto simp: rw split: if_splits)
    let ?r = "\<lparr>h_type = HANDLE_PIPE_READ, h_refs = 1, file_fd = 0, h_pipe = p\<rparr>"
    let ?w = "\<lparr>h_type = HANDLE_PIPE_WRITE, h_refs = 1, file_fd = 0, h_pipe = p\<rparr>"
    have k': "k' = set_handle w ?w (set_handle r ?r k3)"
      using n' nz P(2) R(7,9) W(7,9) ne(1) by (simp add: rw handle_at_def)
    have h': "handles k' = (handles k)(r \<mapsto> ?r, w \<mapsto> ?w)"
      using P(2) R(9) W(9) nz ne(1) by (auto simp: k' rw fun_eq_iff)
    have p': "pipes k' = (pipes k)(p \<mapsto> \<lparr>buffer = replicate PIPE_SIZE 0, head = 0, count = 0, readers = 1, writers = 1\<rparr>)"
      using P(8) R(2) W(2) nz by (simp add: k')
    have "handles k3 r \<noteq> None" "handles k3 w \<noteq> None" using R(9) W(9) nz ne(1) by (auto simp: rw)
    then have "heap_inv k'" using set_handle_inv [OF set_handle_inv [OF W(1)]] by (simp add: k')
    moreover have "ends_inv k'" by (rule new_pipe_ends [OF I(3) P(6) ne(2,3,1) h' p']) simp_all
    moreover have "files_inv k'" using I(4) ne h' \<open>files k' = files k\<close> by (auto simp: files_inv_def)
    moreover have "r \<noteq> handle_terminal" "w \<noteq> handle_terminal" using R(7) W(7) rw by auto
    moreover have "ref_ok (fd_refs k h + (X(r := X r + 1, w := X w + 1)) h) (handles k' h)"
      if "ref_ok (fd_refs k h + X h) (handles k h)" for h
      using that ne h' by auto
    ultimately show ?thesis
      using inv \<open>tables_ok k'\<close> \<open>task_table k' = task_table k\<close> nz rw ne(1) h'
      by (intro conjI handles_inv_step [of X k k']) auto
  qed
qed

section \<open>Closing a handle\<close>

text \<open>What waking tasks and switching between them leaves alone.\<close>

definition fd_frame :: "'a system_scheme \<Rightarrow> 'a system_scheme \<Rightarrow> bool" where
  "fd_frame k k' \<longleftrightarrow> (tables_ok k \<longrightarrow> tables_ok k') \<and> (\<forall>i<MAX_TASKS. fds (task_at k' i) = fds (task_at k i))
    \<and> heap k' = heap k \<and> handles k' = handles k \<and> pipes k' = pipes k \<and> files k' = files k"

lemma fd_frame_refl [simp]: "fd_frame k k"
  by (simp add: fd_frame_def)

lemma fd_frame_trans [trans]: "fd_frame k k1 \<Longrightarrow> fd_frame k1 k2 \<Longrightarrow> fd_frame k k2"
  by (simp add: fd_frame_def)

lemma fd_frame_inv: "handles_inv X k \<Longrightarrow> fd_frame k k' \<Longrightarrow> handles_inv X k'"
  using handles_invD(5) [of X k] by (intro handles_inv_cong [of X k k']) (auto simp: fd_frame_def)

lemma upd_task_outside: "\<not> i < length (task_table k) \<Longrightarrow> upd_task i f k = k"
  by (cases k) (simp add: upd_task_def list_update_beyond)

lemma fd_frame_upd: "(\<And>t. fds (f t) = fds t) \<Longrightarrow> fd_frame k (upd_task i f k)"
  using files_more [of "upd_task i f k" k] by (cases "i < length (task_table k)") (auto simp: fd_frame_def task_at_upd upd_task_outside)

lemma fd_frame_fold:
  assumes "\<And>x k. x \<in> set xs \<Longrightarrow> fd_frame k (f x k)"
  shows "fd_frame k (fold f xs k)"
  using assms
proof (induction xs arbitrary: k)
  case (Cons x xs)
  show ?case using fd_frame_trans [OF Cons.prems [of x k] Cons.IH [of "f x k"]] Cons.prems by simp
qed simp

lemma fd_frame_wake: "fd_frame k (sched_wake i k)"
proof -
  have "fd_frame k (upd_task i (t_state_update (\<lambda>_. TASK_READY)) k)" by (rule fd_frame_upd) simp
  then show ?thesis by (simp add: sched_wake_def Let_def fd_frame_def tables_ok_def)
qed

lemma fd_frame_wake_channel: "fd_frame k (task_wake_channel ch k)"
  unfolding task_wake_channel_def by (rule fd_frame_fold) (simp add: wake_waiter_def fd_frame_wake)

text \<open>Closing one end: the pipe goes with the last one.\<close>

lemma free_pipe_eq: "k\<lparr>heap := kfree (heap k) p, pipes := (pipes k)(p := None)\<rparr> = free_pipe p k"
  by (simp add: free_pipe_def)

lemma pipe_free_cases:
  "pipes k p = Some y \<Longrightarrow> pipe_free_if_unused p k = (if readers y = 0 \<and> writers y = 0 then free_pipe p k else k)"
  by (simp add: pipe_free_if_unused_def free_pipe_eq pipe_at_def)

lemma close_end_frame:
  fixes k :: "'a system_scheme"
  assumes k: "heap_inv k" "pipes k p \<noteq> None" "handles k p = None"
  shows "\<exists>k1. fd_frame (set_pipe p y k) k1 \<and> heap_inv (if readers y = 0 \<and> writers y = 0 then free_pipe p k1 else k1)
    \<and> pipe_free_if_unused p (task_wake_channel (Ch_pipe p) (set_pipe p y k))
      = (if readers y = 0 \<and> writers y = 0 then free_pipe p k1 else k1)"
proof -
  let ?k1 = "task_wake_channel (Ch_pipe p) (set_pipe p y k)"
  have f: "fd_frame (set_pipe p y k) ?k1" by (rule fd_frame_wake_channel)
  have y: "pipes ?k1 p = Some y" using f by (simp add: fd_frame_def set_pipe_def)
  have "heap_inv (set_pipe p y k)" using k by (auto simp: heap_inv_def set_pipe_def backed_def)
  then have h: "heap_inv ?k1" using heap_inv_cong [of ?k1 "set_pipe p y k"] f by (simp add: fd_frame_def)
  have "handles ?k1 p = None" using f k by (simp add: fd_frame_def set_pipe_def)
  then show ?thesis using f h free_inv(2) [OF h] pipe_free_cases [OF y] by (intro exI [of _ ?k1]) auto
qed

lemma close_end_ends:
  assumes e: "ends_inv k" and h: "handles k h = Some x" "is_end (h_type x)" and y: "pipes k (h_pipe x) = Some y"
    and h': "handles k' = (handles k)(h := None)"
    and p': "pipes k' = (pipes k)(h_pipe x := if end_refs (other_end (h_type x)) y = 0 then None else Some y')"
    and y': "end_refs (h_type x) y' = 0" "end_refs (other_end (h_type x)) y' = end_refs (other_end (h_type x)) y"
  shows "ends_inv k'"
proof -
  let ?ty = "h_type x"
  have "h \<in> pipe_ends k ?ty (h_pipe x)" using h by (simp add: pipe_ends_def)
  then have S: "pipe_ends k ?ty (h_pipe x) = {h}" using ends_invD(3) [OF e y h(2)] by (auto simp: end_ok_def)
  have E: "pipe_ends k' ty q = pipe_ends k ty q - {h}" for ty q by (auto simp: pipe_ends_def h')
  have E': "pipe_ends k' ty q = pipe_ends k ty q" if "ty \<noteq> ?ty \<or> q \<noteq> h_pipe x" for ty q
    using that h by (auto simp: pipe_ends_def h')
  show ?thesis
  proof (rule ends_invI)
    show "h_type z \<noteq> HANDLE_TERMINAL" if "handles k' a = Some z" for a z
      using that ends_invD(1) [OF e] by (auto simp: h' split: if_splits)
    show "pipes k' (h_pipe z) \<noteq> None" if a: "handles k' a = Some z" "is_end (h_type z)" for a z
    proof (cases "h_pipe z = h_pipe x")
      case True
      have a': "a \<noteq> h" "handles k a = Some z" using a(1) by (auto simp: h' split: if_splits)
      then have in_z: "a \<in> pipe_ends k (h_type z) (h_pipe x)" using True by (simp add: pipe_ends_def)
      then have "h_type z \<noteq> ?ty" using S a'(1) by (metis singletonD)
      then have "h_type z = other_end ?ty" using end_cases [OF a(2) h(2)] by blast
      then have "end_refs (other_end ?ty) y \<noteq> 0" using ends_invD(3) [OF e y a(2)] in_z by (metis end_ok_simps(1) empty_iff)
      then show ?thesis using True by (simp add: p')
    next
      case False
      have "handles k a = Some z" using a(1) by (auto simp: h' split: if_splits)
      then show ?thesis using ends_invD(2) [OF e _ a(2)] False by (auto simp: p')
    qed
    show "end_ok (end_refs ty z) (pipe_ends k' ty q)" if q: "pipes k' q = Some z" "is_end ty" for q z ty
    proof (cases "q = h_pipe x")
      case True
      have z: "z = y'" using q(1) True by (auto simp: p' split: if_splits)
      show ?thesis using end_cases [OF q(2) h(2)]
      proof
        assume "ty = ?ty"
        then show ?thesis using S True y'(1) z by (simp add: E)
      next
        assume "ty = other_end ?ty"
        then show ?thesis using True y'(2) z ends_invD(3) [OF e y q(2)] E' [of ty q] h(2) by simp
      qed
    next
      case False
      then show ?thesis using q(1) ends_invD(3) [OF e _ q(2), of q z] E' [of ty q] by (simp add: p')
    qed
    show "readers z \<noteq> 0 \<or> writers z \<noteq> 0" if q: "pipes k' q = Some z" for q z
      using q ends_invD(4) [OF e] ends_none [OF h(2), of z] y' by (auto simp: p' split: if_splits)
  qed
qed

lemma close_end_ok:
  fixes k :: "'a system_scheme"
  assumes e: "ends_inv k" "heap_inv k" and h: "handles k h = Some x" "is_end (h_type x)"
    and k1: "k1 = set_handle h x' k"
    and k2: "k2 = (if h_type x = HANDLE_PIPE_READ then pipe_close_reader (h_pipe x) k1 else pipe_close_writer (h_pipe x) k1)"
  shows "ends_inv (free_handle h k2) \<and> heap_inv (free_handle h k2) \<and> handles k2 = handles k1
    \<and> (tables_ok k \<longrightarrow> tables_ok k2) \<and> (\<forall>i<MAX_TASKS. fds (task_at k2 i) = fds (task_at k i)) \<and> files k2 = files k"
proof -
  obtain y where y: "pipes k (h_pipe x) = Some y" using ends_invD(2) [OF e(1) h] by blast
  define y' where "y' = (if h_type x = HANDLE_PIPE_READ then y\<lparr>readers := readers y - 1\<rparr> else y\<lparr>writers := writers y - 1\<rparr>)"
  have "h \<in> pipe_ends k (h_type x) (h_pipe x)" using h by (simp add: pipe_ends_def)
  then have "end_refs (h_type x) y = 1" using ends_invD(3) [OF e(1) y h(2)] by (auto simp: end_ok_def)
  then have y'0: "end_refs (h_type x) y' = 0" "end_refs (other_end (h_type x)) y' = end_refs (other_end (h_type x)) y"
    using h(2) by (auto simp: y'_def end_refs_def other_end_def is_end_def)
  then have last: "readers y' = 0 \<and> writers y' = 0 \<longleftrightarrow> end_refs (other_end (h_type x)) y = 0"
    using h(2) by (auto simp: end_refs_def other_end_def is_end_def split: if_splits)
  have disj: "handles k (h_pipe x) = None" "pipes k h = None" using y h e(2) by (auto simp: heap_inv_def dom_def)
  have h1: "heap_inv k1" "pipes k1 (h_pipe x) \<noteq> None" "handles k1 (h_pipe x) = None"
    using e(2) y h(1) disj set_handle_inv [OF e(2)] by (auto simp: k1)
  obtain k3 where k3: "fd_frame (set_pipe (h_pipe x) y' k1) k3"
      "heap_inv (if readers y' = 0 \<and> writers y' = 0 then free_pipe (h_pipe x) k3 else k3)"
      "pipe_free_if_unused (h_pipe x) (task_wake_channel (Ch_pipe (h_pipe x)) (set_pipe (h_pipe x) y' k1))
        = (if readers y' = 0 \<and> writers y' = 0 then free_pipe (h_pipe x) k3 else k3)"
    using close_end_frame [OF h1, of y'] by blast
  have "k2 = pipe_free_if_unused (h_pipe x) (task_wake_channel (Ch_pipe (h_pipe x)) (set_pipe (h_pipe x) y' k1))"
    using y by (simp add: k2 pipe_close_reader_def pipe_close_writer_def y'_def pipe_at_def k1)
  then have k2': "k2 = (if end_refs (other_end (h_type x)) y = 0 then free_pipe (h_pipe x) k3 else k3)"
    using k3(3) last by simp
  note F = k3(1) [unfolded fd_frame_def]
  have p2: "pipes k2 = (pipes k)(h_pipe x := if end_refs (other_end (h_type x)) y = 0 then None else Some y')"
    using F by (simp add: k2' k1 set_pipe_def)
  have hh: "handles k2 = handles k1" using F by (simp add: k2' set_pipe_def)
  have "h \<noteq> h_pipe x" using y disj(2) by auto
  then have "heap_inv (free_handle h k2)"
    using k3(2) disj(2) last by (intro free_inv) (simp_all add: p2, simp add: k2')
  moreover have "ends_inv (free_handle h k2)"
    by (rule close_end_ends [OF e(1) h y _ _ y'0]) (simp_all add: hh p2 k1)
  moreover have "files k2 = files k"
    using F files_more [of "set_pipe (h_pipe x) y' k1" k] files_more [of "free_pipe (h_pipe x) k3" k3] by (simp add: k2' k1 set_pipe_def)
  moreover have "(tables_ok k \<longrightarrow> tables_ok k2) \<and> (\<forall>i<MAX_TASKS. fds (task_at k2 i) = fds (task_at k i))"
    using F by (simp add: k2' k1)
  ultimately show ?thesis using hh by simp
qed

lemma fclose_files:
  assumes "vfs_ok v"
  shows "vfs_ok (snd (fclose fd v))" "open_file (snd (fclose fd v)) f \<longleftrightarrow> open_file v f \<and> f \<noteq> fd"
  using assms by (auto simp: fclose_def file_free_descriptor_def vfs_ok_def open_file_def file_get_descriptor_def nth_list_update
      split: option.splits if_splits)

text \<open>Closing takes one reference away, whatever it was: a descriptor's or the caller's.\<close>

lemma handle_close_ok:
  fixes k :: "'a system_scheme"
  assumes inv: "handles_inv X k" and h: "h = handle_terminal \<or> handles k h \<noteq> None"
  shows "handles_inv (X(h := X h - 1)) (handle_close h k)
    \<and> (\<forall>i<MAX_TASKS. fds (task_at (handle_close h k) i) = fds (task_at k i))"
proof (cases "h = handle_terminal")
  case True
  then show ?thesis using inv by (simp add: handle_close_def handles_inv_def refs_inv_def)
next
  case False
  note I = handles_invD [OF inv]
  obtain x where x: "handles k h = Some x" using h False by auto
  have n0: "h \<noteq> 0" using inv_null(1) [OF I(2)] x by auto
  have r: "h_refs x = fd_refs k h + X h" "0 < h_refs x" using I(6) [OF n0 False] x by auto
  define x' where "x' = x\<lparr>h_refs := h_refs x - 1\<rparr>"
  define k1 where "k1 = set_handle h x' k"
  have hx: "(handle_at k h)\<lparr>h_refs := h_refs (handle_at k h) - 1\<rparr> = x'" using x False by (simp add: handle_at_def x'_def)
  have t: "tables_ok k1" "fds (task_at k1 i) = fds (task_at k i)" for i using I(5) by (simp_all add: k1_def)
  have fk1: "files k1 = files k" by (rule files_more) (simp add: k1_def)
  show ?thesis
  proof (cases "h_refs x' > 0")
    case True
    then have e: "handle_close h k = k1" using False hx by (simp add: handle_close_def Let_def k1_def)
    have pe: "pipe_ends k1 ty q = pipe_ends k ty q" for ty q using x by (auto simp: pipe_ends_def k1_def x'_def)
    have "ends_inv k1"
    proof (rule ends_invI)
      show "end_ok (end_refs ty y) (pipe_ends k1 ty p)" if "pipes k1 p = Some y" "is_end ty" for p y ty
        using that ends_invD(3) [OF I(3)] pe by (simp add: k1_def)
    qed (use ends_invD [OF I(3)] x in \<open>auto simp: k1_def x'_def split: if_splits\<close>)
    moreover have "files_inv k1" using I(4) x fk1 by (auto simp: files_inv_def k1_def x'_def)
    ultimately show ?thesis
      unfolding e using t x r True set_handle_inv [OF I(2)]
      by (intro conjI handles_inv_step [OF inv, of k1]) (auto simp: k1_def x'_def)
  next
    case last: False
    then have one: "h_refs x = 1" using r(2) by (simp add: x'_def)
    define k2 where "k2 = (case h_type x of HANDLE_FILE \<Rightarrow> k1\<lparr>files := snd (fclose (file_fd x) (files k1))\<rparr>
                           | HANDLE_PIPE_READ \<Rightarrow> pipe_close_reader (h_pipe x) k1
                           | HANDLE_PIPE_WRITE \<Rightarrow> pipe_close_writer (h_pipe x) k1 | HANDLE_TERMINAL \<Rightarrow> k1)"
    have e: "handle_close h k = free_handle h k2"
      using False x last by (simp add: handle_close_def Let_def handle_at_def k1_def k2_def x'_def split: handle_type.split)
    have K: "ends_inv (free_handle h k2) \<and> heap_inv (free_handle h k2) \<and> handles k2 = handles k1 \<and> tables_ok k2
      \<and> (\<forall>i<MAX_TASKS. fds (task_at k2 i) = fds (task_at k i)) \<and> files_inv (free_handle h k2)"
    proof (cases "is_end (h_type x)")
      case True
      then have "k2 = (if h_type x = HANDLE_PIPE_READ then pipe_close_reader (h_pipe x) k1 else pipe_close_writer (h_pipe x) k1)"
        by (auto simp: k2_def is_end_def)
      note C = close_end_ok [OF I(3,2) x True k1_def this]
      then have "files (free_handle h k2) = files k" using files_more [of "free_handle h k2" k2] by simp
      then show ?thesis using C I(4,5) by (auto simp: files_inv_def k1_def)
    next
      case False
      then have isf: "h_type x = HANDLE_FILE" using ends_invD(1) [OF I(3) x] by (cases "h_type x") auto
      then have k2: "k2 = k1\<lparr>files := snd (fclose (file_fd x) (files k))\<rparr>" by (simp add: k2_def fk1)
      have f: "files (free_handle h k2) = snd (fclose (file_fd x) (files k))" by (simp add: free_handle_def k2)
      have pe: "pipe_ends (free_handle h k2) ty q = pipe_ends k ty q" if "is_end ty" for ty q
        using that x isf by (auto simp: pipe_ends_def k2 k1_def)
      have "ends_inv (free_handle h k2)"
      proof (rule ends_invI)
        show "end_ok (end_refs ty y) (pipe_ends (free_handle h k2) ty p)"
          if "pipes (free_handle h k2) p = Some y" "is_end ty" for p y ty
          using that ends_invD(3) [OF I(3)] pe by (simp add: k2 k1_def)
      qed (use ends_invD [OF I(3)] in \<open>auto simp: k2 k1_def split: if_splits\<close>)
      moreover have "pipes k h = None" using x I(2) by (auto simp: heap_inv_def)
      then have "heap_inv (free_handle h k2)"
        using set_handle_inv [OF I(2), of h x'] x
        by (intro free_inv) (auto simp: k2 k1_def heap_inv_def)
      moreover have "files_inv (free_handle h k2)"
        using I(4) x isf fclose_files [of "files k" "file_fd x"]
        by (auto simp: files_inv_def f) (auto simp: k2 k1_def split: if_splits)
      ultimately show ?thesis using t by (simp add: k2 tables_ok_def)
    qed
    then show ?thesis
      unfolding e using x r one
      by (intro conjI handles_inv_step [OF inv, of "free_handle h k2"]) (auto simp: k1_def)
  qed
qed

section \<open>Descriptors of a task\<close>

text \<open>What a descriptor refers to: nothing, the terminal or a live handle.\<close>

definition good_ref :: "'a kernel_scheme \<Rightarrow> u32 \<Rightarrow> bool" where
  "good_ref k h \<longleftrightarrow> h = 0 \<or> h = handle_terminal \<or> handles k h \<noteq> None"

lemma fd_refs_pos:
  assumes "fds_len k" "i < MAX_TASKS" "fd < TASK_MAX_FDS"
  shows "0 < fd_refs k (fds (task_at k i) ! fd)"
proof -
  let ?h = "fds (task_at k i) ! fd"
  have "?h \<in> set (fds (task_at k i))" using fds_len_at [OF assms(1,2)] assms(3) by simp
  then have "0 < int (count_list (fds (task_at k i)) ?h)" by (metis count_list_0_iff gr0I of_nat_0_less_iff)
  also have "\<dots> \<le> fd_refs k ?h" unfolding fd_refs_def
    using assms(2) by (intro member_le_sum [where f = "\<lambda>i. int (count_list (fds (task_at k i)) ?h)"]) auto
  finally show ?thesis .
qed

lemma fd_good:
  assumes "handles_inv X k" "i < MAX_TASKS" "fd < TASK_MAX_FDS" "X (fds (task_at k i) ! fd) \<ge> 0"
  shows "good_ref k (fds (task_at k i) ! fd)"
proof (rule ccontr)
  let ?h = "fds (task_at k i) ! fd"
  assume n: "\<not> good_ref k ?h"
  then have "ref_ok (fd_refs k ?h + X ?h) (handles k ?h)"
    by (intro handles_invD(6) [OF assms(1)]) (auto simp: good_ref_def)
  then show False
    using n fd_refs_pos [OF handles_invD(1) [OF assms(1)] assms(2,3)] assms(4) by (simp add: good_ref_def)
qed

lemma running_in: "handles_inv X k \<Longrightarrow> task_running k < MAX_TASKS"
  using handles_invD(5) by (auto simp: tables_ok_def)

lemma task_fd_get_good:
  assumes "handles_inv X k" "\<And>h. 0 \<le> X h"
  shows "good_ref k (task_fd_get fd k)"
  using fd_good [OF assms(1) running_in [OF assms(1)], of "nat fd"] assms(2)
  by (auto simp: task_fd_get_def good_ref_def)

lemma free_fd_loop_spec:
  "free_fd_loop hs is = Some i \<Longrightarrow> i \<in> set is \<and> hs ! i = 0"
  "free_fd_loop hs is = None \<Longrightarrow> \<forall>i\<in>set is. hs ! i \<noteq> 0"
  by (induction "is") (auto split: if_splits)

lemma install_ok:
  assumes inv: "handles_inv X k" and n: "task_fd_install h k = (k', res)"
  shows "res = Inl e \<Longrightarrow> k' = k" "res = Inr fd \<Longrightarrow> handles_inv (X(h := X h - 1)) k' \<and> fd < TASK_MAX_FDS
      \<and> fds (running_task k) ! fd = 0 \<and> k' = set_fd (task_running k) fd h k"
proof -
  show "k' = k" if "res = Inl e" using n that by (auto simp: task_fd_install_def split: option.splits)
  show "handles_inv (X(h := X h - 1)) k' \<and> fd < TASK_MAX_FDS \<and> fds (running_task k) ! fd = 0 \<and> k' = set_fd (task_running k) fd h k"
    if "res = Inr fd"
  proof -
    have f: "free_fd_loop (fds (running_task k)) [0..<TASK_MAX_FDS] = Some fd" and k': "k' = set_fd (task_running k) fd h k"
      using n that by (auto simp: task_fd_install_def split: option.splits)
    have "fd < TASK_MAX_FDS" "fds (running_task k) ! fd = 0" using free_fd_loop_spec(1) [OF f] by auto
    then show ?thesis
      using set_fd_ok [OF inv running_in [OF inv], of fd 0 "X(h := X h - 1)" h] by (simp add: k')
  qed
qed

lemma fd_close_ok:
  assumes inv: "handles_inv X k" and X: "\<And>h. 0 \<le> X h"
  shows "handles_inv X (fst (task_fd_close fd k))"
proof (cases "task_fd_get fd k = 0 \<or> is_kernel (running_task k)")
  case True
  then show ?thesis using inv by (simp add: task_fd_close_def)
next
  case False
  then have fd: "0 \<le> fd" "fd < int TASK_MAX_FDS" and h: "task_fd_get fd k = fds (running_task k) ! nat fd"
    by (auto simp: task_fd_get_def split: if_splits)
  let ?h = "task_fd_get fd k" and ?k = "set_fd (task_running k) (nat fd) 0 k"
  have "handles_inv (X(?h := X ?h + 1)) ?k"
    using set_fd_ok [OF inv running_in [OF inv], of "nat fd" ?h "X(?h := X ?h + 1)" 0] fd h by simp
  moreover have "?h = handle_terminal \<or> handles ?k ?h \<noteq> None"
    using task_fd_get_good [OF inv X, of fd] False by (simp add: good_ref_def)
  ultimately have "handles_inv ((X(?h := X ?h + 1))(?h := X ?h)) (handle_close ?h ?k)"
    using handle_close_ok [of "X(?h := X ?h + 1)" ?k ?h] by simp
  then show ?thesis using False by (simp add: task_fd_close_def)
qed

lemma close_fds_ok:
  assumes inv: "handles_inv (\<lambda>_. 0) k" and i: "i < MAX_TASKS"
  shows "handles_inv (\<lambda>_. 0) (close_fds i k)"
proof -
  let ?f = "\<lambda>fd (k :: 'a system_scheme). if fds (task_at k i) ! fd \<noteq> 0
     then set_fd i fd 0 (handle_close (fds (task_at k i) ! fd) k) else k"
  have step: "handles_inv (\<lambda>_. 0) (?f fd k)" if k: "handles_inv (\<lambda>_. 0) k" and fd: "fd < TASK_MAX_FDS" for fd and k :: "'a system_scheme"
  proof (cases "fds (task_at k i) ! fd = 0")
    case False
    let ?h = "fds (task_at k i) ! fd" and ?X = "\<lambda>_ :: u32. 0 :: int"
    have "?h = handle_terminal \<or> handles k ?h \<noteq> None" using fd_good [OF k i fd] False by (simp add: good_ref_def)
    note C = handle_close_ok [OF k this]
    then have "fds (task_at (handle_close ?h k) i) ! fd = ?h" using i by simp
    then show ?thesis using set_fd_ok [of "?X(?h := - 1)" "handle_close ?h k" i fd ?h ?X 0] C i fd False by simp
  qed (use k in simp)
  have "handles_inv (\<lambda>_. 0) (fold ?f xs k)" if "set xs \<subseteq> {..<TASK_MAX_FDS}" "handles_inv (\<lambda>_. 0) k" for xs and k :: "'a system_scheme"
    using that
  proof (induction xs arbitrary: k)
    case (Cons x xs)
    show ?case using Cons.IH [OF _ step [OF Cons.prems(2), of x]] Cons.prems(1) by simp
  qed simp
  then show ?thesis using inv unfolding close_fds_def by (simp add: subset_iff)
qed

lemma inherit_ok:
  assumes inv: "handles_inv (\<lambda>_. 0) k" and i: "i < MAX_TASKS" "0 \<le> fd" "fd < int TASK_MAX_FDS" "fds (task_at k i) ! nat fd = 0"
    and g: "good_ref k given"
  shows "handles_inv (\<lambda>_. 0) (inherit_std i fd given k)"
proof -
  let ?X = "\<lambda>_ :: u32. 0 :: int"
  define h where "h = (if given \<noteq> 0 then given else task_inherit_fd fd k)"
  have nz: "h \<noteq> 0" by (simp add: h_def task_inherit_fd_def handle_terminal_def)
  have "good_ref k h" using g task_fd_get_good [OF inv, of fd] unfolding h_def task_inherit_fd_def by (cases "given = 0") (auto simp: good_ref_def)
  then have r: "handles_inv (?X(h := 1)) (handle_ref h k)" using handle_ref_ok [OF inv, of h] nz by (simp add: good_ref_def)
  have "fds (task_at (handle_ref h k) i) ! nat fd = 0" using i(4) by (simp add: handle_ref_def)
  then have "handles_inv ?X (set_fd i (nat fd) h (handle_ref h k))"
    using set_fd_ok [OF r i(1), of "nat fd" 0 ?X h] i nz by simp
  then show ?thesis by (simp only: inherit_std_def Let_def flip: h_def)
qed

section \<open>Reading, writing and switching\<close>

text \<open>What a call that reads or writes leaves alone: the descriptors, the handles, the ends of the
  pipes and which files are open.\<close>

definition ends_of :: "'a kernel_scheme \<Rightarrow> u32 \<Rightarrow> (u32 \<times> u32) option" where
  "ends_of k p = map_option (\<lambda>y. (readers y, writers y)) (pipes k p)"

definition keeps_open :: "vfs \<Rightarrow> vfs \<Rightarrow> bool" where
  "keeps_open v v' \<longleftrightarrow> (vfs_ok v \<longrightarrow> vfs_ok v' \<and> (\<forall>f. open_file v f \<longrightarrow> open_file v' f))"

definition io_frame :: "'a system_scheme \<Rightarrow> 'a system_scheme \<Rightarrow> bool" where
  "io_frame k k' \<longleftrightarrow> (tables_ok k \<longrightarrow> tables_ok k') \<and> (\<forall>i<MAX_TASKS. fds (task_at k' i) = fds (task_at k i) \<or> \<not> tables_ok k)
    \<and> heap k' = heap k \<and> handles k' = handles k \<and> ends_of k' = ends_of k \<and> keeps_open (files k) (files k')"

lemma keeps_open_refl [simp]: "keeps_open v v"
  by (simp add: keeps_open_def)

lemma io_frame_trans: "io_frame k k1 \<Longrightarrow> io_frame k1 k2 \<Longrightarrow> io_frame k k2"
  by (auto simp: io_frame_def keeps_open_def)

lemma fd_frame_io: "fd_frame k k' \<Longrightarrow> io_frame k k'"
  by (auto simp: fd_frame_def io_frame_def ends_of_def fun_eq_iff)

lemma io_frame_ends:
  assumes "ends_of k' = ends_of k"
  shows "pipes k p = Some y \<Longrightarrow> \<exists>y'. pipes k' p = Some y' \<and> readers y' = readers y \<and> writers y' = writers y"
    "dom (pipes k') = dom (pipes k)"
proof -
  have e: "ends_of k' p = ends_of k p" for p using assms by simp
  show "pipes k p = Some y \<Longrightarrow> \<exists>y'. pipes k' p = Some y' \<and> readers y' = readers y \<and> writers y' = writers y"
    using e [of p] unfolding ends_of_def by (cases "pipes k' p"; simp)
  have "pipes k' p = None \<longleftrightarrow> pipes k p = None" for p using e [of p] unfolding ends_of_def by (cases "pipes k p"; cases "pipes k' p"; simp)
  then show "dom (pipes k') = dom (pipes k)" by (simp add: dom_def)
qed

lemma io_frame_inv:
  assumes inv: "handles_inv X k" and f: "io_frame k k'"
  shows "handles_inv X k'"
proof (rule handles_inv_step [OF inv])
  note I = handles_invD [OF inv]
  have fd: "tables_ok k'" "\<And>i. i < MAX_TASKS \<Longrightarrow> fds (task_at k' i) = fds (task_at k i)"
    and hh: "heap k' = heap k" "handles k' = handles k" and e: "ends_of k' = ends_of k"
    and ko: "keeps_open (files k) (files k')"
    using f I(5) unfolding io_frame_def by blast+
  show "tables_ok k'" "\<And>i. i < MAX_TASKS \<Longrightarrow> fds (task_at k' i) = fds (task_at k i)" by (rule fd, rule fd)
  have d: "dom (pipes k') = dom (pipes k)" by (rule io_frame_ends(2) [OF e])
  show "heap_inv k'" using I(2) unfolding heap_inv_def backed_def hh d .
  have pe: "pipe_ends k' ty q = pipe_ends k ty q" for ty q unfolding pipe_ends_def hh ..
  show "ends_inv k'"
  proof (rule ends_invI)
    show "h_type x \<noteq> HANDLE_TERMINAL" if "handles k' h = Some x" for h x
      using ends_invD(1) [OF I(3)] that unfolding hh .
    show "pipes k' (h_pipe x) \<noteq> None" if "handles k' h = Some x" "is_end (h_type x)" for h x
      using ends_invD(2) [OF I(3) that(1) [unfolded hh] that(2)] d by blast
    show "end_ok (end_refs ty y) (pipe_ends k' ty q)" if y: "pipes k' q = Some y" and ty: "is_end ty" for q y ty
    proof -
      obtain y' where y': "pipes k q = Some y'" "readers y' = readers y" "writers y' = writers y"
        using io_frame_ends(1) [OF e [symmetric] y] by blast
      have "end_refs ty y = end_refs ty y'" using y' by (simp add: end_refs_def)
      then show ?thesis using ends_invD(3) [OF I(3) y'(1) ty] pe by simp
    qed
    show "readers y \<noteq> 0 \<or> writers y \<noteq> 0" if y: "pipes k' q = Some y" for q y
      using io_frame_ends(1) [OF e [symmetric] y] ends_invD(4) [OF I(3), of q] by metis
  qed
  show "files_inv k'" using I(4) ko unfolding files_inv_def keeps_open_def hh by blast
  show "ref_ok (fd_refs k h + X h) (handles k' h)" if "ref_ok (fd_refs k h + X h) (handles k h)" for h
    using that unfolding hh .
qed

lemma io_frame_fd: "io_frame k k1 \<Longrightarrow> fd_frame k1 k2 \<Longrightarrow> io_frame k k2"
  using io_frame_trans fd_frame_io by blast

lemma fd_frame_schedule: "tables_ok k \<Longrightarrow> fd_frame k (schedule k)"
  using files_more [of "schedule k" k] by (simp add: fd_frame_def schedule_fields)

lemma io_frame_upd_schedule:
  assumes "\<And>t. fds (f t) = fds t" "tables_ok k"
  shows "io_frame k (schedule (upd_task i f k))"
  using fd_frame_io [OF fd_frame_trans [OF fd_frame_upd [of f k i] fd_frame_schedule]] assms by simp

lemma take_put_ends [simp]:
  "readers (snd (pipe_take n x)) = readers x" "writers (snd (pipe_take n x)) = writers x"
  "readers (pipe_put bs x) = readers x" "writers (pipe_put bs x) = writers x"
proof -
  show "readers (snd (pipe_take n x)) = readers x" "writers (snd (pipe_take n x)) = writers x"
    by (induction n arbitrary: x) (simp_all add: case_prod_beta Let_def)
  show "readers (pipe_put bs x) = readers x" "writers (pipe_put bs x) = writers x"
    by (induction bs arbitrary: x) simp_all
qed

lemma io_frame_set_pipe:
  assumes "pipes k p = Some x" "readers y = readers x" "writers y = writers x"
  shows "io_frame k (task_wake_channel ch (set_pipe p y k))"
proof -
  have "io_frame k (set_pipe p y k)"
    using assms files_more [of "set_pipe p y k" k] by (auto simp: io_frame_def ends_of_def set_pipe_def tables_ok_def)
  then show ?thesis using fd_frame_wake_channel io_frame_fd by blast
qed

lemma io_block: "tables_ok k \<Longrightarrow> io_frame k (task_block_on ch c k)"
  unfolding task_block_on_def by (rule io_frame_upd_schedule) simp_all

lemma io_pipe_read:
  fixes k :: "'a system_scheme"
  assumes "tables_ok k" "pipes k p = Some x"
  shows "io_frame k (out_state (pipe_read p len k))"
  using assms io_block [of k "Ch_pipe p"] fd_frame_io [OF fd_frame_refl, of k]
  by (auto simp: pipe_read_def pipe_at_def case_prod_beta Let_def intro!: io_frame_set_pipe)

lemma io_pipe_write:
  fixes k :: "'a system_scheme"
  shows "tables_ok k \<Longrightarrow> pipes k p \<noteq> None \<Longrightarrow> io_frame k (out_state (pipe_write_loop p data done_so k))"
proof (induction p data done_so k rule: pipe_write_loop.induct)
  case (1 p data done_so k)
  obtain x where x: "pipes k p = Some x" using "1.prems" by auto
  show ?case
  proof (cases "done_so < length data \<and> \<not> (count x = of_nat PIPE_SIZE \<and> readers x > 0 \<and> \<not> killed (running_task k))
      \<and> \<not> killed (running_task k) \<and> readers x \<noteq> 0")
    case True
    define total where "total = min (length data - done_so) (unat (of_nat PIPE_SIZE - count x))"
    define k1 where "k1 = task_wake_channel (Ch_pipe p) (set_pipe p (pipe_put (take total (drop done_so data)) x) k)"
    have f: "io_frame k k1" unfolding k1_def by (rule io_frame_set_pipe [OF x]) simp_all
    have t: "tables_ok k1" "pipes k1 p \<noteq> None"
      using f "1.prems" io_frame_ends(1) [of k1 k p x] x by (auto simp: io_frame_def)
    have e: "pipe_write_loop p data done_so k = pipe_write_loop p data (done_so + total) k1"
      using True x by (subst pipe_write_loop.simps) (auto simp: pipe_at_def Let_def total_def k1_def)
    have "count x \<noteq> of_nat PIPE_SIZE" using True by (auto simp: word_gt_0)
    then have "io_frame k1 (out_state (pipe_write_loop p data (done_so + total) k1))"
      using "1.IH" [OF _ _ _ _ refl refl refl, of ] True x t by (simp add: pipe_at_def total_def k1_def word_gt_0)
    then show ?thesis using io_frame_trans [OF f] e by simp
  next
    case False
    then show ?thesis
      using x "1.prems" io_block [of k "Ch_pipe p"] fd_frame_io [OF fd_frame_refl, of k]
      by (subst pipe_write_loop.simps) (auto simp: pipe_at_def)
  qed
qed

section \<open>Open files\<close>

lemma set_descriptor_keeps: "keeps_open v (set_descriptor fd d v)"
proof -
  have "ds ! j \<noteq> None \<Longrightarrow> j < length ds \<Longrightarrow> (ds[i := Some d]) ! j \<noteq> None" for ds and i j :: nat
    by (cases "i = j") simp_all
  then show ?thesis
    by (auto simp: keeps_open_def set_descriptor_def vfs_ok_def open_file_def file_get_descriptor_def)
qed

lemma keeps_open_trans: "keeps_open u v \<Longrightarrow> keeps_open v w \<Longrightarrow> keeps_open u w"
  by (simp add: keeps_open_def)

lemma volume_keeps [simp]: "keeps_open v (v\<lparr>volume := x\<rparr>)"
  by (simp add: keeps_open_def vfs_ok_def open_file_def file_get_descriptor_def)

lemma file_ops_keep:
  "keeps_open v (snd (fread a b fd v))" "keeps_open v (snd (fwrite now data a b fd v))" "keeps_open v (snd (fseek fd off wh v))"
proof -
  have "keeps_open v (set_descriptor fd d (v\<lparr>volume := x\<rparr>))" for d x
    using keeps_open_trans [OF volume_keeps set_descriptor_keeps] .
  then show "keeps_open v (snd (fread a b fd v))" "keeps_open v (snd (fwrite now data a b fd v))" "keeps_open v (snd (fseek fd off wh v))"
    using set_descriptor_keeps
    by (auto simp: fread_def fwrite_def fseek_def split: option.splits prod.splits)
qed

lemma fopen_files:
  assumes "vfs_ok v" "fopen now path mode v = (fd, v')"
  shows "vfs_ok v' \<and> (\<forall>f. open_file v f \<longrightarrow> open_file v' f) \<and> (fd \<noteq> 0 \<longrightarrow> open_file v' fd \<and> \<not> open_file v fd)"
proof -
  have same: "file_get_descriptor f (v\<lparr>volume := x\<rparr>) = file_get_descriptor f v" for f x by (simp add: file_get_descriptor_def)
  have old: "vfs_ok (v\<lparr>volume := x\<rparr>)" "open_file (v\<lparr>volume := x\<rparr>) = open_file v" for x
    using assms(1) by (simp_all add: vfs_ok_def open_file_def file_get_descriptor_def fun_eq_iff)
  consider "fd = 0" "v' = v \<or> (\<exists>x. v' = v\<lparr>volume := x\<rparr>)" | d x where "file_new_descriptor d (v\<lparr>volume := x\<rparr>) = Some (fd, v')"
    using assms(2) by (auto simp: fopen_def split: option.splits if_splits prod.splits sum.splits)
  then show ?thesis
  proof cases
    case 1
    then show ?thesis using assms(1) old by auto
  next
    case 2
    note N = get_new_descriptor [OF old(1) 2]
    have "open_file v' f \<longleftrightarrow> f = fd \<or> open_file v f" for f using N(4) by (simp add: open_file_def same)
    moreover have "\<not> open_file v fd" using N(3) by (simp add: open_file_def same)
    ultimately show ?thesis using N(6) by auto
  qed
qed

section \<open>Reading and writing through a handle\<close>

lemma io_files: "keeps_open (files k) v \<Longrightarrow> io_frame k (k\<lparr>files := v\<rparr>)"
  by (simp add: io_frame_def ends_of_def fun_eq_iff tables_ok_def)

lemma io_dev [simp]:
  "io_frame k k" "io_frame k (k\<lparr>kbd := kb\<rparr>)" "io_frame k (k\<lparr>screen := t\<rparr>)" "io_frame k (k\<lparr>line_pos := n\<rparr>)"
  "io_frame k (k\<lparr>line_buf := bs\<rparr>)" "io_frame k (k\<lparr>line_pos := n, line_buf := bs\<rparr>)"
  by (simp_all add: io_frame_def ends_of_def fun_eq_iff tables_ok_def)

lemma io_wait_key: "tables_ok k \<Longrightarrow> io_frame k (out_state (task_wait_key u k))"
  by (auto simp: task_wait_key_def split: option.splits prod.splits if_splits intro!: io_frame_upd_schedule)

lemma io_tables: "io_frame k k' \<Longrightarrow> tables_ok k \<Longrightarrow> tables_ok k'"
  by (simp add: io_frame_def)

lemma io_read_line:
  "tables_ok k \<Longrightarrow> read_line_loop fuel len k = Some r \<Longrightarrow> io_frame k (out_state r)"
proof (induction fuel len k arbitrary: r rule: read_line_loop.induct)
  case (2 fuel len k)
  have w: "io_frame k (out_state (task_wait_key (Key_line len) k))" by (rule io_wait_key [OF "2.prems"(1)])
  show ?case
  proof (cases "task_wait_key (Key_line len) k")
    case (Switched k1)
    then show ?thesis using w "2.prems"(2) by auto
  next
    case (Done k1 c)
    have k1: "io_frame k k1" "tables_ok k1" using w Done io_tables "2.prems"(1) by auto
    have put: "io_frame k (putchar b (k1\<lparr>line_buf := l\<rparr>))" for b l
    proof -
      have "io_frame k1 (putchar b (k1\<lparr>line_buf := l\<rparr>))" by (simp add: putchar_def io_frame_def ends_of_def fun_eq_iff tables_ok_def)
      then show ?thesis using k1(1) io_frame_trans by blast
    qed
    then have tput: "tables_ok (putchar b (k1\<lparr>line_buf := l\<rparr>))" for b l using io_tables "2.prems"(1) by blast
    have rec: "io_frame k (out_state r)" if "io_frame k k2" "io_frame k2 (out_state r)" for k2 using io_frame_trans [OF that] .
    show ?thesis
    proof (cases c)
      case None
      then show ?thesis using "2.prems"(2) Done k1 by auto
    next
      case (Some key)
      note IH = "2.IH" [OF Done Some]
      consider "key = KEY_CTRL_D" | "key \<noteq> KEY_CTRL_D" "key = 8" | "key \<noteq> KEY_CTRL_D" "key \<noteq> 8" "key = 10 \<or> (32 \<le> key \<and> key < 127)"
        | "key \<noteq> KEY_CTRL_D" "key \<noteq> 8" "\<not> (key = 10 \<or> (32 \<le> key \<and> key < 127))" by blast
      then show ?thesis
      proof cases
        case 1
        then show ?thesis using "2.prems"(2) Done Some k1 by auto
      next
        case 2
        then show ?thesis using "2.prems"(2) Done Some IH(1) [OF 2] rec k1 put tput by (cases "line_buf k1 = []") auto
      next
        case 3
        then show ?thesis using "2.prems"(2) Done Some IH(2) [OF 3 refl] rec k1 put tput
          by (cases "key = 10"; cases "length (line_buf k1) < TERMINAL_LINE_MAX") (auto simp: Let_def)
      next
        case 4
        then show ?thesis using "2.prems"(2) Done Some IH(3) [OF 4] rec k1 by auto
      qed
    qed
  qed
qed simp

lemma io_terminal_read:
  assumes "tables_ok k" "terminal_read len k = Some r"
  shows "io_frame k (out_state r)"
proof -
  have ready: "io_frame k1 (out_state (line_ready len k1))" for k1 :: "'a system_scheme" by (simp add: line_ready_def Let_def)
  let ?k = "k\<lparr>line_pos := 0, line_buf := []\<rparr>"
  have "tables_ok ?k" using assms(1) by (simp add: tables_ok_def)
  then have line: "io_frame k (out_state q)" if "read_line_loop KEYBOARD_BUFFER_SIZE len ?k = Some q" for q
    using io_read_line [OF _ that] io_frame_trans [of k ?k "out_state q"] by simp
  show ?thesis
  proof (cases "line_pos k = length (line_buf k)")
    case True
    then obtain q where q: "read_line_loop KEYBOARD_BUFFER_SIZE len ?k = Some q"
        "r = (case q of Switched k \<Rightarrow> Switched k | Done k res \<Rightarrow> if res \<le> 0 then Done k (res, []) else line_ready len k)"
      using assms(2) by (auto simp: terminal_read_def terminal_read_rest_def split: option.splits outcome.splits)
    show ?thesis
    proof (cases q)
      case (Done k1 res)
      then show ?thesis using line [OF q(1)] q(2) io_frame_trans [OF _ ready] by auto
    qed (use line [OF q(1)] q(2) in simp)
  qed (use assms(2) ready in \<open>auto simp: terminal_read_def\<close>)
qed

lemma good_handle:
  assumes inv: "handles_inv X k" and g: "good_ref k h" "h \<noteq> 0"
  shows "h = handle_terminal \<and> h_type (handle_at k h) = HANDLE_TERMINAL
    \<or> is_end (h_type (handle_at k h)) \<and> pipes k (h_pipe (handle_at k h)) \<noteq> None
    \<or> h_type (handle_at k h) = HANDLE_FILE \<and> open_file (files k) (file_fd (handle_at k h))"
proof (cases "h = handle_terminal")
  case False
  note I = handles_invD [OF inv]
  obtain x where x: "handles k h = Some x" using g False by (auto simp: good_ref_def)
  have "handle_at k h = x" using x False by (simp add: handle_at_def)
  then show ?thesis
    using ends_invD(1,2) [OF I(3) x] I(4) x by (cases "h_type x") (auto simp: files_inv_def)
qed (simp add: handle_at_def)

lemma handle_read_ok:
  assumes inv: "handles_inv X k" and g: "good_ref k h" "h \<noteq> 0" and r: "handle_read h len k = Some r"
  shows "handles_inv X (out_state r)"
proof -
  note T = handles_invD(5) [OF inv]
  have "io_frame k (out_state r)"
  proof (cases "h_type (handle_at k h)")
    case HANDLE_TERMINAL
    then show ?thesis using r io_terminal_read [OF T] by (simp add: handle_read_def)
  next
    case HANDLE_FILE
    let ?f = "fread 1 (of_nat len) (file_fd (handle_at k h)) (files k)"
    have "io_frame k (k\<lparr>files := snd ?f\<rparr>)" by (rule io_files [OF file_ops_keep(1)])
    then show ?thesis using r HANDLE_FILE
      by (cases "fst ?f") (auto simp: handle_read_def case_prod_beta split: if_splits sum.splits)
  next
    case HANDLE_PIPE_READ
    then obtain x where x: "pipes k (h_pipe (handle_at k h)) = Some x" using good_handle [OF inv g] by auto
    have "out_state (pipe_outcome q) = out_state q" for q :: "('a system_scheme, bytes option) outcome"
      by (cases q) (auto simp: pipe_outcome_def split: option.splits)
    then show ?thesis using r HANDLE_PIPE_READ io_pipe_read [OF T x] by (auto simp: handle_read_def)
  next
    case HANDLE_PIPE_WRITE
    then show ?thesis using r by (auto simp: handle_read_def)
  qed
  then show ?thesis by (rule io_frame_inv [OF inv])
qed

lemma handle_write_ok:
  assumes inv: "handles_inv X k" and g: "good_ref k h" "h \<noteq> 0"
  shows "handles_inv X (out_state (handle_write h data k))"
proof -
  note T = handles_invD(5) [OF inv]
  have "io_frame k (out_state (handle_write h data k))"
  proof (cases "h_type (handle_at k h)")
    case HANDLE_FILE
    let ?f = "fwrite (clock k) data 1 (of_nat (length data)) (file_fd (handle_at k h)) (files k)"
    have "io_frame k (k\<lparr>files := snd ?f\<rparr>)" by (rule io_files [OF file_ops_keep(2)])
    then show ?thesis using HANDLE_FILE
      by (cases "fst ?f") (auto simp: handle_write_def case_prod_beta split: if_splits sum.splits)
  next
    case HANDLE_PIPE_WRITE
    then have "pipes k (h_pipe (handle_at k h)) \<noteq> None" using good_handle [OF inv g] by auto
    then show ?thesis using HANDLE_PIPE_WRITE io_pipe_write [OF T] by (simp add: handle_write_def pipe_write_def)
  qed (simp_all add: handle_write_def)
  then show ?thesis by (rule io_frame_inv [OF inv])
qed

section \<open>Opening, pipes and starting a task\<close>

abbreviation (input) NO_REFS :: "u32 \<Rightarrow> int" where "NO_REFS \<equiv> \<lambda>_. 0"

lemma no_refs_upd [simp]: "(\<lambda>_ :: u32. 0 :: int)(h := 0) = (\<lambda>_. 0)"
  by auto

lemma install_file_ok:
  assumes inv: "handles_inv NO_REFS k" and f: "open_file (files k) fd" "\<And>h x. handles k h = Some x \<Longrightarrow> h_type x = HANDLE_FILE \<Longrightarrow> file_fd x \<noteq> fd"
  shows "handles_inv NO_REFS (fst (install_file fd k))"
proof -
  note I = handles_invD [OF inv]
  obtain k1 h where n: "handle_new_file fd k = (k1, h)" by fastforce
  have "h = 0 \<and> k1 = k \<or> h \<noteq> 0 \<and> handles_inv (NO_REFS(h := 1)) k1 \<and> handles k1 h \<noteq> None"
    using new_file_ok [OF inv n f(1)] f(2) by fastforce
  then consider "h = 0" "k1 = k" | "h \<noteq> 0" "handles_inv (NO_REFS(h := 1)) k1" "handles k1 h \<noteq> None" by blast
  then show ?thesis
  proof cases
    case 1
    have "files_inv (k\<lparr>files := snd (fclose fd (files k))\<rparr>)"
      using I(4) f(2) fclose_files [of "files k" fd] by (auto simp: files_inv_def)
    moreover have "ends_inv (k\<lparr>files := snd (fclose fd (files k))\<rparr>)" "heap_inv (k\<lparr>files := snd (fclose fd (files k))\<rparr>)"
      using I(2,3) ends_inv_cong [of "k\<lparr>files := snd (fclose fd (files k))\<rparr>" k] heap_inv_cong [of "k\<lparr>files := snd (fclose fd (files k))\<rparr>" k] by simp_all
    ultimately have "handles_inv NO_REFS (k\<lparr>files := snd (fclose fd (files k))\<rparr>)"
      using I(5) by (intro handles_inv_step [OF inv]) (simp_all add: tables_ok_def)
    then show ?thesis using 1 n by (simp add: install_file_def)
  next
    case 2
    obtain k2 r where i: "task_fd_install h k1 = (k2, r)" by fastforce
    show ?thesis
    proof (cases r)
      case (Inl e)
      have "k2 = k1" using install_ok(1) [OF 2(2) i] Inl by simp
      then have "handles_inv ((NO_REFS(h := 1))(h := 0)) (handle_close h k2)" using handle_close_ok [OF 2(2), of h] 2(3) by simp
      then show ?thesis using n i Inl 2(1) by (simp add: install_file_def)
    next
      case (Inr m)
      note J = install_ok(2) [OF 2(2) i Inr]
      have "handles_inv ((NO_REFS(h := 1))(h := 0)) k2" using conjunct1 [OF J] by simp
      then show ?thesis using n i Inr 2(1) by (simp add: install_file_def)
    qed
  qed
qed

lemma open_path_ok:
  assumes inv: "handles_inv NO_REFS k"
  shows "handles_inv NO_REFS (fst (open_path path mode k))"
proof -
  note I = handles_invD [OF inv]
  obtain fd v where o: "fopen (clock k) path (fopen_mode mode) (files k) = (fd, v)" by fastforce
  have vf: "vfs_ok (files k)" using I(4) by (simp add: files_inv_def)
  note F = fopen_files [OF vf o]
  have k1: "handles_inv NO_REFS (k\<lparr>files := v\<rparr>)"
    using F by (intro io_frame_inv [OF inv] io_files) (simp add: keeps_open_def)
  show ?thesis
  proof (cases "fd = 0")
    case False
    have "file_fd x \<noteq> fd" if "handles k h = Some x" "h_type x = HANDLE_FILE" for h x
      using that I(4) F False by (auto simp: files_inv_def)
    then have "handles_inv NO_REFS (fst (install_file fd (k\<lparr>files := v\<rparr>)))"
      using F False by (intro install_file_ok [OF k1]) auto
    then show ?thesis using o False by (simp add: open_path_def)
  qed (use o k1 in \<open>simp add: open_path_def\<close>)
qed

lemma handle_close_others:
  assumes "handles_inv X k" "h = handle_terminal \<or> handles k h \<noteq> None" "w \<noteq> h" "0 < X w" "w \<noteq> 0" "w \<noteq> handle_terminal" "0 \<le> fd_refs k w"
  shows "handles (handle_close h k) w \<noteq> None"
proof -
  note C = handle_close_ok [OF assms(1,2)]
  have "ref_ok (fd_refs (handle_close h k) w + (X(h := X h - 1)) w) (handles (handle_close h k) w)"
    using handles_invD(6) [of "X(h := X h - 1)" "handle_close h k" w] C assms(5,6) by simp
  moreover have "fd_refs (handle_close h k) w = fd_refs k w" using C by (simp add: fd_refs_def)
  ultimately show ?thesis using assms(3,4,7) by (cases "handles (handle_close h k) w") auto
qed

lemma fd_refs_nonneg: "0 \<le> fd_refs k h"
  unfolding fd_refs_def by (rule sum_nonneg) simp

lemma open_pipe_ok:
  assumes inv: "handles_inv NO_REFS k"
  shows "handles_inv NO_REFS (fst (open_pipe k))"
proof -
  obtain k1 res where n: "handle_new_pipe k = (k1, res)" by fastforce
  show ?thesis
  proof (cases res)
    case (Inl e)
    then show ?thesis using new_pipe_ok(4) [OF inv n] n by (simp add: open_pipe_def)
  next
    case (Inr rw)
    obtain r w where rw: "rw = (r, w)" by fastforce
    note P = new_pipe_ok(5) [OF inv n, unfolded Inr rw, OF refl]
    let ?X = "NO_REFS(r := 1, w := 1)"
    have X1: "handles_inv ?X k1" using P by simp
    obtain k2 a where i: "task_fd_install r k1 = (k2, a)" by fastforce
    show ?thesis
    proof (cases a)
      case (Inl e)
      have k2: "k2 = k1" using install_ok(1) [OF X1 i] Inl by simp
      have c: "handles_inv (?X(r := 0)) (handle_close r k1)" using handle_close_ok [OF X1, of r] P by simp
      have "handles (handle_close r k1) w \<noteq> None"
        using handle_close_others [OF X1, of r w] P fd_refs_nonneg [of k1 w] by auto
      then have "handles_inv ((?X(r := 0))(w := (?X(r := 0)) w - 1)) (handle_close w (handle_close r k1))"
        using handle_close_ok [OF c, of w] by blast
      moreover have "(?X(r := 0))(w := (?X(r := 0)) w - 1) = NO_REFS" using P by (auto simp: fun_eq_iff)
      ultimately have "handles_inv NO_REFS (handle_close w (handle_close r k1))" by simp
      then show ?thesis using n Inr rw i Inl k2 by (simp add: open_pipe_def)
    next
      case a: (Inr rfd)
      have "?X(r := ?X r - 1) = NO_REFS(w := 1)" using P by (auto simp: fun_eq_iff)
      then have X2: "handles_inv (NO_REFS(w := 1)) k2"
        using conjunct1 [OF install_ok(2) [OF X1 i a]] by simp
      obtain k3 b where j: "task_fd_install w k2 = (k3, b)" by fastforce
      show ?thesis
      proof (cases b)
        case (Inl e)
        have k3: "k3 = k2" using install_ok(1) [OF X2 j] Inl by simp
        let ?k = "fst (task_fd_close (int rfd) k2)"
        have c: "handles_inv (NO_REFS(w := 1)) ?k" by (rule fd_close_ok [OF X2]) simp
        have "ref_ok (fd_refs ?k w + 1) (handles ?k w)" using handles_invD(6) [OF c, of w] P by simp
        then have "handles ?k w \<noteq> None" using fd_refs_nonneg [of ?k w] by (cases "handles ?k w") auto
        then have "handles_inv ((NO_REFS(w := 1))(w := 0)) (handle_close w ?k)" using handle_close_ok [OF c, of w] by simp
        then show ?thesis using n Inr rw i a j Inl k3 by (simp add: open_pipe_def)
      next
        case b: (Inr wfd)
        have "handles_inv ((NO_REFS(w := 1))(w := 0)) k3" using conjunct1 [OF install_ok(2) [OF X2 j b]] by simp
        then show ?thesis using n Inr rw i a j b by (simp add: open_pipe_def)
      qed
    qed
  qed
qed

lemma good_ref_inherit: "good_ref k h \<Longrightarrow> good_ref (inherit_std i fd g k) h"
  by (auto simp: good_ref_def inherit_std_def Let_def handle_ref_def)

lemma inherit_fds:
  assumes "i < length (task_table k)"
  shows "\<exists>h. fds (task_at (inherit_std i fd g k) i) = (fds (task_at k i))[nat fd := h]"
proof -
  have "task_table (handle_ref h k) = task_table k" for h by (simp add: handle_ref_def)
  then show ?thesis using assms by (auto simp: inherit_std_def Let_def fds_set_fd)
qed

lemma task_start_ok:
  assumes inv: "handles_inv NO_REFS k" and i: "i < MAX_TASKS" "fds (task_at k i) = replicate TASK_MAX_FDS 0"
    and g: "good_ref k a" "good_ref k b" "good_ref k c"
  shows "handles_inv NO_REFS (task_start i flags a b c k)"
proof -
  define f where "f = (\<lambda>t :: task. t\<lparr>saved_ctx := Ctx_start, parent := Some (task_running k), background := flags AND 1 \<noteq> 0,
    detached := flags AND 1 \<noteq> 0, is_shell := (flags AND 2 \<noteq> 0),
    foreground := (flags AND 1 = 0 \<and> foreground (running_task k)), cwd := cwd (running_task k)\<rparr>)"
  define k1 where "k1 = upd_task i f k"
  define k2 where "k2 = inherit_std i 0 a k1"
  define k3 where "k3 = inherit_std i 1 b k2"
  define k4 where "k4 = inherit_std i 2 c k3"
  define k5 where "k5 = (if foreground (task_at k4 i) then k4\<lparr>kbd := keyboard_flush (kbd k4)\<rparr> else k4)"
  have e: "task_start i flags a b c k = sched_wake i k5"
    by (simp add: task_start_def Let_def f_def k1_def k2_def k3_def k4_def k5_def)
  have inv1: "handles_inv NO_REFS k1" unfolding k1_def by (rule fd_frame_inv [OF inv fd_frame_upd]) (simp add: f_def)
  have len: "i < length (task_table q)" if "handles_inv X q" for X and q :: "'a system_scheme"
    using fds_len_at [OF handles_invD(1) [OF that] i(1)] by simp
  have z1: "fds (task_at k1 i) = replicate TASK_MAX_FDS 0" using len [OF inv] i(2) by (simp add: k1_def f_def)
  have gr: "good_ref k1 h" if "good_ref k h" for h using that by (simp add: good_ref_def k1_def)
  have inv2: "handles_inv NO_REFS k2" unfolding k2_def using z1 by (intro inherit_ok [OF inv1 i(1)] gr g) simp_all
  obtain h0 where z2: "fds (task_at k2 i) = (replicate TASK_MAX_FDS 0)[0 := h0]"
    using inherit_fds [OF len [OF inv1], of 0 a] z1 by (auto simp: k2_def)
  have inv3: "handles_inv NO_REFS k3" unfolding k3_def
    using z2 by (intro inherit_ok [OF inv2 i(1)]) (simp_all add: k2_def good_ref_inherit gr g)
  obtain h1 where z3: "fds (task_at k3 i) = (replicate TASK_MAX_FDS 0)[0 := h0, 1 := h1]"
    using inherit_fds [OF len [OF inv2], of 1 b] z2 by (auto simp: k3_def)
  have inv4: "handles_inv NO_REFS k4" unfolding k4_def
    using z3 by (intro inherit_ok [OF inv3 i(1)]) (simp_all add: k3_def k2_def good_ref_inherit gr g)
  have "handles_inv NO_REFS k5" unfolding k5_def using io_frame_inv [OF inv4 io_dev(2)] inv4 by simp
  then show ?thesis unfolding e by (rule fd_frame_inv [OF _ fd_frame_wake])
qed

section \<open>The kernel as a transition system on descriptors\<close>

text \<open>A kernel that has just booted, and what can happen to its descriptors: the operations of the
  system calls on them, with every argument a program can give, the task switches and the ticks in
  between, and what the rest of the kernel does with the heap they live in.\<close>

definition boot_state :: "'a system_scheme \<Rightarrow> bool" where
  "boot_state k \<longleftrightarrow> tables_ok k \<and> heap_ok (heap k) \<and> aligned (h_addr (heap k)) \<and> handles k = Map.empty \<and> pipes k = Map.empty
    \<and> vfs_ok (files k) \<and> (\<forall>i<MAX_TASKS. fds (task_at k i) = replicate TASK_MAX_FDS 0)"

inductive fd_step :: "'a system_scheme \<Rightarrow> 'a system_scheme \<Rightarrow> bool" where
  Open: "fd_step k (fst (open_path path mode k))"
| Pipe: "fd_step k (fst (open_pipe k))"
| Close: "fd_step k (fst (task_fd_close fd k))"
| Start: "i < MAX_TASKS \<Longrightarrow> fds (task_at k i) = replicate TASK_MAX_FDS 0 \<Longrightarrow>
    a = 0 \<or> a = task_fd_get x k \<Longrightarrow> b = 0 \<or> b = task_fd_get y k \<Longrightarrow> c = 0 \<or> c = task_fd_get z k \<Longrightarrow>
    fd_step k (task_start i flags a b c k)"
| Exit: "i < MAX_TASKS \<Longrightarrow> fd_step k (close_fds i k)"
| Read: "task_fd_get fd k \<noteq> 0 \<Longrightarrow> handle_read (task_fd_get fd k) len k = Some r \<Longrightarrow> fd_step k (out_state r)"
| Write: "task_fd_get fd k \<noteq> 0 \<Longrightarrow> fd_step k (out_state (handle_write (task_fd_get fd k) data k))"
| Switch: "fd_step k (schedule k)"
| Wake: "fd_step k (sched_wake i k)"
| Alloc: "fd_step k (k\<lparr>heap := fst (heap_malloc (heap k) n)\<rparr>)"
| Release: "handles k p = None \<Longrightarrow> pipes k p = None \<Longrightarrow> fd_step k (k\<lparr>heap := kfree (heap k) p\<rparr>)"

inductive fd_reachable :: "'a system_scheme \<Rightarrow> bool" where
  Boot: "boot_state k \<Longrightarrow> fd_reachable k"
| Step: "fd_reachable k \<Longrightarrow> fd_step k k' \<Longrightarrow> fd_reachable k'"

inductive_cases fd_stepE: "fd_step k k'"

lemma boot_inv:
  assumes b: "boot_state k"
  shows "handles_inv NO_REFS k"
proof -
  have z: "fds (task_at k i) = replicate TASK_MAX_FDS 0" if "i < MAX_TASKS" for i using b that by (simp add: boot_state_def)
  have c: "count_list (replicate n 0) h = 0" if "h \<noteq> 0" for n and h :: u32 using that by (induction n) auto
  have "fd_refs k h = 0" if "h \<noteq> 0" for h
  proof -
    have "int (count_list (fds (task_at k i)) h) = 0" if "i \<in> {..<MAX_TASKS}" for i
      using z [of i] that c [OF \<open>h \<noteq> 0\<close>] by simp
    then show ?thesis unfolding fd_refs_def by (intro sum.neutral) blast
  qed
  moreover have "handles k h = None" for h using b by (simp add: boot_state_def)
  ultimately have "refs_inv NO_REFS k" by (intro refs_invI) simp
  moreover have "ends_inv k" using b by (intro ends_invI) (simp_all add: boot_state_def)
  moreover have "fds_len k" using b z by (simp add: boot_state_def fds_len_def)
  moreover have "heap_inv k" "files_inv k" using b by (simp_all add: boot_state_def heap_inv_def backed_def files_inv_def)
  ultimately show ?thesis by (simp add: handles_inv_def)
qed

lemma heap_step_inv:
  assumes inv: "handles_inv X k" and h: "heap_inv (k\<lparr>heap := hp\<rparr>)"
  shows "handles_inv X (k\<lparr>heap := hp\<rparr>)"
proof (rule handles_inv_step [OF inv _ _ h])
  note I = handles_invD [OF inv]
  show "tables_ok (k\<lparr>heap := hp\<rparr>)" using I(5) by (simp add: tables_ok_def)
  show "ends_inv (k\<lparr>heap := hp\<rparr>)" using I(3) ends_inv_cong [of "k\<lparr>heap := hp\<rparr>" k] by simp
  show "files_inv (k\<lparr>heap := hp\<rparr>)" using I(4) files_inv_cong [of "k\<lparr>heap := hp\<rparr>" k] by simp
qed simp_all

lemma alloc_inv: "heap_inv k \<Longrightarrow> heap_inv (k\<lparr>heap := fst (heap_malloc (heap k) n)\<rparr>)"
proof -
  assume h: "heap_inv k"
  obtain hp p where m: "heap_malloc (heap k) n = (hp, p)" by fastforce
  show ?thesis
  proof (cases "p = 0")
    case True
    then have "hp = heap k" using m h kheap.alloc_null [of "heap k" n hp] by (simp add: heap_inv_def)
    then show ?thesis using h m by (simp add: heap_inv_def)
  next
    case False
    have ok: "heap_ok (heap k)" "backed (\<lambda>p. live (heap k) p \<noteq> None) (handles k)" "backed (\<lambda>p. live (heap k) p \<noteq> None) (pipes k)"
      using h by (simp_all add: heap_inv_def)
    show ?thesis
      using h m heap_malloc_live [OF ok(1) m False] kheap.alloc_keeps_backed [OF ok(1,2) m] kheap.alloc_keeps_backed [OF ok(1,3) m]
      by (simp add: heap_inv_def)
  qed
qed

lemma release_inv:
  assumes "heap_inv k" "handles k p = None" "pipes k p = None"
  shows "heap_inv (k\<lparr>heap := kfree (heap k) p\<rparr>)"
  using assms kfree_ok [of "heap k" p] kheap.release_backed [of "heap k" "handles k" p] kheap.release_backed [of "heap k" "pipes k" p]
  by (simp add: heap_inv_def)

lemma fd_step_inv: "fd_step k k' \<Longrightarrow> handles_inv NO_REFS k \<Longrightarrow> handles_inv NO_REFS k'"
proof (induction rule: fd_step.induct)
  case (Start i k a x b y c z flags)
  have "good_ref k (task_fd_get fd k)" for fd by (rule task_fd_get_good [OF Start.prems]) simp
  then show ?case using Start by (intro task_start_ok) (auto simp: good_ref_def)
next
  case (Read fd k len r)
  have "good_ref k (task_fd_get fd k)" by (rule task_fd_get_good [OF Read.prems]) simp
  then show ?case by (rule handle_read_ok [OF Read.prems _ Read.hyps])
next
  case (Write fd k data)
  have "good_ref k (task_fd_get fd k)" by (rule task_fd_get_good [OF Write.prems]) simp
  then show ?case by (rule handle_write_ok [OF Write.prems _ Write.hyps])
next
  case (Switch k)
  then show ?case using fd_frame_inv [OF _ fd_frame_schedule] handles_invD(5) by blast
next
  case (Wake k i)
  then show ?case using fd_frame_inv [OF _ fd_frame_wake] by blast
next
  case (Alloc k n)
  then show ?case using heap_step_inv alloc_inv handles_invD(2) by blast
next
  case (Release k p)
  then show ?case using heap_step_inv release_inv handles_invD(2) by blast
qed (simp_all add: open_path_ok open_pipe_ok fd_close_ok close_fds_ok)

lemma fd_reachable_inv: "fd_reachable k \<Longrightarrow> handles_inv NO_REFS k"
  by (induction rule: fd_reachable.induct) (auto intro: boot_inv fd_step_inv)

section \<open>What a descriptor can be\<close>

definition well_typed_handle :: "'a system_scheme \<Rightarrow> handle \<Rightarrow> bool" where
  "well_typed_handle k x =
    (case h_type x of
       HANDLE_TERMINAL \<Rightarrow> False
     | HANDLE_FILE \<Rightarrow> open_file (files k) (file_fd x)
     | HANDLE_PIPE_READ \<Rightarrow> (case pipes k (h_pipe x) of None \<Rightarrow> False | Some y \<Rightarrow> readers y = 1)
     | HANDLE_PIPE_WRITE \<Rightarrow> (case pipes k (h_pipe x) of None \<Rightarrow> False | Some y \<Rightarrow> writers y = 1))"

definition well_typed_ref :: "'a system_scheme \<Rightarrow> u32 \<Rightarrow> bool" where
  "well_typed_ref k h \<longleftrightarrow> h = 0 \<or> h = handle_terminal
    \<or> (case handles k h of None \<Rightarrow> False | Some x \<Rightarrow> h_refs x = fd_refs k h \<and> well_typed_handle k x)"

lemma handle_typed:
  assumes inv: "handles_inv X k" and x: "handles k h = Some x"
  shows "well_typed_handle k x"
proof -
  note I = handles_invD [OF inv]
  have one: "end_refs (h_type x) y = 1" if "is_end (h_type x)" "pipes k (h_pipe x) = Some y" for y
  proof -
    have "h \<in> pipe_ends k (h_type x) (h_pipe x)" using x by (simp add: pipe_ends_def)
    then show ?thesis using ends_invD(3) [OF I(3) that(2,1)] by (auto simp: end_ok_def)
  qed
  show ?thesis
    using ends_invD(1,2) [OF I(3) x] one I(4) x
    by (cases "h_type x") (auto simp: well_typed_handle_def files_inv_def end_refs_def)
qed

text \<open>In every state the kernel reaches, every descriptor of every task is closed, the terminal or
  a live handle whose count is the number of descriptors that hold it, with an open file or an open
  pipe end behind it; no handle is left that no descriptor holds, and no pipe that no handle holds.\<close>

theorem descriptors_well_typed:
  assumes "fd_reachable k"
  shows "(\<forall>i<MAX_TASKS. \<forall>fd<TASK_MAX_FDS. well_typed_ref k (fds (task_at k i) ! fd))
    \<and> (\<forall>h. handles k h \<noteq> None \<longrightarrow> 0 < fd_refs k h)
    \<and> (\<forall>p. pipes k p \<noteq> None \<longrightarrow> (\<exists>h x. handles k h = Some x \<and> is_end (h_type x) \<and> h_pipe x = p))"
proof (intro conjI allI impI)
  note inv = fd_reachable_inv [OF assms]
  note I = handles_invD [OF inv]
  show "well_typed_ref k (fds (task_at k i) ! fd)" if "i < MAX_TASKS" "fd < TASK_MAX_FDS" for i fd
  proof -
    let ?h = "fds (task_at k i) ! fd"
    have "good_ref k ?h" by (rule fd_good [OF inv that]) simp
    then consider "?h = 0 \<or> ?h = handle_terminal" | x where "?h \<noteq> 0" "?h \<noteq> handle_terminal" "handles k ?h = Some x"
      by (auto simp: good_ref_def)
    then show ?thesis
    proof cases
      case (2 x)
      then show ?thesis using I(6) [OF 2(1,2)] handle_typed [OF inv 2(3)] by (simp add: well_typed_ref_def)
    qed (unfold well_typed_ref_def, blast)
  qed
  show "0 < fd_refs k h" if "handles k h \<noteq> None" for h
  proof -
    have "h \<noteq> 0" "h \<noteq> handle_terminal" using that inv_null [OF I(2)] by auto
    then show ?thesis using I(6) [of h] that by auto
  qed
  show "\<exists>h x. handles k h = Some x \<and> is_end (h_type x) \<and> h_pipe x = p" if live: "pipes k p \<noteq> None" for p
  proof -
    obtain y where y: "pipes k p = Some y" using live by blast
    then have "pipe_ends k HANDLE_PIPE_READ p \<noteq> {} \<or> pipe_ends k HANDLE_PIPE_WRITE p \<noteq> {}"
      using ends_invD(3) [OF I(3) y, of HANDLE_PIPE_READ] ends_invD(3) [OF I(3) y, of HANDLE_PIPE_WRITE] ends_invD(4) [OF I(3) y]
      by (auto simp: end_ok_def end_refs_def)
    then show ?thesis by (auto simp: pipe_ends_def) (metis end_simps(1,2))+
  qed
qed

text \<open>A booted kernel with a heap of eight blocks, in which the running task opens a pipe.\<close>

definition demo_boot :: system where
  "demo_boot = \<lparr>heap = \<lparr>h_table = replicate 8 0, h_addr = 0x01000000\<rparr>, tables = Map.empty, dirs = Map.empty,
     upages = Map.empty, task_table = replicate MAX_TASKS zero_task, task_running = 0, task_idle = 0,
     task_init_thread = 1, kernel_page_dir = 0, next_pid = 1, current_policy = SCHED_ROUND_ROBIN,
     need_resched = False, ticks = 0, cr3 = 0, tss_esp0 = 0, fpu_regs = [],
     mutexes = replicate MAX_MUTEXES zero_mutex, handles = Map.empty, pipes = Map.empty,
     files = fs_init, kbd = keyboard_init,
     screen = \<lparr>t_row = 0, t_column = 0, t_colour = 15, vga = [], hidden_buffer = [], hidden = False, t_scrolls = 0\<rparr>,
     gfx_card = \<lparr>active = 0, dac = [], saved_palette = [], frame_buffer = []\<rparr>, mouse_dev = mouse_reset,
     line_buf = [], line_pos = 0, clock = (0, 0), fpu_reset_state = []\<rparr>"

lemma demo_boot_ok: "boot_state demo_boot"
proof -
  have "table_ok (replicate 8 0)"
    unfolding table_ok_def by (intro exI [of _ "replicate 8 Free"]) (simp add: list_all_iff)
  then have "heap_ok (heap demo_boot)" by (simp add: heap_ok_def demo_boot_def)
  moreover have "aligned (h_addr (heap demo_boot))" by (simp add: demo_boot_def aligned_mod)
  ultimately show ?thesis
    by (simp add: boot_state_def tables_ok_def vfs_ok_def) (simp add: demo_boot_def zero_task_def fs_init_def)
qed

lemma demo_pipe_fd: "fds (task_at (fst (open_pipe demo_boot)) 0) ! 0 = 0x01002000"
  by code_simp

theorem descriptors_well_typed_witness:
  "fds (task_at (fst (open_pipe demo_boot)) 0) ! 0 = 0x01002000
    \<and> well_typed_ref (fst (open_pipe demo_boot)) 0x01002000"
proof -
  have "fd_reachable (fst (open_pipe demo_boot))"
    using fd_reachable.Step [OF fd_reachable.Boot [OF demo_boot_ok] fd_step.Pipe] .
  from descriptors_well_typed [OF this] show ?thesis
    using demo_pipe_fd by (metis zero_less_numeral)
qed

end
