(* ===== verification/Int64.thy ===== *)
theory Int64
  imports Prelude "HOL-Library.Signed_Division"
begin

text \<open>
  The 64 bit division of \<^verbatim>\<open>src/user/lib/int64.c\<close>, to which the compiler turns \<^verbatim>\<open>/\<close> and \<^verbatim>\<open>%\<close> of
  64 bit numbers on the 32 bit processor.

  \<open>None\<close> is a division by zero, which kills the task as a 32 bit one does. A result is the
  pair of quotient and remainder. The theorems compare the shift and subtract loop with the
  division of numbers: unsigned with \<open>div\<close> and \<open>mod\<close>, signed with the division that rounds
  towards zero.
\<close>

type_synonym i64 = u64

text \<open>One round of the loop and the rounds for the bits \<open>n - 1, \<dots>, 0\<close>.\<close>

definition udivmod_round :: "u64 \<Rightarrow> u64 \<Rightarrow> nat \<Rightarrow> u64 \<times> u64 \<Rightarrow> u64 \<times> u64" where
  "udivmod_round num den n qr =
    (let (quot, r) = qr;
         r = push_bit 1 r OR (drop_bit n num AND 1)
     in if r \<ge> den then (quot OR push_bit n 1, r - den) else (quot, r))"

fun udivmod_loop :: "u64 \<Rightarrow> u64 \<Rightarrow> nat \<Rightarrow> u64 \<times> u64 \<Rightarrow> u64 \<times> u64" where
  "udivmod_loop num den 0 qr = qr"
| "udivmod_loop num den (Suc n) qr = udivmod_loop num den n (udivmod_round num den n qr)"

definition udivmod :: "u64 \<Rightarrow> u64 \<Rightarrow> (u64 \<times> u64) option" where
  "udivmod num den = (if den = 0 then None else Some (udivmod_loop num den 64 (0, 0)))"

definition udivdi3 :: "u64 \<Rightarrow> u64 \<Rightarrow> u64 option" where
  "udivdi3 num den = map_option fst (udivmod num den)"

definition umoddi3 :: "u64 \<Rightarrow> u64 \<Rightarrow> u64 option" where
  "umoddi3 num den = map_option snd (udivmod num den)"

definition magnitude :: "i64 \<Rightarrow> u64" where
  "magnitude x = (if sint x < 0 then - x else x)"

definition divdi3 :: "i64 \<Rightarrow> i64 \<Rightarrow> i64 option" where
  "divdi3 num den =
    (case udivmod (magnitude num) (magnitude den) of
       None \<Rightarrow> None
     | Some (q, r) \<Rightarrow> Some (if (sint num < 0) \<noteq> (sint den < 0) then - q else q))"

definition moddi3 :: "i64 \<Rightarrow> i64 \<Rightarrow> i64 option" where
  "moddi3 num den =
    (case udivmod (magnitude num) (magnitude den) of
       None \<Rightarrow> None
     | Some (q, r) \<Rightarrow> Some (if sint num < 0 then - r else r))"

lemma of_nat_unat_word: "of_nat (unat x) = (x :: 'a::len word)"
  by simp

lemma unat_u64_of_nat: "k < 2 ^ 64 \<Longrightarrow> unat (of_nat k :: u64) = k"
  by (simp add: unat_of_nat take_bit_nat_eq_self)

section \<open>The loop divides\<close>

text \<open>After the rounds for the bits from \<open>n\<close> on, \<open>quot\<close> and \<open>r\<close> are the quotient and the
  remainder of the upper part of the number. The remainder is at most that upper part, so
  shifting it by one bit never overflows, also for divisors above \<open>2 ^ 63\<close>.\<close>

definition divided :: "u64 \<Rightarrow> u64 \<Rightarrow> nat \<Rightarrow> u64 \<times> u64 \<Rightarrow> bool" where
  "divided num den n qr \<longleftrightarrow>
    (let upper = unat num div 2 ^ n
     in unat (snd qr) = upper mod unat den \<and> unat (fst qr) = upper div unat den * 2 ^ n)"

lemma upper_step: "unat num div 2 ^ n = 2 * (unat num div 2 ^ Suc n) + unat num div 2 ^ n mod 2"
  by (metis div_mult2_eq mult.commute power_Suc mult_div_mod_eq)

lemma shifted_in:
  fixes r num :: u64
  assumes "unat r \<le> unat num div 2 ^ Suc n"
  shows "unat (push_bit 1 r OR (drop_bit n num AND 1)) = 2 * unat r + unat num div 2 ^ n mod 2"
proof -
  have num: "unat num < 2 ^ 64" using unsigned_less [of num] by simp
  have "2 * unat r + unat num div 2 ^ n mod 2 \<le> unat num div 2 ^ n"
    using assms upper_step [of num n] by linarith
  also have "\<dots> \<le> unat num" by simp
  finally have less: "2 * unat r + unat num div 2 ^ n mod 2 < 2 ^ 64" using num by linarith
  have bit: "unat (drop_bit n num AND 1) = unat num div 2 ^ n mod 2"
  proof -
    have "unat (drop_bit n num) = unat num div 2 ^ n" by (subst unat_drop_bit_eq) (rule drop_bit_eq_div)
    then show ?thesis by (simp only: and_one_eq unat_mod) simp
  qed
  have e: "push_bit 1 r OR (drop_bit n num AND 1) = push_bit 1 r + (drop_bit n num AND 1)"
    by (rule disjunctive_add [symmetric]) (simp only: bit_push_bit_iff bit_and_iff bit_1_iff, auto)
  show ?thesis
    unfolding e using less by (simp add: unat_word_ariths bit mod_add_left_eq mult.commute)
qed

lemma round_divides:
  assumes d: "divided num den (Suc n) qr" and den: "den \<noteq> 0" and n: "n < 64"
  shows "divided num den n (udivmod_round num den n qr)"
proof -
  obtain quot r where qr: "qr = (quot, r)" by fastforce
  define U where "U = unat num div 2 ^ Suc n"
  define u where "u = unat num div 2 ^ n"
  define b where "b = u mod 2"
  define D where "D = unat den"
  have r: "unat r = U mod D" and q: "unat quot = U div D * 2 ^ Suc n"
    using d by (simp_all add: divided_def qr U_def D_def Let_def)
  have D: "0 < D" using den by (simp add: D_def unat_gt_0)
  have u: "u = 2 * U + b" unfolding u_def U_def b_def by (rule upper_step)
  have b: "b < 2" by (simp add: b_def)
  define r' where "r' = push_bit 1 r OR (drop_bit n num AND 1)"
  have "unat r \<le> U" by (simp add: r)
  then have r': "unat r' = 2 * (U mod D) + b"
    unfolding r'_def using shifted_in [of r num n] by (simp add: r U_def b_def u_def)
  have split: "u = D * (2 * (U div D)) + unat r'"
  proof -
    define X Y where "X = U div D" and "Y = U mod D"
    have "U = D * X + Y" by (simp add: X_def Y_def)
    then show ?thesis unfolding u r' X_def [symmetric] Y_def [symmetric] by (simp add: algebra_simps)
  qed
  have less: "unat r' < 2 * D" unfolding r' using b mod_less_divisor [OF D, of U] by linarith
  have uden: "u * 2 ^ n \<le> unat num" unfolding u_def by simp
  show ?thesis
  proof (cases "den \<le> r'")
    case True
    then have ge: "D \<le> unat r'" by (simp add: D_def word_le_nat_alt)
    have qd: "u div D = 2 * (U div D) + 1" and rd: "u mod D = unat r' - D"
      using less ge D by (simp_all add: split div_nat_eqI mod_nat_eqI algebra_simps)
    have rr: "unat (r' - den) = u mod D" using True rd unfolding D_def by (simp add: unat_sub)
    have "quot = push_bit (Suc n) (of_nat (U div D))"
      by (metis q push_bit_nat_def push_bit_of_nat of_nat_unat_word)
    then have up: "bit quot k \<Longrightarrow> Suc n \<le> k" for k by (simp only: bit_push_bit_iff)
    have "bit (push_bit n (1 :: u64)) k \<Longrightarrow> k - n = 0" for k by (simp only: bit_push_bit_iff bit_1_iff)
    with up have "\<not> (bit quot k \<and> bit (push_bit n (1 :: u64)) k)" for k by fastforce
    then have "quot OR push_bit n 1 = quot + push_bit n 1"
      by (intro disjunctive_add [symmetric]) auto
    also have "\<dots> = of_nat (U div D * 2 ^ Suc n) + of_nat (2 ^ n)"
      by (simp only: q [symmetric] of_nat_unat_word push_bit_eq_mult) simp
    also have "\<dots> = of_nat (u div D * 2 ^ n)"
      by (simp only: of_nat_add [symmetric] qd) (simp only: algebra_simps power_Suc mult_1 mult_2)
    finally have "unat (quot OR push_bit n 1) = u div D * 2 ^ n"
    proof -
      assume e: "quot OR push_bit n 1 = of_nat (u div D * 2 ^ n)"
      have "u div D * 2 ^ n \<le> unat num" using uden by (meson div_le_dividend le_trans mult_le_mono1)
      also have "\<dots> < 2 ^ 64" using unsigned_less [of num] by simp
      finally show ?thesis unfolding e by (rule unat_u64_of_nat)
    qed
    moreover have "udivmod_round num den n qr = (quot OR push_bit n 1, r' - den)"
      using True by (simp only: udivmod_round_def qr Let_def prod.case r'_def [symmetric] if_True)
    ultimately show ?thesis using rr
      by (simp only: divided_def Let_def fst_conv snd_conv u_def [symmetric] D_def [symmetric])
  next
    case False
    then have lt: "unat r' < D" by (simp add: D_def word_le_nat_alt)
    have qd: "u div D = 2 * (U div D)" and rd: "u mod D = unat r'"
      using lt D by (simp_all add: split)
    have "udivmod_round num den n qr = (quot, r')"
      using False by (simp only: udivmod_round_def qr Let_def prod.case r'_def [symmetric] if_False)
    then show ?thesis using q rd qd
      by (simp add: divided_def Let_def u_def [symmetric] D_def [symmetric])
  qed
qed

lemma loop_divides:
  assumes "divided num den n qr" "den \<noteq> 0" "n \<le> 64"
  shows "divided num den 0 (udivmod_loop num den n qr)"
  using assms by (induction n arbitrary: qr) (simp_all add: round_divides)

lemma udivmod_spec:
  assumes "den \<noteq> 0"
  shows "udivmod num den = Some (of_nat (unat num div unat den), of_nat (unat num mod unat den))"
proof -
  have "unat num < 2 ^ 64" using unsigned_less [of num] by simp
  then have "divided num den 64 (0, 0)" by (simp add: divided_def)
  from loop_divides [OF this assms]
  have "divided num den 0 (udivmod_loop num den 64 (0, 0))" by simp
  then have "unat (snd (udivmod_loop num den 64 (0, 0))) = unat num mod unat den"
    and "unat (fst (udivmod_loop num den 64 (0, 0))) = unat num div unat den"
    by (simp_all add: divided_def Let_def)
  then show ?thesis using assms
    by (simp add: udivmod_def) (metis prod.collapse of_nat_unat_word)
qed

section \<open>The signed divisions\<close>

lemma sint_magnitude: "int (unat (magnitude x)) = \<bar>sint x\<bar>"
proof -
  have "int (unat (magnitude x)) = uint (word_of_int \<bar>sint x\<bar> :: i64)"
    by (simp add: magnitude_def)
  also have "\<dots> = \<bar>sint x\<bar>"
    using sint_range_size [of x] by (simp add: uint_word_of_int word_size abs_if)
  finally show ?thesis .
qed

text \<open>C26. The shift and subtract loop computes the quotient and the remainder of every pair of 64 bit
  numbers with a divisor other than zero. The signed versions round towards zero, the remainder has
  the sign of the dividend, and the one quotient that has no 64 bit value, \<open>- 2 ^ 63\<close> by \<open>- 1\<close>, wraps.\<close>

theorem division_correct:
  assumes "den \<noteq> 0"
  shows "udivdi3 num den = Some (num div den) \<and> umoddi3 num den = Some (num mod den)
    \<and> divdi3 num den = Some (word_of_int (sint num sdiv sint den))
    \<and> moddi3 num den = Some (word_of_int (sint num smod sint den))"
proof -
  have u: "udivmod num den = Some (num div den, num mod den)"
    using udivmod_spec [OF assms, of num] by (simp only: word_arith_nat_div [symmetric] word_arith_nat_mod [symmetric])
  have den: "sint den \<noteq> 0" "magnitude den \<noteq> 0" using assms by (simp_all add: magnitude_def signed_eq_0_iff)
  have s: "udivmod (magnitude num) (magnitude den)
      = Some (word_of_int (\<bar>sint num\<bar> div \<bar>sint den\<bar>), word_of_int (\<bar>sint num\<bar> mod \<bar>sint den\<bar>))"
    unfolding udivmod_spec [OF den(2), of "magnitude num"]
    by (simp only: sint_magnitude [symmetric] zdiv_int [symmetric] zmod_int [symmetric] of_int_of_nat_eq)
  show ?thesis
    using den by (auto simp: u s udivdi3_def umoddi3_def divdi3_def moddi3_def signed_divide_int_def
        signed_modulo_int_def sgn_if)
qed

theorem division_correct_witness:
  "udivdi3 100 7 = Some 14 \<and> umoddi3 100 7 = Some 2 \<and> divdi3 (- 100) 7 = Some (- 14) \<and> moddi3 (- 100) 7 = Some (- 2)"
  using division_correct [of 7 100] division_correct [of 7 "- 100"] by simp

end
