(* ===== verification/UserSort.thy ===== *)
theory UserSort
  imports Prelude "HOL-Library.Multiset"
begin

text \<open>
  Sorting in user programs: \<^verbatim>\<open>qsort\<close> and \<^verbatim>\<open>bsearch\<close> of \<^verbatim>\<open>src/user/libc/stdlib.c\<close>, the insertion sort
  of \<^verbatim>\<open>src/user/sort.c\<close> and the comparisons they are called with.

  An array is its bytes, \<open>n\<close> items of \<open>sz\<close> bytes each; the comparison reads the items it
  is given. The locale \<open>comparator\<close> says what a comparison has to promise on the items it is
  used with, the correctness of the routines is proved in it.

  Sizes and indices are natural numbers: an array lies in the memory of the program, so
  \<open>n * sz\<close> and every index computed from it stay below \<open>2 ^ 32\<close>.
\<close>

section \<open>The shell sort\<close>

definition item :: "nat \<Rightarrow> bytes \<Rightarrow> nat \<Rightarrow> bytes" where
  "item sz m k = take sz (drop (k * sz) m)"

definition swap_bytes :: "nat \<Rightarrow> nat \<Rightarrow> nat \<Rightarrow> bytes \<Rightarrow> bytes" where
  "swap_bytes a b sz m = fold (\<lambda>i m. m[a + i := m ! (b + i), b + i := m ! (a + i)]) [0..<sz] m"

function qsort_inner :: "(bytes \<Rightarrow> bytes \<Rightarrow> int) \<Rightarrow> nat \<Rightarrow> nat \<Rightarrow> nat \<Rightarrow> bytes \<Rightarrow> bytes" where
  "qsort_inner compare sz gap j m =
    (if gap > 0 \<and> j \<ge> gap \<and> compare (item sz m (j - gap)) (item sz m j) > 0
     then qsort_inner compare sz gap (j - gap) (swap_bytes ((j - gap) * sz) (j * sz) sz m)
     else m)"
  by pat_completeness auto
termination by (relation "measure (\<lambda>(c, s, g, j, m). j)") auto

function qsort_gaps :: "(bytes \<Rightarrow> bytes \<Rightarrow> int) \<Rightarrow> nat \<Rightarrow> nat \<Rightarrow> nat \<Rightarrow> bytes \<Rightarrow> bytes" where
  "qsort_gaps compare sz n gap m =
    (if gap = 0 then m
     else qsort_gaps compare sz n (gap div 2)
            (fold (\<lambda>i m. qsort_inner compare sz gap i m) [gap..<n] m))"
  by pat_completeness auto
termination by (relation "measure (\<lambda>(c, s, n, g, m). g)") auto

definition qsort :: "bytes \<Rightarrow> nat \<Rightarrow> nat \<Rightarrow> (bytes \<Rightarrow> bytes \<Rightarrow> int) \<Rightarrow> bytes" where
  "qsort base n sz compare = qsort_gaps compare sz n (n div 2) base"

declare qsort_inner.simps [simp del] qsort_gaps.simps [simp del]

section \<open>Binary search\<close>

text \<open>The index of the item found; the code returns its address.\<close>

function bsearch_loop ::
  "bytes \<Rightarrow> (bytes \<Rightarrow> bytes \<Rightarrow> int) \<Rightarrow> nat \<Rightarrow> bytes \<Rightarrow> nat \<Rightarrow> nat \<Rightarrow> nat option" where
  "bsearch_loop key compare sz base low high =
    (if low < high then
       let mid = (low + high) div 2;
           res = compare key (item sz base mid)
       in if res = 0 then Some mid
          else if res < 0 then bsearch_loop key compare sz base low mid
          else bsearch_loop key compare sz base (mid + 1) high
     else None)"
  by pat_completeness auto
termination by (relation "measure (\<lambda>(k, c, s, b, l, h). h - l)") auto

definition bsearch :: "bytes \<Rightarrow> bytes \<Rightarrow> nat \<Rightarrow> nat \<Rightarrow> (bytes \<Rightarrow> bytes \<Rightarrow> int) \<Rightarrow> nat option" where
  "bsearch key base n sz compare = bsearch_loop key compare sz base 0 n"

section \<open>The sort program\<close>

text \<open>\<^verbatim>\<open>lines\<close> holds the lines of the text, empty ones are dropped.\<close>

fun split_char :: "u8 \<Rightarrow> bytes list \<times> bytes \<Rightarrow> bytes list \<times> bytes" where
  "split_char c (done, line) =
    (if c \<noteq> 10 \<and> c \<noteq> 0 then (done, line @ [c]) else (if line \<noteq> [] then done @ [line] else done, []))"

definition split_lines :: "bytes \<Rightarrow> bytes list" where
  "split_lines t = fst (fold split_char (t @ [0]) ([], []))"

text \<open>\<open>j\<close> is one more than the \<^verbatim>\<open>j\<close> of the code, which ends at -1.\<close>

fun insert_loop :: "('a \<Rightarrow> 'a \<Rightarrow> int) \<Rightarrow> 'a \<Rightarrow> nat \<Rightarrow> 'a list \<Rightarrow> 'a list" where
  "insert_loop cmp key 0 lines = lines[0 := key]"
| "insert_loop cmp key (Suc j) lines =
    (if cmp (lines ! j) key > 0 then insert_loop cmp key j (lines[Suc j := lines ! j])
     else lines[Suc j := key])"

definition insertion_sort :: "('a \<Rightarrow> 'a \<Rightarrow> int) \<Rightarrow> 'a list \<Rightarrow> 'a list" where
  "insertion_sort cmp lines =
    fold (\<lambda>i lines. insert_loop cmp (lines ! i) i lines) [1..<length lines] lines"

section \<open>Comparisons\<close>

text \<open>\<^verbatim>\<open>strcmp\<close> of \<^verbatim>\<open>src/user/lib/moos.c\<close>.\<close>

fun ustrcmp :: "bytes \<Rightarrow> bytes \<Rightarrow> int" where
  "ustrcmp (a # as) (b # bs) = (if a = b then ustrcmp as bs else uint a - uint b)"
| "ustrcmp [] bs = - uint (chr_at bs 0)"
| "ustrcmp (a # as) [] = uint a"

text \<open>The comparison of \<^verbatim>\<open>int\<close> items, whose difference wraps.\<close>

definition int_item :: "bytes \<Rightarrow> u32" where
  "int_item bs = ucast (bs ! 0) OR push_bit 8 (ucast (bs ! 1)) OR push_bit 16 (ucast (bs ! 2)) OR push_bit 24 (ucast (bs ! 3))"

definition compare_ints :: "bytes \<Rightarrow> bytes \<Rightarrow> int" where
  "compare_ints a b = sint (int_item a - int_item b)"

section \<open>Arrays as lists of items\<close>

text \<open>The items up to \<open>i\<close> are in order but for the one at \<open>j\<close>, which is on its way down.\<close>

definition sifting :: "('a \<Rightarrow> 'a \<Rightarrow> bool) \<Rightarrow> 'a list \<Rightarrow> nat \<Rightarrow> nat \<Rightarrow> bool" where
  "sifting le xs i j \<longleftrightarrow> (\<forall>p q. p < q \<and> q \<le> i \<and> q \<noteq> j \<longrightarrow> le (xs ! p) (xs ! q))"

text \<open>The shell sort on a list of items.\<close>

function shell_inner :: "('a \<Rightarrow> 'a \<Rightarrow> int) \<Rightarrow> nat \<Rightarrow> nat \<Rightarrow> 'a list \<Rightarrow> 'a list" where
  "shell_inner cmp gap j xs =
    (if gap > 0 \<and> j \<ge> gap \<and> cmp (xs ! (j - gap)) (xs ! j) > 0
     then shell_inner cmp gap (j - gap) (xs[j - gap := xs ! j, j := xs ! (j - gap)])
     else xs)"
  by pat_completeness auto
termination by (relation "measure (\<lambda>(c, g, j, m). j)") auto

definition shell_pass :: "('a \<Rightarrow> 'a \<Rightarrow> int) \<Rightarrow> nat \<Rightarrow> nat \<Rightarrow> 'a list \<Rightarrow> 'a list" where
  "shell_pass cmp gap n xs = fold (\<lambda>i xs. shell_inner cmp gap i xs) [gap..<n] xs"

function shell_gaps :: "('a \<Rightarrow> 'a \<Rightarrow> int) \<Rightarrow> nat \<Rightarrow> nat \<Rightarrow> 'a list \<Rightarrow> 'a list" where
  "shell_gaps cmp n gap xs = (if gap = 0 then xs else shell_gaps cmp n (gap div 2) (shell_pass cmp gap n xs))"
  by pat_completeness auto
termination by (relation "measure (\<lambda>(c, n, g, m). g)") auto

declare shell_inner.simps [simp del] shell_gaps.simps [simp del]

lemma shell_inner_perm: "j < length xs \<Longrightarrow> mset (shell_inner cmp gap j xs) = mset xs"
proof (induction cmp gap j xs rule: shell_inner.induct)
  case (1 cmp gap j xs)
  then show ?case by (subst shell_inner.simps) (simp add: mset_swap)
qed

lemma shell_pass_perm: "n \<le> length xs \<Longrightarrow> mset (shell_pass cmp gap n xs) = mset xs"
proof -
  have "mset (fold (\<lambda>i xs. shell_inner cmp gap i xs) is xs) = mset xs"
    if "\<forall>i\<in>set is. i < length xs" for "is" using that
  proof (induction "is" arbitrary: xs)
    case (Cons i "is")
    have m: "mset (shell_inner cmp gap i xs) = mset xs" using Cons.prems by (simp add: shell_inner_perm)
    then have "length (shell_inner cmp gap i xs) = length xs" by (metis size_mset)
    with Cons m show ?case by simp
  qed simp
  then show "n \<le> length xs \<Longrightarrow> ?thesis" by (simp add: shell_pass_def)
qed

lemma shell_gaps_perm: "n \<le> length xs \<Longrightarrow> mset (shell_gaps cmp n gap xs) = mset xs"
proof (induction cmp n gap xs rule: shell_gaps.induct)
  case (1 cmp n gap xs)
  have m: "mset (shell_pass cmp gap n xs) = mset xs" using "1.prems" by (rule shell_pass_perm)
  then have "length (shell_pass cmp gap n xs) = length xs" by (metis size_mset)
  with 1 m show ?case by (subst shell_gaps.simps) simp
qed

text \<open>Shifting a key down is swapping it down.\<close>

lemma insert_loop_swaps:
  "j < length xs \<Longrightarrow> insert_loop cmp key j xs = shell_inner cmp 1 j (xs[j := key])"
proof (induction j arbitrary: xs)
  case 0
  then show ?case by (subst shell_inner.simps) simp
next
  case (Suc j)
  have "shell_inner cmp 1 (Suc j) (xs[Suc j := key])
      = (if cmp (xs ! j) key > 0 then shell_inner cmp 1 j (xs[Suc j := xs ! j, j := key]) else xs[Suc j := key])"
    using Suc.prems by (subst shell_inner.simps) (simp add: list_update_swap)
  then show ?case using Suc by simp
qed

lemma insertion_sort_is_pass: "insertion_sort cmp xs = shell_pass cmp 1 (length xs) xs"
proof -
  have "fold (\<lambda>i xs. insert_loop cmp (xs ! i) i xs) is xs = fold (\<lambda>i xs. shell_inner cmp 1 i xs) is xs"
    if "\<forall>i\<in>set is. i < length xs" for "is" using that
  proof (induction "is" arbitrary: xs)
    case (Cons i "is")
    have e: "insert_loop cmp (xs ! i) i xs = shell_inner cmp 1 i xs"
      using Cons.prems by (simp add: insert_loop_swaps)
    have "length (shell_inner cmp 1 i xs) = length xs"
      using Cons.prems shell_inner_perm [of i xs cmp 1] by (metis list.set_intros(1) size_mset)
    with Cons e show ?case by simp
  qed simp
  then show ?thesis by (simp add: insertion_sort_def shell_pass_def)
qed

section \<open>What a comparison promises\<close>

locale comparator =
  fixes compare :: "'a \<Rightarrow> 'a \<Rightarrow> int" and ok :: "'a \<Rightarrow> bool"
  assumes total: "ok x \<Longrightarrow> ok y \<Longrightarrow> 0 < compare x y \<Longrightarrow> compare y x \<le> 0"
    and trans: "ok x \<Longrightarrow> ok y \<Longrightarrow> ok z \<Longrightarrow> compare x y \<le> 0 \<Longrightarrow> compare y z \<le> 0 \<Longrightarrow> compare x z \<le> 0"
begin

abbreviation le :: "'a \<Rightarrow> 'a \<Rightarrow> bool" where
  "le x y \<equiv> compare x y \<le> 0"

lemma sifting_start:
  assumes "sorted_wrt le (take i xs)" "i < length xs"
  shows "sifting le xs i i"
  using assms by (auto simp: sifting_def sorted_wrt_iff_nth_less)

lemma sifting_step:
  assumes s: "sifting le xs i (Suc j)" and j: "Suc j \<le> i" "i < length xs" and ok: "\<forall>x\<in>set xs. ok x"
    and gt: "0 < compare (xs ! j) (xs ! Suc j)"
  shows "sifting le (xs[j := xs ! Suc j, Suc j := xs ! j]) i j"
proof -
  have "le (xs ! Suc j) (xs ! j)" using total gt ok j by simp
  moreover have "le (xs ! p) (xs ! q)" if "p < q" "q \<le> i" "q \<noteq> Suc j" for p q
    using s that unfolding sifting_def by blast
  ultimately show ?thesis using j unfolding sifting_def by (auto simp: nth_list_update)
qed

lemma sifting_done:
  assumes s: "sifting le xs i j" and j: "j \<le> i" "i < length xs" and ok: "\<forall>x\<in>set xs. ok x"
    and le: "\<And>k. j = Suc k \<Longrightarrow> le (xs ! k) (xs ! j)"
  shows "sorted_wrt le (take (Suc i) xs)"
proof -
  have rest: "le (xs ! p) (xs ! q)" if "p < q" "q \<le> i" "q \<noteq> j" for p q
    using s that unfolding sifting_def by blast
  have at_j: "le (xs ! p) (xs ! j)" if p: "p < j" for p
  proof -
    obtain k where k: "j = Suc k" using p by (cases j) auto
    show ?thesis
    proof (cases "p = k")
      case False
      have "ok (xs ! p)" "ok (xs ! k)" "ok (xs ! j)" using ok j p k by simp_all
      moreover have "le (xs ! p) (xs ! k)" using False p k j by (intro rest) auto
      ultimately show ?thesis using le [OF k] trans by blast
    qed (use le [OF k] in simp)
  qed
  have "le (xs ! p) (xs ! q)" if "p < q" "q \<le> i" for p q
    using that rest at_j by (cases "q = j") auto
  then show ?thesis using j by (simp add: sorted_wrt_iff_nth_less)
qed

lemma inner_sorts:
  assumes "sifting le xs i j" "j \<le> i" "i < length xs" "\<forall>x\<in>set xs. ok x"
  shows "sorted_wrt le (take (Suc i) (shell_inner compare 1 j xs))"
  using assms
proof (induction j arbitrary: xs)
  case 0
  then show ?case by (subst shell_inner.simps) (simp add: sifting_done)
next
  case (Suc j)
  show ?case
  proof (cases "0 < compare (xs ! j) (xs ! Suc j)")
    case True
    let ?ys = "xs[j := xs ! Suc j, Suc j := xs ! j]"
    have "sifting le ?ys i j" using Suc.prems True by (intro sifting_step) auto
    moreover have "mset ?ys = mset xs" using Suc.prems by (intro mset_swap) auto
    then have "set ?ys = set xs" by (rule mset_eq_setD)
    ultimately have "sorted_wrt le (take (Suc i) (shell_inner compare 1 j ?ys))"
      using Suc.prems by (intro Suc.IH) auto
    then show ?thesis using True by (subst shell_inner.simps) simp
  next
    case False
    then have "sorted_wrt le (take (Suc i) xs)" using Suc.prems by (intro sifting_done) auto
    then show ?thesis using False by (subst shell_inner.simps) simp
  qed
qed

lemma pass_sorts:
  assumes "n \<le> length xs" "\<forall>x\<in>set xs. ok x"
  shows "sorted_wrt le (take n (shell_pass compare 1 n xs))"
  using assms
proof (induction n)
  case (Suc n)
  show ?case
  proof (cases "n = 0")
    case True
    then show ?thesis by (cases xs) (simp_all add: shell_pass_def)
  next
    case False
    let ?ys = "shell_pass compare 1 n xs"
    have m: "mset ?ys = mset xs" using Suc.prems by (simp add: shell_pass_perm)
    have len: "length ?ys = length xs" using m by (metis size_mset)
    have "set ?ys = set xs" using m by (rule mset_eq_setD)
    then have "sorted_wrt le (take (Suc n) (shell_inner compare 1 n ?ys))"
      using Suc len by (intro inner_sorts sifting_start) auto
    then show ?thesis using False by (simp add: shell_pass_def)
  qed
qed (simp add: shell_pass_def)

lemma insertion_sorts:
  "\<forall>x\<in>set xs. ok x \<Longrightarrow> sorted_wrt le (insertion_sort compare xs) \<and> mset (insertion_sort compare xs) = mset xs"
proof -
  assume ok: "\<forall>x\<in>set xs. ok x"
  have m: "mset (insertion_sort compare xs) = mset xs"
    unfolding insertion_sort_is_pass by (rule shell_pass_perm) simp
  then have "length (insertion_sort compare xs) = length xs" by (metis size_mset)
  with m show ?thesis using pass_sorts [OF order_refl ok] by (simp add: insertion_sort_is_pass)
qed

lemma gaps_sort:
  assumes "n = length xs" "\<forall>x\<in>set xs. ok x" "gap = 0 \<Longrightarrow> n < 2"
  shows "sorted_wrt le (shell_gaps compare n gap xs)"
  using assms
proof (induction gap arbitrary: xs rule: less_induct)
  case (less gap)
  let ?ys = "shell_pass compare gap n xs"
  have m: "mset ?ys = mset xs" using less.prems by (simp add: shell_pass_perm)
  have len: "length ?ys = length xs" and st: "set ?ys = set xs"
    using m by (metis size_mset, metis mset_eq_setD)
  consider "gap = 0" | "gap = 1" | "1 < gap" by linarith
  then show ?case
  proof cases
    case 1
    then have "length xs \<le> 1" using less.prems by simp
    then show ?thesis using 1 by (subst shell_gaps.simps) (cases xs, auto)
  next
    case 2
    have "sorted_wrt le ?ys" using pass_sorts [of n xs] less.prems 2 len by simp
    then show ?thesis using 2 by (simp add: shell_gaps.simps)
  next
    case 3
    have "sorted_wrt le (shell_gaps compare n (gap div 2) ?ys)"
      using less.prems 3 len st by (intro less.IH) auto
    then show ?thesis using 3 by (subst shell_gaps.simps) simp
  qed
qed

end

section \<open>The bytes of the array\<close>

definition items :: "nat \<Rightarrow> nat \<Rightarrow> bytes \<Rightarrow> bytes list" where
  "items sz n m = map (item sz m) [0..<n]"

lemma swap_bytes_nth:
  assumes "a + s \<le> b \<or> b + s \<le> a" "a + s \<le> length m" "b + s \<le> length m"
  shows "length (swap_bytes a b s m) = length m \<and> (\<forall>k < length m. swap_bytes a b s m ! k =
      (if a \<le> k \<and> k < a + s then m ! (b + (k - a)) else if b \<le> k \<and> k < b + s then m ! (a + (k - b)) else m ! k))"
  using assms
proof (induction s)
  case (Suc s)
  let ?m = "swap_bytes a b s m"
  have IH: "length ?m = length m" "\<And>k. k < length m \<Longrightarrow> ?m ! k = (if a \<le> k \<and> k < a + s then m ! (b + (k - a))
      else if b \<le> k \<and> k < b + s then m ! (a + (k - b)) else m ! k)"
    using Suc by auto
  have "?m ! (a + s) = m ! (a + s)" "?m ! (b + s) = m ! (b + s)"
    using Suc.prems by (subst IH(2); auto)+
  moreover have "swap_bytes a b (Suc s) m = ?m[a + s := ?m ! (b + s), b + s := ?m ! (a + s)]"
    by (simp add: swap_bytes_def)
  ultimately show ?case using Suc.prems by (auto simp: IH nth_list_update)
qed (auto simp: swap_bytes_def)

lemma item_nth:
  assumes "length m = n * sz" "p < n" "i < sz"
  shows "item sz m p ! i = m ! (p * sz + i)"
proof -
  have "Suc p * sz \<le> n * sz" using assms by (intro mult_le_mono1) auto
  then show ?thesis using assms by (simp add: item_def)
qed

lemma item_length:
  assumes "length m = n * sz" "p < n"
  shows "length (item sz m p) = sz"
proof -
  have "Suc p * sz \<le> n * sz" using assms by (intro mult_le_mono1) auto
  then show ?thesis using assms by (simp add: item_def)
qed

lemma item_apart:
  fixes p q sz i :: nat
  assumes "p \<noteq> q" "i < sz"
  shows "\<not> (q * sz \<le> p * sz + i \<and> p * sz + i < q * sz + sz)"
proof (cases "p < q")
  case True
  then have "Suc p * sz \<le> q * sz" by (intro mult_le_mono1) auto
  then show ?thesis using assms by simp
next
  case False
  then have "Suc q * sz \<le> p * sz" using assms by (intro mult_le_mono1) auto
  then show ?thesis using assms by simp
qed

lemma items_swap:
  assumes len: "length m = n * sz" and p: "p < n" and q: "q < n" and pq: "p \<noteq> q"
  shows "items sz n (swap_bytes (p * sz) (q * sz) sz m)
      = (items sz n m)[p := items sz n m ! q, q := items sz n m ! p]"
    and "length (swap_bytes (p * sz) (q * sz) sz m) = n * sz"
proof -
  let ?m = "swap_bytes (p * sz) (q * sz) sz m"
  have le: "Suc p * sz \<le> n * sz" "Suc q * sz \<le> n * sz" using p q by (intro mult_le_mono1; simp)+
  have "Suc p * sz \<le> q * sz \<or> Suc q * sz \<le> p * sz" using pq
    by (cases "p < q") (metis Suc_leI mult_le_mono1, metis Suc_leI linorder_neqE_nat mult_le_mono1)
  then have "p * sz + sz \<le> q * sz \<or> q * sz + sz \<le> p * sz" by (simp add: add.commute)
  note S = swap_bytes_nth [OF this, of m]
  have len': "length ?m = n * sz" and S': "\<And>k. k < n * sz \<Longrightarrow> ?m ! k = (if p * sz \<le> k \<and> k < p * sz + sz then m ! (q * sz + (k - p * sz))
      else if q * sz \<le> k \<and> k < q * sz + sz then m ! (p * sz + (k - q * sz)) else m ! k)"
    using S le len by auto
  show "length ?m = n * sz" by (rule len')
  have it: "item sz ?m k = (if k = p then item sz m q else if k = q then item sz m p else item sz m k)" if k: "k < n" for k
  proof (rule nth_equalityI)
    show "length (item sz ?m k) = length (if k = p then item sz m q else if k = q then item sz m p else item sz m k)"
      using k p q by (simp add: item_length [OF len] item_length [OF len'])
    fix i assume "i < length (item sz ?m k)"
    then have i: "i < sz" using k by (simp add: item_length [OF len'])
    have "Suc k * sz \<le> n * sz" using k by (intro mult_le_mono1) simp
    then have "k * sz + i < n * sz" using i by simp
    then have "item sz ?m k ! i = (if p * sz \<le> k * sz + i \<and> k * sz + i < p * sz + sz then m ! (q * sz + (k * sz + i - p * sz))
      else if q * sz \<le> k * sz + i \<and> k * sz + i < q * sz + sz then m ! (p * sz + (k * sz + i - q * sz)) else m ! (k * sz + i))"
      using k i by (simp add: item_nth [OF len'] S')
    also have "\<dots> = (if k = p then item sz m q else if k = q then item sz m p else item sz m k) ! i"
      using item_apart [of k p i sz] item_apart [of k q i sz] i p q k pq by (auto simp: item_nth [OF len])
    finally show "item sz ?m k ! i = (if k = p then item sz m q else if k = q then item sz m p else item sz m k) ! i" .
  qed
  show "items sz n ?m = (items sz n m)[p := items sz n m ! q, q := items sz n m ! p]"
    by (rule nth_equalityI) (use it p q in \<open>auto simp: items_def nth_list_update\<close>)
qed

lemma qsort_inner_items:
  assumes "length m = n * sz" "j < n"
  shows "length (qsort_inner compare sz gap j m) = n * sz
    \<and> items sz n (qsort_inner compare sz gap j m) = shell_inner compare gap j (items sz n m)"
  using assms
proof (induction compare sz gap j m rule: qsort_inner.induct)
  case (1 compare sz gap j m)
  show ?case
  proof (cases "gap > 0 \<and> gap \<le> j \<and> compare (item sz m (j - gap)) (item sz m j) > 0")
    case True
    note sw = items_swap [OF "1.prems"(1), of "j - gap" j]
    show ?thesis
      using "1.IH" [OF True] sw True "1.prems"
      by (subst (1 2) qsort_inner.simps, subst shell_inner.simps) (auto simp: items_def)
  next
    case False
    then show ?thesis using "1.prems"
      by (subst (1 2) qsort_inner.simps, subst shell_inner.simps) (auto simp: items_def)
  qed
qed

lemma qsort_pass_items:
  assumes "length m = n * sz" "\<forall>i\<in>set is. i < n"
  shows "length (fold (\<lambda>i m. qsort_inner compare sz gap i m) is m) = n * sz
    \<and> items sz n (fold (\<lambda>i m. qsort_inner compare sz gap i m) is m)
      = fold (\<lambda>i xs. shell_inner compare gap i xs) is (items sz n m)"
  using assms by (induction "is" arbitrary: m) (simp_all add: qsort_inner_items)

lemma qsort_gaps_items:
  "length m = n * sz \<Longrightarrow> length (qsort_gaps compare sz n gap m) = n * sz
    \<and> items sz n (qsort_gaps compare sz n gap m) = shell_gaps compare n gap (items sz n m)"
proof (induction compare sz n gap m rule: qsort_gaps.induct)
  case (1 compare sz n gap m)
  then show ?case
    using qsort_pass_items [of m n sz "[gap..<n]" compare gap]
    by (subst (1 2) qsort_gaps.simps, subst shell_gaps.simps) (simp add: shell_pass_def)
qed

lemma items_length [simp]: "length (items sz n m) = n"
  by (simp add: items_def)

context comparator
begin

lemma qsort_sorts_items:
  assumes "xs = items_of m" "n = length xs" "\<forall>x\<in>set xs. ok x"
    and "items_of (res m) = shell_gaps compare n (n div 2) xs"
  shows "sorted_wrt le (items_of (res m)) \<and> mset (items_of (res m)) = mset xs"
  unfolding assms(4) using assms(2,3) gaps_sort [of n xs "n div 2"] shell_gaps_perm [of n xs compare "n div 2"]
  by simp

end

section \<open>The comparisons used\<close>

lemma uint_antisym: "uint a \<le> uint b \<Longrightarrow> uint b \<le> uint a \<Longrightarrow> a = b"
  by (metis order.antisym unsigned_word_eqI)

lemma uint_le_0: "uint a \<le> 0 \<longleftrightarrow> a = 0"
  using uint_ge_0 [of a] by (auto simp: unsigned_eq_0_iff dest: order.antisym)

lemma ustrcmp_empty [simp]: "ustrcmp as [] = uint (chr_at as 0)"
  by (cases as) simp_all

lemma ustrcmp_swap: "ustrcmp b a = - ustrcmp a b"
  by (induction a b rule: ustrcmp.induct) auto

lemma ustrcmp_le:
  "is_cstr a \<Longrightarrow> is_cstr b \<Longrightarrow> is_cstr c \<Longrightarrow> ustrcmp a b \<le> 0 \<Longrightarrow> ustrcmp b c \<le> 0 \<Longrightarrow> ustrcmp a c \<le> 0"
proof (induction a b arbitrary: c rule: ustrcmp.induct)
  case (1 a as b bs)
  show ?case
  proof (cases c)
    case Nil
    then have "b = 0" using "1.prems" by (simp flip: uint_le_0)
    then show ?thesis using "1.prems" by simp
  next
    case (Cons d ds)
    then show ?thesis using 1 by (auto split: if_splits dest: uint_antisym)
  qed
next
  case (2 bs)
  then show ?case by (cases c) simp_all
next
  case (3 a as)
  then show ?case by (simp add: uint_le_0 unsigned_eq_0_iff)
qed

lemma ustrcmp_total: "ustrcmp a b > 0 \<Longrightarrow> ustrcmp b a \<le> 0"
  using ustrcmp_swap [of a b] by simp

interpretation sc: comparator ustrcmp is_cstr
  by unfold_locales (auto intro: ustrcmp_le ustrcmp_total)

text \<open>The sort program prints the lines of its input in ascending order.\<close>

definition lines_ok :: "bytes list \<times> bytes \<Rightarrow> bool" where
  "lines_ok r \<longleftrightarrow> (\<forall>l\<in>set (fst r). is_cstr l) \<and> is_cstr (snd r)"

lemma split_char_ok: "lines_ok r \<Longrightarrow> lines_ok (split_char c r)"
  by (cases r) (auto simp: lines_ok_def)

lemma split_lines_cstr: "\<forall>l\<in>set (split_lines t). is_cstr l"
proof -
  have "lines_ok r \<Longrightarrow> lines_ok (fold split_char cs r)" for cs r
    by (induction cs arbitrary: r) (simp_all add: split_char_ok)
  from this [of "([], [])" "t @ [0]"] show ?thesis by (simp add: lines_ok_def split_lines_def)
qed

lemma sort_program:
  "sorted_wrt (\<lambda>x y. ustrcmp x y \<le> 0) (insertion_sort ustrcmp (split_lines t))
    \<and> mset (insertion_sort ustrcmp (split_lines t)) = mset (split_lines t)"
  by (rule sc.insertion_sorts [OF split_lines_cstr])

text \<open>Differences of \<^verbatim>\<open>int\<close> values below \<open>2 ^ 30\<close> do not wrap.\<close>

definition small_int :: "bytes \<Rightarrow> bool" where
  "small_int bs \<longleftrightarrow> \<bar>sint (int_item bs)\<bar> < 2 ^ 30"

lemma compare_ints_diff:
  "small_int a \<Longrightarrow> small_int b \<Longrightarrow> compare_ints a b = sint (int_item a) - sint (int_item b)"
  unfolding small_int_def compare_ints_def
  by (subst sint_word_ariths(2)) (auto intro!: signed_take_bit_int_eq_self)

interpretation ci: comparator compare_ints small_int
  by unfold_locales (auto simp: compare_ints_diff)

section \<open>Finding an item\<close>

text \<open>In an array whose items compare with the key in ascending order, \<^verbatim>\<open>bsearch\<close> finds an item equal
  to the key exactly when there is one.\<close>

lemma bsearch_loop_correct:
  assumes "\<And>p q. p \<le> q \<Longrightarrow> q < high \<Longrightarrow> compare key (item sz base p) < 0 \<Longrightarrow> compare key (item sz base q) < 0"
    and "\<And>p q. p \<le> q \<Longrightarrow> q < high \<Longrightarrow> compare key (item sz base q) > 0 \<Longrightarrow> compare key (item sz base p) > 0"
  shows "case bsearch_loop key compare sz base low high of
      Some k \<Rightarrow> low \<le> k \<and> k < high \<and> compare key (item sz base k) = 0
    | None \<Rightarrow> \<forall>k. low \<le> k \<and> k < high \<longrightarrow> compare key (item sz base k) \<noteq> 0"
  using assms
proof (induction key compare sz base low high rule: bsearch_loop.induct)
  case (1 key compare sz base low high)
  define mid where "mid = (low + high) div 2"
  define res where "res = compare key (item sz base mid)"
  show ?case
  proof (cases "low < high")
    case True
    then have mid: "low \<le> mid" "mid < high" by (auto simp: mid_def)
    consider "res = 0" | "res < 0" | "res > 0" by linarith
    then show ?thesis
    proof cases
      case 1
      then show ?thesis using True mid
        by (subst bsearch_loop.simps) (simp add: Let_def flip: mid_def res_def)
    next
      case 2
      have "compare key (item sz base k) \<noteq> 0" if "mid \<le> k" "k < high" for k
        using "1.prems"(1) [of mid k] that 2 by (simp add: res_def)
      moreover have "case bsearch_loop key compare sz base low mid of
          Some k \<Rightarrow> low \<le> k \<and> k < mid \<and> compare key (item sz base k) = 0
        | None \<Rightarrow> \<forall>k. low \<le> k \<and> k < mid \<longrightarrow> compare key (item sz base k) \<noteq> 0"
        by (rule "1.IH"(1) [OF True mid_def res_def]) (use 2 mid "1.prems" in auto)
      moreover have "bsearch_loop key compare sz base low high = bsearch_loop key compare sz base low mid"
        using True 2 by (subst bsearch_loop.simps) (simp add: Let_def flip: mid_def res_def)
      ultimately show ?thesis using mid
        by (cases "bsearch_loop key compare sz base low mid") (simp_all, metis not_le)
    next
      case 3
      have "compare key (item sz base k) \<noteq> 0" if "k \<le> mid" for k
        using "1.prems"(2) [of k mid] that 3 mid by (simp add: res_def)
      moreover have "case bsearch_loop key compare sz base (mid + 1) high of
          Some k \<Rightarrow> mid + 1 \<le> k \<and> k < high \<and> compare key (item sz base k) = 0
        | None \<Rightarrow> \<forall>k. mid + 1 \<le> k \<and> k < high \<longrightarrow> compare key (item sz base k) \<noteq> 0"
        by (rule "1.IH"(2) [OF True mid_def res_def]) (use 3 mid "1.prems" in auto)
      moreover have "bsearch_loop key compare sz base low high = bsearch_loop key compare sz base (mid + 1) high"
        using True 3 by (subst bsearch_loop.simps) (simp add: Let_def flip: mid_def res_def)
      ultimately show ?thesis using mid
        by (cases "bsearch_loop key compare sz base (mid + 1) high") (simp_all, metis not_less_eq_eq)
    qed
  next
    case False
    then show ?thesis by (subst bsearch_loop.simps) simp
  qed
qed

lemma bsearch_correct:
  assumes "\<And>p q. p \<le> q \<Longrightarrow> q < n \<Longrightarrow> compare key (item sz base p) < 0 \<Longrightarrow> compare key (item sz base q) < 0"
    and "\<And>p q. p \<le> q \<Longrightarrow> q < n \<Longrightarrow> compare key (item sz base q) > 0 \<Longrightarrow> compare key (item sz base p) > 0"
  shows "case bsearch key base n sz compare of
      Some k \<Rightarrow> k < n \<and> compare key (item sz base k) = 0
    | None \<Rightarrow> \<forall>k < n. compare key (item sz base k) \<noteq> 0"
  using bsearch_loop_correct [of n compare key sz base 0] assms by (auto simp: bsearch_def split: option.splits)

section \<open>The sorting theorem\<close>

text \<open>C27. \<^verbatim>\<open>qsort\<close> sorts: for a comparison that is a total preorder on the items, the items of the
  array come out in ascending order, each as often as before, and the array keeps its length.\<close>

theorem qsort_sorts:
  assumes "length base = n * sz" and "\<forall>x\<in>set (items sz n base). ok x"
    and "\<And>x y. ok x \<Longrightarrow> ok y \<Longrightarrow> 0 < compare x y \<Longrightarrow> compare y x \<le> 0"
    and "\<And>x y z. ok x \<Longrightarrow> ok y \<Longrightarrow> ok z \<Longrightarrow> compare x y \<le> 0 \<Longrightarrow> compare y z \<le> 0 \<Longrightarrow> compare x z \<le> 0"
  shows "sorted_wrt (\<lambda>x y. compare x y \<le> 0) (items sz n (qsort base n sz compare))
    \<and> mset (items sz n (qsort base n sz compare)) = mset (items sz n base)
    \<and> length (qsort base n sz compare) = length base"
proof -
  have c: "comparator compare ok" using assms(3,4) by unfold_locales
  have q: "length (qsort base n sz compare) = n * sz"
    "items sz n (qsort base n sz compare) = shell_gaps compare n (n div 2) (items sz n base)"
    using qsort_gaps_items [OF assms(1)] by (simp_all add: qsort_def)
  show ?thesis
    using comparator.qsort_sorts_items [OF c, of "items sz n base" "items sz n" base n "\<lambda>m. qsort m n sz compare"]
      q assms(1,2) by simp
qed

text \<open>The array of \<^verbatim>\<open>src/user/libctest.c\<close>.\<close>

definition int_bytes :: "u32 \<Rightarrow> bytes" where
  "int_bytes x = [ucast x, ucast (drop_bit 8 x), ucast (drop_bit 16 x), ucast (drop_bit 24 x)]"

theorem qsort_sorts_witness:
  "map (\<lambda>b. sint (int_item b)) (items 4 6 (qsort (concat (map int_bytes [5, - 3, 9, 0, 7, 1])) 6 4 compare_ints))
      = [- 3, 0, 1, 5, 7, 9]
    \<and> sorted_wrt (\<lambda>x y. compare_ints x y \<le> 0) (items 4 6 (qsort (concat (map int_bytes [5, - 3, 9, 0, 7, 1])) 6 4 compare_ints))"
proof
  let ?b = "concat (map int_bytes [5, - 3, 9, 0, 7, 1])"
  show "map (\<lambda>b. sint (int_item b)) (items 4 6 (qsort ?b 6 4 compare_ints)) = [- 3, 0, 1, 5, 7, 9]"
    by code_simp
  have "\<forall>x\<in>set (items 4 6 ?b). small_int x" by code_simp
  moreover have "length ?b = 6 * 4" by (simp add: int_bytes_def)
  ultimately show "sorted_wrt (\<lambda>x y. compare_ints x y \<le> 0) (items 4 6 (qsort ?b 6 4 compare_ints))"
    using qsort_sorts [of ?b 6 4 small_int compare_ints] ci.total ci.trans by blast
qed

end
