(* ===== verification/UserHeap.thy ===== *)
theory UserHeap
  imports Task
begin

text \<open>
  The heap of a program, \<^verbatim>\<open>malloc\<close>, \<^verbatim>\<open>free\<close>, \<^verbatim>\<open>calloc\<close> and \<^verbatim>\<open>realloc\<close> of
  \<^verbatim>\<open>src/user/lib/moos.c\<close>: a first fit allocator over the program break.

  The chain of headers from \<^verbatim>\<open>heap_head\<close> on is the list of its blocks in chain order, its last one is
  \<^verbatim>\<open>heap_tail\<close>. A block starts with its header of 16 bytes; what programs keep in the payloads is the
  memory \<open>umem\<close>. The system call \<^verbatim>\<open>sbrk\<close> is an argument, the locale \<open>program_break\<close> says what
  the allocator needs of it, and \<open>task_sbrk\<close> of the kernel provides it.
\<close>

section \<open>The code\<close>

record ublock =
  b_addr :: u32
  b_size :: u32     \<comment> \<open>payload bytes after the header\<close>
  b_free :: bool

record 's uheap =
  ublocks :: "ublock list"
  umem :: "u32 \<Rightarrow> u8"
  os :: 's          \<comment> \<open>the state of the kernel\<close>

abbreviation (input) HEADER_SIZE :: u32 where "HEADER_SIZE \<equiv> 16"
abbreviation (input) MIN_SPLIT :: u32 where "MIN_SPLIT \<equiv> 24"

definition block_payload :: "ublock \<Rightarrow> u32" where
  "block_payload b = b_addr b + HEADER_SIZE"

definition round_up8 :: "u32 \<Rightarrow> u32" where
  "round_up8 n = (n + 7) AND NOT 7"

text \<open>The first free block that is large enough, split when the rest can be a block.\<close>

fun fit_loop :: "u32 \<Rightarrow> ublock list \<Rightarrow> (ublock list \<times> u32) option" where
  "fit_loop n [] = None"
| "fit_loop n (b # bs) =
    (if \<not> b_free b \<or> b_size b < n then map_option (\<lambda>(bs, p). (b # bs, p)) (fit_loop n bs)
     else if b_size b \<ge> n + MIN_SPLIT
          then Some (b\<lparr>b_size := n, b_free := False\<rparr>
                     # \<lparr>b_addr = block_payload b + n, b_size = b_size b - n - HEADER_SIZE, b_free = True\<rparr> # bs,
                     block_payload b)
          else Some (b\<lparr>b_free := False\<rparr> # bs, block_payload b))"

definition umalloc :: "('s \<Rightarrow> u32 \<Rightarrow> 's \<times> u32) \<Rightarrow> u32 \<Rightarrow> 's uheap \<Rightarrow> 's uheap \<times> u32" where
  "umalloc sbrk sz h =
    (if sz = 0 then (h, 0)
     else let n = round_up8 sz
          in case fit_loop n (ublocks h) of
               Some (bs, p) \<Rightarrow> (h\<lparr>ublocks := bs\<rparr>, p)
             | None \<Rightarrow>
                 (case sbrk (os h) (HEADER_SIZE + n) of (s, a) \<Rightarrow>
                   if a = 0 then (h\<lparr>os := s\<rparr>, 0)
                   else let b = \<lparr>b_addr = a, b_size = n, b_free = False\<rparr>
                        in (h\<lparr>os := s, ublocks := ublocks h @ [b]\<rparr>, block_payload b)))"

text \<open>Free neighbours become one block.\<close>

function merge_blocks :: "ublock list \<Rightarrow> ublock list" where
  "merge_blocks [] = []"
| "merge_blocks [b] = [b]"
| "merge_blocks (b # c # bs) =
    (if b_free b \<and> b_free c then merge_blocks (b\<lparr>b_size := b_size b + (HEADER_SIZE + b_size c)\<rparr> # bs)
     else b # merge_blocks (c # bs))"
  by pat_completeness auto
termination by (relation "measure length") auto

definition ufree :: "u32 \<Rightarrow> 's uheap \<Rightarrow> 's uheap" where
  "ufree p h =
    (if p = 0 then h
     else h\<lparr>ublocks := merge_blocks (map (\<lambda>b. if b_addr b = p - HEADER_SIZE then b\<lparr>b_free := True\<rparr> else b) (ublocks h))\<rparr>)"

text \<open>\<^verbatim>\<open>memset\<close> and \<^verbatim>\<open>memcpy\<close> on the memory of the program.\<close>

fun fill_mem :: "u32 \<Rightarrow> bytes \<Rightarrow> (u32 \<Rightarrow> u8) \<Rightarrow> u32 \<Rightarrow> u8" where
  "fill_mem a [] m = m"
| "fill_mem a (c # cs) m = fill_mem (a + 1) cs (m(a := c))"

definition mem_bytes :: "(u32 \<Rightarrow> u8) \<Rightarrow> u32 \<Rightarrow> nat \<Rightarrow> bytes" where
  "mem_bytes m a n = map (\<lambda>i. m (a + of_nat i)) [0..<n]"

definition ucalloc :: "('s \<Rightarrow> u32 \<Rightarrow> 's \<times> u32) \<Rightarrow> u32 \<Rightarrow> u32 \<Rightarrow> 's uheap \<Rightarrow> 's uheap \<times> u32" where
  "ucalloc sbrk n sz h =
    (let total = n * sz
     in if sz \<noteq> 0 \<and> total div sz \<noteq> n then (h, 0)
        else case umalloc sbrk total h of (h, p) \<Rightarrow>
          if p = 0 then (h, 0) else (h\<lparr>umem := fill_mem p (replicate (unat total) 0) (umem h)\<rparr>, p))"

text \<open>\<open>None\<close>: there is no block with that payload.\<close>

definition block_at :: "u32 \<Rightarrow> ublock list \<Rightarrow> ublock option" where
  "block_at p bs = find (\<lambda>b. b_addr b = p - HEADER_SIZE) bs"

definition urealloc :: "('s \<Rightarrow> u32 \<Rightarrow> 's \<times> u32) \<Rightarrow> u32 \<Rightarrow> u32 \<Rightarrow> 's uheap \<Rightarrow> ('s uheap \<times> u32) option" where
  "urealloc sbrk p sz h =
    (if p = 0 then Some (umalloc sbrk sz h)
     else case block_at p (ublocks h) of
            None \<Rightarrow> None
          | Some b \<Rightarrow>
              Some (if b_size b \<ge> sz then (h, p)
                    else case umalloc sbrk sz h of (h, q) \<Rightarrow>
                      if q = 0 then (h, 0)
                      else (ufree p (h\<lparr>umem := fill_mem q (mem_bytes (umem h) p (unat (b_size b))) (umem h)\<rparr>), q)))"

section \<open>The layout\<close>

text \<open>Headers and payloads follow each other without a gap from address \<open>a\<close> to address \<open>e\<close>.\<close>

fun laid_out :: "nat \<Rightarrow> ublock list \<Rightarrow> nat \<Rightarrow> bool" where
  "laid_out a [] e \<longleftrightarrow> a = e"
| "laid_out a (b # bs) e \<longleftrightarrow> unat (b_addr b) = a \<and> unat (b_size b) mod 8 = 0 \<and> laid_out (a + 16 + unat (b_size b)) bs e"

text \<open>The allocations: the payloads in use and their sizes.\<close>

fun in_use :: "ublock list \<Rightarrow> u32 \<Rightarrow> u32 option" where
  "in_use [] p = None"
| "in_use (b # bs) p = (if block_payload b = p \<and> \<not> b_free b then Some (b_size b) else in_use bs p)"

lemma laid_out_le: "laid_out a bs e \<Longrightarrow> a \<le> e"
  by (induction bs arbitrary: a) fastforce+

lemma laid_out_append: "laid_out a (bs @ cs) e \<longleftrightarrow> (\<exists>m. laid_out a bs m \<and> laid_out m cs e)"
  by (induction bs arbitrary: a) auto

lemma mod8: "x mod 8 = 0 \<Longrightarrow> (a + 16 + x) mod 8 = (a :: nat) mod 8"
  by (metis add.right_neutral mod_add_right_eq mod_mult_self2_is_0 numeral_Bit0_eq_double)

lemma payload_nat:
  assumes "laid_out a (b # bs) e" "e < 2 ^ 32"
  shows "unat (block_payload b) = a + 16" "a + 16 + unat (b_size b) \<le> e"
proof -
  have a: "unat (b_addr b) = a" "a + 16 + unat (b_size b) \<le> e" using assms(1) laid_out_le by auto
  then show "unat (block_payload b) = a + 16" using assms(2) by (simp add: block_payload_def unat_word_ariths)
  show "a + 16 + unat (b_size b) \<le> e" by (rule a(2))
qed

text \<open>Every allocation lies in the blocks, and later blocks lie behind earlier ones.\<close>

lemma in_use_range:
  "laid_out a bs e \<Longrightarrow> e < 2 ^ 32 \<Longrightarrow> in_use bs p = Some n \<Longrightarrow>
   a + 16 \<le> unat p \<and> unat p + unat n \<le> e \<and> (a mod 8 = 0 \<longrightarrow> unat p mod 8 = 0)"
proof (induction bs arbitrary: a)
  case (Cons b bs)
  note P = payload_nat [OF Cons.prems(1,2)]
  show ?case
  proof (cases "block_payload b = p \<and> \<not> b_free b")
    case True
    then have p: "unat p = a + 16" "n = b_size b" using Cons.prems(3) P(1) by auto
    have "(a + 16) mod 8 = a mod 8" using mod8 [of 0 a] by simp
    then show ?thesis using p P(2) by simp
  next
    case False
    have l: "laid_out (a + 16 + unat (b_size b)) bs e" "unat (b_size b) mod 8 = 0" using Cons.prems(1) by simp_all
    have "in_use bs p = Some n" using Cons.prems(3) False by (simp split: if_splits)
    note I = Cons.IH [OF l(1) Cons.prems(2) this]
    have "(a + 16 + unat (b_size b)) mod 8 = a mod 8" by (rule mod8 [OF l(2)])
    then show ?thesis using I by linarith
  qed
qed simp

text \<open>Two allocations never overlap.\<close>

lemma in_use_disjoint:
  "laid_out a bs e \<Longrightarrow> e < 2 ^ 32 \<Longrightarrow> in_use bs p = Some n \<Longrightarrow> in_use bs q = Some m \<Longrightarrow> p \<noteq> q \<Longrightarrow>
   unat p + unat n \<le> unat q \<or> unat q + unat m \<le> unat p"
proof (induction bs arbitrary: a)
  case (Cons b bs)
  note P = payload_nat [OF Cons.prems(1,2)]
  have l: "laid_out (a + 16 + unat (b_size b)) bs e" using Cons.prems(1) by simp
  consider "block_payload b = p" "\<not> b_free b" | "block_payload b = q" "\<not> b_free b" "block_payload b \<noteq> p"
    | "\<not> (block_payload b = p \<and> \<not> b_free b)" "\<not> (block_payload b = q \<and> \<not> b_free b)" by blast
  then show ?case
  proof cases
    case 1
    then have "in_use bs q = Some m" using Cons.prems(4,5) by auto
    then show ?thesis using in_use_range [OF l Cons.prems(2)] 1 P Cons.prems(3) by fastforce
  next
    case 2
    then have "in_use bs p = Some n" using Cons.prems(3) by auto
    then show ?thesis using in_use_range [OF l Cons.prems(2)] 2 P Cons.prems(4) by fastforce
  next
    case 3
    then have "in_use bs p = Some n" "in_use bs q = Some m" using Cons.prems(3,4) by (simp_all split: if_splits)
    then show ?thesis using Cons.IH [OF l Cons.prems(2)] Cons.prems(5) by blast
  qed
qed simp

section \<open>Taking and giving back\<close>

lemma sint_small_u32:
  assumes "unat (n :: u32) < 2 ^ 31"
  shows "sint n = int (unat n)"
proof -
  have "uint n = int (unat n)" by simp
  also have "\<dots> < int (2 ^ 31)" using assms by (rule iffD2 [OF of_nat_less_iff])
  finally have "signed_take_bit 31 (uint n) = uint n"
    by (intro signed_take_bit_int_eq_self) (auto intro: order.trans [OF _ unsigned_greater_eq])
  then show ?thesis unfolding sint_uint by simp
qed

lemma round_up8_nat:
  assumes "unat n + 7 < 2 ^ 32"
  shows "unat (round_up8 n) = (unat n + 7) div 8 * 8"
proof -
  have "(7 :: u32) = mask 3" by (simp add: mask_eq_exp_minus_1)
  then have "round_up8 n = (n + 7) AND NOT (mask 3)" by (simp add: round_up8_def)
  also have "\<dots> = push_bit 3 (drop_bit 3 (n + 7))" by (rule bit_word_eqI) (auto simp: bit_simps)
  also have "\<dots> = (n + 7) div 8 * 8" by (simp add: push_bit_eq_mult drop_bit_eq_div)
  finally have r: "round_up8 n = (n + 7) div 8 * 8" .
  have "unat (n + 7) = unat n + 7" using assms by (simp add: unat_word_ariths)
  then have d: "unat ((n + 7) div 8) = (unat n + 7) div 8" by (simp add: unat_div)
  have "(unat n + 7) div 8 * 8 < 2 ^ 32" using assms by (meson div_times_less_eq_dividend le_less_trans)
  then show ?thesis unfolding r by (simp add: unat_word_ariths d)
qed

lemma fit_loop_ok:
  "laid_out a bs e \<Longrightarrow> e < 2 ^ 32 \<Longrightarrow> unat n mod 8 = 0 \<Longrightarrow> unat n + 24 < 2 ^ 32 \<Longrightarrow> fit_loop n bs = Some (bs', p) \<Longrightarrow>
   laid_out a bs' e \<and> in_use bs p = None \<and> p \<noteq> 0 \<and> (\<exists>m. n \<le> m \<and> in_use bs' = (in_use bs)(p \<mapsto> m))"
proof (induction bs arbitrary: a bs')
  case (Cons b bs)
  note P = payload_nat [OF Cons.prems(1,2)]
  have l: "unat (b_addr b) = a" "unat (b_size b) mod 8 = 0" "laid_out (a + 16 + unat (b_size b)) bs e"
    using Cons.prems(1) by simp_all
  show ?case
  proof (cases "\<not> b_free b \<or> b_size b < n")
    case True
    then obtain cs where cs: "fit_loop n bs = Some (cs, p)" "bs' = b # cs" using Cons.prems(5) by auto
    obtain m where IH: "laid_out (a + 16 + unat (b_size b)) cs e" "in_use bs p = None" "p \<noteq> 0" "n \<le> m" "in_use cs = (in_use bs)(p \<mapsto> m)"
      using Cons.IH [OF l(3) Cons.prems(2-4) cs(1)] by blast
    have "in_use cs p = Some m" using IH(5) by simp
    then have "block_payload b \<noteq> p" using in_use_range [OF IH(1) Cons.prems(2)] P(1) by fastforce
    then have "in_use (b # bs) p = None" "in_use (b # cs) = (in_use (b # bs))(p \<mapsto> m)" using IH(2,5) by (auto simp: fun_eq_iff)
    moreover have "laid_out a bs' e" using IH(1) l cs(2) by simp
    ultimately show ?thesis using IH(3,4) cs(2) by blast
  next
    case False
    then have f: "b_free b" "n \<le> b_size b" by auto
    have pn: "p = block_payload b" using Cons.prems(5) False by (auto split: if_splits)
    then have p0: "p \<noteq> 0" using P(1) by auto
    have ib: "in_use (b # bs) = in_use bs" using f(1) by (simp add: fun_eq_iff)
    have none: "in_use bs p = None"
      using in_use_range [OF l(3) Cons.prems(2), of p] P(1) pn by (cases "in_use bs p") auto
    show ?thesis
    proof (cases "n + MIN_SPLIT \<le> b_size b")
      case True
      let ?r = "\<lparr>b_addr = block_payload b + n, b_size = b_size b - n - HEADER_SIZE, b_free = True\<rparr>"
      have bs': "bs' = b\<lparr>b_size := n, b_free := False\<rparr> # ?r # bs" using Cons.prems(5) False True by auto
      have n24: "unat (n + 24) = unat n + 24" using Cons.prems(4) by (simp add: unat_word_ariths)
      then have le: "unat n + 24 \<le> unat (b_size b)" using True by (simp add: word_le_nat_alt)
      have "unat (b_size b - n) = unat (b_size b) - unat n" using f(2) by (simp add: unat_sub)
      then have rs: "unat (b_size b - n - HEADER_SIZE) = unat (b_size b) - unat n - 16" using le by (simp add: unat_sub word_le_nat_alt)
      have ra: "unat (block_payload b + n) = a + 16 + unat n"
        using P le Cons.prems(2) by (simp add: unat_word_ariths)
      have "(unat (b_size b) - unat n - 16) mod 8 = 0" using le l(2) Cons.prems(3) by presburger
      moreover have "a + 16 + unat n + 16 + (unat (b_size b) - unat n - 16) = a + 16 + unat (b_size b)" using le by linarith
      then have "laid_out (a + 16 + unat n + 16 + (unat (b_size b) - unat n - 16)) bs e" using l(3) by (simp only:)
      ultimately have "laid_out a bs' e" using l(1) ra rs Cons.prems(3) by (simp add: bs')
      moreover have "in_use bs' = (in_use (b # bs))(p \<mapsto> n)"
        using f(1) pn by (auto simp: bs' fun_eq_iff block_payload_def)
      ultimately show ?thesis using none p0 by (intro conjI exI [of _ n]) (simp_all only: ib order_refl simp_thms)
    next
      case False
      then have bs': "bs' = b\<lparr>b_free := False\<rparr> # bs" using Cons.prems(5) f leD [OF f(2)] by auto
      have "laid_out a bs' e" using Cons.prems(1) by (simp add: bs')
      moreover have "in_use bs' = (in_use (b # bs))(p \<mapsto> b_size b)"
        using f(1) pn by (auto simp: bs' fun_eq_iff block_payload_def)
      ultimately show ?thesis using none p0 f(2) by (intro conjI exI [of _ "b_size b"]) (simp_all only: ib simp_thms)
    qed
  qed
qed simp

lemma merge_ok:
  "laid_out a bs e \<Longrightarrow> e < 2 ^ 32 \<Longrightarrow> laid_out a (merge_blocks bs) e \<and> in_use (merge_blocks bs) = in_use bs"
proof (induction bs arbitrary: a rule: merge_blocks.induct)
  case (3 b c bs)
  have l: "unat (b_addr b) = a" "unat (b_size b) mod 8 = 0" "unat (b_addr c) = a + 16 + unat (b_size b)"
    "unat (b_size c) mod 8 = 0" "laid_out (a + 16 + unat (b_size b) + 16 + unat (b_size c)) bs e"
    using "3.prems"(1) by simp_all
  show ?case
  proof (cases "b_free b \<and> b_free c")
    case True
    let ?b = "b\<lparr>b_size := b_size b + (HEADER_SIZE + b_size c)\<rparr>"
    have le: "a + 16 + unat (b_size b) + 16 + unat (b_size c) \<le> e" by (rule laid_out_le [OF l(5)])
    have "unat (HEADER_SIZE + b_size c) = 16 + unat (b_size c)" using le "3.prems"(2) by (simp add: unat_word_ariths)
    then have sz: "unat (b_size ?b) = unat (b_size b) + 16 + unat (b_size c)" using le "3.prems"(2) by (simp add: unat_word_ariths)
    have "(unat (b_size b) + 16 + unat (b_size c)) mod 8 = 0" using l(2,4) by presburger
    then have "laid_out a (?b # bs) e" using l(1,5) sz by (simp add: add.assoc)
    then show ?thesis using "3.IH"(1) [OF True _ "3.prems"(2)] True by (auto simp: fun_eq_iff)
  next
    case False
    have "laid_out (a + 16 + unat (b_size b)) (c # bs) e" using "3.prems"(1) by simp
    then show ?thesis using "3.IH"(2) [OF False _ "3.prems"(2)] False "3.prems"(1) by (auto simp: fun_eq_iff)
  qed
qed auto

lemma free_map_ok:
  assumes "e < 2 ^ 32"
  shows "laid_out a bs e \<Longrightarrow>
    laid_out a (map (\<lambda>b. if b_addr b = p - HEADER_SIZE then b\<lparr>b_free := True\<rparr> else b) bs) e
    \<and> in_use (map (\<lambda>b. if b_addr b = p - HEADER_SIZE then b\<lparr>b_free := True\<rparr> else b) bs) = (in_use bs)(p := None)"
proof (induction bs arbitrary: a)
  case (Cons b bs)
  have q: "b_addr b = p - HEADER_SIZE \<longleftrightarrow> block_payload b = p" by (auto simp: block_payload_def)
  have l: "laid_out (a + 16 + unat (b_size b)) bs e" using Cons.prems by simp
  have "in_use bs (block_payload b) = None"
    using in_use_range [OF l assms, of "block_payload b"] payload_nat(1) [OF Cons.prems assms]
    by (cases "in_use bs (block_payload b)") auto
  then show ?case using Cons.IH [OF l] Cons.prems by (auto simp: q fun_eq_iff block_payload_def)
qed (simp add: fun_eq_iff)

text \<open>The blocks fill the program's heap from its start to the break.\<close>

definition uheap_inv :: "('s \<Rightarrow> bool) \<Rightarrow> ('s \<Rightarrow> u32) \<Rightarrow> nat \<Rightarrow> 's uheap \<Rightarrow> bool" where
  "uheap_inv ok brk_of start h \<longleftrightarrow> ok (os h) \<and> start mod 8 = 0 \<and> laid_out start (ublocks h) (unat (brk_of (os h)))"

section \<open>The contract with the kernel\<close>

text \<open>Growing the heap gives the old end of it, or 0 and no memory.\<close>

locale program_break =
  fixes sbrk :: "'s \<Rightarrow> u32 \<Rightarrow> 's \<times> u32"
    and brk_of :: "'s \<Rightarrow> u32"
    and ok :: "'s \<Rightarrow> bool"
  assumes sbrk_ok: "ok s \<Longrightarrow> 0 < sint n \<Longrightarrow> ok (fst (sbrk s n))"
    and sbrk_null: "ok s \<Longrightarrow> 0 < sint n \<Longrightarrow> sbrk s n = (s', 0) \<Longrightarrow> brk_of s' = brk_of s"
    and sbrk_new: "ok s \<Longrightarrow> 0 < sint n \<Longrightarrow> sbrk s n = (s', a) \<Longrightarrow> a \<noteq> 0 \<Longrightarrow>
      a = brk_of s \<and> unat (brk_of s') = unat (brk_of s) + unat n"
begin

lemma malloc_ok:
  assumes h: "uheap_inv ok brk_of start h" and n: "0 < n" "unat n < 2 ^ 31 - 32" and m: "umalloc sbrk n h = (h', p)"
  shows "uheap_inv ok brk_of start h' \<and> umem h' = umem h \<and>
    (if p = 0 then in_use (ublocks h') = in_use (ublocks h)
     else in_use (ublocks h) p = None \<and> (\<exists>sz. n \<le> sz \<and> in_use (ublocks h') = (in_use (ublocks h))(p \<mapsto> sz)))"
proof -
  let ?n = "round_up8 n"
  have nz: "n \<noteq> 0" using n(1) by auto
  have r: "unat ?n = (unat n + 7) div 8 * 8" using n(2) by (intro round_up8_nat) simp
  have n8: "unat ?n mod 8 = 0" "unat n \<le> unat ?n" "unat ?n + 24 < 2 ^ 31" using n(2) unfolding r by presburger+
  have le: "n \<le> ?n" using n8(2) by (simp add: word_le_nat_alt)
  note H = h [unfolded uheap_inv_def]
  have e: "unat (brk_of (os h)) < 2 ^ 32" using unat_u32_less by simp
  show ?thesis
  proof (cases "fit_loop ?n (ublocks h)")
    case (Some x)
    obtain bs q where x: "x = (bs, q)" by fastforce
    have hp: "h' = h\<lparr>ublocks := bs\<rparr>" "p = q" using m nz Some x by (auto simp: umalloc_def)
    have lo: "laid_out start (ublocks h) (unat (brk_of (os h)))" using H by simp
    have "laid_out start bs (unat (brk_of (os h))) \<and> in_use (ublocks h) q = None \<and> q \<noteq> 0
      \<and> (\<exists>sz. ?n \<le> sz \<and> in_use bs = (in_use (ublocks h))(q \<mapsto> sz))"
      by (rule fit_loop_ok [OF lo e n8(1) _ Some [unfolded x]]) (use n8(3) in simp)
    then show ?thesis using H le hp by (auto simp: uheap_inv_def intro: order_trans)
  next
    case None
    obtain s a where s: "sbrk (os h) (HEADER_SIZE + ?n) = (s, a)" by fastforce
    have u: "unat (HEADER_SIZE + ?n) = 16 + unat ?n" using n8(3) by (simp add: unat_word_ariths)
    have pos: "0 < sint (HEADER_SIZE + ?n)" using n8(3) u sint_small_u32 [of "HEADER_SIZE + ?n"] by (simp add: add_pos_nonneg)
    have okh: "ok (os h)" using H by simp
    have oks: "ok s" using sbrk_ok [OF okh pos] s by simp
    show ?thesis
    proof (cases "a = 0")
      case True
      then have "h' = h\<lparr>os := s\<rparr>" "p = 0" using m nz None s by (auto simp: umalloc_def)
      then show ?thesis using H oks sbrk_null [OF okh pos] s True by (simp add: uheap_inv_def)
    next
      case False
      note S = sbrk_new [OF okh pos s False]
      let ?b = "\<lparr>b_addr = a, b_size = ?n, b_free = False\<rparr>"
      have h': "h' = h\<lparr>os := s, ublocks := ublocks h @ [?b]\<rparr>" "p = block_payload ?b"
        using m nz None s False by (auto simp: umalloc_def Let_def)
      have lo: "laid_out start (ublocks h) (unat a)" using H S by simp
      have b1: "laid_out (unat a) [?b] (unat (brk_of s))" using S u n8(1) by simp
      have "laid_out start (ublocks h') (unat (brk_of s))" using lo b1 by (auto simp: h' laid_out_append)
      then have inv: "uheap_inv ok brk_of start h'" using H oks by (simp add: uheap_inv_def h')
      have pn: "unat p = unat a + 16" using payload_nat(1) [OF b1] unat_u32_less h'(2) by simp
      have free: "in_use (ublocks h) p = None"
      proof (cases "in_use (ublocks h) p")
        case (Some k)
        then have "unat p + unat k \<le> unat a" using in_use_range [OF lo _ Some] unat_u32_less by simp
        then show ?thesis using pn by simp
      qed simp
      have "in_use (bs @ [?b]) = (in_use [?b]) ++ in_use bs" for bs by (induction bs) (auto simp: fun_eq_iff map_add_def)
      then have "in_use (ublocks h') = (in_use (ublocks h))(p \<mapsto> ?n)"
        using free h'(2) by (auto simp: h'(1) fun_eq_iff map_add_def split: option.splits)
      moreover have "p \<noteq> 0" using pn by auto
      ultimately show ?thesis using inv free le h' by auto
    qed
  qed
qed

lemma free_ok:
  assumes "uheap_inv ok brk_of start h" "p \<noteq> 0"
  shows "uheap_inv ok brk_of start (ufree p h) \<and> umem (ufree p h) = umem h
    \<and> in_use (ublocks (ufree p h)) = (in_use (ublocks h))(p := None)"
proof -
  have e: "unat (brk_of (os h)) < 2 ^ 32" using unat_u32_less by simp
  let ?bs = "map (\<lambda>b. if b_addr b = p - HEADER_SIZE then b\<lparr>b_free := True\<rparr> else b) (ublocks h)"
  have "laid_out start (ublocks h) (unat (brk_of (os h)))" using assms(1) by (simp add: uheap_inv_def)
  note F = free_map_ok [OF e this, of p]
  then show ?thesis using merge_ok [OF conjunct1 [OF F] e] assms by (simp add: ufree_def uheap_inv_def)
qed

end

section \<open>The kernel provides it\<close>

lemma copy_more: "mm_state.more (fst (task_copy_to_user m d va src len w)) = mm_state.more m"
proof (induction m d va src len w rule: task_copy_to_user.induct)
  case (1 m d va src len w)
  have tab: "mm_state.more (fst (calloc_table m)) = mm_state.more m" "mm_state.more (fst (calloc_page m)) = mm_state.more m"
    for m :: "'a mm_state_scheme" by (simp_all add: calloc_table_def calloc_page_def Let_def split: prod.splits)
  have set: "mm_state.more (entry_set m t i v) = mm_state.more m" "mm_state.more (write_page m q n bs) = mm_state.more m"
    for m :: "'a mm_state_scheme" and t i v q n bs by (simp_all add: entry_set_def write_page_def)
  have ent: "mm_state.more (fst (page_dir_user_entry m d va c)) = mm_state.more m" for m :: "'a mm_state_scheme" and va c
    using tab(1) [of m] by (auto simp: page_dir_user_entry_def Let_def set case_prod_beta split: option.splits)
  have page: "mm_state.more (fst (task_user_page m d va w)) = mm_state.more m" for m :: "'a mm_state_scheme" and va
  proof -
    obtain m1 r where e: "page_dir_user_entry m d va True = (m1, r)" by fastforce
    then have "mm_state.more m1 = mm_state.more m" using ent [of m va True] by simp
    then show ?thesis using tab(2) [of m1]
      by (auto simp: task_user_page_def e Let_def set case_prod_beta split: option.splits)
  qed
  show ?case
  proof (cases "len = 0")
    case False
    obtain m1 q where u: "task_user_page m d va w = (m1, q)" by fastforce
    have m1: "mm_state.more m1 = mm_state.more m" using page [of m va] u by simp
    show ?thesis
    proof (cases "q = 0")
      case True
      then show ?thesis using False u m1 by (simp add: task_copy_to_user.simps [of m])
    next
      case nz: False
      let ?c = "min (4096 - unat (va mod PAGE_SIZE)) len"
      define m2 where "m2 = (case src of Some bs \<Rightarrow> write_page m1 q (unat (va mod PAGE_SIZE)) (take ?c bs) | None \<Rightarrow> m1)"
      have "mm_state.more m2 = mm_state.more m" using m1 by (simp add: m2_def set split: option.split)
      then show ?thesis
        using "1.IH" [OF False u [symmetric] refl nz refl refl m2_def] False u nz
        by (subst task_copy_to_user.simps) (simp add: Let_def flip: m2_def)
    qed
  qed (simp add: task_copy_to_user.simps [of m])
qed

lemma more_kernel:
  "mm_state.more k' = mm_state.more k \<Longrightarrow> task_table k' = task_table k \<and> task_running k' = task_running k"
  by (cases k; cases k') simp

definition program_ok :: "'a kernel_scheme \<Rightarrow> bool" where
  "program_ok k \<longleftrightarrow> task_running k < length (task_table k) \<and> USER_CODE_ADDR \<le> brk_start (running_task k)
    \<and> brk_start (running_task k) \<le> brk (running_task k) \<and> brk (running_task k) \<le> USER_HEAP_LIMIT"

definition program_brk :: "'a kernel_scheme \<Rightarrow> u32" where
  "program_brk k = brk (running_task k)"

lemma task_sbrk_cases:
  assumes k: "program_ok k" and n: "0 < sint n" and r: "task_sbrk n k = (k', a)"
  shows "a = 0 \<and> program_brk k' = program_brk k \<and> program_ok k'
    \<or> a \<noteq> 0 \<and> a = program_brk k \<and> program_ok k' \<and> unat (program_brk k') = unat (program_brk k) + unat n"
proof (cases "(sint n > 0 \<and> brk (running_task k) + n < brk (running_task k)) \<or> brk (running_task k) + n < brk_start (running_task k)
      \<or> brk (running_task k) + n > USER_HEAP_LIMIT")
  case True
  then show ?thesis using r k by (auto simp: task_sbrk_def Let_def)
next
  case False
  note K = k [unfolded program_ok_def]
  let ?old = "brk (running_task k)"
  have grow: "?old \<le> ?old + n" "brk_start (running_task k) \<le> ?old + n" "?old + n \<le> USER_HEAP_LIMIT" using False n by auto
  have plus: "unat (?old + n) = unat ?old + unat n" using grow(1) by (simp add: unat_plus_simple)
  have nz: "?old \<noteq> 0" using K by auto
  define c where "c = (if ?old + n > ?old then task_copy_to_user k (dir (running_task k)) ?old None (unat (?old + n - ?old)) True else (k, None))"
  have "mm_state.more (fst c) = mm_state.more k" by (simp add: c_def copy_more)
  then have same: "task_table (fst c) = task_table k" "task_running (fst c) = task_running k" using more_kernel by blast+
  have r': "(k', a) = (case snd c of Some e \<Rightarrow> (fst c, 0) | None \<Rightarrow> (upd_running (brk_update (\<lambda>_. ?old + n)) (fst c), ?old))"
    using r False unfolding task_sbrk_def Let_def c_def [symmetric] by (simp add: case_prod_beta)
  show ?thesis
  proof (cases "snd c")
    case (Some e)
    then show ?thesis using r' same k by (simp add: program_ok_def program_brk_def)
  next
    case None
    then show ?thesis using r' same K grow plus nz by (simp add: program_ok_def program_brk_def)
  qed
qed

interpretation heap_os: program_break "\<lambda>k n. task_sbrk n k" program_brk program_ok
proof
  fix k :: "'a kernel_scheme" and n :: u32 and k' and a :: u32
  assume k: "program_ok k" "0 < sint n"
  obtain k1 b where r: "task_sbrk n k = (k1, b)" by fastforce
  show "program_ok (fst (task_sbrk n k))" using task_sbrk_cases [OF k r] r by auto
  show "program_brk k' = program_brk k" if "task_sbrk n k = (k', 0)" using task_sbrk_cases [OF k that] by blast
  show "a = program_brk k \<and> unat (program_brk k') = unat (program_brk k) + unat n"
    if "task_sbrk n k = (k', a)" "a \<noteq> 0" using task_sbrk_cases [OF k that(1)] that(2) by blast
qed

section \<open>The contract of the allocator\<close>

lemma in_use_aligned:
  assumes "uheap_inv ok brk_of start h" "in_use (ublocks h) p = Some n"
  shows "p \<noteq> 0 \<and> unat p mod 8 = 0 \<and> start + 16 \<le> unat p \<and> unat p + unat n \<le> unat (brk_of (os h))"
  using in_use_range [OF _ _ assms(2)] assms(1) unat_u32_less by (fastforce simp: uheap_inv_def)

text \<open>C29. A successful \<open>malloc\<close> adds one allocation of at least the size asked for, at an aligned address
  inside the heap of the program that no allocation overlaps, and leaves the others and their
  contents alone; a failed one changes no allocation. It holds for sizes below 2 GB: the code
  does not check what rounding up and adding the header make of larger ones.\<close>

theorem user_malloc_correct:
  fixes h :: "'a kernel_scheme uheap"
  assumes h: "uheap_inv program_ok program_brk start h" and n: "0 < n" "unat n < 2 ^ 31 - 32"
    and m: "umalloc (\<lambda>k i. task_sbrk i k) n h = (h', p)"
  shows "uheap_inv program_ok program_brk start h' \<and> umem h' = umem h
    \<and> (if p = 0 then in_use (ublocks h') = in_use (ublocks h)
       else unat p mod 8 = 0
         \<and> (\<exists>sz. n \<le> sz \<and> in_use (ublocks h') = (in_use (ublocks h))(p \<mapsto> sz)
             \<and> start + 16 \<le> unat p \<and> unat p + unat sz \<le> unat (program_brk (os h'))
             \<and> (\<forall>q m. in_use (ublocks h) q = Some m \<longrightarrow> q \<noteq> p \<and> (unat q + unat m \<le> unat p \<or> unat p + unat sz \<le> unat q))))"
proof -
  note M = heap_os.malloc_ok [OF h n m]
  show ?thesis
  proof (cases "p = 0")
    case False
    then obtain sz where sz: "in_use (ublocks h) p = None" "n \<le> sz" "in_use (ublocks h') = (in_use (ublocks h))(p \<mapsto> sz)"
      using M by auto
    have p: "in_use (ublocks h') p = Some sz" using sz(3) by simp
    have inv: "uheap_inv program_ok program_brk start h'" using M by blast
    have "q \<noteq> p \<and> (unat q + unat m \<le> unat p \<or> unat p + unat sz \<le> unat q)" if "in_use (ublocks h) q = Some m" for q m
    proof -
      have ne: "q \<noteq> p" using sz(1) that by auto
      then have q: "in_use (ublocks h') q = Some m" using sz(3) that by simp
      show ?thesis
        using in_use_disjoint [OF _ _ q p ne, of start "unat (program_brk (os h'))"] inv ne unat_u32_less by (auto simp: uheap_inv_def)
    qed
    then show ?thesis using M in_use_aligned [OF inv p] sz(2,3) False by (intro conjI) (auto simp del: fun_upd_apply)
  qed (use M in simp)
qed

section \<open>Contents\<close>

lemma fill_mem_other: "(\<And>i. i < length cs \<Longrightarrow> x \<noteq> a + of_nat i) \<Longrightarrow> fill_mem a cs m x = m x"
proof (induction cs arbitrary: a m)
  case (Cons c cs)
  have "x \<noteq> a" using Cons.prems [of 0] by simp
  moreover have "x \<noteq> a + 1 + of_nat i" if "i < length cs" for i using Cons.prems [of "Suc i"] that by (simp add: add.assoc)
  ultimately have "fill_mem (a + 1) cs (m(a := c)) x = (m(a := c)) x" by (intro Cons.IH) auto
  then show ?case using \<open>x \<noteq> a\<close> by simp
qed simp

lemma offset_inj:
  assumes "i < 2 ^ 32" "j < 2 ^ 32" "(a :: u32) + of_nat i = a + of_nat j"
  shows "i = j"
proof -
  have "unat (of_nat i :: u32) = i" "unat (of_nat j :: u32) = j" using assms(1,2) by (simp_all add: unat_of_nat take_bit_nat_eq_self)
  then show ?thesis using assms(3) by (metis add_left_cancel)
qed

lemma fill_mem_at: "length cs \<le> 2 ^ 32 \<Longrightarrow> i < length cs \<Longrightarrow> fill_mem a cs m (a + of_nat i) = cs ! i"
proof (induction cs arbitrary: a m i)
  case (Cons c cs)
  show ?case
  proof (cases i)
    case 0
    have "a \<noteq> a + 1 + of_nat j" if "j < length cs" for j
      using offset_inj [of 0 "Suc j" a] that Cons.prems(1) by (auto simp: add.assoc)
    then show ?thesis using 0 fill_mem_other [of cs a "a + 1" "m(a := c)"] by simp
  next
    case (Suc j)
    have "fill_mem (a + 1) cs (m(a := c)) (a + 1 + of_nat j) = cs ! j" using Cons.prems Suc by (intro Cons.IH) auto
    then show ?thesis using Suc by (simp add: add.assoc)
  qed
qed simp

text \<open>Bytes outside the range that is filled, as natural numbers.\<close>

lemma fill_mem_apart:
  assumes "unat a + length cs \<le> 2 ^ 32" "unat q + k \<le> 2 ^ 32" "unat q + k \<le> unat a \<or> unat a + length cs \<le> unat q"
  shows "mem_bytes (fill_mem a cs m) q k = mem_bytes m q k"
proof -
  have "fill_mem a cs m (q + of_nat j) = m (q + of_nat j)" if "j < k" for j
  proof (rule fill_mem_other)
    fix i
    assume i: "i < length cs"
    have "unat (a + of_nat i) = unat a + i" "unat (q + of_nat j) = unat q + j"
      using assms(1,2) i that by (simp_all add: unat_word_ariths unat_of_nat)
    then show "q + of_nat j \<noteq> a + of_nat i" using assms(3) i that by auto
  qed
  then show ?thesis by (simp add: mem_bytes_def)
qed

lemma block_at_ok:
  "laid_out a bs e \<Longrightarrow> e < 2 ^ 32 \<Longrightarrow> in_use bs p = Some m \<Longrightarrow> \<exists>b. block_at p bs = Some b \<and> b_size b = m"
proof (induction bs arbitrary: a)
  case (Cons b bs)
  have l: "laid_out (a + 16 + unat (b_size b)) bs e" using Cons.prems(1) by simp
  have q: "b_addr b = p - HEADER_SIZE \<longleftrightarrow> block_payload b = p" by (auto simp: block_payload_def)
  show ?case
  proof (cases "block_payload b = p")
    case True
    have "in_use bs p = None"
      using in_use_range [OF l Cons.prems(2), of p] payload_nat(1) [OF Cons.prems(1,2)] True by (cases "in_use bs p") auto
    then show ?thesis using Cons.prems(3) True q by (auto simp: block_at_def split: if_splits)
  next
    case False
    then show ?thesis using Cons.IH [OF l Cons.prems(2)] Cons.prems(3) q by (simp add: block_at_def)
  qed
qed simp

text \<open>\<open>calloc\<close> refuses a product that does not fit 32 bits, and what it gives is zero.\<close>

lemma user_calloc:
  fixes h :: "'a kernel_scheme uheap"
  assumes h: "uheap_inv program_ok program_brk start h" and n: "0 < k * sz" "unat (k * sz) < 2 ^ 31 - 32"
    and c: "ucalloc (\<lambda>k i. task_sbrk i k) k sz h = (h', p)" "p \<noteq> 0"
  shows "unat (k * sz) = unat k * unat sz \<and> uheap_inv program_ok program_brk start h'
    \<and> mem_bytes (umem h') p (unat (k * sz)) = replicate (unat (k * sz)) 0"
proof -
  have sz: "sz \<noteq> 0" using n(1) by auto
  have quot: "k * sz div sz = k" using c sz by (auto simp: ucalloc_def Let_def split: if_splits)
  obtain h1 q where m: "umalloc (\<lambda>k i. task_sbrk i k) (k * sz) h = (h1, q)" by fastforce
  have q: "q = p" "h' = h1\<lparr>umem := fill_mem p (replicate (unat (k * sz)) 0) (umem h1)\<rparr>"
    using c sz quot m by (auto simp: ucalloc_def Let_def split: if_splits)
  have "unat k = unat (k * sz) div unat sz" using quot by (metis unat_div_distrib)
  then have "unat k * unat sz \<le> unat (k * sz)" by simp
  then have "unat (k * sz) = unat k * unat sz"
    by (metis order_antisym mod_less_eq_dividend unat_word_ariths(2))
  moreover have "uheap_inv program_ok program_brk start h'"
    using heap_os.malloc_ok [OF h n m] q by (simp add: uheap_inv_def)
  moreover have "mem_bytes (umem h') p (unat (k * sz)) = replicate (unat (k * sz)) 0"
  proof (rule nth_equalityI)
    show "mem_bytes (umem h') p (unat (k * sz)) ! i = replicate (unat (k * sz)) 0 ! i" if "i < length (mem_bytes (umem h') p (unat (k * sz)))" for i
      using that fill_mem_at [of "replicate (unat (k * sz)) (0 :: u8)" i p "umem h1"] n(2) by (simp add: mem_bytes_def q(2))
  qed (simp add: mem_bytes_def)
  ultimately show ?thesis by simp
qed

text \<open>A program whose break is 104 bytes above the start of its heap: one allocation of 16 bytes and a
  free block of 56.\<close>

definition small_program :: "kernel uheap" where
  "small_program = \<lparr>ublocks = [\<lparr>b_addr = 0x40001000, b_size = 16, b_free = False\<rparr>, \<lparr>b_addr = 0x40001020, b_size = 56, b_free = True\<rparr>],
     umem = (\<lambda>a. ucast a),
     os = zero_kernel\<lparr>task_table := [zero_task\<lparr>brk_start := 0x40001000, brk := 0x40001068\<rparr>]\<rparr>\<rparr>"

lemma small_program_ok: "uheap_inv program_ok program_brk 0x40001000 small_program"
  by (simp add: uheap_inv_def program_ok_def program_brk_def small_program_def zero_kernel_def zero_task_def)

lemma small_program_alloc:
  "umalloc (\<lambda>k i. task_sbrk i k) 18 small_program
   = (small_program\<lparr>ublocks := [\<lparr>b_addr = 0x40001000, b_size = 16, b_free = False\<rparr>, \<lparr>b_addr = 0x40001020, b_size = 24, b_free = False\<rparr>,
        \<lparr>b_addr = 0x40001048, b_size = 16, b_free = True\<rparr>]\<rparr>, 0x40001030)"
  by (simp add: umalloc_def small_program_def round_up8_def block_payload_def)

lemma small_program_blocks: "ublocks small_program
    = [\<lparr>b_addr = 0x40001000, b_size = 16, b_free = False\<rparr>, \<lparr>b_addr = 0x40001020, b_size = 56, b_free = True\<rparr>]"
  by (simp add: small_program_def)

text \<open>C30. \<open>realloc\<close> gives an allocation of at least the new size that starts with the contents of the
  old one, which is released, and keeps every other allocation and its contents; when there is no
  memory it returns null and nothing changes.\<close>

theorem user_realloc_correct:
  fixes h :: "'a kernel_scheme uheap"
  assumes h: "uheap_inv program_ok program_brk start h" and n: "0 < n" "unat n < 2 ^ 31 - 32"
    and p: "in_use (ublocks h) p = Some m" and r: "urealloc (\<lambda>k i. task_sbrk i k) p n h = Some (h', q)"
  shows "uheap_inv program_ok program_brk start h'
    \<and> (if q = 0 then in_use (ublocks h') = in_use (ublocks h) \<and> umem h' = umem h
       else (\<exists>sz. n \<le> sz \<and> in_use (ublocks h') = (in_use (ublocks h))(p := None, q \<mapsto> sz)
               \<and> mem_bytes (umem h') q (unat m) = mem_bytes (umem h) p (unat m))
         \<and> (\<forall>a k. a \<noteq> p \<and> in_use (ublocks h) a = Some k \<longrightarrow> mem_bytes (umem h') a (unat k) = mem_bytes (umem h) a (unat k)))"
proof -
  have e: "unat (program_brk (os x)) < 2 ^ 32" for x :: "'a kernel_scheme uheap" using unat_u32_less by simp
  note H = h [unfolded uheap_inv_def]
  have p0: "p \<noteq> 0" using in_use_aligned [OF h p] by simp
  obtain b where b: "block_at p (ublocks h) = Some b" "b_size b = m"
    using block_at_ok [OF conjunct2 [OF conjunct2 [OF H]] e p] by blast
  show ?thesis
  proof (cases "m \<ge> n")
    case True
    then have "h' = h" "q = p" using r p0 b by (auto simp: urealloc_def)
    then show ?thesis using h p p0 True by (auto intro!: exI [of _ m])
  next
    case False
    obtain h1 q1 where m1: "umalloc (\<lambda>k i. task_sbrk i k) n h = (h1, q1)" by fastforce
    note M = heap_os.malloc_ok [OF h n m1]
    show ?thesis
    proof (cases "q1 = 0")
      case True
      then have "h' = h1" "q = 0" using r p0 b False m1 by (auto simp: urealloc_def)
      then show ?thesis using M True by simp
    next
      case nz: False
      obtain sz where sz: "in_use (ublocks h) q1 = None" "n \<le> sz" "in_use (ublocks h1) = (in_use (ublocks h))(q1 \<mapsto> sz)"
        using M nz by auto
      define h2 where "h2 = h1\<lparr>umem := fill_mem q1 (mem_bytes (umem h1) p (unat m)) (umem h1)\<rparr>"
      have h': "h' = ufree p h2" "q = q1" using r p0 b False m1 nz by (auto simp: urealloc_def h2_def)
      have inv1: "uheap_inv program_ok program_brk start h1" and mem1: "umem h1 = umem h" using M by auto
      then have inv2: "uheap_inv program_ok program_brk start h2" by (simp add: uheap_inv_def h2_def)
      note F = heap_os.free_ok [OF inv2 p0]
      have q1: "in_use (ublocks h1) q1 = Some sz" using sz(3) by simp
      have old: "in_use (ublocks h1) a = Some k" "a \<noteq> q1" if "in_use (ublocks h) a = Some k" for a k
        using that sz(1,3) by auto
      have le: "unat m \<le> unat sz" using False sz(2) by (simp add: word_le_nat_alt)
      have len: "length (mem_bytes (umem h) p (unat m)) = unat m" by (simp add: mem_bytes_def)
      have room: "unat q1 + unat sz \<le> 2 ^ 32" using in_use_aligned [OF inv1 q1] e [of h1] by linarith
      have "mem_bytes (umem h2) q1 (unat m) = mem_bytes (umem h) p (unat m)"
      proof (rule nth_equalityI)
        show "mem_bytes (umem h2) q1 (unat m) ! i = mem_bytes (umem h) p (unat m) ! i"
          if "i < length (mem_bytes (umem h2) q1 (unat m))" for i
          using that fill_mem_at [of "mem_bytes (umem h) p (unat m)" i q1 "umem h"] room le len
          by (simp add: h2_def mem1) (simp add: mem_bytes_def)
      qed (simp add: mem_bytes_def)
      moreover have "mem_bytes (umem h2) a (unat k) = mem_bytes (umem h) a (unat k)" if a: "in_use (ublocks h) a = Some k" for a k
      proof -
        note O = old [OF a]
        have lo: "laid_out start (ublocks h1) (unat (program_brk (os h1)))" using inv1 by (simp add: uheap_inv_def)
        have "unat a + unat k \<le> unat q1 \<or> unat q1 + unat sz \<le> unat a" by (rule in_use_disjoint [OF lo e O(1) q1 O(2)])
        then have "unat a + unat k \<le> unat q1 \<or> unat q1 + unat m \<le> unat a" using le by linarith
        then show ?thesis
          using fill_mem_apart [of q1 "mem_bytes (umem h) p (unat m)" a "unat k" "umem h"] room le len
            in_use_aligned [OF inv1 O(1)] e [of h1] by (simp add: h2_def mem1)
      qed
      moreover have "in_use (ublocks h') = (in_use (ublocks h))(p := None, q1 \<mapsto> sz)"
        using F sz(3) old(2) [OF p] by (simp add: h' h2_def fun_upd_twist)
      moreover have "umem h' = umem h2" using F h' by simp
      ultimately show ?thesis using F nz sz(2) h' by auto
    qed
  qed
qed

theorem user_malloc_correct_witness: "in_use (ublocks (fst (umalloc (\<lambda>k i. task_sbrk i k) 18 small_program))) 0x40001030 \<noteq> None"
  using user_malloc_correct [OF small_program_ok _ _ small_program_alloc]
  by (simp add: small_program_alloc del: in_use.simps) (auto simp del: in_use.simps)

theorem user_realloc_correct_witness:
  "\<exists>h'. urealloc (\<lambda>k i. task_sbrk i k) 0x40001010 18 small_program = Some (h', 0x40001030)
     \<and> mem_bytes (umem h') 0x40001030 16 = mem_bytes (umem small_program) 0x40001010 16"
proof -
  have u: "in_use (ublocks small_program) 0x40001010 = Some 16" by (simp add: small_program_def block_payload_def)
  obtain h' where r: "urealloc (\<lambda>k i. task_sbrk i k) 0x40001010 18 small_program = Some (h', 0x40001030)"
    by (auto simp: urealloc_def small_program_alloc block_at_def small_program_blocks)
  show ?thesis using user_realloc_correct [OF small_program_ok _ _ u r] r by auto
qed

end
