(* ===== verification/UserFormat.thy ===== *)
theory UserFormat
  imports CString
begin

text \<open>
  Formatted output of programs, \<^verbatim>\<open>vsnprintf\<close> of \<^verbatim>\<open>src/user/lib/moos.c\<close>, and the conversion of
  strings to numbers: \<^verbatim>\<open>atoi\<close> there and the \<^verbatim>\<open>strto\<close> functions of \<^verbatim>\<open>src/user/libc/stdlib.c\<close>.

  A format is the list of its bytes in front of the terminator, its rest is what the pointer
  still has to read. \<open>None\<close>: the behaviour of the C code is not defined, because an argument is
  missing or of another type, because a precision of more than 24 digits leaves the local array
  \<^verbatim>\<open>reversed\<close>, or because a char is stored outside of the buffer. Conversions of a \<^verbatim>\<open>double\<close> are not modelled and \<open>None\<close>, too.
\<close>

section \<open>Formatted output\<close>

datatype fmt_arg = Arg_int u32 | Arg_long u64 | Arg_str "bytes option"

text \<open>The bytes of the buffer, \<open>None\<close> when there was a store outside of it.\<close>

record format_out =
  out_buf :: "bytes option"
  out_size :: u32
  out_len :: u32

definition store_byte :: "nat \<Rightarrow> u8 \<Rightarrow> bytes option \<Rightarrow> bytes option" where
  "store_byte i c buf = (case buf of None \<Rightarrow> None | Some b \<Rightarrow> if i < length b then Some (b[i := c]) else None)"

definition format_put :: "u8 \<Rightarrow> format_out \<Rightarrow> format_out" where
  "format_put c out =
    (let out = (if out_len out + 1 < out_size out then out\<lparr>out_buf := store_byte (unat (out_len out)) c (out_buf out)\<rparr> else out)
     in out\<lparr>out_len := out_len out + 1\<rparr>)"

text \<open>A loop that puts one char after the other.\<close>

definition put_all :: "bytes \<Rightarrow> format_out \<Rightarrow> format_out" where
  "put_all cs out = fold format_put cs out"

definition format_padded :: "bytes \<Rightarrow> u32 \<Rightarrow> bool \<Rightarrow> u8 \<Rightarrow> format_out \<Rightarrow> format_out" where
  "format_padded s width left pad out =
    (let has_sign = pad = 48 \<and> s \<noteq> [] \<and> (hd s = 45 \<or> hd s = 43);
         out = (if has_sign then format_put (hd s) out else out);
         width = (if has_sign \<and> width \<noteq> 0 then width - 1 else width);
         s = (if has_sign then tl s else s);
         padding = unat width - length s;
         out = (if \<not> left then put_all (replicate padding pad) out else out);
         out = put_all s out
     in if left then put_all (replicate padding 32) out else out)"

definition digit_char :: "bool \<Rightarrow> nat \<Rightarrow> u8" where
  "digit_char upper d = (if d < 10 then of_nat (48 + d) else of_nat ((if upper then 55 else 87) + d))"

text \<open>The digits in the array \<^verbatim>\<open>reversed\<close>, the last one first: the 64 bit loop, then the 32 bit loop.\<close>

function high_digits :: "u32 \<Rightarrow> bool \<Rightarrow> u64 \<Rightarrow> bytes \<Rightarrow> (bytes \<times> u64) option" where
  "high_digits base upper num ds =
    (if num > 0xFFFFFFFF
     then if length ds \<ge> 24 then None
          else high_digits base upper (num div ucast base) (ds @ [digit_char upper (unat (num mod ucast base))])
     else Some (ds, num))"
  by pat_completeness auto
termination by (relation "measure (\<lambda>(base, upper, num, ds). 24 - length ds)") auto

function low_digits :: "u32 \<Rightarrow> bool \<Rightarrow> u32 \<Rightarrow> u32 \<Rightarrow> bytes \<Rightarrow> bytes option" where
  "low_digits base upper min_digits small ds =
    (if small \<noteq> 0 \<or> length ds < unat min_digits \<or> length ds = 0
     then if length ds \<ge> 24 then None
          else low_digits base upper min_digits (small div base) (ds @ [digit_char upper (unat (small mod base))])
     else Some ds)"
  by pat_completeness auto
termination by (relation "measure (\<lambda>(base, upper, min_digits, small, ds). 24 - length ds)") auto

declare high_digits.simps [simp del] low_digits.simps [simp del]

definition format_number :: "u64 \<Rightarrow> u32 \<Rightarrow> bool \<Rightarrow> bool \<Rightarrow> bool \<Rightarrow> u32 \<Rightarrow> bytes option" where
  "format_number num base upper negative psign min_digits =
    (case high_digits base upper num [] of
       None \<Rightarrow> None
     | Some (ds, num) \<Rightarrow>
         map_option (\<lambda>ds. (if negative then [45] else if psign then [43] else []) @ rev ds)
           (low_digits base upper min_digits (ucast num) ds))"

record format_spec =
  f_left :: bool
  f_plus :: bool
  f_pad :: u8

fun read_flags :: "bytes \<Rightarrow> format_spec \<Rightarrow> format_spec \<times> bytes" where
  "read_flags [] f = (f, [])"
| "read_flags (c # cs) f =
    (if c = 45 then read_flags cs (f\<lparr>f_left := True\<rparr>)
     else if c = 43 then read_flags cs (f\<lparr>f_plus := True\<rparr>)
     else if c = 48 then read_flags cs (f\<lparr>f_pad := 48\<rparr>)
     else if c \<noteq> 32 \<and> c \<noteq> 35 then (f, c # cs)
     else read_flags cs f)"

text \<open>The decimal number of a width or a precision, in 32 bits.\<close>

fun read_number :: "bytes \<Rightarrow> u32 \<Rightarrow> u32 \<times> bytes" where
  "read_number [] n = (n, [])"
| "read_number (c # cs) n =
    (if isdigit (schar c) then read_number cs (n * 10 + (ucast c - 48)) else (n, c # cs))"

definition read_width :: "bytes \<Rightarrow> format_spec \<Rightarrow> fmt_arg list \<Rightarrow> (format_spec \<times> u32 \<times> bytes \<times> fmt_arg list) option" where
  "read_width cs f args =
    (if cs \<noteq> [] \<and> hd cs = 42
     then case args of
            Arg_int a # args \<Rightarrow>
              (case read_number (tl cs) (if a <s 0 then - a else a) of
                 (w, cs) \<Rightarrow> Some (f\<lparr>f_left := f_left f \<or> a <s 0\<rparr>, w, cs, args))
          | _ \<Rightarrow> None
     else case read_number cs 0 of (w, cs) \<Rightarrow> Some (f, w, cs, args))"

definition read_precision :: "bytes \<Rightarrow> fmt_arg list \<Rightarrow> (u32 \<times> bytes \<times> fmt_arg list) option" where
  "read_precision cs args =
    (if cs \<noteq> [] \<and> hd cs = 46
     then if tl cs \<noteq> [] \<and> hd (tl cs) = 42
          then case args of
                 Arg_int a # args \<Rightarrow> (case read_number (tl (tl cs)) a of (p, cs) \<Rightarrow> Some (p, cs, args))
               | _ \<Rightarrow> None
          else case read_number (tl cs) 0 of (p, cs) \<Rightarrow> Some (p, cs, args)
     else Some (- 1, cs, args))"

text \<open>Length modifiers, how many of them are \<^verbatim>\<open>l\<close>.\<close>

fun read_longs :: "bytes \<Rightarrow> nat \<Rightarrow> nat \<times> bytes" where
  "read_longs [] n = (n, [])"
| "read_longs (c # cs) n =
    (if c \<in> {108, 104, 122, 106, 116} then read_longs cs (if c = 108 then n + 1 else n) else (n, c # cs))"

text \<open>The argument of an integer conversion, sign or zero extended to 64 bits.\<close>

definition int_arg :: "bool \<Rightarrow> nat \<Rightarrow> fmt_arg list \<Rightarrow> (u64 \<times> fmt_arg list) option" where
  "int_arg sext longs args =
    (case args of
       Arg_int a # args \<Rightarrow> if longs \<ge> 2 then None else Some (if sext then scast a else ucast a, args)
     | Arg_long a # args \<Rightarrow> if longs \<ge> 2 then Some (a, args) else None
     | _ \<Rightarrow> None)"

text \<open>The chars of a conversion other than \<^verbatim>\<open>%s\<close>, with the padding to use and the arguments left.\<close>

definition format_conversion :: "u8 \<Rightarrow> format_spec \<Rightarrow> u32 \<Rightarrow> nat \<Rightarrow> fmt_arg list \<Rightarrow> (bytes \<times> u8 \<times> fmt_arg list) option" where
  "format_conversion c f precision longs args =
    (let min_digits = (if 0 <s precision then precision else 1) in
     if c = 99
     then (case args of Arg_int a # args \<Rightarrow> Some ([ucast a], 32, args) | _ \<Rightarrow> None)
     else if c = 100 \<or> c = 105
     then (case int_arg True longs args of
             None \<Rightarrow> None
           | Some (num, args) \<Rightarrow>
               map_option (\<lambda>ds. (ds, f_pad f, args))
                 (format_number (if num <s 0 then - num else num) 10 False (num <s 0) (f_plus f) min_digits))
     else if c = 117 \<or> c = 120 \<or> c = 88 \<or> c = 111 \<or> c = 112
     then (case int_arg False longs args of
             None \<Rightarrow> None
           | Some (num, args) \<Rightarrow>
               map_option (\<lambda>ds. ((if c = 112 then [48, 120] else []) @ ds, f_pad f, args))
                 (format_number num (if c = 117 then 10 else if c = 111 then 8 else 16) (c = 88) False False min_digits))
     else if c = 102 \<or> c = 70 \<or> c = 103 \<or> c = 101 then None
     else if c = 37 then Some ([37], f_pad f, args)
     else Some ([37, c], f_pad f, args))"

lemma read_flags_length: "read_flags cs f = (f', rest) \<Longrightarrow> length rest \<le> length cs"
  by (induction cs f rule: read_flags.induct) (auto split: if_splits simp: le_Suc_eq)

lemma read_number_length: "read_number cs n = (m, rest) \<Longrightarrow> length rest \<le> length cs"
  by (induction cs n rule: read_number.induct) (auto split: if_splits simp: le_Suc_eq)

lemma read_longs_length: "read_longs cs n = (m, rest) \<Longrightarrow> length rest \<le> length cs"
  by (induction cs n rule: read_longs.induct) (auto split: if_splits simp: le_Suc_eq)

lemma read_width_length: "read_width cs f args = Some (f', w, rest, args') \<Longrightarrow> length rest \<le> length cs"
  using read_number_length [of "tl cs"] read_number_length [of cs]
  by (auto simp: read_width_def split: if_splits list.splits fmt_arg.splits prod.splits) (metis diff_le_self le_trans)+

lemma read_precision_length: "read_precision cs args = Some (p, rest, args') \<Longrightarrow> length rest \<le> length cs"
  using read_number_length [of "tl (tl cs)"] read_number_length [of "tl cs"]
  by (auto simp: read_precision_def split: if_splits list.splits fmt_arg.splits prod.splits) (metis diff_le_self le_trans)+

text \<open>One conversion, \<open>cs\<close> is the format behind its \<^verbatim>\<open>%\<close>: what \<open>format_padded\<close> is called with, the
  rest of the format and of the arguments.\<close>

type_synonym padded = "bytes \<times> u32 \<times> bool \<times> u8"

definition format_one :: "bytes \<Rightarrow> fmt_arg list \<Rightarrow> (padded \<times> bytes \<times> fmt_arg list) option" where
  "format_one cs args =
    (let (f, cs) = read_flags cs \<lparr>f_left = False, f_plus = False, f_pad = 32\<rparr> in
     case read_width cs f args of
       None \<Rightarrow> None
     | Some (f, width, cs, args) \<Rightarrow>
     (case read_precision cs args of
       None \<Rightarrow> None
     | Some (precision, cs, args) \<Rightarrow>
     (let (longs, cs) = read_longs cs 0 in
     (case cs of
       [] \<Rightarrow> Some (([37], width, f_left f, f_pad f), [], args)
     | c # cs \<Rightarrow>
         if c = 115
         then (case args of
                Arg_str s # args \<Rightarrow>
                  (let s = (case s of None \<Rightarrow> str ''(null)'' | Some s \<Rightarrow> s);
                       s = (if 0 \<le>s precision then take (unat precision) s else s)
                   in Some ((s, width, f_left f, 32), cs, args))
              | _ \<Rightarrow> None)
         else (case format_conversion c f precision longs args of
                None \<Rightarrow> None
              | Some (digits, pad, args) \<Rightarrow> Some ((digits, width, f_left f, pad), cs, args))))))"

lemma format_one_length: "format_one cs args = Some (t, rest, args') \<Longrightarrow> length rest \<le> length cs"
proof -
  assume a: "format_one cs args = Some (t, rest, args')"
  obtain f cs1 where 1: "read_flags cs \<lparr>f_left = False, f_plus = False, f_pad = 32\<rparr> = (f, cs1)" by fastforce
  obtain f2 w cs2 args2 where 2: "read_width cs1 f args = Some (f2, w, cs2, args2)"
    using a 1 by (auto simp: format_one_def split: option.splits)
  obtain p cs3 args3 where 3: "read_precision cs2 args2 = Some (p, cs3, args3)"
    using a 1 2 by (auto simp: format_one_def split: option.splits)
  obtain l cs4 where 4: "read_longs cs3 0 = (l, cs4)" by fastforce
  have "length rest \<le> length cs4"
    using a 1 2 3 4 by (auto simp: format_one_def Let_def split: list.splits if_splits fmt_arg.splits option.splits prod.splits)
  then show ?thesis
    using read_flags_length [OF 1] read_width_length [OF 2] read_precision_length [OF 3] read_longs_length [OF 4] by linarith
qed

function format_loop :: "bytes \<Rightarrow> fmt_arg list \<Rightarrow> format_out \<Rightarrow> format_out option" where
  "format_loop [] args out = Some out"
| "format_loop (c # cs) args out =
    (if c \<noteq> 37 then format_loop cs args (format_put c out)
     else case format_one cs args of
            None \<Rightarrow> None
          | Some ((s, width, left, pad), cs, args) \<Rightarrow> format_loop cs args (format_padded s width left pad out))"
  by pat_completeness auto
termination
  by (relation "measure (\<lambda>(cs, args, out). length cs)") (auto dest: format_one_length)

text \<open>The buffer after the call and the result.\<close>

definition vsnprintf :: "bytes \<Rightarrow> u32 \<Rightarrow> bytes \<Rightarrow> fmt_arg list \<Rightarrow> (bytes \<times> u32) option" where
  "vsnprintf buf mx fmt args =
    (case format_loop fmt args \<lparr>out_buf = Some buf, out_size = mx, out_len = 0\<rparr> of
       None \<Rightarrow> None
     | Some out \<Rightarrow>
         (case (if mx > 0 then store_byte (unat (if out_len out < mx then out_len out else mx - 1)) 0 (out_buf out) else out_buf out) of
            None \<Rightarrow> None
          | Some buf \<Rightarrow> Some (buf, out_len out)))"

section \<open>Numbers from strings\<close>

definition skip_spaces :: "bytes \<Rightarrow> bytes" where
  "skip_spaces s = dropWhile (\<lambda>c. isspace (schar c)) s"

definition atoi :: "bytes \<Rightarrow> u32" where
  "atoi s =
    (let s = skip_spaces s;
         neg = (chr_at s 0 = 45);
         s = (if chr_at s 0 = 45 \<or> chr_at s 0 = 43 then tl s else s)
     in (if neg then - 1 else 1) * fst (read_number s 0))"

definition digit_value :: "int \<Rightarrow> int" where
  "digit_value c = (if isdigit c then c - 48 else if isalpha c then tolower c - 97 + 10 else 99)"

fun parse_digits :: "int \<Rightarrow> bytes \<Rightarrow> u64 \<Rightarrow> u64 \<times> bytes" where
  "parse_digits base [] v = (v, [])"
| "parse_digits base (c # cs) v =
    (if digit_value (uint c) < base
     then parse_digits base cs (v * of_int base + of_int (digit_value (uint c)))
     else (v, c # cs))"

text \<open>The number, whether a minus is in front of it, and the rest of the string, which is all of it
  when there is no digit.\<close>

definition parse_integer :: "bytes \<Rightarrow> int \<Rightarrow> u64 \<times> bool \<times> bytes" where
  "parse_integer start base =
    (let s = skip_spaces start;
         negative = (chr_at s 0 = 45);
         s = (if chr_at s 0 = 45 \<or> chr_at s 0 = 43 then tl s else s);
         hex = (base = 0 \<or> base = 16) \<and> chr_at s 0 = 48 \<and> (chr_at s 1 = 120 \<or> chr_at s 1 = 88)
                \<and> digit_value (schar (chr_at s 2)) < 16;
         base = (if hex then 16 else if base = 0 then if chr_at s 0 = 48 then 8 else 10 else base);
         digits = (if hex then drop 2 s else s);
         (v, rest) = parse_digits base digits 0
     in (v, negative, if rest = digits then start else rest))"

definition strtol :: "bytes \<Rightarrow> int \<Rightarrow> u32 \<times> bytes" where
  "strtol s base = (case parse_integer s base of (v, negative, rest) \<Rightarrow> (if negative then - ucast v else ucast v, rest))"

definition strtoul :: "bytes \<Rightarrow> int \<Rightarrow> u32 \<times> bytes" where
  "strtoul s base = (case parse_integer s base of (v, negative, rest) \<Rightarrow> (if negative then - ucast v else ucast v, rest))"

definition strtoull :: "bytes \<Rightarrow> int \<Rightarrow> u64 \<times> bytes" where
  "strtoull s base = (case parse_integer s base of (v, negative, rest) \<Rightarrow> (if negative then - v else v, rest))"

definition strtoll :: "bytes \<Rightarrow> int \<Rightarrow> u64 \<times> bytes" where
  "strtoll s base = (case parse_integer s base of (v, negative, rest) \<Rightarrow> (if negative then - v else v, rest))"

section \<open>What is printed\<close>

definition padded_text :: "bytes \<Rightarrow> u32 \<Rightarrow> bool \<Rightarrow> u8 \<Rightarrow> bytes" where
  "padded_text s width left pad =
    (let n = unat width - length s
     in if left then s @ replicate n 32
        else if pad = 48 \<and> s \<noteq> [] \<and> (hd s = 45 \<or> hd s = 43) then hd s # replicate n 48 @ tl s
        else replicate n pad @ s)"

text \<open>The whole output of a format.\<close>

function formatted :: "bytes \<Rightarrow> fmt_arg list \<Rightarrow> bytes option" where
  "formatted [] args = Some []"
| "formatted (c # cs) args =
    (if c \<noteq> 37 then map_option ((#) c) (formatted cs args)
     else case format_one cs args of
            None \<Rightarrow> None
          | Some ((s, width, left, pad), cs, args) \<Rightarrow> map_option ((@) (padded_text s width left pad)) (formatted cs args))"
  by pat_completeness auto
termination
  by (relation "measure (\<lambda>(cs, args). length cs)") (auto dest: format_one_length)

text \<open>What a buffer holds afterwards: as much of the text as fits, and a terminator.\<close>

definition stored :: "bytes \<Rightarrow> u32 \<Rightarrow> bytes \<Rightarrow> bytes" where
  "stored buf mx cs = (if mx = 0 then buf else take (unat mx - 1) cs @ [0] @ drop (Suc (min (length cs) (unat mx - 1))) buf)"

lemma put_all_simps [simp]: "put_all [] out = out" "put_all (c # cs) out = put_all cs (format_put c out)"
  by (simp_all add: put_all_def)

lemma put_all_append: "put_all (as @ bs) out = put_all bs (put_all as out)"
  by (simp add: put_all_def)

lemma format_padded_text: "format_padded s width left pad out = put_all (padded_text s width left pad) out"
proof (cases "pad = 48 \<and> s \<noteq> [] \<and> (hd s = 45 \<or> hd s = 43)")
  case True
  then obtain c cs where s: "s = c # cs" by (cases s) auto
  have n: "unat (if width \<noteq> 0 then width - 1 else width) - length cs = unat width - length s"
  proof (cases "width = 0")
    case False
    then have "unat (width - 1) = unat width - 1" by (simp add: unat_minus_one)
    then show ?thesis using False s by simp
  qed (simp add: s)
  show ?thesis using True n by (simp add: format_padded_def padded_text_def Let_def s put_all_append)
next
  case False
  then show ?thesis by (auto simp add: format_padded_def padded_text_def Let_def put_all_append)
qed

lemma format_loop_text: "format_loop fmt args out = map_option (\<lambda>cs. put_all cs out) (formatted fmt args)"
proof (induction fmt args out rule: format_loop.induct)
  case (2 c cs args out)
  show ?case
  proof (cases "c = 37 \<and> format_one cs args \<noteq> None")
    case True
    then obtain s w l p rest args' where o: "format_one cs args = Some ((s, w, l, p), rest, args')" by auto
    show ?thesis
      using "2.IH"(2) [of "((s, w, l, p), rest, args')" "(s, w, l, p)" "(rest, args')" s "(w, l, p)" w "(l, p)" l p rest args'] True o
      by (simp add: option.map_comp comp_def put_all_append format_padded_text)
  next
    case False
    then show ?thesis using "2.IH"(1) by (cases "format_one cs args") (auto simp: option.map_comp comp_def)
  qed
qed simp

lemma unat_of_small: "n < 2 ^ 32 \<Longrightarrow> unat (of_nat n :: u32) = n"
  by (simp add: unat_of_nat take_bit_nat_eq_self)

lemma put_all_from_start:
  assumes "length buf = unat mx" "length cs < 2 ^ 32"
  shows "put_all cs \<lparr>out_buf = Some buf, out_size = mx, out_len = 0\<rparr>
    = \<lparr>out_buf = Some (take (unat mx - 1) cs @ drop (min (length cs) (unat mx - 1)) buf), out_size = mx, out_len = of_nat (length cs)\<rparr>"
  using assms(2)
proof (induction cs rule: rev_induct)
  case (snoc c cs)
  have u: "unat (of_nat (length cs) :: u32) = length cs" using snoc.prems by (intro unat_of_small) simp
  have lt: "(of_nat (length cs) :: u32) + 1 < mx \<longleftrightarrow> length cs + 1 < unat mx"
  proof (cases "length cs + 1 = 2 ^ 32")
    case False
    then have "unat ((of_nat (length cs) :: u32) + 1) = length cs + 1"
      using snoc.prems unat_of_small [of "length cs + 1"] by (simp add: add.commute)
    then show ?thesis by (simp add: word_less_nat_alt)
  qed (use snoc.prems in simp)
  let ?n = "unat mx - 1"
  show ?case
  proof (cases "length cs + 1 < unat mx")
    case True
    then have "drop (length cs) buf \<noteq> []" using assms(1) by simp
    then obtain x xs where x: "drop (length cs) buf = x # xs" by (cases "drop (length cs) buf") auto
    then have "drop (Suc (length cs)) buf = xs" by (metis drop_Suc list.sel(3) tl_drop)
    moreover have "length cs < length buf" using True assms(1) by simp
    moreover have "min (length cs) ?n = length cs" "min (length (cs @ [c])) ?n = Suc (length cs)" "take ?n (cs @ [c]) = cs @ [c]" "take ?n cs = cs"
      using True by auto
    ultimately show ?thesis using True snoc u lt x by (simp add: put_all_append format_put_def store_byte_def list_update_append)
  next
    case False
    then have "min (length cs) ?n = ?n" "min (length (cs @ [c])) ?n = ?n" "take ?n (cs @ [c]) = take ?n cs" by auto
    then show ?thesis using False snoc lt by (simp add: put_all_append format_put_def)
  qed
qed (simp add: put_all_def)

lemma vsnprintf_stored:
  assumes "length buf = unat mx" "formatted fmt args = Some cs" "length cs < 2 ^ 32"
  shows "vsnprintf buf mx fmt args = Some (stored buf mx cs, of_nat (length cs))"
proof (cases "mx = 0")
  case True
  then show ?thesis
    using assms put_all_from_start [OF assms(1,3)] by (simp add: vsnprintf_def format_loop_text stored_def)
next
  case False
  then have mx: "0 < unat mx" "unat (mx - 1) = unat mx - 1" by (simp_all add: unat_gt_0 unat_minus_one)
  let ?n = "unat mx - 1" and ?k = "min (length cs) (unat mx - 1)"
  have len: "(of_nat (length cs) :: u32) < mx \<longleftrightarrow> length cs < unat mx" "unat (of_nat (length cs) :: u32) = length cs"
    using unat_of_small [OF assms(3)] by (simp_all add: word_less_nat_alt)
  have at: "unat (if (of_nat (length cs) :: u32) < mx then of_nat (length cs) else mx - 1) = ?k"
    using mx len by (cases "length cs < unat mx") auto
  have "?k < length buf" using mx assms(1) by linarith
  then have "drop ?k buf \<noteq> []" by (metis drop_eq_Nil leD)
  then obtain x xs where x: "drop ?k buf = x # xs" by (cases "drop ?k buf") auto
  then have "drop (Suc ?k) buf = xs" by (metis drop_Suc list.sel(3) tl_drop)
  moreover have "length (take ?n cs) = ?k" by simp
  ultimately have "store_byte ?k 0 (Some (take ?n cs @ drop ?k buf)) = Some (take ?n cs @ [0] @ drop (Suc ?k) buf)"
    using x \<open>?k < length buf\<close> by (simp add: store_byte_def list_update_append)
  then show ?thesis
    using False put_all_from_start [OF assms(1,3)]
    by (simp only: vsnprintf_def format_loop_text assms(2) option.map option.case at word_neq_0_conv if_True format_out.select_convs)
      (use False in \<open>simp add: stored_def\<close>)
qed

section \<open>Numbers are read back\<close>

fun value_of :: "nat \<Rightarrow> nat list \<Rightarrow> nat" where
  "value_of b [] = 0"
| "value_of b (d # ds) = d + b * value_of b ds"

lemma value_of_append: "value_of b (ds @ es) = value_of b ds + b ^ length ds * value_of b es"
  by (induction ds) (simp_all add: algebra_simps)

lemma high_ok:
  fixes base :: u32
  assumes "8 \<le> unat base" "unat num < unat base ^ k" "length ds + k \<le> 22"
  shows "\<exists>ns m k'. high_digits base up num ds = Some (ds @ map (digit_char up) ns, m) \<and> (\<forall>d \<in> set ns. d < unat base)
    \<and> unat num = value_of (unat base) ns + unat base ^ length ns * unat m \<and> m \<le> 0xFFFFFFFF
    \<and> unat m < unat base ^ k' \<and> length ds + length ns + k' \<le> 22"
  using assms(2,3)
proof (induction k arbitrary: num ds)
  case 0
  then have "num = 0" by (simp add: unat_eq_zero)
  then show ?case using 0 by (auto simp: high_digits.simps intro!: exI [of _ "[]"] exI [of _ "0 :: nat"])
next
  case (Suc k)
  show ?case
  proof (cases "num > 0xFFFFFFFF")
    case False
    then show ?thesis using Suc.prems by (auto simp: high_digits.simps intro!: exI [of _ "[]"] exI [of _ "Suc k"])
  next
    case True
    let ?b = "unat base" and ?q = "num div ucast base"
    have b: "unat (ucast base :: u64) = ?b" by (simp add: unsigned_ucast_eq take_bit_nat_eq_self_iff) (use unat_u32_less [of base] in simp)
    have q: "unat ?q = unat num div ?b" "unat (num mod ucast base) = unat num mod ?b"
      by (simp_all add: unat_div_distrib unat_mod_distrib b)
    have "unat ?q < ?b ^ k" using Suc.prems(1) assms(1) q by (simp add: less_mult_imp_div_less mult.commute)
    then obtain ns m k' where n: "high_digits base up ?q (ds @ [digit_char up (unat num mod ?b)])
          = Some ((ds @ [digit_char up (unat num mod ?b)]) @ map (digit_char up) ns, m)" "\<forall>d \<in> set ns. d < ?b"
        "unat ?q = value_of ?b ns + ?b ^ length ns * unat m" "m \<le> 0xFFFFFFFF" "unat m < ?b ^ k'"
        "length (ds @ [digit_char up (unat num mod ?b)]) + length ns + k' \<le> 22"
      using Suc.IH [of ?q "ds @ [digit_char up (unat num mod ?b)]"] Suc.prems(2) by auto
    have v: "unat num = value_of ?b (unat num mod ?b # ns) + ?b ^ length (unat num mod ?b # ns) * unat m"
      using n(3) q(1) mod_mult_div_eq [of "unat num" ?b] by (simp add: algebra_simps)
    show ?thesis
      using n(1,2,4-6) v True Suc.prems(2) q assms(1)
      by (subst high_digits.simps) (intro exI [of _ "unat num mod ?b # ns"] exI [of _ m] exI [of _ k'], simp)
  qed
qed

lemma low_zero: "low_digits base up 1 0 ds = Some (if ds = [] then [digit_char up 0] else ds)"
  by (simp add: low_digits.simps [of base up 1 0])

lemma low_ok:
  fixes base :: u32
  assumes "8 \<le> unat base" "unat small < unat base ^ k" "length ds + k \<le> 22"
  shows "\<exists>ns. low_digits base up 1 small ds = Some (ds @ map (digit_char up) ns) \<and> (\<forall>d \<in> set ns. d < unat base)
    \<and> unat small = value_of (unat base) ns \<and> ds @ map (digit_char up) ns \<noteq> []
    \<and> length ds + length ns \<le> 23"
  using assms(2,3)
proof (induction k arbitrary: small ds)
  case 0
  then have "small = 0" by (simp add: unat_eq_zero)
  then show ?case
    using 0 assms(1) by (intro exI [of _ "if ds = [] then [0] else []"]) (simp add: low_zero)
next
  case (Suc k)
  let ?b = "unat base" and ?q = "small div base"
  have q: "unat ?q = unat small div ?b" "unat (small mod base) = unat small mod ?b"
    by (simp_all add: unat_div_distrib unat_mod_distrib)
  show ?case
  proof (cases "small = 0")
    case True
    then show ?thesis
      using Suc.prems assms(1) by (intro exI [of _ "if ds = [] then [0] else []"]) (simp add: low_zero)
  next
    case False
    let ?ds = "ds @ [digit_char up (unat small mod ?b)]"
    have lt: "unat ?q < ?b ^ k" using Suc.prems(1) assms(1) q by (simp add: less_mult_imp_div_less mult.commute)
    have step: "low_digits base up 1 small ds = low_digits base up 1 ?q ?ds"
      using False Suc.prems(2) q by (subst low_digits.simps) simp
    obtain ns where n: "low_digits base up 1 ?q ?ds = Some (?ds @ map (digit_char up) ns)" "\<forall>d \<in> set ns. d < ?b"
        "unat ?q = value_of ?b ns" "length ?ds + length ns \<le> 23"
      using Suc.IH [OF lt, of ?ds] Suc.prems(2) by auto
    then show ?thesis
      using step q assms(1) mod_mult_div_eq [of "unat small" ?b]
      by (intro exI [of _ "unat small mod ?b # ns"]) (simp add: add.commute)
  qed
qed

lemma digit_chars: "\<forall>d \<in> set [0..<16]. \<forall>up. digit_value (uint (digit_char up d)) = int d \<and> \<not> isspace (schar (digit_char up d))
    \<and> digit_char up d \<notin> {43, 45, 88, 120} \<and> (d < 10 \<longrightarrow> isdigit (schar (digit_char up d)) \<and> ucast (digit_char up d) - 48 = (of_nat d :: u32))"
  by (simp add: upt_rec digit_char_def digit_value_def ctype_defs schar_def)

lemma digit_char_ok:
  assumes "d < 16"
  shows "digit_value (uint (digit_char up d)) = int d" "\<not> isspace (schar (digit_char up d))"
    "digit_char up d \<notin> {43, 45, 88, 120}" "d < 10 \<Longrightarrow> isdigit (schar (digit_char up d))"
    "d < 10 \<Longrightarrow> ucast (digit_char up d) - 48 = (of_nat d :: u32)"
  using digit_chars assms by auto

lemma parse_digits_chars:
  assumes "b \<le> 16" "\<forall>d \<in> set ns. d < b"
  shows "parse_digits (int b) (map (digit_char up) (rev ns)) v = (v * of_nat b ^ length ns + of_nat (value_of b ns), [])"
  using assms(2)
proof (induction ns arbitrary: v rule: rev_induct)
  case (snoc d ns)
  have "digit_value (uint (digit_char up d)) = int d" using digit_char_ok(1) [of d] snoc.prems assms(1) by simp
  then show ?case using snoc by (simp add: value_of_append algebra_simps)
qed simp

lemma read_number_chars:
  "\<forall>d \<in> set ns. d < 10 \<Longrightarrow> read_number (map (digit_char up) (rev ns)) v = (v * 10 ^ length ns + of_nat (value_of 10 ns), [])"
proof (induction ns arbitrary: v rule: rev_induct)
  case (snoc d ns)
  have "isdigit (schar (digit_char up d))" "ucast (digit_char up d) - 48 = (of_nat d :: u32)"
    using digit_char_ok(4,5) [of d] snoc.prems by auto
  then show ?case using snoc by (simp add: value_of_append algebra_simps)
qed simp

text \<open>The digits of a number, the last one first.\<close>

lemma format_number_ok:
  fixes base :: u32
  assumes "8 \<le> unat base" "unat base \<le> 16"
  shows "\<exists>ns. format_number num base up negative psign 1
       = Some ((if negative then [45] else if psign then [43] else []) @ map (digit_char up) (rev ns))
     \<and> (\<forall>d \<in> set ns. d < unat base) \<and> ns \<noteq> [] \<and> length ns \<le> 23 \<and> value_of (unat base) ns = unat num"
proof -
  have "unat num < 2 ^ 64" using unsigned_less [of num] by simp
  also have "(2 :: nat) ^ 64 \<le> 8 ^ 22" by simp
  also have "(8 :: nat) ^ 22 \<le> unat base ^ 22" using assms(1) by (intro power_mono) auto
  finally obtain ns m k where h: "high_digits base up num [] = Some (map (digit_char up) ns, m)" "\<forall>d \<in> set ns. d < unat base"
      "unat num = value_of (unat base) ns + unat base ^ length ns * unat m" "m \<le> 0xFFFFFFFF" "unat m < unat base ^ k" "length ns + k \<le> 22"
    using high_ok [OF assms(1), of num 22 "[]" up] by auto
  have m: "unat (ucast m :: u32) = unat m"
    using h(4) by (simp add: unsigned_ucast_eq take_bit_nat_eq_self_iff word_le_nat_alt)
  have k: "unat (ucast m :: u32) < unat base ^ k" "length (map (digit_char up) ns) + k \<le> 22" using h m by simp_all
  obtain ns' where l: "low_digits base up 1 (ucast m) (map (digit_char up) ns) = Some (map (digit_char up) ns @ map (digit_char up) ns')"
      "\<forall>d \<in> set ns'. d < unat base" "unat (ucast m :: u32) = value_of (unat base) ns'" "map (digit_char up) ns @ map (digit_char up) ns' \<noteq> []"
      "length ns + length ns' \<le> 23"
    using low_ok [OF assms(1) k, of up] by auto
  show ?thesis
    using h(1,2,3) l m by (intro exI [of _ "ns @ ns'"]) (simp add: format_number_def value_of_append rev_map ball_Un)
qed

definition number_text :: "bool \<Rightarrow> bool \<Rightarrow> nat list \<Rightarrow> bytes" where
  "number_text neg up ns = (if neg then [45] else []) @ map (digit_char up) (rev ns)"

lemma number_text_unsigned:
  assumes "ns \<noteq> []" "b \<le> 16" "\<forall>d \<in> set ns. d < b"
  obtains d ds where "map (digit_char up) (rev ns) = digit_char up d # map (digit_char up) ds" "d < 16" "\<forall>d \<in> set ds. d < 16"
proof -
  obtain d ds where "rev ns = d # ds" using assms(1) by (cases "rev ns") auto
  moreover have "set (rev ns) = set ns" by simp
  ultimately show thesis using that [of d ds] assms(2,3) by force
qed

lemma skip_number: "ns \<noteq> [] \<Longrightarrow> b \<le> 16 \<Longrightarrow> \<forall>d \<in> set ns. d < b \<Longrightarrow> skip_spaces (number_text neg up ns) = number_text neg up ns"
proof (cases neg)
  case True
  then show ?thesis by (simp add: skip_spaces_def number_text_def isspace_def schar_def)
next
  case False
  assume a: "ns \<noteq> []" "b \<le> 16" "\<forall>d \<in> set ns. d < b"
  obtain d ds where "map (digit_char up) (rev ns) = digit_char up d # map (digit_char up) ds" "d < 16"
    using number_text_unsigned [OF a] by metis
  then show ?thesis using False digit_char_ok(2) by (simp add: skip_spaces_def number_text_def)
qed

lemma parse_number_text:
  assumes "ns \<noteq> []" "2 \<le> b" "b \<le> 16" "\<forall>d \<in> set ns. d < b"
  shows "parse_integer (number_text neg up ns) (int b) = (of_nat (value_of b ns), neg, [])"
proof -
  obtain d ds where c: "map (digit_char up) (rev ns) = digit_char up d # map (digit_char up) ds" "d < 16" "\<forall>d \<in> set ds. d < 16"
    using number_text_unsigned [OF assms(1,3,4)] by metis
  let ?m = "map (digit_char up) (rev ns)"
  have first: "chr_at ?m 0 \<noteq> 45" "chr_at ?m 0 \<noteq> 43" using c digit_char_ok(3) [OF c(2), of up] by (simp_all add: chr_at_def)
  have second: "chr_at ?m 1 \<noteq> 120 \<and> chr_at ?m 1 \<noteq> 88"
  proof (cases ds)
    case (Cons e es)
    then show ?thesis using c digit_char_ok(3) [of e up] by (simp add: chr_at_def)
  qed (simp add: c chr_at_def)
  have strip: "(if neg \<or> chr_at (number_text neg up ns) 0 = 43 then tl (number_text neg up ns) else number_text neg up ns) = ?m"
    "(chr_at (number_text neg up ns) 0 = 45) = neg"
    using first by (auto simp: number_text_def chr_at_def)
  have ne: "?m \<noteq> []" using assms(1) by simp
  show ?thesis
    unfolding parse_integer_def Let_def skip_number [OF assms(1,3,4)] strip(2) strip(1)
    using second parse_digits_chars [OF assms(3,4), of up 0] ne assms(2) by (simp add: rev_map)
qed

lemma atoi_number_text:
  assumes "ns \<noteq> []" "\<forall>d \<in> set ns. d < 10"
  shows "atoi (number_text neg up ns) = (if neg then - 1 else 1) * of_nat (value_of 10 ns)"
proof -
  obtain d ds where c: "map (digit_char up) (rev ns) = digit_char up d # map (digit_char up) ds" "d < 16"
    by (rule number_text_unsigned [of ns 10 up]) (use assms in auto)
  let ?m = "map (digit_char up) (rev ns)"
  have first: "chr_at ?m 0 \<noteq> 45" "chr_at ?m 0 \<noteq> 43" using c digit_char_ok(3) [OF c(2), of up] by (simp_all add: chr_at_def)
  have strip: "(if neg \<or> chr_at (number_text neg up ns) 0 = 43 then tl (number_text neg up ns) else number_text neg up ns) = ?m"
    "(chr_at (number_text neg up ns) 0 = 45) = neg"
    using first by (auto simp: number_text_def chr_at_def)
  show ?thesis
    unfolding atoi_def Let_def skip_number [OF assms(1) _ assms(2), simplified] strip(2) strip(1)
    using read_number_chars [OF assms(2), of up 0] by simp
qed

lemma format_int_text:
  "\<exists>ns. formatted (str ''%d'') [Arg_int n] = Some (number_text (scast n <s (0 :: u64)) False ns) \<and> (\<forall>d \<in> set ns. d < 10) \<and> ns \<noteq> []
     \<and> length ns \<le> 23 \<and> value_of 10 ns = unat (if scast n <s (0 :: u64) then - scast n else scast n :: u64)"
proof -
  obtain ns where n: "format_number (if scast n <s (0 :: u64) then - scast n else scast n) 10 False (scast n <s (0 :: u64)) False 1
       = Some (number_text (scast n <s (0 :: u64)) False ns)" "\<forall>d \<in> set ns. d < 10" "ns \<noteq> []" "length ns \<le> 23"
      "value_of 10 ns = unat (if scast n <s (0 :: u64) then - scast n else scast n :: u64)"
    using format_number_ok [of 10 "if scast n <s (0 :: u64) then - scast n else scast n" False "scast n <s (0 :: u64)" False]
    by (auto simp: number_text_def)
  show ?thesis
    using n
    by (intro exI [of _ ns]) (simp add: str_def format_one_def read_width_def read_precision_def isdigit_def schar_def
        format_conversion_def int_arg_def padded_text_def)
qed

lemma format_long_text:
  "\<exists>ns. formatted (str ''%lld'') [Arg_long n] = Some (number_text (n <s 0) False ns) \<and> (\<forall>d \<in> set ns. d < 10) \<and> ns \<noteq> []
     \<and> length ns \<le> 23 \<and> value_of 10 ns = unat (if n <s 0 then - n else n)"
proof -
  obtain ns where n: "format_number (if n <s 0 then - n else n) 10 False (n <s 0) False 1 = Some (number_text (n <s 0) False ns)"
      "\<forall>d \<in> set ns. d < 10" "ns \<noteq> []" "length ns \<le> 23" "value_of 10 ns = unat (if n <s 0 then - n else n)"
    using format_number_ok [of 10 "if n <s 0 then - n else n" False "n <s 0" False] by (auto simp: number_text_def)
  show ?thesis
    using n
    by (intro exI [of _ ns]) (simp add: str_def format_one_def read_width_def read_precision_def isdigit_def schar_def
        format_conversion_def int_arg_def padded_text_def)
qed

lemma format_hex_text:
  "\<exists>ns. formatted (str ''%x'') [Arg_int n] = Some (number_text False False ns) \<and> (\<forall>d \<in> set ns. d < 16) \<and> ns \<noteq> []
     \<and> length ns \<le> 23 \<and> value_of 16 ns = unat n"
proof -
  have u: "unat (ucast n :: u64) = unat n" using unat_u32_less [of n] by (simp add: unsigned_ucast_eq take_bit_nat_eq_self_iff)
  obtain ns where n: "format_number (ucast n) 16 False False False 1 = Some (number_text False False ns)"
      "\<forall>d \<in> set ns. d < 16" "ns \<noteq> []" "length ns \<le> 23" "value_of 16 ns = unat n"
    using format_number_ok [of 16 "ucast n" False False False] u by (auto simp: number_text_def)
  show ?thesis
    using n
    by (intro exI [of _ ns]) (simp add: str_def format_one_def read_width_def read_precision_def isdigit_def schar_def
        format_conversion_def int_arg_def padded_text_def)
qed

lemma print_number:
  assumes "32 \<le> mx" "length buf = unat mx" "formatted fmt args = Some (number_text neg up ns)" "length ns \<le> 23"
  obtains b l where "vsnprintf buf mx fmt args = Some (b, l)" "l < mx" "chr_at b (unat l) = 0" "take (unat l) b = number_text neg up ns"
proof -
  let ?t = "number_text neg up ns"
  have len: "length ?t \<le> 24" using assms(4) by (simp add: number_text_def)
  then have l: "unat (of_nat (length ?t) :: u32) = length ?t" by (intro unat_of_small) simp
  have mx: "32 \<le> unat mx" using assms(1) by (simp add: word_le_nat_alt)
  have st: "stored buf mx ?t = ?t @ [0] @ drop (Suc (length ?t)) buf" using mx len by (auto simp: stored_def min_def)
  show thesis
  proof (rule that)
    show "vsnprintf buf mx fmt args = Some (stored buf mx ?t, of_nat (length ?t))"
      using len by (intro vsnprintf_stored assms(2,3)) simp
    show "of_nat (length ?t) < mx" using l len mx by (simp add: word_less_nat_alt)
    show "chr_at (stored buf mx ?t) (unat (of_nat (length ?t) :: u32)) = 0" using l st by (simp add: chr_at_def nth_append)
    show "take (unat (of_nat (length ?t) :: u32)) (stored buf mx ?t) = ?t" using l st by simp
  qed
qed

lemma narrow_wide: "ucast (ucast n :: u64) = (n :: u32)"
  by (rule bit_word_eqI) (simp add: bit_simps)

lemma narrow_neg: "- ucast (- scast n :: u64) = (n :: u32)" "ucast (scast n :: u64) = (n :: u32)"
proof -
  show r: "ucast (scast n :: u64) = (n :: u32)" 
  proof (rule bit_word_eqI)
    fix i
    assume "i < LENGTH(32)"
    then show "bit (ucast (scast n :: u64) :: u32) i = bit n i" by (cases "i = 31") (simp_all add: bit_simps min_def)
  qed
  have "ucast (- x) = (- ucast x :: u32)" for x :: u64
  proof (cases "x = 0")
    case False
    have lt: "unat x < 2 ^ 64" using unsigned_less [of x] by simp
    have "(of_nat (2 ^ 64 - unat x) :: u64) = of_nat (2 ^ 64) - of_nat (unat x)" using lt by (intro of_nat_diff) simp
    then have "- x = of_nat (2 ^ 64 - unat x)" by simp
    moreover have "unat (of_nat (2 ^ 64 - unat x) :: u64) = 2 ^ 64 - unat x"
      using False by (simp add: unat_of_nat take_bit_nat_eq_self unat_gt_0)
    ultimately have "unat (- x) = 2 ^ 64 - unat x" by simp
    then have "ucast (- x) = (of_nat (2 ^ 64 - unat x) :: u32)" by (metis of_nat_unat)
    also have "\<dots> = of_nat (2 ^ 64) - of_nat (unat x)"
      using lt by (intro of_nat_diff) simp
    finally show ?thesis by simp
  qed simp
  then show "- ucast (- scast n :: u64) = (n :: u32)" using r by simp
qed

section \<open>The contract\<close>

text \<open>C31. \<^verbatim>\<open>vsnprintf\<close> gives the length of the whole text, whatever the size of the buffer is, and
  stores the part of it that fits with a terminator behind it. No store is outside of the buffer, the bytes
  behind the terminator and all of a buffer of size 0 stay as they are.\<close>

theorem user_vsnprintf_correct:
  assumes "length buf = unat mx" "formatted fmt args = Some cs" "length cs < 2 ^ 32"
  shows "vsnprintf buf mx fmt args = Some (stored buf mx cs, of_nat (length cs))"
    using assms by (rule vsnprintf_stored)

text \<open>C32. A number that is printed with \<^verbatim>\<open>%d\<close>, \<^verbatim>\<open>%lld\<close> or \<^verbatim>\<open>%x\<close> is read back by \<^verbatim>\<open>atoi\<close> and the
  \<^verbatim>\<open>strto\<close> functions, whatever its sign and size, and nothing of the text is left over.\<close>

theorem user_number_roundtrip:
  assumes "32 \<le> mx" "length buf = unat mx"
  shows "(\<exists>b l. vsnprintf buf mx (str ''%d'') [Arg_int n] = Some (b, l) \<and> l < mx \<and> chr_at b (unat l) = 0
            \<and> atoi (take (unat l) b) = n \<and> strtol (take (unat l) b) 10 = (n, []))
    \<and> (\<exists>b l. vsnprintf buf mx (str ''%x'') [Arg_int n] = Some (b, l) \<and> l < mx \<and> chr_at b (unat l) = 0
            \<and> strtoul (take (unat l) b) 16 = (n, []))
    \<and> (\<exists>b l. vsnprintf buf mx (str ''%lld'') [Arg_long m] = Some (b, l) \<and> l < mx \<and> chr_at b (unat l) = 0
            \<and> strtoll (take (unat l) b) 10 = (m, []))"
proof (intro conjI)
  obtain ns where d: "formatted (str ''%d'') [Arg_int n] = Some (number_text (scast n <s (0 :: u64)) False ns)" "\<forall>d \<in> set ns. d < 10"
      "ns \<noteq> []" "length ns \<le> 23" "value_of 10 ns = unat (if scast n <s (0 :: u64) then - scast n else scast n :: u64)"
    using format_int_text by metis
  obtain b l where p: "vsnprintf buf mx (str ''%d'') [Arg_int n] = Some (b, l)" "l < mx" "chr_at b (unat l) = 0"
      "take (unat l) b = number_text (scast n <s (0 :: u64)) False ns"
    using print_number [OF assms d(1,4)] by metis
  have "of_nat (value_of 10 ns) = (ucast (if scast n <s (0 :: u64) then - scast n else scast n :: u64) :: u32)"
    unfolding d(5) by simp
  then have a: "atoi (take (unat l) b) = n" using p(4) atoi_number_text [OF d(3,2)] narrow_neg [of n] by auto
  have s: "strtol (take (unat l) b) 10 = (n, [])"
    using p(4) parse_number_text [OF d(3) _ _ d(2)] narrow_neg [of n] d(5) by (auto simp: strtol_def)
  show "\<exists>b l. vsnprintf buf mx (str ''%d'') [Arg_int n] = Some (b, l) \<and> l < mx \<and> chr_at b (unat l) = 0
            \<and> atoi (take (unat l) b) = n \<and> strtol (take (unat l) b) 10 = (n, [])"
    using p(1-3) a s by blast
next
  obtain ns where d: "formatted (str ''%x'') [Arg_int n] = Some (number_text False False ns)" "\<forall>d \<in> set ns. d < 16"
      "ns \<noteq> []" "length ns \<le> 23" "value_of 16 ns = unat n"
    using format_hex_text by metis
  obtain b l where p: "vsnprintf buf mx (str ''%x'') [Arg_int n] = Some (b, l)" "l < mx" "chr_at b (unat l) = 0"
      "take (unat l) b = number_text False False ns"
    using print_number [OF assms d(1,4)] by metis
  have "strtoul (take (unat l) b) 16 = (n, [])"
    using p(4) parse_number_text [OF d(3) _ _ d(2), of False False] d(5) by (simp add: strtoul_def narrow_wide)
  then show "\<exists>b l. vsnprintf buf mx (str ''%x'') [Arg_int n] = Some (b, l) \<and> l < mx \<and> chr_at b (unat l) = 0
            \<and> strtoul (take (unat l) b) 16 = (n, [])"
    using p(1-3) by blast
next
  obtain ns where d: "formatted (str ''%lld'') [Arg_long m] = Some (number_text (m <s 0) False ns)" "\<forall>d \<in> set ns. d < 10"
      "ns \<noteq> []" "length ns \<le> 23" "value_of 10 ns = unat (if m <s 0 then - m else m)"
    using format_long_text by metis
  obtain b l where p: "vsnprintf buf mx (str ''%lld'') [Arg_long m] = Some (b, l)" "l < mx" "chr_at b (unat l) = 0"
      "take (unat l) b = number_text (m <s 0) False ns"
    using print_number [OF assms d(1,4)] by metis
  have "strtoll (take (unat l) b) 10 = (m, [])"
    using p(4) parse_number_text [OF d(3) _ _ d(2)] d(5) by (auto simp: strtoll_def)
  then show "\<exists>b l. vsnprintf buf mx (str ''%lld'') [Arg_long m] = Some (b, l) \<and> l < mx \<and> chr_at b (unat l) = 0
            \<and> strtoll (take (unat l) b) 10 = (m, [])"
    using p(1-3) by blast
qed

theorem user_vsnprintf_correct_witness:
  "vsnprintf (replicate 6 7) 6 (str ''%-4d|%05x'') [Arg_int (- 12), Arg_int 255] = Some (str ''-12 |'' @ [0], 10)"
proof -
  have "formatted (str ''%-4d|%05x'') [Arg_int (- 12), Arg_int 255] = Some (str ''-12 |000ff'')"
    by (simp add: str_def format_one_def read_width_def read_precision_def isdigit_def schar_def format_conversion_def int_arg_def
        padded_text_def format_number_def high_digits.simps low_digits.simps digit_char_def
        word_sless_alt numeral_3_eq_3)
  from user_vsnprintf_correct [OF _ this, of "replicate 6 7" 6] show ?thesis by (simp add: stored_def str_def)
qed

theorem user_number_roundtrip_witness:
  "\<exists>b l. vsnprintf (replicate 32 0) 32 (str ''%d'') [Arg_int (- 2147483648)] = Some (b, l) \<and> atoi (take (unat l) b) = - 2147483648"
  using user_number_roundtrip [of 32 "replicate 32 0" "- 2147483648" 0] by auto

end
