(* ===== verification/Canvas.thy ===== *)
theory Canvas
  imports UserFormat
begin

text \<open>
  Drawing of the desktop, \<^verbatim>\<open>src/user/deskdraw.c\<close>: a canvas of 640 by 480 pixels, eight in a byte, a clip
  box, boxes and patterns, and text in a proportional font. Coordinates are integers without a bound; those of the
  desktop are a few screens at most, far from the ends of a C \<^verbatim>\<open>int\<close>, where the sums of the code would overflow.

  The canvas and the frame are byte lists, \<open>pixel\<close> is what they show. Every drawing function goes
  through \<open>span\<close>, whose effect on the pixels is stated once.
\<close>

section \<open>The code\<close>

abbreviation (input) SCREEN_W :: int where "SCREEN_W \<equiv> 640"
abbreviation (input) SCREEN_H :: int where "SCREEN_H \<equiv> 480"
abbreviation (input) STRIDE :: int where "STRIDE \<equiv> 80"
abbreviation (input) FONT_HEIGHT :: int where "FONT_HEIGHT \<equiv> 9"
abbreviation (input) PAPER :: bool where "PAPER \<equiv> False"
abbreviation (input) INK :: bool where "INK \<equiv> True"

record box =
  box_x :: int
  box_y :: int
  box_w :: int
  box_h :: int

record desk_canvas =
  canvas_bytes :: bytes
  frame_bytes :: bytes
  to_frame :: bool     \<comment> \<open>\<^verbatim>\<open>target\<close> is the frame\<close>
  clip :: box

definition pattern_grey :: bytes where "pattern_grey = [0xCC, 0x66, 0x33, 0x99, 0xCC, 0x66, 0x33, 0x99]"
definition pattern_light :: bytes where "pattern_light = [0x88, 0x00, 0x22, 0x00, 0x88, 0x00, 0x22, 0x00]"
definition pattern_stripes :: bytes where "pattern_stripes = [0xFF, 0x00, 0xFF, 0x00, 0xFF, 0x00, 0xFF, 0x00]"

text \<open>The rows of the glyphs from the space on, the code has one to a line.\<close>

definition glyphs :: "string list" where
  "glyphs = [
    ''...'', ''# # # # # . #'', ''#.# #.#'', ''.#.#. .#.#. ##### .#.#. ##### .#.#. .#.#.'',
    ''..#.. .#### #.#.. .###. ..#.# ####. ..#..'', ''##... ##..# ...#. ..#.. .#... #..## ...##'',
    ''.#... #.#.. #.#.. .#... #.#.# #..#. .##.#'', ''# #'', ''..# .#. #.. #.. #.. .#. ..#'',
    ''#.. .#. ..# ..# ..# .#. #..'', ''..... ..#.. #.#.# .###. #.#.# ..#..'', ''..... ..#.. ..#.. ##### ..#.. ..#..'',
    ''.. .. .. .. .. .# .# #.'', ''.... .... .... ####'', ''. . . . . . #'', ''..... ....# ...#. ..#.. .#... #....'',
    ''.###. #...# #..## #.#.# ##..# #...# .###.'', ''.#. ##. .#. .#. .#. .#. ###'',
    ''.###. #...# ....# ..##. .#... #.... #####'', ''##### ...#. ..#.. ...#. ....# #...# .###.'',
    ''...#. ..##. .#.#. #..#. ##### ...#. ...#.'', ''##### #.... ####. ....# ....# #...# .###.'',
    ''..##. .#... #.... ####. #...# #...# .###.'', ''##### ....# ...#. ..#.. .#... .#... .#...'',
    ''.###. #...# #...# .###. #...# #...# .###.'', ''.###. #...# #...# .#### ....# ...#. .##..'', ''. . # . . # .'',
    ''.. .. .# .. .. .# .# #.'', ''...# ..#. .#.. #... .#.. ..#. ...#'', ''.... .... #### .... ####'',
    ''#... .#.. ..#. ...# ..#. .#.. #...'', ''.###. #...# ....# ...#. ..#.. ..... ..#..'',
    ''.###. #...# #.### #.#.# #.### #.... .###.'', ''.###. #...# #...# ##### #...# #...# #...#'',
    ''####. #...# #...# ####. #...# #...# ####.'', ''.###. #...# #.... #.... #.... #...# .###.'',
    ''####. #...# #...# #...# #...# #...# ####.'', ''##### #.... #.... ####. #.... #.... #####'',
    ''##### #.... #.... ####. #.... #.... #....'', ''.###. #...# #.... #.### #...# #...# .####'',
    ''#...# #...# #...# ##### #...# #...# #...#'', ''### .#. .#. .#. .#. .#. ###'',
    ''..### ...#. ...#. ...#. ...#. #..#. .##..'', ''#...# #..#. #.#.. ##... #.#.. #..#. #...#'',
    ''#.... #.... #.... #.... #.... #.... #####'', ''#...# ##.## #.#.# #.#.# #...# #...# #...#'',
    ''#...# #...# ##..# #.#.# #..## #...# #...#'', ''.###. #...# #...# #...# #...# #...# .###.'',
    ''####. #...# #...# ####. #.... #.... #....'', ''.###. #...# #...# #...# #.#.# #..#. .##.#'',
    ''####. #...# #...# ####. #.#.. #..#. #...#'', ''.###. #...# #.... .###. ....# #...# .###.'',
    ''##### ..#.. ..#.. ..#.. ..#.. ..#.. ..#..'', ''#...# #...# #...# #...# #...# #...# .###.'',
    ''#...# #...# #...# #...# #...# .#.#. ..#..'', ''#...# #...# #...# #.#.# #.#.# #.#.# .#.#.'',
    ''#...# #...# .#.#. ..#.. .#.#. #...# #...#'', ''#...# #...# .#.#. ..#.. ..#.. ..#.. ..#..'',
    ''##### ....# ...#. ..#.. .#... #.... #####'', ''### #.. #.. #.. #.. #.. ###'',
    ''..... #.... .#... ..#.. ...#. ....#'', ''### ..# ..# ..# ..# ..# ###'', ''..#.. .#.#. #...#'',
    ''..... ..... ..... ..... ..... ..... ..... #####'', ''#. .#'', ''..... ..... .###. ....# .#### #...# .####'',
    ''#.... #.... ####. #...# #...# #...# ####.'', ''.... .... .### #... #... #... .###'',
    ''....# ....# .#### #...# #...# #...# .####'', ''..... ..... .###. #...# ##### #.... .###.'',
    ''..## .#.. #### .#.. .#.. .#.. .#..'', ''..... ..... .#### #...# #...# #...# .#### ....# .###.'',
    ''#.... #.... ####. #...# #...# #...# #...#'', ''# . # # # # #'', ''..# ... ..# ..# ..# ..# ..# #.# .#.'',
    ''#... #... #..# #.#. ##.. #.#. #..#'', ''# # # # # # #'', ''..... ..... ##.#. #.#.# #.#.# #.#.# #.#.#'',
    ''..... ..... ####. #...# #...# #...# #...#'', ''..... ..... .###. #...# #...# #...# .###.'',
    ''..... ..... ####. #...# #...# #...# ####. #.... #....'',
    ''..... ..... .#### #...# #...# #...# .#### ....# ....#'', ''.... .... #.## ##.. #... #... #...'',
    ''..... ..... .#### #.... .###. ....# ####.'', ''.#.. .#.. #### .#.. .#.. .#.. ..##'',
    ''..... ..... #...# #...# #...# #...# .####'', ''..... ..... #...# #...# #...# .#.#. ..#..'',
    ''..... ..... #...# #...# #.#.# #.#.# .#.#.'', ''..... ..... #...# .#.#. ..#.. .#.#. #...#'',
    ''..... ..... #...# #...# #...# #...# .#### ....# .###.'', ''..... ..... ##### ...#. ..#.. .#... #####'',
    ''..# .#. .#. #.. .#. .#. ..#'', ''# # # # # # # # #'', ''#.. .#. .#. ..# .#. .#. #..'',
    ''..... ..... .#..# #.##.''
    ]"

text \<open>The width and the rows of a glyph, as \<^verbatim>\<open>font_init\<close> puts them into its tables.\<close>

fun font_scan :: "string \<Rightarrow> nat \<Rightarrow> nat \<Rightarrow> nat \<times> bytes \<Rightarrow> nat \<times> bytes" where
  "font_scan [] row column g = g"
| "font_scan (p # ps) row column (width, rows) =
    (if p = CHR '' '' then font_scan ps (row + 1) 0 (width, rows)
     else font_scan ps row (column + 1)
            (if row = 0 then width + 1 else width,
             if p = CHR ''#'' \<and> row < nat FONT_HEIGHT then rows[row := rows ! row OR drop_bit column 0x80] else rows))"

definition font_glyph :: "nat \<Rightarrow> nat \<times> bytes" where
  "font_glyph g = font_scan (glyphs ! g) 0 0 (0, replicate (nat FONT_HEIGHT) 0)"

definition glyph_index :: "u8 \<Rightarrow> nat" where
  "glyph_index c = (if schar c < 32 \<or> schar c \<ge> 32 + int (length glyphs) then 63 else unat c) - 32"

definition draw_to_frame :: "bool \<Rightarrow> desk_canvas \<Rightarrow> desk_canvas" where
  "draw_to_frame f v = v\<lparr>to_frame := f\<rparr>"

definition draw_clip :: "box \<Rightarrow> desk_canvas \<Rightarrow> desk_canvas" where
  "draw_clip b v =
    (let x1 = box_x b + box_w b;
         y1 = box_y b + box_h b;
         x = (if box_x b < 0 then 0 else box_x b);
         y = (if box_y b < 0 then 0 else box_y b)
     in v\<lparr>clip := \<lparr>box_x = x, box_y = y,
                   box_w = (if x1 > SCREEN_W then SCREEN_W else x1) - x,
                   box_h = (if y1 > SCREEN_H then SCREEN_H else y1) - y\<rparr>\<rparr>)"

definition draw_unclip :: "desk_canvas \<Rightarrow> desk_canvas" where
  "draw_unclip v = v\<lparr>clip := \<lparr>box_x = 0, box_y = 0, box_w = SCREEN_W, box_h = SCREEN_H\<rparr>\<rparr>"

definition box_contains :: "box \<Rightarrow> int \<Rightarrow> int \<Rightarrow> bool" where
  "box_contains b x y \<longleftrightarrow> x \<ge> box_x b \<and> y \<ge> box_y b \<and> x < box_x b + box_w b \<and> y < box_y b + box_h b"

text \<open>The bytes of row \<open>y\<close> from pixel \<open>x0\<close> to \<open>x1\<close>; the coordinates are inside the screen here.\<close>

function span_loop :: "int \<Rightarrow> int \<Rightarrow> int \<Rightarrow> u8 \<Rightarrow> bool \<Rightarrow> bytes \<Rightarrow> bytes" where
  "span_loop y x0 x1 bits flipped target =
    (if x0 < x1
     then let byte = x0 div 8;
              first = x0 mod 8;
              final = (if (byte + 1) * 8 < x1 then 8 else x1 - byte * 8);
              mask = drop_bit (nat first) 0xFF AND (push_bit (nat (8 - final)) 0xFF :: u8);
              i = nat (y * STRIDE + byte);
              b = (if flipped then target ! i XOR mask else (target ! i AND NOT mask) OR (bits AND mask))
          in span_loop y ((byte + 1) * 8) x1 bits flipped (target[i := b])
     else target)"
  by pat_completeness auto
termination by (relation "measure (\<lambda>(y, x0, x1, bits, flipped, target). nat (x1 - x0))") auto

declare span_loop.simps [simp del]

definition span :: "int \<Rightarrow> int \<Rightarrow> int \<Rightarrow> u8 \<Rightarrow> bool \<Rightarrow> desk_canvas \<Rightarrow> desk_canvas" where
  "span y x0 x1 bits flipped v =
    (if y < box_y (clip v) \<or> y \<ge> box_y (clip v) + box_h (clip v) then v
     else let x0 = (if x0 < box_x (clip v) then box_x (clip v) else x0);
              x1 = (if x1 > box_x (clip v) + box_w (clip v) then box_x (clip v) + box_w (clip v) else x1)
          in if to_frame v then v\<lparr>frame_bytes := span_loop y x0 x1 bits flipped (frame_bytes v)\<rparr>
             else v\<lparr>canvas_bytes := span_loop y x0 x1 bits flipped (canvas_bytes v)\<rparr>)"

definition ink_bits :: "bool \<Rightarrow> u8" where
  "ink_bits colour = (if colour then 0xFF else 0)"

definition fill_box :: "box \<Rightarrow> bool \<Rightarrow> desk_canvas \<Rightarrow> desk_canvas" where
  "fill_box b colour v =
    fold (\<lambda>y. span y (box_x b) (box_x b + box_w b) (ink_bits colour) False) [box_y b..box_y b + box_h b - 1] v"

definition fill_pattern :: "box \<Rightarrow> bytes \<Rightarrow> desk_canvas \<Rightarrow> desk_canvas" where
  "fill_pattern b pattern v =
    fold (\<lambda>y. span y (box_x b) (box_x b + box_w b) (pattern ! nat (y mod 8)) False) [box_y b..box_y b + box_h b - 1] v"

definition invert_box :: "box \<Rightarrow> desk_canvas \<Rightarrow> desk_canvas" where
  "invert_box b v = fold (\<lambda>y. span y (box_x b) (box_x b + box_w b) 0 True) [box_y b..box_y b + box_h b - 1] v"

definition hline :: "int \<Rightarrow> int \<Rightarrow> int \<Rightarrow> bool \<Rightarrow> desk_canvas \<Rightarrow> desk_canvas" where
  "hline x y w colour v = span y x (x + w) (ink_bits colour) False v"

definition vline :: "int \<Rightarrow> int \<Rightarrow> int \<Rightarrow> bool \<Rightarrow> desk_canvas \<Rightarrow> desk_canvas" where
  "vline x y h colour v = fold (\<lambda>i. span i x (x + 1) (ink_bits colour) False) [y..y + h - 1] v"

definition frame_box :: "box \<Rightarrow> desk_canvas \<Rightarrow> desk_canvas" where
  "frame_box b v =
    (let v = hline (box_x b) (box_y b) (box_w b) INK v;
         v = hline (box_x b) (box_y b + box_h b - 1) (box_w b) INK v;
         v = vline (box_x b) (box_y b) (box_h b) INK v
     in vline (box_x b + box_w b - 1) (box_y b) (box_h b) INK v)"

definition put_pixel :: "int \<Rightarrow> int \<Rightarrow> bool \<Rightarrow> desk_canvas \<Rightarrow> desk_canvas" where
  "put_pixel x y colour v = span y x (x + 1) (ink_bits colour) False v"

definition flip_pixel :: "int \<Rightarrow> int \<Rightarrow> desk_canvas \<Rightarrow> desk_canvas" where
  "flip_pixel x y v = span y x (x + 1) 0 True v"

text \<open>Every second value from \<open>a\<close> up to \<open>b\<close>.\<close>

function steps2 :: "int \<Rightarrow> int \<Rightarrow> int list" where
  "steps2 a b = (if a \<le> b then a # steps2 (a + 2) b else [])"
  by pat_completeness auto
termination by (relation "measure (\<lambda>(a, b). nat (b - a + 1))") auto

declare steps2.simps [simp del]

definition dotted_frame :: "box \<Rightarrow> desk_canvas \<Rightarrow> desk_canvas" where
  "dotted_frame b v =
    (let x1 = box_x b + box_w b - 1;
         y1 = box_y b + box_h b - 1;
         v = fold (\<lambda>x v. flip_pixel x y1 (flip_pixel x (box_y b) v)) (steps2 (box_x b) x1) v
     in fold (\<lambda>y v. flip_pixel x1 y (flip_pixel (box_x b) y v)) (steps2 (box_y b + 1) (y1 - 1)) v)"

definition draw_art_row :: "int \<Rightarrow> int \<Rightarrow> bytes \<Rightarrow> bool \<Rightarrow> desk_canvas \<Rightarrow> desk_canvas" where
  "draw_art_row x y row inverted v =
    fold (\<lambda>c v. if row ! c = 35 \<or> row ! c = 46 then put_pixel (x + int c) y ((row ! c = 35) \<noteq> inverted) v else v)
      [0..<length row] v"

definition draw_art :: "int \<Rightarrow> int \<Rightarrow> bytes list \<Rightarrow> bool \<Rightarrow> desk_canvas \<Rightarrow> desk_canvas" where
  "draw_art x y rows inverted v = fold (\<lambda>r. draw_art_row x (y + int r) (rows ! r) inverted) [0..<length rows] v"

definition art_width :: "bytes list \<Rightarrow> nat" where
  "art_width rows = fold (\<lambda>row w. if length row > w then length row else w) rows 0"

definition art_height :: "bytes list \<Rightarrow> nat" where
  "art_height rows = length rows"

text \<open>The loop over the bits of a row ends when no bit is left, so it visits the eight pixels.\<close>

definition draw_glyph :: "int \<Rightarrow> int \<Rightarrow> u8 \<Rightarrow> bool \<Rightarrow> desk_canvas \<Rightarrow> desk_canvas \<times> int" where
  "draw_glyph x y c colour v =
    (let (width, rows) = font_glyph (glyph_index c);
         v = fold (\<lambda>r v. fold (\<lambda>i v. if bit (rows ! r) (7 - i) then put_pixel (x + int i) (y + int r) colour v else v) [0..<8] v)
               [0..<nat FONT_HEIGHT] v
     in (v, int width + 1))"

fun draw_text_loop :: "int \<Rightarrow> int \<Rightarrow> bytes \<Rightarrow> bool \<Rightarrow> desk_canvas \<Rightarrow> desk_canvas \<times> int" where
  "draw_text_loop x y [] colour v = (v, x)"
| "draw_text_loop x y (c # cs) colour v =
    (case draw_glyph x y c colour v of (v, w) \<Rightarrow> draw_text_loop (x + w) y cs colour v)"

definition draw_text :: "int \<Rightarrow> int \<Rightarrow> bytes \<Rightarrow> bool \<Rightarrow> desk_canvas \<Rightarrow> desk_canvas \<times> int" where
  "draw_text x y text_bytes colour v = (case draw_text_loop x y text_bytes colour v of (v, x1) \<Rightarrow> (v, x1 - x))"

definition char_advance :: "u8 \<Rightarrow> int" where
  "char_advance c = int (fst (font_glyph (glyph_index c))) + 1"

definition text_width :: "bytes \<Rightarrow> int" where
  "text_width cs = fold (\<lambda>c w. w + char_advance c) cs 0"

fun fit_chars :: "int \<Rightarrow> int \<Rightarrow> int \<Rightarrow> int \<Rightarrow> bytes \<Rightarrow> int \<Rightarrow> bool \<Rightarrow> desk_canvas \<Rightarrow> desk_canvas \<times> int" where
  "fit_chars x y max_w dots [] w colour v = (v, w)"
| "fit_chars x y max_w dots (c # cs) w colour v =
    (if w + char_advance c + dots > max_w then (v, w)
     else case draw_glyph (x + w) y c colour v of (v, g) \<Rightarrow> fit_chars x y max_w dots cs (w + g) colour v)"

definition draw_text_fit :: "int \<Rightarrow> int \<Rightarrow> bytes \<Rightarrow> int \<Rightarrow> bool \<Rightarrow> desk_canvas \<Rightarrow> desk_canvas" where
  "draw_text_fit x y cs max_w colour v =
    (if text_width cs \<le> max_w then fst (draw_text x y cs colour v)
     else let (v, w) = fit_chars x y max_w (text_width (str ''...'')) cs 0 colour v
          in fst (draw_text (x + w) y (str ''...'') colour v))"

definition frame_from_canvas :: "desk_canvas \<Rightarrow> desk_canvas" where
  "frame_from_canvas v = v\<lparr>frame_bytes := canvas_bytes v\<rparr>"

section \<open>Pixels\<close>

definition pixel :: "bytes \<Rightarrow> int \<Rightarrow> int \<Rightarrow> bool" where
  "pixel buf x y = bit (buf ! nat (y * STRIDE + x div 8)) (7 - nat (x mod 8))"

abbreviation (input) on_screen :: "int \<Rightarrow> int \<Rightarrow> bool" where
  "on_screen x y \<equiv> 0 \<le> x \<and> x < SCREEN_W \<and> 0 \<le> y \<and> y < SCREEN_H"

abbreviation (input) CANVAS_SIZE :: nat where "CANVAS_SIZE \<equiv> 38400"

lemma ones_bit: "bit (255 :: int) k \<longleftrightarrow> k < 8"
proof -
  have "(255 :: int) = mask 8" by (simp add: mask_eq_exp_minus_1)
  then show ?thesis by (simp only: bit_mask_iff possible_bit_def) simp
qed

lemma mask_bit:
  assumes "0 \<le> first" "f \<le> 8" "m < 8"
  shows "bit (drop_bit (nat first) 0xFF AND (push_bit (nat (8 - f)) 0xFF :: u8)) (7 - m) \<longleftrightarrow> first \<le> int m \<and> int m < f"
  using assms by (simp add: bit_simps ones_bit) linarith

lemma same_byte:
  assumes "on_screen x y" "on_screen x' y'"
  shows "nat (y * STRIDE + x div 8) = nat (y' * STRIDE + x' div 8) \<longleftrightarrow> y = y' \<and> x div 8 = x' div 8"
proof -
  have "0 \<le> x div 8" "x div 8 < 80" "0 \<le> x' div 8" "x' div 8 < 80" using assms by auto
  moreover have "nat (y * STRIDE + x div 8) = nat (y' * STRIDE + x' div 8) \<longleftrightarrow> y * STRIDE + x div 8 = y' * STRIDE + x' div 8"
    using assms calculation by (intro nat_eq_iff2 [THEN trans]) auto
  moreover have "y = y' \<and> x div 8 = x' div 8" if "y * STRIDE + x div 8 = y' * STRIDE + x' div 8"
  proof -
    have "y = y'" using that calculation(1-4) by linarith
    then show ?thesis using that by linarith
  qed
  ultimately show ?thesis by auto
qed

lemma byte_in_canvas:
  assumes "on_screen x y"
  shows "nat (y * STRIDE + x div 8) < CANVAS_SIZE"
proof -
  have "x div 8 < 80" using assms by auto
  then have "y * STRIDE + x div 8 < 38400" using assms by linarith
  then show ?thesis by linarith
qed

lemma in_byte:
  fixes px :: int
  assumes "px = q * 8 + k" "x0 = q * 8 + r" "0 \<le> k" "k < 8"
  shows "r \<le> k \<and> k < (if (q + 1) * 8 < x1 then 8 else x1 - q * 8) \<longleftrightarrow> x0 \<le> px \<and> px < x1"
  using assms by (cases "(q + 1) * 8 < x1") auto

lemma span_loop_pixels:
  assumes "length buf = CANVAS_SIZE" "0 \<le> x0" "x1 \<le> SCREEN_W" "0 \<le> y" "y < SCREEN_H" "on_screen px py"
  shows "length (span_loop y x0 x1 bits f buf) = CANVAS_SIZE
    \<and> pixel (span_loop y x0 x1 bits f buf) px py
      = (if py = y \<and> x0 \<le> px \<and> px < x1 then if f then \<not> pixel buf px py else bit bits (7 - nat (px mod 8)) else pixel buf px py)"
  using assms(1-5)
proof (induction y x0 x1 bits f buf rule: span_loop.induct)
  case (1 y x0 x1 bits f buf)
  show ?case
  proof (cases "x0 < x1")
    case True
    define i where "i = nat (y * STRIDE + x0 div 8)"
    let ?fin = "if (x0 div 8 + 1) * 8 < x1 then 8 else x1 - x0 div 8 * 8"
    define m where "m = (drop_bit (nat (x0 mod 8)) 0xFF AND (push_bit (nat (8 - ?fin)) 0xFF :: u8))"
    define b where "b = (if f then buf ! i XOR m else (buf ! i AND NOT m) OR (bits AND m))"
    have step: "span_loop y x0 x1 bits f buf = span_loop y ((x0 div 8 + 1) * 8) x1 bits f (buf[i := b])"
      using True by (subst span_loop.simps) (simp add: i_def m_def b_def Let_def)
    have x0: "on_screen x0 y" using True 1 by auto
    have i: "i < CANVAS_SIZE" unfolding i_def by (rule byte_in_canvas [OF x0])
    have IH: "length (span_loop y ((x0 div 8 + 1) * 8) x1 bits f (buf[i := b])) = CANVAS_SIZE
      \<and> pixel (span_loop y ((x0 div 8 + 1) * 8) x1 bits f (buf[i := b])) px py
        = (if py = y \<and> (x0 div 8 + 1) * 8 \<le> px \<and> px < x1
           then if f then \<not> pixel (buf[i := b]) px py else bit bits (7 - nat (px mod 8)) else pixel (buf[i := b]) px py)"
      unfolding i_def m_def b_def
      by (rule "1.IH" [OF True refl refl refl refl refl refl]) (use "1.prems" True in simp_all)
    have new: "pixel (buf[i := b]) px py
      = (if py = y \<and> px div 8 = x0 div 8 \<and> x0 \<le> px \<and> px < x1
         then if f then \<not> pixel buf px py else bit bits (7 - nat (px mod 8)) else pixel buf px py)"
    proof (cases "py = y \<and> px div 8 = x0 div 8")
      case same: True
      have fin: "?fin \<le> 8" by simp
      have mb: "bit m (7 - nat (px mod 8)) \<longleftrightarrow> x0 mod 8 \<le> px mod 8 \<and> px mod 8 < ?fin"
        unfolding m_def using mask_bit [of "x0 mod 8" ?fin "nat (px mod 8)"] fin by simp
      also have "\<dots> \<longleftrightarrow> x0 \<le> px \<and> px < x1"
        by (rule in_byte) (use same div_mult_mod_eq [of px 8] div_mult_mod_eq [of x0 8] in simp_all)
      finally have mb: "bit m (7 - nat (px mod 8)) \<longleftrightarrow> x0 \<le> px \<and> px < x1" .
      have at: "nat (py * STRIDE + px div 8) = i" using same by (simp add: i_def)
      have "pixel (buf[i := b]) px py \<longleftrightarrow> bit b (7 - nat (px mod 8))" using i "1.prems"(1) unfolding pixel_def at by simp
      moreover have "pixel buf px py \<longleftrightarrow> bit (buf ! i) (7 - nat (px mod 8))" unfolding pixel_def at ..
      moreover have "7 - nat (px mod 8) < 8" by linarith
      ultimately show ?thesis using same mb unfolding b_def by (auto simp add: bit_simps)
    next
      case False
      then have "nat (py * STRIDE + px div 8) \<noteq> i" using same_byte [OF assms(6) x0] by (auto simp: i_def)
      then have "pixel (buf[i := b]) px py = pixel buf px py" by (simp add: pixel_def)
      then show ?thesis using False by auto
    qed
    have "px div 8 = x0 div 8 \<longleftrightarrow> x0 div 8 * 8 \<le> px \<and> px < (x0 div 8 + 1) * 8" by auto
    then show ?thesis using IH step new True div_mult_mod_eq [of x0 8] pos_mod_bound [of 8 x0]
      by (cases f) (auto simp: step)
  next
    case False
    then show ?thesis using 1 by (simp add: span_loop.simps [of y x0]) linarith
  qed
qed

section \<open>Drawing on a canvas\<close>

definition drawn_on :: "desk_canvas \<Rightarrow> bytes" where
  "drawn_on v = (if to_frame v then frame_bytes v else canvas_bytes v)"

abbreviation (input) pixel_at :: "desk_canvas \<Rightarrow> int \<Rightarrow> int \<Rightarrow> bool" where
  "pixel_at v \<equiv> pixel (drawn_on v)"

abbreviation (input) in_clip :: "desk_canvas \<Rightarrow> int \<Rightarrow> int \<Rightarrow> bool" where
  "in_clip v \<equiv> box_contains (clip v)"

definition canvas_ok :: "desk_canvas \<Rightarrow> bool" where
  "canvas_ok v \<longleftrightarrow> length (canvas_bytes v) = CANVAS_SIZE \<and> length (frame_bytes v) = CANVAS_SIZE
    \<and> 0 \<le> box_x (clip v) \<and> 0 \<le> box_y (clip v)
    \<and> box_x (clip v) + box_w (clip v) \<le> SCREEN_W \<and> box_y (clip v) + box_h (clip v) \<le> SCREEN_H"

text \<open>Nothing but the pixels of the buffer that is drawn on changes.\<close>

definition same_canvas :: "desk_canvas \<Rightarrow> desk_canvas \<Rightarrow> bool" where
  "same_canvas v v' \<longleftrightarrow> canvas_ok v' \<and> to_frame v' = to_frame v \<and> clip v' = clip v
    \<and> (if to_frame v then canvas_bytes v' = canvas_bytes v else frame_bytes v' = frame_bytes v)"

lemma same_canvas_refl: "canvas_ok v \<Longrightarrow> same_canvas v v"
  by (simp add: same_canvas_def)

lemma same_canvas_trans: "same_canvas v w \<Longrightarrow> same_canvas w u \<Longrightarrow> same_canvas v u"
  by (auto simp: same_canvas_def split: if_splits)

lemma clip_ok: "canvas_ok v \<Longrightarrow> canvas_ok (draw_clip b v)" "canvas_ok v \<Longrightarrow> canvas_ok (draw_unclip v)"
  by (auto simp: canvas_ok_def draw_clip_def draw_unclip_def Let_def)

lemma span_pixels:
  assumes v: "canvas_ok v" and p: "on_screen px py"
  shows "same_canvas v (span y x0 x1 bits f v)
    \<and> pixel_at (span y x0 x1 bits f v) px py
      = (if py = y \<and> x0 \<le> px \<and> px < x1 \<and> in_clip v px py then if f then \<not> pixel_at v px py else bit bits (7 - nat (px mod 8))
         else pixel_at v px py)"
proof (cases "y < box_y (clip v) \<or> y \<ge> box_y (clip v) + box_h (clip v)")
  case True
  then show ?thesis using v by (auto simp: span_def same_canvas_refl box_contains_def)
next
  case False
  let ?x0 = "if x0 < box_x (clip v) then box_x (clip v) else x0"
  let ?x1 = "if x1 > box_x (clip v) + box_w (clip v) then box_x (clip v) + box_w (clip v) else x1"
  have c: "0 \<le> ?x0" "?x1 \<le> SCREEN_W" "0 \<le> y" "y < SCREEN_H" using v False by (auto simp: canvas_ok_def)
  have len: "length (drawn_on v) = CANVAS_SIZE" using v by (simp add: canvas_ok_def drawn_on_def)
  have sp: "span y x0 x1 bits f v
      = (if to_frame v then v\<lparr>frame_bytes := span_loop y ?x0 ?x1 bits f (drawn_on v)\<rparr>
         else v\<lparr>canvas_bytes := span_loop y ?x0 ?x1 bits f (drawn_on v)\<rparr>)"
    using False by (simp add: span_def Let_def drawn_on_def)
  then have d: "drawn_on (span y x0 x1 bits f v) = span_loop y ?x0 ?x1 bits f (drawn_on v)" by (simp add: drawn_on_def)
  note L = span_loop_pixels [OF len c p, of bits f]
  have "same_canvas v (span y x0 x1 bits f v)" using v L unfolding sp by (simp add: same_canvas_def canvas_ok_def)
  moreover have "py = y \<and> ?x0 \<le> px \<and> px < ?x1 \<longleftrightarrow> py = y \<and> x0 \<le> px \<and> px < x1 \<and> in_clip v px py"
    using False by (auto simp: box_contains_def)
  ultimately show ?thesis unfolding d using L by simp
qed

lemma spans_pixels:
  assumes "canvas_ok v" "on_screen px py" "distinct ys"
  shows "same_canvas v (fold (\<lambda>y. span y x0 x1 (bits y) f) ys v)
    \<and> pixel_at (fold (\<lambda>y. span y x0 x1 (bits y) f) ys v) px py
      = (if py \<in> set ys \<and> x0 \<le> px \<and> px < x1 \<and> in_clip v px py
         then if f then \<not> pixel_at v px py else bit (bits py) (7 - nat (px mod 8)) else pixel_at v px py)"
  using assms(1,3)
proof (induction ys arbitrary: v)
  case (Cons y ys)
  let ?v = "span y x0 x1 (bits y) f v"
  note S = span_pixels [OF Cons.prems(1) assms(2), of y x0 x1 "bits y" f]
  have same: "same_canvas v ?v" using S by blast
  then have ok: "canvas_ok ?v" "clip ?v = clip v" by (simp_all add: same_canvas_def)
  note IH = Cons.IH [OF ok(1)]
  have "same_canvas v (fold (\<lambda>y. span y x0 x1 (bits y) f) (y # ys) v)"
    using IH Cons.prems(2) same_canvas_trans [OF same] by simp
  moreover have "pixel_at (fold (\<lambda>y. span y x0 x1 (bits y) f) (y # ys) v) px py
      = (if py \<in> set (y # ys) \<and> x0 \<le> px \<and> px < x1 \<and> in_clip v px py
         then if f then \<not> pixel_at v px py else bit (bits py) (7 - nat (px mod 8)) else pixel_at v px py)"
  proof (cases "py = y")
    case True
    then show ?thesis using IH Cons.prems(2) S ok(2) by simp
  next
    case False
    then have "pixel_at ?v px py = pixel_at v px py" using S by simp
    then show ?thesis using IH Cons.prems(2) ok(2) False by (cases f) simp_all
  qed
  ultimately show ?case by blast
qed (simp add: same_canvas_refl)

lemma ink_bit: "k < 8 \<Longrightarrow> bit (ink_bits colour) k = colour"
  by (simp add: ink_bits_def ones_bit)

lemma fill_pixels:
  assumes "canvas_ok v" "on_screen x y"
  shows "same_canvas v (fill_box b colour v)
      \<and> pixel_at (fill_box b colour v) x y = (if box_contains b x y \<and> in_clip v x y then colour else pixel_at v x y)"
    and "same_canvas v (fill_pattern b pattern v)
      \<and> pixel_at (fill_pattern b pattern v) x y
        = (if box_contains b x y \<and> in_clip v x y then bit (pattern ! nat (y mod 8)) (7 - nat (x mod 8)) else pixel_at v x y)"
    and "same_canvas v (invert_box b v)
      \<and> pixel_at (invert_box b v) x y = (if box_contains b x y \<and> in_clip v x y then \<not> pixel_at v x y else pixel_at v x y)"
proof -
  note S = spans_pixels [OF assms, of "[box_y b..box_y b + box_h b - 1]" "box_x b" "box_x b + box_w b"]
  have m: "7 - nat (x mod 8) < 8" by linarith
  have b: "y \<in> set [box_y b..box_y b + box_h b - 1] \<and> box_x b \<le> x \<and> x < box_x b + box_w b \<longleftrightarrow> box_contains b x y"
    by (auto simp: box_contains_def)
  show "same_canvas v (fill_box b colour v)
      \<and> pixel_at (fill_box b colour v) x y = (if box_contains b x y \<and> in_clip v x y then colour else pixel_at v x y)"
    using S [of "\<lambda>_. ink_bits colour" False] b ink_bit [OF m] by (auto simp: fill_box_def)
  show "same_canvas v (fill_pattern b pattern v)
      \<and> pixel_at (fill_pattern b pattern v) x y
        = (if box_contains b x y \<and> in_clip v x y then bit (pattern ! nat (y mod 8)) (7 - nat (x mod 8)) else pixel_at v x y)"
    using S [of "\<lambda>y. pattern ! nat (y mod 8)" False] b by (auto simp: fill_pattern_def)
  show "same_canvas v (invert_box b v)
      \<and> pixel_at (invert_box b v) x y = (if box_contains b x y \<and> in_clip v x y then \<not> pixel_at v x y else pixel_at v x y)"
    using S [of "\<lambda>_. 0" True] b by (auto simp: invert_box_def)
qed

section \<open>Outlines\<close>

definition flip_all :: "(int \<times> int) list \<Rightarrow> desk_canvas \<Rightarrow> desk_canvas" where
  "flip_all ps v = fold (\<lambda>(x, y). flip_pixel x y) ps v"

lemma flip_all_pairs: "fold (\<lambda>i v. flip_pixel (f2 i) (g2 i) (flip_pixel (f1 i) (g1 i) v)) is v
   = flip_all (concat (map (\<lambda>i. [(f1 i, g1 i), (f2 i, g2 i)]) is)) v"
  by (induction "is" arbitrary: v) (simp_all add: flip_all_def)

definition outline :: "box \<Rightarrow> (int \<times> int) list" where
  "outline b =
    (let x1 = box_x b + box_w b - 1; y1 = box_y b + box_h b - 1
     in concat (map (\<lambda>x. [(x, box_y b), (x, y1)]) (steps2 (box_x b) x1))
        @ concat (map (\<lambda>y. [(box_x b, y), (x1, y)]) (steps2 (box_y b + 1) (y1 - 1))))"

lemma dotted_outline: "dotted_frame b v = flip_all (outline b) v"
proof -
  have "flip_all (ps @ qs) v = flip_all qs (flip_all ps v)" for ps qs v by (simp add: flip_all_def)
  then show ?thesis
    using flip_all_pairs [of "\<lambda>x. x" "\<lambda>_. box_y b + box_h b - 1" "\<lambda>x. x" "\<lambda>_. box_y b"]
      flip_all_pairs [of "\<lambda>_. box_x b + box_w b - 1" "\<lambda>y. y" "\<lambda>_. box_x b" "\<lambda>y. y"]
    by (simp add: dotted_frame_def outline_def Let_def)
qed

text \<open>A pixel is flipped as often as it is in the list.\<close>

lemma flip_all_pixels:
  assumes "canvas_ok v" "on_screen x y"
  shows "same_canvas v (flip_all ps v)
    \<and> pixel_at (flip_all ps v) x y = (pixel_at v x y \<noteq> (odd (count_list ps (x, y)) \<and> in_clip v x y))"
  using assms(1)
proof (induction ps arbitrary: v)
  case (Cons p ps)
  obtain a b where p: "p = (a, b)" by (cases p)
  let ?v = "flip_pixel a b v"
  have S: "same_canvas v ?v" "pixel_at ?v x y = (if (x, y) = (a, b) \<and> in_clip v x y then \<not> pixel_at v x y else pixel_at v x y)"
    using span_pixels [OF Cons.prems assms(2), of b a "a + 1" 0 True] by (auto simp: flip_pixel_def)
  then have ok: "canvas_ok ?v" "clip ?v = clip v" by (simp_all add: same_canvas_def)
  have all: "flip_all (p # ps) v = flip_all ps ?v" by (simp add: flip_all_def p)
  show ?case
    using Cons.IH [OF ok(1)] S same_canvas_trans [OF S(1)] ok(2) unfolding all by (auto simp: p)
qed (simp add: flip_all_def same_canvas_refl)

lemma canvas_eqI:
  assumes "canvas_ok v" "same_canvas v w" "\<And>x y. on_screen x y \<Longrightarrow> pixel_at w x y = pixel_at v x y"
  shows "w = v"
proof -
  have len: "length (drawn_on v) = CANVAS_SIZE" "length (drawn_on w) = CANVAS_SIZE"
    using assms(1,2) by (auto simp: canvas_ok_def drawn_on_def same_canvas_def)
  have "drawn_on w = drawn_on v"
  proof (rule nth_equalityI)
    fix i
    assume i: "i < length (drawn_on w)"
    show "drawn_on w ! i = drawn_on v ! i"
    proof (rule bit_word_eqI)
      fix k
      assume k: "k < LENGTH(8)"
      let ?x = "int (i mod 80) * 8 + int (7 - k)" and ?y = "int (i div 80)"
      have s: "on_screen ?x ?y" using i len(2) k mod_less_divisor [of 80 i] by auto
      have "?x div 8 = int (i mod 80)" "?x mod 8 = int (7 - k)" using k by auto
      moreover have "nat (?y * STRIDE + int (i mod 80)) = i" by (simp add: zdiv_int zmod_int)
      moreover have "7 - nat (int (7 - k)) = k" using k by simp
      ultimately have "pixel buf ?x ?y = bit (buf ! i) k" for buf by (simp only: pixel_def)
      then show "bit (drawn_on w ! i) k = bit (drawn_on v ! i) k" using assms(3) [OF s] by simp
    qed
  qed (use len in simp)
  then show ?thesis using assms(2) by (cases v; cases w) (auto simp: drawn_on_def same_canvas_def split: if_splits)
qed

text \<open>C33. Boxes, patterns and inverted boxes change exactly the pixels that are both in the box and in
  the clip box, to the value the colour, the pattern of the screen or the old pixel says; nothing
  outside the buffer that is drawn on is written.\<close>

theorem boxes_draw_in_clip:
  assumes "canvas_ok v" "on_screen x y"
  shows "same_canvas v (fill_box b colour v) \<and> same_canvas v (fill_pattern b pattern v) \<and> same_canvas v (invert_box b v)
    \<and> pixel_at (fill_box b colour v) x y = (if box_contains b x y \<and> in_clip v x y then colour else pixel_at v x y)
    \<and> pixel_at (fill_pattern b pattern v) x y
        = (if box_contains b x y \<and> in_clip v x y then bit (pattern ! nat (y mod 8)) (7 - nat (x mod 8)) else pixel_at v x y)
    \<and> pixel_at (invert_box b v) x y = (pixel_at v x y \<noteq> (box_contains b x y \<and> in_clip v x y))"
  using fill_pixels [OF assms, of b] by auto

text \<open>Drawing a dotted outline twice removes it, for every box and every clip box.\<close>

theorem dotted_frame_twice:
  assumes "canvas_ok v"
  shows "dotted_frame b (dotted_frame b v) = v"
proof -
  let ?ps = "outline b @ outline b"
  have twice: "dotted_frame b (dotted_frame b v) = flip_all ?ps v" by (simp add: dotted_outline flip_all_def)
  have "count_list ?ps p = 2 * count_list (outline b) p" for p by simp
  then have "even (count_list ?ps p)" for p by simp
  then have "same_canvas v (flip_all ?ps v)" "on_screen x y \<Longrightarrow> pixel_at (flip_all ?ps v) x y = pixel_at v x y" for x y
    using flip_all_pixels [OF assms, of 0 0 ?ps] flip_all_pixels [OF assms, of x y ?ps] by auto
  then show ?thesis unfolding twice by (rule canvas_eqI [OF assms])
qed

definition blank_canvas :: desk_canvas where
  "blank_canvas = draw_unclip \<lparr>canvas_bytes = replicate CANVAS_SIZE 0, frame_bytes = replicate CANVAS_SIZE 0, to_frame = False,
     clip = \<lparr>box_x = 0, box_y = 0, box_w = 0, box_h = 0\<rparr>\<rparr>"

lemma blank_canvas_ok: "canvas_ok blank_canvas"
  by (simp add: blank_canvas_def canvas_ok_def draw_unclip_def)

theorem boxes_draw_in_clip_witness:
  "pixel_at (fill_box \<lparr>box_x = 3, box_y = 4, box_w = 10, box_h = 2\<rparr> INK blank_canvas) 12 5"
  using boxes_draw_in_clip [OF blank_canvas_ok, of 12 5 "\<lparr>box_x = 3, box_y = 4, box_w = 10, box_h = 2\<rparr>" INK]
  by (simp add: box_contains_def) (simp add: blank_canvas_def draw_unclip_def)

theorem dotted_frame_twice_witness:
  "dotted_frame \<lparr>box_x = 3, box_y = 4, box_w = 10, box_h = 1\<rparr> (dotted_frame \<lparr>box_x = 3, box_y = 4, box_w = 10, box_h = 1\<rparr> blank_canvas)
     = blank_canvas"
  by (rule dotted_frame_twice [OF blank_canvas_ok])

end
