(* ===== verification/Editor.thy ===== *)
theory Editor
  imports Canvas
begin

text \<open>
  The text editor of the desktop windows, \<^verbatim>\<open>src/user/deskedit.c\<close>: a buffer with a cursor and the keys of
  vi.

  The text is the list of its bytes, \<^verbatim>\<open>ed->len\<close> is its length; positions are offsets in it. The
  register of yanked text is shared by all editors of the desktop, \<open>editors\<close> adds it to the state of
  one. A key is the number the keyboard gives. Where the code reads the char at the end of the text, the
  value does not matter for what it does.
\<close>

section \<open>State\<close>

abbreviation (input) EDIT_MAX :: int where "EDIT_MAX \<equiv> 16384"
abbreviation (input) KEY_UP :: int where "KEY_UP \<equiv> 0x80"
abbreviation (input) KEY_DOWN :: int where "KEY_DOWN \<equiv> 0x81"
abbreviation (input) KEY_LEFT :: int where "KEY_LEFT \<equiv> 0x82"
abbreviation (input) KEY_RIGHT :: int where "KEY_RIGHT \<equiv> 0x83"
abbreviation (input) KEY_HOME :: int where "KEY_HOME \<equiv> 0x84"
abbreviation (input) KEY_END :: int where "KEY_END \<equiv> 0x85"
abbreviation (input) KEY_DELETE :: int where "KEY_DELETE \<equiv> 0x86"
abbreviation (input) KEY_PAGE_UP :: int where "KEY_PAGE_UP \<equiv> 0x96"
abbreviation (input) KEY_PAGE_DOWN :: int where "KEY_PAGE_DOWN \<equiv> 0x97"

abbreviation (input) key :: "char \<Rightarrow> int" where "key c \<equiv> of_char c"

datatype edit_mode = EDIT_NORMAL | EDIT_INSERT | EDIT_COMMAND

record editor =
  ed_text :: bytes
  ed_mode :: edit_mode
  modified :: bool
  cursor :: int
  column :: int
  ed_count :: int
  ed_pending :: int
  undo_text :: bytes
  undo_cursor :: int
  has_undo :: bool
  message :: bytes
  command :: bytes

record editors = editor +
  reg :: bytes
  reg_lines :: bool

abbreviation ed_len :: "'a editor_scheme \<Rightarrow> int" where
  "ed_len ed \<equiv> int (length (ed_text ed))"

abbreviation char_of :: "'a editor_scheme \<Rightarrow> int \<Rightarrow> u8" where
  "char_of ed pos \<equiv> ed_text ed ! nat pos"

definition set_message :: "bytes \<Rightarrow> fmt_arg list \<Rightarrow> 'a editor_scheme \<Rightarrow> 'a editor_scheme" where
  "set_message fmt args ed =
    (case vsnprintf (replicate 64 0) 64 fmt args of
       None \<Rightarrow> ed
     | Some (buf, _) \<Rightarrow> ed\<lparr>message := takeWhile (\<lambda>c. c \<noteq> 0) buf\<rparr>)"

section \<open>Lines\<close>

function line_start :: "'a editor_scheme \<Rightarrow> int \<Rightarrow> int" where
  "line_start ed pos = (if pos > 0 \<and> char_of ed (pos - 1) \<noteq> 10 then line_start ed (pos - 1) else pos)"
  by pat_completeness auto
termination by (relation "measure (\<lambda>(ed, pos). nat pos)") auto

function line_end :: "'a editor_scheme \<Rightarrow> int \<Rightarrow> int" where
  "line_end ed pos = (if pos < ed_len ed \<and> char_of ed pos \<noteq> 10 then line_end ed (pos + 1) else pos)"
  by pat_completeness auto
termination by (relation "measure (\<lambda>(ed, pos). nat (ed_len ed - pos))") auto

declare line_start.simps [simp del] line_end.simps [simp del]

fun line_pos_loop :: "'a editor_scheme \<Rightarrow> nat \<Rightarrow> int \<Rightarrow> int" where
  "line_pos_loop ed 0 pos = pos"
| "line_pos_loop ed (Suc n) pos =
    (let e = line_end ed pos in if e = ed_len ed then pos else line_pos_loop ed n (e + 1))"

definition line_pos :: "'a editor_scheme \<Rightarrow> int \<Rightarrow> int" where
  "line_pos ed n = line_pos_loop ed (nat n) 0"

definition edit_line_count :: "'a editor_scheme \<Rightarrow> int" where
  "edit_line_count ed = fold (\<lambda>c n. if c = 10 then n + 1 else n) (ed_text ed) 1"

definition edit_cursor_line :: "'a editor_scheme \<Rightarrow> int" where
  "edit_cursor_line ed = fold (\<lambda>c n. if c = 10 then n + 1 else n) (take (nat (cursor ed)) (ed_text ed)) 0"

definition clamp_cursor :: "'a editor_scheme \<Rightarrow> 'a editor_scheme" where
  "clamp_cursor ed =
    (let ed = ed\<lparr>cursor := min (max (cursor ed) 0) (ed_len ed)\<rparr>
     in if ed_mode ed = EDIT_NORMAL \<and> cursor ed > line_start ed (cursor ed) \<and> cursor ed = line_end ed (cursor ed)
        then ed\<lparr>cursor := cursor ed - 1\<rparr> else ed)"

definition set_column :: "'a editor_scheme \<Rightarrow> 'a editor_scheme" where
  "set_column ed = ed\<lparr>column := cursor ed - line_start ed (cursor ed)\<rparr>"

definition move_lines :: "int \<Rightarrow> 'a editor_scheme \<Rightarrow> 'a editor_scheme" where
  "move_lines delta ed =
    (let line = max (edit_cursor_line ed + delta) 0;
         start = line_pos ed line
     in clamp_cursor (ed\<lparr>cursor := min (start + column ed) (line_end ed start)\<rparr>))"

section \<open>Words\<close>

definition char_class :: "u8 \<Rightarrow> nat" where
  "char_class c =
    (if c = 32 \<or> c = 10 then 0 else if isalpha (schar c) \<or> isdigit (schar c) \<or> c = 95 then 1 else 2)"

text \<open>Forward from \<open>pos\<close> over the chars of a class, and back as long as the char in front is of it.\<close>

function skip_class :: "nat \<Rightarrow> 'a editor_scheme \<Rightarrow> int \<Rightarrow> int" where
  "skip_class c ed pos = (if pos < ed_len ed \<and> char_class (char_of ed pos) = c then skip_class c ed (pos + 1) else pos)"
  by pat_completeness auto
termination by (relation "measure (\<lambda>(c, ed, pos). nat (ed_len ed - pos))") auto

function back_blanks :: "'a editor_scheme \<Rightarrow> int \<Rightarrow> int" where
  "back_blanks ed pos = (if pos > 0 \<and> char_class (char_of ed pos) = 0 then back_blanks ed (pos - 1) else pos)"
  by pat_completeness auto
termination by (relation "measure (\<lambda>(ed, pos). nat pos)") auto

function back_class :: "nat \<Rightarrow> 'a editor_scheme \<Rightarrow> int \<Rightarrow> int" where
  "back_class c ed pos = (if pos > 0 \<and> char_class (char_of ed (pos - 1)) = c then back_class c ed (pos - 1) else pos)"
  by pat_completeness auto
termination by (relation "measure (\<lambda>(c, ed, pos). nat pos)") auto

function to_class_end :: "nat \<Rightarrow> 'a editor_scheme \<Rightarrow> int \<Rightarrow> int" where
  "to_class_end c ed pos =
    (if pos + 1 < ed_len ed \<and> char_class (char_of ed (pos + 1)) = c then to_class_end c ed (pos + 1) else pos)"
  by pat_completeness auto
termination by (relation "measure (\<lambda>(c, ed, pos). nat (ed_len ed - pos))") auto

declare skip_class.simps [simp del] back_blanks.simps [simp del] back_class.simps [simp del] to_class_end.simps [simp del]

definition word_forward :: "'a editor_scheme \<Rightarrow> 'a editor_scheme" where
  "word_forward ed =
    (let c = char_class (char_of ed (cursor ed));
         pos = (if c \<noteq> 0 then skip_class c ed (cursor ed) else cursor ed);
         pos = skip_class 0 ed pos
     in ed\<lparr>cursor := min pos (max (ed_len ed - 1) 0)\<rparr>)"

definition word_back :: "'a editor_scheme \<Rightarrow> 'a editor_scheme" where
  "word_back ed =
    (let pos = back_blanks ed (cursor ed - 1);
         c = char_class (char_of ed (max pos 0));
         pos = back_class c ed pos
     in ed\<lparr>cursor := max pos 0\<rparr>)"

definition word_end :: "'a editor_scheme \<Rightarrow> 'a editor_scheme" where
  "word_end ed =
    (let pos = skip_class 0 ed (cursor ed + 1);
         c = char_class (char_of ed (min pos (ed_len ed - 1)));
         pos = to_class_end c ed pos
     in ed\<lparr>cursor := min pos (max (ed_len ed - 1) 0)\<rparr>)"

function skip_spaces_from :: "'a editor_scheme \<Rightarrow> int \<Rightarrow> int" where
  "skip_spaces_from ed pos = (if pos < ed_len ed \<and> char_of ed pos = 32 then skip_spaces_from ed (pos + 1) else pos)"
  by pat_completeness auto
termination by (relation "measure (\<lambda>(ed, pos). nat (ed_len ed - pos))") auto

declare skip_spaces_from.simps [simp del]

definition first_nonblank :: "'a editor_scheme \<Rightarrow> int \<Rightarrow> int" where
  "first_nonblank ed pos = skip_spaces_from ed (line_start ed pos)"

definition goto_line :: "int \<Rightarrow> 'a editor_scheme \<Rightarrow> 'a editor_scheme" where
  "goto_line line ed = set_column (clamp_cursor (ed\<lparr>cursor := first_nonblank ed (line_pos ed line)\<rparr>))"

section \<open>Changes\<close>

text \<open>With whether the text was put in; it is not when the buffer is full.\<close>

definition insert_text :: "int \<Rightarrow> bytes \<Rightarrow> 'a editor_scheme \<Rightarrow> 'a editor_scheme \<times> bool" where
  "insert_text pos s ed =
    (if ed_len ed + int (length s) > EDIT_MAX then (set_message (str ''the file is too big'') [] ed, False)
     else (ed\<lparr>ed_text := take (nat pos) (ed_text ed) @ s @ drop (nat pos) (ed_text ed), modified := True\<rparr>, True))"

definition delete_text :: "int \<Rightarrow> int \<Rightarrow> 'a editor_scheme \<Rightarrow> 'a editor_scheme" where
  "delete_text a b ed = ed\<lparr>ed_text := take (nat a) (ed_text ed) @ drop (nat b) (ed_text ed), modified := True\<rparr>"

definition save_undo :: "'a editor_scheme \<Rightarrow> 'a editor_scheme" where
  "save_undo ed = ed\<lparr>undo_text := ed_text ed, undo_cursor := cursor ed, has_undo := True\<rparr>"

definition undo :: "'a editor_scheme \<Rightarrow> 'a editor_scheme" where
  "undo ed =
    (if \<not> has_undo ed then set_message (str ''already at oldest change'') [] ed
     else ed\<lparr>ed_text := undo_text ed, cursor := undo_cursor ed, undo_text := ed_text ed, undo_cursor := cursor ed,
             modified := True\<rparr>)"

definition yank :: "int \<Rightarrow> int \<Rightarrow> bool \<Rightarrow> editors \<Rightarrow> editors" where
  "yank a b lines ed = ed\<lparr>reg := take (nat (b - a)) (drop (nat a) (ed_text ed)), reg_lines := lines\<rparr>"

fun line_range_loop :: "'a editor_scheme \<Rightarrow> nat \<Rightarrow> int \<Rightarrow> int" where
  "line_range_loop ed 0 t = t"
| "line_range_loop ed (Suc n) t = (if t < ed_len ed then line_range_loop ed n (line_end ed (t + 1)) else t)"

definition line_range :: "int \<Rightarrow> 'a editor_scheme \<Rightarrow> int \<times> int" where
  "line_range n ed = (line_start ed (cursor ed), line_range_loop ed (nat (n - 1)) (line_end ed (cursor ed)))"

definition delete_lines :: "int \<Rightarrow> int \<Rightarrow> 'a editor_scheme \<Rightarrow> 'a editor_scheme" where
  "delete_lines a b ed =
    (let (a, b) = (if b < ed_len ed then (a, b + 1) else if a > 0 then (a - 1, b) else (a, b))
     in (delete_text a b ed)\<lparr>cursor := a\<rparr>)"

definition put :: "bool \<Rightarrow> editors \<Rightarrow> editors" where
  "put after ed =
    (if reg ed = [] \<and> \<not> reg_lines ed then ed
     else let ed = save_undo ed
          in if reg_lines ed
             then let pos = (if after then line_end ed (cursor ed) else line_start ed (cursor ed));
                      at = (if after then pos + 1 else pos);
                      (ed, done1) = insert_text pos [10] ed
                  in if \<not> done1 then ed
                     else let (ed, done2) = insert_text at (reg ed) ed
                          in if \<not> done2 then ed
                             else set_column (clamp_cursor (ed\<lparr>cursor := first_nonblank ed at\<rparr>))
             else let pos = (if after \<and> cursor ed < line_end ed (cursor ed) then cursor ed + 1 else cursor ed);
                      (ed, done1) = insert_text pos (reg ed) ed
                  in if \<not> done1 then ed
                     else set_column (clamp_cursor (ed\<lparr>cursor := pos + int (length (reg ed)) - 1\<rparr>)))"

definition start_insert :: "int \<Rightarrow> 'a editor_scheme \<Rightarrow> 'a editor_scheme" where
  "start_insert pos ed = (save_undo ed)\<lparr>ed_mode := EDIT_INSERT, cursor := pos\<rparr>"

definition loaded_char :: "u8 \<Rightarrow> u8" where
  "loaded_char c = (if c = 10 \<or> (schar c \<ge> 32 \<and> schar c \<le> 126) then c else 32)"

text \<open>\<open>empty_editor\<close> is what \<^verbatim>\<open>memset\<close> leaves.\<close>

definition empty_editor :: editor where
  "empty_editor = \<lparr>ed_text = [], ed_mode = EDIT_NORMAL, modified = False, cursor = 0, column = 0, ed_count = 0, ed_pending = 0,
     undo_text = [], undo_cursor = 0, has_undo = False, message = [], command = []\<rparr>"

definition edit_load :: "bytes \<Rightarrow> editor" where
  "edit_load data =
    (let data = take (nat EDIT_MAX) data;
         data = (if data \<noteq> [] \<and> last data = 10 then butlast data else data);
         ed = empty_editor\<lparr>ed_text := map loaded_char data\<rparr>
     in set_message (str ''%d lines, %d bytes'')
          [Arg_int (of_int (if data \<noteq> [] then edit_line_count ed else 0)),
           Arg_int (of_nat (if data \<noteq> [] then length data + 1 else length data))] ed)"

section \<open>Keys\<close>

text \<open>\<open>None\<close>: the key is not a motion.\<close>

definition motion :: "int \<Rightarrow> int \<Rightarrow> 'a editor_scheme \<Rightarrow> 'a editor_scheme option" where
  "motion k n ed =
    (if k = key CHR ''h'' \<or> k = KEY_LEFT
     then Some (set_column (ed\<lparr>cursor := max (cursor ed - n) (line_start ed (cursor ed))\<rparr>))
     else if k = key CHR ''l'' \<or> k = KEY_RIGHT
     then Some (set_column (clamp_cursor (ed\<lparr>cursor := min (cursor ed + n) (line_end ed (cursor ed))\<rparr>)))
     else if k = key CHR ''j'' \<or> k = KEY_DOWN then Some (move_lines n ed)
     else if k = key CHR ''k'' \<or> k = KEY_UP then Some (move_lines (- n) ed)
     else if k = KEY_PAGE_DOWN then Some (move_lines (20 * n) ed)
     else if k = KEY_PAGE_UP then Some (move_lines (- 20 * n) ed)
     else if k = key CHR ''0'' \<or> k = KEY_HOME then Some (set_column (ed\<lparr>cursor := line_start ed (cursor ed)\<rparr>))
     else if k = key CHR ''^'' then Some (set_column (clamp_cursor (ed\<lparr>cursor := first_nonblank ed (cursor ed)\<rparr>)))
     else if k = key CHR ''$'' \<or> k = KEY_END
     then let ed = move_lines (n - 1) ed
          in Some ((clamp_cursor (ed\<lparr>cursor := line_end ed (cursor ed)\<rparr>))\<lparr>column := EDIT_MAX\<rparr>)
     else if k = key CHR ''w'' then Some (set_column (clamp_cursor ((word_forward ^^ nat n) ed)))
     else if k = key CHR ''b'' then Some (set_column (clamp_cursor ((word_back ^^ nat n) ed)))
     else if k = key CHR ''e'' then Some (set_column (clamp_cursor ((word_end ^^ nat n) ed)))
     else None)"

text \<open>What an operator does with the range \<open>a\<close> to \<open>b\<close>.\<close>

definition operate :: "int \<Rightarrow> bool \<Rightarrow> int \<Rightarrow> int \<Rightarrow> editors \<Rightarrow> editors" where
  "operate oper lines a b ed =
    (let ed = yank a b lines ed
     in if oper = key CHR ''y'' then clamp_cursor (ed\<lparr>cursor := if lines then cursor ed else a\<rparr>)
        else let ed = save_undo ed
             in if oper = key CHR ''d'' \<and> lines
                then let ed = delete_lines a b ed
                     in set_column (clamp_cursor (ed\<lparr>cursor := first_nonblank ed (cursor ed)\<rparr>))
                else let ed = (delete_text a b ed)\<lparr>cursor := a\<rparr>;
                         ed = (if oper = key CHR ''c'' then ed\<lparr>ed_mode := EDIT_INSERT\<rparr> else ed)
                     in set_column (clamp_cursor ed))"

definition operator_key :: "int \<Rightarrow> int \<Rightarrow> int \<Rightarrow> editors \<Rightarrow> editors" where
  "operator_key oper k n ed =
    (if k = oper \<or> k = key CHR ''j'' \<or> k = key CHR ''k''
     then let ed = (if k = key CHR ''k'' then move_lines (- n) ed else ed);
              (a, b) = line_range (if k = oper then n else n + 1) ed
          in operate oper True a b ed
     else let start = cursor ed;
              k = (if oper = key CHR ''c'' \<and> k = key CHR ''w'' then key CHR ''e'' else k)
          in case motion k n ed of
               None \<Rightarrow> ed
             | Some ed \<Rightarrow>
                 (let fin = cursor ed;
                      fin = (if k = key CHR ''w'' \<and> fin > line_end ed start then line_end ed start
                             else if (k = key CHR ''e'' \<or> k = key CHR ''$'') \<and> fin < ed_len ed then fin + 1 else fin)
                  in operate oper False (min start fin) (max start fin) (ed\<lparr>cursor := start\<rparr>)))"

text \<open>Join the next line to the one of the cursor, \<open>n\<close> times; the text is saved before the first change.\<close>

fun join_loop :: "nat \<Rightarrow> bool \<Rightarrow> 'a editor_scheme \<Rightarrow> 'a editor_scheme" where
  "join_loop 0 first ed = ed"
| "join_loop (Suc n) first ed =
    (let e = line_end ed (cursor ed)
     in if e = ed_len ed then ed
        else let ed = (if first then save_undo ed else ed);
                 next_pos = skip_spaces_from ed (e + 1);
                 ed = delete_text e next_pos ed;
                 ed = fst (insert_text e [32] ed)
             in join_loop n False (ed\<lparr>cursor := e\<rparr>))"

definition normal_command :: "int \<Rightarrow> int \<Rightarrow> int \<Rightarrow> editors \<Rightarrow> editors" where
  "normal_command k cnt n ed =
    (if k = key CHR ''g'' \<or> k = key CHR ''d'' \<or> k = key CHR ''c'' \<or> k = key CHR ''y''
     then ed\<lparr>ed_pending := k, ed_count := cnt\<rparr>
     else if k = key CHR ''G'' then goto_line (if cnt \<noteq> 0 then cnt - 1 else edit_line_count ed - 1) ed
     else if k = key CHR ''D'' then operator_key (key CHR ''d'') (key CHR ''$'') 1 ed
     else if k = key CHR ''C'' then operator_key (key CHR ''c'') (key CHR ''$'') 1 ed
     else if k = key CHR ''x''
     then if cursor ed < line_end ed (cursor ed)
          then let t = min (cursor ed + n) (line_end ed (cursor ed))
               in clamp_cursor (delete_text (cursor ed) t (save_undo (yank (cursor ed) t False ed)))
          else ed
     else if k = key CHR ''X''
     then if cursor ed > line_start ed (cursor ed)
          then let a = max (cursor ed - n) (line_start ed (cursor ed))
               in set_column ((delete_text a (cursor ed) (save_undo (yank a (cursor ed) False ed)))\<lparr>cursor := a\<rparr>)
          else ed
     else if k = key CHR ''J'' then set_column (join_loop (nat n) True ed)
     else if k = key CHR ''p'' then put True ed
     else if k = key CHR ''P'' then put False ed
     else if k = key CHR '':'' then ed\<lparr>ed_mode := EDIT_COMMAND, command := []\<rparr>
     else if k = key CHR ''u'' then set_column (clamp_cursor (undo ed))
     else if k = key CHR ''i'' then start_insert (cursor ed) ed
     else if k = key CHR ''a'' then start_insert (min (cursor ed + 1) (line_end ed (cursor ed))) ed
     else if k = key CHR ''I'' then start_insert (first_nonblank ed (cursor ed)) ed
     else if k = key CHR ''A'' then start_insert (line_end ed (cursor ed)) ed
     else if k = key CHR ''o''
     then let e = line_end ed (cursor ed);
              (ed, ok) = insert_text e [10] (save_undo ed)
          in if ok then ed\<lparr>ed_mode := EDIT_INSERT, cursor := e + 1\<rparr> else ed
     else if k = key CHR ''O''
     then let start = line_start ed (cursor ed);
              (ed, ok) = insert_text start [10] (save_undo ed)
          in if ok then ed\<lparr>ed_mode := EDIT_INSERT, cursor := start\<rparr> else ed
     else ed)"

definition normal_key :: "int \<Rightarrow> editors \<Rightarrow> editors" where
  "normal_key k ed =
    (if (k \<ge> key CHR ''1'' \<and> k \<le> key CHR ''9'') \<or> (k = key CHR ''0'' \<and> ed_count ed \<noteq> 0)
     then ed\<lparr>ed_count := min (ed_count ed * 10 + k - key CHR ''0'') 99999\<rparr>
     else let cnt = ed_count ed;
              n = max cnt 1;
              pending = ed_pending ed;
              ed = ed\<lparr>ed_count := 0, ed_pending := 0\<rparr>
          in if pending = key CHR ''g''
             then if k = key CHR ''g'' then goto_line (if cnt \<noteq> 0 then cnt - 1 else 0) ed else ed
             else if pending = key CHR ''d'' \<or> pending = key CHR ''c'' \<or> pending = key CHR ''y''
             then operator_key pending k n ed
             else case motion k n ed of
                    Some ed \<Rightarrow> ed
                  | None \<Rightarrow> normal_command k cnt n ed)"

record edit_action =
  act_write :: bool
  act_quit :: bool

abbreviation EDIT_DONE :: edit_action where
  "EDIT_DONE \<equiv> \<lparr>act_write = False, act_quit = False\<rparr>"

definition run_command :: "editors \<Rightarrow> editors \<times> edit_action" where
  "run_command ed =
    (let cmd = command ed
     in if isdigit (schar (chr_at cmd 0)) then (goto_line (max (sint (atoi cmd - 1)) 0) ed, EDIT_DONE)
        else if cmd = str ''w'' then (ed, \<lparr>act_write = True, act_quit = False\<rparr>)
        else if cmd = str ''wq'' \<or> cmd = str ''x'' then (ed, \<lparr>act_write = True, act_quit = True\<rparr>)
        else if cmd = str ''q!'' then (ed, \<lparr>act_write = False, act_quit = True\<rparr>)
        else if cmd = str ''q''
        then if \<not> modified ed then (ed, \<lparr>act_write = False, act_quit = True\<rparr>)
             else (set_message (str ''no write since last change (add ! to override)'') [] ed, EDIT_DONE)
        else if cmd \<noteq> [] then (set_message (str ''not an editor command: %s'') [Arg_str (Some cmd)] ed, EDIT_DONE)
        else (ed, EDIT_DONE))"

definition command_key :: "int \<Rightarrow> editors \<Rightarrow> editors \<times> edit_action" where
  "command_key k ed =
    (if k = 27 \<or> (k = 8 \<and> command ed = []) then (ed\<lparr>ed_mode := EDIT_NORMAL\<rparr>, EDIT_DONE)
     else if k = 10 then run_command (ed\<lparr>ed_mode := EDIT_NORMAL\<rparr>)
     else if k = 8 then (ed\<lparr>command := butlast (command ed)\<rparr>, EDIT_DONE)
     else if k \<ge> 32 \<and> k \<le> 126 \<and> length (command ed) < 47 then (ed\<lparr>command := command ed @ [of_int k]\<rparr>, EDIT_DONE)
     else (ed, EDIT_DONE))"

definition insert_key :: "int \<Rightarrow> editors \<Rightarrow> editors" where
  "insert_key k ed =
    (if k = 27
     then let ed = ed\<lparr>ed_mode := EDIT_NORMAL\<rparr>;
              ed = (if cursor ed > line_start ed (cursor ed) then ed\<lparr>cursor := cursor ed - 1\<rparr> else ed)
          in set_column (clamp_cursor ed)
     else if k = 8
     then set_column (if cursor ed > 0 then (delete_text (cursor ed - 1) (cursor ed) ed)\<lparr>cursor := cursor ed - 1\<rparr> else ed)
     else if k = KEY_DELETE
     then if cursor ed < ed_len ed then delete_text (cursor ed) (cursor ed + 1) ed else ed
     else if k = 9
     then (case insert_text (cursor ed) [32, 32] ed of
             (ed, ok) \<Rightarrow> set_column (if ok then ed\<lparr>cursor := cursor ed + 2\<rparr> else ed))
     else if k = KEY_LEFT \<or> k = KEY_RIGHT \<or> k = KEY_UP \<or> k = KEY_DOWN \<or> k = KEY_HOME \<or> k = KEY_END
             \<or> k = KEY_PAGE_UP \<or> k = KEY_PAGE_DOWN
     then normal_key k ed
     else if k = 10 \<or> (k \<ge> 32 \<and> k \<le> 126)
     then (case insert_text (cursor ed) [of_int k] ed of
             (ed, ok) \<Rightarrow> set_column (if ok then ed\<lparr>cursor := cursor ed + 1\<rparr> else ed))
     else ed)"

definition edit_key :: "int \<Rightarrow> editors \<Rightarrow> editors \<times> edit_action" where
  "edit_key k ed =
    (let ed = ed\<lparr>message := []\<rparr>
     in case ed_mode ed of
          EDIT_INSERT \<Rightarrow> (insert_key k ed, EDIT_DONE)
        | EDIT_COMMAND \<Rightarrow> command_key k ed
        | EDIT_NORMAL \<Rightarrow> (normal_key k ed, EDIT_DONE))"

section \<open>Files and the window\<close>

definition edit_save_data :: "'a editor_scheme \<Rightarrow> bytes" where
  "edit_save_data ed = (if ed_text ed \<noteq> [] then ed_text ed @ [10] else [])"

definition edit_saved :: "bytes \<Rightarrow> nat \<Rightarrow> 'a editor_scheme \<Rightarrow> 'a editor_scheme" where
  "edit_saved name len ed =
    set_message (str (CHR 0x22 # ''%s'' @ CHR 0x22 # '' %dL, %dB written''))
      [Arg_str (Some name), Arg_int (of_int (if ed_text ed \<noteq> [] then edit_line_count ed else 0)), Arg_int (of_nat len)]
      (ed\<lparr>modified := False\<rparr>)"

function click_loop :: "'a editor_scheme \<Rightarrow> int \<Rightarrow> int \<Rightarrow> int \<Rightarrow> int \<Rightarrow> int" where
  "click_loop ed e x left pos =
    (if pos < e \<and> left + (char_advance (char_of ed pos)) div 2 < x
     then click_loop ed e x (left + char_advance (char_of ed pos)) (pos + 1) else pos)"
  by pat_completeness auto
termination by (relation "measure (\<lambda>(ed, e, x, left, pos). nat (e - pos))") auto

declare click_loop.simps [simp del]

text \<open>C division of a difference that may be negative; a negative line becomes 0.\<close>

definition edit_click :: "box \<Rightarrow> int \<Rightarrow> int \<Rightarrow> int \<Rightarrow> 'a editor_scheme \<Rightarrow> 'a editor_scheme" where
  "edit_click view scroll x y ed =
    (let d = y - box_y view - 2 + scroll;
         line = max (if d < 0 then - ((- d) div FONT_HEIGHT) else d div FONT_HEIGHT) 0;
         line = (if line \<ge> edit_line_count ed then edit_line_count ed - 1 else line);
         pos = line_pos ed line;
         pos = click_loop ed (line_end ed pos) x (box_x view + 4) pos
     in (set_column (clamp_cursor (ed\<lparr>cursor := pos\<rparr>)))\<lparr>message := []\<rparr>)"

definition edit_cursor_y :: "'a editor_scheme \<Rightarrow> int" where
  "edit_cursor_y ed = 2 + edit_cursor_line ed * FONT_HEIGHT"

section \<open>Lines and words stay inside the text\<close>

lemma line_start_bounds: "0 \<le> pos \<Longrightarrow> 0 \<le> line_start ed pos \<and> line_start ed pos \<le> pos"
proof (induction ed pos rule: line_start.induct)
  case (1 ed pos)
  then show ?case by (subst (1 2) line_start.simps) auto
qed

lemma line_end_bounds: "pos \<le> ed_len ed \<Longrightarrow> pos \<le> line_end ed pos \<and> line_end ed pos \<le> ed_len ed"
proof (induction ed pos rule: line_end.induct)
  case (1 ed pos)
  then show ?case by (subst (1 2) line_end.simps) auto
qed

lemma line_start_char: "0 \<le> pos \<Longrightarrow> line_start ed pos = 0 \<or> char_of ed (line_start ed pos - 1) = 10"
proof (induction ed pos rule: line_start.induct)
  case (1 ed pos)
  then show ?case by (subst (1 2) line_start.simps) auto
qed

lemma line_start_same: "0 \<le> pos \<Longrightarrow> line_start ed pos = pos \<longleftrightarrow> pos = 0 \<or> char_of ed (pos - 1) = 10"
  using line_start_bounds [of "pos - 1" ed] by (subst line_start.simps) auto

lemma line_end_same: "pos \<le> ed_len ed \<Longrightarrow> line_end ed pos = pos \<longleftrightarrow> pos = ed_len ed \<or> char_of ed pos = 10"
  using line_end_bounds [of "pos + 1" ed] by (subst line_end.simps) auto

lemma before_line_end: "pos \<le> q \<Longrightarrow> q < line_end ed pos \<Longrightarrow> q < ed_len ed \<and> char_of ed q \<noteq> 10"
proof (induction ed pos rule: line_end.induct)
  case (1 ed pos)
  show ?case
  proof (cases "pos < ed_len ed \<and> char_of ed pos \<noteq> 10")
    case True
    then show ?thesis using 1 by (cases "q = pos") (simp_all add: line_end.simps [of ed pos])
  next
    case False
    then show ?thesis using "1.prems" by (auto simp: line_end.simps [of ed pos])
  qed
qed

lemma after_line_start: "line_start ed pos \<le> q \<Longrightarrow> q < pos \<Longrightarrow> char_of ed q \<noteq> 10"
proof (induction ed pos rule: line_start.induct)
  case (1 ed pos)
  show ?case
  proof (cases "pos > 0 \<and> char_of ed (pos - 1) \<noteq> 10")
    case True
    then show ?thesis using 1 by (cases "q = pos - 1") (simp_all add: line_start.simps [of ed pos])
  next
    case False
    then show ?thesis using "1.prems" by (auto simp: line_start.simps [of ed pos])
  qed
qed

lemma line_pos_bounds: "0 \<le> pos \<Longrightarrow> pos \<le> ed_len ed \<Longrightarrow> 0 \<le> line_pos_loop ed n pos \<and> line_pos_loop ed n pos \<le> ed_len ed"
proof (induction ed n pos rule: line_pos_loop.induct)
  case (2 ed n pos)
  then show ?case using line_end_bounds [of pos ed] by (auto simp: Let_def)
qed simp

lemma line_pos_ok: "0 \<le> line_pos ed n \<and> line_pos ed n \<le> ed_len ed"
  using line_pos_bounds [of 0 ed] by (simp add: line_pos_def)

lemma skip_class_bounds: "pos \<le> ed_len ed \<Longrightarrow> pos \<le> skip_class c ed pos \<and> skip_class c ed pos \<le> ed_len ed"
proof (induction c ed pos rule: skip_class.induct)
  case (1 c ed pos)
  then show ?case by (subst (1 2) skip_class.simps) auto
qed

lemma skip_spaces_bounds: "pos \<le> ed_len ed \<Longrightarrow> pos \<le> skip_spaces_from ed pos \<and> skip_spaces_from ed pos \<le> ed_len ed"
proof (induction ed pos rule: skip_spaces_from.induct)
  case (1 ed pos)
  then show ?case by (subst (1 2) skip_spaces_from.simps) auto
qed

lemma first_nonblank_bounds: "0 \<le> pos \<Longrightarrow> pos \<le> ed_len ed \<Longrightarrow> 0 \<le> first_nonblank ed pos \<and> first_nonblank ed pos \<le> ed_len ed"
  using line_start_bounds [of pos ed] skip_spaces_bounds [of "line_start ed pos" ed] by (simp add: first_nonblank_def)

lemma line_range_bounds: "t \<le> ed_len ed \<Longrightarrow> t \<le> line_range_loop ed n t \<and> line_range_loop ed n t \<le> ed_len ed"
proof (induction ed n t rule: line_range_loop.induct)
  case (2 ed n t)
  then show ?case using line_end_bounds [of "t + 1" ed] by auto
qed simp

text \<open>Lines are a matter of the text.\<close>

lemma same_line_start: "ed_text ed' = ed_text ed \<Longrightarrow> line_start ed' pos = line_start ed pos"
proof (induction ed pos rule: line_start.induct)
  case (1 ed pos)
  then show ?case by (simp add: line_start.simps [of ed pos] line_start.simps [of ed' pos])
qed

lemma same_line_end: "ed_text ed' = ed_text ed \<Longrightarrow> line_end ed' pos = line_end ed pos"
proof (induction ed pos rule: line_end.induct)
  case (1 ed pos)
  then show ?case by (simp add: line_end.simps [of ed pos] line_end.simps [of ed' pos])
qed

lemmas same_lines = same_line_start same_line_end

section \<open>The invariant\<close>

definition text_ok :: "bytes \<Rightarrow> bool" where
  "text_ok s \<longleftrightarrow> (\<forall>c \<in> set s. c = 10 \<or> (32 \<le> c \<and> c \<le> 126)) \<and> int (length s) \<le> EDIT_MAX"

text \<open>All that does not depend on the cursor and the mode.\<close>

definition buffer_ok :: "editors \<Rightarrow> bool" where
  "buffer_ok ed \<longleftrightarrow> text_ok (ed_text ed) \<and> text_ok (undo_text ed) \<and> text_ok (reg ed)
    \<and> 0 \<le> undo_cursor ed \<and> undo_cursor ed \<le> int (length (undo_text ed))
    \<and> 0 \<le> column ed \<and> 0 \<le> ed_count ed \<and> ed_count ed \<le> 99999
    \<and> length (message ed) < 64 \<and> length (command ed) < 48"

definition on_char :: "'a editor_scheme \<Rightarrow> bool" where
  "on_char ed \<longleftrightarrow> line_start ed (cursor ed) = cursor ed \<or> line_end ed (cursor ed) \<noteq> cursor ed"

definition insert_ok :: "'a editor_scheme \<Rightarrow> bool" where
  "insert_ok ed \<longleftrightarrow> (ed_mode ed = EDIT_INSERT \<longrightarrow> ed_pending ed = 0 \<and> ed_count ed = 0)"

definition editor_ok :: "editors \<Rightarrow> bool" where
  "editor_ok ed \<longleftrightarrow> buffer_ok ed \<and> 0 \<le> cursor ed \<and> cursor ed \<le> ed_len ed \<and> insert_ok ed
    \<and> (ed_mode ed \<noteq> EDIT_INSERT \<longrightarrow> on_char ed)"

lemma buffer_upd [simp]: "buffer_ok (ed\<lparr>cursor := c\<rparr>) = buffer_ok ed" "buffer_ok (ed\<lparr>ed_mode := m\<rparr>) = buffer_ok ed"
  "insert_ok (e\<lparr>cursor := c\<rparr>) = insert_ok e"
  by (simp_all add: buffer_ok_def insert_ok_def)

lemma on_char_alt:
  "0 \<le> cursor ed \<Longrightarrow> cursor ed \<le> ed_len ed \<Longrightarrow>
   on_char ed \<longleftrightarrow> cursor ed = 0 \<or> char_of ed (cursor ed - 1) = 10 \<or> (cursor ed < ed_len ed \<and> char_of ed (cursor ed) \<noteq> 10)"
  using line_start_same [of "cursor ed" ed] line_end_same [of "cursor ed" ed] by (auto simp: on_char_def)

text \<open>Only the cursor and its column differ.\<close>

definition moved :: "editors \<Rightarrow> editors \<Rightarrow> bool" where
  "moved ed ed' \<longleftrightarrow> ed' = ed\<lparr>cursor := cursor ed', column := column ed'\<rparr>"

lemma moved_refl: "moved ed ed"
  by (simp add: moved_def)

lemma moved_trans: "moved a b \<Longrightarrow> moved b c \<Longrightarrow> moved a c"
  unfolding moved_def by (cases a; cases b; cases c) simp

lemma moved_update: "moved ed (ed\<lparr>cursor := c\<rparr>)" "moved ed (ed\<lparr>column := n\<rparr>)" "moved ed (clamp_cursor ed)" "moved ed (set_column ed)"
  by (cases ed, simp add: moved_def clamp_cursor_def set_column_def Let_def)+

lemma moved_fields:
  assumes "moved ed ed'"
  shows "ed_text ed' = ed_text ed" "ed_mode ed' = ed_mode ed" "ed_pending ed' = ed_pending ed" "ed_count ed' = ed_count ed"
    "undo_text ed' = undo_text ed" "has_undo ed' = has_undo ed" "undo_cursor ed' = undo_cursor ed" "reg ed' = reg ed"
    "message ed' = message ed" "command ed' = command ed" "reg_lines ed' = reg_lines ed" "modified ed' = modified ed"
  by (subst assms [unfolded moved_def], simp)+

lemma moved_ok: "moved ed ed' \<Longrightarrow> buffer_ok ed \<Longrightarrow> insert_ok ed \<Longrightarrow> 0 \<le> column ed' \<Longrightarrow> buffer_ok ed' \<and> insert_ok ed'"
  by (simp add: buffer_ok_def insert_ok_def moved_fields)

lemma clamp_ok:
  assumes "buffer_ok ed" "insert_ok ed" "ed_mode ed \<noteq> EDIT_COMMAND"
  shows "editor_ok (clamp_cursor ed)"
proof -
  define e where "e = ed\<lparr>cursor := min (max (cursor ed) 0) (ed_len ed)\<rparr>"
  have e: "buffer_ok e" "insert_ok e" "0 \<le> cursor e" "cursor e \<le> ed_len e" "ed_mode e \<noteq> EDIT_COMMAND"
    using assms by (simp_all add: e_def buffer_ok_def insert_ok_def)
  show ?thesis
  proof (cases "ed_mode e = EDIT_NORMAL \<and> cursor e > line_start e (cursor e) \<and> cursor e = line_end e (cursor e)")
    case True
    have c: "clamp_cursor ed = e\<lparr>cursor := cursor e - 1\<rparr>"
      unfolding clamp_cursor_def Let_def e_def [symmetric] by (rule if_P [OF True])
    have "0 < cursor e" using True line_start_bounds [of "cursor e" e] e by simp
    moreover have "char_of e (cursor e - 1) \<noteq> 10" using True after_line_start [of e "cursor e" "cursor e - 1"] by simp
    ultimately have "on_char (e\<lparr>cursor := cursor e - 1\<rparr>)" using e(4) by (subst on_char_alt) simp_all
    then show ?thesis using e \<open>0 < cursor e\<close> unfolding c by (simp add: editor_ok_def buffer_ok_def insert_ok_def)
  next
    case False
    have c: "clamp_cursor ed = e" unfolding clamp_cursor_def Let_def e_def [symmetric] by (rule if_not_P [OF False])
    have "ed_mode e \<noteq> EDIT_INSERT \<longrightarrow> on_char e"
      using False e(3,5) line_start_bounds [of "cursor e" e] unfolding on_char_def by (metis edit_mode.exhaust order_le_less)
    then show ?thesis using e unfolding c by (simp add: editor_ok_def)
  qed
qed

lemma set_column_ok: "editor_ok ed \<Longrightarrow> editor_ok (set_column ed)"
  using line_start_bounds [of "cursor ed" ed]
  by (simp add: editor_ok_def set_column_def buffer_ok_def insert_ok_def on_char_def same_lines [of "ed\<lparr>column := _\<rparr>" ed])

section \<open>Motions\<close>

lemma move_lines_ok:
  assumes "buffer_ok ed" "insert_ok ed" "ed_mode ed \<noteq> EDIT_COMMAND"
  shows "moved ed (move_lines d ed) \<and> editor_ok (move_lines d ed)"
proof -
  let ?e = "ed\<lparr>cursor := min (line_pos ed (max (edit_cursor_line ed + d) 0) + column ed) (line_end ed (line_pos ed (max (edit_cursor_line ed + d) 0)))\<rparr>"
  have m: "move_lines d ed = clamp_cursor ?e" by (simp add: move_lines_def Let_def)
  have "editor_ok (clamp_cursor ?e)" using assms by (intro clamp_ok) (simp_all add: buffer_ok_def insert_ok_def)
  then show ?thesis using moved_trans [OF moved_update(1) moved_update(3)] m by simp
qed

lemma words_moved: "moved ed (word_forward ed)" "moved ed (word_back ed)" "moved ed (word_end ed)"
  "column (word_forward ed) = column ed" "column (word_back ed) = column ed" "column (word_end ed) = column ed"
  by (simp_all add: word_forward_def word_back_def word_end_def Let_def moved_update)

lemma iterate_moved:
  assumes "\<And>ed. moved ed (f ed)" "\<And>ed. column (f ed) = column ed"
  shows "moved ed ((f ^^ n) ed) \<and> column ((f ^^ n) ed) = column ed"
  by (induction n) (auto simp: moved_refl assms intro: moved_trans)

text \<open>Every motion but \<^verbatim>\<open>h\<close> and \<^verbatim>\<open>0\<close> ends with the clamp.\<close>

lemma clamped_ok:
  assumes "moved ed e" "0 \<le> column e" "buffer_ok ed" "insert_ok ed" "ed_mode ed \<noteq> EDIT_COMMAND"
  shows "moved ed (set_column (clamp_cursor e)) \<and> editor_ok (set_column (clamp_cursor e))"
    and "moved ed (clamp_cursor e) \<and> editor_ok (clamp_cursor e)"
proof -
  have "editor_ok (clamp_cursor e)" using moved_ok [OF assms(1,3,4,2)] moved_fields(2) [OF assms(1)] assms(5) by (simp add: clamp_ok)
  then show "moved ed (set_column (clamp_cursor e)) \<and> editor_ok (set_column (clamp_cursor e))"
    and "moved ed (clamp_cursor e) \<and> editor_ok (clamp_cursor e)"
    using moved_trans [OF assms(1) moved_update(3)] moved_trans [OF moved_trans [OF assms(1) moved_update(3)] moved_update(4)] set_column_ok
    by blast+
qed

lemma on_line_ok:
  assumes ed: "editor_ok ed" and c: "line_start ed (cursor ed) \<le> c" "c \<le> cursor ed" "c = line_start ed (cursor ed) \<or> c < cursor ed"
  shows "moved ed (set_column (ed\<lparr>cursor := c\<rparr>)) \<and> editor_ok (set_column (ed\<lparr>cursor := c\<rparr>))"
proof -
  note E = ed [unfolded editor_ok_def]
  have c0: "0 \<le> c" using line_start_bounds [of "cursor ed" ed] E c(1) by simp
  have "on_char (ed\<lparr>cursor := c\<rparr>)"
  proof (cases "c = line_start ed (cursor ed)")
    case True
    then have "c = 0 \<or> char_of ed (c - 1) = 10" using line_start_char [of "cursor ed" ed] E by simp
    then show ?thesis using c0 c(2) E by (subst on_char_alt) auto
  next
    case False
    then have "char_of ed c \<noteq> 10" "c < cursor ed" using after_line_start [of ed "cursor ed" c] c by auto
    then show ?thesis using c0 E by (subst on_char_alt) auto
  qed
  then have "editor_ok (ed\<lparr>cursor := c\<rparr>)" using E c0 c(2) by (simp add: editor_ok_def buffer_ok_def insert_ok_def)
  then show ?thesis using set_column_ok moved_trans [OF moved_update(1) moved_update(4)] by blast
qed

lemma motion_ok:
  assumes ed: "editor_ok ed" "ed_mode ed \<noteq> EDIT_COMMAND" and n: "1 \<le> n" and m: "motion k n ed = Some ed'"
  shows "moved ed ed' \<and> editor_ok ed'"
proof -
  note E = ed(1) [unfolded editor_ok_def]
  have b: "buffer_ok ed" "insert_ok ed" "0 \<le> column ed" using E by (simp_all add: buffer_ok_def)
  note C = clamped_ok [OF _ _ b(1,2) ed(2)]
  note L = move_lines_ok [OF b(1,2) ed(2)]
  have ls: "line_start ed (cursor ed) \<le> cursor ed" "0 \<le> line_start ed (cursor ed)" using line_start_bounds [of "cursor ed" ed] E by simp_all
  consider (h) "ed' = set_column (ed\<lparr>cursor := max (cursor ed - n) (line_start ed (cursor ed))\<rparr>)"
    | (l) "ed' = set_column (clamp_cursor (ed\<lparr>cursor := min (cursor ed + n) (line_end ed (cursor ed))\<rparr>))"
    | (j) d where "ed' = move_lines d ed"
    | (z) "ed' = set_column (ed\<lparr>cursor := line_start ed (cursor ed)\<rparr>)"
    | (b) "ed' = set_column (clamp_cursor (ed\<lparr>cursor := first_nonblank ed (cursor ed)\<rparr>))"
    | (e) "ed' = (clamp_cursor ((move_lines (n - 1) ed)\<lparr>cursor := line_end (move_lines (n - 1) ed) (cursor (move_lines (n - 1) ed))\<rparr>))\<lparr>column := EDIT_MAX\<rparr>"
    | (w) f where "ed' = set_column (clamp_cursor ((f ^^ nat n) ed))" "f \<in> {word_forward, word_back, word_end}"
    using m by (auto simp: motion_def Let_def split: if_splits)
  then show ?thesis
  proof cases
    case h
    show ?thesis unfolding h by (rule on_line_ok [OF ed(1)]) (use n ls in auto)
  next
    case l
    then show ?thesis using C(1) [OF moved_update(1)] b(3) by simp
  next
    case j
    then show ?thesis using L by simp
  next
    case z
    then show ?thesis using on_line_ok [OF ed(1)] ls by simp
  next
    case b
    then show ?thesis using C(1) [OF moved_update(1)] \<open>0 \<le> column ed\<close> by simp
  next
    case e
    let ?m = "move_lines (n - 1) ed"
    let ?c = "?m\<lparr>cursor := line_end ?m (cursor ?m)\<rparr>"
    have m: "moved ed ?c" using L moved_trans [OF _ moved_update(1)] by blast
    have "0 \<le> column ?c" using L by (simp add: editor_ok_def buffer_ok_def)
    then have ok: "moved ed (clamp_cursor ?c) \<and> editor_ok (clamp_cursor ?c)" using C(2) [OF m] by simp
    then have "moved ed ed'" using moved_trans [OF _ moved_update(2)] e by blast
    moreover have "editor_ok ed'"
      using ok unfolding e by (simp add: editor_ok_def buffer_ok_def insert_ok_def on_char_def same_lines [of "clamp_cursor ?c\<lparr>column := EDIT_MAX\<rparr>" "clamp_cursor ?c"])
    ultimately show ?thesis by blast
  next
    case w
    then have "moved ed ((f ^^ nat n) ed) \<and> column ((f ^^ nat n) ed) = column ed" using words_moved by (intro iterate_moved) auto
    then show ?thesis using C(1) w(1) b(3) by simp
  qed
qed

end
