(* ===== verification/EditorKeys.thy ===== *)
theory EditorKeys
  imports Editor
begin

text \<open>
  What the keys of the editor do to its text: every key keeps the invariant of \<^theory_text>\<open>Editor\<close>, a change in normal
  mode first saves the text, so that \<^verbatim>\<open>u\<close> brings it back, and a file survives loading and saving.
\<close>

section \<open>Changes to the text\<close>

lemma put_length: "out_buf (put_all cs out) = Some b \<Longrightarrow> \<exists>a. out_buf out = Some a \<and> length b = length a"
proof (induction cs arbitrary: out)
  case (Cons c cs)
  then obtain a where "out_buf (format_put c out) = Some a" "length b = length a" by auto
  then show ?case by (auto simp: format_put_def store_byte_def Let_def split: if_splits option.splits)
qed simp

lemma set_message_form: "\<exists>m. set_message fmt args ed = ed\<lparr>message := m\<rparr> \<and> (length m < 64 \<or> m = message ed)"
proof (cases "vsnprintf (replicate 64 0) 64 fmt args")
  case (Some r)
  obtain buf l where r: "r = (buf, l)" by (cases r)
  obtain cs where cs: "formatted fmt args = Some cs" using Some by (cases "formatted fmt args") (auto simp: vsnprintf_def format_loop_text)
  let ?o = "put_all cs \<lparr>out_buf = Some (replicate 64 0), out_size = 64, out_len = 0\<rparr>"
  let ?i = "unat (if out_len ?o < 64 then out_len ?o else 63)"
  obtain b where b: "out_buf ?o = Some b" "?i < length b" "buf = b[?i := 0]"
    using Some r cs by (auto simp add: vsnprintf_def format_loop_text store_byte_def split: option.splits if_splits)
  have len: "length b = 64" using put_length [OF b(1)] by simp
  have "0 \<in> set buf" unfolding b(3) using b(2) by (rule set_update_memI)
  then have "length (takeWhile (\<lambda>c. c \<noteq> 0) buf) < length buf"
    by (metis (mono_tags) length_takeWhile_le order_le_less takeWhile_eq_all_conv takeWhile_eq_take take_all_iff order_refl)
  then show ?thesis using Some r b(3) len by (intro exI [of _ "takeWhile (\<lambda>c. c \<noteq> 0) buf"]) (simp add: set_message_def)
next
  case None
  then show ?thesis by (intro exI [of _ "message ed"]) (simp add: set_message_def)
qed

lemma set_message_ok:
  "buffer_ok ed \<Longrightarrow> buffer_ok (set_message fmt args ed)" "editor_ok ed \<Longrightarrow> editor_ok (set_message fmt args ed)"
  "ed_text (set_message fmt args ed) = ed_text ed" "ed_mode (set_message fmt args ed) = ed_mode ed"
  "cursor (set_message fmt args ed) = cursor ed" "undo_text (set_message fmt args ed) = undo_text ed"
  "has_undo (set_message fmt args ed) = has_undo ed" "ed_pending (set_message fmt args ed) = ed_pending ed"
  "ed_count (set_message fmt args ed) = ed_count ed" "reg (set_message fmt args ed) = reg ed"
proof -
  obtain m where m: "set_message fmt args ed = ed\<lparr>message := m\<rparr>" "length m < 64 \<or> m = message ed"
    using set_message_form by blast
  show "buffer_ok ed \<Longrightarrow> buffer_ok (set_message fmt args ed)" using m by (auto simp: buffer_ok_def)
  show "editor_ok ed \<Longrightarrow> editor_ok (set_message fmt args ed)"
    using m by (auto simp: editor_ok_def buffer_ok_def insert_ok_def on_char_def same_lines [of "ed\<lparr>message := m\<rparr>" ed])
qed (use set_message_form [of fmt args ed] in auto)

lemma text_ok_parts: "text_ok s \<Longrightarrow> text_ok (take n s)" "text_ok s \<Longrightarrow> text_ok (drop n s)"
  by (auto simp: text_ok_def dest: in_set_takeD in_set_dropD)

lemma text_ok_append: "text_ok s \<Longrightarrow> text_ok t \<Longrightarrow> int (length s + length t) \<le> EDIT_MAX \<Longrightarrow> text_ok (s @ t)"
  by (auto simp: text_ok_def)

lemma insert_text_ok:
  assumes "buffer_ok ed" "0 \<le> pos" "pos \<le> ed_len ed" "text_ok s" and r: "insert_text pos s ed = (ed', ok)"
  shows "buffer_ok ed'" "ok \<Longrightarrow> ed_text ed' = take (nat pos) (ed_text ed) @ s @ drop (nat pos) (ed_text ed)"
    "ok \<Longrightarrow> ed_len ed' = ed_len ed + int (length s)"
    "\<not> ok \<Longrightarrow> ed_text ed' = ed_text ed" "ed_mode ed' = ed_mode ed" "cursor ed' = cursor ed" "undo_text ed' = undo_text ed"
    "has_undo ed' = has_undo ed" "ed_pending ed' = ed_pending ed" "ed_count ed' = ed_count ed" "reg ed' = reg ed"
    "ok \<longleftrightarrow> ed_len ed + int (length s) \<le> EDIT_MAX"
proof -
  have t: "text_ok (take (nat pos) (ed_text ed) @ s @ drop (nat pos) (ed_text ed))" if "ed_len ed + int (length s) \<le> EDIT_MAX"
    using assms(1-4) that text_ok_parts [of "ed_text ed" "nat pos"] by (intro text_ok_append) (auto simp: buffer_ok_def)
  show full: "ok \<longleftrightarrow> ed_len ed + int (length s) \<le> EDIT_MAX" using r by (auto simp: insert_text_def split: if_splits)
  have yes: "ed' = ed\<lparr>ed_text := take (nat pos) (ed_text ed) @ s @ drop (nat pos) (ed_text ed), modified := True\<rparr>" if ok
    using r that full by (simp add: insert_text_def)
  have no: "ed' = set_message (str ''the file is too big'') [] ed" if "\<not> ok" using r that full by (simp add: insert_text_def)
  show "buffer_ok ed'" using assms(1) t yes no full set_message_ok(1) by (cases ok) (simp_all add: buffer_ok_def)
  show "ed_text ed' = take (nat pos) (ed_text ed) @ s @ drop (nat pos) (ed_text ed)" if ok using yes [OF that] by simp
  show "ed_len ed' = ed_len ed + int (length s)" if ok using yes [OF that] assms(2,3) by simp
  show "ed_text ed' = ed_text ed" if "\<not> ok" using no [OF that] by (simp add: set_message_ok)
  show "ed_mode ed' = ed_mode ed" "cursor ed' = cursor ed" "undo_text ed' = undo_text ed" "has_undo ed' = has_undo ed"
    "ed_pending ed' = ed_pending ed" "ed_count ed' = ed_count ed" "reg ed' = reg ed"
    using yes no by (cases ok; simp add: set_message_ok)+
qed

lemma delete_text_ok:
  assumes "buffer_ok ed" "0 \<le> a" "a \<le> b" "b \<le> ed_len ed"
  shows "buffer_ok (delete_text a b ed)" "ed_len (delete_text a b ed) = ed_len ed - (b - a)"
proof -
  have t: "text_ok (ed_text ed)" using assms(1) by (simp add: buffer_ok_def)
  have "int (length (take (nat a) (ed_text ed)) + length (drop (nat b) (ed_text ed))) \<le> ed_len ed" using assms(2-4) by auto
  then have "text_ok (take (nat a) (ed_text ed) @ drop (nat b) (ed_text ed))"
    using t by (intro text_ok_append text_ok_parts) (auto simp: text_ok_def)
  then show "buffer_ok (delete_text a b ed)" using assms(1) by (simp add: delete_text_def buffer_ok_def)
  show "ed_len (delete_text a b ed) = ed_len ed - (b - a)" using assms by (simp add: delete_text_def)
qed

lemma yank_ok: "buffer_ok ed \<Longrightarrow> buffer_ok (yank a b l ed)"
  using text_ok_parts [of "ed_text ed" "nat a"] text_ok_parts(1) [of "drop (nat a) (ed_text ed)" "nat (b - a)"]
  by (simp add: buffer_ok_def yank_def)

lemma save_undo_ok: "buffer_ok ed \<Longrightarrow> 0 \<le> cursor ed \<Longrightarrow> cursor ed \<le> ed_len ed \<Longrightarrow> buffer_ok (save_undo ed)"
  by (simp add: buffer_ok_def save_undo_def)

text \<open>The editor between two keys of normal mode, and what holds inside a command.\<close>

definition ready :: "editors \<Rightarrow> bool" where
  "ready ed \<longleftrightarrow> editor_ok ed \<and> ed_mode ed = EDIT_NORMAL \<and> ed_pending ed = 0 \<and> ed_count ed = 0"

lemma ready_buffer: "ready ed \<Longrightarrow> buffer_ok ed" "ready ed \<Longrightarrow> insert_ok ed" "ready ed \<Longrightarrow> 0 \<le> cursor ed" "ready ed \<Longrightarrow> cursor ed \<le> ed_len ed"
  "ready ed \<Longrightarrow> ed_mode ed \<noteq> EDIT_COMMAND"
  by (simp_all add: ready_def editor_ok_def)

text \<open>After a change the old text is what undo brings back.\<close>

definition saved :: "editors \<Rightarrow> editors \<Rightarrow> bool" where
  "saved ed ed' \<longleftrightarrow> undo_text ed' = ed_text ed \<and> has_undo ed' \<and> ed_mode ed' \<noteq> EDIT_COMMAND \<and> ed_pending ed' = 0"

definition unchanged :: "editors \<Rightarrow> editors \<Rightarrow> bool" where
  "unchanged ed ed' \<longleftrightarrow> ed_text ed' = ed_text ed \<and> ed_mode ed' \<noteq> EDIT_INSERT"

lemma clamp_fields [simp]:
  fixes ed :: editors
  shows "ed_text (clamp_cursor ed) = ed_text ed" "ed_mode (clamp_cursor ed) = ed_mode ed" "undo_text (clamp_cursor ed) = undo_text ed"
  "has_undo (clamp_cursor ed) = has_undo ed" "ed_pending (clamp_cursor ed) = ed_pending ed" "reg (clamp_cursor ed) = reg ed"
  "ed_text (set_column ed) = ed_text ed" "ed_mode (set_column ed) = ed_mode ed" "undo_text (set_column ed) = undo_text ed"
  "has_undo (set_column ed) = has_undo ed" "ed_pending (set_column ed) = ed_pending ed" "reg (set_column ed) = reg ed"
  by (simp_all add: moved_fields [OF moved_update(3)] moved_fields [OF moved_update(4)])

lemma saved_simps [simp]: "saved ed (clamp_cursor e) \<longleftrightarrow> saved ed e" "saved ed (set_column e) \<longleftrightarrow> saved ed e"
  "unchanged ed (clamp_cursor e) \<longleftrightarrow> unchanged ed e" "unchanged ed (set_column e) \<longleftrightarrow> unchanged ed e"
  "saved ed (e\<lparr>cursor := c\<rparr>) \<longleftrightarrow> saved ed e" "unchanged ed (e\<lparr>cursor := c\<rparr>) \<longleftrightarrow> unchanged ed e"
  by (simp_all add: saved_def unchanged_def)

lemma finish_ok:
  "buffer_ok ed \<Longrightarrow> insert_ok ed \<Longrightarrow> ed_mode ed \<noteq> EDIT_COMMAND \<Longrightarrow> editor_ok (set_column (clamp_cursor ed))"
  by (intro set_column_ok clamp_ok)

lemma delete_lines_ok:
  assumes "buffer_ok ed" "0 \<le> a" "a \<le> b" "b \<le> ed_len ed"
  shows "buffer_ok (delete_lines a b ed) \<and> ed_mode (delete_lines a b ed) = ed_mode ed \<and> undo_text (delete_lines a b ed) = undo_text ed
    \<and> has_undo (delete_lines a b ed) = has_undo ed \<and> ed_pending (delete_lines a b ed) = ed_pending ed
    \<and> ed_count (delete_lines a b ed) = ed_count ed"
proof -
  have b: "buffer_ok (e\<lparr>cursor := c\<rparr>) = buffer_ok e" for e c by (simp add: buffer_ok_def)
  show ?thesis
    using assms delete_text_ok(1) [OF assms(1), of a "b + 1"] delete_text_ok(1) [OF assms(1), of "a - 1" b] delete_text_ok(1) [OF assms]
    by (auto simp: delete_lines_def Let_def b) (simp_all add: delete_text_def)
qed

lemma operate_ok:
  assumes ed: "ready ed" and r: "0 \<le> a" "a \<le> b" "b \<le> ed_len ed"
  shows "editor_ok (operate oper l a b ed) \<and> (unchanged ed (operate oper l a b ed) \<or> saved ed (operate oper l a b ed))"
proof -
  note E = ready_buffer [OF ed]
  let ?y = "yank a b l ed"
  let ?s = "save_undo ?y"
  have y: "buffer_ok ?y" "insert_ok ?y" "ed_mode ?y = EDIT_NORMAL" "ed_text ?y = ed_text ed" "cursor ?y = cursor ed" "ed_pending ?y = 0" "ed_count ?y = 0"
    using yank_ok [OF E(1)] E ed by (simp_all add: yank_def insert_ok_def ready_def)
  then have s: "buffer_ok ?s" "ed_text ?s = ed_text ed" "undo_text ?s = ed_text ed" "has_undo ?s" "ed_mode ?s = EDIT_NORMAL"
      "ed_pending ?s = 0" "ed_count ?s = 0"
    using save_undo_ok [OF y(1)] E by (simp_all add: save_undo_def)
  have upd: "buffer_ok (e\<lparr>cursor := c\<rparr>) = buffer_ok e" "buffer_ok (e\<lparr>ed_mode := mo\<rparr>) = buffer_ok e"
    "insert_ok (e\<lparr>cursor := c\<rparr>) = insert_ok e" for e c mo by (simp_all add: buffer_ok_def insert_ok_def)
  consider (y) "oper = key CHR ''y''" | (d) "oper \<noteq> key CHR ''y''" "oper = key CHR ''d'' \<and> l" | (c) "oper \<noteq> key CHR ''y''" "\<not> (oper = key CHR ''d'' \<and> l)"
    by blast
  then show ?thesis
  proof cases
    case y
    have "editor_ok (clamp_cursor (?y\<lparr>cursor := if l then cursor ?y else a\<rparr>))"
      using \<open>buffer_ok ?y\<close> \<open>insert_ok ?y\<close> \<open>ed_mode ?y = EDIT_NORMAL\<close> by (intro clamp_ok) (simp_all add: upd)
    then show ?thesis using y \<open>ed_text ?y = ed_text ed\<close> \<open>ed_mode ?y = EDIT_NORMAL\<close> by (simp add: operate_def Let_def unchanged_def)
  next
    case d
    note D = delete_lines_ok [OF s(1) r(1,2)]
    have "editor_ok (set_column (clamp_cursor ((delete_lines a b ?s)\<lparr>cursor := first_nonblank (delete_lines a b ?s) (cursor (delete_lines a b ?s))\<rparr>)))"
      using D r(3) s by (intro finish_ok) (simp_all add: upd insert_ok_def)
    then show ?thesis using d D r(3) s by (simp add: operate_def Let_def saved_def)
  next
    case c
    let ?e = "(delete_text a b ?s)\<lparr>cursor := a\<rparr>"
    let ?f = "if oper = key CHR ''c'' then ?e\<lparr>ed_mode := EDIT_INSERT\<rparr> else ?e"
    have "buffer_ok (delete_text a b ?s)" using delete_text_ok(1) [OF s(1) r(1,2)] r(3) s(2) by simp
    then have f: "buffer_ok ?f" by (simp add: upd)
    have g: "ed_pending ?f = 0" "ed_count ?f = 0" "ed_mode ?f \<noteq> EDIT_COMMAND" "undo_text ?f = ed_text ed" "has_undo ?f"
      using s by (simp_all add: delete_text_def)
    have "editor_ok (set_column (clamp_cursor ?f))" using f g by (intro finish_ok) (simp_all add: insert_ok_def)
    moreover have "operate oper l a b ed = set_column (clamp_cursor ?f)" using c unfolding operate_def Let_def by auto
    ultimately show ?thesis using g by (simp add: saved_def)
  qed
qed

section \<open>Commands\<close>

definition fine :: "editors \<Rightarrow> editors \<Rightarrow> bool" where
  "fine ed ed' \<longleftrightarrow> editor_ok ed' \<and> (unchanged ed ed' \<or> saved ed ed')"

lemma ready_moved: "ready ed \<Longrightarrow> moved ed ed' \<Longrightarrow> editor_ok ed' \<Longrightarrow> ready ed'"
  by (simp add: ready_def moved_fields)

lemma ready_unchanged: "ready ed \<Longrightarrow> moved ed ed' \<Longrightarrow> editor_ok ed' \<Longrightarrow> fine ed ed'"
  by (simp add: fine_def unchanged_def ready_def moved_fields)

lemma fine_moved: "moved ed ed' \<Longrightarrow> fine ed' e \<Longrightarrow> fine ed e"
  by (auto simp: fine_def unchanged_def saved_def moved_fields)

lemma operate_fine: "ready ed \<Longrightarrow> 0 \<le> a \<Longrightarrow> a \<le> b \<Longrightarrow> b \<le> ed_len ed \<Longrightarrow> fine ed (operate oper l a b ed)"
  using operate_ok unfolding fine_def by blast

lemma line_range_ok:
  assumes "0 \<le> cursor ed" "cursor ed \<le> ed_len ed"
  shows "0 \<le> fst (line_range m ed) \<and> fst (line_range m ed) \<le> snd (line_range m ed) \<and> snd (line_range m ed) \<le> ed_len ed"
proof -
  note a = line_start_bounds [OF assms(1), of ed] and b = line_end_bounds [OF assms(2)]
  note c = line_range_bounds [OF conjunct2 [OF b], of "nat (m - 1)"]
  show ?thesis using a b c unfolding line_range_def by simp
qed

lemma operator_key_fine:
  assumes ed: "ready ed" and n: "1 \<le> n"
  shows "fine ed (operator_key oper k n ed)"
proof (cases "k = oper \<or> k = key CHR ''j'' \<or> k = key CHR ''k''")
  case True
  let ?e = "if k = key CHR ''k'' then move_lines (- n) ed else ed"
  let ?r = "line_range (if k = oper then n else n + 1) ?e"
  have e: "moved ed ?e" "ready ?e"
    using move_lines_ok [of ed "- n"] ready_buffer [OF ed] ed ready_moved [OF ed] by (auto simp: moved_refl)
  have "0 \<le> fst ?r" "fst ?r \<le> snd ?r" "snd ?r \<le> ed_len ?e"
    using line_range_ok [OF ready_buffer(3,4) [OF e(2)]] by simp_all
  then have "fine ?e (operate oper True (fst ?r) (snd ?r) ?e)" by (rule operate_fine [OF e(2)])
  moreover have "operator_key oper k n ed = operate oper True (fst ?r) (snd ?r) ?e"
    using True unfolding operator_key_def Let_def case_prod_beta by simp
  ultimately show ?thesis using fine_moved [OF e(1)] by simp
next
  case False
  define k' where "k' = (if oper = key CHR ''c'' \<and> k = key CHR ''w'' then key CHR ''e'' else k)"
  show ?thesis
  proof (cases "motion k' n ed")
    case None
    then show ?thesis using False ready_unchanged [OF ed moved_refl] ed
      by (simp add: operator_key_def Let_def k'_def ready_def)
  next
    case (Some ed')
    have m: "moved ed ed'" "editor_ok ed'" using motion_ok [OF _ ready_buffer(5) [OF ed] n Some] ed by (simp_all add: ready_def)
    let ?s = "cursor ed"
    let ?f = "if k' = key CHR ''w'' \<and> cursor ed' > line_end ed' ?s then line_end ed' ?s
       else if (k' = key CHR ''e'' \<or> k' = key CHR ''$'') \<and> cursor ed' < ed_len ed' then cursor ed' + 1 else cursor ed'"
    let ?b = "ed'\<lparr>cursor := ?s\<rparr>"
    have len: "ed_len ed' = ed_len ed" using moved_fields(1) [OF m(1)] by simp
    have b: "moved ed ?b" using moved_trans [OF m(1) moved_update(1)] .
    have "editor_ok ?b"
      using m ed len by (simp add: editor_ok_def ready_def buffer_ok_def insert_ok_def on_char_def moved_fields [OF m(1)]
          same_lines [of ?b ed])
    then have rb: "ready ?b" by (rule ready_moved [OF ed b])
    have "0 \<le> ?f \<and> ?f \<le> ed_len ed"
      using m(2) line_end_bounds [of ?s ed'] ready_buffer(3,4) [OF ed] len by (auto simp: editor_ok_def)
    then have "fine ?b (operate oper False (min ?s ?f) (max ?s ?f) ?b)"
      using ready_buffer(3,4) [OF ed] len by (intro operate_fine [OF rb]) auto
    moreover have "operator_key oper k n ed = operate oper False (min ?s ?f) (max ?s ?f) ?b"
      using False Some unfolding operator_key_def Let_def k'_def [symmetric] by simp
    ultimately show ?thesis using fine_moved [OF b] by simp
  qed
qed

lemma join_fine:
  "ready ed \<Longrightarrow> (if first then ed_text ed = ed_text ed0 else saved ed0 ed) \<Longrightarrow> fine ed0 (join_loop n first ed)"
proof (induction n first ed rule: join_loop.induct)
  case (1 first ed)
  then show ?case by (auto simp: fine_def unchanged_def ready_def split: if_splits)
next
  case (2 n first ed)
  note E = ready_buffer [OF "2.prems"(1)]
  let ?e = "line_end ed (cursor ed)"
  show ?case
  proof (cases "?e = ed_len ed")
    case True
    then show ?thesis using 2 by (auto simp: fine_def unchanged_def ready_def Let_def split: if_splits)
  next
    case False
    have e: "cursor ed \<le> ?e" "?e < ed_len ed" using line_end_bounds [of "cursor ed" ed] E(4) False by simp_all
    define s where "s = (if first then save_undo ed else ed)"
    have s: "buffer_ok s" "ed_text s = ed_text ed" "saved ed0 s" "ed_mode s = EDIT_NORMAL" "ed_count s = 0" "ed_pending s = 0"
      using save_undo_ok [OF E(1,3,4)] E(1) "2.prems" by (auto simp: s_def saved_def ready_def) (auto simp: save_undo_def)
    let ?n = "skip_spaces_from s (?e + 1)"
    have n: "?e + 1 \<le> ?n" "?n \<le> ed_len s" using skip_spaces_bounds [of "?e + 1" s] e s(2) by simp_all
    define d where "d = delete_text ?e ?n s"
    have d: "buffer_ok d" "ed_len d = ed_len ed - (?n - ?e)" "?e \<le> ed_len d"
      using delete_text_ok [OF s(1), of ?e ?n] n e E(3) s(2) by (simp_all add: d_def)
    obtain f ok where f: "insert_text ?e [32] d = (f, ok)" by fastforce
    have t32: "text_ok [32]" by (simp add: text_ok_def)
    have e0: "0 \<le> ?e" using e E(3) by simp
    note I = insert_text_ok [OF d(1) e0 d(3) t32 f]
    have ok: ok using I(12) d(2) n E(1) by (simp add: buffer_ok_def text_ok_def)
    have c: "char_of f ?e = 32" using I(2) [OF ok] d(3) e0 by (simp add: nth_append)
    have mode: "ed_mode f = EDIT_NORMAL" "ed_count f = 0" "ed_pending f = 0" using I(5,9,10) s(4-6) by (simp_all add: d_def delete_text_def)
    have undo_f: "undo_text f = undo_text s" "has_undo f = has_undo s" using I(7,8) by (simp_all add: d_def delete_text_def)
    have "ready (f\<lparr>cursor := ?e\<rparr>)"
    proof -
      have "on_char (f\<lparr>cursor := ?e\<rparr>)" using c I(3) [OF ok] d(3) e0 by (subst on_char_alt) simp_all
      moreover have "?e \<le> ed_len f" using I(3) [OF ok] d(3) by simp
      ultimately show ?thesis using I(1) mode e0 unfolding ready_def editor_ok_def by (simp add: insert_ok_def)
    qed
    moreover have "saved ed0 (f\<lparr>cursor := ?e\<rparr>)" using undo_f s(3) mode by (simp add: saved_def)
    moreover have "join_loop (Suc n) first ed = join_loop n False (f\<lparr>cursor := ?e\<rparr>)"
      using False f by (simp add: Let_def s_def d_def)
    ultimately show ?thesis
      using "2.IH" [OF refl False s_def refl d_def, of f] f by (simp add: d_def s_def)
  qed
qed

lemma same_on_char: "ed_text e = ed_text ed \<Longrightarrow> cursor e = cursor ed \<Longrightarrow> on_char e = on_char ed"
  by (simp add: on_char_def same_lines [of e ed])

text \<open>The state behind \<open>save_undo\<close>, into which a command puts text.\<close>

lemma save_undo_ready:
  assumes "ready ed"
  shows "ready (save_undo ed)" "saved ed (save_undo ed)" "ed_text (save_undo ed) = ed_text ed" "cursor (save_undo ed) = cursor ed"
proof -
  note E = ready_buffer [OF assms]
  have "on_char (save_undo ed)"
    using assms same_on_char [of "save_undo ed" ed] by (simp add: ready_def editor_ok_def save_undo_def)
  then show "ready (save_undo ed)"
    using assms save_undo_ok [OF E(1,3,4)] by (simp add: ready_def editor_ok_def save_undo_def insert_ok_def)
qed (use assms in \<open>simp_all add: saved_def save_undo_def ready_def\<close>)

lemma insert_text_fine:
  assumes "ready s" "saved ed s" "insert_text pos t s = (e, ok)" "0 \<le> pos" "pos \<le> ed_len s" "text_ok t"
  shows "saved ed e" "\<not> ok \<Longrightarrow> editor_ok e" "buffer_ok e" "insert_ok e" "ed_mode e = EDIT_NORMAL" "ed_count e = 0" "ed_pending e = 0"
proof -
  note I = insert_text_ok [OF ready_buffer(1) [OF assms(1)] assms(4-6,3)]
  show "saved ed e" using assms(2) I by (simp add: saved_def)
  show m: "ed_mode e = EDIT_NORMAL" "ed_count e = 0" "ed_pending e = 0" using assms(1) I by (simp_all add: ready_def)
  show b: "buffer_ok e" "insert_ok e" using I(1) m by (simp_all add: insert_ok_def)
  assume ok: "\<not> ok"
  then have t: "ed_text e = ed_text s" using I(4) by simp
  have "on_char e" using assms(1) same_on_char [OF t I(6)] by (simp add: ready_def editor_ok_def)
  then show "editor_ok e" using b assms(1) t I(6) by (simp add: editor_ok_def ready_def)
qed

lemma put_fine:
  assumes ed: "ready ed"
  shows "fine ed (put after ed)"
proof (cases "reg ed = [] \<and> \<not> reg_lines ed")
  case True
  then show ?thesis using ready_unchanged [OF ed moved_refl] ed by (simp add: put_def ready_def)
next
  case False
  define s where "s = save_undo ed"
  note S = save_undo_ready [OF ed, folded s_def]
  note B = ready_buffer [OF S(1)]
  have reg: "reg s = reg ed" "text_ok (reg s)" using B(1) by (simp_all add: s_def save_undo_def buffer_ok_def)
  show ?thesis
  proof (cases "reg_lines s")
    case lines: True
    define pos where "pos = (if after then line_end s (cursor s) else line_start s (cursor s))"
    define at where "at = (if after then pos + 1 else pos)"
    have pos: "0 \<le> pos" "pos \<le> ed_len s"
      using line_end_bounds [OF B(4)] line_start_bounds [OF B(3), of s] B(3,4) by (cases after; simp add: pos_def; linarith)+
    have nl: "text_ok [10]" by (simp add: text_ok_def)
    obtain e1 ok1 where 1: "insert_text pos [10] s = (e1, ok1)" by fastforce
    note F1 = insert_text_fine [OF S(1,2) 1 pos nl]
    note I1 = insert_text_ok [OF B(1) pos nl 1]
    have put: "put after ed = (if \<not> ok1 then e1
        else case insert_text at (reg e1) e1 of (e2, ok2) \<Rightarrow>
          if \<not> ok2 then e2 else set_column (clamp_cursor (e2\<lparr>cursor := first_nonblank e2 at\<rparr>)))"
      using False lines 1 unfolding put_def Let_def s_def [symmetric] pos_def [symmetric] at_def [symmetric] by auto
    show ?thesis
    proof (cases ok1)
      case False
      then show ?thesis using F1 put by (simp add: fine_def)
    next
      case ok1: True
      have len1: "ed_len e1 = ed_len s + 1" using I1(3) [OF ok1] by simp
      have char1: "char_of e1 p = (if p < pos then char_of s p else if p = pos then 10 else char_of s (p - 1))" if "0 \<le> p" for p
        using I1(2) [OF ok1] pos that by (auto simp: nth_append nth_Cons' nat_diff_distrib' nat_less_iff nat_eq_iff)
      have "on_char e1"
      proof -
        have c: "cursor e1 = cursor s" using I1(6) .
        have s_on: "on_char s" using S(1) by (simp add: ready_def editor_ok_def)
        have rng: "0 \<le> cursor e1" "cursor e1 \<le> ed_len e1" using B(3,4) c len1 by simp_all
        have old: "cursor s = 0 \<or> char_of s (cursor s - 1) = 10 \<or> (cursor s < ed_len s \<and> char_of s (cursor s) \<noteq> 10)"
          using s_on on_char_alt [OF B(3,4)] by simp
        show ?thesis
        proof (cases "cursor s = 0 \<or> char_of s (cursor s - 1) = 10")
          case True
          then have ls: "line_start s (cursor s) = cursor s" using line_start_same [OF B(3), of s] by simp
          have "cursor s \<le> pos" using line_end_bounds [OF B(4)] unfolding pos_def ls by simp
          then show ?thesis using True char1 [of "cursor s - 1"] c B(3) by (subst on_char_alt [OF rng]) auto
        next
          case False
          then have c0: "0 < cursor s" "cursor s < ed_len s" "char_of s (cursor s) \<noteq> 10" "line_start s (cursor s) < cursor s"
            using old B(3) line_start_same [OF B(3), of s] line_start_bounds [OF B(3), of s] False by (auto simp: order_le_less)
          show ?thesis
          proof (cases after)
            case True
            then have "cursor s < pos"
              using line_end_bounds [OF B(4)] line_end_same [OF B(4)] c0 by (auto simp: pos_def order_le_less)
            then show ?thesis using char1 [of "cursor s"] c c0 len1 by (subst on_char_alt [OF rng]) auto
          next
            case False
            then have "pos < cursor s" "char_of s (cursor s - 1) \<noteq> 10"
              using c0 after_line_start [of s "cursor s" "cursor s - 1"] by (auto simp: pos_def)
            then show ?thesis using char1 [of "cursor s"] c c0 len1 by (subst on_char_alt [OF rng]) auto
          qed
        qed
      qed
      then have r1: "ready e1" using F1 I1(6) B(3,4) len1 by (simp add: ready_def editor_ok_def)
      have at: "0 \<le> at" "at \<le> ed_len e1" using pos len1 by (simp_all add: at_def)
      have treg: "text_ok (reg e1)" using I1(11) reg by simp
      obtain e2 ok2 where 2: "insert_text at (reg e1) e1 = (e2, ok2)" by fastforce
      note F2 = insert_text_fine [OF r1 F1(1) 2 at treg]
      have "editor_ok (set_column (clamp_cursor (e2\<lparr>cursor := first_nonblank e2 at\<rparr>)))"
        using F2 by (intro finish_ok) simp_all
      then show ?thesis using put ok1 2 F2 by (cases ok2) (simp_all add: fine_def)
    qed
  next
    case chars: False
    define pos where "pos = (if after \<and> cursor s < line_end s (cursor s) then cursor s + 1 else cursor s)"
    have pos: "0 \<le> pos" "pos \<le> ed_len s" using line_end_bounds [OF B(4)] B(3,4) by (auto simp: pos_def)
    obtain e ok where 1: "insert_text pos (reg s) s = (e, ok)" by fastforce
    note F = insert_text_fine [OF S(1,2) 1 pos reg(2)]
    have put: "put after ed = (if \<not> ok then e else set_column (clamp_cursor (e\<lparr>cursor := pos + int (length (reg e)) - 1\<rparr>)))"
      using False chars 1 unfolding put_def Let_def s_def [symmetric] pos_def [symmetric] by auto
    have "editor_ok (set_column (clamp_cursor (e\<lparr>cursor := pos + int (length (reg e)) - 1\<rparr>)))"
      using F by (intro finish_ok) simp_all
    then show ?thesis using put F by (cases ok) (simp_all add: fine_def)
  qed
qed

lemma set_column_keep: "fine ed e \<Longrightarrow> fine ed (set_column e)"
  by (simp add: fine_def set_column_ok)

lemma cut_fine:
  assumes ed: "ready ed" and r: "0 \<le> a" "a \<le> b" "b \<le> ed_len ed"
  shows "buffer_ok (delete_text a b (save_undo (yank a b False ed)))" "insert_ok (delete_text a b (save_undo (yank a b False ed)))"
    "ed_mode (delete_text a b (save_undo (yank a b False ed))) = EDIT_NORMAL"
    "saved ed (delete_text a b (save_undo (yank a b False ed)))"
proof -
  let ?y = "yank a b False ed"
  note E = ready_buffer [OF ed]
  have y: "buffer_ok ?y" "ed_text ?y = ed_text ed" "cursor ?y = cursor ed" using yank_ok [OF E(1)] by (simp_all add: yank_def)
  then have "buffer_ok (save_undo ?y)" using save_undo_ok [of ?y] E by simp
  then show "buffer_ok (delete_text a b (save_undo ?y))" using delete_text_ok(1) [of "save_undo ?y" a b] r y(2) by (simp add: save_undo_def)
qed (use ed in \<open>simp_all add: ready_def saved_def insert_ok_def delete_text_def save_undo_def yank_def\<close>)

lemma x_fine:
  assumes ed: "ready ed" and n: "1 \<le> n" and c: "cursor ed < line_end ed (cursor ed)"
  defines "t \<equiv> min (cursor ed + n) (line_end ed (cursor ed))"
  shows "fine ed (clamp_cursor (delete_text (cursor ed) t (save_undo (yank (cursor ed) t False ed))))"
proof -
  note E = ready_buffer [OF ed]
  have r: "0 \<le> cursor ed" "cursor ed \<le> t" "t \<le> ed_len ed" using E(3) n c line_end_bounds [OF E(4)] by (auto simp: t_def)
  note C = cut_fine [OF ed r]
  have "editor_ok (clamp_cursor (delete_text (cursor ed) t (save_undo (yank (cursor ed) t False ed))))"
    using C by (intro clamp_ok) simp_all
  then show ?thesis using C(4) by (simp add: fine_def)
qed

lemma X_fine:
  assumes ed: "ready ed" and n: "1 \<le> n" and c: "line_start ed (cursor ed) < cursor ed"
  defines "a \<equiv> max (cursor ed - n) (line_start ed (cursor ed))"
  shows "fine ed (set_column ((delete_text a (cursor ed) (save_undo (yank a (cursor ed) False ed)))\<lparr>cursor := a\<rparr>))"
proof -
  note E = ready_buffer [OF ed]
  note L = line_start_bounds [OF E(3), of ed]
  have r: "0 \<le> a" "a < cursor ed" "cursor ed \<le> ed_len ed" using E(3,4) n c L by (auto simp: a_def)
  let ?e = "delete_text a (cursor ed) (save_undo (yank a (cursor ed) False ed))"
  note C = cut_fine [OF ed r(1) less_imp_le [OF r(2)] r(3)]
  have tx: "ed_text ?e = take (nat a) (ed_text ed) @ drop (nat (cursor ed)) (ed_text ed)"
    by (simp add: delete_text_def save_undo_def yank_def)
  have len: "ed_len ?e = ed_len ed - (cursor ed - a)" using r by (simp add: tx)
  have "cursor ed < ed_len ed \<and> char_of ed (cursor ed) \<noteq> 10"
    using ed c on_char_alt [OF E(3,4)] line_start_same [OF E(3), of ed] by (auto simp: ready_def editor_ok_def)
  then have "char_of ?e a \<noteq> 10 \<and> a < ed_len ?e" using r len by (simp add: tx nth_append)
  then have "on_char (?e\<lparr>cursor := a\<rparr>)" using r len by (subst on_char_alt) simp_all
  then have "editor_ok (?e\<lparr>cursor := a\<rparr>)" using C r len by (simp add: editor_ok_def)
  then show ?thesis using C(4) set_column_ok by (simp add: fine_def)
qed

lemma start_insert_fine: "ready ed \<Longrightarrow> 0 \<le> pos \<Longrightarrow> pos \<le> ed_len ed \<Longrightarrow> fine ed (start_insert pos ed)"
  using save_undo_ready [of ed] by (simp add: fine_def start_insert_def ready_def editor_ok_def saved_def insert_ok_def)

lemma open_line_fine:
  assumes ed: "ready ed" and p: "0 \<le> pos" "pos \<le> ed_len ed" "q = pos \<or> q = pos + 1"
  shows "fine ed (case insert_text pos [10] (save_undo ed) of (e, ok) \<Rightarrow> if ok then e\<lparr>ed_mode := EDIT_INSERT, cursor := q\<rparr> else e)"
proof -
  note S = save_undo_ready [OF ed]
  have nl: "text_ok [10]" by (simp add: text_ok_def)
  obtain e ok where 1: "insert_text pos [10] (save_undo ed) = (e, ok)" by fastforce
  have pos: "pos \<le> ed_len (save_undo ed)" using p(2) S(3) by simp
  note F = insert_text_fine [OF S(1,2) 1 p(1) pos nl]
  show ?thesis
  proof (cases ok)
    case True
    have "ed_len e = ed_len ed + 1" using insert_text_ok(3) [OF ready_buffer(1) [OF S(1)] p(1) pos nl 1 True] S(3) by simp
    then show ?thesis using F True 1 p by (auto simp: fine_def editor_ok_def saved_def insert_ok_def)
  next
    case False
    then show ?thesis using F 1 by (simp add: fine_def)
  qed
qed

lemma goto_line_ok:
  assumes "buffer_ok ed" "insert_ok ed" "ed_mode ed \<noteq> EDIT_COMMAND"
  shows "moved ed (goto_line n ed) \<and> editor_ok (goto_line n ed)"
proof -
  have "0 \<le> column (ed\<lparr>cursor := first_nonblank ed (line_pos ed n)\<rparr>)" using assms(1) by (simp add: buffer_ok_def)
  then show ?thesis using clamped_ok(1) [OF moved_update(1) _ assms] by (simp add: goto_line_def)
qed

lemma normal_command_fine:
  assumes ed: "ready ed" and n: "1 \<le> n" and c: "0 \<le> cnt" "cnt \<le> 99999" and u: "k \<noteq> key CHR ''u''"
  shows "fine ed (normal_command k cnt n ed)"
proof -
  note E = ready_buffer [OF ed]
  have ls: "0 \<le> line_start ed (cursor ed)" "line_start ed (cursor ed) \<le> cursor ed" using line_start_bounds [OF E(3)] by blast+
  have le: "cursor ed \<le> line_end ed (cursor ed)" "line_end ed (cursor ed) \<le> ed_len ed" using line_end_bounds [OF E(4)] by blast+
  have fn: "0 \<le> first_nonblank ed (cursor ed)" "first_nonblank ed (cursor ed) \<le> ed_len ed" using first_nonblank_bounds [OF E(3,4)] by blast+
  have self: "fine ed ed" using ready_unchanged [OF ed moved_refl] ed by (simp add: ready_def)
  have op: "fine ed (operator_key oper q m ed)" if "1 \<le> m" for oper q m by (rule operator_key_fine [OF ed that])
  have pend: "fine ed (ed\<lparr>ed_pending := p, ed_count := cnt\<rparr>)" for p
    using ed c same_on_char [of "ed\<lparr>ed_pending := p, ed_count := cnt\<rparr>" ed]
    by (simp add: fine_def unchanged_def ready_def editor_ok_def buffer_ok_def insert_ok_def)
  have cmd: "fine ed (ed\<lparr>ed_mode := EDIT_COMMAND, command := []\<rparr>)"
    using ed same_on_char [of "ed\<lparr>ed_mode := EDIT_COMMAND, command := []\<rparr>" ed]
    by (simp add: fine_def unchanged_def ready_def editor_ok_def buffer_ok_def insert_ok_def)
  have g: "fine ed (goto_line m ed)" for m using goto_line_ok [OF E(1,2,5)] ready_unchanged [OF ed] by blast
  have j: "fine ed (set_column (join_loop (nat n) True ed))" using join_fine [OF ed, of True ed] by (simp add: set_column_keep)
  show ?thesis
    unfolding normal_command_def Let_def
    using u self op [of 1] pend cmd g j put_fine [OF ed] x_fine [OF ed n] X_fine [OF ed n]
      start_insert_fine [OF ed] E(3,4) ls le fn open_line_fine [OF ed]
    by (simp split del: if_split) (auto split: if_split)
qed

section \<open>Keys\<close>

lemma undo_ok: "buffer_ok ed \<Longrightarrow> insert_ok ed \<Longrightarrow> ed_mode ed \<noteq> EDIT_COMMAND \<Longrightarrow> 0 \<le> cursor ed \<Longrightarrow> cursor ed \<le> ed_len ed \<Longrightarrow>
   editor_ok (set_column (clamp_cursor (undo ed)))"
  using set_message_ok(1) [of ed] set_message_ok(4,8,9)
  by (intro finish_ok) (auto simp: undo_def buffer_ok_def insert_ok_def)

lemma not_motion: "motion (key CHR ''u'') n ed = None"
  by (simp add: motion_def)

lemma normal_key_ok:
  assumes ed: "editor_ok ed" "ed_mode ed = EDIT_NORMAL"
  shows "editor_ok (normal_key k ed)" "k \<noteq> key CHR ''u'' \<Longrightarrow> unchanged ed (normal_key k ed) \<or> saved ed (normal_key k ed)"
proof -
  note E = ed(1) [unfolded editor_ok_def]
  have cnt: "0 \<le> ed_count ed" "ed_count ed \<le> 99999" using E by (simp_all add: buffer_ok_def)
  have "editor_ok (normal_key k ed) \<and> (k \<noteq> key CHR ''u'' \<longrightarrow> unchanged ed (normal_key k ed) \<or> saved ed (normal_key k ed))"
  proof (cases "(k \<ge> key CHR ''1'' \<and> k \<le> key CHR ''9'') \<or> (k = key CHR ''0'' \<and> ed_count ed \<noteq> 0)")
    case True
    let ?e = "ed\<lparr>ed_count := min (ed_count ed * 10 + k - key CHR ''0'') 99999\<rparr>"
    have n: "normal_key k ed = ?e" using True by (simp only: normal_key_def if_True)
    have "editor_ok ?e" using ed cnt True same_on_char [of ?e ed] by (auto simp: editor_ok_def buffer_ok_def insert_ok_def)
    then show ?thesis unfolding n using ed(2) by (simp add: unchanged_def)
  next
    case False
    define e where "e = ed\<lparr>ed_count := 0, ed_pending := 0\<rparr>"
    let ?n = "max (ed_count ed) 1"
    have e: "ready e"
      using ed same_on_char [of e ed] by (simp add: ready_def editor_ok_def buffer_ok_def insert_ok_def e_def)
    note B = ready_buffer [OF e]
    have widen: "fine e x \<Longrightarrow> fine ed x" for x by (auto simp: fine_def unchanged_def saved_def e_def)
    have self: "fine e e" using ready_unchanged [OF e moved_refl] e by (simp add: ready_def)
    consider (g) "ed_pending ed = key CHR ''g''"
      | (oper) "ed_pending ed \<noteq> key CHR ''g''" "ed_pending ed = key CHR ''d'' \<or> ed_pending ed = key CHR ''c'' \<or> ed_pending ed = key CHR ''y''"
      | (plain) "ed_pending ed \<noteq> key CHR ''g''" "\<not> (ed_pending ed = key CHR ''d'' \<or> ed_pending ed = key CHR ''c'' \<or> ed_pending ed = key CHR ''y'')"
      by blast
    then show ?thesis
    proof cases
      case g
      have "fine e (goto_line m e)" for m using goto_line_ok [OF B(1,2,5)] ready_unchanged [OF e] by blast
      moreover have "normal_key k ed = (if k = key CHR ''g'' then goto_line (if ed_count ed \<noteq> 0 then ed_count ed - 1 else 0) e else e)"
        using False g unfolding normal_key_def Let_def e_def by auto
      ultimately have "fine ed (normal_key k ed)" using self widen by simp
      then show ?thesis by (simp add: fine_def)
    next
      case oper
      have "normal_key k ed = operator_key (ed_pending ed) k ?n e"
        using False oper unfolding normal_key_def Let_def e_def by auto
      then have "fine ed (normal_key k ed)" using operator_key_fine [OF e, of ?n] widen by simp
      then show ?thesis by (simp add: fine_def)
    next
      case plain
      have n: "normal_key k ed = (case motion k ?n e of Some ed \<Rightarrow> ed | None \<Rightarrow> normal_command k (ed_count ed) ?n e)"
        using False plain unfolding normal_key_def Let_def e_def by auto
      show ?thesis
      proof (cases "motion k ?n e")
        case (Some x)
        have "moved e x \<and> editor_ok x" using e B(5) Some by (intro motion_ok [of e ?n k]) (simp_all add: ready_def)
        then have "fine ed x" using ready_unchanged [OF e] widen by blast
        then show ?thesis using n Some by (simp add: fine_def)
      next
        case None
        show ?thesis
        proof (cases "k = key CHR ''u''")
          case True
          have "normal_key k ed = set_column (clamp_cursor (undo e))" using n None True by (simp add: normal_command_def)
          then show ?thesis using undo_ok [OF B(1,2,5,3,4)] True by simp
        next
          case k: False
          have "fine ed (normal_command k (ed_count ed) ?n e)" using normal_command_fine [OF e _ cnt k] widen by simp
          then show ?thesis using n None by (simp add: fine_def)
        qed
      qed
    qed
  qed
  then show "editor_ok (normal_key k ed)" "k \<noteq> key CHR ''u'' \<Longrightarrow> unchanged ed (normal_key k ed) \<or> saved ed (normal_key k ed)" by blast+
qed

lemma nav_key:
  assumes ed: "editor_ok ed" "ed_mode ed = EDIT_INSERT"
    and k: "k = KEY_LEFT \<or> k = KEY_RIGHT \<or> k = KEY_UP \<or> k = KEY_DOWN \<or> k = KEY_HOME \<or> k = KEY_END \<or> k = KEY_PAGE_UP \<or> k = KEY_PAGE_DOWN"
  shows "moved ed (normal_key k ed) \<and> editor_ok (normal_key k ed)"
proof -
  have i: "ed_pending ed = 0" "ed_count ed = 0" using ed by (simp_all add: editor_ok_def insert_ok_def)
  then have same: "ed\<lparr>ed_count := 0, ed_pending := 0\<rparr> = ed" by simp
  obtain x where x: "motion k 1 ed = Some x" using k by (auto simp: motion_def Let_def)
  then have "motion k 1 (ed\<lparr>ed_count := 0, ed_pending := 0\<rparr>) = Some x" unfolding same .
  then have "normal_key k ed = x" using k i by (auto simp: normal_key_def Let_def)
  then show ?thesis using motion_ok [OF ed(1) _ _ x] ed(2) by simp
qed

lemma typed_ok:
  assumes ed: "editor_ok ed" "ed_mode ed = EDIT_INSERT" and t: "text_ok t"
  defines "e \<equiv> case insert_text (cursor ed) t ed of (e, ok) \<Rightarrow> set_column (if ok then e\<lparr>cursor := cursor e + int (length t)\<rparr> else e)"
  shows "editor_ok e \<and> ed_mode e = EDIT_INSERT \<and> undo_text e = undo_text ed \<and> has_undo e = has_undo ed \<and> ed_pending e = 0"
proof -
  note E = ed(1) [unfolded editor_ok_def]
  obtain x ok where x: "insert_text (cursor ed) t ed = (x, ok)" by fastforce
  have c: "buffer_ok ed" "0 \<le> cursor ed" "cursor ed \<le> ed_len ed" using E by simp_all
  note I = insert_text_ok [OF c t x]
  have pend: "ed_pending x = 0" "ed_count x = 0" using E ed(2) I(9,10) by (simp_all add: insert_ok_def)
  have "editor_ok (if ok then x\<lparr>cursor := cursor x + int (length t)\<rparr> else x)"
    using I(1) I(3-6) c ed(2) pend by (auto simp: editor_ok_def insert_ok_def)
  then show ?thesis using I(5,7,8) ed(2) set_column_ok pend by (simp add: e_def x)
qed

lemma insert_key_ok:
  assumes ed: "editor_ok ed" "ed_mode ed = EDIT_INSERT"
  shows "editor_ok (insert_key k ed) \<and> undo_text (insert_key k ed) = undo_text ed \<and> has_undo (insert_key k ed) = has_undo ed
    \<and> ed_mode (insert_key k ed) = (if k = 27 then EDIT_NORMAL else EDIT_INSERT) \<and> ed_pending (insert_key k ed) = 0"
proof -
  note E = ed(1) [unfolded editor_ok_def]
  have i: "ed_pending ed = 0" "ed_count ed = 0" using E ed(2) by (simp_all add: insert_ok_def)
  have after: "ed_pending x = 0" if "editor_ok x" "ed_mode x = EDIT_INSERT" for x using that by (simp add: editor_ok_def insert_ok_def)
  have cut: "editor_ok ((delete_text a b ed)\<lparr>cursor := c\<rparr>) \<and> ed_mode (delete_text a b ed) = EDIT_INSERT
      \<and> undo_text (delete_text a b ed) = undo_text ed \<and> has_undo (delete_text a b ed) = has_undo ed"
    if "0 \<le> a" "a \<le> b" "b \<le> ed_len ed" "0 \<le> c" "c \<le> ed_len ed - (b - a)" for a b c
    using that delete_text_ok [of ed a b] E ed(2) i
    by (simp add: editor_ok_def insert_ok_def) (simp add: delete_text_def)
  have type1: "text_ok [of_int k]" if "k = 10 \<or> (k \<ge> 32 \<and> k \<le> 126)"
  proof -
    have "uint (of_int k :: u8) = k" using that by (auto simp: uint_word_of_int_eq take_bit_int_eq_self)
    then show ?thesis using that by (auto simp: text_ok_def word_le_def)
  qed
  have type2: "text_ok [32, 32]" by (simp add: text_ok_def)
  have keep: "editor_ok (set_column ed)" by (rule set_column_ok [OF ed(1)])
  consider "k = 27" | "k = 8" | "k = KEY_DELETE" | "k = 9"
    | (nav) "k = KEY_LEFT \<or> k = KEY_RIGHT \<or> k = KEY_UP \<or> k = KEY_DOWN \<or> k = KEY_HOME \<or> k = KEY_END \<or> k = KEY_PAGE_UP \<or> k = KEY_PAGE_DOWN"
    | (type) "k = 10 \<or> (k \<ge> 32 \<and> k \<le> 126)"
    | (none) "k \<noteq> 27" "k \<noteq> 8" "k \<noteq> KEY_DELETE" "k \<noteq> 9" "k \<noteq> KEY_LEFT" "k \<noteq> KEY_RIGHT" "k \<noteq> KEY_UP" "k \<noteq> KEY_DOWN" "k \<noteq> KEY_HOME"
        "k \<noteq> KEY_END" "k \<noteq> KEY_PAGE_UP" "k \<noteq> KEY_PAGE_DOWN" "\<not> (k = 10 \<or> (k \<ge> 32 \<and> k \<le> 126))"
    by blast
  then show ?thesis
  proof cases
    case 1
    let ?e = "ed\<lparr>ed_mode := EDIT_NORMAL\<rparr>"
    have "editor_ok (set_column (clamp_cursor ?e))" "editor_ok (set_column (clamp_cursor (?e\<lparr>cursor := cursor ed - 1\<rparr>)))"
      using E by (intro finish_ok; simp add: insert_ok_def)+
    then show ?thesis using 1 i by (simp add: insert_key_def Let_def)
  next
    case 2
    then show ?thesis using cut [of "cursor ed - 1" "cursor ed" "cursor ed - 1"] E ed(2) i keep set_column_ok after
      by (auto simp: insert_key_def delete_text_def)
  next
    case 3
    then show ?thesis using cut [of "cursor ed" "cursor ed + 1" "cursor ed"] E ed i after
      by (auto simp: insert_key_def delete_text_def)
  next
    case 4
    then show ?thesis using typed_ok [OF ed type2] after
      by (cases "insert_text (cursor ed) [32, 32] ed") (auto simp: insert_key_def split: if_splits)
  next
    case nav
    have k: "k \<noteq> 27" "k \<noteq> 8" "k \<noteq> KEY_DELETE" "k \<noteq> 9" using nav by auto
    have "insert_key k ed = normal_key k ed" using nav k by (simp add: insert_key_def)
    moreover have N: "moved ed (normal_key k ed) \<and> editor_ok (normal_key k ed)" by (rule nav_key [OF ed nav])
    ultimately show ?thesis using moved_fields [OF conjunct1 [OF N]] k ed(2) i by simp
  next
    case type
    have k: "k \<noteq> 27" "k \<noteq> 8" "k \<noteq> KEY_DELETE" "k \<noteq> 9" "k < 0x80" using type by auto
    then have "insert_key k ed = (case insert_text (cursor ed) [of_int k] ed of (e, ok) \<Rightarrow> set_column (if ok then e\<lparr>cursor := cursor e + 1\<rparr> else e))"
      using type by (simp add: insert_key_def)
    then show ?thesis using typed_ok [OF ed type1 [OF type]] k after
      by (cases "insert_text (cursor ed) [of_int k] ed") (auto split: if_splits)
  next
    case none
    then have "insert_key k ed = ed" by (auto simp: insert_key_def)
    then show ?thesis using ed i none(1) by simp
  qed
qed

lemma command_key_ok:
  assumes ed: "editor_ok ed" "ed_mode ed = EDIT_COMMAND"
  shows "editor_ok (fst (command_key k ed))"
proof -
  let ?n = "ed\<lparr>ed_mode := EDIT_NORMAL\<rparr>"
  have n: "editor_ok ?n" using ed same_on_char [of ?n ed] by (simp add: editor_ok_def insert_ok_def)
  then have b: "buffer_ok ?n" "insert_ok ?n" "ed_mode ?n \<noteq> EDIT_COMMAND" by (simp_all add: editor_ok_def)
  have "editor_ok (fst (run_command ?n))"
    using n goto_line_ok [OF b] set_message_ok(2) by (simp add: run_command_def Let_def)
  moreover have "editor_ok (ed\<lparr>command := c\<rparr>)" if "length c < 48" for c
    using ed that same_on_char [of "ed\<lparr>command := c\<rparr>" ed] by (simp add: editor_ok_def buffer_ok_def insert_ok_def)
  moreover have "length (command ed) < 48" using ed by (simp add: editor_ok_def buffer_ok_def)
  ultimately show ?thesis using ed(1) n by (simp add: command_key_def)
qed

lemma no_message_ok: "editor_ok ed \<Longrightarrow> editor_ok (ed\<lparr>message := []\<rparr>)"
  using same_on_char [of "ed\<lparr>message := []\<rparr>" ed] by (simp add: editor_ok_def buffer_ok_def insert_ok_def)

lemma edit_key_ok: "editor_ok ed \<Longrightarrow> editor_ok (fst (edit_key k ed))"
proof -
  assume ed: "editor_ok ed"
  let ?e = "ed\<lparr>message := []\<rparr>"
  have e: "editor_ok ?e" by (rule no_message_ok [OF ed])
  show ?thesis
    using e normal_key_ok(1) [OF e] insert_key_ok [OF e] command_key_ok [OF e]
    by (cases "ed_mode ed") (simp_all add: edit_key_def Let_def)
qed

definition run_keys :: "int list \<Rightarrow> editors \<Rightarrow> editors" where
  "run_keys ks ed = fold (\<lambda>k ed. fst (edit_key k ed)) ks ed"

lemma run_keys_simps [simp]: "run_keys [] ed = ed" "run_keys (k # ks) ed = run_keys ks (fst (edit_key k ed))"
  by (simp_all add: run_keys_def)

lemma run_keys_append: "run_keys (ks @ ls) ed = run_keys ls (run_keys ks ed)"
  by (simp add: run_keys_def)

lemma typing:
  "editor_ok ed \<Longrightarrow> ed_mode ed = EDIT_INSERT \<Longrightarrow> 27 \<notin> set ks \<Longrightarrow>
   editor_ok (run_keys ks ed) \<and> ed_mode (run_keys ks ed) = EDIT_INSERT \<and> undo_text (run_keys ks ed) = undo_text ed
   \<and> has_undo (run_keys ks ed) = has_undo ed"
proof (induction ks arbitrary: ed)
  case (Cons k ks)
  let ?e = "ed\<lparr>message := []\<rparr>"
  have e: "editor_ok ?e" "ed_mode ?e = EDIT_INSERT"
    using Cons.prems no_message_ok by simp_all
  have k: "fst (edit_key k ed) = insert_key k ?e" using Cons.prems(2) by (simp add: edit_key_def Let_def)
  show ?case using Cons.IH [of "insert_key k ?e"] insert_key_ok [OF e, of k] Cons.prems(3) by (simp add: k)
qed simp

text \<open>The key \<^verbatim>\<open>u\<close> in normal mode.\<close>

lemma press_u: "ed_mode ed = EDIT_NORMAL \<Longrightarrow> ed_pending ed = 0 \<Longrightarrow> has_undo ed \<Longrightarrow> ed_text (fst (edit_key (key CHR ''u'') ed)) = undo_text ed"
  by (simp add: edit_key_def Let_def normal_key_def motion_def normal_command_def undo_def)

lemma run_keys_ok: "editor_ok ed \<Longrightarrow> editor_ok (run_keys ks ed)"
  using edit_key_ok by (induction ks arbitrary: ed) simp_all

text \<open>C38. \<^verbatim>\<open>u\<close> brings back the text before the last change: before a command that changes it at once, and before all
  that was typed in insert mode when a command led there.\<close>

theorem editor_undo_restores:
  assumes "editor_ok ed" "ed_mode ed = EDIT_NORMAL" "k \<noteq> key CHR ''u''"
  shows "(ed_mode (run_keys [k] ed) = EDIT_INSERT \<longrightarrow>
            (\<forall>ks. 27 \<notin> set ks \<longrightarrow> ed_text (run_keys (k # ks @ [27, key CHR ''u'']) ed) = ed_text ed))
       \<and> (ed_mode (run_keys [k] ed) \<noteq> EDIT_INSERT \<and> ed_text (run_keys [k] ed) \<noteq> ed_text ed \<longrightarrow>
            ed_text (run_keys [k, key CHR ''u''] ed) = ed_text ed)"
proof -
  let ?e = "ed\<lparr>message := []\<rparr>"
  let ?f = "fst (edit_key k ed)"
  have e: "editor_ok ?e" "ed_mode ?e = EDIT_NORMAL"
    using assms(1,2) no_message_ok by simp_all
  have f: "?f = normal_key k ?e" using assms(2) by (simp add: edit_key_def Let_def)
  have ok: "editor_ok ?f" using normal_key_ok(1) [OF e] f by simp
  have sv: "unchanged ed ?f \<or> saved ed ?f" using normal_key_ok(2) [OF e assms(3)] f by (simp add: unchanged_def saved_def)
  show ?thesis
  proof (intro conjI impI allI)
    fix ks :: "int list"
    assume i: "ed_mode (run_keys [k] ed) = EDIT_INSERT" and ks: "27 \<notin> set ks"
    then have mode: "ed_mode ?f = EDIT_INSERT" and s: "saved ed ?f" using sv by (simp_all add: unchanged_def)
    note T = typing [OF ok mode ks]
    let ?t = "run_keys ks ?f"
    let ?g = "?t\<lparr>message := []\<rparr>"
    have g: "editor_ok ?g" "ed_mode ?g = EDIT_INSERT" using no_message_ok [OF conjunct1 [OF T]] conjunct1 [OF conjunct2 [OF T]] by simp_all
    have esc: "fst (edit_key 27 ?t) = insert_key 27 ?g" using T by (simp add: edit_key_def Let_def)
    have "ed_text (fst (edit_key (key CHR ''u'') (insert_key 27 ?g))) = ed_text ed"
      using insert_key_ok [OF g, of 27] T s press_u [of "insert_key 27 ?g"] by (simp add: saved_def)
    then show "ed_text (run_keys (k # ks @ [27, key CHR ''u'']) ed) = ed_text ed"
      by (simp add: run_keys_append esc)
  next
    assume c: "ed_mode (run_keys [k] ed) \<noteq> EDIT_INSERT \<and> ed_text (run_keys [k] ed) \<noteq> ed_text ed"
    then have s: "saved ed ?f" using sv by (simp add: unchanged_def)
    then have "ed_mode ?f = EDIT_NORMAL" using c by (cases "ed_mode ?f") (simp_all add: saved_def)
    then show "ed_text (run_keys [k, key CHR ''u''] ed) = ed_text ed" using press_u [of ?f] s by (simp add: saved_def)
  qed
qed

section \<open>Files\<close>

lemma loaded_same: "\<forall>c \<in> set s. c = 10 \<or> (32 \<le> c \<and> c \<le> 126) \<Longrightarrow> map loaded_char s = s"
proof (induction s)
  case (Cons c s)
  have "sint c = uint c" if "32 \<le> c" "c \<le> 126"
    using that by (simp add: sint_uint signed_take_bit_int_eq_self_iff word_le_def)
  then have "loaded_char c = c" using Cons.prems by (auto simp: loaded_char_def schar_def word_le_def)
  then show ?case using Cons by simp
qed simp

lemma load_text: "ed_text (edit_load data)
   = map loaded_char (if take 16384 data \<noteq> [] \<and> last (take 16384 data) = 10 then butlast (take 16384 data) else take 16384 data)"
proof -
  have "ed_text (set_message f a e) = ed_text e" for f a and e :: editor
    by (simp add: set_message_def split: option.splits prod.splits)
  then show ?thesis by (simp add: edit_load_def Let_def empty_editor_def)
qed

text \<open>A window that loads a file: the register is not of the window.\<close>

definition load_file :: "bytes \<Rightarrow> editors \<Rightarrow> editors" where
  "load_file data ed = editor.extend (edit_load data) \<lparr>reg = reg ed, reg_lines = reg_lines ed\<rparr>"

lemma loaded_char_ok: "loaded_char c = 10 \<or> (32 \<le> loaded_char c \<and> loaded_char c \<le> 126)"
proof -
  have "uint c = sint c" if "32 \<le> sint c"
    using that sint_lt [of c] by (simp add: uint_sint take_bit_int_eq_self)
  then show ?thesis by (auto simp: loaded_char_def schar_def word_le_def)
qed

lemma load_form: "\<exists>s m. edit_load data = empty_editor\<lparr>ed_text := s, message := m\<rparr> \<and> length m < 64"
proof -
  let ?f = "str ''%d lines, %d bytes''"
  have *: "\<exists>m. set_message ?f a (empty_editor\<lparr>ed_text := s\<rparr>) = empty_editor\<lparr>ed_text := s, message := m\<rparr> \<and> length m < 64" for a s
    using set_message_form [of ?f a "empty_editor\<lparr>ed_text := s\<rparr>"] by (auto simp: empty_editor_def)
  have "\<exists>a s. edit_load data = set_message ?f a (empty_editor\<lparr>ed_text := s\<rparr>)"
    by (simp only: edit_load_def Let_def) (intro exI, rule refl)
  then obtain a s where "edit_load data = set_message ?f a (empty_editor\<lparr>ed_text := s\<rparr>)" by blast
  then show ?thesis using * [of a s] by auto
qed

lemma load_file_fields: "ed_text (load_file data ed) = ed_text (edit_load data)" "cursor (load_file data ed) = 0"
  "ed_mode (load_file data ed) = EDIT_NORMAL" "reg (load_file data ed) = reg ed" "undo_text (load_file data ed) = []"
  "undo_cursor (load_file data ed) = 0" "column (load_file data ed) = 0" "ed_count (load_file data ed) = 0"
  "command (load_file data ed) = []" "ed_pending (load_file data ed) = 0" "length (message (load_file data ed)) < 64"
proof -
  obtain s m where "edit_load data = empty_editor\<lparr>ed_text := s, message := m\<rparr>" "length m < 64"
    using load_form by blast
  then show "ed_text (load_file data ed) = ed_text (edit_load data)" "cursor (load_file data ed) = 0"
    "ed_mode (load_file data ed) = EDIT_NORMAL" "reg (load_file data ed) = reg ed" "undo_text (load_file data ed) = []"
    "undo_cursor (load_file data ed) = 0" "column (load_file data ed) = 0" "ed_count (load_file data ed) = 0"
    "command (load_file data ed) = []" "ed_pending (load_file data ed) = 0" "length (message (load_file data ed)) < 64"
    by (simp_all add: load_file_def editor.defs empty_editor_def)
qed

lemma load_file_ok: "editor_ok ed \<Longrightarrow> editor_ok (load_file data ed)"
proof -
  assume "editor_ok ed"
  moreover have "text_ok (ed_text (edit_load data))"
    using loaded_char_ok by (auto simp: text_ok_def load_text)
  ultimately show ?thesis
    using line_start.simps [of "load_file data ed" 0] by (simp add: editor_ok_def buffer_ok_def insert_ok_def on_char_def load_file_fields text_ok_def)
qed

text \<open>C37. Whatever file is loaded and whatever keys follow in every mode, the editor stays sound: the text, the register and
  the text for undo fit their buffers and have no char without a glyph, the cursor is in the text and rests on a char
  outside of insert mode, and the offsets and lengths of the strings are in range.\<close>

theorem editor_keys_keep_ok:
  assumes "editor_ok ed"
  shows "editor_ok (run_keys ks ed) \<and> editor_ok (run_keys ks (load_file data ed))"
  using assms run_keys_ok load_file_ok by blast

text \<open>C39. A text that is saved and loaded again is the same as long as its file fits the buffer. A file of
  printable chars and line ends that is loaded and saved is written as it was when its last line is ended, and with the
  end of the last line when it was not; only the file of one empty line comes back empty, without its \<^verbatim>\<open>'\n'\<close>.\<close>

theorem editor_file_roundtrip:
  "(editor_ok ed \<and> ed_len ed < EDIT_MAX \<longrightarrow> ed_text (edit_load (edit_save_data ed)) = ed_text ed)
   \<and> (text_ok data \<longrightarrow> edit_save_data (edit_load data)
        = (if data = [] \<or> data = [10] then [] else if last data = 10 then data else data @ [10]))"
proof (intro conjI impI)
  assume a: "editor_ok ed \<and> ed_len ed < EDIT_MAX"
  then have "map loaded_char (ed_text ed) = ed_text ed" by (intro loaded_same) (simp add: editor_ok_def buffer_ok_def text_ok_def)
  then show "ed_text (edit_load (edit_save_data ed)) = ed_text ed" using a by (simp add: load_text edit_save_data_def)
next
  assume a: "text_ok data"
  then have t: "take 16384 data = data" by (simp add: text_ok_def)
  have m: "map loaded_char d = d" if "set d \<subseteq> set data" for d
    using a that by (intro loaded_same) (auto simp: text_ok_def)
  have x: "ed_text (edit_load data) = (if data \<noteq> [] \<and> last data = 10 then butlast data else data)"
    using m [of data] m [of "butlast data"] by (auto simp: load_text t dest: in_set_butlastD)
  show "edit_save_data (edit_load data) = (if data = [] \<or> data = [10] then [] else if last data = 10 then data else data @ [10])"
  proof (cases data rule: rev_cases)
    case Nil
    then show ?thesis using x by (simp add: edit_save_data_def)
  next
    case (snoc d c)
    then show ?thesis using x by (auto simp: edit_save_data_def)
  qed
qed

section \<open>Examples\<close>

definition blank :: editors where
  "blank = editor.extend empty_editor \<lparr>reg = [], reg_lines = False\<rparr>"

lemma blank_ok: "editor_ok blank"
  by (simp add: blank_def empty_editor_def editor.defs editor_ok_def buffer_ok_def insert_ok_def text_ok_def on_char_def line_start.simps)

definition hello :: editors where
  "hello = load_file (str ''ab'' @ [10]) blank"

lemma hello_text: "ed_text hello = str ''ab''"
  by (simp add: hello_def load_file_fields load_text str_def loaded_char_def schar_def)

lemmas hello_fields = hello_text load_file_fields [of "str ''ab'' @ [10]" blank, folded hello_def]

lemma hello_ok: "editor_ok hello"
  unfolding hello_def by (rule load_file_ok [OF blank_ok])

theorem editor_keys_keep_ok_witness:
  "editor_ok (run_keys [key CHR ''d'', key CHR ''w'', key CHR ''i'', 65, 27, key CHR ''p''] hello)"
  using editor_keys_keep_ok [OF hello_ok] by blast

theorem editor_undo_restores_witness:
  "ed_text (run_keys [key CHR ''i'', 65, 66, 27, key CHR ''u''] hello) = ed_text hello"
proof -
  have "ed_mode (run_keys [key CHR ''i''] hello) = EDIT_INSERT"
    by (simp add: edit_key_def Let_def hello_fields normal_key_def motion_def normal_command_def start_insert_def save_undo_def del: One_nat_def)
  then show ?thesis using editor_undo_restores [OF hello_ok hello_fields(4), of "key CHR ''i''"]
    by (simp del: run_keys_simps) (drule spec [of _ "[65, 66]"], simp del: run_keys_simps)
qed

theorem editor_file_roundtrip_witness:
  "ed_text (edit_load (edit_save_data hello)) = ed_text hello \<and> edit_save_data (edit_load (str ''a'' @ [10])) = str ''a'' @ [10]"
proof -
  have "text_ok (str ''a'' @ [10])" by code_simp
  then show ?thesis using editor_file_roundtrip [of hello "str ''a'' @ [10]"] hello_ok by (simp add: hello_fields str_def)
qed

end
