(* ===== verification/Shell.thy ===== *)
theory Shell
  imports CString Ctype UserFormat
begin

unbundle bit_operations_syntax

text \<open>
  The shell, \<^verbatim>\<open>user/sh.c\<close>: splitting a line into words, parsing the words as a pipeline, what a line does
  and how the programs of a pipeline are started. The calls of the kernel are the fields of \<open>sh_calls\<close>.
\<close>

abbreviation (input) SH_MAX_ARGS :: nat where "SH_MAX_ARGS \<equiv> 16"
abbreviation (input) SH_MAX_STAGES :: nat where "SH_MAX_STAGES \<equiv> 8"
abbreviation (input) SH_LINE_MAX :: nat where "SH_LINE_MAX \<equiv> 128"
abbreviation (input) PRIO_MIN :: int where "PRIO_MIN \<equiv> 1"
abbreviation (input) PRIO_MAX :: int where "PRIO_MAX \<equiv> 29"
abbreviation (input) PRIO_DEFAULT :: int where "PRIO_DEFAULT \<equiv> 10"

definition BIN_DIR :: bytes where "BIN_DIR = str ''0:/bin/''"
definition BIN_EXT :: bytes where "BIN_EXT = str ''.elf''"

section \<open>Words\<close>

text \<open>The chars that are words of their own and, with the blank, end a word.\<close>

definition operator_chars :: "u8 set" where
  "operator_chars = {124, 60, 62, 38}"

text \<open>The inner loop of \<^verbatim>\<open>sh_tokenize\<close> copies one word; \<open>buf\<close> is what has been written so far.\<close>

fun word_loop :: "bytes \<Rightarrow> bool \<Rightarrow> bytes \<Rightarrow> bytes \<times> bytes" where
  "word_loop [] quoted buf = ([], buf)"
| "word_loop (c # line) quoted buf =
    (if quoted \<or> (c \<noteq> 32 \<and> c \<notin> operator_chars)
     then if c = 34 then word_loop line (\<not> quoted) buf else word_loop line quoted (buf @ [c])
     else (c # line, buf))"

lemma word_loop_shorter: "length (fst (word_loop line quoted buf)) \<le> length line"
  by (induction line quoted buf rule: word_loop.induct) auto

text \<open>The words are offsets into \<open>buf\<close>; \<open>None\<close>: there are more than \<open>max_words\<close>.\<close>

function sh_tokenize :: "bytes \<Rightarrow> bytes \<Rightarrow> nat list \<Rightarrow> nat \<Rightarrow> (bytes \<times> nat list) option" where
  "sh_tokenize [] buf ws max_words = Some (buf, ws)"
| "sh_tokenize (c # line) buf ws max_words =
    (if c = 32 then sh_tokenize line buf ws max_words
     else if length ws = max_words then None
     else let ws = ws @ [length buf]
          in if c \<in> operator_chars
             then if c = 62 \<and> chr_at line 0 = 62 then sh_tokenize (tl line) (buf @ [62, 62, 0]) ws max_words
                  else sh_tokenize line (buf @ [c, 0]) ws max_words
             else (case word_loop (c # line) False buf of (line, buf) \<Rightarrow> sh_tokenize line (buf @ [0]) ws max_words))"
  by pat_completeness auto
termination
proof (relation "measure (\<lambda>(line, buf, ws, m). length line)", goal_cases)
  case 5
  then show ?case using word_loop_shorter by (auto simp: le_imp_less_Suc) (metis fst_conv le_imp_less_Suc)
qed auto

definition word_at :: "bytes \<Rightarrow> nat \<Rightarrow> bytes" where
  "word_at buf off = takeWhile (\<lambda>c. c \<noteq> 0) (drop off buf)"

section \<open>Pipelines\<close>

text \<open>A stage is its arguments; \<^verbatim>\<open>count\<close> is the number of stages.\<close>

record sh_pipeline =
  p_stages :: "bytes list list"
  p_input :: "bytes option"
  p_output :: "bytes option"
  p_append :: bool
  p_background :: bool

datatype sh_error = Invalid_pipe | Missing_file_name bytes | Not_first_input | Not_last_background | Too_many_arguments

definition add_arg :: "bytes \<Rightarrow> sh_pipeline \<Rightarrow> sh_pipeline" where
  "add_arg w p = p\<lparr>p_stages := butlast (p_stages p) @ [last (p_stages p) @ [w]]\<rparr>"

text \<open>\<^verbatim>\<open>strchr\<close> also finds the end of the string, so an empty word is no file name.\<close>

definition no_file_name :: "bytes \<Rightarrow> bool" where
  "no_file_name w \<longleftrightarrow> chr_at w 0 \<in> operator_chars \<or> chr_at w 0 = 0"

fun parse_words :: "bytes list \<Rightarrow> sh_pipeline \<Rightarrow> sh_error + sh_pipeline" where
  "parse_words [] p = Inr p"
| "parse_words (w # ws) p =
    (if w = str ''|''
     then if last (p_stages p) = [] \<or> p_output p \<noteq> None \<or> length (p_stages p) = SH_MAX_STAGES then Inl Invalid_pipe
          else parse_words ws (p\<lparr>p_stages := p_stages p @ [[]]\<rparr>)
     else if w = str ''<'' \<or> w = str ''>'' \<or> w = str ''>>''
     then (case ws of
             [] \<Rightarrow> Inl (Missing_file_name w)
           | f # ws \<Rightarrow>
               if no_file_name f then Inl (Missing_file_name w)
               else if chr_at w 0 = 60
               then if length (p_stages p) > 1 then Inl Not_first_input
                    else parse_words ws (p\<lparr>p_input := Some f\<rparr>)
               else parse_words ws (p\<lparr>p_output := Some f, p_append := (chr_at w 1 = 62)\<rparr>))
     else if w = str ''&''
     then if ws \<noteq> [] then Inl Not_last_background else parse_words ws (p\<lparr>p_background := True\<rparr>)
     else if length (last (p_stages p)) = SH_MAX_ARGS then Inl Too_many_arguments
     else parse_words ws (add_arg w p))"

definition sh_parse :: "bytes list \<Rightarrow> sh_error + sh_pipeline" where
  "sh_parse ws =
    (case parse_words ws \<lparr>p_stages = [[]], p_input = None, p_output = None, p_append = False, p_background = False\<rparr> of
       Inl e \<Rightarrow> Inl e
     | Inr p \<Rightarrow> if last (p_stages p) = [] then Inl Invalid_pipe else Inr p)"

section \<open>Lines\<close>

definition commands :: "bytes list" where
  "commands = map str [''help'', ''clear'', ''cd'', ''pwd'', ''touch'', ''rm'', ''mkdir'', ''run'', ''ps'', ''kill'', ''sched'',
     ''prio'', ''mem'', ''uptime'', ''sleep'', ''reboot'', ''exit'']"

datatype sh_action =
    Do_nothing
  | Prio_usage
  | Report sh_error
  | Programs_only bytes
  | Run_builtin bytes "bytes list"
  | Run_programs sh_pipeline int

text \<open>The prefixes \<^verbatim>\<open>run\<close> and \<^verbatim>\<open>prio <n>\<close>: what is left of the words, the priority and whether the builtins
  are skipped. \<open>None\<close>: the priority is wrong.\<close>

function sh_prefixes :: "bytes list \<Rightarrow> int \<Rightarrow> bool \<Rightarrow> (bytes list \<times> int \<times> bool) option" where
  "sh_prefixes ws prio force =
    (if length ws > 1 \<and> (hd ws = str ''run'' \<or> hd ws = str ''prio'')
     then if chr_at (hd ws) 0 = 114 then sh_prefixes (tl ws) prio True
          else let v = sint (atoi (ws ! 1))
               in if length ws < 3 \<or> \<not> isdigit (schar (chr_at (ws ! 1) 0)) \<or> v < PRIO_MIN \<or> v > PRIO_MAX then None
                  else sh_prefixes (drop 2 ws) v True
     else Some (ws, prio, force))"
  by pat_completeness auto
termination by (relation "measure (\<lambda>(ws, p, f). length ws)") auto

declare sh_prefixes.simps [simp del]

definition sh_execute_words :: "bytes list \<Rightarrow> sh_action" where
  "sh_execute_words ws =
    (case sh_prefixes ws PRIO_DEFAULT False of
       None \<Rightarrow> Prio_usage
     | Some (ws, prio, force) \<Rightarrow>
         (case sh_parse ws of
            Inl e \<Rightarrow> Report e
          | Inr p \<Rightarrow>
              let name = hd (hd (p_stages p))
              in if \<not> force \<and> name \<in> set commands
                 then if length (p_stages p) > 1 \<or> p_input p \<noteq> None \<or> p_output p \<noteq> None \<or> p_background p
                      then Programs_only name else Run_builtin name (hd (p_stages p))
                 else Run_programs p prio))"

definition sh_execute_line :: "bytes \<Rightarrow> sh_action" where
  "sh_execute_line line =
    (case sh_tokenize line [] [] SH_LINE_MAX of
       None \<Rightarrow> Do_nothing
     | Some (buf, ws) \<Rightarrow> if ws = [] then Do_nothing else sh_execute_words (map (word_at buf) ws))"


section \<open>Words and the buffer\<close>

lemma word_loop_step:
  "c \<noteq> 32 \<Longrightarrow> c \<notin> operator_chars \<Longrightarrow> word_loop (c # line) False buf = word_loop line (c = 34) (if c = 34 then buf else buf @ [c])"
  by simp

lemma word_loop_length:
  "word_loop line quoted buf = (rest, out) \<Longrightarrow> length out + length rest \<le> length buf + length line \<and> length rest \<le> length line"
  by (induction line quoted buf rule: word_loop.induct) (fastforce split: if_splits)+

lemma tokenize_bounds:
  "sh_tokenize line buf ws m = Some (out, ws') \<Longrightarrow> length ws \<le> m \<Longrightarrow>
   length out \<le> length buf + 2 * length line \<and> length ws' \<le> m"
proof (induction line buf ws m rule: sh_tokenize.induct)
  case (2 c line buf ws m)
  note IH = "2.IH" and P = "2.prems"
  consider (blank) "c = 32" | (full) "c \<noteq> 32" "length ws = m" | (op2) "c = 62" "chr_at line 0 = 62" "length ws < m"
    | (op) "c \<in> operator_chars" "\<not> (c = 62 \<and> chr_at line 0 = 62)" "length ws < m"
    | (word) "c \<noteq> 32" "c \<notin> operator_chars" "length ws < m"
    using P(2) order_le_less [of "length ws" m] by blast
  then show ?case
  proof cases
    case blank
    then show ?thesis using IH(1) P by simp
  next
    case full
    then show ?thesis using P by simp
  next
    case op2
    have "line \<noteq> []" using op2(2) by auto
    then have "length line = Suc (length (tl line))" by (cases line) simp_all
    then show ?thesis using IH(2) [OF _ _ refl] P op2 by (simp add: operator_chars_def)
  next
    case op
    have "c \<noteq> 32" using op(1) by (auto simp: operator_chars_def)
    then show ?thesis using IH(3) [OF _ _ refl] P op by (simp split: if_splits)
  next
    case word
    obtain rest buf' where w: "word_loop (c # line) False buf = (rest, buf')" by fastforce
    have "length buf' + length rest \<le> length buf + Suc (length line)" using word_loop_length [OF w] by simp
    moreover have "length rest \<le> length line"
      using arg_cong [OF w, of fst] word word_loop_shorter [of line "c = 34" "if c = 34 then buf else buf @ [c]"]
      by (simp add: word_loop_step del: word_loop.simps)
    ultimately show ?thesis using IH(4) [OF _ _ refl _ w [symmetric]] P word w by (simp del: word_loop.simps)
  qed
qed simp

text \<open>The words as strings, packed one behind the other.\<close>

definition pack :: "bytes list \<Rightarrow> bytes" where
  "pack ws = concat (map (\<lambda>w. w @ [0]) ws)"

definition offsets :: "bytes list \<Rightarrow> nat list" where
  "offsets ws = map (\<lambda>i. length (pack (take i ws))) [0..<length ws]"

lemma pack_simps [simp]: "pack [] = []" "pack (w # ws) = w @ 0 # pack ws" "pack (us @ ws) = pack us @ pack ws"
  by (simp_all add: pack_def)

lemma offsets_Nil [simp]: "offsets [] = []"
  by (simp add: offsets_def)

lemma offsets_snoc: "offsets (ws @ [w]) = offsets ws @ [length (pack ws)]"
  by (simp add: offsets_def)

lemma length_offsets [simp]: "length (offsets ws) = length ws"
  by (simp add: offsets_def)

lemma words_at: "\<forall>w \<in> set ws. 0 \<notin> set w \<Longrightarrow> map (word_at (pack ws)) (offsets ws) = ws"
proof (rule nth_equalityI)
  fix i
  assume ws: "\<forall>w \<in> set ws. 0 \<notin> set w" and "i < length (map (word_at (pack ws)) (offsets ws))"
  then have i: "i < length ws" by simp
  have "pack ws = pack (take i ws) @ pack (drop i ws)" by (simp flip: pack_simps(3))
  moreover have "drop i ws = ws ! i # drop (Suc i) ws" using i by (simp add: Cons_nth_drop_Suc)
  moreover have "0 \<notin> set (ws ! i)" using ws i by simp
  ultimately show "map (word_at (pack ws)) (offsets ws) ! i = ws ! i"
    using i by (auto simp: offsets_def word_at_def takeWhile_append)
qed simp

section \<open>The text of a command line\<close>

text \<open>A word as it can be typed: an operator or a plain word as it is, any other word in quotes.\<close>

definition operators :: "bytes list" where
  "operators = [str ''|'', str ''<'', str ''>'', str ''>>'', str ''&'']"

definition plain :: "bytes \<Rightarrow> bool" where
  "plain w \<longleftrightarrow> w \<noteq> [] \<and> set w \<inter> (operator_chars \<union> {32, 34}) = {}"

definition word_text :: "bytes \<Rightarrow> bytes" where
  "word_text w = (if w \<in> set operators \<or> plain w then w else 34 # w @ [34])"

definition words_text :: "bytes list \<Rightarrow> bytes" where
  "words_text ws = concat (map (\<lambda>w. word_text w @ [32]) ws)"

definition typable :: "bytes \<Rightarrow> bool" where
  "typable w \<longleftrightarrow> 0 \<notin> set w \<and> 34 \<notin> set w"

lemma word_loop_plain: "set w \<inter> (operator_chars \<union> {32, 34}) = {} \<Longrightarrow> word_loop (w @ 32 # rest) False buf = (32 # rest, buf @ w)"
  by (induction w arbitrary: buf) auto

lemma word_loop_quoted: "34 \<notin> set w \<Longrightarrow> word_loop (w @ 34 # rest) True buf = word_loop rest False (buf @ w)"
  by (induction w arbitrary: buf) auto

lemma tokenize_word:
  assumes w: "typable w" and l: "length ws < m"
  shows "sh_tokenize (word_text w @ 32 # rest) (pack ws) (offsets ws) m = sh_tokenize rest (pack (ws @ [w])) (offsets (ws @ [w])) m"
proof -
  consider "w \<in> set operators" | (p) "w \<notin> set operators" "plain w" | (q) "w \<notin> set operators" "\<not> plain w" by blast
  then show ?thesis
  proof cases
    case 1
    then show ?thesis using l
      by (auto simp: word_text_def operators_def str_def operator_chars_def offsets_snoc Let_def)
  next
    case p
    then obtain c cs where c: "w = c # cs" "c \<noteq> 32" "c \<noteq> 34" "c \<notin> operator_chars" by (cases w) (auto simp: plain_def)
    have "word_loop (w @ 32 # rest) False (pack ws) = (32 # rest, pack ws @ w)"
      using p by (intro word_loop_plain) (simp add: plain_def)
    then show ?thesis using p l c by (simp add: word_text_def offsets_snoc Let_def del: word_loop.simps)
  next
    case q
    have "word_loop (34 # w @ 34 # 32 # rest) False (pack ws) = (32 # rest, pack ws @ w)"
      using w word_loop_quoted [of w "32 # rest" "pack ws"] by (simp add: typable_def operator_chars_def)
    then show ?thesis using q l by (simp add: word_text_def offsets_snoc Let_def operator_chars_def del: word_loop.simps)
  qed
qed

lemma tokenize_words:
  "\<forall>w \<in> set vs. typable w \<Longrightarrow> length ws + length vs \<le> m \<Longrightarrow>
   sh_tokenize (words_text vs) (pack ws) (offsets ws) m = Some (pack (ws @ vs), offsets (ws @ vs))"
proof (induction vs arbitrary: ws)
  case (Cons v vs)
  have "words_text (v # vs) = word_text v @ 32 # words_text vs" by (simp add: words_text_def)
  then show ?case using Cons.IH [of "ws @ [v]"] Cons.prems tokenize_word [of v ws m "words_text vs"] by simp
qed (simp add: words_text_def)

lemma execute_words_text:
  assumes "\<forall>w \<in> set ws. typable w" "length ws \<le> SH_LINE_MAX" "ws \<noteq> []"
  shows "sh_execute_line (words_text ws) = sh_execute_words ws"
proof -
  have "sh_tokenize (words_text ws) [] [] SH_LINE_MAX = Some (pack ws, offsets ws)"
    using tokenize_words [of ws "[]" SH_LINE_MAX] assms by simp
  moreover have "map (word_at (pack ws)) (offsets ws) = ws"
    using assms(1) by (intro words_at) (simp add: typable_def)
  moreover have "offsets ws \<noteq> []" using assms(3) length_offsets [of ws] by (metis length_0_conv)
  ultimately show ?thesis by (simp add: sh_execute_line_def)
qed

section \<open>Pipelines as words\<close>

text \<open>What the code can run.\<close>

definition valid_file :: "bytes option \<Rightarrow> bool" where
  "valid_file f \<longleftrightarrow> (case f of None \<Rightarrow> True | Some f \<Rightarrow> \<not> no_file_name f)"

definition valid_stage :: "bytes list \<Rightarrow> bool" where
  "valid_stage args \<longleftrightarrow> args \<noteq> [] \<and> length args \<le> SH_MAX_ARGS \<and> set args \<inter> set operators = {}"

definition valid_pipeline :: "sh_pipeline \<Rightarrow> bool" where
  "valid_pipeline p \<longleftrightarrow> p_stages p \<noteq> [] \<and> length (p_stages p) \<le> SH_MAX_STAGES \<and> (\<forall>s \<in> set (p_stages p). valid_stage s)
     \<and> valid_file (p_input p) \<and> valid_file (p_output p) \<and> (p_append p \<longrightarrow> p_output p \<noteq> None)"

definition pipeline_words :: "sh_pipeline \<Rightarrow> bytes list" where
  "pipeline_words p =
    hd (p_stages p) @ (case p_input p of None \<Rightarrow> [] | Some f \<Rightarrow> [str ''<'', f])
    @ concat (map (\<lambda>s. str ''|'' # s) (tl (p_stages p)))
    @ (case p_output p of None \<Rightarrow> [] | Some f \<Rightarrow> [if p_append p then str ''>>'' else str ''>'', f])
    @ (if p_background p then [str ''&''] else [])"

text \<open>Between two words the parser is in a state like this: only the last stage may be empty or hold few arguments.\<close>

definition partial_ok :: "sh_pipeline \<Rightarrow> bool" where
  "partial_ok p \<longleftrightarrow> p_stages p \<noteq> [] \<and> length (p_stages p) \<le> SH_MAX_STAGES \<and> (\<forall>s \<in> set (butlast (p_stages p)). valid_stage s)
     \<and> length (last (p_stages p)) \<le> SH_MAX_ARGS \<and> set (last (p_stages p)) \<inter> set operators = {}
     \<and> valid_file (p_input p) \<and> valid_file (p_output p) \<and> (p_append p \<longrightarrow> p_output p \<noteq> None)"

lemma partial_ok_steps:
  assumes p: "partial_ok p"
  shows "last (p_stages p) \<noteq> [] \<Longrightarrow> length (p_stages p) \<noteq> SH_MAX_STAGES \<Longrightarrow> partial_ok (p\<lparr>p_stages := p_stages p @ [[]]\<rparr>)"
    "\<not> no_file_name f \<Longrightarrow> partial_ok (p\<lparr>p_input := Some f\<rparr>)"
    "\<not> no_file_name f \<Longrightarrow> partial_ok (p\<lparr>p_output := Some f, p_append := a\<rparr>)"
    "partial_ok (p\<lparr>p_background := b\<rparr>)"
    "w \<notin> set operators \<Longrightarrow> length (last (p_stages p)) \<noteq> SH_MAX_ARGS \<Longrightarrow> partial_ok (add_arg w p)"
proof -
  assume "last (p_stages p) \<noteq> []" "length (p_stages p) \<noteq> SH_MAX_STAGES"
  moreover have "p_stages p = butlast (p_stages p) @ [last (p_stages p)]" using p by (simp add: partial_ok_def)
  then have "set (p_stages p) = insert (last (p_stages p)) (set (butlast (p_stages p)))"
    by (metis list.simps(15) rotate1.simps(2) set_rotate1)
  ultimately show "partial_ok (p\<lparr>p_stages := p_stages p @ [[]]\<rparr>)"
    using p by (auto simp: partial_ok_def valid_stage_def)
qed (use p in \<open>auto simp: partial_ok_def valid_file_def add_arg_def\<close>)

lemma operators_iff:
  "w \<in> set operators \<longleftrightarrow> w = str ''|'' \<or> w = str ''<'' \<or> w = str ''>'' \<or> w = str ''>>'' \<or> w = str ''&''"
  by (simp add: operators_def)

lemma parse_words_ok: "parse_words ws p = Inr p' \<Longrightarrow> partial_ok p \<Longrightarrow> partial_ok p'"
proof (induction ws p rule: parse_words.induct)
  case (2 w ws p)
  note S = partial_ok_steps [OF "2.prems"(2)]
  show ?case
    using "2.prems"(1) "2.IH" S(1-3) S(4) [of True] S(5) [of w]
    by (cases ws) (auto simp: operators_iff split: if_splits)
qed simp

lemma sh_parse_valid: "sh_parse ws = Inr p \<Longrightarrow> valid_pipeline p"
proof -
  assume s: "sh_parse ws = Inr p"
  let ?p = "\<lparr>p_stages = [[]], p_input = None, p_output = None, p_append = False, p_background = False\<rparr>"
  have "partial_ok ?p" by (simp add: partial_ok_def valid_file_def)
  then have ok: "partial_ok p" and l: "last (p_stages p) \<noteq> []"
    using s parse_words_ok [of ws ?p p] by (auto simp: sh_parse_def split: sum.splits if_splits)
  have "p_stages p = butlast (p_stages p) @ [last (p_stages p)]" using ok by (simp add: partial_ok_def)
  then have "set (p_stages p) = insert (last (p_stages p)) (set (butlast (p_stages p)))"
    by (metis list.simps(15) rotate1.simps(2) set_rotate1)
  then show ?thesis using ok l by (auto simp: partial_ok_def valid_pipeline_def valid_stage_def)
qed

lemma parse_args:
  "set args \<inter> set operators = {} \<Longrightarrow> length (last (p_stages p)) + length args \<le> SH_MAX_ARGS \<Longrightarrow>
   parse_words (args @ rest) p = parse_words rest (fold add_arg args p)"
proof (induction args arbitrary: p)
  case (Cons w args)
  have "parse_words (w # args @ rest) p = parse_words (args @ rest) (add_arg w p)"
    using Cons.prems by (simp add: operators_iff)
  then show ?case using Cons.IH [of "add_arg w p"] Cons.prems by (simp add: add_arg_def)
qed simp

lemma fold_add_arg: "p_stages p \<noteq> [] \<Longrightarrow> fold add_arg args p = p\<lparr>p_stages := butlast (p_stages p) @ [last (p_stages p) @ args]\<rparr>"
  by (induction args arbitrary: p) (simp_all add: add_arg_def)

lemma parse_stages:
  "\<forall>s \<in> set ss. valid_stage s \<Longrightarrow> p_output p = None \<Longrightarrow> p_stages p \<noteq> [] \<Longrightarrow> last (p_stages p) \<noteq> [] \<Longrightarrow>
   length (p_stages p) + length ss \<le> SH_MAX_STAGES \<Longrightarrow>
   parse_words (concat (map (\<lambda>s. str ''|'' # s) ss) @ rest) p = parse_words rest (p\<lparr>p_stages := p_stages p @ ss\<rparr>)"
proof (induction ss arbitrary: p)
  case (Cons s ss)
  let ?p = "p\<lparr>p_stages := p_stages p @ [[]]\<rparr>"
  have s: "s \<noteq> []" "length s \<le> SH_MAX_ARGS" "set s \<inter> set operators = {}" using Cons.prems(1) by (simp_all add: valid_stage_def)
  have "parse_words (concat (map (\<lambda>s. str ''|'' # s) (s # ss)) @ rest) p = parse_words (s @ concat (map (\<lambda>s. str ''|'' # s) ss) @ rest) ?p"
    using Cons.prems by simp
  also have "\<dots> = parse_words (concat (map (\<lambda>s. str ''|'' # s) ss) @ rest) (fold add_arg s ?p)"
    using s by (intro parse_args) simp_all
  also have "fold add_arg s ?p = p\<lparr>p_stages := p_stages p @ [s]\<rparr>" by (simp add: fold_add_arg)
  finally show ?case using Cons.IH [of "p\<lparr>p_stages := p_stages p @ [s]\<rparr>"] Cons.prems s(1) by simp
qed simp

lemma parse_pipeline_words:
  assumes v: "valid_pipeline p"
  shows "sh_parse (pipeline_words p) = Inr p"
proof -
  obtain s ss where ss: "p_stages p = s # ss" using v by (cases "p_stages p") (auto simp: valid_pipeline_def)
  let ?z = "\<lparr>p_stages = [[]], p_input = None, p_output = None, p_append = False, p_background = False\<rparr>"
  let ?i = "case p_input p of None \<Rightarrow> [] | Some f \<Rightarrow> [str ''<'', f]"
  let ?t = "concat (map (\<lambda>s. str ''|'' # s) ss)"
  let ?o = "case p_output p of None \<Rightarrow> [] | Some f \<Rightarrow> [if p_append p then str ''>>'' else str ''>'', f]"
  let ?b = "if p_background p then [str ''&''] else []"
  have s: "s \<noteq> []" "length s \<le> SH_MAX_ARGS" "set s \<inter> set operators = {}" "\<forall>s \<in> set ss. valid_stage s" "length ss < SH_MAX_STAGES"
    using v ss by (auto simp: valid_pipeline_def valid_stage_def)
  have "parse_words (pipeline_words p) ?z = parse_words (s @ ?i @ ?t @ ?o @ ?b) ?z" by (simp add: pipeline_words_def ss)
  also have "\<dots> = parse_words (?i @ ?t @ ?o @ ?b) (?z\<lparr>p_stages := [s]\<rparr>)"
    using s by (subst parse_args) (simp_all add: fold_add_arg)
  also have "\<dots> = parse_words (?t @ ?o @ ?b) (?z\<lparr>p_stages := [s], p_input := p_input p\<rparr>)"
    using v by (cases "p_input p") (simp_all add: valid_pipeline_def valid_file_def str_def)
  also have "\<dots> = parse_words (?o @ ?b) (?z\<lparr>p_stages := s # ss, p_input := p_input p\<rparr>)"
    using s by (subst parse_stages) simp_all
  also have "\<dots> = parse_words ?b (?z\<lparr>p_stages := s # ss, p_input := p_input p, p_output := p_output p, p_append := p_append p\<rparr>)"
    using v by (cases "p_output p") (auto simp add: valid_pipeline_def valid_file_def str_def)
  also have "\<dots> = Inr p" using ss by (auto simp: str_def)
  finally have "parse_words (pipeline_words p) ?z = Inr p" .
  moreover have "last (p_stages p) \<noteq> []" using v by (auto simp: valid_pipeline_def valid_stage_def)
  ultimately show ?thesis by (simp add: sh_parse_def)
qed


lemma prefixes_none: "hd ws \<noteq> str ''run'' \<Longrightarrow> hd ws \<noteq> str ''prio'' \<Longrightarrow> sh_prefixes ws prio f = Some (ws, prio, f)"
  by (simp add: sh_prefixes.simps)

lemma hd_pipeline_words: "valid_pipeline p \<Longrightarrow> hd (pipeline_words p) = hd (hd (p_stages p)) \<and> pipeline_words p \<noteq> []"
  by (cases "p_stages p") (auto simp: valid_pipeline_def valid_stage_def pipeline_words_def)

lemma prefixes_range:
  "sh_prefixes ws prio f = Some (vs, prio', f') \<Longrightarrow> PRIO_MIN \<le> prio \<Longrightarrow> prio \<le> PRIO_MAX \<Longrightarrow> PRIO_MIN \<le> prio' \<and> prio' \<le> PRIO_MAX"
proof (induction ws prio f rule: sh_prefixes.induct)
  case (1 ws prio f)
  show ?case
    using "1.prems" "1.IH" by (subst (asm) sh_prefixes.simps) (auto simp: Let_def split: if_splits)
qed

text \<open>C34. Every pipeline the shell can hold has a text that runs it: the words, quoted where they need it, between the
  operators, are read back as the same programs, arguments, files and flags. \<^verbatim>\<open>run\<close> in front runs a program that has the
  name of a builtin, \<^verbatim>\<open>prio n\<close> gives it a priority.\<close>

theorem shell_line_roundtrip:
  assumes "valid_pipeline p" "\<forall>w \<in> set (pipeline_words p). typable w" "length (pipeline_words p) < 127"
    "hd (hd (p_stages p)) \<notin> {str ''run'', str ''prio''}"
  shows "(hd (hd (p_stages p)) \<notin> set commands \<longrightarrow> sh_execute_line (words_text (pipeline_words p)) = Run_programs p PRIO_DEFAULT)
    \<and> sh_execute_line (words_text (str ''run'' # pipeline_words p)) = Run_programs p PRIO_DEFAULT
    \<and> (\<forall>n. typable n \<and> isdigit (schar (chr_at n 0)) \<and> PRIO_MIN \<le> sint (atoi n) \<and> sint (atoi n) \<le> PRIO_MAX \<longrightarrow>
         sh_execute_line (words_text (str ''prio'' # n # pipeline_words p)) = Run_programs p (sint (atoi n)))"
proof -
  let ?w = "pipeline_words p"
  note H = hd_pipeline_words [OF assms(1)] and P = parse_pipeline_words [OF assms(1)]
  have none: "sh_prefixes ?w prio f = Some (?w, prio, f)" for prio f using H assms(4) by (intro prefixes_none) simp_all
  have ty: "typable (str ''run'')" "typable (str ''prio'')" by (simp_all add: typable_def str_def)
  have "sh_prefixes (str ''run'' # ?w) PRIO_DEFAULT False = Some (?w, PRIO_DEFAULT, True)"
    using none H by (subst sh_prefixes.simps) (simp add: str_def)
  then have r: "sh_execute_words (str ''run'' # ?w) = Run_programs p PRIO_DEFAULT" by (simp add: sh_execute_words_def P)
  have "sh_prefixes (str ''prio'' # n # ?w) PRIO_DEFAULT False = Some (?w, sint (atoi n), True)"
    if "isdigit (schar (chr_at n 0))" "PRIO_MIN \<le> sint (atoi n)" "sint (atoi n) \<le> PRIO_MAX" for n
    using that none H by (subst sh_prefixes.simps) (auto simp: str_def Suc_le_eq)
  then have pr: "sh_execute_words (str ''prio'' # n # ?w) = Run_programs p (sint (atoi n))"
    if "isdigit (schar (chr_at n 0))" "PRIO_MIN \<le> sint (atoi n)" "sint (atoi n) \<le> PRIO_MAX" for n
    using that by (simp add: sh_execute_words_def P)
  have "sh_execute_words ?w = Run_programs p PRIO_DEFAULT" if "hd (hd (p_stages p)) \<notin> set commands"
    using that by (simp add: sh_execute_words_def none P)
  then show ?thesis
    using r pr execute_words_text [of ?w] execute_words_text [of "str ''run'' # ?w"] execute_words_text [of "str ''prio'' # _ # ?w"] assms ty H
    by auto
qed

text \<open>C35. What a line can start: at most eight programs, each with a name and at most sixteen arguments, files with a name and a
  priority the kernel takes; the words of the line fit a buffer of twice its length.\<close>

theorem shell_line_bounds:
  "(sh_tokenize line [] [] SH_LINE_MAX = Some (buf, ws) \<longrightarrow> length buf \<le> 2 * length line \<and> length ws \<le> SH_LINE_MAX)
   \<and> (sh_execute_line line = Run_programs p prio \<longrightarrow> valid_pipeline p \<and> PRIO_MIN \<le> prio \<and> prio \<le> PRIO_MAX)"
proof (intro conjI impI)
  assume "sh_tokenize line [] [] SH_LINE_MAX = Some (buf, ws)"
  from tokenize_bounds [OF this] show "length buf \<le> 2 * length line" "length ws \<le> SH_LINE_MAX" by simp_all
next
  assume r: "sh_execute_line line = Run_programs p prio"
  then obtain vs where "sh_execute_words vs = Run_programs p prio" by (auto simp: sh_execute_line_def split: option.splits if_splits)
  then obtain ws f where "sh_prefixes vs PRIO_DEFAULT False = Some (ws, prio, f)" "sh_parse ws = Inr p"
    by (auto simp: sh_execute_words_def Let_def split: option.splits sum.splits if_splits)
  then show "valid_pipeline p" "PRIO_MIN \<le> prio" "prio \<le> PRIO_MAX" using sh_parse_valid prefixes_range by fastforce+
qed

definition demo_pipeline :: sh_pipeline where
  "demo_pipeline = \<lparr>p_stages = [[str ''cat''], [str ''grep'', str ''a b''], [str ''sort'']], p_input = Some (str ''in''),
     p_output = Some (str ''out''), p_append = True, p_background = True\<rparr>"

theorem shell_line_roundtrip_witness:
  "sh_execute_line (words_text (pipeline_words demo_pipeline)) = Run_programs demo_pipeline PRIO_DEFAULT"
proof -
  have "valid_pipeline demo_pipeline" by code_simp
  moreover have "\<forall>w \<in> set (pipeline_words demo_pipeline). typable w" by code_simp
  moreover have "length (pipeline_words demo_pipeline) < 127" by code_simp
  moreover have "hd (hd (p_stages demo_pipeline)) \<notin> {str ''run'', str ''prio''} \<and> hd (hd (p_stages demo_pipeline)) \<notin> set commands" by code_simp
  ultimately show ?thesis using shell_line_roundtrip [of demo_pipeline] by blast
qed

lemma demo_line: "sh_execute_line (str ''cat<in|grep '' @ [34] @ str ''a b'' @ [34] @ str ''| sort >>out&'') = Run_programs demo_pipeline PRIO_DEFAULT"
  by code_simp

theorem shell_line_bounds_witness: "valid_pipeline demo_pipeline"
  using shell_line_bounds demo_line by blast

end
