(* ===== verification/ShellRun.thy ===== *)
theory ShellRun
  imports Shell Descriptors UserHeap
begin

text \<open>
  How the shell starts a pipeline, \<^verbatim>\<open>sh_run_pipeline\<close> of \<^verbatim>\<open>user/sh.c\<close>. The calls of the kernel are the
  fields of \<open>sh_calls\<close> over any state; the locale states what the shell relies on, and the kernel of
  this development provides it.
\<close>

section \<open>Starting programs\<close>

record run_opts =
  opt_stdin :: int
  opt_stdout :: int
  opt_priority :: int
  opt_background :: bool
  opt_stderr :: int

record 's sh_calls =
  call_open :: "bytes \<Rightarrow> u32 \<Rightarrow> 's \<Rightarrow> int \<times> 's"
  call_close :: "int \<Rightarrow> 's \<Rightarrow> 's"
  call_pipe :: "'s \<Rightarrow> (int \<times> int) option \<times> 's"
  call_run :: "bytes list \<Rightarrow> run_opts \<Rightarrow> 's \<Rightarrow> int \<times> 's"

datatype pipeline_result = Unknown_command bytes | File_error bytes int | Started "int list"

definition sh_find_program :: "'s sh_calls \<Rightarrow> bytes \<Rightarrow> nat \<Rightarrow> 's \<Rightarrow> bool \<times> 's" where
  "sh_find_program calls name max_len s =
    (let path = (if strchr name slash \<noteq> None \<or> strchr name colon \<noteq> None then name else BIN_DIR @ name @ BIN_EXT)
     in if length path \<ge> max_len then (False, s)
        else (case call_open calls path 0 s of (fd, s) \<Rightarrow> if fd < 0 then (False, s) else (True, call_close calls fd s)))"

fun find_programs :: "'s sh_calls \<Rightarrow> bytes list list \<Rightarrow> 's \<Rightarrow> bytes option \<times> 's" where
  "find_programs calls [] s = (None, s)"
| "find_programs calls (argv # stages) s =
    (case sh_find_program calls (hd argv) SH_LINE_MAX s of
       (found, s) \<Rightarrow> if found then find_programs calls stages s else (Some (hd argv), s))"

text \<open>The loop that starts the stages; \<open>stdin\<close> is the variable \<^verbatim>\<open>next_input\<close>.\<close>

fun start_stages :: "'s sh_calls \<Rightarrow> int \<Rightarrow> bool \<Rightarrow> int \<Rightarrow> int \<Rightarrow> bytes list list \<Rightarrow> 's \<Rightarrow> int list \<times> 's" where
  "start_stages calls prio bg output stdin [] s = ([], s)"
| "start_stages calls prio bg output stdin (argv # stages) s =
    (let (p, s) = (if stages \<noteq> [] then call_pipe calls s else (None, s));
         (next_input, stdout) = (case p of None \<Rightarrow> (- 1, output) | Some (r, w) \<Rightarrow> (r, w));
         (started, s) = call_run calls argv \<lparr>opt_stdin = stdin, opt_stdout = stdout, opt_priority = prio, opt_background = bg,
                       opt_stderr = - 1\<rparr> s;
         s = (if stdin \<ge> 0 then call_close calls stdin s else s);
         s = (if stdout \<ge> 0 \<and> stdout \<noteq> output then call_close calls stdout s else s);
         (pids, s) = start_stages calls prio bg output next_input stages s
     in (started # pids, s))"

definition sh_open :: "'s sh_calls \<Rightarrow> bytes option \<Rightarrow> u32 \<Rightarrow> 's \<Rightarrow> int \<times> 's" where
  "sh_open calls name mode s = (case name of None \<Rightarrow> (- 1, s) | Some f \<Rightarrow> call_open calls f mode s)"

text \<open>Up to where the shell waits or prints the pids.\<close>

definition sh_run_pipeline :: "'s sh_calls \<Rightarrow> sh_pipeline \<Rightarrow> int \<Rightarrow> 's \<Rightarrow> pipeline_result \<times> 's" where
  "sh_run_pipeline calls p prio s =
    (case find_programs calls (p_stages p) s of
       (Some name, s) \<Rightarrow> (Unknown_command name, s)
     | (None, s) \<Rightarrow>
         (case sh_open calls (p_input p) 0 s of
            (input, s) \<Rightarrow>
              if p_input p \<noteq> None \<and> input < 0 then (File_error (the (p_input p)) input, s)
              else (case sh_open calls (p_output p) (if p_append p then 2 else 1) s of
                      (output, s) \<Rightarrow>
                        if p_output p \<noteq> None \<and> output < 0
                        then (File_error (the (p_output p)) output, if input \<ge> 0 then call_close calls input s else s)
                        else (case start_stages calls prio (p_background p) output input (p_stages p) s of
                                (pids, s) \<Rightarrow> (Started pids, if output \<ge> 0 then call_close calls output s else s)))))"

text \<open>The end of a foreground pipeline: every program that started is waited for.\<close>

datatype exit_report = Killed | Exit_code int | Quiet

fun wait_stages :: "(int \<Rightarrow> 's \<Rightarrow> int \<times> 's) \<Rightarrow> int list \<Rightarrow> bool \<Rightarrow> int \<Rightarrow> 's \<Rightarrow> (bool \<times> int) \<times> 's" where
  "wait_stages wait [] was_killed code s = ((was_killed, code), s)"
| "wait_stages wait (p # pids) was_killed code s =
    (if p \<ge> 0 then (case wait p s of (c, s) \<Rightarrow> wait_stages wait pids (was_killed \<or> c = - 1) c s)
     else wait_stages wait pids was_killed code s)"

definition sh_wait :: "(int \<Rightarrow> 's \<Rightarrow> int \<times> 's) \<Rightarrow> int list \<Rightarrow> 's \<Rightarrow> exit_report \<times> 's" where
  "sh_wait wait pids s =
    (case wait_stages wait pids False 0 s of
       ((was_killed, code), s) \<Rightarrow> (if was_killed then Killed else if code \<noteq> 0 then Exit_code code else Quiet, s))"

section \<open>What the shell relies on\<close>

locale shell_kernel =
  fixes calls :: "'s sh_calls"
    and held :: "'s \<Rightarrow> int \<Rightarrow> 'h option"
    and good :: "'s \<Rightarrow> bool"
  assumes open_law: "good s \<Longrightarrow> call_open calls path mode s = (fd, s') \<Longrightarrow>
      good s' \<and> (if fd < 0 then held s' = held s else held s fd = None \<and> (\<exists>h. held s' = (held s)(fd \<mapsto> h)))"
    and close_law: "good s \<Longrightarrow> held s fd \<noteq> None \<Longrightarrow> good (call_close calls fd s) \<and> held (call_close calls fd s) = (held s)(fd := None)"
    and pipe_law: "good s \<Longrightarrow> call_pipe calls s = (res, s') \<Longrightarrow>
      good s' \<and> (case res of None \<Rightarrow> held s' = held s
                | Some (r, w) \<Rightarrow> 0 \<le> r \<and> 0 \<le> w \<and> r \<noteq> w \<and> held s r = None \<and> held s w = None
                    \<and> (\<exists>a b. held s' = (held s)(r \<mapsto> a, w \<mapsto> b)))"
    and run_law: "good s \<Longrightarrow> call_run calls argv opts s = (started, s') \<Longrightarrow> good s' \<and> held s' = held s"
begin

lemma open_close: "good s \<Longrightarrow> call_open calls path mode s = (fd, s') \<Longrightarrow> 0 \<le> fd \<Longrightarrow>
    good (call_close calls fd s') \<and> held (call_close calls fd s') = held s"
  using open_law [of s path mode fd s'] close_law [of s' fd] by (auto simp: fun_upd_idem)

lemma find_program_ok: "good s \<Longrightarrow> sh_find_program calls name n s = (found, s') \<Longrightarrow> good s' \<and> held s' = held s"
  using open_law [of s _ 0] open_close [of s _ 0] by (auto simp: sh_find_program_def Let_def split: prod.splits if_splits)

lemma find_programs_ok: "good s \<Longrightarrow> find_programs calls stages s = (r, s') \<Longrightarrow> good s' \<and> held s' = held s"
proof (induction stages arbitrary: s)
  case (Cons argv stages)
  then show ?case using find_program_ok [of s "hd argv" SH_LINE_MAX] by (fastforce split: prod.splits if_splits)
qed simp

text \<open>The input of a stage is closed when it runs, so the loop ends without it.\<close>

lemma start_stages_ok:
  assumes "good s" "0 \<le> stdin \<Longrightarrow> held s stdin \<noteq> None" "0 \<le> output \<Longrightarrow> held s output \<noteq> None" "0 \<le> stdin \<Longrightarrow> stdin \<noteq> output"
    "stages \<noteq> []" "start_stages calls prio bg output stdin stages s = (pids, s')"
  shows "good s' \<and> held s' = (if 0 \<le> stdin then (held s)(stdin := None) else held s) \<and> length pids = length stages"
  using assms
proof (induction stages arbitrary: s stdin pids)
  case (Cons argv stages)
  note P = Cons.prems
  obtain res s1 where p: "(if stages \<noteq> [] then call_pipe calls s else (None, s)) = (res, s1)" by fastforce
  have s1: "good s1 \<and> (case res of None \<Rightarrow> held s1 = held s
      | Some (r, w) \<Rightarrow> 0 \<le> r \<and> 0 \<le> w \<and> r \<noteq> w \<and> held s r = None \<and> held s w = None \<and> (\<exists>a b. held s1 = (held s)(r \<mapsto> a, w \<mapsto> b)))"
    using p P(1) pipe_law [of s res s1] by (auto split: if_splits)
  define out where "out = (case res of None \<Rightarrow> output | Some (r, w) \<Rightarrow> w)"
  define nxt where "nxt = (case res of None \<Rightarrow> - 1 | Some (r, w) \<Rightarrow> r)"
  have d: "(case res of None \<Rightarrow> (- 1, output) | Some (r, w) \<Rightarrow> (r, w)) = (nxt, out)"
    by (simp add: out_def nxt_def split: option.splits prod.splits)
  obtain started s2 where r: "call_run calls argv \<lparr>opt_stdin = stdin, opt_stdout = out, opt_priority = prio, opt_background = bg,
      opt_stderr = - 1\<rparr> s1 = (started, s2)" by fastforce
  have s2: "good s2" "held s2 = held s1" using run_law [OF _ r] s1 by simp_all
  define s3 where "s3 = (if stdin \<ge> 0 then call_close calls stdin s2 else s2)"
  define s4 where "s4 = (if out \<ge> 0 \<and> out \<noteq> output then call_close calls out s3 else s3)"
  obtain ps s5 where t: "start_stages calls prio bg output nxt stages s4 = (ps, s5)" by fastforce
  have e: "pids = started # ps" "s' = s5"
    using P(6) t by (simp_all add: p d r flip: s3_def s4_def)
  have in1: "0 \<le> stdin \<Longrightarrow> held s1 stdin \<noteq> None" using s1 P(2) by (auto split: option.splits)
  have s3: "good s3 \<and> held s3 = (if 0 \<le> stdin then (held s1)(stdin := None) else held s1)"
    using s2 in1 close_law [of s2 stdin] by (simp add: s3_def)
  define h where "h = (if 0 \<le> stdin then (held s)(stdin := None) else held s)"
  have s4: "good s4 \<and> (if res = None then held s4 = h else 0 \<le> nxt \<and> h nxt = None \<and> (\<exists>a. held s4 = h(nxt \<mapsto> a)))"
  proof (cases res)
    case None
    then show ?thesis using s3 s1 by (simp add: s4_def out_def h_def)
  next
    case (Some rw)
    obtain x y where rw: "rw = (x, y)" by fastforce
    obtain a b where ab: "held s1 = (held s)(x \<mapsto> a, y \<mapsto> b)" "0 \<le> x" "0 \<le> y" "x \<noteq> y" "held s x = None" "held s y = None"
      using s1 Some rw by auto
    have "0 \<le> stdin \<longrightarrow> stdin \<noteq> x \<and> stdin \<noteq> y" "y \<noteq> output" using P(2,3) ab by auto
    then have s3h: "held s3 = h(x \<mapsto> a, y \<mapsto> b)" "h x = None" "h y = None"
      using s3 ab by (auto simp: h_def fun_eq_iff)
    then have "held s3 y \<noteq> None" by simp
    moreover have "h(x \<mapsto> a, y := None) = h(x \<mapsto> a)" using s3h(3) ab(4) by (auto simp: fun_eq_iff)
    ultimately have "good (call_close calls y s3) \<and> held (call_close calls y s3) = h(x \<mapsto> a)"
      using conjunct1 [OF s3] close_law [of s3 y] s3h(1) by (metis fun_upd_upd)
    moreover have "s4 = call_close calls y s3" "nxt = x" "res \<noteq> None"
      using \<open>0 \<le> stdin \<longrightarrow> stdin \<noteq> x \<and> stdin \<noteq> y\<close> \<open>y \<noteq> output\<close> ab Some rw by (simp_all add: s4_def out_def nxt_def)
    ultimately show ?thesis using s3h(2) ab(2) by auto
  qed
  show ?case
  proof (cases "stages = []")
    case True
    then have "res = None" using p by auto
    then show ?thesis using s4 t True e by (simp add: h_def)
  next
    case False
    have ho: "h output \<noteq> None" if "0 \<le> output" using that P(3,4) by (auto simp: h_def)
    have out4: "held s4 output \<noteq> None" if "0 \<le> output" using that ho s4 by (auto split: if_splits)
    have res: "res \<noteq> None" if "0 \<le> nxt" using that by (cases res) (simp_all add: nxt_def)
    have n4: "held s4 nxt \<noteq> None \<and> nxt \<noteq> output" if "0 \<le> nxt"
      using that s4 ho res [OF that] by auto
    have "good s5 \<and> held s5 = (if 0 \<le> nxt then (held s4)(nxt := None) else held s4) \<and> length ps = length stages"
      using Cons.IH [of s4 nxt ps] n4 conjunct1 [OF s4] t e(2) False out4 by blast
    then show ?thesis using s4 e by (auto simp: h_def nxt_def split: if_splits)
  qed
qed simp

lemma sh_open_ok:
  "good s \<Longrightarrow> sh_open calls name mode s = (fd, s') \<Longrightarrow>
   good s' \<and> (if fd < 0 then held s' = held s else name \<noteq> None \<and> held s fd = None \<and> (\<exists>h. held s' = (held s)(fd \<mapsto> h)))"
  using open_law [of s _ mode fd s'] by (auto simp: sh_open_def split: option.splits)

lemma pipeline_keeps_descriptors:
  assumes "good s" "p_stages p \<noteq> []" "sh_run_pipeline calls p prio s = (r, s')"
  shows "good s' \<and> held s' = held s \<and> (\<forall>pids. r = Started pids \<longrightarrow> length pids = length (p_stages p))"
proof -
  obtain found s1 where f: "find_programs calls (p_stages p) s = (found, s1)" by fastforce
  have s1: "good s1" "held s1 = held s" using find_programs_ok [OF assms(1) f] by simp_all
  obtain input s2 where i: "sh_open calls (p_input p) 0 s1 = (input, s2)" by fastforce
  define m :: u32 where "m = (if p_append p then 2 else 1)"
  obtain outp s3 where o: "sh_open calls (p_output p) m s2 = (outp, s3)" by fastforce
  obtain pids s4 where st: "start_stages calls prio (p_background p) outp input (p_stages p) s3 = (pids, s4)" by fastforce
  note s2 = sh_open_ok [OF s1(1) i] and s3 = sh_open_ok [OF conjunct1 [OF sh_open_ok [OF s1(1) i]] o]
  have in3: "0 \<le> input \<Longrightarrow> held s3 input \<noteq> None \<and> input \<noteq> outp" using s2 s3 by (auto split: if_splits)
  have out3: "0 \<le> outp \<Longrightarrow> held s3 outp \<noteq> None" using s3 by auto
  have s4: "good s4 \<and> held s4 = (if 0 \<le> input then (held s3)(input := None) else held s3) \<and> length pids = length (p_stages p)"
    using start_stages_ok [OF conjunct1 [OF s3] _ out3 _ assms(2) st] in3 by blast
  show ?thesis
  proof (cases found)
    case (Some name)
    then show ?thesis using assms(3) s1 by (auto simp: sh_run_pipeline_def f)
  next
    case None
    have e: "(r, s') = (if p_input p \<noteq> None \<and> input < 0 then (File_error (the (p_input p)) input, s2)
        else if p_output p \<noteq> None \<and> outp < 0 then (File_error (the (p_output p)) outp, if input \<ge> 0 then call_close calls input s3 else s3)
        else (Started pids, if outp \<ge> 0 then call_close calls outp s4 else s4))"
      using assms(3) unfolding sh_run_pipeline_def f None i m_def [symmetric] o st prod.case option.case by (rule sym)
    consider "p_input p \<noteq> None \<and> input < 0" | "\<not> (p_input p \<noteq> None \<and> input < 0)" "p_output p \<noteq> None \<and> outp < 0"
      | "\<not> (p_input p \<noteq> None \<and> input < 0)" "\<not> (p_output p \<noteq> None \<and> outp < 0)" by blast
    then show ?thesis
    proof cases
      case 1
      then show ?thesis using e s1 s2 by auto
    next
      case 2
      then have h3: "held s3 = held s2" "good s3" and r: "r = File_error (the (p_output p)) outp" using s3 e by auto
      show ?thesis
      proof (cases "input < 0")
        case True
        then show ?thesis using e 2 h3 s1 s2 r by auto
      next
        case False
        then obtain h where h: "held s2 = (held s)(input \<mapsto> h)" "held s input = None" using s1 s2 by auto
        have "s' = call_close calls input s3" using e 2 False by simp
        then show ?thesis using h3 h r close_law [of s3 input] by (simp add: fun_upd_idem)
      qed
    next
      case 3
      have out4: "0 \<le> outp \<Longrightarrow> held s4 outp \<noteq> None" using s4 in3 out3 by auto
      have "r = Started pids" "s' = (if outp \<ge> 0 then call_close calls outp s4 else s4)" using e 3 by (auto split: if_splits)
      moreover have "(if outp \<ge> 0 then (held s4)(outp := None) else held s4) = held s"
      proof (cases "input < 0")
        case True
        then have "held s4 = held s3" "held s2 = held s" using s1 s2 s4 by simp_all
        then show ?thesis using s3 by (auto simp: fun_upd_idem)
      next
        case False
        then obtain h where h: "held s2 = (held s)(input \<mapsto> h)" "held s input = None" using s1 s2 by auto
        have "held s4 = (held s3)(input := None)" using False s4 by simp
        show ?thesis
        proof (cases "outp < 0")
          case True
          then show ?thesis using s3 h \<open>held s4 = _\<close> by (simp add: fun_upd_idem)
        next
          case False
          then obtain b where "held s3 = (held s2)(outp \<mapsto> b)" "held s2 outp = None" using s3 by auto
          then show ?thesis using h \<open>held s4 = _\<close> False by (auto split: if_splits)
        qed
      qed
      ultimately show ?thesis using s4 close_law [of s4 outp] out4 by auto
    qed
  qed
qed

end

section \<open>The kernel provides it\<close>

text \<open>The calls of the running task: the library functions \<^verbatim>\<open>open\<close>, \<^verbatim>\<open>close\<close>, \<^verbatim>\<open>pipe\<close> and \<^verbatim>\<open>run\<close> hand their
  arguments to the system calls, whose bodies these are. They start from the strings themselves: the copies from the
  memory of the shell (\<^verbatim>\<open>sys_copy_string\<close>, the loop of \<^verbatim>\<open>sys_start\<close> over the arguments) are left out. A line of the shell
  has at most 127 bytes and 16 words, which always fit the kernel's 16 arguments and 1024 bytes; the bound on the
  length of a path and its resolution against the working directory are here.\<close>

definition run_program :: "bytes list \<Rightarrow> run_opts \<Rightarrow> 'a system_scheme \<Rightarrow> int \<times> 'a system_scheme" where
  "run_program argv opts k =
    (if opt_priority opts < 1 \<or> opt_priority opts > TASK_PRIORITY_USER_MAX then (err_code INVALID_ARG_ERROR, k)
     else case (opt_handle (opt_stdin opts) k, opt_handle (opt_stdout opts) k, opt_handle (opt_stderr opts) k) of
            (Some a, Some b, Some c) \<Rightarrow>
              if length (hd argv) > MAX_PATH_LEN then (err_code INVALID_PATH_ERROR, k)
              else (case task_find_program (hd argv) k of
                 (k, None) \<Rightarrow> (err_code NOT_FOUND_ERROR, k)
               | (k, Some path) \<Rightarrow>
                   (case task_spawn path argv (word_of_int (opt_priority opts)) (if opt_background opts then 1 else 0) a b c k of
                      (k, Inl e) \<Rightarrow> (err_code e, k)
                    | (k, Inr p) \<Rightarrow> (p, k)))
          | _ \<Rightarrow> (err_code INVALID_ARG_ERROR, k))"

definition open_file_at :: "bytes \<Rightarrow> u32 \<Rightarrow> 'a system_scheme \<Rightarrow> int \<times> 'a system_scheme" where
  "open_file_at path mode k =
    (case (if length path > MAX_PATH_LEN then None else task_resolve_path path k) of
       None \<Rightarrow> (err_code INVALID_PATH_ERROR, k)
     | Some full \<Rightarrow>
         if mode > 2 then (err_code INVALID_ARG_ERROR, k)
         else (case open_path full mode k of (k, Inl e) \<Rightarrow> (err_code e, k) | (k, Inr fd) \<Rightarrow> (fd, k)))"

definition kernel_calls :: "'a system_scheme sh_calls" where
  "kernel_calls =
    \<lparr>call_open = open_file_at,
     call_close = (\<lambda>fd k. fst (task_fd_close fd k)),
     call_pipe = (\<lambda>k. case open_pipe k of (k, Inl e) \<Rightarrow> (None, k) | (k, Inr (r, w)) \<Rightarrow> (Some (int r, int w), k)),
     call_run = run_program\<rparr>"

text \<open>The descriptors of the running task, and what is needed to speak of them.\<close>

definition task_fds :: "'a kernel_scheme \<Rightarrow> int \<Rightarrow> u32 option" where
  "task_fds k fd = (if 0 \<le> fd \<and> fd < int TASK_MAX_FDS \<and> fds (running_task k) ! nat fd \<noteq> 0
                    then Some (fds (running_task k) ! nat fd) else None)"

definition user_running :: "'a kernel_scheme \<Rightarrow> bool" where
  "user_running k \<longleftrightarrow> task_running k < length (task_table k) \<and> length (fds (running_task k)) = TASK_MAX_FDS
     \<and> \<not> is_kernel (running_task k) \<and> t_state (running_task k) \<noteq> TASK_UNUSED"

text \<open>What the calls leave alone of the running task.\<close>

definition own_frame :: "'a kernel_scheme \<Rightarrow> 'a kernel_scheme \<Rightarrow> bool" where
  "own_frame k k' \<longleftrightarrow> task_running k' = task_running k \<and> length (task_table k') = length (task_table k)
     \<and> fds (running_task k') = fds (running_task k) \<and> is_kernel (running_task k') = is_kernel (running_task k)
     \<and> (t_state (running_task k) \<noteq> TASK_UNUSED \<longrightarrow> t_state (running_task k') \<noteq> TASK_UNUSED)"

lemma own_frame_refl [simp]: "own_frame k k"
  by (simp add: own_frame_def)

lemma own_frame_trans [trans]: "own_frame k k1 \<Longrightarrow> own_frame k1 k2 \<Longrightarrow> own_frame k k2"
  unfolding own_frame_def by (elim conjE, intro conjI) simp_all

lemma own_frame_ok: "own_frame k k' \<Longrightarrow> user_running k \<Longrightarrow> user_running k' \<and> task_fds k' = task_fds k"
  by (auto simp: own_frame_def user_running_def task_fds_def fun_eq_iff)

lemma own_frame_table: "task_table k' = task_table k \<Longrightarrow> task_running k' = task_running k \<Longrightarrow> own_frame k k'"
  by (simp add: own_frame_def)

lemma own_frame_more: "mm_state.more k' = mm_state.more k \<Longrightarrow> own_frame k k'"
  using more_kernel own_frame_table by blast

lemma own_frame_other: "i \<noteq> task_running k \<Longrightarrow> own_frame k (upd_task i f k)"
  by (simp add: own_frame_def upd_task_def)

lemma own_frame_upd: "(\<And>t. fds (f t) = fds t \<and> is_kernel (f t) = is_kernel t \<and> t_state (f t) \<noteq> TASK_UNUSED) \<Longrightarrow> own_frame k (upd_task i f k)"
proof (cases "i = task_running k \<and> i < length (task_table k)")
  case True
  assume "\<And>t. fds (f t) = fds t \<and> is_kernel (f t) = is_kernel t \<and> t_state (f t) \<noteq> TASK_UNUSED"
  then show ?thesis using True by (simp add: own_frame_def upd_task_def)
next
  case False
  then show ?thesis using own_frame_other [of i k f] upd_task_outside [of i k f] by (cases "i = task_running k") simp_all
qed

lemma own_frame_wake: "own_frame k (sched_wake i k)"
  using own_frame_upd [of "t_state_update (\<lambda>_. TASK_READY)" k i] by (simp add: sched_wake_def Let_def own_frame_def)

lemma own_frame_wake_channel: "own_frame k (task_wake_channel ch k)"
proof -
  have "own_frame k (fold (wake_waiter ch) xs k)" for xs
    by (induction xs arbitrary: k) (auto simp: wake_waiter_def intro: own_frame_trans own_frame_wake)
  then show ?thesis by (simp add: task_wake_channel_def)
qed

lemma own_frame_fields [simp]:
  "own_frame k (k\<lparr>heap := h\<rparr>)" "own_frame k (set_handle p x k)" "own_frame k (free_handle p k)" "own_frame k (free_pipe p k)"
  "own_frame k (set_pipe p y k)" "own_frame k (pipe_free_if_unused p k)" "own_frame k (handle_ref p k)"
  by (simp_all add: own_frame_def set_handle_def free_handle_def free_pipe_def set_pipe_def pipe_free_if_unused_def handle_ref_def)

lemma own_frame_close_end: "own_frame k (pipe_close_reader p k)" "own_frame k (pipe_close_writer p k)"
  unfolding pipe_close_reader_def pipe_close_writer_def by (rule own_frame_trans [OF own_frame_trans [OF own_frame_fields(5) own_frame_wake_channel] own_frame_fields(6)])+

lemma own_frame_files: "own_frame k ((k :: 'a system_scheme)\<lparr>files := v\<rparr>)"
  by (simp add: own_frame_def)

lemma own_frame_handle_close: "own_frame k (handle_close h k)"
proof (cases "h = handle_terminal")
  case False
  let ?x = "(handle_at k h)\<lparr>h_refs := h_refs (handle_at k h) - 1\<rparr>"
  let ?k1 = "set_handle h ?x k"
  have "own_frame ?k1 (case h_type ?x of HANDLE_FILE \<Rightarrow> ?k1\<lparr>files := snd (fclose (file_fd ?x) (files ?k1))\<rparr>
       | HANDLE_PIPE_READ \<Rightarrow> pipe_close_reader (h_pipe ?x) ?k1 | HANDLE_PIPE_WRITE \<Rightarrow> pipe_close_writer (h_pipe ?x) ?k1
       | HANDLE_TERMINAL \<Rightarrow> ?k1)" (is "own_frame _ ?k2")
    by (cases "h_type ?x") (simp_all only: handle_type.case own_frame_files own_frame_close_end own_frame_refl)
  then have "own_frame k (free_handle h ?k2)"
    by (rule own_frame_trans [OF own_frame_trans [OF own_frame_fields(2)] own_frame_fields(3)])
  then show ?thesis using False by (simp add: handle_close_def Let_def)
qed (simp add: handle_close_def)

lemma own_frame_new: "own_frame k (fst (handle_new ty k))" "own_frame k (fst (handle_new_file fd k))" "own_frame k (fst (pipe_new k))"
  by (simp_all add: own_frame_def handle_new_def handle_new_file_def pipe_new_def set_handle_def set_pipe_def case_prod_beta Let_def)

lemma own_frame_new_pipe: "own_frame k (fst (handle_new_pipe k))"
proof -
  obtain k1 p where p: "pipe_new k = (k1, p)" by fastforce
  obtain k2 r where r: "handle_new HANDLE_PIPE_READ k1 = (k2, r)" by fastforce
  obtain k3 w where w: "handle_new HANDLE_PIPE_WRITE k2 = (k3, w)" by fastforce
  have "own_frame k k3"
    using own_frame_new(3) [of k, unfolded p fst_conv] own_frame_new(1) [of k1 HANDLE_PIPE_READ, unfolded r fst_conv]
      own_frame_new(1) [of k2 HANDLE_PIPE_WRITE, unfolded w fst_conv] own_frame_trans by blast
  moreover have "own_frame k3 (fst (handle_new_pipe k))"
    unfolding handle_new_pipe_def p r w Let_def prod.case
    by (simp add: own_frame_def set_handle_def free_handle_def free_pipe_def)
  ultimately show ?thesis by (rule own_frame_trans)
qed

lemma handle_new_pipe_Inr: "handle_new_pipe k = (k', Inr (r, w)) \<Longrightarrow> r \<noteq> 0 \<and> w \<noteq> 0"
  by (auto simp: handle_new_pipe_def Let_def split: prod.splits if_splits)

text \<open>A descriptor that is installed was free.\<close>

lemma install_fd:
  assumes "user_running k" "task_fd_install h k = (k', res)" "h \<noteq> 0"
  shows "user_running k' \<and> (case res of Inl e \<Rightarrow> k' = k | Inr fd \<Rightarrow> task_fds k (int fd) = None \<and> task_fds k' = (task_fds k)(int fd \<mapsto> h))"
proof (cases res)
  case (Inl e)
  then show ?thesis using assms by (auto simp: task_fd_install_def split: option.splits)
next
  case (Inr fd)
  then have f: "free_fd_loop (fds (running_task k)) [0..<TASK_MAX_FDS] = Some fd" and k': "k' = set_fd (task_running k) fd h k"
    using assms(2) by (auto simp: task_fd_install_def split: option.splits)
  have "fd < TASK_MAX_FDS" "fds (running_task k) ! fd = 0" using free_fd_loop_spec(1) [OF f] by auto
  then show ?thesis using assms(1,3) Inr
    by (auto simp: k' user_running_def task_fds_def set_fd_def upd_task_def fun_eq_iff nth_list_update)
qed

lemma close_fd:
  assumes "user_running k" "task_fds k fd \<noteq> None"
  shows "user_running (fst (task_fd_close fd k)) \<and> task_fds (fst (task_fd_close fd k)) = (task_fds k)(fd := None)"
proof -
  have g: "task_fd_get fd k \<noteq> 0" "0 \<le> fd" "fd < int TASK_MAX_FDS"
    using assms by (auto simp: task_fds_def task_fd_get_def user_running_def split: if_splits)
  let ?k = "set_fd (task_running k) (nat fd) 0 k"
  have "fst (task_fd_close fd k) = handle_close (task_fd_get fd k) ?k" using g assms(1) by (simp add: task_fd_close_def user_running_def)
  moreover have "user_running ?k \<and> task_fds ?k = (task_fds k)(fd := None)"
    using assms(1) g by (auto simp: user_running_def task_fds_def set_fd_def upd_task_def fun_eq_iff nth_list_update)
  ultimately show ?thesis using own_frame_ok [OF own_frame_handle_close] by metis
qed

lemma open_fd:
  assumes "user_running k" "open_path path mode k = (k', res)"
  shows "user_running k' \<and> (case res of Inl e \<Rightarrow> task_fds k' = task_fds k
     | Inr fd \<Rightarrow> 0 \<le> fd \<and> task_fds k fd = None \<and> (\<exists>h. task_fds k' = (task_fds k)(fd \<mapsto> h)))"
proof -
  obtain fd v where o: "fopen (clock k) path (fopen_mode mode) (files k) = (fd, v)" by fastforce
  let ?k = "k\<lparr>files := v\<rparr>"
  note K = own_frame_ok [OF own_frame_files assms(1), of v]
  obtain k1 h where n: "handle_new_file fd ?k = (k1, h)" by fastforce
  note K1 = own_frame_ok [OF own_frame_new(2) [of ?k fd, unfolded n fst_conv] conjunct1 [OF K]]
  show ?thesis
  proof (cases "fd = 0 \<or> h = 0")
    case True
    then show ?thesis
      using assms(2) K own_frame_ok [OF own_frame_files conjunct1 [OF K1]] K1
      by (auto simp: open_path_def o install_file_def n split: if_splits)
  next
    case False
    obtain k2 r where i: "task_fd_install h k1 = (k2, r)" by fastforce
    note I = install_fd [OF conjunct1 [OF K1] i]
    show ?thesis
      using assms(2) False K K1 I own_frame_ok [OF own_frame_handle_close, of k2 h]
      by (auto simp: open_path_def o install_file_def n i split: sum.splits)
  qed
qed

lemma pipe_fds:
  assumes "user_running k" "open_pipe k = (k', res)"
  shows "user_running k' \<and> (case res of Inl e \<Rightarrow> task_fds k' = task_fds k
     | Inr (r, w) \<Rightarrow> r \<noteq> w \<and> task_fds k (int r) = None \<and> task_fds k (int w) = None
         \<and> (\<exists>a b. task_fds k' = (task_fds k)(int r \<mapsto> a, int w \<mapsto> b)))"
proof -
  obtain k1 n where n: "handle_new_pipe k = (k1, n)" by fastforce
  note K1 = own_frame_ok [OF own_frame_new_pipe [of k, unfolded n fst_conv] assms(1)]
  show ?thesis
  proof (cases n)
    case (Inl e)
    then show ?thesis using assms(2) n K1 by (auto simp: open_pipe_def)
  next
    case (Inr rw)
    obtain r w where rw: "rw = (r, w)" by fastforce
    have nz: "r \<noteq> 0" "w \<noteq> 0" using handle_new_pipe_Inr n Inr rw by blast+
    obtain k2 a where a: "task_fd_install r k1 = (k2, a)" by fastforce
    note A = install_fd [OF conjunct1 [OF K1] a nz(1)]
    show ?thesis
    proof (cases a)
      case (Inl e)
      then have "k' = handle_close w (handle_close r k1)" "res = Inl e"
        using assms(2) A by (simp_all add: open_pipe_def n Inr rw a)
      then show ?thesis
        using own_frame_ok [OF own_frame_trans [OF own_frame_handle_close own_frame_handle_close] conjunct1 [OF K1]] K1 by simp
    next
      case rfd: (Inr rfd)
      obtain k3 b where b: "task_fd_install w k2 = (k3, b)" by fastforce
      note B = install_fd [OF conjunct1 [OF A] b nz(2)]
      show ?thesis
      proof (cases b)
        case (Inl e)
        let ?k = "fst (task_fd_close (int rfd) k2)"
        have k': "k' = handle_close w ?k" "res = Inl e" using assms(2) B Inl by (simp_all add: open_pipe_def n Inr rw a rfd b)
        have "user_running ?k \<and> task_fds ?k = task_fds k1"
          using close_fd [of k2 "int rfd"] A rfd by (simp add: fun_upd_idem)
        then show ?thesis using k' K1 own_frame_ok [OF own_frame_handle_close, of ?k w] by simp
      next
        case wfd: (Inr wfd)
        have "k' = k3" "res = Inr (rfd, wfd)" using assms(2) by (simp_all add: open_pipe_def n Inr rw a rfd b wfd)
        then show ?thesis using A B K1 rfd wfd by (auto split: if_splits)
      qed
    qed
  qed
qed

section \<open>Starting a program\<close>

text \<open>Everything but the task of the new program keeps what it was.\<close>

definition only_task :: "nat \<Rightarrow> 'a kernel_scheme \<Rightarrow> 'a kernel_scheme \<Rightarrow> bool" where
  "only_task i k k' \<longleftrightarrow> task_running k' = task_running k \<and> length (task_table k') = length (task_table k)
     \<and> (\<forall>j. j \<noteq> i \<longrightarrow> task_at k' j = task_at k j)"

lemma only_task_refl [simp]: "only_task i k k"
  by (simp add: only_task_def)

lemma only_task_trans [trans]: "only_task i k k1 \<Longrightarrow> only_task i k1 k2 \<Longrightarrow> only_task i k k2"
  by (simp add: only_task_def)

lemma only_task_table: "task_table k' = task_table k \<Longrightarrow> task_running k' = task_running k \<Longrightarrow> only_task i k k'"
  by (simp add: only_task_def)

lemma only_task_more: "mm_state.more k' = mm_state.more k \<Longrightarrow> only_task i k k'"
  using more_kernel only_task_table by blast

lemma only_task_upd [simp]: "only_task i k (upd_task i f k)"
  by (simp add: only_task_def upd_task_def)

lemma only_task_own: "only_task i k k' \<Longrightarrow> i \<noteq> task_running k \<Longrightarrow> own_frame k k'"
  by (simp add: only_task_def own_frame_def)

lemma only_task_simps [simp]:
  "only_task i k (k\<lparr>heap := h\<rparr>)" "only_task i k (handle_ref p k)" "only_task i k (set_fd i fd x k)"
  "only_task i q (q\<lparr>files := v\<rparr>)" "only_task i q (q\<lparr>kbd := kb\<rparr>)" "only_task i q (q\<lparr>next_pid := n\<rparr>)"
  by (simp_all add: only_task_def handle_ref_def set_handle_def set_fd_def upd_task_def)

lemma only_task_new_user: "only_task i k (fst (page_dir_new_user k d a))"
  by (rule only_task_more)
    (simp add: page_dir_new_user_def calloc_dir_def calloc_table_def free_table_def free_dir_def Let_def split: prod.splits)

lemma fold_more: "(\<And>x m. mm_state.more (f x m) = mm_state.more m) \<Longrightarrow> mm_state.more (fold f xs m) = mm_state.more m"
  by (induction xs arbitrary: m) simp_all

lemma only_task_free: "only_task i k (task_free i k)"
proof -
  let ?k = "page_dir_free_user (task_free_user_pages k (dir (task_at k i))) (dir (task_at k i))"
  have "mm_state.more (task_free_user_pages m d) = mm_state.more m" for m :: "'a kernel_scheme" and d
    by (auto simp: task_free_user_pages_def Let_def free_page_def intro!: fold_more split: option.splits)
  moreover have "mm_state.more (page_dir_free_user m d) = mm_state.more m" for m :: "'a kernel_scheme" and d
    by (auto simp: page_dir_free_user_def Let_def free_table_def free_dir_def fold_more split: option.splits)
  ultimately have "only_task i k ?k" by (intro only_task_more) simp
  then show ?thesis
    by (auto simp: task_free_def Let_def intro!: only_task_trans [OF _ only_task_upd] only_task_trans [OF _ only_task_simps(1)])
qed

text \<open>The operations as rules: \<open>only_task\<close> goes on through each of them.\<close>

lemma only_task_rules:
  assumes "only_task i k k1"
  shows "only_task i k (upd_task i f k1)" "only_task i k (k1\<lparr>heap := h\<rparr>)" "only_task i k (handle_ref p k1)" "only_task i k (set_fd i fd x k1)"
    "only_task i k (fst (page_dir_new_user k1 d a))" "only_task i k (task_free i k1)"
    "only_task i k (fst (task_copy_to_user k1 d va src len w))"
  by (rule only_task_trans [OF assms only_task_upd] only_task_trans [OF assms only_task_simps(1)] only_task_trans [OF assms only_task_simps(2)]
      only_task_trans [OF assms only_task_simps(3)] only_task_trans [OF assms only_task_new_user] only_task_trans [OF assms only_task_free]
      only_task_trans [OF assms only_task_more [OF copy_more]])+

lemma only_task_rules_system:
  assumes "only_task i k k1"
  shows "only_task i k (k1\<lparr>files := v\<rparr>)" "only_task i k (k1\<lparr>kbd := kb\<rparr>)" "only_task i k (k1\<lparr>next_pid := n\<rparr>)"
  by (rule only_task_trans [OF assms only_task_simps(4)] only_task_trans [OF assms only_task_simps(5)]
      only_task_trans [OF assms only_task_simps(6)])+

lemma only_task_elf: "only_task i k k1 \<Longrightarrow> only_task i k (fst (elf_load bs n mn mx (\<lambda>k. task_copy_to_user k d) k1))"
proof -
  have seg: "only_task i k (fst (elf_load_segment (\<lambda>k. task_copy_to_user k d) bs ph k1))" if "only_task i k k1" for ph k1
    using that by (auto simp: elf_load_segment_def Let_def case_prod_beta only_task_rules split: option.splits)
  have loop: "only_task i k k1 \<Longrightarrow> only_task i k (fst (elf_load_loop (\<lambda>k. task_copy_to_user k d) bs n mn mx is e l k1))" for "is" e l k1
  proof (induction "is" arbitrary: e l k1)
    case (Cons j js)
    then show ?case using seg [OF Cons.prems, of "program_header bs j"]
      by (auto simp: Let_def case_prod_beta split: option.splits)
  qed simp
  assume "only_task i k k1"
  then show ?thesis
    using loop [of k1] by (auto simp: elf_load_def case_prod_beta split: option.splits sum.splits)
qed

lemma only_task_load: "only_task i k (fst (task_load i path k))"
proof -
  obtain fd v where o: "fopen (clock k) path (str ''r'') (files k) = (fd, v)" by fastforce
  let ?k = "k\<lparr>files := v\<rparr>"
  have z: "only_task i k ?k" by simp
  show ?thesis
  proof (cases "fd = 0")
    case False
    show ?thesis
    proof (cases "fstat fd v")
      case (Inl e)
      then show ?thesis using False z by (simp add: task_load_def o Let_def only_task_rules only_task_rules_system)
    next
      case (Inr st)
      obtain k1 d where d: "page_dir_new_user ?k (kernel_page_dir k) USER_CODE_ADDR = (k1, d)" by fastforce
      have k1: "only_task i k k1" using only_task_rules(5) [OF z, of "kernel_page_dir k" USER_CODE_ADDR] by (simp only: d fst_conv)
      let ?k2 = "upd_task i (dir_update (\<lambda>_. d)) k1"
      obtain h buf where b: "heap_malloc (heap k1) (stat_filesize st) = (h, buf)" by fastforce
      let ?k3 = "?k2\<lparr>heap := h\<rparr>"
      have k3: "only_task i k ?k3" by (intro only_task_rules(1,2) k1)
      obtain r w where r: "fread (stat_filesize st) 1 fd (files ?k2) = (r, w)" by fastforce
      let ?k4 = "?k3\<lparr>files := w\<rparr>"
      have k4: "only_task i k ?k4" by (rule only_task_rules_system(1) [OF k3])
      note S = only_task_rules [OF z] only_task_rules [OF k1] only_task_rules only_task_rules_system [OF k3] only_task_rules_system
      note E = task_load_def o Let_def Inr d b
      consider "stat_filesize st = 0" | "stat_filesize st \<noteq> 0" "d = 0 \<or> buf = 0" | (ok) "stat_filesize st \<noteq> 0" "d \<noteq> 0" "buf \<noteq> 0" by blast
      then show ?thesis
      proof cases
        case 1
        then show ?thesis using False z by (simp add: E S)
      next
        case 2
        then show ?thesis using False k3 by (auto simp: E intro!: only_task_rules only_task_rules_system k1)
      next
        case ok
        show ?thesis
        proof (cases "\<exists>bs. r = Inr (1, bs)")
          case no: False
          then show ?thesis using False k4 ok r
            by (cases r) (auto simp: E intro!: only_task_rules only_task_rules_system k1)
        next
          case True
          then obtain bs where bs: "r = Inr (1, bs)" by blast
          obtain k5 el where el: "elf_load bs (stat_filesize st) USER_CODE_ADDR USER_HEAP_LIMIT (\<lambda>k. task_copy_to_user k d) ?k4 = (k5, el)"
            by fastforce
          have k5: "only_task i k k5" using only_task_elf [OF k4] el by (metis fst_conv)
          show ?thesis using False ok r bs el
            by (cases el) (auto simp: E case_prod_beta intro!: only_task_rules only_task_rules_system k5)
        qed
      qed
    qed
  qed (use z in \<open>simp add: task_load_def o\<close>)
qed

lemma only_task_args: "only_task i k k1 \<Longrightarrow> only_task i k (fst (push_args_loop d as sp ps k1))"
  by (induction "as" arbitrary: sp ps k1) (auto simp: Let_def only_task_rules)

lemma only_task_push: "only_task i k k1 \<Longrightarrow> only_task i k (fst (task_push_args i argv k1))"
  using only_task_args [of i k k1 "dir (task_at k1 i)" "rev argv" USER_STACK_TOP "[]"]
  by (auto simp: task_push_args_def Let_def case_prod_beta only_task_rules split: option.splits)

lemma only_task_stack: "only_task i k k1 \<Longrightarrow> only_task i k (fst (task_alloc_kernel_stack i k1))"
  by (auto simp: task_alloc_kernel_stack_def Let_def case_prod_beta only_task_rules)

lemma only_task_start:
  assumes "only_task i k k1"  "i \<noteq> task_running k"
  shows "own_frame k (task_start i flags a b c k1)"
proof -
  note R = only_task_rules only_task_rules_system
  have inh: "only_task i k (inherit_std i fd h q)" if "only_task i k q" for q :: "'a system_scheme" and fd h
    using that by (auto simp: inherit_std_def Let_def intro!: R)
  show ?thesis unfolding task_start_def Let_def
    by (rule own_frame_trans [OF only_task_own own_frame_wake], (auto intro!: inh R assms(1)) [1]) (rule assms(2))
qed

lemma unused_loop_Some: "unused_loop k is = Some i \<Longrightarrow> t_state (task_at k i) = TASK_UNUSED"
  by (induction "is") (auto split: if_splits)

lemma own_frame_spawn:
  assumes "t_state (running_task k) \<noteq> TASK_UNUSED"
  shows "own_frame k (fst (task_spawn path argv prio flags a b c k))"
proof (cases "task_alloc (task_name_from_path path) prio False k")
  case (Pair k1 i)
  show ?thesis
  proof (cases i)
    case None
    then show ?thesis using Pair by (auto simp: task_spawn_def task_alloc_def split: option.splits)
  next
    case (Some j)
    have j: "j \<noteq> task_running k" and k1: "only_task j k k1"
      using Pair Some assms by (auto simp: task_alloc_def split: option.splits dest!: unused_loop_Some intro!: only_task_rules only_task_rules_system)
    obtain k2 r where l: "task_load j path k1 = (k2, r)" by fastforce
    have k2: "only_task j k k2" using only_task_trans [OF k1 only_task_load [of j k1 path, unfolded l fst_conv]] .
    obtain k3 s where p: "task_push_args j argv k2 = (k3, s)" by fastforce
    have k3: "only_task j k k3" using only_task_push [OF k2, of argv] p by simp
    obtain k4 u where st: "task_alloc_kernel_stack j k3 = (k4, u)" by fastforce
    have k4: "only_task j k k4" using only_task_stack [OF k3] st by (metis fst_conv)
    show ?thesis
      using only_task_own [OF only_task_rules(6) [OF k2] j] only_task_own [OF only_task_rules(6) [OF k3] j]
        only_task_own [OF only_task_rules(6) [OF k4] j] only_task_start [OF k4 j]
      by (auto simp: task_spawn_def Pair Some l p st split: option.splits sum.splits)
  qed
qed

lemma own_frame_run: "user_running k \<Longrightarrow> own_frame k (snd (run_program argv opts k))"
proof -
  assume k: "user_running k"
  obtain k1 r where f: "task_find_program (hd argv) k = (k1, r)" by fastforce
  have k1: "own_frame k k1" using f by (auto simp: task_find_program_def Let_def own_frame_files split: if_splits prod.splits)
  have "t_state (running_task k1) \<noteq> TASK_UNUSED" using own_frame_ok [OF k1 k] by (simp add: user_running_def)
  then have "own_frame k1 (fst (task_spawn path argv prio flags a b c k1))" for path prio flags a b c by (rule own_frame_spawn)
  then have "own_frame k (fst (task_spawn path argv prio flags a b c k1))" for path prio flags a b c by (rule own_frame_trans [OF k1])
  then show ?thesis using k1
    by (auto simp: run_program_def f case_prod_beta split: option.splits sum.splits)
qed

interpretation moos_shell: shell_kernel kernel_calls task_fds user_running
proof
  fix k k' :: "'a system_scheme" and path mode fd
  assume k: "user_running k" and o: "call_open kernel_calls path mode k = (fd, k')"
  show "user_running k' \<and> (if fd < 0 then task_fds k' = task_fds k else task_fds k fd = None \<and> (\<exists>h. task_fds k' = (task_fds k)(fd \<mapsto> h)))"
  proof (cases "fd = err_code INVALID_PATH_ERROR \<and> k' = k \<or> fd = err_code INVALID_ARG_ERROR \<and> k' = k")
    case True
    then show ?thesis using k by auto
  next
    case False
    then obtain full where f: "(case open_path full mode k of (k, Inl e) \<Rightarrow> (err_code e, k) | (k, Inr fd) \<Rightarrow> (fd, k)) = (fd, k')"
      using o by (auto simp: kernel_calls_def open_file_at_def split: if_splits option.splits)
    obtain k1 r where p: "open_path full mode k = (k1, r)" by fastforce
    have "err_code e < 0" for e by (rule err_code_neg)
    then show ?thesis using open_fd [OF k p] f p by (auto split: sum.splits)
  qed
next
  fix k :: "'a system_scheme" and fd
  assume "user_running k" "task_fds k fd \<noteq> None"
  then show "user_running (call_close kernel_calls fd k) \<and> task_fds (call_close kernel_calls fd k) = (task_fds k)(fd := None)"
    using close_fd by (simp add: kernel_calls_def)
next
  fix k k' :: "'a system_scheme" and res
  assume k: "user_running k" and o: "call_pipe kernel_calls k = (res, k')"
  obtain k1 r where p: "open_pipe k = (k1, r)" by fastforce
  show "user_running k' \<and> (case res of None \<Rightarrow> task_fds k' = task_fds k
      | Some (r, w) \<Rightarrow> 0 \<le> r \<and> 0 \<le> w \<and> r \<noteq> w \<and> task_fds k r = None \<and> task_fds k w = None
          \<and> (\<exists>a b. task_fds k' = (task_fds k)(r \<mapsto> a, w \<mapsto> b)))"
    using pipe_fds [OF k p] o p by (auto simp: kernel_calls_def split: sum.splits) (intro exI, rule refl)
next
  fix k k' :: "'a system_scheme" and argv opts pid
  assume k: "user_running k" and o: "call_run kernel_calls argv opts k = (pid, k')"
  then show "user_running k' \<and> task_fds k' = task_fds k"
    using own_frame_ok [OF own_frame_run [OF k] k, of argv opts] by (simp add: kernel_calls_def)
qed

text \<open>C36. The shell loses and keeps no descriptor: whatever a pipeline does, with every call of the kernel that may fail, the
  shell has the descriptors it had before, on the same handles, and a started pipeline has as many programs as stages.\<close>

theorem shell_keeps_descriptors:
  assumes "user_running k" "p_stages p \<noteq> []" "sh_run_pipeline kernel_calls p prio k = (r, k')"
  shows "user_running k' \<and> task_fds k' = task_fds k \<and> (\<forall>pids. r = Started pids \<longrightarrow> length pids = length (p_stages p))"
  using assms by (rule moos_shell.pipeline_keeps_descriptors)

definition demo_shell :: system where
  "demo_shell = upd_task 0 (t_state_update (\<lambda>_. TASK_RUNNING)) demo_boot"

theorem shell_keeps_descriptors_witness:
  "task_fds (snd (sh_run_pipeline kernel_calls demo_pipeline 10 demo_shell)) = task_fds demo_shell"
proof -
  have "user_running demo_shell" by (simp add: user_running_def demo_shell_def demo_boot_def zero_task_def upd_task_def)
  moreover have "p_stages demo_pipeline \<noteq> []" by (simp add: demo_pipeline_def)
  ultimately show ?thesis
    using shell_keeps_descriptors [of demo_shell demo_pipeline 10 "fst (sh_run_pipeline kernel_calls demo_pipeline 10 demo_shell)"] by simp
qed

end
