(* ===== verification/Spec2Isabelle.thy ===== *)
theory Spec2Isabelle
  imports Prelude Heap Ctype CString PathParser Paging AddressSpace KState Sched Mutex Pipe FatName DiskStream FatTable FatFile FileApi Keyboard Terminal Devices Handle Task Syscall Descriptors Elf Int64 UserSort UserHeap UserFormat Canvas Editor EditorKeys Shell ShellRun
begin

text \<open>
  moOS is a small 32 bit operating system for one x86 processor: a kernel that is not preemptive
  itself (\<^verbatim>\<open>src/kernel\<close>, \<^verbatim>\<open>src/drivers\<close>, \<^verbatim>\<open>src/file_system\<close>, \<^verbatim>\<open>src/libc\<close>) and programs
  that run in ring 3 over its system calls (\<^verbatim>\<open>src/user\<close>). This development models the logic of
  the kernel and of the libraries of the programs. A file name of the C code below is relative to
  \<^verbatim>\<open>src/\<close>; definitions have the names of the C functions, auxiliary ones for the body of a
  loop end in \<open>_loop\<close>.

  \<^bold>\<open>How the parts interact.\<close> An interrupt or a system call enters \<open>interrupt_handler\<close>
  (\<^theory_text>\<open>Syscall\<close>), which calls the drivers, the tick of the scheduler or \<open>syscall_handler\<close>. A system call
  checks its user pointers against the user area, goes through the descriptors of the task
  (\<^theory_text>\<open>Task\<close>) to a handle (\<^theory_text>\<open>Handle\<close>) and from there to the terminal (\<^theory_text>\<open>Terminal\<close>, \<^theory_text>\<open>Keyboard\<close>), a pipe
  (\<^theory_text>\<open>Pipe\<close>) or an open file (\<^theory_text>\<open>FileApi\<close>, over the FAT16 volume of \<^theory_text>\<open>FatFile\<close>, \<^theory_text>\<open>FatTable\<close>,
  \<^theory_text>\<open>FatName\<close> and the disk of \<^theory_text>\<open>DiskStream\<close>). Everything that waits does so on a channel with
  \<open>task_block_on\<close> (\<^theory_text>\<open>Mutex\<close>) and gives the processor away in \<open>schedule\<close> (\<^theory_text>\<open>Sched\<close>). Programs live
  in address spaces (\<^theory_text>\<open>Paging\<close>, \<^theory_text>\<open>AddressSpace\<close>) that \<^theory_text>\<open>Elf\<close> and \<^theory_text>\<open>Task\<close> fill, and all of it is
  allocated from the kernel heap (\<^theory_text>\<open>Heap\<close>).

  \<^bold>\<open>State.\<close> \<open>kernel\<close> (\<^theory_text>\<open>KState\<close>) extends the memory of \<^theory_text>\<open>Paging\<close> by the task table, the
  mutex table, the handles and pipes and the variables of the scheduler; \<open>system\<close> (\<^theory_text>\<open>Handle\<close>) extends it
  by the devices and the open files. Objects that the code allocates are typed: a partial map from
  the address the heap gave to the record of the object. A pointer into a static table is the
  index. Functions over a part of the state are stated for every extension of its record, so they
  run on the whole \<open>system\<close> unchanged.

  \<^bold>\<open>Blocking.\<close> The kernel switches tasks only in \<open>schedule\<close>. A call that blocks is cut
  there: it returns \<open>Switch\<close> with the state after the switch, and a second definition, named
  \<open>_resumed\<close>, is what the call does when its task runs again; \<open>schedule_resumed\<close> (\<^theory_text>\<open>Task\<close>) is the end of
  \<^verbatim>\<open>schedule\<close> itself, which reaps the zombies, and \<open>interrupt_resumed\<close> (\<^theory_text>\<open>Syscall\<close>) runs both and the way
  back to ring 3. Between the two any other task may
  have run; the invariants are those that hold at the cut. Errors are values: \<open>error + 'a\<close>, an option,
  or the negative code as in the C interface (\<open>err_code\<close>). \<open>None\<close> from a call of \<^theory_text>\<open>Handle\<close> upward means
  that the kernel panics or leaves its objects.

  \<^bold>\<open>Theories.\<close>
  \<^item> \<^theory_text>\<open>Prelude\<close>: the machine types, the error codes of \<^verbatim>\<open>kernel/config.h\<close>, little endian numbers, C
    strings as byte lists without 0, shared lemmas.
  \<^item> \<^theory_text>\<open>Heap\<close>: \<^verbatim>\<open>kernel/memory/heap/heap.c\<close> and \<^verbatim>\<open>kernel/kmem/kheap.c\<close>. The block table is decoded to
    a list of segments; \<open>live\<close> is the map from addresses to sizes it stands for. malloc and free refine
    insert and delete on that map, fail exactly when they must, and undo each other. The locale
    \<open>allocator\<close> is the contract the kernel relies on, interpreted on the code.
  \<^item> \<^theory_text>\<open>Ctype\<close>, \<^theory_text>\<open>CString\<close>: \<^verbatim>\<open>libc/ctype/ctype.c\<close>, \<^verbatim>\<open>libc/string/string.c\<close>. Loops over strings without a
    bound are \<open>partial_function\<close>s, their termination on proper strings is proved; memmove is correct on
    overlapping ranges.
  \<^item> \<^theory_text>\<open>PathParser\<close>: \<^verbatim>\<open>file_system/path_parser.c\<close>. The resolver computes a walk on a stack of names, its
    results are normal and fit, and parsing inverts rendering.
  \<^item> \<^theory_text>\<open>Paging\<close>, \<^theory_text>\<open>AddressSpace\<close>: \<^verbatim>\<open>kernel/memory/paging/page.c\<close> and the user pages of
    \<^verbatim>\<open>kernel/task/task.c\<close>. \<open>mmu\<close> is the translation of the processor; \<open>mm_ok\<close> is the invariant that user
    directories own their tables and frames; isolation of programs and the effect of copying into
    one follow. \<open>spaces\<close> are the states that programs reach from a kernel without user
    spaces by starting, mapping, filling and ending in any order.
  \<^item> \<^theory_text>\<open>KState\<close>, \<^theory_text>\<open>Sched\<close>: \<^verbatim>\<open>kernel/task/sched.c\<close>. The pick is maximal for the policy, round robin does not
    starve, a tick wakes exactly the due sleepers across the wrap of the tick counter.
  \<^item> \<^theory_text>\<open>Mutex\<close>: \<^verbatim>\<open>kernel/task/mutex.c\<close> with blocking and waking. One invariant covers references, owners,
    waiters and inherited priorities. \<open>mutex_boost_loop\<close> follows the chain of owners with fuel; the
    code bounds the chain by \<open>MAX_TASKS\<close> steps, which is the fuel.
  \<^item> \<^theory_text>\<open>ByteQueue\<close>, \<^theory_text>\<open>Pipe\<close>, \<^theory_text>\<open>Keyboard\<close>: the locale of a bounded byte queue with its FIFO theorem,
    interpreted on the pipes of \<^verbatim>\<open>kernel/task/pipe.c\<close> and on the input buffer of
    \<^verbatim>\<open>drivers/keyboard/keyboard.c\<close>. For pipes there are no lost wake-ups.
  \<^item> \<^theory_text>\<open>FatName\<close>, \<^theory_text>\<open>DiskStream\<close>, \<^theory_text>\<open>FatTable\<close>, \<^theory_text>\<open>FatFile\<close>: \<^verbatim>\<open>file_system/fat/fat16.c\<close>, \<^verbatim>\<open>drivers/disk\<close>. Names: round
    trips of short and long names, fresh aliases. Streams: a write changes its bytes only.
    A position is a C \<^verbatim>\<open>int32_t\<close> and a sector number has 28 bits, as in the code; where the code would leave its buffer
    or its drive the access is \<open>None\<close>, and the theorems are for volumes that stay below (\<open>disk_ok\<close>). Table:
    \<open>fs_ok\<close> is the invariant of a mounted volume (memory copy and disk agree, geometry is sound);
    allocation and release of clusters; freeing a chain ends on every table, whatever its entries. Files: reading and writing against
    the abstract content of a cluster chain. The loop that counts the items of a directory
    ends in the model at \<open>2 ^ 26\<close> items, where the byte offset leaves 32 bits; a chain of a sound volume
    ends long before, on a cyclic chain the code does not end.
  \<^item> \<^theory_text>\<open>FileApi\<close>: \<^verbatim>\<open>file_system/file.c\<close> and \<^verbatim>\<open>libc/stdio/stdio.c\<close>, the table of open files.
  \<^item> \<^theory_text>\<open>Terminal\<close>, \<^theory_text>\<open>Devices\<close>: \<^verbatim>\<open>drivers/screen\<close>, the kernel's printf, \<^verbatim>\<open>drivers/mouse/mouse.c\<close>,
    \<^verbatim>\<open>drivers/rtc/rtc.c\<close>. What a device answers is an argument.
  \<^item> \<^theory_text>\<open>Handle\<close>, \<^theory_text>\<open>Task\<close>, \<^theory_text>\<open>Syscall\<close>: \<^verbatim>\<open>kernel/task/handle.c\<close>, \<^verbatim>\<open>kernel/task/task.c\<close>,
    \<^verbatim>\<open>kernel/syscall/syscall.c\<close>, \<^verbatim>\<open>kernel/idt/idt.c\<close>. The loop that collects a line has the capacity of the
    keyboard buffer as fuel, each round takes a key from it and no interrupt adds one meanwhile; a
    lemma shows that it is enough.
  \<^item> \<^theory_text>\<open>Descriptors\<close>: who refers to a handle, a pipe end and an open file, and what the calls on descriptors keep of that.
  \<^item> \<^theory_text>\<open>Elf\<close>: \<^verbatim>\<open>kernel/task/elf.c\<close>. The locale \<open>elf_copier\<close> is what the loader needs of the
    function that copies into a program; \<open>task_copy_to_user\<close> is its instance.
  \<^item> \<^theory_text>\<open>Int64\<close>, \<^theory_text>\<open>UserSort\<close>, \<^theory_text>\<open>UserHeap\<close>: of the programs, the 64 bit division of \<^verbatim>\<open>user/lib/int64.c\<close>, qsort, bsearch
    and the sort program, and malloc of \<^verbatim>\<open>user/lib/moos.c\<close> over the system call sbrk, whose contract
    is the locale \<open>program_break\<close>.
  \<^item> \<^theory_text>\<open>UserFormat\<close>: \<^verbatim>\<open>vsnprintf\<close> and \<^verbatim>\<open>atoi\<close> of \<^verbatim>\<open>user/lib/moos.c\<close>, the \<^verbatim>\<open>strto\<close> functions of
    \<^verbatim>\<open>user/libc/stdlib.c\<close>. \<open>formatted\<close> is the whole text of a format, a buffer gets the part that fits;
    printed numbers are read back.
  \<^item> \<^theory_text>\<open>Canvas\<close>: the drawing of the desktop, \<^verbatim>\<open>user/deskdraw.c\<close>. \<open>pixel\<close> reads the packed buffer as a picture;
    what a box, a pattern or an outline changes is stated on pixels, from the one lemma on \<open>span\<close>.
  \<^item> \<^theory_text>\<open>Editor\<close>: the vi editor of the desktop, \<^verbatim>\<open>user/deskedit.c\<close>: lines, words, motions, operators, the
    register, undo, the three modes, loading and saving. \<open>editor_ok\<close> is its invariant.
  \<^item> \<^theory_text>\<open>EditorKeys\<close>: what every key does to the invariant and to the text for undo, command by command.
  \<^item> \<^theory_text>\<open>Shell\<close>: \<^verbatim>\<open>user/sh.c\<close> up to the programs of a line: words, pipelines, the prefixes \<^verbatim>\<open>run\<close> and
    \<^verbatim>\<open>prio\<close>. \<open>valid_pipeline\<close> is what a line can start.
  \<^item> \<^theory_text>\<open>ShellRun\<close>: how the programs of a pipeline are started. The locale \<open>shell_kernel\<close> is what the shell relies on
    of its descriptors; it is interpreted on the kernel of this development.

  \<^bold>\<open>Not modelled.\<close> Assembly and port protocols (boot loader, context switch, the descriptor
  tables of the processor, the serial port, the setup of timer, mouse and graphics registers): they
  have no logic the kernel functions depend on beyond what is an argument here. The start of the
  kernel in \<^verbatim>\<open>kernel/kernel.c\<close> calls the initialisers in turn. Addresses of the C strings in
  \<^theory_text>\<open>CString\<close> are natural numbers, so a string does not wrap around the end of the address space. Kernel
  memory exhaustion is modelled where the code checks it; the places where it does not are listed as
  findings of the manifest. Floating point is not modelled. Not modelled of the programs: the text and screen output of the small programs, the builtin commands of the shell, the windows of the desktop and the games, and the C library of the programs beyond the functions above.
\<close>

end
